(* ===== verification/Prelude.thy ===== *)
theory Prelude
  imports Main "HOL-Library.Word"
begin

text \<open>
  What every component of the model shares: the machine integers, the ways a C++
  operation can go wrong (\<open>fault\<close>), the result type of an operation that can go wrong
  with its sequencing, signed 32-bit arithmetic with its overflow written out, and the
  generic facts on lists the component proofs use.

  The model follows the debug build, in which DCHECK and NOTREACHED stop the program as
  CHECK does in every build: each is a \<open>fault\<close> of the operation that contains it.  A
  theorem that an operation returns \<open>Inr\<close> therefore shows that no assertion fires and
  that nothing undefined happens, so that debug and release builds agree on it.
\<close>

unbundle bit_operations_syntax

type_synonym u8 = "8 word"
type_synonym u16 = "16 word"
type_synonym u32 = "32 word"

text \<open>A C++ object's address.  Address 0 is NULL.\<close>

type_synonym ptr = nat

datatype fault =
    CheckFailed
  | DcheckFailed
  | NotReached
  | Undefined
  | BadAlloc
  | Overflow
  | Blocked

type_synonym 'a res = "fault + 'a"

named_theorems model_simps "unfoldings of the model's small operations"
named_theorems inv_intros "preservation lemmas of the component invariants"

subsection \<open>Sequencing of operations that can fail\<close>

definition and_then :: "'a res \<Rightarrow> ('a \<Rightarrow> 'b res) \<Rightarrow> 'b res" where
  "and_then m f = (case m of Inl e \<Rightarrow> Inl e | Inr x \<Rightarrow> f x)"

definition check :: "fault \<Rightarrow> bool \<Rightarrow> 'a res \<Rightarrow> 'a res" where
  "check e b m = (if b then m else Inl e)"

abbreviation CHECK :: "bool \<Rightarrow> 'a res \<Rightarrow> 'a res" where
  "CHECK \<equiv> check CheckFailed"

abbreviation DCHECK :: "bool \<Rightarrow> 'a res \<Rightarrow> 'a res" where
  "DCHECK \<equiv> check DcheckFailed"

lemma and_then_simps [simp]:
  "and_then (Inl e) f = Inl e"
  "and_then (Inr x) f = f x"
  by (simp_all add: and_then_def)

lemma and_then_Inr_iff:
  "and_then m f = Inr y \<longleftrightarrow> (\<exists>x. m = Inr x \<and> f x = Inr y)"
  by (cases m) auto

lemma and_then_InrE [elim!]:
  assumes "and_then m f = Inr y"
  obtains x where "m = Inr x" "f x = Inr y"
  using assms by (auto simp: and_then_Inr_iff)

lemma check_simps [simp]:
  "check e True m = m"
  "check e False m = Inl e"
  by (simp_all add: check_def)

lemma check_Inr_iff: "check e b m = Inr y \<longleftrightarrow> b \<and> m = Inr y"
  by (simp add: check_def)

lemma check_InrE [elim!]:
  assumes "check e b m = Inr y"
  obtains "b" "m = Inr y"
  using assms by (auto simp: check_Inr_iff)

text \<open>The loop that stops at the first fault.\<close>

fun for_each :: "('a \<Rightarrow> 's \<Rightarrow> 's res) \<Rightarrow> 'a list \<Rightarrow> 's \<Rightarrow> 's res" where
  "for_each f [] s = Inr s"
| "for_each f (x # xs) s = and_then (f x s) (for_each f xs)"

lemma for_each_append: "for_each f (xs @ ys) s = and_then (for_each f xs s) (for_each f ys)"
  by (induction xs arbitrary: s) (auto simp: and_then_def split: sum.splits)

lemma for_each_invariant:
  assumes "for_each f xs s = Inr t" and "P s"
    and "\<And>x s t. x \<in> set xs \<Longrightarrow> P s \<Longrightarrow> f x s = Inr t \<Longrightarrow> P t"
  shows "P t"
  using assms
proof (induction xs arbitrary: s)
  case Nil
  then show ?case by simp
next
  case (Cons x xs)
  then obtain s' where "f x s = Inr s'" "for_each f xs s' = Inr t" by auto
  with Cons show ?case by (meson list.set_intros)
qed

subsection \<open>Signed 32-bit arithmetic\<close>

text \<open>
  A C++ \<open>int\<close> is a HOL \<open>int\<close> in the range below; an operation whose exact result leaves
  the range is undefined behaviour in C++ and the fault \<open>Overflow\<close> here.
\<close>

definition in_int32 :: "int \<Rightarrow> bool" where
  "in_int32 i \<longleftrightarrow> - 2147483648 \<le> i \<and> i \<le> 2147483647"

definition int32_of :: "int \<Rightarrow> int res" where
  "int32_of i = (if in_int32 i then Inr i else Inl Overflow)"

lemma int32_of_Inr_iff [simp]: "int32_of i = Inr j \<longleftrightarrow> in_int32 i \<and> j = i"
  by (auto simp: int32_of_def)

text \<open>C++ division and remainder truncate towards zero.\<close>

definition trunc_div :: "int \<Rightarrow> int \<Rightarrow> int" where
  "trunc_div a b = sgn a * sgn b * (\<bar>a\<bar> div \<bar>b\<bar>)"

definition trunc_mod :: "int \<Rightarrow> int \<Rightarrow> int" where
  "trunc_mod a b = a - b * trunc_div a b"

lemma trunc_div_nonneg [simp]: "0 \<le> a \<Longrightarrow> 0 < b \<Longrightarrow> trunc_div a b = a div b"
  by (cases "a = 0") (simp_all add: trunc_div_def)

lemma trunc_mod_nonneg [simp]: "0 \<le> a \<Longrightarrow> 0 < b \<Longrightarrow> trunc_mod a b = a mod b"
  by (simp add: trunc_mod_def minus_mult_div_eq_mod)

subsection \<open>Lists kept in the order of a key\<close>

text \<open>
  \<open>std::map\<close> and \<open>std::multimap\<close> iterate in the order of their keys, which for pointer
  keys is the order of addresses; the model keeps the pairs as a list in that order.
\<close>

fun map_put :: "'k::linorder \<Rightarrow> 'v \<Rightarrow> ('k \<times> 'v) list \<Rightarrow> ('k \<times> 'v) list" where
  "map_put k v [] = [(k, v)]"
| "map_put k v ((k', v') # xs) =
     (if k < k' then (k, v) # (k', v') # xs
      else if k = k' then (k, v) # xs
      else (k', v') # map_put k v xs)"

definition map_erase :: "'k \<Rightarrow> ('k \<times> 'v) list \<Rightarrow> ('k \<times> 'v) list" where
  "map_erase k xs = filter (\<lambda>(k', _). k' \<noteq> k) xs"

definition map_keys_ok :: "('k::linorder \<times> 'v) list \<Rightarrow> bool" where
  "map_keys_ok xs \<longleftrightarrow> sorted_wrt (<) (map fst xs)"

lemma map_keys_ok_Nil [simp]: "map_keys_ok []"
  by (simp add: map_keys_ok_def)

lemma map_keys_ok_Cons [simp]:
  "map_keys_ok (x # xs) \<longleftrightarrow> (\<forall>y \<in> set xs. fst x < fst y) \<and> map_keys_ok xs"
  by (simp add: map_keys_ok_def)

lemma set_map_put_keys: "fst ` set (map_put k v xs) = insert k (fst ` set xs)"
proof (induction xs)
  case Nil
  then show ?case by simp
next
  case (Cons x xs)
  then show ?case by (cases x) (simp add: insert_commute)
qed

lemma map_keys_ok_put: "map_keys_ok xs \<Longrightarrow> map_keys_ok (map_put k v xs)"
proof (induction xs)
  case Nil
  then show ?case by simp
next
  case (Cons x xs)
  obtain k' v' where x: "x = (k', v')" by (cases x)
  have "y \<in> set (map_put k v xs) \<Longrightarrow> fst y = k \<or> fst y \<in> fst ` set xs" for y
    using set_map_put_keys [of k v xs] by (metis image_eqI insertE)
  with Cons x show ?case by (fastforce split: if_splits)
qed

lemma map_of_put: "map_keys_ok xs \<Longrightarrow> map_of (map_put k v xs) = (map_of xs)(k \<mapsto> v)"
proof (induction xs)
  case Nil
  then show ?case by simp
next
  case (Cons x xs)
  obtain k' v' where x: "x = (k', v')" by (cases x)
  show ?case
  proof (cases "k < k'")
    case True
    then show ?thesis using x by auto
  next
    case False
    then show ?thesis using Cons x by (auto simp: fun_upd_twist)
  qed
qed

lemma map_keys_ok_filter: "map_keys_ok xs \<Longrightarrow> map_keys_ok (filter P xs)"
  by (induction xs) auto

lemma map_keys_ok_erase: "map_keys_ok xs \<Longrightarrow> map_keys_ok (map_erase k xs)"
  by (simp add: map_erase_def map_keys_ok_filter)

lemma map_of_erase: "map_of (map_erase k xs) = (map_of xs)(k := None)"
  by (induction xs) (auto simp: map_erase_def fun_eq_iff)

lemma set_map_erase: "set (map_erase k xs) = {x \<in> set xs. fst x \<noteq> k}"
  by (auto simp: map_erase_def)

lemma map_keys_ok_distinct: "map_keys_ok xs \<Longrightarrow> distinct (map fst xs)"
  by (induction xs) auto

lemma map_of_eq_Some_iff_ok: "map_keys_ok xs \<Longrightarrow> map_of xs k = Some v \<longleftrightarrow> (k, v) \<in> set xs"
  by (simp add: map_keys_ok_distinct)

lemma map_keys_ok_inj:
  "map_keys_ok xs \<Longrightarrow> x \<in> set xs \<Longrightarrow> y \<in> set xs \<Longrightarrow> fst x = fst y \<Longrightarrow> x = y"
  by (metis map_of_eq_Some_iff_ok option.inject prod.collapse)

lemma set_map_put:
  "map_keys_ok xs \<Longrightarrow> set (map_put k v xs) = insert (k, v) {x \<in> set xs. fst x \<noteq> k}"
proof (induction xs)
  case Nil
  then show ?case by simp
next
  case (Cons x xs)
  then show ?case by (cases x) (fastforce split: if_splits)
qed

end
