(* ===== verification/Endian.thy ===== *)
theory Endian
  imports Prelude
begin

text \<open>
  Byte order, device/endian.h.  A buffer is a list of bytes; the templates
  ReadBigEndian, WriteBigEndian, ReadLittleEndian and WriteLittleEndian are polymorphic in
  the word type and take its size from \<open>LENGTH('a)\<close>, as the source takes it from
  \<open>sizeof(T)\<close>.  \<open>char\<close> is signed, so the first byte read is sign-extended, as in
  \<open>*out = buf[0]\<close>; the shifts of the loop push the extension out.  A read past the end
  of the buffer is the fault \<open>Undefined\<close>.

  The locale \<open>byte_codec\<close> is the contract the binds rely on: an encoder of fixed width
  and a decoder that are inverse to each other.
\<close>

subsection \<open>The loops of the source\<close>

fun shift_in :: "'a::len word \<Rightarrow> u8 list \<Rightarrow> 'a word" where
  "shift_in out [] = out"
| "shift_in out (b # bs) = shift_in (push_bit 8 out OR ucast b) bs"

definition ReadBigEndian :: "u8 list \<Rightarrow> 'a::len word res" where
  "ReadBigEndian buf =
     (let n = LENGTH('a) div 8 in
      if length buf < n then Inl Undefined
      else Inr (shift_in (scast (buf ! 0)) (map (\<lambda>i. buf ! i) [1..<n])))"

definition ReadLittleEndian :: "u8 list \<Rightarrow> 'a::len word res" where
  "ReadLittleEndian buf =
     (let n = LENGTH('a) div 8 in
      if length buf < n then Inl Undefined
      else Inr (shift_in (scast (buf ! (n - 1))) (map (\<lambda>i. buf ! (n - i - 1)) [1..<n])))"

fun write_loop :: "(nat \<Rightarrow> nat) \<Rightarrow> nat list \<Rightarrow> u8 list \<Rightarrow> 'a::len word \<Rightarrow> u8 list" where
  "write_loop pos [] buf val = buf"
| "write_loop pos (i # is) buf val =
     write_loop pos is (buf[pos i := ucast (val AND 0xFF)]) (drop_bit 8 val)"

definition WriteBigEndian :: "'a::len word \<Rightarrow> u8 list" where
  "WriteBigEndian val =
     (let n = LENGTH('a) div 8 in
      write_loop (\<lambda>i. n - i - 1) [0..<n] (replicate n 0) val)"

definition WriteLittleEndian :: "'a::len word \<Rightarrow> u8 list" where
  "WriteLittleEndian val =
     (let n = LENGTH('a) div 8 in write_loop (\<lambda>i. i) [0..<n] (replicate n 0) val)"

subsection \<open>What the loops compute, bit by bit\<close>

lemma bit_shift_in:
  fixes out :: "'a::len word"
  shows "bit (shift_in out bs) k \<longleftrightarrow>
     k < LENGTH('a) \<and>
     (if k < 8 * length bs then bit (bs ! (length bs - 1 - k div 8)) (k mod 8)
      else bit out (k - 8 * length bs))"
proof (induction bs arbitrary: out)
  case Nil
  then show ?case by (auto simp: bit_imp_le_length)
next
  case (Cons b bs)
  let ?l = "length bs"
  have step: "bit (push_bit 8 out OR ucast b) (k - 8 * ?l) \<longleftrightarrow>
      (if k < 8 * Suc ?l then bit b (k - 8 * ?l) else bit out (k - 8 * Suc ?l))"
    if "k < LENGTH('a)" "8 * ?l \<le> k"
    using that bit_imp_le_length [of b "k - 8 * ?l"]
    by (auto simp: bit_simps algebra_simps)
  have idx: "(b # bs) ! (?l - k div 8) = bs ! (?l - 1 - k div 8)" if "k < 8 * ?l"
  proof -
    have "k div 8 < ?l" using that by (simp add: div_less_iff_less_mult)
    then have "?l - k div 8 = Suc (?l - 1 - k div 8)" by arith
    then show ?thesis by (simp only: nth_Cons_Suc)
  qed
  have low: "k div 8 = ?l \<and> k mod 8 = k - 8 * ?l" if "8 * ?l \<le> k" "k < 8 * Suc ?l"
  proof -
    have "k div 8 = ?l" using that by (intro div_nat_eqI) simp_all
    then show ?thesis by (simp add: modulo_nat_def mult.commute)
  qed
  show ?case
    using Cons.IH [of "push_bit 8 out OR ucast b"] step idx low by auto
qed

lemma bit_scast_byte:
  "bit (scast (b :: u8) :: 'a::len word) k \<longleftrightarrow> k < LENGTH('a) \<and> bit b (min k 7)"
  by (simp add: bit_simps min.commute)

lemma bit_ReadBigEndian:
  fixes w :: "'a::len word"
  assumes "8 dvd LENGTH('a)" and "ReadBigEndian buf = Inr w" and "k < LENGTH('a)"
  shows "bit w k \<longleftrightarrow> bit (buf ! (LENGTH('a) div 8 - 1 - k div 8)) (k mod 8)"
proof -
  let ?n = "LENGTH('a) div 8"
  from assms have n: "0 < ?n" "8 * ?n = LENGTH('a)" "?n \<le> length buf"
    and w: "w = shift_in (scast (buf ! 0)) (map (\<lambda>i. buf ! i) [1..<?n])"
    by (auto simp: ReadBigEndian_def Let_def dvd_def split: if_splits)
  show ?thesis
  proof (cases "k < 8 * (?n - 1)")
    case True
    then have "k div 8 < ?n - 1" by (simp add: div_less_iff_less_mult mult.commute)
    moreover have "q < m - 1 \<Longrightarrow> Suc (m - 1 - 1 - q) = m - 1 - q \<and> m - 1 - 1 - q < m - 1"
      for q m :: nat by arith
    ultimately have ix: "Suc (?n - 1 - 1 - k div 8) = ?n - 1 - k div 8"
        "?n - 1 - 1 - k div 8 < ?n - 1"
      by blast+
    then have "[Suc 0..<?n] ! (?n - 1 - 1 - k div 8) = ?n - 1 - k div 8"
      using \<open>k div 8 < ?n - 1\<close> by (subst nth_upt) (simp_all, arith)
    with ix show ?thesis using True assms(3) w by (simp add: bit_shift_in)
  next
    case False
    have "8 * Suc (?n - 1) = LENGTH('a)" using n by simp
    then have kd: "k div 8 = ?n - 1" using False assms(3) by (intro div_nat_eqI) simp_all
    then have "k mod 8 = k - 8 * (?n - 1)" by (simp add: modulo_nat_def mult.commute)
    moreover have "k - 8 * (?n - 1) < 8" using False assms(3) n by linarith
    moreover note kd
    moreover from this have "min (k - 8 * (?n - 1)) 7 = k - 8 * (?n - 1)" by simp
    moreover have "k - 8 * (?n - 1) < LENGTH('a)" using assms(3) by linarith
    ultimately show ?thesis
      using False assms(3) w by (simp add: bit_shift_in bit_scast_byte)
  qed
qed

lemma ReadLittleEndian_rev:
  assumes "length buf = LENGTH('a) div 8"
  shows "(ReadLittleEndian buf :: 'a::len word res) = ReadBigEndian (rev buf)"
proof (cases "LENGTH('a) div 8 = 0")
  case True
  then show ?thesis
    using assms by (simp add: ReadLittleEndian_def ReadBigEndian_def)
next
  case False
  have "buf ! (LENGTH('a) div 8 - i - 1) = rev buf ! i" if "i < LENGTH('a) div 8" for i
    using that assms by (simp add: rev_nth)
  then have "map (\<lambda>i. buf ! (LENGTH('a) div 8 - i - 1)) [1..<LENGTH('a) div 8]
      = map (\<lambda>i. rev buf ! i) [1..<LENGTH('a) div 8]" by simp
  moreover have "buf ! (LENGTH('a) div 8 - 1) = rev buf ! 0"
    using assms False by (simp add: rev_nth)
  ultimately show ?thesis
    using assms by (simp only: ReadLittleEndian_def ReadBigEndian_def Let_def length_rev)
qed

lemma low_byte_mask: "(0xFF :: 'a::len word) = mask 8"
  by (simp add: mask_eq_exp_minus_1)

lemma ucast_low_byte: "ucast ((v :: 'a::len word) AND 0xFF) = (ucast v :: u8)"
  unfolding low_byte_mask by (rule bit_word_eqI) (auto simp: bit_simps bit_imp_le_length)

lemma write_loop_little:
  fixes v :: "'a::len word"
  assumes "length buf = n" and "k \<le> n"
  shows "write_loop (\<lambda>i. i) [k..<n] buf (drop_bit (8 * k) v) =
     take k buf @ map (\<lambda>i. ucast (drop_bit (8 * i) v)) [k..<n]"
  using assms
proof (induction "n - k" arbitrary: k buf)
  case 0
  then show ?case by simp
next
  case (Suc d)
  then have k: "k < n" and d: "d = n - Suc k" by simp_all
  let ?buf = "buf[k := ucast (drop_bit (8 * k) v)]"
  have "write_loop (\<lambda>i. i) [Suc k..<n] ?buf (drop_bit (8 * Suc k) v) =
     take (Suc k) ?buf @ map (\<lambda>i. ucast (drop_bit (8 * i) v)) [Suc k..<n]"
    using Suc.hyps(1) [OF d, of ?buf] Suc.prems k by simp
  then show ?case
    using k Suc.prems
    by (simp add: upt_conv_Cons ucast_low_byte drop_bit_drop_bit take_Suc_conv_app_nth
        algebra_simps)
qed

lemma WriteLittleEndian_bytes:
  "WriteLittleEndian (v :: 'a::len word) =
     map (\<lambda>i. ucast (drop_bit (8 * i) v)) [0..<LENGTH('a) div 8]"
  using write_loop_little [of "replicate (LENGTH('a) div 8) 0" "LENGTH('a) div 8" 0 v]
  by (simp add: WriteLittleEndian_def Let_def)

lemma write_loop_rev:
  assumes "length xs = n" and "\<forall>i \<in> set is. i < n"
  shows "write_loop (\<lambda>i. n - i - 1) is (rev xs) v = rev (write_loop (\<lambda>i. i) is xs v)"
  using assms
proof (induction "is" arbitrary: xs v)
  case Nil
  then show ?case by simp
next
  case (Cons i "is")
  have "(rev xs)[n - Suc i := b] = rev (xs[i := b])" for b
    using Cons.prems by (simp add: rev_update)
  with Cons show ?case by simp
qed

lemma WriteBigEndian_rev: "WriteBigEndian v = rev (WriteLittleEndian v)"
proof -
  have "write_loop (\<lambda>i. LENGTH('a) div 8 - i - 1) [0..<LENGTH('a) div 8]
      (rev (replicate (LENGTH('a) div 8) 0)) v
    = rev (write_loop (\<lambda>i. i) [0..<LENGTH('a) div 8] (replicate (LENGTH('a) div 8) 0) v)"
    by (rule write_loop_rev) simp_all
  then show ?thesis by (simp add: WriteBigEndian_def WriteLittleEndian_def Let_def)
qed

subsection \<open>Round trips\<close>

lemma length_WriteLittleEndian [simp]:
  "length (WriteLittleEndian (v :: 'a::len word)) = LENGTH('a) div 8"
  by (simp add: WriteLittleEndian_bytes)

lemma length_WriteBigEndian [simp]:
  "length (WriteBigEndian (v :: 'a::len word)) = LENGTH('a) div 8"
  by (simp add: WriteBigEndian_rev)

lemma ReadBigEndian_total:
  assumes "LENGTH('a) div 8 \<le> length buf"
  shows "\<exists>w. ReadBigEndian buf = Inr (w :: 'a::len word)"
  using assms by (simp add: ReadBigEndian_def Let_def)

lemma ReadLittleEndian_total:
  assumes "LENGTH('a) div 8 \<le> length buf"
  shows "\<exists>w. ReadLittleEndian buf = Inr (w :: 'a::len word)"
  using assms by (simp add: ReadLittleEndian_def Let_def)

lemma WriteBigEndian_nth:
  assumes "i < LENGTH('a) div 8"
  shows "WriteBigEndian (v :: 'a::len word) ! i = ucast (drop_bit (8 * (LENGTH('a) div 8 - 1 - i)) v)"
  using assms by (simp add: WriteBigEndian_rev WriteLittleEndian_bytes rev_nth)

lemma WriteLittleEndian_nth:
  assumes "i < LENGTH('a) div 8"
  shows "WriteLittleEndian (v :: 'a::len word) ! i = ucast (drop_bit (8 * i) v)"
  using assms by (simp add: WriteLittleEndian_bytes)

lemma ReadBigEndian_WriteBigEndian:
  assumes "8 dvd LENGTH('a)"
  shows "ReadBigEndian (WriteBigEndian v) = Inr (v :: 'a::len word)"
proof -
  let ?n = "LENGTH('a) div 8"
  obtain w where w: "ReadBigEndian (WriteBigEndian v) = Inr (w :: 'a word)"
    using ReadBigEndian_total [of "WriteBigEndian v"] by auto
  have "w = v"
  proof (rule bit_word_eqI)
    fix k assume k: "k < LENGTH('a)"
    from assms k have i: "k div 8 < ?n" by (auto simp: dvd_def less_mult_imp_div_less mult.commute)
    have "bit w k \<longleftrightarrow> bit (WriteBigEndian v ! (?n - 1 - k div 8)) (k mod 8)"
      using bit_ReadBigEndian [OF assms w k] .
    also have "\<dots> \<longleftrightarrow> bit v (8 * (k div 8) + k mod 8)"
      using i by (simp add: WriteBigEndian_nth bit_simps)
    finally show "bit w k \<longleftrightarrow> bit v k" by simp
  qed
  with w show ?thesis by simp
qed

lemma WriteBigEndian_ReadBigEndian:
  assumes "8 dvd LENGTH('a)" and "ReadBigEndian buf = Inr (w :: 'a::len word)"
    and "length buf = LENGTH('a) div 8"
  shows "WriteBigEndian w = buf"
proof (rule nth_equalityI)
  show "length (WriteBigEndian w) = length buf" using assms(3) by simp
next
  fix i assume "i < length (WriteBigEndian w)"
  then have i: "i < LENGTH('a) div 8" by simp
  let ?j = "LENGTH('a) div 8 - 1 - i"
  show "WriteBigEndian w ! i = buf ! i"
  proof (rule bit_word_eqI)
    fix k assume k: "k < LENGTH(8)"
    have "8 * ?j + k < LENGTH('a)" "(8 * ?j + k) div 8 = ?j" "(8 * ?j + k) mod 8 = k"
      using i k assms(1) by (auto simp: dvd_def)
    then have "bit w (8 * ?j + k) \<longleftrightarrow> bit (buf ! i) k"
      using bit_ReadBigEndian [OF assms(1,2), of "8 * ?j + k"] i by simp
    then show "bit (WriteBigEndian w ! i) k \<longleftrightarrow> bit (buf ! i) k"
      using i k by (simp add: WriteBigEndian_nth bit_simps)
  qed
qed

lemma ReadLittleEndian_WriteLittleEndian:
  "8 dvd LENGTH('a) \<Longrightarrow> ReadLittleEndian (WriteLittleEndian v) = Inr (v :: 'a::len word)"
  using ReadBigEndian_WriteBigEndian [of v] by (simp add: ReadLittleEndian_rev WriteBigEndian_rev)

lemma WriteLittleEndian_ReadLittleEndian:
  assumes "8 dvd LENGTH('a)" and "ReadLittleEndian buf = Inr (w :: 'a::len word)"
    and "length buf = LENGTH('a) div 8"
  shows "WriteLittleEndian w = buf"
proof -
  have "WriteBigEndian w = rev buf"
    using assms by (intro WriteBigEndian_ReadBigEndian) (simp_all add: ReadLittleEndian_rev)
  then show ?thesis by (simp add: WriteBigEndian_rev)
qed

lemma bit_ReadLittleEndian:
  fixes w :: "'a::len word"
  assumes "8 dvd LENGTH('a)" and "ReadLittleEndian buf = Inr w"
    and "length buf = LENGTH('a) div 8" and "k < LENGTH('a)"
  shows "bit w k \<longleftrightarrow> bit (buf ! (k div 8)) (k mod 8)"
proof -
  have "k div 8 < LENGTH('a) div 8"
    using assms(1,4) by (auto simp: dvd_def less_mult_imp_div_less mult.commute)
  then show ?thesis
    using bit_ReadBigEndian [of "rev buf" w k] assms
    by (simp add: ReadLittleEndian_rev rev_nth)
qed

subsection \<open>The contract of a fixed-width codec\<close>

locale byte_codec =
  fixes width :: nat
    and decode :: "u8 list \<Rightarrow> 'v res"
    and encode :: "'v \<Rightarrow> u8 list"
  assumes length_encode: "length (encode v) = width"
    and decode_encode: "decode (encode v) = Inr v"
    and decode_total: "length bs = width \<Longrightarrow> \<exists>v. decode bs = Inr v"
    and encode_decode: "length bs = width \<Longrightarrow> decode bs = Inr v \<Longrightarrow> encode v = bs"
begin

lemma decode_inject:
  assumes "length bs = width" and "length cs = width" and "decode bs = decode cs"
  shows "bs = cs"
  using assms decode_total [of bs] encode_decode by metis

lemma encode_inject: "encode v = encode w \<Longrightarrow> v = w"
  by (metis decode_encode sum.inject(2))

end

lemma big_endian_codec:
  assumes "8 dvd LENGTH('a)"
  shows "byte_codec (LENGTH('a) div 8) (ReadBigEndian :: u8 list \<Rightarrow> 'a::len word res) WriteBigEndian"
  using assms
  by unfold_locales
    (simp_all add: ReadBigEndian_WriteBigEndian WriteBigEndian_ReadBigEndian
      ReadBigEndian_total)

lemma little_endian_codec:
  assumes "8 dvd LENGTH('a)"
  shows "byte_codec (LENGTH('a) div 8) (ReadLittleEndian :: u8 list \<Rightarrow> 'a::len word res) WriteLittleEndian"
  using assms
  by unfold_locales
    (simp_all add: ReadLittleEndian_WriteLittleEndian WriteLittleEndian_ReadLittleEndian
      ReadLittleEndian_total)

interpretation be16: byte_codec 2 "ReadBigEndian :: u8 list \<Rightarrow> u16 res" WriteBigEndian
  using big_endian_codec [where 'a = 16] by simp

interpretation be32: byte_codec 4 "ReadBigEndian :: u8 list \<Rightarrow> u32 res" WriteBigEndian
  using big_endian_codec [where 'a = 32] by simp

interpretation le16: byte_codec 2 "ReadLittleEndian :: u8 list \<Rightarrow> u16 res" WriteLittleEndian
  using little_endian_codec [where 'a = 16] by simp

interpretation le32: byte_codec 4 "ReadLittleEndian :: u8 list \<Rightarrow> u32 res" WriteLittleEndian
  using little_endian_codec [where 'a = 32] by simp

subsection \<open>Properties\<close>

text \<open>
  Reading what was written gives the value back and writing what was read gives the
  bytes back, in both byte orders and for every width that is a number of bytes; and the
  order of the bytes is the one the names say.
\<close>

theorem endian_roundtrip:
  fixes v :: "'a::len word"
  assumes "8 dvd LENGTH('a)" and "length bs = LENGTH('a) div 8"
  shows "ReadBigEndian (WriteBigEndian v) = Inr v \<and> ReadLittleEndian (WriteLittleEndian v) = Inr v \<and>
    (\<exists>w :: 'a word. ReadBigEndian bs = Inr w \<and> WriteBigEndian w = bs) \<and>
    (\<exists>w :: 'a word. ReadLittleEndian bs = Inr w \<and> WriteLittleEndian w = bs) \<and>
    (\<forall>i < LENGTH('a) div 8. WriteLittleEndian v ! i = ucast (drop_bit (8 * i) v) \<and>
       WriteBigEndian v ! i = ucast (drop_bit (8 * (LENGTH('a) div 8 - 1 - i)) v))"
proof -
  obtain w w' :: "'a word" where "ReadBigEndian bs = Inr w" "ReadLittleEndian bs = Inr w'"
    using ReadBigEndian_total [of bs] ReadLittleEndian_total [of bs] assms(2) by auto
  then show ?thesis
    using WriteBigEndian_ReadBigEndian [OF assms(1) _ assms(2)]
      WriteLittleEndian_ReadLittleEndian [OF assms(1) _ assms(2)]
      ReadBigEndian_WriteBigEndian [OF assms(1)] ReadLittleEndian_WriteLittleEndian [OF assms(1)]
      WriteBigEndian_nth [of _ v] WriteLittleEndian_nth [of _ v]
    by auto
qed

theorem endian_roundtrip_witness:
  "ReadBigEndian (WriteBigEndian (0x12345678 :: u32)) = Inr (0x12345678 :: u32) \<and>
   WriteLittleEndian (0x12345678 :: u32) ! 0 = 0x78"
  using endian_roundtrip [where 'a = 32 and v = "0x12345678" and bs = "[1, 2, 3, 4]"] by simp

end
