(* ===== verification/Register_Memory.thy ===== *)
theory Register_Memory
  imports Endian
begin

text \<open>
  Raw memory and its owners: byte loads, stores and memcpy on a buffer, and the classes
  RegisterMemory and MemoryContent of device/register_memory.cc.  A \<open>uint8*\<close> into a
  buffer is the offset from its first byte; an access outside the buffer is the fault
  \<open>Undefined\<close>, and so is \<open>&memory_[0]\<close> of an empty vector.  Bytes that \<open>new uint8[n]\<close>
  leaves uninitialised come from the parameter \<open>uninit\<close>.
\<close>

subsection \<open>Loads and stores\<close>

type_synonym mem = "u8 list"

definition load8 :: "mem \<Rightarrow> nat \<Rightarrow> u8 res" where
  "load8 m p = check Undefined (p < length m) (Inr (m ! p))"

definition store8 :: "mem \<Rightarrow> nat \<Rightarrow> u8 \<Rightarrow> mem res" where
  "store8 m p b = check Undefined (p < length m) (Inr (m[p := b]))"

definition load_bytes :: "mem \<Rightarrow> nat \<Rightarrow> nat \<Rightarrow> mem res" where
  "load_bytes m p n = check Undefined (p + n \<le> length m) (Inr (take n (drop p m)))"

definition memcpy_to :: "mem \<Rightarrow> nat \<Rightarrow> u8 list \<Rightarrow> mem res" where
  "memcpy_to m p bs =
     check Undefined (p + length bs \<le> length m)
       (Inr (take p m @ bs @ drop (p + length bs) m))"

text \<open>Bit \<open>p\<close> of a memory: bit \<open>p mod 8\<close> of byte \<open>p div 8\<close>.\<close>

definition mbit :: "mem \<Rightarrow> nat \<Rightarrow> bool" where
  "mbit m p = bit (m ! (p div 8)) (p mod 8)"

definition byte_bits :: "nat \<Rightarrow> nat set" where
  "byte_bits p = {8 * p ..< 8 * p + 8}"

lemma mem_byte_bits [simp]: "q \<in> byte_bits p \<longleftrightarrow> q div 8 = p"
  unfolding byte_bits_def by auto

lemma byte_eq_iff_mbit: "m ! p = m' ! p \<longleftrightarrow> (\<forall>q. q div 8 = p \<longrightarrow> mbit m q = mbit m' q)"
proof
  assume r: "\<forall>q. q div 8 = p \<longrightarrow> mbit m q = mbit m' q"
  show "m ! p = m' ! p"
  proof (rule bit_word_eqI)
    fix k assume "k < LENGTH(8)"
    then have "(8 * p + k) div 8 = p" "(8 * p + k) mod 8 = k" by simp_all
    with r show "bit (m ! p) k = bit (m' ! p) k" unfolding mbit_def by metis
  qed
qed (simp add: mbit_def)

lemma mem_eqI:
  assumes "length m = length m'" and "\<And>q. q < 8 * length m \<Longrightarrow> mbit m q = mbit m' q"
  shows "m = m'"
proof (rule nth_equalityI)
  fix i assume i: "i < length m"
  have "mbit m q = mbit m' q" if "q div 8 = i" for q
    using assms(2) [of q] i that by (auto simp: div_less_iff_less_mult mult.commute)
  then show "m ! i = m' ! i" by (simp add: byte_eq_iff_mbit)
qed (rule assms(1))

lemma store8_Inr_iff [simp]: "store8 m p b = Inr m' \<longleftrightarrow> p < length m \<and> m' = m[p := b]"
  by (auto simp: store8_def check_Inr_iff)

lemma load8_Inr_iff [simp]: "load8 m p = Inr b \<longleftrightarrow> p < length m \<and> b = m ! p"
  by (auto simp: load8_def check_Inr_iff)

lemma load_bytes_Inr_iff:
  "load_bytes m p n = Inr bs \<longleftrightarrow> p + n \<le> length m \<and> bs = take n (drop p m)"
  by (auto simp: load_bytes_def check_Inr_iff)

lemma memcpy_to_Inr_iff:
  "memcpy_to m p bs = Inr m' \<longleftrightarrow>
     p + length bs \<le> length m \<and> m' = take p m @ bs @ drop (p + length bs) m"
  by (auto simp: memcpy_to_def check_Inr_iff)

lemma length_memcpy_to: "memcpy_to m p bs = Inr m' \<Longrightarrow> length m' = length m"
  by (auto simp: memcpy_to_Inr_iff)

lemma nth_memcpy_to:
  "memcpy_to m p bs = Inr m' \<Longrightarrow> i < length m \<Longrightarrow>
     m' ! i = (if p \<le> i \<and> i < p + length bs then bs ! (i - p) else m ! i)"
  by (auto simp: memcpy_to_Inr_iff nth_append)

lemma load_bytes_memcpy_to:
  assumes "memcpy_to m p bs = Inr m'" and "length bs = n"
  shows "load_bytes m' p n = Inr bs"
  using assms by (auto simp: memcpy_to_Inr_iff load_bytes_Inr_iff)

subsection \<open>RegisterMemory\<close>

record RegisterMemory =
  rm_memory :: mem
  rm_start_addr :: u32

definition RegisterMemory_new :: "u32 \<Rightarrow> int \<Rightarrow> RegisterMemory res" where
  "RegisterMemory_new start len =
     DCHECK (0 \<le> len)
      (check Undefined (nat len \<noteq> 0)
        (Inr \<lparr>rm_memory = replicate (nat len) 0, rm_start_addr = start\<rparr>))"

definition PtrByRelative :: "RegisterMemory \<Rightarrow> u32 \<Rightarrow> nat res" where
  "PtrByRelative rm off = DCHECK (unat off < length (rm_memory rm)) (Inr (unat off))"

definition PtrByAbsoulute :: "RegisterMemory \<Rightarrow> u32 \<Rightarrow> nat res" where
  "PtrByAbsoulute rm addr =
     DCHECK (rm_start_addr rm \<le> addr) (PtrByRelative rm (addr - rm_start_addr rm))"

definition RegisterMemory_size :: "RegisterMemory \<Rightarrow> int" where
  "RegisterMemory_size rm = int (length (rm_memory rm))"

definition RegisterMemory_buffer :: "RegisterMemory \<Rightarrow> mem res" where
  "RegisterMemory_buffer rm = check Undefined (rm_memory rm \<noteq> []) (Inr (rm_memory rm))"

text \<open>The two ways to name a register give the same byte.\<close>

lemma PtrByAbsoulute_iff:
  assumes "unat (rm_start_addr rm) + length (rm_memory rm) \<le> 2 ^ 32"
  shows "PtrByAbsoulute rm addr = Inr p \<longleftrightarrow>
     p < length (rm_memory rm) \<and> unat addr = unat (rm_start_addr rm) + p"
proof -
  have "unat (addr - rm_start_addr rm) = unat addr - unat (rm_start_addr rm)"
    if "rm_start_addr rm \<le> addr"
    using that by (simp add: unat_sub)
  then show ?thesis
    by (auto simp: PtrByAbsoulute_def PtrByRelative_def check_Inr_iff word_le_nat_alt)
qed

subsection \<open>MemoryContent\<close>

record MemoryContent =
  mc_size :: int
  mc_content :: "mem option"

definition MemoryContent_empty :: MemoryContent where
  "MemoryContent_empty = \<lparr>mc_size = 0, mc_content = None\<rparr>"

definition MemoryContent_of :: "RegisterMemory \<Rightarrow> MemoryContent res" where
  "MemoryContent_of rm =
     and_then (RegisterMemory_buffer rm) (\<lambda>b.
       Inr \<lparr>mc_size = RegisterMemory_size rm, mc_content = Some b\<rparr>)"

definition SetSize :: "(nat \<Rightarrow> u8) \<Rightarrow> int \<Rightarrow> MemoryContent \<Rightarrow> MemoryContent res" where
  "SetSize uninit n mc =
     (if n = 0 then Inr (mc\<lparr>mc_size := n, mc_content := None\<rparr>)
      else if n < 0 then Inl BadAlloc
      else Inr (mc\<lparr>mc_size := n, mc_content := Some (map uninit [0..<nat n])\<rparr>))"

definition MemoryContent_sized :: "(nat \<Rightarrow> u8) \<Rightarrow> int \<Rightarrow> MemoryContent res" where
  "MemoryContent_sized uninit n = SetSize uninit n MemoryContent_empty"

definition HasContent :: "MemoryContent \<Rightarrow> bool" where
  "HasContent mc \<longleftrightarrow> mc_size mc \<noteq> 0"

text \<open>
  swap takes the other object's size and buffer and leaves the other object's \<open>mc_size\<close>
  as it was, with no buffer; the old buffer of this object is freed.
\<close>

definition swap :: "MemoryContent \<Rightarrow> MemoryContent \<Rightarrow> MemoryContent \<times> MemoryContent" where
  "swap this content =
     (this\<lparr>mc_size := mc_size content, mc_content := mc_content content\<rparr>, content\<lparr>mc_content := None\<rparr>)"

definition SetContent :: "mem option \<Rightarrow> int \<Rightarrow> MemoryContent \<Rightarrow> MemoryContent res" where
  "SetContent p n mc =
     CHECK (n \<noteq> 0) (CHECK (p \<noteq> None) (CHECK (mc_size mc = n)
       (case (mc_content mc, p) of
          (Some dst, Some src) \<Rightarrow>
            and_then (load_bytes src 0 (nat n)) (\<lambda>bs.
            and_then (memcpy_to dst 0 bs) (\<lambda>dst'.
              Inr (mc\<lparr>mc_content := Some dst'\<rparr>)))
        | _ \<Rightarrow> Inl Undefined)))"

definition SetMemory :: "MemoryContent \<Rightarrow> RegisterMemory \<Rightarrow> RegisterMemory res" where
  "SetMemory mc rm =
     CHECK (mc_size mc = RegisterMemory_size rm) (CHECK (mc_size mc \<noteq> 0)
       (case mc_content mc of
          Some src \<Rightarrow>
            and_then (load_bytes src 0 (nat (mc_size mc))) (\<lambda>bs.
            and_then (memcpy_to (rm_memory rm) 0 bs) (\<lambda>m.
              Inr (rm\<lparr>rm_memory := m\<rparr>)))
        | None \<Rightarrow> Inl Undefined))"

text \<open>The state every operation but \<open>swap\<close> keeps: the buffer has the size that is recorded.\<close>

definition content_ok :: "MemoryContent \<Rightarrow> bool" where
  "content_ok mc \<longleftrightarrow>
     0 \<le> mc_size mc \<and>
     (mc_size mc = 0 \<longrightarrow> mc_content mc = None) \<and>
     (mc_size mc \<noteq> 0 \<longrightarrow> (\<exists>b. mc_content mc = Some b \<and> length b = nat (mc_size mc)))"

lemma content_ok_SetSize [inv_intros]: "SetSize u n mc = Inr mc' \<Longrightarrow> content_ok mc'"
  by (auto simp: SetSize_def content_ok_def split: if_splits)

lemma content_ok_of [inv_intros]: "MemoryContent_of rm = Inr mc \<Longrightarrow> content_ok mc"
  by (auto simp: MemoryContent_of_def content_ok_def RegisterMemory_buffer_def
      RegisterMemory_size_def check_Inr_iff)

lemma content_ok_SetContent [inv_intros]:
  assumes "SetContent p n mc = Inr mc'" and "content_ok mc"
  shows "content_ok mc'"
  using assms
  by (auto simp: SetContent_def content_ok_def check_Inr_iff load_bytes_Inr_iff
      memcpy_to_Inr_iff split: option.splits)

lemma SetMemory_whole:
  assumes "content_ok mc" and "mc_size mc = RegisterMemory_size rm" and "mc_size mc \<noteq> 0"
  shows "\<exists>b. mc_content mc = Some b \<and> SetMemory mc rm = Inr (rm\<lparr>rm_memory := b\<rparr>)"
  using assms
  by (auto simp: SetMemory_def content_ok_def check_def load_bytes_def memcpy_to_def
      RegisterMemory_size_def)

text \<open>
  Saving a register memory and writing the saved content back restores the bytes it
  had, whatever was written to them in between, and asserts nothing on the way.
\<close>

theorem MemoryContent_restore:
  assumes "MemoryContent_of rm = Inr mc" and "length m = length (rm_memory rm)"
  shows "SetMemory mc (rm\<lparr>rm_memory := m\<rparr>) = Inr rm"
  using assms
  by (auto simp: MemoryContent_of_def RegisterMemory_buffer_def RegisterMemory_size_def
      SetMemory_def check_def load_bytes_def memcpy_to_def split: if_splits)

theorem MemoryContent_restore_witness:
  "SetMemory \<lparr>mc_size = 2, mc_content = Some [1, 2]\<rparr> \<lparr>rm_memory = [7, 9], rm_start_addr = 4\<rparr>
     = Inr \<lparr>rm_memory = [1, 2], rm_start_addr = 4\<rparr>"
  using MemoryContent_restore
    [of "\<lparr>rm_memory = [1, 2], rm_start_addr = 4\<rparr>" "\<lparr>mc_size = 2, mc_content = Some [1, 2]\<rparr>" "[7, 9]"]
  by (simp add: MemoryContent_of_def RegisterMemory_buffer_def RegisterMemory_size_def)

text \<open>
  After \<open>swap\<close> this object has the content, but the other still claims its size: its
  \<open>HasContent\<close> answers true, and copying it to a register memory of that size passes every
  CHECK and reads through a NULL pointer.
\<close>

theorem swap_leaves_stale_size:
  assumes "content_ok c" and "HasContent c" and "swap this c = (this', c')"
  shows "content_ok this' \<and> mc_content this' = mc_content c \<and> HasContent c' \<and>
    (\<forall>rm. RegisterMemory_size rm = mc_size c \<longrightarrow> SetMemory c' rm = Inl Undefined)"
  using assms
  by (auto simp: swap_def HasContent_def content_ok_def SetMemory_def check_def)

theorem swap_leaves_stale_size_witness:
  "SetMemory \<lparr>mc_size = 1, mc_content = None\<rparr> \<lparr>rm_memory = [9], rm_start_addr = 0\<rparr> = Inl Undefined"
  using swap_leaves_stale_size
    [of "\<lparr>mc_size = 1, mc_content = Some [5]\<rparr>" MemoryContent_empty
      "\<lparr>mc_size = 1, mc_content = Some [5]\<rparr>" "\<lparr>mc_size = 1, mc_content = None\<rparr>"]
  by (simp add: content_ok_def HasContent_def swap_def MemoryContent_empty_def RegisterMemory_size_def)

end
