(* ===== verification/Binds.thy ===== *)
theory Binds
  imports Register_Memory
begin

text \<open>
  The binds: typed views of register memory (device/bool_bind.h, one_byte_type_bind.h,
  simple_type_bind.h, uint16_split_bind.cc, uint32_sub_bind.cc).  A bind holds a pointer
  into a register memory and reads and writes a value there; the model passes the memory
  explicitly.

  The locale \<open>memory_field\<close> is the contract of every bind: which bits of memory it owns,
  that reading gives what was written, that writing touches no other bit and that reading
  depends on no other bit.  \<open>two_fields\<close> derives from two such contracts with disjoint
  bits that the two binds do not interfere.  Each bind class is an interpretation.
\<close>

subsection \<open>The contract\<close>

locale memory_field =
  fixes fits :: "nat \<Rightarrow> bool"
    and bits :: "nat set"
    and valid :: "'v \<Rightarrow> bool"
    and get :: "mem \<Rightarrow> 'v res"
    and put :: "'v \<Rightarrow> mem \<Rightarrow> mem res"
  assumes get_total: "fits (length m) \<Longrightarrow> \<exists>v. get m = Inr v \<and> valid v"
    and put_total: "fits (length m) \<Longrightarrow> valid v \<Longrightarrow> \<exists>m'. put v m = Inr m'"
    and put_length: "put v m = Inr m' \<Longrightarrow> length m' = length m"
    and get_put: "fits (length m) \<Longrightarrow> put v m = Inr m' \<Longrightarrow> get m' = Inr v"
    and put_frame: "put v m = Inr m' \<Longrightarrow> q \<notin> bits \<Longrightarrow> mbit m' q = mbit m q"
    and get_local: "length m = length m' \<Longrightarrow> (\<And>q. q \<in> bits \<Longrightarrow> mbit m q = mbit m' q) \<Longrightarrow>
      get m = get m'"
    and get_determines: "fits (length m) \<Longrightarrow> length m = length m' \<Longrightarrow> get m = get m' \<Longrightarrow>
      q \<in> bits \<Longrightarrow> mbit m q = mbit m' q"
begin

lemma put_agree:
  assumes "fits (length m)" and "length m1 = length m" and "put v m = Inr m'"
    and "put v m1 = Inr m1'" and "q \<in> bits"
  shows "mbit m' q = mbit m1' q"
proof (rule get_determines)
  show "fits (length m')" using assms put_length by metis
  show "length m' = length m1'" using assms put_length by metis
  show "get m' = get m1'" using assms get_put by metis
qed (rule assms(5))

lemma put_put:
  assumes "fits (length m)" and "put v m = Inr m'" and "put w m' = Inr m''"
  shows "put w m = Inr m''"
proof -
  have len: "length m' = length m" "length m'' = length m" using assms put_length by metis+
  have "valid w" using assms len get_total [of m''] get_put [of m' w m''] by auto
  then obtain n where n: "put w m = Inr n" using put_total assms(1) by blast
  have "m'' = n"
  proof (rule mem_eqI)
    show "length m'' = length n" using len n put_length by metis
  next
    fix q
    show "mbit m'' q = mbit n q"
    proof (cases "q \<in> bits")
      case True
      then show ?thesis using put_agree assms len n by metis
    next
      case False
      then show ?thesis using put_frame assms n by metis
    qed
  qed
  with n show ?thesis by simp
qed

lemma put_get:
  assumes "fits (length m)" and "get m = Inr v"
  shows "put v m = Inr m"
proof -
  have "valid v" using assms get_total by fastforce
  then obtain n where n: "put v m = Inr n" using put_total assms(1) by blast
  then have "get n = get m" "length n = length m" using get_put put_length assms by auto
  then have "mbit n q = mbit m q" for q
    using get_determines [of n m q] put_frame [OF n] assms(1) by metis
  then have "n = m" using mem_eqI \<open>length n = length m\<close> by metis
  with n show ?thesis by simp
qed

end

locale two_fields =
  a: memory_field fits_a bits_a valid_a get_a put_a +
  b: memory_field fits_b bits_b valid_b get_b put_b
  for fits_a :: "nat \<Rightarrow> bool" and bits_a and valid_a :: "'a \<Rightarrow> bool" and get_a and put_a
    and fits_b :: "nat \<Rightarrow> bool" and bits_b and valid_b :: "'b \<Rightarrow> bool" and get_b and put_b +
  assumes disjoint: "bits_a \<inter> bits_b = {}"
begin

lemma get_other:
  assumes "put_a v m = Inr m'"
  shows "get_b m' = get_b m"
proof (rule b.get_local)
  show "length m' = length m" using assms a.put_length by blast
next
  fix q assume "q \<in> bits_b"
  then have "q \<notin> bits_a" using disjoint by blast
  then show "mbit m' q = mbit m q" using a.put_frame assms by blast
qed

lemma put_commute:
  assumes "fits_a (length m)" and "fits_b (length m)"
    and "put_a v m = Inr m1" and "put_b w m1 = Inr m2"
    and "put_b w m = Inr m1'" and "put_a v m1' = Inr m2'"
  shows "m2 = m2'"
proof (rule mem_eqI)
  have len: "length m1 = length m" "length m2 = length m" "length m1' = length m"
      "length m2' = length m"
    using assms a.put_length b.put_length by metis+
  then show "length m2 = length m2'" by simp
  fix q
  consider "q \<in> bits_a" "q \<notin> bits_b" | "q \<in> bits_b" "q \<notin> bits_a"
    | "q \<notin> bits_a" "q \<notin> bits_b"
    using disjoint by blast
  then show "mbit m2 q = mbit m2' q"
  proof cases
    case 1
    then have "mbit m1 q = mbit m2' q"
      using a.put_agree [of m m1' v m1 m2' q] assms len by metis
    with 1 show ?thesis using b.put_frame assms by metis
  next
    case 2
    then have "mbit m2 q = mbit m1' q"
      using b.put_agree [of m1 m w m2 m1' q] assms len by metis
    with 2 show ?thesis using a.put_frame assms by metis
  next
    case 3
    then show ?thesis using a.put_frame b.put_frame assms by metis
  qed
qed

end

subsection \<open>BoolBind\<close>

record BoolBind =
  bb_ptr :: nat
  bb_index :: nat
  bb_invert :: bool

definition BoolBind_new :: "nat \<Rightarrow> int \<Rightarrow> bool \<Rightarrow> BoolBind res" where
  "BoolBind_new p index no_invert =
     DCHECK (0 \<le> index \<and> index \<le> 7)
       (Inr \<lparr>bb_ptr = p, bb_index = nat index, bb_invert = (\<not> no_invert)\<rparr>)"

definition bool_value :: "BoolBind \<Rightarrow> mem \<Rightarrow> bool res" where
  "bool_value b m =
     and_then (load8 m (bb_ptr b)) (\<lambda>x.
       let ret = x AND push_bit (bb_index b) 1 \<noteq> 0
       in Inr (if bb_invert b then \<not> ret else ret))"

definition bool_set_value :: "BoolBind \<Rightarrow> bool \<Rightarrow> mem \<Rightarrow> mem res" where
  "bool_set_value b v m =
     (let v' = (if bb_invert b then \<not> v else v) in
      and_then (load8 m (bb_ptr b)) (\<lambda>x.
        store8 m (bb_ptr b)
          (if v' then x OR push_bit (bb_index b) 1 else x AND NOT (push_bit (bb_index b) 1))))"

definition Toggle :: "BoolBind \<Rightarrow> mem \<Rightarrow> mem res" where
  "Toggle b m =
     and_then (load8 m (bb_ptr b)) (\<lambda>x.
       store8 m (bb_ptr b) (x XOR push_bit (bb_index b) 1))"

definition bool_bits :: "BoolBind \<Rightarrow> nat set" where
  "bool_bits b = {8 * bb_ptr b + bb_index b}"

lemma and_exp_eq_0 [simp]: "(x :: 'a::len word) AND 2 ^ k = 0 \<longleftrightarrow> \<not> bit x k"
  using bit_iff_and_push_bit_not_eq_0 [of x k] by (simp add: push_bit_of_1)

lemma bit_pos_iff: "i < 8 \<Longrightarrow> q = 8 * p + i \<longleftrightarrow> q div 8 = p \<and> q mod 8 = (i :: nat)"
proof (intro iffI)
  assume "q div 8 = p \<and> q mod 8 = i"
  then have "8 * (q div 8) + q mod 8 = 8 * p + i" by (simp only:)
  then show "q = 8 * p + i" by (simp only: mult_div_mod_eq)
qed simp

lemma bool_value_iff:
  "bool_value b m = Inr v \<longleftrightarrow>
     bb_ptr b < length m \<and> v = (bit (m ! bb_ptr b) (bb_index b) \<noteq> bb_invert b)"
  by (auto simp: bool_value_def and_then_Inr_iff)

lemma bool_set_value_bit:
  assumes "bool_set_value b v m = Inr m'" and "bb_index b \<le> 7"
  shows "length m' = length m \<and> bb_ptr b < length m \<and>
     mbit m' q = (if q = 8 * bb_ptr b + bb_index b then v \<noteq> bb_invert b else mbit m q)"
proof -
  let ?x = "m ! bb_ptr b" and ?s = "push_bit (bb_index b) (1 :: u8)"
  define y where "y = (if v \<noteq> bb_invert b then ?x OR ?s else ?x AND NOT ?s)"
  have m': "bb_ptr b < length m" "m' = m[bb_ptr b := y]"
    using assms(1) by (auto simp: bool_set_value_def Let_def y_def split: if_splits)
  have y: "k < 8 \<Longrightarrow> bit y k = (if k = bb_index b then v \<noteq> bb_invert b else bit ?x k)" for k
    using assms(2) by (auto simp: y_def bit_simps)
  have "q = 8 * bb_ptr b + bb_index b \<longleftrightarrow> q div 8 = bb_ptr b \<and> q mod 8 = bb_index b"
    using assms(2) by (intro bit_pos_iff) simp
  with m' y show ?thesis by (auto simp: mbit_def nth_list_update)
qed

lemma bool_field:
  assumes "bb_index b \<le> 7"
  shows "memory_field (\<lambda>n. bb_ptr b < n) (bool_bits b) (\<lambda>_. True) (bool_value b) (bool_set_value b)"
proof -
  have val: "bool_value b m = Inr (mbit m (8 * bb_ptr b + bb_index b) \<noteq> bb_invert b)"
    if "bb_ptr b < length m" for m
    using that assms by (simp add: bool_value_iff mbit_def)
  have none: "bool_value b m = Inl Undefined" if "\<not> bb_ptr b < length m" for m
    using that by (simp add: bool_value_def load8_def)
  have eq: "bool_value b m = bool_value b m'"
    if "length m = length m'" "mbit m (8 * bb_ptr b + bb_index b) = mbit m' (8 * bb_ptr b + bb_index b)"
    for m m'
    using that val none by (cases "bb_ptr b < length m") simp_all
  note sv = bool_set_value_bit [OF _ assms]
  show ?thesis
  proof (unfold_locales, goal_cases)
    case (1 m)
    then show ?case using val by simp
  next
    case (2 m v)
    then show ?case by (simp add: bool_set_value_def load8_def Let_def)
  next
    case (3 v m m')
    then show ?case using sv by blast
  next
    case (4 m v m')
    with sv [OF 4(2)] val [of m'] show ?case by (cases "bb_invert b") simp_all
  next
    case (5 v m m' q)
    with sv [OF 5(1), of q] show ?case by (simp add: bool_bits_def)
  next
    case (6 m m')
    then show ?case by (intro eq) (simp_all add: bool_bits_def)
  next
    case (7 m m' q)
    then show ?case using val by (simp add: bool_bits_def) metis
  qed
qed

lemma Toggle_twice:
  "Toggle b m = Inr m' \<Longrightarrow> Toggle b m' = Inr m"
  by (auto simp: Toggle_def and_then_Inr_iff xor.assoc)

lemma Toggle_value:
  assumes "bb_index b \<le> 7" and "Toggle b m = Inr m'" and "bool_value b m = Inr v"
  shows "bool_set_value b (\<not> v) m = Inr m'"
proof -
  have eq: "x XOR 2 ^ k = (if bit x k then x AND NOT (2 ^ k) else x OR 2 ^ k)"
    for x :: u8 and k
    by (rule bit_word_eqI) (auto simp: bit_simps)
  show ?thesis
    using assms by (auto simp: Toggle_def bool_value_iff bool_set_value_def load8_def Let_def eq)
qed

subsection \<open>Fields that store an encoded value byte by byte\<close>

text \<open>
  What the byte-sized binds share: a codec and the addresses of its bytes.  A read gathers
  the bytes at the addresses and decodes them, a write encodes and scatters.
\<close>

definition gather :: "mem \<Rightarrow> nat list \<Rightarrow> mem res" where
  "gather m as = check Undefined (\<forall>a \<in> set as. a < length m) (Inr (map (\<lambda>a. m ! a) as))"

fun scatter :: "nat list \<Rightarrow> u8 list \<Rightarrow> mem \<Rightarrow> mem res" where
  "scatter (a # as) (b # bs) m = and_then (store8 m a b) (scatter as bs)"
| "scatter _ _ m = Inr m"

lemma scatter_total:
  assumes "\<forall>a \<in> set as. a < length m"
  shows "\<exists>m'. scatter as bs m = Inr m'"
  using assms by (induction as bs m rule: scatter.induct) (auto simp: store8_def)

lemma length_scatter: "scatter as bs m = Inr m' \<Longrightarrow> length m' = length m"
  by (induction as bs m rule: scatter.induct) auto

lemma scatter_other: "scatter as bs m = Inr m' \<Longrightarrow> i \<notin> set as \<Longrightarrow> m' ! i = m ! i"
  by (induction as bs m rule: scatter.induct) auto

lemma scatter_same:
  assumes "scatter as bs m = Inr m'" and "distinct as" and "length as = length bs"
  shows "map (\<lambda>a. m' ! a) as = bs"
  using assms
proof (induction as bs m rule: scatter.induct)
  case (1 a as b bs m)
  then have a: "a < length m" and s: "scatter as bs (m[a := b]) = Inr m'" by auto
  with 1 have "map (\<lambda>a. m' ! a) as = bs" by auto
  moreover have "m' ! a = b" using scatter_other [OF s] 1(3) a by simp
  ultimately show ?case by simp
qed auto

locale codec_at = byte_codec width decode encode
  for width and decode :: "u8 list \<Rightarrow> 'v res" and encode +
  fixes addrs :: "nat list"
  assumes distinct_addrs: "distinct addrs" and length_addrs: "length addrs = width"
begin

definition get_at :: "mem \<Rightarrow> 'v res" where
  "get_at m = and_then (gather m addrs) decode"

definition put_at :: "'v \<Rightarrow> mem \<Rightarrow> mem res" where
  "put_at v m = scatter addrs (encode v) m"

lemma get_at_fits:
  "\<forall>a \<in> set addrs. a < length m \<Longrightarrow> get_at m = decode (map (\<lambda>a. m ! a) addrs)"
  by (simp add: get_at_def gather_def)

lemma codec_field:
  "memory_field (\<lambda>n. \<forall>a \<in> set addrs. a < n) (\<Union>a \<in> set addrs. byte_bits a) (\<lambda>_. True) get_at put_at"
proof (unfold_locales, goal_cases)
  case (1 m)
  then show ?case using decode_total by (simp add: get_at_fits length_addrs)
next
  case (2 m v)
  then show ?case by (simp add: put_at_def scatter_total)
next
  case (3 v m m')
  then show ?case by (simp add: put_at_def length_scatter)
next
  case (4 m v m')
  then have "length m' = length m" by (simp add: put_at_def length_scatter)
  moreover have "map (\<lambda>a. m' ! a) addrs = encode v"
    using 4(2) distinct_addrs length_addrs length_encode by (simp add: put_at_def scatter_same)
  ultimately show ?case using 4(1) by (simp add: get_at_fits decode_encode)
next
  case (5 v m m' q)
  then show ?case using scatter_other [of addrs "encode v" m m' "q div 8"]
    by (simp add: put_at_def mbit_def)
next
  case (6 m m')
  then have "m ! a = m' ! a" if "a \<in> set addrs" for a
    using that by (auto simp: byte_eq_iff_mbit)
  then have "gather m addrs = gather m' addrs"
    using 6(1) by (auto simp: gather_def check_def)
  then show ?case by (simp add: get_at_def)
next
  case (7 m m' q)
  then have "map (\<lambda>a. m ! a) addrs = map (\<lambda>a. m' ! a) addrs"
    by (intro decode_inject) (simp_all add: length_addrs get_at_fits)
  then show ?case using 7(4) by (auto simp: mbit_def)
qed

end

subsection \<open>OneByteTypeBind\<close>

record OneByteTypeBind =
  ob_ptr :: nat

definition one_byte_value :: "OneByteTypeBind \<Rightarrow> mem \<Rightarrow> u8 res" where
  "one_byte_value b m = load8 m (ob_ptr b)"

definition one_byte_set_value :: "OneByteTypeBind \<Rightarrow> u8 \<Rightarrow> mem \<Rightarrow> mem res" where
  "one_byte_set_value b v m = store8 m (ob_ptr b) v"

interpretation byte_at: codec_at 1 "\<lambda>bs :: u8 list. Inr (bs ! 0)" "\<lambda>v. [v]" "[p]" for p
  by unfold_locales (auto simp: length_Suc_conv)

lemma one_byte_field:
  "memory_field (\<lambda>n. ob_ptr b < n) (byte_bits (ob_ptr b)) (\<lambda>_. True)
     (one_byte_value b) (one_byte_set_value b)"
proof -
  have "byte_at.get_at (ob_ptr b) = one_byte_value b"
      "byte_at.put_at (ob_ptr b) = one_byte_set_value b"
    by (auto simp: fun_eq_iff byte_at.get_at_def byte_at.put_at_def gather_def one_byte_value_def
        one_byte_set_value_def load8_def store8_def check_def)
  with byte_at.codec_field [of "ob_ptr b"] show ?thesis by simp
qed

interpretation one_byte: memory_field "\<lambda>n. ob_ptr b < n" "byte_bits (ob_ptr b)" "\<lambda>_. True"
    "one_byte_value b" "one_byte_set_value b" for b
  by (rule one_byte_field)

subsection \<open>SimpleTypeBind\<close>

record SimpleTypeBind =
  st_ptr :: nat
  st_big_endian :: bool

definition simple_value :: "SimpleTypeBind \<Rightarrow> mem \<Rightarrow> 'a::len word res" where
  "simple_value b m =
     and_then (load_bytes m (st_ptr b) (LENGTH('a) div 8))
       (\<lambda>bs. if st_big_endian b then ReadBigEndian bs else ReadLittleEndian bs)"

definition simple_set_value :: "SimpleTypeBind \<Rightarrow> 'a::len word \<Rightarrow> mem \<Rightarrow> mem res" where
  "simple_set_value b v m =
     memcpy_to m (st_ptr b)
       (if st_big_endian b then WriteBigEndian v else WriteLittleEndian v)"

text \<open>A consecutive region is a gather and a scatter over its addresses.\<close>

lemma all_upt_less: "0 < n \<Longrightarrow> (\<forall>a \<in> set [p..<p + n]. a < l) \<longleftrightarrow> p + n \<le> l" for p n l :: nat
proof (intro iffI)
  assume "0 < n" "\<forall>a \<in> set [p..<p + n]. a < l"
  moreover from this have "p + n - 1 \<in> set [p..<p + n]" by auto
  ultimately have "p + n - 1 < l" by blast
  then show "p + n \<le> l" using \<open>0 < n\<close> by simp
qed simp

lemma gather_upt:
  assumes "0 < n"
  shows "gather m [p..<p + n] = load_bytes m p n"
proof -
  have "p + n \<le> length m \<Longrightarrow> map (\<lambda>a. m ! a) [p..<p + n] = take n (drop p m)"
    by (auto intro!: nth_equalityI)
  then show ?thesis
    by (simp only: gather_def load_bytes_def all_upt_less [OF assms] check_def split: if_splits) simp
qed

lemma scatter_upt:
  "p + length bs \<le> length m \<Longrightarrow> scatter [p..<p + length bs] bs m = memcpy_to m p bs"
proof (induction bs arbitrary: p m)
  case Nil
  then show ?case by (simp add: memcpy_to_def)
next
  case (Cons b bs)
  then have p: "p < length m" by simp
  have "scatter [p..<p + length (b # bs)] (b # bs) m = scatter [Suc p..<Suc p + length bs] bs (m[p := b])"
    using p by (simp add: upt_conv_Cons store8_def del: upt_Suc)
  also have "\<dots> = memcpy_to (m[p := b]) (Suc p) bs"
    using Cons.IH [of "Suc p" "m[p := b]"] Cons.prems by simp
  also have "\<dots> = memcpy_to m p (b # bs)"
    using Cons.prems p by (simp add: memcpy_to_def check_def take_Suc_conv_app_nth)
  finally show ?case .
qed

lemma simple_field:
  assumes "8 dvd LENGTH('a::len)"
  shows "memory_field (\<lambda>n. st_ptr b + LENGTH('a) div 8 \<le> n)
     (\<Union>a \<in> {st_ptr b ..< st_ptr b + LENGTH('a) div 8}. byte_bits a) (\<lambda>_. True)
     (simple_value b :: mem \<Rightarrow> 'a word res) (simple_set_value b)"
proof -
  let ?n = "LENGTH('a) div 8" and ?as = "[st_ptr b ..< st_ptr b + LENGTH('a) div 8]"
  let ?dec = "\<lambda>bs. if st_big_endian b then ReadBigEndian bs else ReadLittleEndian bs :: 'a word res"
  let ?enc = "\<lambda>v :: 'a word. if st_big_endian b then WriteBigEndian v else WriteLittleEndian v"
  have n: "0 < ?n" using assms len_gt_0 [where 'a = 'a] by (auto simp: dvd_def simp del: len_gt_0)
  have codec: "codec_at ?n ?dec ?enc ?as"
    using big_endian_codec [OF assms] little_endian_codec [OF assms]
    by (cases "st_big_endian b") (simp_all add: codec_at_def codec_at_axioms_def)
  have fits: "(\<forall>a \<in> set ?as. a < l) \<longleftrightarrow> st_ptr b + ?n \<le> l" for l
    using n by (rule all_upt_less)
  have put: "codec_at.put_at ?enc ?as v m = simple_set_value b v m" if "st_ptr b + ?n \<le> length m" for v m
    using that scatter_upt [of "st_ptr b" "?enc v" m]
    unfolding codec_at.put_at_def [OF codec] simple_set_value_def
    by (cases "st_big_endian b") simp_all
  have get: "codec_at.get_at ?dec ?as = simple_value b"
    using n by (simp add: fun_eq_iff codec_at.get_at_def [OF codec] simple_value_def gather_upt)
  have none: "\<not> st_ptr b + ?n \<le> length m \<Longrightarrow> simple_set_value b v m \<noteq> Inr m'" for v :: "'a word" and m m'
    by (auto simp: simple_set_value_def memcpy_to_Inr_iff split: if_splits)
  note f = codec_at.codec_field [OF codec, unfolded fits get]
  show ?thesis
  proof (unfold_locales, goal_cases)
    case (1 m)
    then show ?case using memory_field.get_total [OF f] by blast
  next
    case (2 m v)
    then show ?case using memory_field.put_total [OF f, of m v] put by simp
  next
    case (3 v m m')
    then have "st_ptr b + ?n \<le> length m" using none by blast
    with 3 show ?case using memory_field.put_length [OF f, of v m m'] put [of m v] by simp
  next
    case (4 m v m')
    then show ?case using memory_field.get_put [OF f, of m v m'] put [of m v] by simp
  next
    case (5 v m m' q)
    then have "st_ptr b + ?n \<le> length m" using none by blast
    with 5 show ?case using memory_field.put_frame [OF f, of v m m' q] put [of m v] by simp
  next
    case (6 m m')
    then show ?case using memory_field.get_local [OF f, of m m'] by simp
  next
    case (7 m m' q)
    then show ?case using memory_field.get_determines [OF f, of m m' q] by simp
  qed
qed

interpretation u16_bind: memory_field "\<lambda>n. st_ptr b + 2 \<le> n"
    "\<Union>a \<in> {st_ptr b ..< st_ptr b + 2}. byte_bits a" "\<lambda>_. True"
    "simple_value b :: mem \<Rightarrow> u16 res" "simple_set_value b" for b
  using simple_field [where 'a = 16] by simp

interpretation u32_bind: memory_field "\<lambda>n. st_ptr b + 4 \<le> n"
    "\<Union>a \<in> {st_ptr b ..< st_ptr b + 4}. byte_bits a" "\<lambda>_. True"
    "simple_value b :: mem \<Rightarrow> u32 res" "simple_set_value b" for b
  using simple_field [where 'a = 32] by simp

subsection \<open>Uint16SplitBind\<close>

text \<open>The indices are offsets from the pointer; every caller passes non-negative ones.\<close>

record Uint16SplitBind =
  sp_ptr :: nat
  sp_index_0 :: nat
  sp_index_1 :: nat
  sp_big_endian :: bool

definition split_value :: "Uint16SplitBind \<Rightarrow> mem \<Rightarrow> u16 res" where
  "split_value b m =
     and_then (load8 m (sp_ptr b + sp_index_0 b)) (\<lambda>store0.
     and_then (load8 m (sp_ptr b + sp_index_1 b)) (\<lambda>store1.
       if sp_big_endian b then ReadBigEndian [store0, store1]
       else ReadLittleEndian [store0, store1]))"

definition split_set_value :: "Uint16SplitBind \<Rightarrow> u16 \<Rightarrow> mem \<Rightarrow> mem res" where
  "split_set_value b v m =
     (let store = (if sp_big_endian b then WriteBigEndian v else WriteLittleEndian v) in
      and_then (store8 m (sp_ptr b + sp_index_0 b) (store ! 0)) (\<lambda>m1.
        store8 m1 (sp_ptr b + sp_index_1 b) (store ! 1)))"

definition split_addrs :: "Uint16SplitBind \<Rightarrow> nat list" where
  "split_addrs b = [sp_ptr b + sp_index_0 b, sp_ptr b + sp_index_1 b]"

lemma split_field:
  assumes "sp_index_0 b \<noteq> sp_index_1 b"
  shows "memory_field (\<lambda>n. \<forall>a \<in> set (split_addrs b). a < n)
     (\<Union>a \<in> set (split_addrs b). byte_bits a) (\<lambda>_. True) (split_value b) (split_set_value b)"
proof -
  let ?dec = "\<lambda>bs. if sp_big_endian b then ReadBigEndian bs else ReadLittleEndian bs :: u16 res"
  let ?enc = "\<lambda>v :: u16. if sp_big_endian b then WriteBigEndian v else WriteLittleEndian v"
  have codec: "codec_at 2 ?dec ?enc (split_addrs b)"
    using assms be16.byte_codec_axioms le16.byte_codec_axioms
    by (cases "sp_big_endian b") (simp_all add: codec_at_def codec_at_axioms_def split_addrs_def)
  have get: "codec_at.get_at ?dec (split_addrs b) = split_value b"
    unfolding fun_eq_iff codec_at.get_at_def [OF codec]
    by (auto simp: split_value_def split_addrs_def gather_def load8_def check_def)
  have two: "length bs = 2 \<Longrightarrow> scatter [p, q] bs m =
      and_then (store8 m p (bs ! 0)) (\<lambda>m1. store8 m1 q (bs ! 1))" for p q bs m
    by (auto simp: numeral_2_eq_2 length_Suc_conv store8_def check_def)
  have put: "codec_at.put_at ?enc (split_addrs b) = split_set_value b"
    unfolding fun_eq_iff codec_at.put_at_def [OF codec]
    by (auto simp: split_set_value_def split_addrs_def two Let_def)
  from codec_at.codec_field [OF codec, unfolded get put] show ?thesis .
qed

subsection \<open>Uint32SubBind\<close>

record Uint32SubBind =
  sb_bind :: SimpleTypeBind
  sb_start_index :: nat
  sb_end_index :: nat

text \<open>The constructor orders the two indices.\<close>

definition Uint32SubBind_new :: "nat \<Rightarrow> bool \<Rightarrow> int \<Rightarrow> int \<Rightarrow> Uint32SubBind res" where
  "Uint32SubBind_new p big_endian start_index end_index =
     DCHECK (0 \<le> start_index \<and> start_index \<le> 31)
      (DCHECK (0 \<le> end_index \<and> end_index \<le> 31)
        (let bind = \<lparr>st_ptr = p, st_big_endian = big_endian\<rparr> in
         Inr (if start_index > end_index
              then \<lparr>sb_bind = bind, sb_start_index = nat end_index, sb_end_index = nat start_index\<rparr>
              else \<lparr>sb_bind = bind, sb_start_index = nat start_index, sb_end_index = nat end_index\<rparr>)))"

definition MaxValue :: "Uint32SubBind \<Rightarrow> u32" where
  "MaxValue b = push_bit (sb_end_index b - sb_start_index b) 2 - 1"

definition value_mark :: "Uint32SubBind \<Rightarrow> u32" where
  "value_mark b =
     (let len = sb_end_index b - sb_start_index b + 1 in 1 + (push_bit (len - 1) 1 - 1) * 2)"

definition sub_value :: "Uint32SubBind \<Rightarrow> mem \<Rightarrow> u32 res" where
  "sub_value b m =
     and_then (simple_value (sb_bind b) m) (\<lambda>w.
       Inr (drop_bit (sb_start_index b) w AND value_mark b))"

definition sub_set_value :: "Uint32SubBind \<Rightarrow> u32 \<Rightarrow> mem \<Rightarrow> mem res" where
  "sub_set_value b value m =
     CHECK (value \<le> MaxValue b)
      (let shift = sb_start_index b;
           value' = push_bit shift (value AND value_mark b)
       in and_then (simple_value (sb_bind b) m) (\<lambda>temp.
            simple_set_value (sb_bind b)
              ((temp AND NOT (push_bit shift (value_mark b))) OR value') m))"

definition sub_ok :: "Uint32SubBind \<Rightarrow> bool" where
  "sub_ok b \<longleftrightarrow> sb_start_index b \<le> sb_end_index b \<and> sb_end_index b \<le> 31"

lemma sub_ok_new: "Uint32SubBind_new p be s e = Inr b \<Longrightarrow> sub_ok b"
  by (auto simp: Uint32SubBind_new_def Let_def sub_ok_def check_Inr_iff split: if_splits)

text \<open>The two mask computations give the same value: as many ones as the field has bits.\<close>

lemma value_mark_mask: "value_mark b = mask (Suc (sb_end_index b - sb_start_index b))"
  by (simp add: value_mark_def Let_def mask_eq_exp_minus_1 push_bit_of_1 algebra_simps)

lemma MaxValue_mask: "MaxValue b = mask (Suc (sb_end_index b - sb_start_index b))"
  by (simp add: MaxValue_def mask_eq_exp_minus_1 push_bit_eq_mult mult.commute)

text \<open>Where bit \<open>k\<close> of the 32-bit word is in memory.\<close>

definition word_bit_pos :: "SimpleTypeBind \<Rightarrow> nat \<Rightarrow> nat" where
  "word_bit_pos b k =
     8 * (st_ptr b + (if st_big_endian b then 3 - k div 8 else k div 8)) + k mod 8"

lemma word_bit_pos_div_mod:
  "word_bit_pos b k div 8 = st_ptr b + (if st_big_endian b then 3 - k div 8 else k div 8)"
  "word_bit_pos b k mod 8 = k mod 8"
  by (simp_all only: word_bit_pos_def mod_mult_self4 mod_mod_trivial) simp

definition sub_bits :: "Uint32SubBind \<Rightarrow> nat set" where
  "sub_bits b = word_bit_pos (sb_bind b) ` {sb_start_index b .. sb_end_index b}"

lemma simple_value_bit:
  assumes "simple_value b m = Inr (w :: u32)" and "k < 32"
  shows "bit w k = mbit m (word_bit_pos b k)"
proof -
  let ?bs = "take 4 (drop (st_ptr b) m)"
  from assms(1) have len: "st_ptr b + 4 \<le> length m"
    and rd: "(if st_big_endian b then ReadBigEndian ?bs else ReadLittleEndian ?bs) = Inr w"
    by (auto simp: simple_value_def load_bytes_Inr_iff)
  have k: "k div 8 < 4" using assms(2) by simp
  have nth: "j < 4 \<Longrightarrow> ?bs ! j = m ! (st_ptr b + j)" for j
    using len by simp
  show ?thesis
  proof (cases "st_big_endian b")
    case True
    then have "bit w k = bit (?bs ! (3 - k div 8)) (k mod 8)"
      using bit_ReadBigEndian [of ?bs w k] rd assms(2) by simp
    then show ?thesis using True nth [of "3 - k div 8"] by (simp add: mbit_def word_bit_pos_div_mod)
  next
    case False
    then have "bit w k = bit (?bs ! (k div 8)) (k mod 8)"
      using bit_ReadLittleEndian [of ?bs w k] rd assms(2) len by simp
    then show ?thesis using False nth [OF k] by (simp add: mbit_def word_bit_pos_div_mod)
  qed
qed

lemma simple_set_value_bit:
  assumes "st_ptr b + 4 \<le> length m" and "simple_set_value b (w :: u32) m = Inr m'" and "k < 32"
  shows "mbit m' (word_bit_pos b k) = bit w k"
  using simple_value_bit [OF u32_bind.get_put [OF assms(1,2)] assms(3)] by simp

lemma word_bit_pos_surj:
  assumes "st_ptr b \<le> q div 8" and "q div 8 < st_ptr b + 4"
  shows "\<exists>k < 32. q = word_bit_pos b k"
proof -
  define j where "j = q div 8 - st_ptr b"
  let ?j = "if st_big_endian b then 3 - j else j"
  let ?k = "8 * ?j + q mod 8"
  have j: "j < 4" "st_ptr b + j = q div 8" using assms by (auto simp: j_def)
  have "?k div 8 = ?j" "?k mod 8 = q mod 8" by simp_all
  then have "word_bit_pos b ?k = 8 * (st_ptr b + j) + q mod 8"
    using j(1) by (simp add: word_bit_pos_def)
  also have "\<dots> = q" unfolding j(2) by (rule mult_div_mod_eq)
  finally have "q = word_bit_pos b ?k" ..
  moreover have "?k < 32" using j(1) mod_less_divisor [of 8 q] by (simp split: if_split; linarith)
  ultimately show ?thesis by blast
qed

lemma bit_sub_value:
  assumes "sub_ok b" and "sub_value b m = Inr v"
  shows "bit v j \<longleftrightarrow>
     j \<le> sb_end_index b - sb_start_index b \<and> mbit m (word_bit_pos (sb_bind b) (sb_start_index b + j))"
proof -
  from assms(2) obtain w where w: "simple_value (sb_bind b) m = Inr w"
    and v: "v = drop_bit (sb_start_index b) w AND value_mark b"
    by (auto simp: sub_value_def)
  show ?thesis
    using assms(1) simple_value_bit [OF w, of "sb_start_index b + j"]
    by (auto simp: v value_mark_mask bit_simps sub_ok_def)
qed

lemma sub_set_value_word:
  assumes "sub_ok b" and "sub_set_value b v m = Inr m'"
  obtains w :: u32 where "st_ptr (sb_bind b) + 4 \<le> length m" and "v \<le> MaxValue b"
    and "simple_set_value (sb_bind b) w m = Inr m'"
    and "\<And>k. k < 32 \<Longrightarrow> bit w k =
      (if sb_start_index b \<le> k \<and> k \<le> sb_end_index b then bit v (k - sb_start_index b)
       else mbit m (word_bit_pos (sb_bind b) k))"
proof -
  from assms(2) obtain t where max: "v \<le> MaxValue b" and t: "simple_value (sb_bind b) m = Inr t"
    and set: "simple_set_value (sb_bind b)
      ((t AND NOT (push_bit (sb_start_index b) (value_mark b))) OR
       push_bit (sb_start_index b) (v AND value_mark b)) m = Inr m'"
    by (auto simp: sub_set_value_def Let_def)
  have len: "st_ptr (sb_bind b) + 4 \<le> length m"
    using t by (auto simp: simple_value_def load_bytes_Inr_iff)
  show ?thesis
  proof (rule that [OF len max set])
    fix k :: nat assume "k < 32"
    with simple_value_bit [OF t this] assms(1)
    show "bit ((t AND NOT (push_bit (sb_start_index b) (value_mark b))) OR
        push_bit (sb_start_index b) (v AND value_mark b)) k =
      (if sb_start_index b \<le> k \<and> k \<le> sb_end_index b then bit v (k - sb_start_index b)
       else mbit m (word_bit_pos (sb_bind b) k))"
      by (auto simp: value_mark_mask bit_simps sub_ok_def)
  qed
qed

lemma le_mask_bit:
  assumes "(v :: u32) \<le> mask (Suc n)" and "n \<le> 31" and "bit v j"
  shows "j \<le> n"
proof -
  have "unat v \<le> unat (mask (Suc n) :: u32)" using assms(1) by (simp only: word_le_nat_alt)
  also have "\<dots> = mask (Suc n)" by (rule bit_eqI) (use assms(2) in \<open>auto simp: bit_simps\<close>)
  finally have v: "unat v < 2 ^ Suc n" 
    unfolding mask_eq_exp_minus_1 using zero_less_power [of "2 :: nat" "Suc n"] by linarith
  have "odd (unat v div 2 ^ j)" using assms(3) by (simp add: bit_unsigned_iff bit_imp_le_length flip: bit_iff_odd)
  then have "2 ^ j \<le> unat v" by (metis div_less even_zero not_le)
  with v have "(2::nat) ^ j < 2 ^ Suc n" by linarith
  then have "j < Suc n" by (rule power_less_imp_less_exp [rotated]) simp
  then show ?thesis by simp
qed

lemma sub_field:
  assumes "sub_ok b"
  shows "memory_field (\<lambda>n. st_ptr (sb_bind b) + 4 \<le> n) (sub_bits b) (\<lambda>v. v \<le> MaxValue b)
     (sub_value b) (sub_set_value b)"
proof (unfold_locales, goal_cases)
  case (1 m)
  then obtain w :: u32 where "simple_value (sb_bind b) m = Inr w" using u32_bind.get_total by blast
  then show ?case by (simp add: sub_value_def MaxValue_mask value_mark_mask word_and_le1)
next
  case (2 m v)
  then obtain w :: u32 where w: "simple_value (sb_bind b) m = Inr w" using u32_bind.get_total by blast
  then show ?case using 2 u32_bind.put_total [OF 2(1)] by (simp add: sub_set_value_def Let_def)
next
  case (3 v m m')
  then show ?case using u32_bind.put_length by (metis sub_set_value_word [OF assms])
next
  case (4 m v m')
  obtain w :: u32 where max: "v \<le> MaxValue b" and set: "simple_set_value (sb_bind b) w m = Inr m'"
    and w: "\<And>k. k < 32 \<Longrightarrow> bit w k =
      (if sb_start_index b \<le> k \<and> k \<le> sb_end_index b then bit v (k - sb_start_index b)
       else mbit m (word_bit_pos (sb_bind b) k))"
    using sub_set_value_word [OF assms 4(2)] by metis
  have "simple_value (sb_bind b) m' = Inr w" using u32_bind.get_put [OF 4(1) set] .
  moreover have "drop_bit (sb_start_index b) w AND value_mark b = v"
  proof (rule bit_word_eqI)
    fix j assume "j < LENGTH(32)"
    have "sb_end_index b - sb_start_index b \<le> 31" using assms by (auto simp: sub_ok_def)
    then have "bit v j \<Longrightarrow> j \<le> sb_end_index b - sb_start_index b"
      using max le_mask_bit [of v] unfolding MaxValue_mask by blast
    then show "bit (drop_bit (sb_start_index b) w AND value_mark b) j = bit v j"
      using w [of "sb_start_index b + j"] assms
        le_diff_conv2 [of "sb_start_index b" "sb_end_index b" j]
      by (auto simp: value_mark_mask bit_simps sub_ok_def bit_imp_le_length less_Suc_eq_le
          add.commute split: if_splits)
  qed
  ultimately show ?case by (simp add: sub_value_def)
next
  case (5 v m m' q)
  obtain w :: u32 where len: "st_ptr (sb_bind b) + 4 \<le> length m"
    and set: "simple_set_value (sb_bind b) w m = Inr m'"
    and w: "\<And>k. k < 32 \<Longrightarrow> bit w k =
      (if sb_start_index b \<le> k \<and> k \<le> sb_end_index b then bit v (k - sb_start_index b)
       else mbit m (word_bit_pos (sb_bind b) k))"
    using sub_set_value_word [OF assms 5(1)] by metis
  show ?case
  proof (cases "st_ptr (sb_bind b) \<le> q div 8 \<and> q div 8 < st_ptr (sb_bind b) + 4")
    case True
    then obtain k where k: "k < 32" "q = word_bit_pos (sb_bind b) k" using word_bit_pos_surj by blast
    then have "\<not> (sb_start_index b \<le> k \<and> k \<le> sb_end_index b)" using 5(2) by (auto simp: sub_bits_def)
    then show ?thesis using simple_set_value_bit [OF len set k(1)] w [OF k(1)] k(2) by auto
  next
    case False
    then show ?thesis using u32_bind.put_frame [OF set, of q] by auto
  qed
next
  case (6 m m')
  have eq: "sub_value b m = sub_value b m'" if fits: "st_ptr (sb_bind b) + 4 \<le> length m"
  proof -
    obtain w w' :: u32 where w: "simple_value (sb_bind b) m = Inr w" "simple_value (sb_bind b) m' = Inr w'"
      using u32_bind.get_total [of "sb_bind b" m] u32_bind.get_total [of "sb_bind b" m'] fits 6(1)
      by auto
    then obtain v v' where v: "sub_value b m = Inr v" "sub_value b m' = Inr v'"
      by (auto simp: sub_value_def)
    have "v = v'"
    proof (rule bit_word_eqI)
      fix j
      have "word_bit_pos (sb_bind b) (sb_start_index b + j) \<in> sub_bits b"
        if "j \<le> sb_end_index b - sb_start_index b"
        using that assms by (auto simp: sub_bits_def sub_ok_def)
      then show "bit v j = bit v' j"
        using 6(2) bit_sub_value [OF assms v(1)] bit_sub_value [OF assms v(2)] by auto
    qed
    with v show ?thesis by simp
  qed
  have "simple_value (sb_bind b) n = (Inl Undefined :: u32 res)"
    if "\<not> st_ptr (sb_bind b) + 4 \<le> length n" for n
    using that by (simp add: simple_value_def load_bytes_def)
  with 6(1) eq show ?case
    by (cases "st_ptr (sb_bind b) + 4 \<le> length m") (simp_all add: sub_value_def)
next
  case (7 m m' q)
  then obtain k where q: "q = word_bit_pos (sb_bind b) k" "sb_start_index b \<le> k" "k \<le> sb_end_index b"
    by (auto simp: sub_bits_def)
  obtain w :: u32 where "simple_value (sb_bind b) m = Inr w" using u32_bind.get_total 7(1) by blast
  then obtain v where v: "sub_value b m = Inr v" by (auto simp: sub_value_def)
  with 7(3) have v': "sub_value b m' = Inr v" by simp
  show ?case
    using bit_sub_value [OF assms v, of "k - sb_start_index b"]
      bit_sub_value [OF assms v', of "k - sb_start_index b"] q diff_le_mono [OF q(3)] by simp
qed

subsection \<open>Properties\<close>

text \<open>
  A Uint32SubBind holds exactly the values up to its MaxValue, which is one less than
  two to the number of its bits, whatever the order of the indices given: writing one of
  them succeeds, reads back and changes no bit of memory outside the field; writing a larger
  value fails the CHECK.
\<close>

theorem Uint32SubBind_set_get:
  assumes "Uint32SubBind_new p big_endian s e = Inr b" and "p + 4 \<le> length m"
  shows "unat (MaxValue b) = 2 ^ (nat \<bar>e - s\<bar> + 1) - 1 \<and>
    (if v \<le> MaxValue b
     then \<exists>m'. sub_set_value b v m = Inr m' \<and> length m' = length m \<and> sub_value b m' = Inr v \<and>
            (\<forall>q. q \<notin> sub_bits b \<longrightarrow> mbit m' q = mbit m q)
     else sub_set_value b v m = Inl CheckFailed)"
proof -
  have ok: "sub_ok b" using sub_ok_new assms(1) .
  have b: "st_ptr (sb_bind b) = p" "sb_end_index b - sb_start_index b = nat \<bar>e - s\<bar>"
    using assms(1) by (auto simp: Uint32SubBind_new_def Let_def check_Inr_iff split: if_splits)
  have "nat \<bar>e - s\<bar> \<le> 31" using ok b(2) by (auto simp: sub_ok_def)
  then have "unat (mask (Suc (nat \<bar>e - s\<bar>)) :: u32) = mask (Suc (nat \<bar>e - s\<bar>))"
    by (intro bit_eqI) (auto simp: bit_simps)
  then have "unat (MaxValue b) = 2 ^ (nat \<bar>e - s\<bar> + 1) - 1"
    unfolding MaxValue_mask b(2) by (simp add: mask_eq_exp_minus_1)
  moreover note f = sub_field [OF ok]
  have "\<exists>m'. sub_set_value b v m = Inr m' \<and> length m' = length m \<and> sub_value b m' = Inr v \<and>
      (\<forall>q. q \<notin> sub_bits b \<longrightarrow> mbit m' q = mbit m q)" if v: "v \<le> MaxValue b"
  proof -
    have fits: "st_ptr (sb_bind b) + 4 \<le> length m" using b(1) assms(2) by simp
    obtain m' where m': "sub_set_value b v m = Inr m'"
      using memory_field.put_total [OF f fits v] by blast
    then show ?thesis
      using memory_field.put_length [OF f m'] memory_field.get_put [OF f fits m']
        memory_field.put_frame [OF f m'] by blast
  qed
  ultimately show ?thesis by (simp add: sub_set_value_def)
qed

theorem Uint32SubBind_set_get_witness:
  "\<exists>m'. sub_set_value \<lparr>sb_bind = \<lparr>st_ptr = 0, st_big_endian = False\<rparr>, sb_start_index = 30,
     sb_end_index = 31\<rparr> 2 [1, 2, 3, 4] = Inr m' \<and>
   sub_value \<lparr>sb_bind = \<lparr>st_ptr = 0, st_big_endian = False\<rparr>, sb_start_index = 30,
     sb_end_index = 31\<rparr> m' = Inr 2"
  using Uint32SubBind_set_get [of 0 False 31 30 "\<lparr>sb_bind = \<lparr>st_ptr = 0, st_big_endian = False\<rparr>,
      sb_start_index = 30, sb_end_index = 31\<rparr>" "[1, 2, 3, 4]" 2]
  by (auto simp: Uint32SubBind_new_def MaxValue_def)

end
