(* ===== verification/Register_Layout.thy ===== *)
theory Register_Layout
  imports Binds
begin

text \<open>
  The layout of a register class: the binds of its members, seen uniformly.  A layout is
  sound when every bind is inside the memory and no two binds share a bit; then writing
  one member changes no other member.  The check is executable, so that each register
  class of canscope/device/register is checked by evaluation in theory Registers.
\<close>

subsection \<open>The binds, uniformly\<close>

datatype bind =
    BoolB BoolBind
  | ByteB OneByteTypeBind
  | U16B SimpleTypeBind
  | U32B SimpleTypeBind
  | SplitB Uint16SplitBind
  | SubB Uint32SubBind

fun bind_ok :: "bind \<Rightarrow> bool" where
  "bind_ok (BoolB b) \<longleftrightarrow> bb_index b \<le> 7"
| "bind_ok (SplitB b) \<longleftrightarrow> sp_index_0 b \<noteq> sp_index_1 b"
| "bind_ok (SubB b) \<longleftrightarrow> sub_ok b"
| "bind_ok _ \<longleftrightarrow> True"

fun bind_ptr :: "bind \<Rightarrow> nat" where
  "bind_ptr (BoolB b) = bb_ptr b"
| "bind_ptr (ByteB b) = ob_ptr b"
| "bind_ptr (U16B b) = st_ptr b"
| "bind_ptr (U32B b) = st_ptr b"
| "bind_ptr (SplitB b) = sp_ptr b"
| "bind_ptr (SubB b) = st_ptr (sb_bind b)"

fun bind_fits :: "bind \<Rightarrow> nat \<Rightarrow> bool" where
  "bind_fits (BoolB b) = (\<lambda>n. bb_ptr b < n)"
| "bind_fits (ByteB b) = (\<lambda>n. ob_ptr b < n)"
| "bind_fits (U16B b) = (\<lambda>n. st_ptr b + 2 \<le> n)"
| "bind_fits (U32B b) = (\<lambda>n. st_ptr b + 4 \<le> n)"
| "bind_fits (SplitB b) = (\<lambda>n. (\<forall>a \<in> set (split_addrs b). a < n))"
| "bind_fits (SubB b) = (\<lambda>n. st_ptr (sb_bind b) + 4 \<le> n)"

definition byte_bit_list :: "nat \<Rightarrow> nat list" where
  "byte_bit_list p = map (\<lambda>i. 8 * p + i) [0..<8]"

fun bind_bit_list :: "bind \<Rightarrow> nat list" where
  "bind_bit_list (BoolB b) = [8 * bb_ptr b + bb_index b]"
| "bind_bit_list (ByteB b) = byte_bit_list (ob_ptr b)"
| "bind_bit_list (U16B b) = concat (map byte_bit_list [st_ptr b, st_ptr b + 1])"
| "bind_bit_list (U32B b) =
     concat (map byte_bit_list [st_ptr b, st_ptr b + 1, st_ptr b + 2, st_ptr b + 3])"
| "bind_bit_list (SplitB b) = concat (map byte_bit_list (split_addrs b))"
| "bind_bit_list (SubB b) =
     map (word_bit_pos (sb_bind b)) [sb_start_index b ..< Suc (sb_end_index b)]"

text \<open>
  A value of any bind as 32 bits.  \<open>bind_bound\<close> is the largest value of the bind's C++
  type or field; \<open>bind_set_value\<close> takes no larger one.
\<close>

fun bind_bound :: "bind \<Rightarrow> u32" where
  "bind_bound (BoolB b) = 1"
| "bind_bound (ByteB b) = 0xFF"
| "bind_bound (U16B b) = 0xFFFF"
| "bind_bound (U32B b) = 0xFFFFFFFF"
| "bind_bound (SplitB b) = 0xFFFF"
| "bind_bound (SubB b) = MaxValue b"

fun bind_value :: "bind \<Rightarrow> mem \<Rightarrow> u32 res" where
  "bind_value (BoolB b) = (\<lambda>m. and_then (bool_value b m) (\<lambda>v. Inr (of_bool v)))"
| "bind_value (ByteB b) = (\<lambda>m. and_then (one_byte_value b m) (\<lambda>v. Inr (ucast v)))"
| "bind_value (U16B b) = (\<lambda>m. and_then (simple_value b m) (\<lambda>v. Inr (ucast (v :: u16))))"
| "bind_value (U32B b) = (\<lambda>m. and_then (simple_value b m) (\<lambda>v. Inr v))"
| "bind_value (SplitB b) = (\<lambda>m. and_then (split_value b m) (\<lambda>v. Inr (ucast v)))"
| "bind_value (SubB b) = (\<lambda>m. and_then (sub_value b m) (\<lambda>v. Inr v))"

fun raw_set_value :: "bind \<Rightarrow> u32 \<Rightarrow> mem \<Rightarrow> mem res" where
  "raw_set_value (BoolB b) v m = bool_set_value b (v \<noteq> 0) m"
| "raw_set_value (ByteB b) v m = one_byte_set_value b (ucast v) m"
| "raw_set_value (U16B b) v m = simple_set_value b (ucast v :: u16) m"
| "raw_set_value (U32B b) v m = simple_set_value b v m"
| "raw_set_value (SplitB b) v m = split_set_value b (ucast v) m"
| "raw_set_value (SubB b) v m = sub_set_value b v m"

definition bind_set_value :: "bind \<Rightarrow> u32 \<Rightarrow> mem \<Rightarrow> mem res" where
  "bind_set_value b v m = CHECK (v \<le> bind_bound b) (raw_set_value b v m)"

subsection \<open>Every bind meets the contract of a memory field\<close>

text \<open>A field read and written through an embedding of its values.\<close>

lemma memory_field_embed:
  assumes f: "memory_field fits bits valid get put"
    and de: "\<And>v. d (e v) = v" and ed: "\<And>w. valid' w \<Longrightarrow> e (d w) = w"
    and ve: "\<And>v. valid v \<Longrightarrow> valid' (e v)" and vd: "\<And>w. valid' w \<Longrightarrow> valid (d w)"
  shows "memory_field fits bits valid' (\<lambda>m. and_then (get m) (\<lambda>v. Inr (e v)))
     (\<lambda>w m. CHECK (valid' w) (put (d w) m))"
proof -
  have inj: "get m = get m'"
    if "and_then (get m) (\<lambda>v. Inr (e v)) = and_then (get m') (\<lambda>v. Inr (e v))" for m m'
    using that de by (cases "get m"; cases "get m'") (auto, metis)
  show ?thesis
  proof (unfold_locales, goal_cases)
    case (1 m)
    then show ?case using memory_field.get_total [OF f 1] ve by auto
  next
    case (2 m w)
    then show ?case using memory_field.put_total [OF f 2(1) vd] by simp
  next
    case (3 w m m')
    then show ?case using memory_field.put_length [OF f] by (auto simp: check_Inr_iff)
  next
    case (4 m w m')
    then show ?case using memory_field.get_put [OF f 4(1)] ed by (auto simp: check_Inr_iff)
  next
    case (5 w m m' q)
    then show ?case using memory_field.put_frame [OF f] by (auto simp: check_Inr_iff)
  next
    case (6 m m')
    then show ?case using memory_field.get_local [OF f, of m m'] by simp
  next
    case (7 m m' q)
    then show ?case using memory_field.get_determines [OF f 7(1,2) inj 7(4)] by simp
  qed
qed

lemma set_byte_bit_list: "set (byte_bit_list p) = byte_bits p"
proof -
  have "q \<in> byte_bits p \<Longrightarrow> q = 8 * p + (q - 8 * p) \<and> q - 8 * p \<in> {0..<8}" for q
    unfolding byte_bits_def by auto
  then show ?thesis by (auto simp: byte_bit_list_def)
qed

lemma upt_2_4: "{p..<p + 2} = {p, p + 1}" "{p..<p + 4} = {p, p + 1, p + 2, p + (3::nat)}"
  by auto

lemma byte_masks: "(0xFF :: u32) = mask (Suc 7)" "(0xFFFF :: u32) = mask (Suc 15)"
  by (simp_all add: mask_eq_exp_minus_1)

lemma u32_le: "(x :: u32) \<le> 0xFFFFFFFF"
  using unsigned_less [where 'a = nat and w = x] by (simp add: word_le_nat_alt)

lemma ucast_le_bound: "(ucast (v :: u8) :: u32) \<le> 0xFF" "(ucast (w :: u16) :: u32) \<le> 0xFFFF"
proof -
  have "ucast v = ucast v AND (mask (Suc 7) :: u32)" "ucast w = ucast w AND (mask (Suc 15) :: u32)"
    using bit_imp_le_length [of v] bit_imp_le_length [of w]
    by (auto intro!: bit_word_eqI simp: bit_simps)
  then show "(ucast v :: u32) \<le> 0xFF" "(ucast w :: u32) \<le> 0xFFFF"
    unfolding byte_masks by (metis word_and_le1)+
qed

lemma le_mask_byte: "v \<le> 0xFF \<Longrightarrow> bit v j \<Longrightarrow> j < 8" "v \<le> 0xFFFF \<Longrightarrow> bit v j \<Longrightarrow> j < 16"
  for v :: u32
  unfolding byte_masks using le_mask_bit [of v 7 j] le_mask_bit [of v 15 j] by auto

lemma ucast_ucast_bound:
  "v \<le> 0xFF \<Longrightarrow> ucast (ucast (v :: u32) :: u8) = v"
  "v \<le> 0xFFFF \<Longrightarrow> ucast (ucast v :: u16) = v"
  using le_mask_byte [of v] by (auto intro!: bit_word_eqI simp: bit_simps)

lemma ucast_up: "ucast (ucast (v :: u8) :: u32) = v" "ucast (ucast (w :: u16) :: u32) = w"
  by (auto intro!: bit_word_eqI simp: bit_simps)

lemma le_1_word: "(v :: u32) \<le> 1 \<longleftrightarrow> v = 0 \<or> v = 1"
proof -
  have "v = 1" if "unat v = unat (1 :: u32)" using that by (simp only: word_unat_eq_iff)
  then show ?thesis by (auto simp: word_le_nat_alt le_Suc_eq unat_eq_0)
qed

lemma bind_field:
  assumes "bind_ok b"
  shows "memory_field (bind_fits b) (set (bind_bit_list b)) (\<lambda>v. v \<le> bind_bound b)
     (bind_value b) (bind_set_value b)"
proof (cases b)
  case (BoolB bb)
  with assms have "bb_index bb \<le> 7" by simp
  have e: "w \<le> 1 \<Longrightarrow> of_bool (w \<noteq> 0) = w" "of_bool v \<le> (1 :: u32)" for w :: u32 and v
    by (auto simp: le_1_word)
  from \<open>bb_index bb \<le> 7\<close>
  have "memory_field (\<lambda>n. bb_ptr bb < n) (bool_bits bb) (\<lambda>v. v \<le> 1)
      (\<lambda>m. and_then (bool_value bb m) (\<lambda>v. Inr (of_bool v :: u32)))
      (\<lambda>w m. CHECK (w \<le> 1) (bool_set_value bb (w \<noteq> 0) m))"
    by (intro memory_field_embed [OF bool_field]) (auto simp: e)
  with BoolB show ?thesis by (simp add: bind_set_value_def [abs_def] bool_bits_def)
next
  case (ByteB bb)
  from memory_field_embed [OF one_byte_field [of bb], of ucast "ucast :: _ \<Rightarrow> u32" "\<lambda>v. v \<le> 0xFF"] ByteB
  show ?thesis
    by (simp add: bind_set_value_def [abs_def] set_byte_bit_list ucast_le_bound ucast_up
        ucast_ucast_bound)
next
  case (U16B bb)
  have bits: "set (bind_bit_list b) = (\<Union>a \<in> {st_ptr bb ..< st_ptr bb + 2}. byte_bits a)"
    unfolding upt_2_4 by (simp add: U16B set_byte_bit_list)
  from memory_field_embed [OF u16_bind.memory_field_axioms [of bb], of ucast "ucast :: _ \<Rightarrow> u32" "\<lambda>v. v \<le> 0xFFFF"] U16B
  show ?thesis
    unfolding bits
    by (simp add: bind_set_value_def [abs_def] ucast_le_bound ucast_up ucast_ucast_bound)
next
  case (U32B bb)
  have "v \<le> 0xFFFFFFFF" for v :: u32 
    using unsigned_less [of v, where ?'a = nat] by (simp add: word_le_nat_alt)
  with memory_field_embed [OF u32_bind.memory_field_axioms [of bb], of id id "\<lambda>v. v \<le> 0xFFFFFFFF"] U32B
  show ?thesis
    by (simp add: bind_set_value_def [abs_def] set_byte_bit_list upt_2_4 Un_assoc)
next
  case (SplitB bb)
  with assms have "sp_index_0 bb \<noteq> sp_index_1 bb" by simp
  from memory_field_embed [OF split_field [OF this], of ucast "ucast :: _ \<Rightarrow> u32" "\<lambda>v. v \<le> 0xFFFF"] SplitB
  show ?thesis
    by (simp add: bind_set_value_def [abs_def] set_byte_bit_list ucast_le_bound ucast_up
        ucast_ucast_bound
        split_addrs_def)
next
  case (SubB bb)
  with assms have ok: "sub_ok bb" by simp
  have "set (bind_bit_list b) = sub_bits bb"
    by (simp add: SubB sub_bits_def atLeastLessThanSuc_atLeastAtMost del: upt_Suc)
  with memory_field_embed [OF sub_field [OF ok], of id id "\<lambda>v. v \<le> MaxValue bb"] SubB
  show ?thesis by (simp add: bind_set_value_def [abs_def] del: bind_bit_list.simps)
qed

subsection \<open>Sound layouts\<close>

text \<open>
  The intervals of bits that contain a bind.  Two binds whose intervals do not meet share no
  bit, which compares a few numbers where comparing the bits one by one would not evaluate.
\<close>

fun bind_spans :: "bind \<Rightarrow> (nat \<times> nat) list" where
  "bind_spans (BoolB b) = [(8 * bb_ptr b + bb_index b, 8 * bb_ptr b + bb_index b + 1)]"
| "bind_spans (ByteB b) = [(8 * ob_ptr b, 8 * ob_ptr b + 8)]"
| "bind_spans (U16B b) = [(8 * st_ptr b, 8 * st_ptr b + 16)]"
| "bind_spans (U32B b) = [(8 * st_ptr b, 8 * st_ptr b + 32)]"
| "bind_spans (SplitB b) = map (\<lambda>a. (8 * a, 8 * a + 8)) (split_addrs b)"
| "bind_spans (SubB b) =
     (if st_big_endian (sb_bind b) then [(8 * st_ptr (sb_bind b), 8 * st_ptr (sb_bind b) + 32)]
      else [(8 * st_ptr (sb_bind b) + sb_start_index b, 8 * st_ptr (sb_bind b) + sb_end_index b + 1)])"

definition apart :: "nat \<times> nat \<Rightarrow> nat \<times> nat \<Rightarrow> bool" where
  "apart s t \<longleftrightarrow> snd s \<le> fst t \<or> snd t \<le> fst s"

definition binds_apart :: "bind \<Rightarrow> bind \<Rightarrow> bool" where
  "binds_apart b c \<longleftrightarrow> list_all (\<lambda>s. list_all (apart s) (bind_spans c)) (bind_spans b)"

lemma word_bit_pos_little: "\<not> st_big_endian b \<Longrightarrow> word_bit_pos b k = 8 * st_ptr b + k"
  by (simp add: word_bit_pos_def add.assoc)

lemma word_bit_pos_range:
  assumes "k < 32"
  shows "8 * st_ptr b \<le> word_bit_pos b k \<and> word_bit_pos b k < 8 * st_ptr b + 32"
proof -
  have "k div 8 \<le> 3" "k mod 8 < 8" using assms by simp_all
  then have "(if st_big_endian b then 3 - k div 8 else k div 8) \<le> 3" by simp
  with \<open>k mod 8 < 8\<close> show ?thesis unfolding word_bit_pos_def distrib_left by linarith
qed

lemma bind_bits_in_spans:
  assumes "bind_ok b" and "q \<in> set (bind_bit_list b)"
  shows "\<exists>s \<in> set (bind_spans b). fst s \<le> q \<and> q < snd s"
proof (cases b)
  case (SubB bb)
  then obtain k where k: "q = word_bit_pos (sb_bind bb) k" "sb_start_index bb \<le> k" "k \<le> sb_end_index bb"
    using assms(2) by (auto simp del: upt_Suc)
  with assms(1) SubB have "k < 32" by (auto simp: sub_ok_def)
  with k SubB show ?thesis
    using word_bit_pos_range [of k "sb_bind bb"] word_bit_pos_little [of "sb_bind bb" k] by auto
qed (use assms in \<open>auto simp: set_byte_bit_list byte_bits_def split_addrs_def\<close>)

lemma binds_apart_disjoint:
  assumes "binds_apart b c" and "bind_ok b" and "bind_ok c"
  shows "set (bind_bit_list b) \<inter> set (bind_bit_list c) = {}"
proof -
  have False if q: "q \<in> set (bind_bit_list b)" "q \<in> set (bind_bit_list c)" for q
  proof -
    obtain s t where "s \<in> set (bind_spans b)" "fst s \<le> q" "q < snd s"
        "t \<in> set (bind_spans c)" "fst t \<le> q" "q < snd t"
      using bind_bits_in_spans assms(2,3) q by metis
    moreover from this have "apart s t" using assms(1) by (simp add: binds_apart_def list_all_iff)
    ultimately show False by (auto simp: apart_def)
  qed
  then show ?thesis by blast
qed

definition layout_ok :: "nat \<Rightarrow> bind list \<Rightarrow> bool" where
  "layout_ok sz bs \<longleftrightarrow>
     list_all (\<lambda>b. bind_ok b \<and> bind_fits b sz \<and> bind_ptr b < sz) bs \<and> sorted_wrt binds_apart bs"

lemma layout_ok_bind:
  "layout_ok sz bs \<Longrightarrow> b \<in> set bs \<Longrightarrow> bind_ok b \<and> bind_fits b sz \<and> bind_ptr b < sz"
  by (auto simp: layout_ok_def list_all_iff)

lemma layout_ok_disjoint:
  assumes "layout_ok sz bs" and "i < length bs" and "j < length bs" and "i \<noteq> j"
  shows "set (bind_bit_list (bs ! i)) \<inter> set (bind_bit_list (bs ! j)) = {}"
proof -
  have "bind_ok (bs ! i)" "bind_ok (bs ! j)" using layout_ok_bind assms by auto
  moreover have "binds_apart (bs ! i) (bs ! j) \<or> binds_apart (bs ! j) (bs ! i)"
    using assms sorted_wrt_nth_less [of binds_apart bs] by (metis layout_ok_def linorder_neqE_nat)
  ultimately show ?thesis using binds_apart_disjoint by blast
qed

lemma layout_two_fields:
  assumes "layout_ok sz bs" and "i < length bs" and "j < length bs" and "i \<noteq> j"
  shows "two_fields
     (bind_fits (bs ! i)) (set (bind_bit_list (bs ! i))) (\<lambda>v. v \<le> bind_bound (bs ! i))
     (bind_value (bs ! i)) (bind_set_value (bs ! i))
     (bind_fits (bs ! j)) (set (bind_bit_list (bs ! j))) (\<lambda>v. v \<le> bind_bound (bs ! j))
     (bind_value (bs ! j)) (bind_set_value (bs ! j))"
  using layout_ok_bind [OF assms(1)] assms layout_ok_disjoint [OF assms]
  by (intro two_fields.intro two_fields_axioms.intro bind_field) auto

lemma layout_write:
  assumes "layout_ok (length m) bs" and "i < length bs" and "v \<le> bind_bound (bs ! i)"
  shows "\<exists>m'. bind_set_value (bs ! i) v m = Inr m' \<and> length m' = length m \<and>
     bind_value (bs ! i) m' = Inr v \<and>
     (\<forall>j < length bs. j \<noteq> i \<longrightarrow> bind_value (bs ! j) m' = bind_value (bs ! j) m)"
proof -
  have ok: "bind_ok (bs ! i)" "bind_fits (bs ! i) (length m)"
    using layout_ok_bind [OF assms(1)] assms(2) by auto
  note f = bind_field [OF ok(1)]
  obtain m' where m': "bind_set_value (bs ! i) v m = Inr m'"
    using memory_field.put_total [OF f ok(2) assms(3)] by blast
  show ?thesis
    using m' memory_field.put_length [OF f m'] memory_field.get_put [OF f ok(2) m']
      two_fields.get_other [OF layout_two_fields [OF assms(1,2)] m'] by auto
qed

text \<open>A memcpy that stays clear of a bind's intervals does not change its value.\<close>

lemma memcpy_other:
  assumes "memcpy_to m p bs = Inr m'" and "bind_ok b"
    and "list_all (apart (8 * p, 8 * (p + length bs))) (bind_spans b)"
  shows "bind_value b m' = bind_value b m"
proof (rule memory_field.get_local [OF bind_field [OF assms(2)]])
  show "length m' = length m" using assms(1) by (rule length_memcpy_to)
next
  fix q assume "q \<in> set (bind_bit_list b)"
  then obtain s where "s \<in> set (bind_spans b)" "fst s \<le> q" "q < snd s"
    using bind_bits_in_spans [OF assms(2)] by blast
  moreover from this have "apart (8 * p, 8 * (p + length bs)) s"
    using assms(3) by (simp add: list_all_iff)
  ultimately have out: "\<not> (p \<le> q div 8 \<and> q div 8 < p + length bs)"
    by (auto simp: apart_def)
  show "mbit m' q = mbit m q"
  proof (cases "q div 8 < length m")
    case True
    then show ?thesis using out nth_memcpy_to [OF assms(1) True] by (auto simp: mbit_def)
  next
    case False
    then have "m' = take p m @ bs @ drop (p + length bs) m" "p + length bs \<le> length m"
      using assms(1) by (auto simp: memcpy_to_Inr_iff)
    moreover from this have "\<not> q div 8 - p < length bs" "\<not> q div 8 < p" using False by linarith+
    ultimately show ?thesis by (simp add: mbit_def nth_append)
  qed
qed

end
