(* ===== verification/Device_Constants.thy ===== *)
theory Device_Constants
  imports Prelude
begin

text \<open>
  The constants and small functions of canscope/device/canscope_device_constants.h that
  the modelled code uses.
\<close>

definition kOscCollectUpdateStateCount :: int where "kOscCollectUpdateStateCount = 5"
definition kOscCollectUpdateStateInterval :: int where "kOscCollectUpdateStateInterval = 20"
definition kOscCollectMiniTimeLimit :: int where "kOscCollectMiniTimeLimit = 1000"
definition kOscMemoryUsage :: int where "kOscMemoryUsage = 100 * 1024 * 1024"
definition kOscMaxFreq :: int where "kOscMaxFreq = 100"
definition kMaxBaudRate :: int where "kMaxBaudRate = 100 * 1000 * 1000"
definition kFrameSize :: int where "kFrameSize = 48"
definition kFrameBufferMaxSize :: int where "kFrameBufferMaxSize = 5 * 1024 * 1024"
definition kFrameWaitFull :: int where "kFrameWaitFull = 1000"
definition kFrameCleanLeftover :: bool where "kFrameCleanLeftover = True"

datatype DeviceType = DT_CS1201 | DT_CS1202 | DT_CS1203

definition DeviceK :: "DeviceType \<Rightarrow> int" where
  "DeviceK t = (if t = DT_CS1203 then 8 else 2)"

definition DeviceTypeDataSize :: "DeviceType \<Rightarrow> int" where
  "DeviceTypeDataSize t = DeviceK t * 1000 * 2"

definition DeviceStorageSize :: "DeviceType \<Rightarrow> u32" where
  "DeviceStorageSize t = 512 * 1024 * 1024"

text \<open>The divider is computed in \<open>int\<close> and converted to \<open>uint16\<close> on return.\<close>

definition BaudRateToFilDiv :: "int \<Rightarrow> u16 res" where
  "BaudRateToFilDiv baud_rate =
     DCHECK (0 < baud_rate)
       (Inr (word_of_int (trunc_div (trunc_div kMaxBaudRate baud_rate) 16 - 1)))"

end
