(* ===== verification/Registers.thy ===== *)
theory Registers
  imports Register_Layout Device_Constants
begin

text \<open>
  The device's registers: canscope/device/register/canscope_device_register_constants.h
  and the register classes of the same directory.  A class is a register memory and a bind
  per member; \<open>X_new\<close> is the memory its constructor makes and \<open>X_m\<close> the bind of member
  \<open>m\<close> of class \<open>X\<close>, whose pointer is the offset given to PtrByRelative.  \<open>X_binds\<close> lists
  the members that a program writes; members that are views of the same bits (the details of
  the send state of the SJA1000, the read sides of the FPGA's control bits) are left out of the
  list and have lemmas of their own.

  Addresses are 32-bit words, offsets and sizes natural numbers.
\<close>

named_theorems register_consts "the constants of the register map"
named_theorems register_members "the binds of the register classes"

subsection \<open>The register map\<close>

definition kDeviceInfoAddr :: u32 where [register_consts]: "kDeviceInfoAddr = 0"
definition kDeviceInfoIDOffset :: nat where [register_consts]: "kDeviceInfoIDOffset = 0"
definition kDeviceInfoLoaderVersionOffset :: nat where
  [register_consts]: "kDeviceInfoLoaderVersionOffset = 0x4"
definition kDeviceInfoDeviceTypeOffset :: nat where
  [register_consts]: "kDeviceInfoDeviceTypeOffset = 0x8"
definition kDeviceInfofirmwareVersionOffset :: nat where
  [register_consts]: "kDeviceInfofirmwareVersionOffset = 0xC"
definition kDeviceInfoFpgaVersionOffset :: nat where
  [register_consts]: "kDeviceInfoFpgaVersionOffset = 0x10"
definition kDeviceInfoDeviceSerialNumOffset :: nat where
  [register_consts]: "kDeviceInfoDeviceSerialNumOffset = 0x14"
definition kDeviceInfoProduceDateOffset :: nat where
  [register_consts]: "kDeviceInfoProduceDateOffset = 0x18"
definition kDeviceInfoUsbSpeedOffset :: nat where
  [register_consts]: "kDeviceInfoUsbSpeedOffset = 0x1C"
definition kDeviceInfoFirmwareUpdateFlagOffset :: nat where
  [register_consts]: "kDeviceInfoFirmwareUpdateFlagOffset = 0x1E"
definition kDeviceInfoVoltage12Offset :: nat where
  [register_consts]: "kDeviceInfoVoltage12Offset = 0x20"
definition kDeviceInfoVoltage1p2Offset :: nat where
  [register_consts]: "kDeviceInfoVoltage1p2Offset = 0x22"
definition kDeviceInfoVoltage3p3Offset :: nat where
  [register_consts]: "kDeviceInfoVoltage3p3Offset = 0x24"
definition kDeviceInfoVoltage2p5Offset :: nat where
  [register_consts]: "kDeviceInfoVoltage2p5Offset = 0x26"
definition kDeviceInfoVoltage5Offset :: nat where
  [register_consts]: "kDeviceInfoVoltage5Offset = 0x28"
definition kDeviceInfoFpgaCoreTempOffset :: nat where
  [register_consts]: "kDeviceInfoFpgaCoreTempOffset = 0x2A"
definition kDeviceInfoEnvTempOffset :: nat where
  [register_consts]: "kDeviceInfoEnvTempOffset = 0x2C"
definition kDeviceInfoSize :: nat where
  [register_consts]: "kDeviceInfoSize = kDeviceInfoEnvTempOffset + 0x2 + 0x12"
definition kBaseAddr :: u32 where [register_consts]: "kBaseAddr = 0x82000000"
text \<open>The blocks of end point 1, from the base address.\<close>

definition kSJA1000Addr :: u32 where [register_consts]: "kSJA1000Addr = kBaseAddr + 0"
definition kSJABtrOffset :: nat where [register_consts]: "kSJABtrOffset = 0"
definition kSJASlientOffset :: nat where [register_consts]: "kSJASlientOffset = 0x2"
definition kSJAFrameDataOffset :: nat where [register_consts]: "kSJAFrameDataOffset = 0x4"
definition kSJASendStateOffset :: nat where [register_consts]: "kSJASendStateOffset = 0x14"
definition kSJASAlcOffset :: nat where [register_consts]: "kSJASAlcOffset = kSJASendStateOffset"
definition kSJASEccOffset :: nat where
  [register_consts]: "kSJASEccOffset = kSJASendStateOffset + 1"
definition kSJAIntOffset :: nat where [register_consts]: "kSJAIntOffset = kSJASendStateOffset + 2"
definition kSJAStateOffset :: nat where
  [register_consts]: "kSJAStateOffset = kSJASendStateOffset + 3"
definition kSJA1000Size :: nat where [register_consts]: "kSJA1000Size = kSJASendStateOffset + 0x4"
definition kWaveStorageAddr :: u32 where [register_consts]: "kWaveStorageAddr = kBaseAddr + 0x80"
definition kFrameLenOffset :: nat where [register_consts]: "kFrameLenOffset = 0x4"
definition kWaveStartOffset :: nat where [register_consts]: "kWaveStartOffset = 0x8"
definition kWEaveEndOffset :: nat where [register_consts]: "kWEaveEndOffset = 0xC"
definition kDivCoreOffset :: nat where [register_consts]: "kDivCoreOffset = 0x10"
definition KWaveLostOffset :: nat where [register_consts]: "KWaveLostOffset = 0x14"
definition kWaveStorageSize :: nat where
  [register_consts]: "kWaveStorageSize = KWaveLostOffset + 0x4"
definition kSoftDiffAddr :: u32 where [register_consts]: "kSoftDiffAddr = kBaseAddr + 0xC0"
definition kSjaBtrOffset :: nat where [register_consts]: "kSjaBtrOffset = 0"
definition kSysCfgOffset :: nat where [register_consts]: "kSysCfgOffset = 0x3"
definition kChSensCanhOffset :: nat where [register_consts]: "kChSensCanhOffset = 0x8"
definition kChSensCanlOffset :: nat where [register_consts]: "kChSensCanlOffset = 0x9"
definition kChSensCandiffOffset :: nat where [register_consts]: "kChSensCandiffOffset = 0xA"
definition kChZerolCanhOffset :: nat where [register_consts]: "kChZerolCanhOffset = 0xC"
definition kChZerolCanlOffset :: nat where [register_consts]: "kChZerolCanlOffset = 0xD"
definition kChZerolCandiffOffset :: nat where [register_consts]: "kChZerolCandiffOffset = 0xE"
definition kDiffCtrlOffset :: nat where [register_consts]: "kDiffCtrlOffset = 0x10"
definition kFilteringOffset :: nat where [register_consts]: "kFilteringOffset = 0x14"
definition kChZerohCanhOffset :: nat where [register_consts]: "kChZerohCanhOffset = 0x18"
definition kChZerohCanlOffset :: nat where [register_consts]: "kChZerohCanlOffset = 0x19"
definition kChZerohCandiffOffset :: nat where [register_consts]: "kChZerohCandiffOffset = 0x1A"
definition kSoftDiffSize :: nat where
  [register_consts]: "kSoftDiffSize = kChZerohCandiffOffset + 1 + 1"
definition kFrameStorageAddr :: u32 where
  [register_consts]: "kFrameStorageAddr = kBaseAddr + 0x100"
definition kFrameDepthOffset :: nat where [register_consts]: "kFrameDepthOffset = 0"
definition kFrameNumOffset :: nat where [register_consts]: "kFrameNumOffset = 0x4"
definition kFrameOverFlowOffset :: nat where [register_consts]: "kFrameOverFlowOffset = 0x8"
definition kFrameStorageSize :: nat where
  [register_consts]: "kFrameStorageSize = kFrameOverFlowOffset + 0x4"
definition kWaveReadCtrlAddr :: u32 where
  [register_consts]: "kWaveReadCtrlAddr = kBaseAddr + 0x110"
definition kReadStartOffset :: nat where [register_consts]: "kReadStartOffset = 0"
definition kSectionStartOffset :: nat where [register_consts]: "kSectionStartOffset = 0x4"
definition kSectionEndOffset :: nat where [register_consts]: "kSectionEndOffset = 0x8"
definition kWaveReadCtrlSize :: nat where
  [register_consts]: "kWaveReadCtrlSize = kSectionEndOffset + 0x4"
definition kAnalogCtrlAddr :: u32 where [register_consts]: "kAnalogCtrlAddr = kBaseAddr + 0x140"
definition kGainCh1Offset :: nat where [register_consts]: "kGainCh1Offset = 0x8"
definition kOffsetCh1Offset :: nat where [register_consts]: "kOffsetCh1Offset = 0xC"
definition kGainCh2Offset :: nat where [register_consts]: "kGainCh2Offset = 0x10"
definition kOffsetCh2Offset :: nat where [register_consts]: "kOffsetCh2Offset = 0x14"
definition kAnalogCtrlSize :: nat where
  [register_consts]: "kAnalogCtrlSize = kOffsetCh2Offset + 0x4"
definition kAnalogSwitchAddr :: u32 where
  [register_consts]: "kAnalogSwitchAddr = kBaseAddr + 0x160"
definition kAnalogSwitchOffset :: nat where [register_consts]: "kAnalogSwitchOffset = 0"
definition kAnalogSwitchSize :: nat where
  [register_consts]: "kAnalogSwitchSize = kAnalogSwitchOffset + 0x4"
definition kTrigger1Addr :: u32 where [register_consts]: "kTrigger1Addr = kBaseAddr + 0x180"
definition kTrigPreOffset :: nat where [register_consts]: "kTrigPreOffset = 0"
definition kTrigPostOffset :: nat where [register_consts]: "kTrigPostOffset = 0x4"
definition kAutoTimeOffset :: nat where [register_consts]: "kAutoTimeOffset = 0x8"
definition kDivCoeOffset :: nat where [register_consts]: "kDivCoeOffset = 0xC"
definition kTrigger1Size :: nat where [register_consts]: "kTrigger1Size = kDivCoeOffset + 0x4"
definition kTriggerStateAddr :: u32 where
  [register_consts]: "kTriggerStateAddr = kBaseAddr + 0x190"
definition kTrigStateOffset :: nat where [register_consts]: "kTrigStateOffset = 0"
definition kTrigAddrOffset :: nat where [register_consts]: "kTrigAddrOffset = 0x4"
definition kTrigSaddrOffset :: nat where [register_consts]: "kTrigSaddrOffset = 0x8"
definition kTrigEaddrOffset :: nat where [register_consts]: "kTrigEaddrOffset = 0xC"
definition kTriggerStateSize :: nat where
  [register_consts]: "kTriggerStateSize = kTrigEaddrOffset + 0x4"
definition kTrigger2Addr :: u32 where [register_consts]: "kTrigger2Addr = kBaseAddr + 0x1A0"
definition kTrigSourceOffset :: nat where [register_consts]: "kTrigSourceOffset = 0"
definition kCmpVolOffset :: nat where [register_consts]: "kCmpVolOffset = 0x4"
definition kTrigTypeOffset :: nat where [register_consts]: "kTrigTypeOffset = 0x8"
definition kTrigTimeOffset :: nat where [register_consts]: "kTrigTimeOffset = 0xC"
definition kTrigger2Size :: nat where [register_consts]: "kTrigger2Size = kTrigTimeOffset + 0x4"
definition kScopeCtrlAddr :: u32 where [register_consts]: "kScopeCtrlAddr = kBaseAddr + 0x1B0"
definition kScopeCtrlOffset :: nat where [register_consts]: "kScopeCtrlOffset = 0"
definition kScopeCtrlSize :: nat where
  [register_consts]: "kScopeCtrlSize = kScopeCtrlOffset + 0x4"
definition kFpgaSendAddr :: u32 where [register_consts]: "kFpgaSendAddr = kBaseAddr + 0x1380"
definition kBtrDivOffset :: nat where [register_consts]: "kBtrDivOffset = 0"
definition kBitNumOffset :: nat where [register_consts]: "kBitNumOffset = 0x2"
definition kSendNumOffset :: nat where [register_consts]: "kSendNumOffset = 0x3"
definition kFpgaSendFrameDataOffset :: nat where
  [register_consts]: "kFpgaSendFrameDataOffset = 0x4"
definition kAckBitOffset :: nat where [register_consts]: "kAckBitOffset = 0x18"
definition kAckOffset :: nat where [register_consts]: "kAckOffset = 0x19"
definition kSendStateOffset :: nat where [register_consts]: "kSendStateOffset = 0x1C"
definition kAckStateOffset :: nat where [register_consts]: "kAckStateOffset = 0x1C"
definition kDstbStartOffset :: nat where [register_consts]: "kDstbStartOffset = 0x20"
definition kDstbEndOffset :: nat where [register_consts]: "kDstbEndOffset = 0x22"
definition kDstbDataOffset :: nat where [register_consts]: "kDstbDataOffset = 0x24"
definition kDstbOffset :: nat where [register_consts]: "kDstbOffset = 0x38"
definition kFpgaSendSize :: nat where [register_consts]: "kFpgaSendSize = kDstbOffset + 0x4"
definition kScopeReadAddr :: u32 where [register_consts]: "kScopeReadAddr = kBaseAddr + 0x138"
definition kFramdReadAddr :: u32 where [register_consts]: "kFramdReadAddr = kBaseAddr + 0x128"

subsection \<open>DeviceInfo\<close>

definition DeviceInfo_new :: "RegisterMemory res" where
  "DeviceInfo_new = RegisterMemory_new kDeviceInfoAddr (int kDeviceInfoSize)"

definition DeviceInfo_id :: SimpleTypeBind where
  [register_members]: "DeviceInfo_id =
     \<lparr>st_ptr = kDeviceInfoIDOffset, st_big_endian = False\<rparr>"

definition DeviceInfo_loader_version :: SimpleTypeBind where
  [register_members]: "DeviceInfo_loader_version =
     \<lparr>st_ptr = kDeviceInfoLoaderVersionOffset, st_big_endian = False\<rparr>"

definition DeviceInfo_device_type :: SimpleTypeBind where
  [register_members]: "DeviceInfo_device_type =
     \<lparr>st_ptr = kDeviceInfoDeviceTypeOffset, st_big_endian = False\<rparr>"

definition DeviceInfo_firmware_version :: SimpleTypeBind where
  [register_members]: "DeviceInfo_firmware_version =
     \<lparr>st_ptr = kDeviceInfofirmwareVersionOffset, st_big_endian = False\<rparr>"

definition DeviceInfo_fpage_version :: SimpleTypeBind where
  [register_members]: "DeviceInfo_fpage_version =
     \<lparr>st_ptr = kDeviceInfoFpgaVersionOffset, st_big_endian = False\<rparr>"

definition DeviceInfo_device_serial_num :: SimpleTypeBind where
  [register_members]: "DeviceInfo_device_serial_num =
     \<lparr>st_ptr = kDeviceInfoDeviceSerialNumOffset, st_big_endian = False\<rparr>"

definition DeviceInfo_produce_data :: SimpleTypeBind where
  [register_members]: "DeviceInfo_produce_data =
     \<lparr>st_ptr = kDeviceInfoProduceDateOffset, st_big_endian = False\<rparr>"

definition DeviceInfo_usb_speed :: SimpleTypeBind where
  [register_members]: "DeviceInfo_usb_speed =
     \<lparr>st_ptr = kDeviceInfoUsbSpeedOffset, st_big_endian = False\<rparr>"

definition DeviceInfo_firmware_update_flag :: SimpleTypeBind where
  [register_members]: "DeviceInfo_firmware_update_flag =
     \<lparr>st_ptr = kDeviceInfoFirmwareUpdateFlagOffset, st_big_endian = False\<rparr>"

definition DeviceInfo_voltage_12 :: SimpleTypeBind where
  [register_members]: "DeviceInfo_voltage_12 =
     \<lparr>st_ptr = kDeviceInfoVoltage12Offset, st_big_endian = False\<rparr>"

definition DeviceInfo_voltage_1p2 :: SimpleTypeBind where
  [register_members]: "DeviceInfo_voltage_1p2 =
     \<lparr>st_ptr = kDeviceInfoVoltage1p2Offset, st_big_endian = False\<rparr>"

definition DeviceInfo_voltage_3p3 :: SimpleTypeBind where
  [register_members]: "DeviceInfo_voltage_3p3 =
     \<lparr>st_ptr = kDeviceInfoVoltage3p3Offset, st_big_endian = False\<rparr>"

definition DeviceInfo_voltage_2p5 :: SimpleTypeBind where
  [register_members]: "DeviceInfo_voltage_2p5 =
     \<lparr>st_ptr = kDeviceInfoVoltage2p5Offset, st_big_endian = False\<rparr>"

definition DeviceInfo_voltage_5 :: SimpleTypeBind where
  [register_members]: "DeviceInfo_voltage_5 =
     \<lparr>st_ptr = kDeviceInfoVoltage5Offset, st_big_endian = False\<rparr>"

definition DeviceInfo_fpga_core_temp :: SimpleTypeBind where
  [register_members]: "DeviceInfo_fpga_core_temp =
     \<lparr>st_ptr = kDeviceInfoFpgaCoreTempOffset, st_big_endian = False\<rparr>"

definition DeviceInfo_env_temp :: SimpleTypeBind where
  [register_members]: "DeviceInfo_env_temp =
     \<lparr>st_ptr = kDeviceInfoEnvTempOffset, st_big_endian = False\<rparr>"

definition DeviceInfo_binds :: "bind list" where
  [register_members]: "DeviceInfo_binds =
     [U16B DeviceInfo_id,
      U32B DeviceInfo_loader_version,
      U32B DeviceInfo_device_type,
      U32B DeviceInfo_firmware_version,
      U32B DeviceInfo_fpage_version,
      U32B DeviceInfo_device_serial_num,
      U32B DeviceInfo_produce_data,
      U16B DeviceInfo_usb_speed,
      U16B DeviceInfo_firmware_update_flag,
      U16B DeviceInfo_voltage_12,
      U16B DeviceInfo_voltage_1p2,
      U16B DeviceInfo_voltage_3p3,
      U16B DeviceInfo_voltage_2p5,
      U16B DeviceInfo_voltage_5,
      U16B DeviceInfo_fpga_core_temp,
      U16B DeviceInfo_env_temp]"

subsection \<open>SJA1000Register\<close>

definition SJA1000Register_new :: "RegisterMemory res" where
  "SJA1000Register_new = RegisterMemory_new kSJA1000Addr (int kSJA1000Size)"

definition SJA1000_sja_btr :: SimpleTypeBind where
  [register_members]: "SJA1000_sja_btr =
     \<lparr>st_ptr = kSJABtrOffset, st_big_endian = False\<rparr>"

definition SJA1000_slient :: BoolBind where
  [register_members]: "SJA1000_slient =
     \<lparr>bb_ptr = kSJASlientOffset, bb_index = 0, bb_invert = False\<rparr>"

definition SJA1000_send_state :: SimpleTypeBind where
  [register_members]: "SJA1000_send_state =
     \<lparr>st_ptr = kSJASendStateOffset, st_big_endian = False\<rparr>"

definition SJA1000_s_alc :: OneByteTypeBind where
  [register_members]: "SJA1000_s_alc =
     \<lparr>ob_ptr = kSJASAlcOffset\<rparr>"

definition SJA1000_s_ecc :: OneByteTypeBind where
  [register_members]: "SJA1000_s_ecc =
     \<lparr>ob_ptr = kSJASEccOffset\<rparr>"

definition SJA1000_int_send :: BoolBind where
  [register_members]: "SJA1000_int_send =
     \<lparr>bb_ptr = kSJAIntOffset, bb_index = 1, bb_invert = False\<rparr>"

definition SJA1000_int_alc :: BoolBind where
  [register_members]: "SJA1000_int_alc =
     \<lparr>bb_ptr = kSJAIntOffset, bb_index = 6, bb_invert = False\<rparr>"

definition SJA1000_int_bus :: BoolBind where
  [register_members]: "SJA1000_int_bus =
     \<lparr>bb_ptr = kSJAIntOffset, bb_index = 7, bb_invert = False\<rparr>"

definition SJA1000_cfg :: BoolBind where
  [register_members]: "SJA1000_cfg =
     \<lparr>bb_ptr = kSJAStateOffset, bb_index = 6, bb_invert = True\<rparr>"

definition SJA1000_sending :: BoolBind where
  [register_members]: "SJA1000_sending =
     \<lparr>bb_ptr = kSJAStateOffset, bb_index = 7, bb_invert = False\<rparr>"

definition SJA1000Register_binds :: "bind list" where
  [register_members]: "SJA1000Register_binds =
     [U16B SJA1000_sja_btr,
      BoolB SJA1000_slient,
      U32B SJA1000_send_state]"

subsection \<open>WaveStorageRegister\<close>

definition WaveStorageRegister_new :: "RegisterMemory res" where
  "WaveStorageRegister_new = RegisterMemory_new kWaveStorageAddr (int kWaveStorageSize)"

definition WaveStorage_frame_len :: SimpleTypeBind where
  [register_members]: "WaveStorage_frame_len =
     \<lparr>st_ptr = kFrameLenOffset, st_big_endian = False\<rparr>"

definition WaveStorage_wave_start :: SimpleTypeBind where
  [register_members]: "WaveStorage_wave_start =
     \<lparr>st_ptr = kWaveStartOffset, st_big_endian = False\<rparr>"

definition WaveStorage_wave_end :: SimpleTypeBind where
  [register_members]: "WaveStorage_wave_end =
     \<lparr>st_ptr = kWEaveEndOffset, st_big_endian = False\<rparr>"

definition WaveStorage_div_coe :: SimpleTypeBind where
  [register_members]: "WaveStorage_div_coe =
     \<lparr>st_ptr = kDivCoreOffset, st_big_endian = False\<rparr>"

definition WaveStorage_wave_lost :: SimpleTypeBind where
  [register_members]: "WaveStorage_wave_lost =
     \<lparr>st_ptr = KWaveLostOffset, st_big_endian = False\<rparr>"

definition WaveStorageRegister_binds :: "bind list" where
  [register_members]: "WaveStorageRegister_binds =
     [U32B WaveStorage_frame_len,
      U32B WaveStorage_wave_start,
      U32B WaveStorage_wave_end,
      U32B WaveStorage_div_coe,
      U32B WaveStorage_wave_lost]"

subsection \<open>SoftDiffRegister\<close>

definition SoftDiffRegister_new :: "RegisterMemory res" where
  "SoftDiffRegister_new = RegisterMemory_new kSoftDiffAddr (int kSoftDiffSize)"

definition SoftDiff_sja_btr :: SimpleTypeBind where
  [register_members]: "SoftDiff_sja_btr =
     \<lparr>st_ptr = kSjaBtrOffset, st_big_endian = False\<rparr>"

definition SoftDiff_sys_cfg :: BoolBind where
  [register_members]: "SoftDiff_sys_cfg =
     \<lparr>bb_ptr = kSysCfgOffset, bb_index = 7, bb_invert = False\<rparr>"

definition SoftDiff_ch_sens_canh :: OneByteTypeBind where
  [register_members]: "SoftDiff_ch_sens_canh =
     \<lparr>ob_ptr = kChSensCanhOffset\<rparr>"

definition SoftDiff_ch_sens_canl :: OneByteTypeBind where
  [register_members]: "SoftDiff_ch_sens_canl =
     \<lparr>ob_ptr = kChSensCanlOffset\<rparr>"

definition SoftDiff_ch_sens_candiff :: OneByteTypeBind where
  [register_members]: "SoftDiff_ch_sens_candiff =
     \<lparr>ob_ptr = kChSensCandiffOffset\<rparr>"

definition SoftDiff_ch_zero_canh :: Uint16SplitBind where
  [register_members]: "SoftDiff_ch_zero_canh =
     \<lparr>sp_ptr = 0, sp_index_0 = kChZerolCanhOffset,
     sp_index_1 = kChZerohCanhOffset, sp_big_endian = False\<rparr>"

definition SoftDiff_ch_zero_canl :: Uint16SplitBind where
  [register_members]: "SoftDiff_ch_zero_canl =
     \<lparr>sp_ptr = 0, sp_index_0 = kChZerolCanlOffset,
     sp_index_1 = kChZerohCanlOffset, sp_big_endian = False\<rparr>"

definition SoftDiff_ch_zero_candiff :: Uint16SplitBind where
  [register_members]: "SoftDiff_ch_zero_candiff =
     \<lparr>sp_ptr = 0, sp_index_0 = kChZerolCandiffOffset,
     sp_index_1 = kChZerohCandiffOffset, sp_big_endian = False\<rparr>"

definition SoftDiff_diff_ctrl :: BoolBind where
  [register_members]: "SoftDiff_diff_ctrl =
     \<lparr>bb_ptr = kDiffCtrlOffset, bb_index = 0, bb_invert = False\<rparr>"

definition SoftDiff_fil_div :: SimpleTypeBind where
  [register_members]: "SoftDiff_fil_div =
     \<lparr>st_ptr = kFilteringOffset, st_big_endian = False\<rparr>"

definition SoftDiffRegister_binds :: "bind list" where
  [register_members]: "SoftDiffRegister_binds =
     [U16B SoftDiff_sja_btr,
      BoolB SoftDiff_sys_cfg,
      ByteB SoftDiff_ch_sens_canh,
      ByteB SoftDiff_ch_sens_canl,
      ByteB SoftDiff_ch_sens_candiff,
      SplitB SoftDiff_ch_zero_canh,
      SplitB SoftDiff_ch_zero_canl,
      SplitB SoftDiff_ch_zero_candiff,
      BoolB SoftDiff_diff_ctrl,
      U16B SoftDiff_fil_div]"

subsection \<open>FrameStorageRegister\<close>

definition FrameStorageRegister_new :: "RegisterMemory res" where
  "FrameStorageRegister_new = RegisterMemory_new kFrameStorageAddr (int kFrameStorageSize)"

definition FrameStorage_frame_depth :: SimpleTypeBind where
  [register_members]: "FrameStorage_frame_depth =
     \<lparr>st_ptr = kFrameDepthOffset, st_big_endian = False\<rparr>"

definition FrameStorage_frame_num :: SimpleTypeBind where
  [register_members]: "FrameStorage_frame_num =
     \<lparr>st_ptr = kFrameNumOffset, st_big_endian = False\<rparr>"

definition FrameStorage_overflow :: BoolBind where
  [register_members]: "FrameStorage_overflow =
     \<lparr>bb_ptr = kFrameOverFlowOffset, bb_index = 0, bb_invert = False\<rparr>"

definition FrameStorageRegister_binds :: "bind list" where
  [register_members]: "FrameStorageRegister_binds =
     [U32B FrameStorage_frame_depth,
      U32B FrameStorage_frame_num,
      BoolB FrameStorage_overflow]"

subsection \<open>WaveReadCtrlRegister\<close>

definition WaveReadCtrlRegister_new :: "RegisterMemory res" where
  "WaveReadCtrlRegister_new = RegisterMemory_new kWaveReadCtrlAddr (int kWaveReadCtrlSize)"

definition WaveReadCtrl_read_start :: SimpleTypeBind where
  [register_members]: "WaveReadCtrl_read_start =
     \<lparr>st_ptr = kReadStartOffset, st_big_endian = False\<rparr>"

definition WaveReadCtrl_section_start :: SimpleTypeBind where
  [register_members]: "WaveReadCtrl_section_start =
     \<lparr>st_ptr = kSectionStartOffset, st_big_endian = False\<rparr>"

definition WaveReadCtrl_section_end :: SimpleTypeBind where
  [register_members]: "WaveReadCtrl_section_end =
     \<lparr>st_ptr = kSectionEndOffset, st_big_endian = False\<rparr>"

definition WaveReadCtrlRegister_binds :: "bind list" where
  [register_members]: "WaveReadCtrlRegister_binds =
     [U32B WaveReadCtrl_read_start,
      U32B WaveReadCtrl_section_start,
      U32B WaveReadCtrl_section_end]"

subsection \<open>AnalogCtrlRegister\<close>

definition AnalogCtrlRegister_new :: "RegisterMemory res" where
  "AnalogCtrlRegister_new = RegisterMemory_new kAnalogCtrlAddr (int kAnalogCtrlSize)"

definition AnalogCtrl_can_l_gain :: SimpleTypeBind where
  [register_members]: "AnalogCtrl_can_l_gain =
     \<lparr>st_ptr = kGainCh1Offset, st_big_endian = False\<rparr>"

definition AnalogCtrl_can_l_offset :: SimpleTypeBind where
  [register_members]: "AnalogCtrl_can_l_offset =
     \<lparr>st_ptr = kOffsetCh1Offset, st_big_endian = False\<rparr>"

definition AnalogCtrl_can_h_gain :: SimpleTypeBind where
  [register_members]: "AnalogCtrl_can_h_gain =
     \<lparr>st_ptr = kGainCh2Offset, st_big_endian = False\<rparr>"

definition AnalogCtrl_can_h_offset :: SimpleTypeBind where
  [register_members]: "AnalogCtrl_can_h_offset =
     \<lparr>st_ptr = kOffsetCh2Offset, st_big_endian = False\<rparr>"

definition AnalogCtrlRegister_binds :: "bind list" where
  [register_members]: "AnalogCtrlRegister_binds =
     [U32B AnalogCtrl_can_l_gain,
      U32B AnalogCtrl_can_l_offset,
      U32B AnalogCtrl_can_h_gain,
      U32B AnalogCtrl_can_h_offset]"

subsection \<open>AnalogSwitchRegister\<close>

definition AnalogSwitchRegister_new :: "RegisterMemory res" where
  "AnalogSwitchRegister_new = RegisterMemory_new kAnalogSwitchAddr (int kAnalogSwitchSize)"

definition AnalogSwitch_coupling_canl :: BoolBind where
  [register_members]: "AnalogSwitch_coupling_canl =
     \<lparr>bb_ptr = kAnalogSwitchOffset, bb_index = 0, bb_invert = False\<rparr>"

definition AnalogSwitch_coupling_canh :: BoolBind where
  [register_members]: "AnalogSwitch_coupling_canh =
     \<lparr>bb_ptr = kAnalogSwitchOffset, bb_index = 1, bb_invert = False\<rparr>"

definition AnalogSwitch_attenuation_canl :: BoolBind where
  [register_members]: "AnalogSwitch_attenuation_canl =
     \<lparr>bb_ptr = kAnalogSwitchOffset, bb_index = 2, bb_invert = False\<rparr>"

definition AnalogSwitch_attenuation_canh :: BoolBind where
  [register_members]: "AnalogSwitch_attenuation_canh =
     \<lparr>bb_ptr = kAnalogSwitchOffset, bb_index = 3, bb_invert = False\<rparr>"

definition AnalogSwitchRegister_binds :: "bind list" where
  [register_members]: "AnalogSwitchRegister_binds =
     [BoolB AnalogSwitch_coupling_canl,
      BoolB AnalogSwitch_coupling_canh,
      BoolB AnalogSwitch_attenuation_canl,
      BoolB AnalogSwitch_attenuation_canh]"

subsection \<open>Trigger1Register\<close>

definition Trigger1Register_new :: "RegisterMemory res" where
  "Trigger1Register_new = RegisterMemory_new kTrigger1Addr (int kTrigger1Size)"

definition Trigger1_trig_pre :: SimpleTypeBind where
  [register_members]: "Trigger1_trig_pre =
     \<lparr>st_ptr = kTrigPreOffset, st_big_endian = False\<rparr>"

definition Trigger1_trig_post :: SimpleTypeBind where
  [register_members]: "Trigger1_trig_post =
     \<lparr>st_ptr = kTrigPostOffset, st_big_endian = False\<rparr>"

definition Trigger1_auto_time :: SimpleTypeBind where
  [register_members]: "Trigger1_auto_time =
     \<lparr>st_ptr = kAutoTimeOffset, st_big_endian = False\<rparr>"

definition Trigger1_div_coe :: SimpleTypeBind where
  [register_members]: "Trigger1_div_coe =
     \<lparr>st_ptr = kDivCoeOffset, st_big_endian = False\<rparr>"

definition Trigger1Register_binds :: "bind list" where
  [register_members]: "Trigger1Register_binds =
     [U32B Trigger1_trig_pre,
      U32B Trigger1_trig_post,
      U32B Trigger1_auto_time,
      U32B Trigger1_div_coe]"

subsection \<open>TriggerStateRegister\<close>

definition TriggerStateRegister_new :: "RegisterMemory res" where
  "TriggerStateRegister_new = RegisterMemory_new kTriggerStateAddr (int kTriggerStateSize)"

definition TriggerState_pre_bit :: BoolBind where
  [register_members]: "TriggerState_pre_bit =
     \<lparr>bb_ptr = kTrigStateOffset, bb_index = 2, bb_invert = False\<rparr>"

definition TriggerState_trig_bit :: BoolBind where
  [register_members]: "TriggerState_trig_bit =
     \<lparr>bb_ptr = kTrigStateOffset, bb_index = 1, bb_invert = False\<rparr>"

definition TriggerState_clet_bit :: BoolBind where
  [register_members]: "TriggerState_clet_bit =
     \<lparr>bb_ptr = kTrigStateOffset, bb_index = 0, bb_invert = False\<rparr>"

definition TriggerStateRegister_binds :: "bind list" where
  [register_members]: "TriggerStateRegister_binds =
     [BoolB TriggerState_pre_bit,
      BoolB TriggerState_trig_bit,
      BoolB TriggerState_clet_bit]"

subsection \<open>Trigger2Register\<close>

definition Trigger2Register_new :: "RegisterMemory res" where
  "Trigger2Register_new = RegisterMemory_new kTrigger2Addr (int kTrigger2Size)"

definition Trigger2_trig_source :: Uint32SubBind where
  [register_members]: "Trigger2_trig_source =
     \<lparr>sb_bind = \<lparr>st_ptr = kTrigSourceOffset, st_big_endian = False\<rparr>,
     sb_start_index = 0, sb_end_index = 2\<rparr>"

definition Trigger2_cmp_high :: OneByteTypeBind where
  [register_members]: "Trigger2_cmp_high =
     \<lparr>ob_ptr = kTrigAddrOffset + 1\<rparr>"

definition Trigger2_cmp_low :: OneByteTypeBind where
  [register_members]: "Trigger2_cmp_low =
     \<lparr>ob_ptr = kTrigAddrOffset\<rparr>"

definition Trigger2_trig_mode :: Uint32SubBind where
  [register_members]: "Trigger2_trig_mode =
     \<lparr>sb_bind = \<lparr>st_ptr = kTrigTypeOffset, st_big_endian = False\<rparr>,
     sb_start_index = 31, sb_end_index = 31\<rparr>"

definition Trigger2_trig_type :: Uint32SubBind where
  [register_members]: "Trigger2_trig_type =
     \<lparr>sb_bind = \<lparr>st_ptr = kTrigTypeOffset, st_big_endian = False\<rparr>,
     sb_start_index = 0, sb_end_index = 2\<rparr>"

definition Trigger2_compare :: Uint32SubBind where
  [register_members]: "Trigger2_compare =
     \<lparr>sb_bind = \<lparr>st_ptr = kTrigTimeOffset, st_big_endian = False\<rparr>,
     sb_start_index = 30, sb_end_index = 31\<rparr>"

definition Trigger2_trig_time :: Uint32SubBind where
  [register_members]: "Trigger2_trig_time =
     \<lparr>sb_bind = \<lparr>st_ptr = kTrigTimeOffset, st_big_endian = False\<rparr>,
     sb_start_index = 0, sb_end_index = 29\<rparr>"

definition Trigger2Register_binds :: "bind list" where
  [register_members]: "Trigger2Register_binds =
     [SubB Trigger2_trig_source,
      ByteB Trigger2_cmp_high,
      ByteB Trigger2_cmp_low,
      SubB Trigger2_trig_mode,
      SubB Trigger2_trig_type,
      SubB Trigger2_compare,
      SubB Trigger2_trig_time]"

subsection \<open>ScopeCtrlRegister\<close>

definition ScopeCtrlRegister_new :: "RegisterMemory res" where
  "ScopeCtrlRegister_new = RegisterMemory_new kScopeCtrlAddr (int kScopeCtrlSize)"

definition ScopeCtrl_scope_ctrl :: BoolBind where
  [register_members]: "ScopeCtrl_scope_ctrl =
     \<lparr>bb_ptr = kScopeCtrlOffset, bb_index = 0, bb_invert = False\<rparr>"

definition ScopeCtrlRegister_binds :: "bind list" where
  [register_members]: "ScopeCtrlRegister_binds =
     [BoolB ScopeCtrl_scope_ctrl]"

subsection \<open>FpgaSendRegister\<close>

definition FpgaSendRegister_new :: "RegisterMemory res" where
  "FpgaSendRegister_new = RegisterMemory_new kFpgaSendAddr (int kFpgaSendSize)"

definition FpgaSend_send_num :: OneByteTypeBind where
  [register_members]: "FpgaSend_send_num =
     \<lparr>ob_ptr = kSendNumOffset\<rparr>"

definition FpgaSend_bit_num :: OneByteTypeBind where
  [register_members]: "FpgaSend_bit_num =
     \<lparr>ob_ptr = kBitNumOffset\<rparr>"

definition FpgaSend_btr_div :: SimpleTypeBind where
  [register_members]: "FpgaSend_btr_div =
     \<lparr>st_ptr = kBtrDivOffset, st_big_endian = False\<rparr>"

definition FpgaSend_ack :: BoolBind where
  [register_members]: "FpgaSend_ack =
     \<lparr>bb_ptr = kAckOffset, bb_index = 0, bb_invert = False\<rparr>"

definition FpgaSend_ack_bit :: OneByteTypeBind where
  [register_members]: "FpgaSend_ack_bit =
     \<lparr>ob_ptr = kAckBitOffset\<rparr>"

definition FpgaSend_start_send :: BoolBind where
  [register_members]: "FpgaSend_start_send =
     \<lparr>bb_ptr = kSendStateOffset, bb_index = 0, bb_invert = False\<rparr>"

definition FpgaSend_send_state :: BoolBind where
  [register_members]: "FpgaSend_send_state =
     \<lparr>bb_ptr = kSendStateOffset, bb_index = 0, bb_invert = True\<rparr>"

definition FpgaSend_set_ack :: BoolBind where
  [register_members]: "FpgaSend_set_ack =
     \<lparr>bb_ptr = kAckStateOffset, bb_index = 1, bb_invert = False\<rparr>"

definition FpgaSend_ack_state :: BoolBind where
  [register_members]: "FpgaSend_ack_state =
     \<lparr>bb_ptr = kAckStateOffset, bb_index = 1, bb_invert = True\<rparr>"

definition FpgaSend_dstb_start :: SimpleTypeBind where
  [register_members]: "FpgaSend_dstb_start =
     \<lparr>st_ptr = kDstbStartOffset, st_big_endian = False\<rparr>"

definition FpgaSend_dstb_end :: SimpleTypeBind where
  [register_members]: "FpgaSend_dstb_end =
     \<lparr>st_ptr = kDstbEndOffset, st_big_endian = False\<rparr>"

definition FpgaSend_dstb :: BoolBind where
  [register_members]: "FpgaSend_dstb =
     \<lparr>bb_ptr = kDstbOffset, bb_index = 0, bb_invert = False\<rparr>"

definition FpgaSendRegister_binds :: "bind list" where
  [register_members]: "FpgaSendRegister_binds =
     [ByteB FpgaSend_send_num,
      ByteB FpgaSend_bit_num,
      U16B FpgaSend_btr_div,
      BoolB FpgaSend_ack,
      ByteB FpgaSend_ack_bit,
      BoolB FpgaSend_start_send,
      BoolB FpgaSend_set_ack,
      U16B FpgaSend_dstb_start,
      U16B FpgaSend_dstb_end,
      BoolB FpgaSend_dstb]"

subsection \<open>All classes\<close>

definition register_classes :: "(nat \<times> bind list) list" where
  "register_classes =
     [(kDeviceInfoSize, DeviceInfo_binds),
      (kSJA1000Size, SJA1000Register_binds),
      (kWaveStorageSize, WaveStorageRegister_binds),
      (kSoftDiffSize, SoftDiffRegister_binds),
      (kFrameStorageSize, FrameStorageRegister_binds),
      (kWaveReadCtrlSize, WaveReadCtrlRegister_binds),
      (kAnalogCtrlSize, AnalogCtrlRegister_binds),
      (kAnalogSwitchSize, AnalogSwitchRegister_binds),
      (kTrigger1Size, Trigger1Register_binds),
      (kTriggerStateSize, TriggerStateRegister_binds),
      (kTrigger2Size, Trigger2Register_binds),
      (kScopeCtrlSize, ScopeCtrlRegister_binds),
      (kFpgaSendSize, FpgaSendRegister_binds)]"

lemma register_classes_ok: "list_all (\<lambda>(sz, bs). layout_ok sz bs) register_classes"
  by (simp add: register_classes_def layout_ok_def binds_apart_def apart_def sub_ok_def
      split_addrs_def register_consts register_members)

definition register_blocks :: "(u32 \<times> nat) list" where
  "register_blocks =
     [(kSJA1000Addr, kSJA1000Size),
      (kWaveStorageAddr, kWaveStorageSize),
      (kSoftDiffAddr, kSoftDiffSize),
      (kFrameStorageAddr, kFrameStorageSize),
      (kWaveReadCtrlAddr, kWaveReadCtrlSize),
      (kAnalogCtrlAddr, kAnalogCtrlSize),
      (kAnalogSwitchAddr, kAnalogSwitchSize),
      (kTrigger1Addr, kTrigger1Size),
      (kTriggerStateAddr, kTriggerStateSize),
      (kTrigger2Addr, kTrigger2Size),
      (kScopeCtrlAddr, kScopeCtrlSize),
      (kFpgaSendAddr, kFpgaSendSize)]"

definition blocks_apart :: "u32 \<times> nat \<Rightarrow> u32 \<times> nat \<Rightarrow> bool" where
  "blocks_apart b c \<longleftrightarrow>
     unat (fst b) + snd b \<le> unat (fst c) \<or> unat (fst c) + snd c \<le> unat (fst b)"

lemma register_blocks_apart: "sorted_wrt blocks_apart register_blocks"
  by (simp add: register_blocks_def blocks_apart_def register_consts)

lemma register_blocks_fit:
  "(a, n) \<in> set register_blocks \<Longrightarrow> unat a + n \<le> 2 ^ 32 \<and> 0 < n"
  by (auto simp: register_blocks_def register_consts)

subsection \<open>The member functions\<close>

definition GetDeviceType :: "mem \<Rightarrow> DeviceType res" where
  "GetDeviceType m =
     and_then (simple_value DeviceInfo_device_type m) (\<lambda>v :: u32.
       let dt = v - 0x1201 in
       if dt = 0 then Inr DT_CS1201
       else if dt = 1 then Inr DT_CS1202
       else if dt = 2 then Inr DT_CS1203
       else Inl NotReached)"

definition IsProVersion :: "mem \<Rightarrow> bool res" where
  "IsProVersion m = and_then (GetDeviceType m) (\<lambda>t. Inr (t = DT_CS1203))"

text \<open>The data of a frame, \<open>FrameData\<close> (13 bytes) and \<open>FpgaFrameData\<close> (20 bytes).\<close>

definition get_region :: "nat \<Rightarrow> nat \<Rightarrow> RegisterMemory \<Rightarrow> u8 list res" where
  "get_region off n rm =
     and_then (PtrByRelative rm (of_nat off)) (\<lambda>p. load_bytes (rm_memory rm) p n)"

definition set_region :: "nat \<Rightarrow> u8 list \<Rightarrow> RegisterMemory \<Rightarrow> RegisterMemory res" where
  "set_region off bs rm =
     and_then (PtrByRelative rm (of_nat off)) (\<lambda>p.
     and_then (memcpy_to (rm_memory rm) p bs) (\<lambda>m. Inr (rm\<lparr>rm_memory := m\<rparr>)))"

definition SJA1000_frame_data :: "RegisterMemory \<Rightarrow> u8 list res" where
  "SJA1000_frame_data = get_region kSJAFrameDataOffset 13"

definition SJA1000_set_frame_data :: "u8 list \<Rightarrow> RegisterMemory \<Rightarrow> RegisterMemory res" where
  "SJA1000_set_frame_data = set_region kSJAFrameDataOffset"

definition FpgaSend_frame_data :: "RegisterMemory \<Rightarrow> u8 list res" where
  "FpgaSend_frame_data = get_region kFpgaSendFrameDataOffset 20"

definition FpgaSend_set_frame_data :: "u8 list \<Rightarrow> RegisterMemory \<Rightarrow> RegisterMemory res" where
  "FpgaSend_set_frame_data = set_region kFpgaSendFrameDataOffset"

definition FpgaSend_dstb_data :: "RegisterMemory \<Rightarrow> u8 list res" where
  "FpgaSend_dstb_data = get_region kDstbDataOffset 20"

definition FpgaSend_set_dstb_data :: "u8 list \<Rightarrow> RegisterMemory \<Rightarrow> RegisterMemory res" where
  "FpgaSend_set_dstb_data = set_region kDstbDataOffset"

definition FpgaSend_SendOffset :: int where "FpgaSend_SendOffset = 0"

definition FpgaSend_SendSize :: int where "FpgaSend_SendSize = 0x18"

definition FpgaSend_StateOffset :: int where "FpgaSend_StateOffset = 0x1C"

definition FpgaSend_StateSize :: int where "FpgaSend_StateSize = 4"

definition SJA1000_SysOffset :: int where "SJA1000_SysOffset = int kSJABtrOffset"

definition SJA1000_SysSize :: int where "SJA1000_SysSize = 4"

definition SoftDiff_kSysOffset :: int where "SoftDiff_kSysOffset = int kSjaBtrOffset"

definition SoftDiff_kSysSize :: int where "SoftDiff_kSysSize = 4"

definition SoftDiff_kFilDivOffset :: int where "SoftDiff_kFilDivOffset = int kFilteringOffset"

definition SoftDiff_kFilDivSize :: int where "SoftDiff_kFilDivSize = 4"

definition SoftDiff_kChnlOffset :: int where "SoftDiff_kChnlOffset = int kChSensCanhOffset"

definition SoftDiff_kChnlSize :: int where "SoftDiff_kChnlSize = 0x14"

lemmas range_defs =
  FpgaSend_SendOffset_def FpgaSend_SendSize_def FpgaSend_StateOffset_def FpgaSend_StateSize_def
  SJA1000_SysOffset_def SJA1000_SysSize_def SoftDiff_kSysOffset_def SoftDiff_kSysSize_def
  SoftDiff_kFilDivOffset_def SoftDiff_kFilDivSize_def SoftDiff_kChnlOffset_def SoftDiff_kChnlSize_def

lemma set_region_get:
  assumes "off < length (rm_memory rm)" and "off + length bs \<le> length (rm_memory rm)"
    and "length (rm_memory rm) < 2 ^ 32"
  shows "\<exists>rm'. set_region off bs rm = Inr rm' \<and> get_region off (length bs) rm' = Inr bs \<and>
    memcpy_to (rm_memory rm) off bs = Inr (rm_memory rm') \<and> rm_start_addr rm' = rm_start_addr rm"
proof -
  have off: "unat (of_nat off :: u32) = off" using assms by (simp add: unat_of_nat take_bit_nat_eq_self)
  obtain m where m: "memcpy_to (rm_memory rm) off bs = Inr m" using assms(2) by (simp add: memcpy_to_def)
  then have "length m = length (rm_memory rm)" "load_bytes m off (length bs) = Inr bs"
    using length_memcpy_to load_bytes_memcpy_to by auto
  with m off assms(1) show ?thesis by (simp add: set_region_def get_region_def PtrByRelative_def)
qed

subsection \<open>Properties\<close>



text \<open>No two register blocks of end point 1 share an address.\<close>

theorem register_blocks_disjoint:
  assumes "i < length register_blocks" and "j < length register_blocks" and "i \<noteq> j"
  shows "{unat (fst (register_blocks ! i)) ..< unat (fst (register_blocks ! i)) + snd (register_blocks ! i)}
     \<inter> {unat (fst (register_blocks ! j)) ..< unat (fst (register_blocks ! j)) + snd (register_blocks ! j)}
     = {}"
proof -
  have "blocks_apart (register_blocks ! i) (register_blocks ! j) \<or>
      blocks_apart (register_blocks ! j) (register_blocks ! i)"
    using assms sorted_wrt_nth_less [OF register_blocks_apart] by (metis linorder_neqE_nat)
  then show ?thesis by (auto simp: blocks_apart_def)
qed

theorem register_blocks_disjoint_witness:
  "{unat kSJA1000Addr ..< unat kSJA1000Addr + kSJA1000Size}
     \<inter> {unat kWaveStorageAddr ..< unat kWaveStorageAddr + kWaveStorageSize} = {}"
  using register_blocks_disjoint [of 0 1] by (simp add: register_blocks_def)

text \<open>
  The frame data of the SJA1000 register reads back as written, and writing it
  changes none of the other members.
\<close>

theorem sja_frame_data_roundtrip:
  assumes "length (rm_memory rm) = kSJA1000Size" and "length data = 13"
  shows "\<exists>rm'. SJA1000_set_frame_data data rm = Inr rm' \<and> SJA1000_frame_data rm' = Inr data \<and>
    (\<forall>b \<in> set SJA1000Register_binds. bind_value b (rm_memory rm') = bind_value b (rm_memory rm))"
proof -
  obtain rm' where rm': "set_region kSJAFrameDataOffset data rm = Inr rm'"
      "get_region kSJAFrameDataOffset (length data) rm' = Inr data"
      "memcpy_to (rm_memory rm) kSJAFrameDataOffset data = Inr (rm_memory rm')"
    using set_region_get [of kSJAFrameDataOffset rm data] assms by (auto simp: register_consts)
  have "bind_ok b \<and> list_all (apart (8 * kSJAFrameDataOffset, 8 * (kSJAFrameDataOffset + length data)))
      (bind_spans b)" if "b \<in> set SJA1000Register_binds" for b
    using that assms(2) by (auto simp: register_members register_consts apart_def)
  then show ?thesis
    using rm' memcpy_other [OF rm'(3)] assms(2)
    by (auto simp: SJA1000_set_frame_data_def SJA1000_frame_data_def)
qed

theorem sja_frame_data_roundtrip_witness:
  "\<exists>rm'. SJA1000_set_frame_data (replicate 13 7) \<lparr>rm_memory = replicate 24 0, rm_start_addr = 0\<rparr>
     = Inr rm' \<and> SJA1000_frame_data rm' = Inr (replicate 13 7)"
  using sja_frame_data_roundtrip
    [of "\<lparr>rm_memory = replicate 24 0, rm_start_addr = 0\<rparr>" "replicate 13 7"]
  by (auto simp: register_consts)

text \<open>
  The control bits of the FPGA send register are two views of one bit each:
  \<open>send_state\<close> always reads the negation of \<open>start_send\<close>, \<open>ack_state\<close> of \<open>set_ack\<close>, and
  setting one view sets the other to the negation.
\<close>

theorem fpga_send_aliases:
  assumes "length m = kFpgaSendSize"
  shows "\<exists>v w. bool_value FpgaSend_start_send m = Inr v \<and> bool_value FpgaSend_send_state m = Inr (\<not> v) \<and>
      bool_value FpgaSend_set_ack m = Inr w \<and> bool_value FpgaSend_ack_state m = Inr (\<not> w) \<and>
      bool_set_value FpgaSend_start_send b m = bool_set_value FpgaSend_send_state (\<not> b) m \<and>
      bool_set_value FpgaSend_set_ack b m = bool_set_value FpgaSend_ack_state (\<not> b) m"
  using assms
  by (simp add: bool_value_def bool_set_value_def load8_def register_members register_consts Let_def)

theorem fpga_send_aliases_witness:
  "bool_set_value FpgaSend_start_send True (replicate 60 0)
     = bool_set_value FpgaSend_send_state False (replicate 60 0)"
  using fpga_send_aliases [of "replicate 60 0" True] by (auto simp: register_consts)

lemma GetDeviceType_iff:
  assumes "length m = kDeviceInfoSize" and "simple_value DeviceInfo_device_type m = Inr (v :: u32)"
  shows "GetDeviceType m = Inr t \<longleftrightarrow>
    (v, t) \<in> {(0x1201, DT_CS1201), (0x1202, DT_CS1202), (0x1203, DT_CS1203)}"
proof -
  have "v - 0x1201 = k \<longleftrightarrow> v = 0x1201 + k" for k by (auto simp: algebra_simps)
  then show ?thesis using assms(2) by (auto simp: GetDeviceType_def Let_def)
qed

end
