(* ===== verification/Memory_Pool.thy ===== *)
theory Memory_Pool
  imports Device_Constants
begin

text \<open>
  The memory pools of the collecters: MemoryFramePool (device/memory_frame_pool.cc), which
  hands out frames of one size and keeps freed frames for reuse, and MemoryUsagePool
  (device/memory_usage_pool.cc), which counts the bytes handed out.  The address that
  \<open>new\<close> returns is an argument of Alloc.  A callback is a number, \<open>None\<close> the null callback;
  the callbacks that an operation runs after it has released the lock are its second
  result, in order.

  The locale \<open>memory_pool\<close> is what the users of a pool rely on; both pools are interpretations.
\<close>

type_synonym callback = "nat option"

definition run_cb :: "callback \<Rightarrow> 'a \<Rightarrow> (nat \<times> 'a) list" where
  "run_cb cb x = (case cb of None \<Rightarrow> [] | Some c \<Rightarrow> [(c, x)])"

subsection \<open>The contract of a pool\<close>

locale memory_pool =
  fixes inv :: "'p \<Rightarrow> bool"
    and out :: "'p \<Rightarrow> ptr set"
    and left :: "'p \<Rightarrow> int"
    and held :: "'p \<Rightarrow> ptr \<Rightarrow> int"
    and cost :: "'p \<Rightarrow> 'r \<Rightarrow> int"
    and fresh :: "'p \<Rightarrow> ptr \<Rightarrow> bool"
    and request_ok :: "'p \<Rightarrow> 'r \<Rightarrow> bool"
    and alloc :: "ptr \<Rightarrow> 'r \<Rightarrow> 'p \<Rightarrow> (ptr \<times> 'p) res"
    and free :: "ptr \<Rightarrow> 'p \<Rightarrow> ('p \<times> 'e) res"
  assumes alloc_room: "inv p \<Longrightarrow> fresh p a \<Longrightarrow> request_ok p n \<Longrightarrow> cost p n \<le> left p \<Longrightarrow>
      \<exists>b p'. alloc a n p = Inr (b, p') \<and> inv p' \<and> b \<noteq> 0 \<and> b \<notin> out p \<and> out p' = insert b (out p) \<and>
        left p' = left p - cost p n \<and> held p' b = cost p n \<and> (\<forall>c \<in> out p. held p' c = held p c)"
    and alloc_full: "inv p \<Longrightarrow> request_ok p n \<Longrightarrow> \<not> cost p n \<le> left p \<Longrightarrow> alloc a n p = Inr (0, p)"
    and free_held: "inv p \<Longrightarrow> b \<in> out p \<Longrightarrow>
      \<exists>p' ev. free b p = Inr (p', ev) \<and> inv p' \<and> out p' = out p - {b} \<and>
        left p' = left p + held p b \<and> (\<forall>c \<in> out p'. held p' c = held p c)"
    and free_foreign: "inv p \<Longrightarrow> b \<notin> out p \<Longrightarrow> \<exists>e. free b p = Inl e"
    and left_nonneg: "inv p \<Longrightarrow> 0 \<le> left p"
    and out_nonnull: "inv p \<Longrightarrow> 0 \<notin> out p"
begin

text \<open>Allocation answers NULL exactly when there is no room.\<close>

lemma alloc_null_iff:
  assumes "inv p" and "fresh p a" and "request_ok p n" and "alloc a n p = Inr (b, p')"
  shows "b = 0 \<longleftrightarrow> left p < cost p n"
  using alloc_room [OF assms(1-3)] alloc_full [OF assms(1,3)] assms(4) by (cases "cost p n \<le> left p") auto

text \<open>What is allocated can be freed, once, and the pool then has the room it had.\<close>

lemma alloc_free:
  assumes "inv p" and "fresh p a" and "request_ok p n" and "alloc a n p = Inr (b, p')" and "b \<noteq> 0"
  shows "\<exists>p'' ev. free b p' = Inr (p'', ev) \<and> inv p'' \<and> out p'' = out p \<and> left p'' = left p \<and>
    (\<exists>e. free b p'' = Inl e)"
proof -
  have "cost p n \<le> left p" using alloc_null_iff assms by force
  then have p': "inv p'" "b \<notin> out p" "out p' = insert b (out p)" "left p' = left p - cost p n"
      "held p' b = cost p n"
    using alloc_room [OF assms(1-3)] assms(4) by auto
  then obtain p'' ev where "free b p' = Inr (p'', ev)" "inv p''" "out p'' = out p' - {b}"
      "left p'' = left p' + held p' b"
    using free_held [of p' b] by auto
  moreover from this p' have "out p'' = out p" "left p'' = left p" by auto
  ultimately show ?thesis using free_foreign [of p'' b] p'(2) by auto
qed

end

subsection \<open>MemoryFramePool\<close>

record MemoryFramePool =
  fp_alloced :: "ptr list"
  fp_free :: "ptr list"
  fp_frame_size :: int
  fp_pool_size :: int
  fp_have_free :: callback

definition MemoryFramePool_new :: "int \<Rightarrow> int \<Rightarrow> MemoryFramePool res" where
  "MemoryFramePool_new frame_size pool_size =
     DCHECK (frame_size \<noteq> 0) (DCHECK (pool_size \<noteq> 0)
       (Inr \<lparr>fp_alloced = [], fp_free = [], fp_frame_size = frame_size,
             fp_pool_size = pool_size, fp_have_free = None\<rparr>))"

definition FramePool_HitCeiling :: "MemoryFramePool \<Rightarrow> bool" where
  "FramePool_HitCeiling p \<longleftrightarrow>
     fp_pool_size p \<le> int (length (fp_alloced p) + length (fp_free p))"

definition FramePool_Alloc :: "ptr \<Rightarrow> MemoryFramePool \<Rightarrow> (ptr \<times> MemoryFramePool) res" where
  "FramePool_Alloc fresh p =
     (case fp_free p of
        buffer # rest \<Rightarrow>
          DCHECK (buffer \<noteq> 0)
            (Inr (buffer, p\<lparr>fp_free := rest, fp_alloced := fp_alloced p @ [buffer]\<rparr>))
      | [] \<Rightarrow>
          if FramePool_HitCeiling p then Inr (0, p)
          else if fp_frame_size p < 0 then Inl BadAlloc
          else Inr (fresh, p\<lparr>fp_alloced := fp_alloced p @ [fresh]\<rparr>))"

definition FramePool_Free :: "ptr \<Rightarrow> MemoryFramePool \<Rightarrow> (MemoryFramePool \<times> (nat \<times> unit) list) res" where
  "FramePool_Free frame p =
     DCHECK (frame \<noteq> 0) (CHECK (frame \<in> set (fp_alloced p))
       (Inr (p\<lparr>fp_alloced := remove1 frame (fp_alloced p), fp_free := fp_free p @ [frame]\<rparr>,
             if fp_free p = [] then run_cb (fp_have_free p) () else [])))"

definition FramePool_Left :: "MemoryFramePool \<Rightarrow> int" where
  "FramePool_Left p = fp_pool_size p - int (length (fp_alloced p))"

definition set_have_free_callback ::
    "callback \<Rightarrow> MemoryFramePool \<Rightarrow> MemoryFramePool \<times> (nat \<times> unit) list" where
  "set_have_free_callback cb p =
     (p\<lparr>fp_have_free := cb\<rparr>, if fp_free p \<noteq> [] then run_cb cb () else [])"

definition frame_pool_inv :: "MemoryFramePool \<Rightarrow> bool" where
  "frame_pool_inv p \<longleftrightarrow>
     distinct (fp_alloced p @ fp_free p) \<and> 0 \<notin> set (fp_alloced p @ fp_free p) \<and>
     int (length (fp_alloced p) + length (fp_free p)) \<le> fp_pool_size p \<and> 0 \<le> fp_frame_size p"

lemma frame_pool_inv_new [inv_intros]:
  "MemoryFramePool_new fs ps = Inr p \<Longrightarrow> 0 \<le> fs \<Longrightarrow> 0 \<le> ps \<Longrightarrow> frame_pool_inv p"
  by (auto simp: MemoryFramePool_new_def check_Inr_iff frame_pool_inv_def)

lemma frame_pool_inv_callback [inv_intros]:
  "frame_pool_inv p \<Longrightarrow> frame_pool_inv (fst (set_have_free_callback cb p))"
  by (simp add: set_have_free_callback_def frame_pool_inv_def)

interpretation frame_pool: memory_pool frame_pool_inv "\<lambda>p. set (fp_alloced p)" FramePool_Left
    "\<lambda>_ _. 1" "\<lambda>_ (_ :: unit). 1" "\<lambda>p a. a \<noteq> 0 \<and> a \<notin> set (fp_alloced p @ fp_free p)" "\<lambda>_ _. True"
    "\<lambda>a _. FramePool_Alloc a" FramePool_Free
proof (unfold_locales, goal_cases)
  case (1 p a n)
  then show ?case
    by (cases "fp_free p") (auto simp: FramePool_Alloc_def FramePool_Left_def frame_pool_inv_def
        FramePool_HitCeiling_def)
next
  case (2 p n a)
  then show ?case
    by (cases "fp_free p") (auto simp: FramePool_Alloc_def FramePool_Left_def frame_pool_inv_def
        FramePool_HitCeiling_def)
next
  case (3 p b)
  let ?p = "p\<lparr>fp_alloced := remove1 b (fp_alloced p), fp_free := fp_free p @ [b]\<rparr>"
  have "b \<noteq> 0" using 3 by (auto simp: frame_pool_inv_def)
  then have "FramePool_Free b p = Inr (?p, if fp_free p = [] then run_cb (fp_have_free p) () else [])"
    using 3 by (simp add: FramePool_Free_def)
  moreover have "int (length (remove1 b (fp_alloced p))) = int (length (fp_alloced p)) - 1"
    using Suc_pred [OF length_pos_if_in_set [OF 3(2)]] 3(2) by (simp only: length_remove1 if_True of_nat_diff)
  then have "frame_pool_inv ?p" "FramePool_Left ?p = FramePool_Left p + 1"
    using 3 by (auto simp: frame_pool_inv_def FramePool_Left_def)
  moreover have "set (fp_alloced ?p) = set (fp_alloced p) - {b}"
    using 3 by (auto simp: frame_pool_inv_def)
  ultimately show ?case by blast
next
  case (4 p b)
  then show ?case by (auto simp: FramePool_Free_def check_def)
next
  case (5 p)
  then show ?case by (auto simp: FramePool_Left_def frame_pool_inv_def)
next
  case (6 p)
  then show ?case by (auto simp: frame_pool_inv_def)
qed

text \<open>A freed frame is reused before a new one is allocated.\<close>

lemma FramePool_reuse:
  assumes "frame_pool_inv p" and "b \<in> set (fp_alloced p)" and "fp_free p = []"
    and "FramePool_Free b p = Inr (p', ev)"
  shows "\<exists>p''. FramePool_Alloc a p' = Inr (b, p'')"
  using assms by (auto simp: FramePool_Free_def check_Inr_iff FramePool_Alloc_def frame_pool_inv_def)

text \<open>The callback runs exactly when the queue of free frames becomes non-empty.\<close>

lemma FramePool_Free_callback:
  assumes "FramePool_Free b p = Inr (p', ev)" and "fp_have_free p = Some c"
  shows "ev \<noteq> [] \<longleftrightarrow> fp_free p = [] \<and> fp_free p' \<noteq> []"
  using assms by (auto simp: FramePool_Free_def check_Inr_iff run_cb_def split: if_splits)

subsection \<open>MemoryUsagePool\<close>

record MemoryUsagePool =
  up_have_free :: callback
  up_alloced :: "(ptr \<times> int) list"
  up_memory_limit :: int
  up_memory_usage :: int
  up_need_amount :: int
  up_need_call :: bool

definition MemoryUsagePool_new :: "int \<Rightarrow> MemoryUsagePool" where
  "MemoryUsagePool_new memory_limit =
     \<lparr>up_have_free = None, up_alloced = [], up_memory_limit = memory_limit, up_memory_usage = 0,
      up_need_amount = -1, up_need_call = False\<rparr>"

definition UsagePool_HitCeiling :: "int \<Rightarrow> MemoryUsagePool \<Rightarrow> bool res" where
  "UsagePool_HitCeiling n p =
     and_then (int32_of (n + up_memory_usage p)) (\<lambda>total. Inr (total > up_memory_limit p))"

definition UsagePool_Alloc :: "ptr \<Rightarrow> int \<Rightarrow> MemoryUsagePool \<Rightarrow> (ptr \<times> MemoryUsagePool) res" where
  "UsagePool_Alloc fresh n p =
     and_then (UsagePool_HitCeiling n p) (\<lambda>hit.
       if hit then Inr (0, p)
       else if n < 0 then Inl BadAlloc
       else Inr (fresh,
         p\<lparr>up_alloced := (if map_of (up_alloced p) fresh = None then map_put fresh n (up_alloced p)
                          else up_alloced p),
           up_memory_usage := up_memory_usage p + n\<rparr>))"

definition UsagePool_Free :: "ptr \<Rightarrow> MemoryUsagePool \<Rightarrow> (MemoryUsagePool \<times> (nat \<times> int) list) res" where
  "UsagePool_Free b p =
     (case map_of (up_alloced p) b of
        None \<Rightarrow> Inl DcheckFailed
      | Some n \<Rightarrow>
          (let p1 = p\<lparr>up_alloced := map_erase b (up_alloced p),
                      up_memory_usage := up_memory_usage p - n\<rparr>;
               amount = up_memory_limit p1 - up_memory_usage p1
           in if up_need_call p1 \<and> up_need_amount p1 \<le> amount
              then Inr (p1\<lparr>up_need_call := False\<rparr>, run_cb (up_have_free p1) amount)
              else Inr (p1, [])))"

definition UsagePool_Left :: "MemoryUsagePool \<Rightarrow> int" where
  "UsagePool_Left p = up_memory_limit p - up_memory_usage p"

definition SetFreeCallback ::
    "callback \<Rightarrow> int \<Rightarrow> MemoryUsagePool \<Rightarrow> MemoryUsagePool \<times> (nat \<times> int) list" where
  "SetFreeCallback cb amount p =
     (let left = up_memory_limit p - up_memory_usage p in
      if left < amount
      then (p\<lparr>up_need_call := True, up_need_amount := amount, up_have_free := cb\<rparr>, [])
      else (p, run_cb cb left))"

definition UsagePool_CancelCallback :: "MemoryUsagePool \<Rightarrow> MemoryUsagePool" where
  "UsagePool_CancelCallback p = p\<lparr>up_need_call := False, up_need_amount := -1, up_have_free := None\<rparr>"

text \<open>
  The invariant.  The last part says that no wake-up is lost: while a callback is pending
  the pool has less free memory than the callback waits for.
\<close>

definition usage_pool_inv :: "MemoryUsagePool \<Rightarrow> bool" where
  "usage_pool_inv p \<longleftrightarrow>
     map_keys_ok (up_alloced p) \<and>
     (\<forall>(b, n) \<in> set (up_alloced p). b \<noteq> 0 \<and> 0 \<le> n) \<and>
     up_memory_usage p = sum_list (map snd (up_alloced p)) \<and>
     up_memory_usage p \<le> up_memory_limit p \<and> up_memory_limit p \<le> 2147483647 \<and>
     (up_need_call p \<longrightarrow> UsagePool_Left p < up_need_amount p)"

definition held_by :: "MemoryUsagePool \<Rightarrow> ptr \<Rightarrow> int" where
  "held_by p b = (case map_of (up_alloced p) b of None \<Rightarrow> 0 | Some n \<Rightarrow> n)"

lemma sum_map_put:
  "map_keys_ok xs \<Longrightarrow> map_of xs k = None \<Longrightarrow>
     sum_list (map snd (map_put k (v :: int) xs)) = v + sum_list (map snd xs)"
  by (induction xs) (auto split: if_splits)

lemma sum_map_erase:
  "map_keys_ok xs \<Longrightarrow> map_of xs k = Some v \<Longrightarrow>
     sum_list (map snd (map_erase k xs)) = sum_list (map snd xs) - (v :: int)"
proof (induction xs)
  case (Cons x xs)
  then show ?case
  proof (cases "fst x = k")
    case True
    then have "map_erase k (x # xs) = xs"
      using Cons.prems(1) by (cases x) (auto simp: map_erase_def filter_id_conv)
    with True Cons.prems(2) show ?thesis by (cases x) simp
  next
    case False
    with Cons show ?thesis by (cases x) (auto simp: map_erase_def)
  qed
qed simp

lemma usage_nonneg: "usage_pool_inv p \<Longrightarrow> 0 \<le> up_memory_usage p"
  unfolding usage_pool_inv_def by (fastforce intro!: sum_list_nonneg)

lemma usage_pool_inv_new [inv_intros]:
  "0 \<le> n \<Longrightarrow> n \<le> 2147483647 \<Longrightarrow> usage_pool_inv (MemoryUsagePool_new n)"
  by (simp add: usage_pool_inv_def MemoryUsagePool_new_def)

lemma usage_pool_inv_SetFreeCallback [inv_intros]:
  "usage_pool_inv p \<Longrightarrow> usage_pool_inv (fst (SetFreeCallback cb n p))"
  by (auto simp: SetFreeCallback_def Let_def usage_pool_inv_def UsagePool_Left_def)

lemma usage_pool_inv_CancelCallback [inv_intros]:
  "usage_pool_inv p \<Longrightarrow> usage_pool_inv (UsagePool_CancelCallback p)"
  by (simp add: UsagePool_CancelCallback_def usage_pool_inv_def)

lemma UsagePool_Alloc_room:
  assumes inv: "usage_pool_inv p" and "a \<noteq> 0" and new: "map_of (up_alloced p) a = None"
    and n: "0 \<le> n" and room: "n \<le> UsagePool_Left p"
  shows "\<exists>p'. UsagePool_Alloc a n p = Inr (a, p') \<and> usage_pool_inv p' \<and>
    map_of (up_alloced p') = (map_of (up_alloced p))(a \<mapsto> n) \<and>
    UsagePool_Left p' = UsagePool_Left p - n"
proof -
  have ok: "map_keys_ok (up_alloced p)" using inv by (simp add: usage_pool_inv_def)
  let ?p = "p\<lparr>up_alloced := map_put a n (up_alloced p), up_memory_usage := up_memory_usage p + n\<rparr>"
  have "UsagePool_HitCeiling n p = Inr False"
    using inv n room usage_nonneg [OF inv]
    by (auto simp: UsagePool_HitCeiling_def int32_of_def in_int32_def usage_pool_inv_def UsagePool_Left_def)
  then have "UsagePool_Alloc a n p = Inr (a, ?p)" using new n by (simp add: UsagePool_Alloc_def)
  moreover have "UsagePool_Left ?p = UsagePool_Left p - n" by (simp add: UsagePool_Left_def)
  moreover have "usage_pool_inv ?p"
    using inv n room \<open>a \<noteq> 0\<close> map_keys_ok_put [OF ok] sum_map_put [OF ok new]
    by (auto simp: usage_pool_inv_def UsagePool_Left_def set_map_put [OF ok])
  moreover have "map_of (up_alloced ?p) = (map_of (up_alloced p))(a \<mapsto> n)"
    by (simp add: map_of_put [OF ok])
  ultimately show ?thesis by blast
qed

lemma UsagePool_Free_held:
  assumes inv: "usage_pool_inv p" and held: "map_of (up_alloced p) b = Some n"
  shows "\<exists>p' ev. UsagePool_Free b p = Inr (p', ev) \<and> usage_pool_inv p' \<and>
    map_of (up_alloced p') = (map_of (up_alloced p))(b := None) \<and>
    UsagePool_Left p' = UsagePool_Left p + n \<and>
    (if up_need_call p \<and> up_need_amount p \<le> UsagePool_Left p'
     then \<not> up_need_call p' \<and> ev = run_cb (up_have_free p) (UsagePool_Left p')
     else up_need_call p' = up_need_call p \<and> ev = [])"
proof -
  have ok: "map_keys_ok (up_alloced p)" using inv by (simp add: usage_pool_inv_def)
  have "0 \<le> n" using inv map_of_SomeD [OF held] by (auto simp: usage_pool_inv_def)
  then show ?thesis
    using inv held map_keys_ok_erase [OF ok] sum_map_erase [OF ok held]
    by (auto simp: UsagePool_Free_def Let_def usage_pool_inv_def UsagePool_Left_def set_map_erase
        map_of_erase)
qed

interpretation usage_pool: memory_pool usage_pool_inv "\<lambda>p. dom (map_of (up_alloced p))"
    UsagePool_Left held_by "\<lambda>_ n. n" "\<lambda>p a. a \<noteq> 0 \<and> map_of (up_alloced p) a = None"
    "\<lambda>p n. 0 \<le> n \<and> n + up_memory_usage p \<le> 2147483647" UsagePool_Alloc UsagePool_Free
proof (unfold_locales, goal_cases)
  case (1 p a n)
  then obtain p' where "UsagePool_Alloc a n p = Inr (a, p')" "usage_pool_inv p'"
      "map_of (up_alloced p') = (map_of (up_alloced p))(a \<mapsto> n)" "UsagePool_Left p' = UsagePool_Left p - n"
    using UsagePool_Alloc_room by blast
  with 1 show ?case by (auto simp: held_by_def)
next
  case (2 p n a)
  then show ?case
    using usage_nonneg [OF 2(1)]
    by (auto simp: UsagePool_Alloc_def UsagePool_HitCeiling_def UsagePool_Left_def int32_of_def in_int32_def)
next
  case (3 p b)
  then obtain n where "map_of (up_alloced p) b = Some n" by auto
  from UsagePool_Free_held [OF 3(1) this] this show ?case by (auto simp: held_by_def)
next
  case (4 p b)
  then have "map_of (up_alloced p) b = None" by auto
  then show ?case by (simp add: UsagePool_Free_def)
next
  case (5 p)
  then show ?case by (simp add: usage_pool_inv_def UsagePool_Left_def)
next
  case (6 p)
  then show ?case by (auto simp: usage_pool_inv_def dest!: map_of_SomeD)
qed

subsection \<open>Raw data allocated from a pool\<close>

text \<open>
  OscRawData and PooledOscRawData (canscope/device/osc_device/osc_raw_data.cc), FrameRawData
  and PooledFrameRawData (canscope/device/frame_device/frame_raw_data.cc): a buffer that an
  object takes from the pool when it is made, or later with AllocAgain, and gives back when
  it is destroyed.  Pooled data does not own its buffer, so \<open>own_\<close> is not part of the state:
  the source's base class initialises it from itself (\<open>own_(own_)\<close>), which the pooled class
  makes harmless by setting the buffer to NULL before the base destructor runs.
\<close>

record PooledRawData =
  rd_raw_data :: ptr
  rd_size :: int
  rd_need_size :: int
  rd_alloc_ok :: bool

definition RawData_AllocAgain ::
    "ptr \<Rightarrow> PooledRawData \<Rightarrow> MemoryUsagePool \<Rightarrow> (PooledRawData \<times> MemoryUsagePool) res" where
  "RawData_AllocAgain fresh d pool =
     DCHECK (\<not> rd_alloc_ok d)
      (and_then (UsagePool_Alloc fresh (rd_need_size d) pool) (\<lambda>(data, pool').
        if data \<noteq> 0
        then Inr (d\<lparr>rd_alloc_ok := True, rd_raw_data := data, rd_size := rd_need_size d\<rparr>, pool')
        else Inr (d\<lparr>rd_alloc_ok := False\<rparr>, pool')))"

definition PooledFrameRawData_new ::
    "ptr \<Rightarrow> int \<Rightarrow> MemoryUsagePool \<Rightarrow> (PooledRawData \<times> MemoryUsagePool) res" where
  "PooledFrameRawData_new fresh n pool =
     RawData_AllocAgain fresh
       \<lparr>rd_raw_data = 0, rd_size = 0, rd_need_size = n, rd_alloc_ok = False\<rparr> pool"

definition PooledRawData_destroy ::
    "PooledRawData \<Rightarrow> MemoryUsagePool \<Rightarrow> (MemoryUsagePool \<times> (nat \<times> int) list) res" where
  "PooledRawData_destroy d pool =
     (if rd_alloc_ok d then UsagePool_Free (rd_raw_data d) pool else Inr (pool, []))"

definition PooledOscRawData_new ::
    "ptr \<Rightarrow> DeviceType \<Rightarrow> MemoryUsagePool \<Rightarrow> (PooledRawData \<times> MemoryUsagePool) res" where
  "PooledOscRawData_new fresh t pool =
     RawData_AllocAgain fresh
       \<lparr>rd_raw_data = 0, rd_size = 0, rd_need_size = DeviceTypeDataSize t, rd_alloc_ok = False\<rparr> pool"

definition OscRawData_chnl_size :: "PooledRawData \<Rightarrow> int" where
  "OscRawData_chnl_size d = trunc_div (rd_size d) 2"

lemma RawData_alloc_destroy:
  assumes "usage_pool_inv p" and "a \<noteq> 0" and "map_of (up_alloced p) a = None"
    and "0 \<le> n" and "n + up_memory_usage p \<le> 2147483647"
    and "RawData_AllocAgain a \<lparr>rd_raw_data = 0, rd_size = 0, rd_need_size = n, rd_alloc_ok = False\<rparr> p
      = Inr (d, p')"
  shows "usage_pool_inv p' \<and> (rd_alloc_ok d \<longleftrightarrow> n \<le> UsagePool_Left p) \<and>
    (rd_alloc_ok d \<longrightarrow> rd_size d = n) \<and>
    (\<exists>p'' ev. PooledRawData_destroy d p' = Inr (p'', ev) \<and> UsagePool_Left p'' = UsagePool_Left p \<and>
       dom (map_of (up_alloced p'')) = dom (map_of (up_alloced p)))"
proof -
  from assms(6) obtain b where b: "UsagePool_Alloc a n p = Inr (b, p')"
    and d: "rd_alloc_ok d \<longleftrightarrow> b \<noteq> 0" "b \<noteq> 0 \<longrightarrow> rd_size d = n \<and> rd_raw_data d = b"
    by (auto simp: RawData_AllocAgain_def split: if_splits)
  have null: "b = 0 \<longleftrightarrow> UsagePool_Left p < n"
    using usage_pool.alloc_null_iff [OF assms(1) _ _ b] assms by blast
  show ?thesis
  proof (cases "b = 0")
    case True
    then have "p' = p" using usage_pool.alloc_full [OF assms(1), of n a] null assms b by auto
    with True assms(1) d null show ?thesis by (auto simp: PooledRawData_destroy_def)
  next
    case False
    obtain p'' ev where "UsagePool_Free b p' = Inr (p'', ev)" "usage_pool_inv p''"
        "dom (map_of (up_alloced p'')) = dom (map_of (up_alloced p))"
        "UsagePool_Left p'' = UsagePool_Left p"
      using usage_pool.alloc_free [OF assms(1) _ _ b False] assms by blast
    moreover have "usage_pool_inv p'"
      using usage_pool.alloc_room [OF assms(1), of a n] assms b null False by auto
    ultimately show ?thesis using False d null by (simp add: PooledRawData_destroy_def not_less)
  qed
qed

subsection \<open>Properties\<close>

text \<open>
  MemoryUsagePool accounts for its memory: a freed buffer gives back exactly its
  size, and a pending callback runs exactly when the free memory reaches the amount it
  waits for, with the free memory as its argument; afterwards it is not pending any more.
  While a callback is pending the free memory is less than its amount (part of the
  invariant), so no wake-up is lost.
\<close>

theorem UsagePool_Free_wakes:
  assumes "usage_pool_inv p" and "map_of (up_alloced p) b = Some n"
  shows "\<exists>p' ev. UsagePool_Free b p = Inr (p', ev) \<and> usage_pool_inv p' \<and>
    map_of (up_alloced p') = (map_of (up_alloced p))(b := None) \<and>
    UsagePool_Left p' = UsagePool_Left p + n \<and>
    (if up_need_call p \<and> up_need_amount p \<le> UsagePool_Left p'
     then \<not> up_need_call p' \<and> ev = run_cb (up_have_free p) (UsagePool_Left p')
     else up_need_call p' = up_need_call p \<and> ev = [])"
  using assms by (rule UsagePool_Free_held)

definition pool_witness :: MemoryUsagePool where
  "pool_witness =
     \<lparr>up_have_free = Some 3, up_alloced = [(8, 60), (16, 30)], up_memory_limit = 100,
      up_memory_usage = 90, up_need_amount = 50, up_need_call = True\<rparr>"

theorem UsagePool_Free_wakes_witness:
  "\<exists>p'. UsagePool_Free 8 pool_witness = Inr (p', [(3, 70)]) \<and> UsagePool_Left p' = 70"
  using UsagePool_Free_wakes [of pool_witness 8 60]
  by (auto simp: pool_witness_def usage_pool_inv_def UsagePool_Left_def run_cb_def)

text \<open>
  A waiter is never told wrong: SetFreeCallback either runs the callback at once,
  when the free memory already suffices, or leaves it pending, and Free and Alloc of the
  pool keep the invariant under which a pending callback's amount is not yet free.
\<close>

theorem SetFreeCallback_outcome:
  assumes "usage_pool_inv p"
  shows "case SetFreeCallback cb n p of (p', ev) \<Rightarrow> usage_pool_inv p' \<and>
     up_alloced p' = up_alloced p \<and>
     (if n \<le> UsagePool_Left p then p' = p \<and> ev = run_cb cb (UsagePool_Left p)
      else ev = [] \<and> up_need_call p' \<and> up_need_amount p' = n \<and> up_have_free p' = cb)"
  using usage_pool_inv_SetFreeCallback [OF assms, of cb n]
  by (auto simp: SetFreeCallback_def Let_def UsagePool_Left_def)

theorem SetFreeCallback_outcome_witness:
  "snd (SetFreeCallback (Some 4) 10 pool_witness) = [(4, 10)]"
  using SetFreeCallback_outcome [of pool_witness 10 "Some 4"]
  by (auto simp: pool_witness_def usage_pool_inv_def UsagePool_Left_def run_cb_def)

text \<open>
  Oscilloscope data made from the pool has its buffer exactly when the pool had room
  for a data set of the device type, and destroying it gives back what it took.
\<close>

theorem PooledOscRawData_lifetime:
  assumes "usage_pool_inv p" and "a \<noteq> 0" and "map_of (up_alloced p) a = None"
    and "up_memory_usage p \<le> 2147000000"
    and "PooledOscRawData_new a t p = Inr (d, p')"
  shows "usage_pool_inv p' \<and> (rd_alloc_ok d \<longleftrightarrow> DeviceTypeDataSize t \<le> UsagePool_Left p) \<and>
    (rd_alloc_ok d \<longrightarrow> rd_size d = DeviceTypeDataSize t) \<and>
    (\<exists>p'' ev. PooledRawData_destroy d p' = Inr (p'', ev) \<and> UsagePool_Left p'' = UsagePool_Left p \<and>
       dom (map_of (up_alloced p'')) = dom (map_of (up_alloced p)))"
proof (rule RawData_alloc_destroy)
  show "0 \<le> DeviceTypeDataSize t" "DeviceTypeDataSize t + up_memory_usage p \<le> 2147483647"
    using assms(4) by (simp_all add: DeviceTypeDataSize_def DeviceK_def)
qed (use assms in \<open>auto simp: PooledOscRawData_new_def\<close>)

theorem PooledOscRawData_lifetime_witness:
  "\<exists>d p'. PooledOscRawData_new 24 DT_CS1203 (MemoryUsagePool_new 20000) = Inr (d, p') \<and>
     rd_alloc_ok d \<and> rd_size d = 16000"
proof -
  obtain d p' where r: "PooledOscRawData_new 24 DT_CS1203 (MemoryUsagePool_new 20000) = Inr (d, p')"
    by (auto simp: PooledOscRawData_new_def RawData_AllocAgain_def UsagePool_Alloc_def
        UsagePool_HitCeiling_def MemoryUsagePool_new_def int32_of_def in_int32_def
        DeviceTypeDataSize_def DeviceK_def)
  from PooledOscRawData_lifetime [OF _ _ _ _ r] r show ?thesis
    by (auto simp: usage_pool_inv_new UsagePool_Left_def MemoryUsagePool_new_def usage_pool_inv_def
        DeviceTypeDataSize_def DeviceK_def)
qed

text \<open>
  A MemoryFramePool never hands out more frames than its size, and a frame it hands
  out is not one that is already out: Alloc answers NULL exactly when the pool is
  exhausted, and a frame is freed once.
\<close>

theorem FramePool_alloc_free:
  assumes "frame_pool_inv p" and "a \<noteq> 0 \<and> a \<notin> set (fp_alloced p @ fp_free p)"
    and "FramePool_Alloc a p = Inr (b, p')"
  shows "(b = 0 \<longleftrightarrow> FramePool_Left p = 0) \<and>
    (b \<noteq> 0 \<longrightarrow> b \<notin> set (fp_alloced p) \<and>
       (\<exists>p'' ev. FramePool_Free b p' = Inr (p'', ev) \<and> frame_pool_inv p'' \<and>
          FramePool_Left p'' = FramePool_Left p \<and> (\<exists>e. FramePool_Free b p'' = Inl e)))"
proof -
  have null: "b = 0 \<longleftrightarrow> FramePool_Left p < 1"
    using frame_pool.alloc_null_iff [OF assms(1) _ _ assms(3)] assms(2) by blast
  have "0 \<le> FramePool_Left p" using assms(1) by (rule frame_pool.left_nonneg)
  moreover have "b \<noteq> 0 \<longrightarrow> b \<notin> set (fp_alloced p)"
    using frame_pool.alloc_room [OF assms(1,2)] assms(3) null by fastforce
  moreover have "b \<noteq> 0 \<longrightarrow> (\<exists>p'' ev. FramePool_Free b p' = Inr (p'', ev) \<and> frame_pool_inv p'' \<and>
      FramePool_Left p'' = FramePool_Left p \<and> (\<exists>e. FramePool_Free b p'' = Inl e))"
    using frame_pool.alloc_free [OF assms(1,2) _ assms(3)] by blast
  ultimately show ?thesis using null by auto
qed

theorem FramePool_alloc_free_witness:
  "\<exists>p'. FramePool_Alloc 8 \<lparr>fp_alloced = [], fp_free = [], fp_frame_size = 4, fp_pool_size = 1,
       fp_have_free = None\<rparr> = Inr (8, p') \<and> (\<exists>p'' ev. FramePool_Free 8 p' = Inr (p'', ev))"
  using FramePool_alloc_free [of "\<lparr>fp_alloced = [], fp_free = [], fp_frame_size = 4, fp_pool_size = 1,
       fp_have_free = None\<rparr>" 8 8]
  by (auto simp: frame_pool_inv_def FramePool_Alloc_def FramePool_HitCeiling_def)

end
