(* ===== verification/Bulk_Queue.thy ===== *)
theory Bulk_Queue
  imports Prelude
begin

text \<open>
  The bulk queue between a collecter and its readers, device/sequenced_bulk_queue.h and
  .cc.  A writer pushes bulks, which are numbered in order; every reader walks through the
  numbers at its own speed and a bulk is released when all readers have read it.  A reader
  that finds nothing registers a callback and is woken by the push that brings its bulk.

  The state holds the queue and its readers, since the callbacks that a push runs change
  the readers.  A reader is known by its address.  The two kinds of callback are
  OnWaitReady (signals the reader's event, for a waiting thread) and OnBufferReady (posts
  CallHaveData to the reader's task runner; \<open>bq_posted\<close> lists the posted tasks).  An
  operation under the lock is one step.  A wait for the event is split where the thread
  blocks: the part before (\<open>_begin\<close>) and the part after (\<open>_end\<close>), which is the fault
  \<open>Blocked\<close> when the event is not signaled; a timed wait that ends sees whether the event
  is signaled.  Counts are \<open>int64\<close> in the source and do not reach their bound.
\<close>

subsection \<open>State\<close>

record 'b BulkPiece =
  bp_bulk :: 'b
  bp_count :: int

datatype ready_callback = OnWaitReady | OnBufferReady

record 'b Reader =
  br_count :: int
  br_event :: bool
  br_quiting :: bool
  br_have_data :: bool
  br_temp_ptr :: "'b option"
  br_temp_count :: int

record 'b SequencedBulkQueue =
  bq_over_write :: bool
  bq_keep_if_no_reader :: bool
  bq_queue :: "'b BulkPiece list"
  bq_quiting :: bool
  bq_count :: int
  bq_callback_map :: "(ptr \<times> ready_callback \<times> int) list"
  bq_count_map :: "(ptr \<times> int) list"
  bq_reader_min :: int
  bq_reader_max :: int
  bq_readers :: "ptr \<rightharpoonup> 'b Reader"
  bq_posted :: "ptr list"

definition SequencedBulkQueue_new :: "bool \<Rightarrow> bool \<Rightarrow> 'b SequencedBulkQueue" where
  "SequencedBulkQueue_new over_write keep_if_no_reader =
     \<lparr>bq_over_write = over_write, bq_keep_if_no_reader = keep_if_no_reader, bq_queue = [],
      bq_quiting = False, bq_count = 0, bq_callback_map = [], bq_count_map = [],
      bq_reader_min = -1, bq_reader_max = -1, bq_readers = Map.empty, bq_posted = []\<rparr>"

definition CountNoLock :: "'b SequencedBulkQueue \<Rightarrow> int" where
  "CountNoLock q = bq_count q - 1"

definition the_reader :: "ptr \<Rightarrow> 'b SequencedBulkQueue \<Rightarrow> ('b Reader \<Rightarrow> 'a res) \<Rightarrow> 'a res" where
  "the_reader r q f = (case bq_readers q r of None \<Rightarrow> Inl Undefined | Some x \<Rightarrow> f x)"

definition set_reader :: "ptr \<Rightarrow> 'b Reader \<Rightarrow> 'b SequencedBulkQueue \<Rightarrow> 'b SequencedBulkQueue" where
  "set_reader r x q = q\<lparr>bq_readers := (bq_readers q)(r \<mapsto> x)\<rparr>"

subsection \<open>The readers' progress\<close>

definition min_from :: "int \<Rightarrow> (ptr \<times> int) list \<Rightarrow> int" where
  "min_from c xs = fold (\<lambda>x m. if m > snd x then snd x else m) xs c"

definition max_from :: "int \<Rightarrow> (ptr \<times> int) list \<Rightarrow> int" where
  "max_from c xs = fold (\<lambda>x m. if m < snd x then snd x else m) xs c"

definition RegisterReader :: "ptr \<Rightarrow> int \<Rightarrow> 'b SequencedBulkQueue \<Rightarrow> 'b SequencedBulkQueue res" where
  "RegisterReader r start_count q =
     and_then (int32_of (start_count - 1)) (\<lambda>count.
       let q1 = (if bq_count_map q = []
                 then q\<lparr>bq_reader_min := count, bq_reader_max := count\<rparr> else q)
       in DCHECK (map_of (bq_count_map q1) r = None)
            (let q2 = q1\<lparr>bq_count_map := map_put r count (bq_count_map q1)\<rparr>;
                 q3 = (if count > bq_reader_max q2 then q2\<lparr>bq_reader_max := count\<rparr> else q2)
             in Inr (if count < bq_reader_min q3 then q3\<lparr>bq_reader_min := count\<rparr> else q3)))"

definition UnRegisterReader :: "ptr \<Rightarrow> 'b SequencedBulkQueue \<Rightarrow> 'b SequencedBulkQueue res" where
  "UnRegisterReader r q =
     DCHECK (map_of (bq_count_map q) r \<noteq> None)
      (let q1 = q\<lparr>bq_count_map := map_erase r (bq_count_map q)\<rparr> in
       case bq_count_map q1 of
         [] \<Rightarrow> Inr q1
       | (_, first) # _ \<Rightarrow>
           Inr (q1\<lparr>bq_reader_min := min_from first (bq_count_map q1),
                   bq_reader_max := max_from first (bq_count_map q1)\<rparr>))"

definition UpdateReaderCount :: "ptr \<Rightarrow> int \<Rightarrow> 'b SequencedBulkQueue \<Rightarrow> 'b SequencedBulkQueue res" where
  "UpdateReaderCount r count q =
     (case map_of (bq_count_map q) r of
        None \<Rightarrow> Inl DcheckFailed
      | Some old \<Rightarrow>
          if old = count then Inr q
          else DCHECK (old \<le> count)
            (let cm = map_put r count (bq_count_map q) in
             Inr (q\<lparr>bq_count_map := cm,
                    bq_reader_max := (if count > bq_reader_max q then count else bq_reader_max q),
                    bq_reader_min := min_from count cm\<rparr>)))"

subsection \<open>Finding and releasing bulks\<close>

definition MayReleaseBuffer :: "'b SequencedBulkQueue \<Rightarrow> 'b SequencedBulkQueue" where
  "MayReleaseBuffer q =
     (let release_all = (bq_count_map q = []) in
      if release_all \<and> bq_keep_if_no_reader q then q
      else q\<lparr>bq_queue := dropWhile (\<lambda>p. release_all \<or> bp_count p \<le> bq_reader_min q) (bq_queue q)\<rparr>)"

definition FindBulk :: "int \<Rightarrow> 'b SequencedBulkQueue \<Rightarrow> 'b BulkPiece option" where
  "FindBulk count q =
     (if CountNoLock q < count then None else find (\<lambda>p. bp_count p \<ge> count) (bq_queue q))"

definition GetBulkNoLock ::
    "ptr \<Rightarrow> int \<Rightarrow> 'b SequencedBulkQueue \<Rightarrow> ('b BulkPiece option \<times> 'b SequencedBulkQueue) res" where
  "GetBulkNoLock r count q =
     (case FindBulk count q of
        None \<Rightarrow> Inr (None, q)
      | Some p \<Rightarrow>
          and_then (UpdateReaderCount r (bp_count p) q) (\<lambda>q1.
            Inr (Some p, MayReleaseBuffer q1)))"

text \<open>Reader::GetBulk, which the callbacks and CheckReady run.\<close>

definition Reader_GetBulk :: "ptr \<Rightarrow> 'b SequencedBulkQueue \<Rightarrow> 'b SequencedBulkQueue res" where
  "Reader_GetBulk r q =
     the_reader r q (\<lambda>x.
       and_then (GetBulkNoLock r (br_count x) q) (\<lambda>(found, q1).
         case found of
           None \<Rightarrow> Inl DcheckFailed
         | Some p \<Rightarrow>
             DCHECK (br_count x \<le> bp_count p)
               (Inr (set_reader r (x\<lparr>br_temp_ptr := Some (bp_bulk p), br_temp_count := bp_count p,
                                     br_count := bp_count p + 1\<rparr>) q1))))"

definition RecycleOne :: "'b SequencedBulkQueue \<Rightarrow> (bool \<times> 'b SequencedBulkQueue) res" where
  "RecycleOne q =
     DCHECK (bq_over_write q)
      (if bq_count_map q = [] then Inr (False, q)
       else let erase_first = (\<lambda>P. takeWhile (\<lambda>p. \<not> P p) (bq_queue q) @
                                     tl (dropWhile (\<lambda>p. \<not> P p) (bq_queue q)));
                unread = (\<lambda>p. bp_count p > bq_reader_max q);
                between = (\<lambda>p. bp_count p > bq_reader_min q \<and> bp_count p \<le> bq_reader_max q)
            in if \<exists>p \<in> set (bq_queue q). unread p
               then Inr (True, q\<lparr>bq_queue := erase_first unread\<rparr>)
               else if \<exists>p \<in> set (bq_queue q). between p
               then Inr (True, q\<lparr>bq_queue := erase_first between\<rparr>)
               else Inr (False, q))"

subsection \<open>Callbacks\<close>

text \<open>ReaderBase::OnWaitReady and ReaderBase::OnBufferReady.\<close>

definition run_ready ::
    "ready_callback \<Rightarrow> ptr \<Rightarrow> bool \<Rightarrow> 'b SequencedBulkQueue \<Rightarrow> 'b SequencedBulkQueue res" where
  "run_ready kind r quit q =
     the_reader r q (\<lambda>x.
       let q1 = set_reader r (x\<lparr>br_quiting := quit\<rparr>) q in
       and_then (if quit then Inr q1 else Reader_GetBulk r q1) (\<lambda>q2.
         the_reader r q2 (\<lambda>y.
           case kind of
             OnWaitReady \<Rightarrow> Inr (set_reader r (y\<lparr>br_event := True\<rparr>) q2)
           | OnBufferReady \<Rightarrow>
               Inr (if br_have_data y then q2\<lparr>bq_posted := bq_posted q2 @ [r]\<rparr> else q2))))"

definition fire_one ::
    "int \<Rightarrow> ptr \<times> ready_callback \<times> int \<Rightarrow> 'b SequencedBulkQueue \<Rightarrow> 'b SequencedBulkQueue res" where
  "fire_one reach_count cb q =
     (case cb of (r, kind, count) \<Rightarrow>
        if count \<le> reach_count
        then and_then (run_ready kind r False q) (\<lambda>q1.
               Inr (q1\<lparr>bq_callback_map := map_erase r (bq_callback_map q1)\<rparr>))
        else Inr q)"

text \<open>
  The loop visits the records in the order of the map; the callbacks do not change the
  map, so that the records visited are those at the start.  When the queue is quitting,
  the records stay in the map.
\<close>

definition FireCallbackNoLock :: "int \<Rightarrow> 'b SequencedBulkQueue \<Rightarrow> 'b SequencedBulkQueue res" where
  "FireCallbackNoLock reach_count q =
     (if bq_quiting q
      then for_each (\<lambda>(r, kind, _). run_ready kind r True) (bq_callback_map q) q
      else for_each (fire_one reach_count) (bq_callback_map q) q)"

definition MayFireCallback :: "'b SequencedBulkQueue \<Rightarrow> 'b SequencedBulkQueue res" where
  "MayFireCallback q =
     (if bq_queue q = [] then Inr q else FireCallbackNoLock (bp_count (last (bq_queue q))) q)"

definition insert_callback ::
    "ptr \<Rightarrow> ready_callback \<Rightarrow> int \<Rightarrow> 'b SequencedBulkQueue \<Rightarrow> 'b SequencedBulkQueue res" where
  "insert_callback r kind count q =
     DCHECK (map_of (bq_callback_map q) r = None)
       (Inr (q\<lparr>bq_callback_map := map_put r (kind, count) (bq_callback_map q)\<rparr>))"

definition SetReadyCallback ::
    "ptr \<Rightarrow> ready_callback \<Rightarrow> int \<Rightarrow> 'b SequencedBulkQueue \<Rightarrow> 'b SequencedBulkQueue res" where
  "SetReadyCallback r kind count q = and_then (insert_callback r kind count q) MayFireCallback"

definition CancelCallback :: "ptr \<Rightarrow> 'b SequencedBulkQueue \<Rightarrow> bool \<times> 'b SequencedBulkQueue" where
  "CancelCallback r q =
     (case map_of (bq_callback_map q) r of
        None \<Rightarrow> (False, q)
      | Some _ \<Rightarrow> (True, q\<lparr>bq_callback_map := map_erase r (bq_callback_map q)\<rparr>))"

text \<open>CheckReady with the closure that every caller passes, Reader::GetBulk.\<close>

definition CheckReady :: "ptr \<Rightarrow> int \<Rightarrow> 'b SequencedBulkQueue \<Rightarrow> (bool \<times> 'b SequencedBulkQueue) res" where
  "CheckReady r count q =
     (if count > CountNoLock q \<or> bq_queue q = [] then Inr (False, q)
      else if bp_count (last (bq_queue q)) \<ge> count
           then and_then (Reader_GetBulk r q) (\<lambda>q1. Inr (True, q1))
           else Inr (False, q))"

subsection \<open>The writer\<close>

definition PushBulk :: "'b \<Rightarrow> 'b SequencedBulkQueue \<Rightarrow> 'b SequencedBulkQueue res" where
  "PushBulk b q =
     (let q1 = q\<lparr>bq_queue := bq_queue q @ [\<lparr>bp_bulk = b, bp_count = CountNoLock q + 1\<rparr>],
                 bq_count := bq_count q + 1\<rparr>
      in and_then (FireCallbackNoLock (CountNoLock q1) q1) (\<lambda>q2. Inr (MayReleaseBuffer q2)))"

definition Quit :: "'b SequencedBulkQueue \<Rightarrow> 'b SequencedBulkQueue res" where
  "Quit q = DCHECK (\<not> bq_quiting q) (MayFireCallback (q\<lparr>bq_quiting := True\<rparr>))"

subsection \<open>The readers\<close>

definition Reader_new :: "ptr \<Rightarrow> bool \<Rightarrow> 'b SequencedBulkQueue \<Rightarrow> 'b SequencedBulkQueue res" where
  "Reader_new r have_data q =
     and_then (RegisterReader r 0 q) (\<lambda>q1.
       Inr (set_reader r \<lparr>br_count = 0, br_event = False, br_quiting = False,
          br_have_data = have_data, br_temp_ptr = None, br_temp_count = 0xdeadbeef\<rparr> q1))"

definition Reader_destroy :: "ptr \<Rightarrow> 'b SequencedBulkQueue \<Rightarrow> 'b SequencedBulkQueue res" where
  "Reader_destroy r q =
     and_then (UnRegisterReader r (snd (CancelCallback r q))) (\<lambda>q1.
       Inr (q1\<lparr>bq_readers := (bq_readers q1)(r := None)\<rparr>))"

definition Skip :: "ptr \<Rightarrow> int \<Rightarrow> 'b SequencedBulkQueue \<Rightarrow> 'b SequencedBulkQueue res" where
  "Skip r n q = the_reader r q (\<lambda>x. Inr (set_reader r (x\<lparr>br_count := br_count x + n\<rparr>) q))"

definition GetBulkSameThread ::
    "ptr \<Rightarrow> 'b SequencedBulkQueue \<Rightarrow> (('b \<times> int) option \<times> 'b SequencedBulkQueue) res" where
  "GetBulkSameThread r q =
     the_reader r q (\<lambda>x.
       and_then (GetBulkNoLock r (br_count x) q) (\<lambda>(found, q1).
         case found of
           None \<Rightarrow> Inr (None, q1)
         | Some p \<Rightarrow>
             DCHECK (br_count x \<le> bp_count p)
               (Inr (Some (bp_bulk p, bp_count p),
                     set_reader r (x\<lparr>br_count := bp_count p + 1\<rparr>) q1))))"

text \<open>
  WaitFront, and the part of WaitForReady and WaitTimeoutForReady up to the wait: the
  result says whether the bulk is there already.
\<close>

definition Wait_begin :: "ptr \<Rightarrow> 'b SequencedBulkQueue \<Rightarrow> (bool \<times> 'b SequencedBulkQueue) res" where
  "Wait_begin r q =
     the_reader r q (\<lambda>x.
       CHECK (\<not> br_quiting x)
        (and_then (CheckReady r (br_count x) q) (\<lambda>(ready, q1).
           if ready then Inr (True, q1)
           else and_then (SetReadyCallback r OnWaitReady (br_count x) q1) (\<lambda>q2. Inr (False, q2)))))"

definition WaitForReady_end :: "ptr \<Rightarrow> 'b SequencedBulkQueue \<Rightarrow> (bool \<times> 'b SequencedBulkQueue) res" where
  "WaitForReady_end r q =
     the_reader r q (\<lambda>x.
       check Blocked (br_event x)
         (Inr (\<not> br_quiting x, set_reader r (x\<lparr>br_event := False\<rparr>) q)))"

definition WaitTimeoutForReady_end ::
    "ptr \<Rightarrow> 'b SequencedBulkQueue \<Rightarrow> (bool \<times> 'b SequencedBulkQueue) res" where
  "WaitTimeoutForReady_end r q =
     the_reader r q (\<lambda>x.
       if br_event x then WaitForReady_end r q
       else (case CancelCallback r q of (cancelled, q1) \<Rightarrow>
               if \<not> cancelled then WaitForReady_end r q1 else Inr (False, q1)))"

definition WaitBack :: "ptr \<Rightarrow> 'b SequencedBulkQueue \<Rightarrow> (bool \<times> 'b SequencedBulkQueue) res" where
  "WaitBack r q =
     (case CancelCallback r q of (cancelled, q1) \<Rightarrow>
        the_reader r q1 (\<lambda>x.
          if \<not> cancelled
          then check Blocked (br_event x) (Inr (True, set_reader r (x\<lparr>br_event := False\<rparr>) q1))
          else Inr (False, set_reader r (x\<lparr>br_event := False\<rparr>) q1)))"

definition CallbackOnReady :: "ptr \<Rightarrow> 'b SequencedBulkQueue \<Rightarrow> 'b SequencedBulkQueue res" where
  "CallbackOnReady r q =
     the_reader r q (\<lambda>x.
       CHECK (\<not> br_quiting x)
        (and_then (CheckReady r (br_count x) q) (\<lambda>(ready, q1).
           if ready then Inr (q1\<lparr>bq_posted := bq_posted q1 @ [r]\<rparr>)
           else SetReadyCallback r OnBufferReady (br_count x) q1)))"

definition GetResult :: "ptr \<Rightarrow> 'b SequencedBulkQueue \<Rightarrow> ('b option \<times> int) option res" where
  "GetResult r q =
     the_reader r q (\<lambda>x.
       Inr (if br_quiting x then None else Some (br_temp_ptr x, br_temp_count x)))"

text \<open>
  WaitForManyReader: a set of readers, in the order of their addresses, waited for together.
  The first part gives the readers that are ready and those that have to wait; the second,
  after WaitMany saw one of their events or the time ran out, adds the readers that were called.
\<close>

definition wait_front_one ::
    "ptr \<Rightarrow> ptr list \<times> ptr list \<times> 'b SequencedBulkQueue \<Rightarrow>
     (ptr list \<times> ptr list \<times> 'b SequencedBulkQueue) res" where
  "wait_front_one r = (\<lambda>(finish, need_check, q).
     and_then (Wait_begin r q) (\<lambda>(ready, q').
       Inr (if ready then (finish @ [r], need_check, q') else (finish, need_check @ [r], q'))))"

definition WaitForMany_begin ::
    "ptr list \<Rightarrow> 'b SequencedBulkQueue \<Rightarrow> (ptr list \<times> ptr list \<times> 'b SequencedBulkQueue) res" where
  "WaitForMany_begin wait_list q =
     DCHECK (wait_list \<noteq> []) (for_each wait_front_one wait_list ([], [], q))"

definition wait_back_one ::
    "ptr \<Rightarrow> ptr list \<times> 'b SequencedBulkQueue \<Rightarrow> (ptr list \<times> 'b SequencedBulkQueue) res" where
  "wait_back_one r = (\<lambda>(finish, q).
     and_then (WaitBack r q) (\<lambda>(called, q'). Inr (if called then finish @ [r] else finish, q')))"

definition event_signaled :: "'b SequencedBulkQueue \<Rightarrow> ptr \<Rightarrow> bool" where
  "event_signaled q r \<longleftrightarrow> (case bq_readers q r of None \<Rightarrow> False | Some x \<Rightarrow> br_event x)"

definition WaitForMany_end ::
    "ptr list \<times> ptr list \<times> 'b SequencedBulkQueue \<Rightarrow> (ptr list \<times> 'b SequencedBulkQueue) res" where
  "WaitForMany_end = (\<lambda>(finish, need_check, q).
     if need_check = [] then Inr (finish, q)
     else check Blocked (list_ex (event_signaled q) need_check)
            (for_each wait_back_one need_check (finish, q)))"

definition WaitTimeoutForMany_end ::
    "ptr list \<times> ptr list \<times> 'b SequencedBulkQueue \<Rightarrow> (bool \<times> ptr list \<times> 'b SequencedBulkQueue) res" where
  "WaitTimeoutForMany_end = (\<lambda>(finish, need_check, q).
     if need_check = [] then Inr (True, finish, q)
     else and_then (for_each wait_back_one need_check (finish, q)) (\<lambda>(finish', q').
            Inr (finish' \<noteq> [], finish', q')))"

subsection \<open>The invariant\<close>

definition queue_ok :: "'b SequencedBulkQueue \<Rightarrow> bool" where
  "queue_ok q \<longleftrightarrow>
     0 \<le> bq_count q \<and> sorted_wrt (<) (map bp_count (bq_queue q)) \<and>
     (\<forall>p \<in> set (bq_queue q). 0 \<le> bp_count p \<and> bp_count p < bq_count q)"

definition readers_ok :: "'b SequencedBulkQueue \<Rightarrow> bool" where
  "readers_ok q \<longleftrightarrow>
     map_keys_ok (bq_count_map q) \<and>
     (\<forall>(r, v) \<in> set (bq_count_map q). -1 \<le> v \<and> v < bq_count q \<and>
        (\<exists>x. bq_readers q r = Some x \<and> v < br_count x)) \<and>
     (bq_count_map q \<noteq> [] \<longrightarrow>
        bq_reader_min q = Min (snd ` set (bq_count_map q)) \<and>
        bq_reader_max q = Max (snd ` set (bq_count_map q)))"

definition callbacks_ok :: "'b SequencedBulkQueue \<Rightarrow> bool" where
  "callbacks_ok q \<longleftrightarrow>
     map_keys_ok (bq_callback_map q) \<and>
     (\<forall>(r, kind, c) \<in> set (bq_callback_map q). map_of (bq_count_map q) r \<noteq> None \<and>
        (\<exists>x. bq_readers q r = Some x \<and> br_count x = c))"

definition bulk_inv :: "'b SequencedBulkQueue \<Rightarrow> bool" where
  "bulk_inv q \<longleftrightarrow> queue_ok q \<and> readers_ok q \<and> callbacks_ok q"

text \<open>No lost wake-up: a reader that waits has nothing to read.\<close>

definition none_missed :: "'b SequencedBulkQueue \<Rightarrow> bool" where
  "none_missed q \<longleftrightarrow>
     (\<not> bq_quiting q \<longrightarrow>
        (\<forall>(r, kind, c) \<in> set (bq_callback_map q). \<forall>p \<in> set (bq_queue q). bp_count p < c))"

lemma min_from_Min: "min_from c xs = Min (insert c (snd ` set xs))"
proof (induction xs arbitrary: c)
  case (Cons x xs)
  have "min_from c (x # xs) = min_from (min c (snd x)) xs"
    by (simp add: min_from_def min_def)
  then show ?case using Cons by (cases "xs = []") (auto simp: insert_commute min_def)
qed (simp add: min_from_def)

lemma max_from_Max: "max_from c xs = Max (insert c (snd ` set xs))"
proof (induction xs arbitrary: c)
  case (Cons x xs)
  have "max_from c (x # xs) = max_from (max c (snd x)) xs"
    by (simp add: max_from_def max_def)
  then show ?case using Cons by (cases "xs = []") (auto simp: insert_commute max_def)
qed (simp add: max_from_def)

lemma sorted_dropWhile_filter:
  assumes "sorted_wrt (<) (map f xs)"
  shows "dropWhile (\<lambda>x. f x \<le> (m :: int)) xs = filter (\<lambda>x. m < f x) xs"
  using assms
proof (induction xs)
  case (Cons x xs)
  show ?case
  proof (cases "f x \<le> m")
    case True
    with Cons show ?thesis by simp
  next
    case False
    then have "\<forall>y \<in> set xs. m < f y" using Cons.prems by fastforce
    with False show ?thesis by (simp add: filter_id_conv)
  qed
qed simp

lemma MayReleaseBuffer_queue:
  assumes "queue_ok q"
  shows "bq_queue (MayReleaseBuffer q) =
    (if bq_count_map q = [] then if bq_keep_if_no_reader q then bq_queue q else []
     else filter (\<lambda>p. bq_reader_min q < bp_count p) (bq_queue q))"
  using assms
  by (auto simp: MayReleaseBuffer_def Let_def queue_ok_def sorted_dropWhile_filter dropWhile_eq_Nil_conv)

lemma MayReleaseBuffer_fields [simp]:
  "bq_count (MayReleaseBuffer q) = bq_count q"
  "bq_count_map (MayReleaseBuffer q) = bq_count_map q"
  "bq_callback_map (MayReleaseBuffer q) = bq_callback_map q"
  "bq_reader_min (MayReleaseBuffer q) = bq_reader_min q"
  "bq_reader_max (MayReleaseBuffer q) = bq_reader_max q"
  "bq_readers (MayReleaseBuffer q) = bq_readers q"
  "bq_quiting (MayReleaseBuffer q) = bq_quiting q"
  "bq_over_write (MayReleaseBuffer q) = bq_over_write q"
  "bq_posted (MayReleaseBuffer q) = bq_posted q"
  "bq_keep_if_no_reader (MayReleaseBuffer q) = bq_keep_if_no_reader q"
  by (simp_all add: MayReleaseBuffer_def Let_def)

lemma set_reader_fields [simp]:
  "bq_count (set_reader r x q) = bq_count q"
  "bq_queue (set_reader r x q) = bq_queue q"
  "bq_count_map (set_reader r x q) = bq_count_map q"
  "bq_callback_map (set_reader r x q) = bq_callback_map q"
  "bq_reader_min (set_reader r x q) = bq_reader_min q"
  "bq_reader_max (set_reader r x q) = bq_reader_max q"
  "bq_readers (set_reader r x q) = (bq_readers q)(r \<mapsto> x)"
  "bq_quiting (set_reader r x q) = bq_quiting q"
  "bq_over_write (set_reader r x q) = bq_over_write q"
  "bq_posted (set_reader r x q) = bq_posted q"
  "bq_keep_if_no_reader (set_reader r x q) = bq_keep_if_no_reader q"
  by (simp_all add: set_reader_def)

lemma queue_ok_MayReleaseBuffer:
  assumes "queue_ok q" shows "queue_ok (MayReleaseBuffer q)"
proof -
  have "sorted_wrt (<) (map bp_count (filter P (bq_queue q)))" for P
    using assms sorted_wrt_filter [of "\<lambda>a b. bp_count a < bp_count b" "bq_queue q" P]
    by (simp add: queue_ok_def sorted_wrt_map)
  with assms show ?thesis
    unfolding queue_ok_def MayReleaseBuffer_queue [OF assms] by auto
qed

lemma readers_ok_MayReleaseBuffer: "readers_ok q \<Longrightarrow> readers_ok (MayReleaseBuffer q)"
  by (simp add: readers_ok_def)

lemma callbacks_ok_MayReleaseBuffer: "callbacks_ok q \<Longrightarrow> callbacks_ok (MayReleaseBuffer q)"
  by (simp add: callbacks_ok_def)

lemma bulk_inv_MayReleaseBuffer [inv_intros]: "bulk_inv q \<Longrightarrow> bulk_inv (MayReleaseBuffer q)"
  by (simp add: bulk_inv_def queue_ok_MayReleaseBuffer readers_ok_MayReleaseBuffer
      callbacks_ok_MayReleaseBuffer)

lemma MayReleaseBuffer_subset: "set (bq_queue (MayReleaseBuffer q)) \<subseteq> set (bq_queue q)"
  by (auto simp: MayReleaseBuffer_def Let_def dest: set_dropWhileD)

subsection \<open>What a read does\<close>

definition read_to :: "ptr \<Rightarrow> int \<Rightarrow> 'b SequencedBulkQueue \<Rightarrow> 'b SequencedBulkQueue" where
  "read_to r n q =
     (let cm = map_put r n (bq_count_map q) in
      q\<lparr>bq_count_map := cm, bq_reader_max := max (bq_reader_max q) n, bq_reader_min := min_from n cm\<rparr>)"

lemma read_to_fields [simp]:
  "bq_count (read_to r n q) = bq_count q"
  "bq_queue (read_to r n q) = bq_queue q"
  "bq_count_map (read_to r n q) = map_put r n (bq_count_map q)"
  "bq_callback_map (read_to r n q) = bq_callback_map q"
  "bq_readers (read_to r n q) = bq_readers q"
  "bq_quiting (read_to r n q) = bq_quiting q"
  "bq_over_write (read_to r n q) = bq_over_write q"
  "bq_posted (read_to r n q) = bq_posted q"
  "bq_keep_if_no_reader (read_to r n q) = bq_keep_if_no_reader q"
  by (simp_all add: read_to_def Let_def)

lemma UpdateReaderCount_forward:
  assumes "map_of (bq_count_map q) r = Some v" and "v < n"
  shows "UpdateReaderCount r n q = Inr (read_to r n q)"
  using assms by (simp add: UpdateReaderCount_def read_to_def Let_def max_def)

lemma max_raise: "v < n \<Longrightarrow> max n m = max (max v m) (n :: int)"
  by (simp add: max_def)

lemma Max_insert_raise:
  "finite A \<Longrightarrow> v < n \<Longrightarrow> Max (insert n A) = max (Max (insert v A)) (n :: int)"
proof (cases "A = {}")
  case False
  assume "finite A" "v < n"
  have "max n (Max A) = max (max v (Max A)) n" using \<open>v < n\<close> by (rule max_raise)
  then show ?thesis
    unfolding Max_insert [OF \<open>finite A\<close> False] .
qed simp

lemma readers_ok_read_to:
  assumes "readers_ok q" and "map_of (bq_count_map q) r = Some v" and "v < n" and "n < bq_count q"
    and "n < br_count x"
  shows "readers_ok (set_reader r x (read_to r n q))"
proof -
  let ?cm = "bq_count_map q"
  have ok: "map_keys_ok ?cm" using assms(1) by (simp add: readers_ok_def)
  have ne: "?cm \<noteq> []" using assms(2) by auto
  have vin: "(r, v) \<in> set ?cm" using assms(2) by (rule map_of_SomeD)
  have range: "-1 \<le> v" using assms(1) vin by (auto simp: readers_ok_def)
  let ?rest = "{x \<in> set ?cm. fst x \<noteq> r}"
  have split: "set ?cm = insert (r, v) ?rest"
  proof -
    have "y = (r, v)" if "y \<in> set ?cm" "fst y = r" for y
      using map_keys_ok_inj [OF ok _ vin] that by simp
    then show ?thesis using vin by blast
  qed
  have img: "snd ` set ?cm = insert v (snd ` ?rest)"
    using arg_cong [OF split, of "image snd"] by simp
  have max: "bq_reader_max q = Max (insert v (snd ` ?rest))"
    using assms(1) ne img by (simp add: readers_ok_def)
  have "Max (insert n (snd ` ?rest)) = max (bq_reader_max q) n"
    unfolding max using assms(3) by (intro Max_insert_raise) simp_all
  moreover have "snd ` set (map_put r n ?cm) = insert n (snd ` ?rest)"
    by (simp add: set_map_put [OF ok])
  moreover have "min_from n (map_put r n ?cm) = Min (insert n (snd ` ?rest))"
    by (simp add: min_from_Min set_map_put [OF ok])
  ultimately show ?thesis
    using assms map_keys_ok_put [OF ok] range
    by (auto simp: readers_ok_def read_to_def Let_def set_map_put [OF ok])
qed

lemma find_sorted:
  assumes "\<exists>p \<in> set xs. c \<le> (f p :: int)"
  shows "\<exists>p \<in> set xs. find (\<lambda>p. c \<le> f p) xs = Some p \<and> c \<le> f p"
  using assms by (induction xs) auto

lemma find_least:
  "sorted_wrt (<) (map f xs) \<Longrightarrow> find (\<lambda>p. c \<le> (f p :: int)) xs = Some p \<Longrightarrow> p' \<in> set xs \<Longrightarrow>
     c \<le> f p' \<Longrightarrow> f p \<le> f p'"
  by (induction xs) (auto split: if_splits)

lemma find_SomeD: "find P xs = Some p \<Longrightarrow> p \<in> set xs \<and> P p"
  by (induction xs) (auto split: if_splits)

text \<open>One read, by whatever way: the reader moves to the bulk found and bulks are released.\<close>

lemma GetBulkNoLock_found:
  assumes "bulk_inv q" and "map_of (bq_count_map q) r = Some v" and "bq_readers q r = Some x"
    and "find (\<lambda>p. br_count x \<le> bp_count p) (bq_queue q) = Some p"
  shows "GetBulkNoLock r (br_count x) q = Inr (Some p, MayReleaseBuffer (read_to r (bp_count p) q))"
proof -
  have p: "p \<in> set (bq_queue q)" "br_count x \<le> bp_count p" using find_SomeD [OF assms(4)] by auto
  have "v < br_count x"
    using assms(1,3) map_of_SomeD [OF assms(2)] by (auto simp: bulk_inv_def readers_ok_def)
  moreover have "bp_count p < bq_count q"
    using assms(1) p(1) by (auto simp: bulk_inv_def queue_ok_def)
  ultimately show ?thesis
    using p assms(4) UpdateReaderCount_forward [OF assms(2), of "bp_count p"]
    by (simp add: GetBulkNoLock_def FindBulk_def CountNoLock_def)
qed

lemma Reader_GetBulk_found:
  assumes "bulk_inv q" and "map_of (bq_count_map q) r = Some v" and "bq_readers q r = Some x"
    and "find (\<lambda>p. br_count x \<le> bp_count p) (bq_queue q) = Some p"
  shows "Reader_GetBulk r q = Inr (set_reader r
     (x\<lparr>br_temp_ptr := Some (bp_bulk p), br_temp_count := bp_count p, br_count := bp_count p + 1\<rparr>)
     (MayReleaseBuffer (read_to r (bp_count p) q)))"
  using assms(3) find_SomeD [OF assms(4)]
  by (simp add: Reader_GetBulk_def the_reader_def GetBulkNoLock_found [OF assms])

subsection \<open>Firing the callbacks\<close>

text \<open>The reader after its callback: it holds the bulk and has been notified.\<close>

definition delivered :: "ready_callback \<Rightarrow> 'b BulkPiece \<Rightarrow> ptr \<Rightarrow> 'b Reader \<Rightarrow> 'b SequencedBulkQueue \<Rightarrow> bool" where
  "delivered kind p r x q \<longleftrightarrow>
     br_temp_ptr x = Some (bp_bulk p) \<and> br_temp_count x = bp_count p \<and> br_count x = bp_count p + 1 \<and>
     (case kind of OnWaitReady \<Rightarrow> br_event x
      | OnBufferReady \<Rightarrow> br_have_data x \<longrightarrow> r \<in> set (bq_posted q))"

lemma map_of_map_put_None: "map_of (map_put k v xs) k' = None \<longleftrightarrow> k \<noteq> k' \<and> map_of xs k' = None"
  by (auto simp: map_of_eq_None_iff set_map_put_keys)

text \<open>A change of a reader that keeps its count keeps the invariant.\<close>

lemma readers_ok_update [simp]:
  "readers_ok (q\<lparr>bq_posted := ps\<rparr>) = readers_ok q"
  "readers_ok (q\<lparr>bq_callback_map := cm\<rparr>) = readers_ok q"
  "readers_ok (q\<lparr>bq_quiting := b\<rparr>) = readers_ok q"
  by (simp_all add: readers_ok_def)

lemma readers_ok_min:
  assumes "readers_ok q" and "y \<in> snd ` set (bq_count_map q)"
  shows "bq_reader_min q \<le> y" and "y \<le> bq_reader_max q"
proof -
  have "bq_count_map q \<noteq> []" using assms(2) by auto
  then have "bq_reader_min q = Min (snd ` set (bq_count_map q))"
      "bq_reader_max q = Max (snd ` set (bq_count_map q))"
    using assms(1) by (simp_all add: readers_ok_def)
  with assms(2) show "bq_reader_min q \<le> y" "y \<le> bq_reader_max q" by simp_all
qed

lemma readers_ok_keys: "readers_ok q \<Longrightarrow> map_keys_ok (bq_count_map q)"
  by (simp add: readers_ok_def)

lemma readers_okD:
  assumes "readers_ok q" and "(k, v) \<in> set (bq_count_map q)"
  shows "-1 \<le> v \<and> v < bq_count q \<and> (\<exists>x. bq_readers q k = Some x \<and> v < br_count x)"
proof -
  have "case (k, v) of (r, v) \<Rightarrow> -1 \<le> v \<and> v < bq_count q \<and> (\<exists>x. bq_readers q r = Some x \<and> v < br_count x)"
    using assms unfolding readers_ok_def by blast
  then show ?thesis by simp
qed

lemma none_missed_subset:
  assumes "none_missed q" and "set (bq_queue q') \<subseteq> set (bq_queue q)"
    and "set (bq_callback_map q') \<subseteq> set (bq_callback_map q)" and "bq_quiting q' = bq_quiting q"
  shows "none_missed q'"
  unfolding none_missed_def
proof (intro impI ballI)
  fix cb assume "\<not> bq_quiting q'" "cb \<in> set (bq_callback_map q')"
  then have "case cb of (r, kind, c) \<Rightarrow> \<forall>p \<in> set (bq_queue q). bp_count p < c"
    using assms(1,3,4) unfolding none_missed_def by blast
  then show "case cb of (r, kind, c) \<Rightarrow> \<forall>p \<in> set (bq_queue q'). bp_count p < c"
    using assms(2) by auto
qed

lemma readers_ok_set_reader:
  assumes "readers_ok q" and "bq_readers q r = Some x" and "br_count x' = br_count x"
  shows "readers_ok (set_reader r x' q)"
proof -
  have "\<exists>y. ((bq_readers q)(r \<mapsto> x')) r' = Some y \<and> v < br_count y"
    if "(r', v) \<in> set (bq_count_map q)" for r' v
    using assms that by (fastforce simp: readers_ok_def)
  then show ?thesis
    using assms(1) unfolding readers_ok_def by (auto simp del: fun_upd_apply)
qed

lemma bulk_inv_set_reader [inv_intros]:
  assumes "bulk_inv q" and "bq_readers q r = Some x" and "br_count x' = br_count x"
  shows "bulk_inv (set_reader r x' q)"
proof -
  have "\<exists>y. ((bq_readers q)(r \<mapsto> x')) r' = Some y \<and> br_count y = c"
    if "(r', kind, c) \<in> set (bq_callback_map q)" for r' kind c
    using assms that by (fastforce simp: bulk_inv_def callbacks_ok_def)
  then show ?thesis
    using assms(1) readers_ok_set_reader [OF _ assms(2,3)]
    unfolding bulk_inv_def queue_ok_def callbacks_ok_def
    by (auto simp del: fun_upd_apply)
qed

lemma fire_one_ok:
  assumes inv: "bulk_inv q" and cb: "(r, kind, c) \<in> set (bq_callback_map q)" and "c \<le> reach"
    and ex: "\<exists>p \<in> set (bq_queue q). c \<le> bp_count p"
  obtains q' p x' v where "fire_one reach (r, kind, c) q = Inr q'" and "bulk_inv q'"
    and "p \<in> set (bq_queue q)" and "c \<le> bp_count p"
    and "bq_readers q' = (bq_readers q)(r \<mapsto> x')" and "delivered kind p r x' q'"
    and "map_of (bq_count_map q) r = Some v" and "v < c"
    and "bq_count_map q' = map_put r (bp_count p) (bq_count_map q)"
    and "bq_queue q' = filter (\<lambda>p. bq_reader_min q' < bp_count p) (bq_queue q)"
    and "bq_callback_map q' = map_erase r (bq_callback_map q)"
    and "bq_count q' = bq_count q" and "bq_quiting q' = bq_quiting q"
    and "bq_over_write q' = bq_over_write q" and "set (bq_posted q) \<subseteq> set (bq_posted q')"
proof -
  have ok: "queue_ok q" "readers_ok q" "callbacks_ok q" using inv by (simp_all add: bulk_inv_def)
  obtain v x where v: "map_of (bq_count_map q) r = Some v" and x: "bq_readers q r = Some x" "br_count x = c"
    using ok(3) cb by (fastforce simp: callbacks_ok_def)
  have vc: "v < c" using ok(2) map_of_SomeD [OF v] x by (auto simp: readers_ok_def)
  obtain p where p: "p \<in> set (bq_queue q)" "find (\<lambda>p. c \<le> bp_count p) (bq_queue q) = Some p" "c \<le> bp_count p"
    using find_sorted [OF ex] by blast
  have pc: "bp_count p < bq_count q" using ok(1) p(1) by (auto simp: queue_ok_def)
  let ?x0 = "x\<lparr>br_quiting := False\<rparr>" and ?q0 = "set_reader r (x\<lparr>br_quiting := False\<rparr>) q"
  have inv0: "bulk_inv ?q0"
    using bulk_inv_set_reader [OF inv x(1)] by simp
  let ?x1 = "?x0\<lparr>br_temp_ptr := Some (bp_bulk p), br_temp_count := bp_count p, br_count := bp_count p + 1\<rparr>"
  define q1 where "q1 = set_reader r ?x1 (MayReleaseBuffer (read_to r (bp_count p) ?q0))"
  have get: "Reader_GetBulk r ?q0 = Inr q1"
    using Reader_GetBulk_found [OF inv0, of r v ?x0 p] v x p by (simp add: q1_def)
  define x' where "x' = (case kind of OnWaitReady \<Rightarrow> ?x1\<lparr>br_event := True\<rparr> | OnBufferReady \<Rightarrow> ?x1)"
  define q2 where "q2 = (case kind of OnWaitReady \<Rightarrow> set_reader r x' q1
      | OnBufferReady \<Rightarrow> if br_have_data x then q1\<lparr>bq_posted := bq_posted q1 @ [r]\<rparr> else q1)"
  have x1: "bq_readers q1 r = Some ?x1" by (simp add: q1_def)
  have run: "run_ready kind r False q = Inr q2"
    using x x1 get by (auto simp: run_ready_def the_reader_def Let_def q2_def x'_def split: ready_callback.split)
  define q' where "q' = q2\<lparr>bq_callback_map := map_erase r (bq_callback_map q2)\<rparr>"
  have q2: "bq_count q2 = bq_count q" "bq_quiting q2 = bq_quiting q" "bq_over_write q2 = bq_over_write q"
      "bq_callback_map q2 = bq_callback_map q" "bq_readers q2 = (bq_readers q)(r \<mapsto> x')"
      "bq_count_map q2 = map_put r (bp_count p) (bq_count_map q)" "bq_queue q2 = bq_queue q1"
      "bq_reader_min q2 = bq_reader_min q1" "bq_reader_max q2 = bq_reader_max q1"
      "set (bq_posted q) \<subseteq> set (bq_posted q2)"
    by (auto simp: q2_def q1_def x'_def split: ready_callback.split)
  have ne: "map_put r (bp_count p) (bq_count_map q) \<noteq> []"
    using set_map_put_keys [of r "bp_count p" "bq_count_map q"] by (cases "map_put r (bp_count p) (bq_count_map q)") auto
  have "queue_ok (read_to r (bp_count p) ?q0)" using ok(1) by (simp add: queue_ok_def)
  then have q1_queue: "bq_queue q1 = filter (\<lambda>p. bq_reader_min q1 < bp_count p) (bq_queue q)" "queue_ok q1"
    using ne queue_ok_MayReleaseBuffer [of "read_to r (bp_count p) ?q0"]
    by (simp_all add: q1_def MayReleaseBuffer_queue) (simp add: queue_ok_def)
  have "readers_ok (set_reader r ?x1 (read_to r (bp_count p) ?q0))"
    using readers_ok_read_to [of ?q0 r v "bp_count p" ?x1] inv0 v vc p(3) pc by (simp add: bulk_inv_def)
  then have r1: "readers_ok q1" by (simp add: readers_ok_def q1_def)
  then have "readers_ok q2"
    using readers_ok_set_reader [OF r1 x1, of x'] by (cases kind) (simp_all add: q2_def x'_def)
  then have r2: "readers_ok q'" by (simp add: q'_def)
  have "callbacks_ok q'"
    using ok(3) q2 map_keys_ok_erase
    by (auto simp: q'_def callbacks_ok_def set_map_erase map_of_map_put_None)
  moreover have "queue_ok q'" using q1_queue(2) q2 by (simp add: queue_ok_def q'_def q1_def)
  ultimately have "bulk_inv q'" using r2 by (simp add: bulk_inv_def)
  moreover have "fire_one reach (r, kind, c) q = Inr q'"
    using \<open>c \<le> reach\<close> run by (simp add: fire_one_def q'_def)
  moreover have "delivered kind p r x' q'"
    by (auto simp: delivered_def x'_def q'_def q2_def split: ready_callback.split)
  ultimately show ?thesis
    using that [of q' p x' v] p vc v q2 q1_queue(1) by (simp add: q'_def)
qed

text \<open>
  While the loop runs, a reader that is still to be called finds its bulk: the bulk that
  the count names is in the queue, or every reader has passed it.
\<close>

definition reachable_bulk :: "int \<Rightarrow> 'b SequencedBulkQueue \<Rightarrow> bool" where
  "reachable_bulk reach q \<longleftrightarrow>
     (\<exists>p \<in> set (bq_queue q). bp_count p = reach) \<or> (\<forall>(r, v) \<in> set (bq_count_map q). reach \<le> v)"

lemma reachable_bulk_read:
  assumes "reachable_bulk reach q" and "readers_ok q'" and "map_keys_ok (bq_count_map q)"
    and "map_of (bq_count_map q) r = Some v" and "v < n"
    and "bq_count_map q' = map_put r n (bq_count_map q)"
    and "bq_queue q' = filter (\<lambda>p. bq_reader_min q' < bp_count p) (bq_queue q)"
  shows "reachable_bulk reach q'"
proof (cases "bq_reader_min q' < reach")
  case True
  have "\<not> (\<forall>(r, v) \<in> set (bq_count_map q). reach \<le> v)"
  proof
    assume all: "\<forall>(r, v) \<in> set (bq_count_map q). reach \<le> v"
    then have "reach \<le> v" using map_of_SomeD [OF assms(4)] by auto
    then have "\<forall>y \<in> snd ` set (bq_count_map q'). reach \<le> y"
      using all assms(5) unfolding assms(6) by (auto simp: set_map_put [OF assms(3)])
    moreover have ne: "bq_count_map q' \<noteq> []"
      using set_map_put_keys [of r n "bq_count_map q"] assms(6) by auto
    then have "bq_reader_min q' \<in> snd ` set (bq_count_map q')"
      using assms(2) by (auto simp: readers_ok_def intro!: Min_in)
    ultimately show False using True by auto
  qed
  then show ?thesis using assms(1,7) True by (auto simp: reachable_bulk_def)
next
  case False
  have "\<forall>y \<in> snd ` set (bq_count_map q'). bq_reader_min q' \<le> y"
    using readers_ok_min(1) [OF assms(2)] by blast
  with False have "\<forall>y \<in> snd ` set (bq_count_map q'). reach \<le> y" by (meson le_cases order_trans not_le)
  then show ?thesis by (fastforce simp: reachable_bulk_def)
qed

text \<open>What the loop does to the state, for the records \<open>cbs\<close> it visits.\<close>

definition fired ::
    "int \<Rightarrow> (ptr \<times> ready_callback \<times> int) list \<Rightarrow> 'b SequencedBulkQueue \<Rightarrow> 'b SequencedBulkQueue \<Rightarrow> bool" where
  "fired reach cbs q q' \<longleftrightarrow>
     set (bq_callback_map q') = {cb \<in> set (bq_callback_map q). \<not> (cb \<in> set cbs \<and> snd (snd cb) \<le> reach)} \<and>
     set (bq_queue q') \<subseteq> set (bq_queue q) \<and> bq_count q' = bq_count q \<and> bq_quiting q' = bq_quiting q \<and>
     bq_over_write q' = bq_over_write q \<and> set (bq_posted q) \<subseteq> set (bq_posted q') \<and>
     (\<forall>k. map_of (bq_count_map q') k = None \<longleftrightarrow> map_of (bq_count_map q) k = None) \<and>
     (\<forall>k. k \<notin> fst ` {cb \<in> set cbs. snd (snd cb) \<le> reach} \<longrightarrow> bq_readers q' k = bq_readers q k) \<and>
     (\<forall>(r, kind, c) \<in> set cbs. c \<le> reach \<longrightarrow>
        (\<exists>p x. p \<in> set (bq_queue q) \<and> c \<le> bp_count p \<and> bq_readers q' r = Some x \<and> delivered kind p r x q'))"

lemma fired_skip: "\<not> snd (snd cb) \<le> reach \<Longrightarrow> fired reach cbs q q' \<Longrightarrow> fired reach (cb # cbs) q q'"
  unfolding fired_def by (auto split: prod.splits)

lemma fire_loop:
  assumes "bulk_inv q" and "set cbs \<subseteq> set (bq_callback_map q)" and "distinct (map fst cbs)"
    and "reachable_bulk reach q"
  shows "\<exists>q'. for_each (fire_one reach) cbs q = Inr q' \<and> bulk_inv q' \<and> fired reach cbs q q'"
  using assms
proof (induction cbs arbitrary: q)
  case Nil
  then show ?case by (auto simp: fired_def)
next
  case (Cons cb cbs)
  obtain r kind c where cb: "cb = (r, kind, c)" by (cases cb)
  show ?case
  proof (cases "c \<le> reach")
    case False
    then have "for_each (fire_one reach) (cb # cbs) q = for_each (fire_one reach) cbs q"
      by (simp add: fire_one_def cb)
    moreover obtain q' where "for_each (fire_one reach) cbs q = Inr q'" "bulk_inv q'" "fired reach cbs q q'"
      using Cons.IH [of q] Cons.prems by auto
    moreover from this have "fired reach (cb # cbs) q q'" using False cb by (intro fired_skip) auto
    ultimately show ?thesis by auto
  next
    case True
    have inv: "queue_ok q" "readers_ok q" "callbacks_ok q" using Cons.prems(1) by (simp_all add: bulk_inv_def)
    have mem: "(r, kind, c) \<in> set (bq_callback_map q)" using Cons.prems(2) cb by simp
    then obtain v x where vx: "map_of (bq_count_map q) r = Some v" "bq_readers q r = Some x" "br_count x = c"
      using inv(3) by (fastforce simp: callbacks_ok_def)
    have "v < c" using inv(2) map_of_SomeD [OF vx(1)] vx(2,3) by (auto simp: readers_ok_def)
    then have "\<not> (\<forall>(r, v) \<in> set (bq_count_map q). reach \<le> v)"
      using True map_of_SomeD [OF vx(1)] by fastforce
    then have ex: "\<exists>p \<in> set (bq_queue q). c \<le> bp_count p"
      using Cons.prems(4) True by (auto simp: reachable_bulk_def)
    obtain q1 p x' v where q1: "fire_one reach (r, kind, c) q = Inr q1" "bulk_inv q1"
        "p \<in> set (bq_queue q)" "c \<le> bp_count p" "bq_readers q1 = (bq_readers q)(r \<mapsto> x')"
        "delivered kind p r x' q1" "map_of (bq_count_map q) r = Some v" "v < c"
        "bq_count_map q1 = map_put r (bp_count p) (bq_count_map q)"
        "bq_queue q1 = filter (\<lambda>p. bq_reader_min q1 < bp_count p) (bq_queue q)"
        "bq_callback_map q1 = map_erase r (bq_callback_map q)"
        "bq_count q1 = bq_count q" "bq_quiting q1 = bq_quiting q" "bq_over_write q1 = bq_over_write q"
        "set (bq_posted q) \<subseteq> set (bq_posted q1)"
      using fire_one_ok [OF Cons.prems(1) mem True ex] by metis
    have rnot: "r \<notin> fst ` set cbs" using Cons.prems(3) cb by simp
    have sub: "set cbs \<subseteq> set (bq_callback_map q1)"
      using Cons.prems(2) rnot by (auto simp: q1(11) set_map_erase rev_image_eqI)
    have reach: "reachable_bulk reach q1"
      using reachable_bulk_read [OF Cons.prems(4) _ readers_ok_keys [OF inv(2)] q1(7) _ q1(9,10)]
        q1(2,4,8) by (simp add: bulk_inv_def)
    obtain q' where run: "for_each (fire_one reach) cbs q1 = Inr q'" "bulk_inv q'" and f: "fired reach cbs q1 q'"
      using Cons.IH [OF q1(2) sub _ reach] Cons.prems(3) by auto
    note q' = f [unfolded fired_def, THEN conjunct1] f [unfolded fired_def, THEN conjunct2]
    have r': "bq_readers q' r = Some x'" using q'(2) rnot q1(5) by auto
    have "delivered kind p r x' q'"
      using q1(6) q'(2) by (auto simp: delivered_def split: ready_callback.splits)
    moreover have "set (bq_callback_map q') =
        {cb' \<in> set (bq_callback_map q). \<not> (cb' \<in> set (cb # cbs) \<and> snd (snd cb') \<le> reach)}"
    proof -
      have uniq: "cb' = (r, kind, c)" if "cb' \<in> set (bq_callback_map q)" "fst cb' = r" for cb'
        using map_keys_ok_inj [of "bq_callback_map q" cb' "(r, kind, c)"] that mem inv(3)
        by (simp add: callbacks_ok_def)
      show ?thesis
      proof (rule set_eqI)
        fix cb'
        show "cb' \<in> set (bq_callback_map q') \<longleftrightarrow> cb' \<in> {cb' \<in> set (bq_callback_map q).
            \<not> (cb' \<in> set (cb # cbs) \<and> snd (snd cb') \<le> reach)}"
        proof (cases "cb' \<in> set (bq_callback_map q) \<and> fst cb' = r")
          case True
          then have "cb' = cb" using uniq cb by blast
          then show ?thesis using True \<open>c \<le> reach\<close> by (simp add: q'(1) q1(11) set_map_erase cb)
        next
          case False
          then have "cb' \<noteq> cb \<or> cb' \<notin> set (bq_callback_map q)" using cb by auto
          with False show ?thesis by (auto simp: q'(1) q1(11) set_map_erase)
        qed
      qed
    qed
    moreover have "\<forall>(r, kind, c) \<in> set cbs. c \<le> reach \<longrightarrow>
        (\<exists>p x. p \<in> set (bq_queue q) \<and> c \<le> bp_count p \<and> bq_readers q' r = Some x \<and> delivered kind p r x q')"
      using q'(2) q1(10) by fastforce
    moreover have "\<forall>k. map_of (bq_count_map q') k = None \<longleftrightarrow> map_of (bq_count_map q) k = None"
      using q'(2) q1(7) by (auto simp: q1(9) map_of_map_put_None)
    moreover have "\<forall>k. k \<notin> fst ` {cb' \<in> set (cb # cbs). snd (snd cb') \<le> reach} \<longrightarrow>
        bq_readers q' k = bq_readers q k"
    proof (intro allI impI)
      fix k assume k: "k \<notin> fst ` {cb' \<in> set (cb # cbs). snd (snd cb') \<le> reach}"
      have "r \<in> fst ` {cb' \<in> set (cb # cbs). snd (snd cb') \<le> reach}"
        using cb True by (intro image_eqI [where x = cb]) auto
      moreover have "k \<notin> fst ` {cb' \<in> set cbs. snd (snd cb') \<le> reach}" using k by auto
      moreover from this have "bq_readers q' k = bq_readers q1 k" using f unfolding fired_def by blast
      moreover have "k \<noteq> r" using k calculation(1) by blast
      ultimately show "bq_readers q' k = bq_readers q k" using q1(5) by simp
    qed
    moreover have "set (bq_queue q') \<subseteq> set (bq_queue q)" using q'(2) q1(10) by auto
    moreover have "bq_count q' = bq_count q" "bq_quiting q' = bq_quiting q"
        "bq_over_write q' = bq_over_write q" "set (bq_posted q) \<subseteq> set (bq_posted q')"
      using q'(2) q1(12-15) by auto
    ultimately have "fired reach (cb # cbs) q q'"
      using q1(3,4) r' cb unfolding fired_def by auto
    moreover have "for_each (fire_one reach) (cb # cbs) q = Inr q'" using q1(1) run(1) cb by simp
    ultimately show ?thesis using run(2) by blast
  qed
qed

text \<open>When the queue quits, every waiting reader is told so; the records stay.\<close>

definition quit_fired ::
    "(ptr \<times> ready_callback \<times> int) list \<Rightarrow> 'b SequencedBulkQueue \<Rightarrow> 'b SequencedBulkQueue \<Rightarrow> bool" where
  "quit_fired cbs q q' \<longleftrightarrow>
     bq_callback_map q' = bq_callback_map q \<and> bq_queue q' = bq_queue q \<and> bq_count q' = bq_count q \<and>
     bq_quiting q' = bq_quiting q \<and> bq_over_write q' = bq_over_write q \<and>
     bq_count_map q' = bq_count_map q \<and> set (bq_posted q) \<subseteq> set (bq_posted q') \<and>
     (\<forall>r. bq_readers q' r = None \<longleftrightarrow> bq_readers q r = None) \<and>
     (\<forall>r x. bq_readers q' r = Some x \<longrightarrow> (\<exists>y. bq_readers q r = Some y \<and>
        (br_event y \<longrightarrow> br_event x) \<and> (br_quiting y \<longrightarrow> br_quiting x))) \<and>
     (\<forall>(r, kind, c) \<in> set cbs. \<exists>x. bq_readers q' r = Some x \<and> br_quiting x \<and>
        (kind = OnWaitReady \<longrightarrow> br_event x))"

lemma bulk_inv_posted [simp]: "bulk_inv (q\<lparr>bq_posted := ps\<rparr>) = bulk_inv q"
  by (simp add: bulk_inv_def queue_ok_def callbacks_ok_def)

lemma bulk_inv_quiting [simp]: "bulk_inv (q\<lparr>bq_quiting := b\<rparr>) = bulk_inv q"
  by (simp add: bulk_inv_def queue_ok_def callbacks_ok_def)

lemma run_ready_quit:
  assumes "bulk_inv q" and "bq_readers q r = Some x"
  shows "\<exists>q'. run_ready kind r True q = Inr q' \<and> bulk_inv q' \<and> quit_fired [(r, kind, c)] q q'"
proof -
  let ?q1 = "set_reader r (x\<lparr>br_quiting := True\<rparr>) q"
  have inv1: "bulk_inv ?q1" using bulk_inv_set_reader [OF assms] by simp
  have r1: "bq_readers ?q1 r = Some (x\<lparr>br_quiting := True\<rparr>)" by simp
  show ?thesis
  proof (cases kind)
    case OnWaitReady
    let ?q2 = "set_reader r (x\<lparr>br_quiting := True, br_event := True\<rparr>) ?q1"
    have "bulk_inv ?q2" using bulk_inv_set_reader [OF inv1 r1] by simp
    moreover have "run_ready kind r True q = Inr ?q2"
      using assms(2) by (simp add: run_ready_def the_reader_def OnWaitReady)
    moreover have "quit_fired [(r, kind, c)] q ?q2"
      using assms(2) by (auto simp: quit_fired_def)
    ultimately show ?thesis by blast
  next
    case OnBufferReady
    let ?q2 = "if br_have_data x then ?q1\<lparr>bq_posted := bq_posted ?q1 @ [r]\<rparr> else ?q1"
    have "bulk_inv ?q2" using inv1 by simp
    moreover have "run_ready kind r True q = Inr ?q2"
      using assms(2) by (simp add: run_ready_def the_reader_def OnBufferReady)
    moreover have "quit_fired [(r, kind, c)] q ?q2"
      using assms(2) by (auto simp: quit_fired_def OnBufferReady)
    ultimately show ?thesis by blast
  qed
qed

lemma quit_fired_Cons:
  assumes "quit_fired [cb] q q1" and "quit_fired cbs q1 q'"
  shows "quit_fired (cb # cbs) q q'"
proof -
  obtain r kind c where cb: "cb = (r, kind, c)" by (cases cb)
  obtain x where x: "bq_readers q1 r = Some x" "br_quiting x" "kind = OnWaitReady \<longrightarrow> br_event x"
    using assms(1) cb by (auto simp: quit_fired_def)
  then obtain y where y: "bq_readers q' r = Some y" using assms(2) by (cases "bq_readers q' r") (auto simp: quit_fired_def)
  then have "br_quiting y \<and> (kind = OnWaitReady \<longrightarrow> br_event y)"
    using assms(2) x by (fastforce simp: quit_fired_def)
  moreover have "\<exists>y. bq_readers q k = Some y \<and> (br_event y \<longrightarrow> br_event z) \<and> (br_quiting y \<longrightarrow> br_quiting z)"
    if "bq_readers q' k = Some z" for k z
    using that assms unfolding quit_fired_def by (metis (no_types, lifting))
  ultimately show ?thesis using assms y cb unfolding quit_fired_def by auto
qed

lemma quit_loop:
  assumes "bulk_inv q" and "set cbs \<subseteq> set (bq_callback_map q)"
  shows "\<exists>q'. for_each (\<lambda>(r, kind, _). run_ready kind r True) cbs q = Inr q' \<and> bulk_inv q' \<and>
    quit_fired cbs q q'"
  using assms
proof (induction cbs arbitrary: q)
  case Nil
  then show ?case by (auto simp: quit_fired_def)
next
  case (Cons cb cbs)
  obtain r kind c where cb: "cb = (r, kind, c)" by (cases cb)
  obtain x where "bq_readers q r = Some x"
    using Cons.prems cb by (fastforce simp: bulk_inv_def callbacks_ok_def)
  then obtain q1 where q1: "run_ready kind r True q = Inr q1" "bulk_inv q1" "quit_fired [cb] q q1"
    using run_ready_quit [OF Cons.prems(1)] cb by blast
  then have "set cbs \<subseteq> set (bq_callback_map q1)" using Cons.prems(2) by (simp add: quit_fired_def)
  then obtain q' where "for_each (\<lambda>(r, kind, _). run_ready kind r True) cbs q1 = Inr q'" "bulk_inv q'"
      "quit_fired cbs q1 q'"
    using Cons.IH [OF q1(2)] by blast
  moreover from this have "quit_fired (cb # cbs) q q'" using quit_fired_Cons q1(3) by blast
  ultimately show ?case using q1(1) cb by auto
qed

lemma queue_ok_last:
  assumes "queue_ok q" and "p \<in> set (bq_queue q)"
  shows "bp_count p \<le> bp_count (last (bq_queue q))"
proof -
  obtain xs y where xy: "bq_queue q = xs @ [y]" using assms(2) by (cases "bq_queue q" rule: rev_cases) auto
  then show ?thesis using assms by (auto simp: queue_ok_def sorted_wrt_append)
qed

text \<open>Firing up to the last bulk in the queue.\<close>

lemma FireCallback_ok:
  assumes inv: "bulk_inv q" and ne: "bq_queue q \<noteq> []" and reach: "reach = bp_count (last (bq_queue q))"
  shows "\<exists>q'. FireCallbackNoLock reach q = Inr q' \<and> bulk_inv q' \<and> none_missed q' \<and>
    (if bq_quiting q then quit_fired (bq_callback_map q) q q' else fired reach (bq_callback_map q) q q')"
proof (cases "bq_quiting q")
  case True
  obtain q' where "for_each (\<lambda>(r, kind, _). run_ready kind r True) (bq_callback_map q) q = Inr q'"
      "bulk_inv q'" "quit_fired (bq_callback_map q) q q'"
    using quit_loop [OF inv subset_refl] by blast
  moreover from this have "none_missed q'" using True by (simp add: quit_fired_def none_missed_def)
  ultimately show ?thesis using True by (simp add: FireCallbackNoLock_def)
next
  case False
  have "map_keys_ok (bq_callback_map q)" using inv by (simp add: bulk_inv_def callbacks_ok_def)
  moreover have "reachable_bulk reach q" using ne reach by (auto simp: reachable_bulk_def)
  ultimately obtain q' where q': "for_each (fire_one reach) (bq_callback_map q) q = Inr q'" "bulk_inv q'"
      "fired reach (bq_callback_map q) q q'"
    using fire_loop [OF inv subset_refl map_keys_ok_distinct] by blast
  have cbs: "set (bq_callback_map q') = {cb \<in> set (bq_callback_map q). \<not> (snd (snd cb) \<le> reach)}"
      "set (bq_queue q') \<subseteq> set (bq_queue q)"
    using q'(3) by (auto simp: fired_def)
  have "bp_count p \<le> reach" if "p \<in> set (bq_queue q')" for p
    using that cbs(2) queue_ok_last inv reach by (auto simp: bulk_inv_def)
  then have "none_missed q'" unfolding none_missed_def cbs(1) by fastforce
  with q' False show ?thesis by (simp add: FireCallbackNoLock_def)
qed

lemma MayFireCallback_ok:
  assumes "bulk_inv q" and "bq_queue q = [] \<Longrightarrow> none_missed q"
  shows "\<exists>q'. MayFireCallback q = Inr q' \<and> bulk_inv q' \<and> none_missed q'"
proof (cases "bq_queue q = []")
  case True
  then show ?thesis using assms by (simp add: MayFireCallback_def)
next
  case False
  then show ?thesis using FireCallback_ok [OF assms(1) False refl] by (auto simp: MayFireCallback_def)
qed

lemma none_missed_empty [simp]: "bq_queue q = [] \<Longrightarrow> none_missed q"
  by (auto simp: none_missed_def)

lemma none_missed_release [intro]: "none_missed q \<Longrightarrow> none_missed (MayReleaseBuffer q)"
  using MayReleaseBuffer_subset [of q] unfolding none_missed_def by fastforce

subsection \<open>Every operation keeps the invariant and asserts nothing\<close>

lemma PushBulk_ok:
  assumes "bulk_inv q"
  shows "\<exists>q'. PushBulk b q = Inr q' \<and> bulk_inv q' \<and> none_missed q' \<and> bq_count q' = bq_count q + 1 \<and>
    bq_quiting q' = bq_quiting q \<and>
    (\<not> bq_quiting q \<longrightarrow> (\<exists>q1 q2. fired (bq_count q) (bq_callback_map q) q1 q2 \<and> q' = MayReleaseBuffer q2 \<and>
       q1 = q\<lparr>bq_queue := bq_queue q @ [\<lparr>bp_bulk = b, bp_count = bq_count q\<rparr>], bq_count := bq_count q + 1\<rparr>))"
proof -
  let ?q1 = "q\<lparr>bq_queue := bq_queue q @ [\<lparr>bp_bulk = b, bp_count = bq_count q\<rparr>], bq_count := bq_count q + 1\<rparr>"
  have inv1: "bulk_inv ?q1"
    using assms by (fastforce simp: bulk_inv_def queue_ok_def readers_ok_def callbacks_ok_def sorted_wrt_append)
  have last1: "bq_count q = bp_count (last (bq_queue ?q1))" by simp
  obtain q2 where q2: "FireCallbackNoLock (bq_count q) ?q1 = Inr q2" "bulk_inv q2" "none_missed q2"
      "if bq_quiting q then quit_fired (bq_callback_map q) ?q1 q2 else fired (bq_count q) (bq_callback_map q) ?q1 q2"
    using FireCallback_ok [OF inv1 _ last1] by (simp cong: if_cong) metis
  then have "bq_count q2 = bq_count q + 1" "bq_quiting q2 = bq_quiting q"
    by (auto simp: quit_fired_def fired_def split: if_splits)
  moreover have "PushBulk b q = Inr (MayReleaseBuffer q2)"
    using q2(1) by (simp add: PushBulk_def CountNoLock_def Let_def)
  moreover have "bulk_inv (MayReleaseBuffer q2)" "none_missed (MayReleaseBuffer q2)"
    using q2(2,3) by (auto intro: bulk_inv_MayReleaseBuffer)
  ultimately show ?thesis using q2(4) by (cases "bq_quiting q") auto
qed

lemma Quit_ok:
  assumes "bulk_inv q" and "\<not> bq_quiting q"
  shows "\<exists>q'. Quit q = Inr q' \<and> bulk_inv q' \<and> none_missed q'"
  using MayFireCallback_ok [of "q\<lparr>bq_quiting := True\<rparr>"] assms by (simp add: Quit_def)

lemma tl_subset: "set (tl xs) \<subseteq> set xs"
  by (cases xs) auto

lemma sorted_append_tl: "sorted_wrt R (map f (xs @ ys)) \<Longrightarrow> sorted_wrt R (map f (xs @ tl ys))"
  by (cases ys) (auto simp: sorted_wrt_append)

lemma RecycleOne_ok:
  assumes "bulk_inv q" and "none_missed q" and "bq_over_write q"
  shows "\<exists>res q'. RecycleOne q = Inr (res, q') \<and> bulk_inv q' \<and> none_missed q'"
proof -
  have sub: "bulk_inv (q\<lparr>bq_queue := takeWhile P (bq_queue q) @ tl (dropWhile P (bq_queue q))\<rparr>) \<and>
      none_missed (q\<lparr>bq_queue := takeWhile P (bq_queue q) @ tl (dropWhile P (bq_queue q))\<rparr>)" for P
  proof -
    have split: "bq_queue q = takeWhile P (bq_queue q) @ dropWhile P (bq_queue q)" by simp
    have tl: "set (tl (dropWhile P (bq_queue q))) \<subseteq> set (dropWhile P (bq_queue q))"
      by (rule tl_subset)
    have "sorted_wrt (<) (map bp_count (takeWhile P (bq_queue q) @ dropWhile P (bq_queue q)))"
      using assms(1) by (simp add: bulk_inv_def queue_ok_def)
    then have "sorted_wrt (<) (map bp_count (takeWhile P (bq_queue q) @ tl (dropWhile P (bq_queue q))))"
      by (rule sorted_append_tl)
    moreover have "set (takeWhile P (bq_queue q) @ tl (dropWhile P (bq_queue q))) \<subseteq> set (bq_queue q)"
      using tl by (auto dest: set_takeWhileD set_dropWhileD)
    ultimately show ?thesis
      using assms(1,2) unfolding bulk_inv_def queue_ok_def none_missed_def readers_ok_def callbacks_ok_def
      by (auto simp del: map_append) blast+
  qed
  show ?thesis using assms sub by (auto simp: RecycleOne_def Let_def)
qed

lemma RegisterReader_ok:
  assumes inv: "bulk_inv q" and new: "map_of (bq_count_map q) r = None"
  shows "\<exists>q'. Reader_new r h q = Inr q' \<and> bulk_inv q' \<and> (none_missed q \<longrightarrow> none_missed q')"
proof -
  let ?cm = "map_put r (-1) (bq_count_map q)"
  have ok: "readers_ok q" "map_keys_ok (bq_count_map q)" using inv by (simp_all add: bulk_inv_def readers_ok_def)
  have rnew: "{x \<in> set (bq_count_map q). fst x \<noteq> r} = set (bq_count_map q)"
    using new by (auto simp: map_of_eq_None_iff rev_image_eqI)
  have set: "set ?cm = insert (r, -1) (set (bq_count_map q))" using set_map_put [OF ok(2)] rnew by simp
  define mn where "mn = (if bq_count_map q = [] then -1 else min (bq_reader_min q) (-1))"
  define mx where "mx = (if bq_count_map q = [] then -1 else max (bq_reader_max q) (-1))"
  define q1 where "q1 = q\<lparr>bq_count_map := ?cm, bq_reader_min := mn, bq_reader_max := mx\<rparr>"
  have reg: "RegisterReader r 0 q = Inr q1"
    using new unfolding RegisterReader_def int32_of_def in_int32_def
    by (simp add: Let_def q1_def mn_def mx_def min_def max_def)
  define x where "x = \<lparr>br_count = 0, br_event = False, br_quiting = False, br_have_data = h,
      br_temp_ptr = None :: 'a option, br_temp_count = 0xdeadbeef\<rparr>"
  have cbnew: "map_of (bq_callback_map q) r = None"
    using inv new by (fastforce simp: bulk_inv_def callbacks_ok_def map_of_eq_None_iff)
  have mm: "mn = Min (snd ` set ?cm) \<and> mx = Max (snd ` set ?cm)"
  proof (cases "bq_count_map q = []")
    case False
    then have "snd ` set (bq_count_map q) \<noteq> {}" by simp
    then show ?thesis using ok(1) False unfolding set mn_def mx_def readers_ok_def image_insert
      by (simp only: Min_insert Max_insert finite_imageI finite_set snd_conv) (simp add: min.commute max.commute)
  qed (simp add: mn_def mx_def)
  have "readers_ok (set_reader r x q1)"
    using ok mm map_keys_ok_put [OF ok(2), of r "-1"] new inv
    unfolding readers_ok_def q1_def
    by (auto simp: set x_def bulk_inv_def queue_ok_def map_of_eq_None_iff rev_image_eqI)
  moreover have "callbacks_ok (set_reader r x q1)"
    using inv cbnew unfolding bulk_inv_def callbacks_ok_def q1_def
    by (auto simp: map_of_eq_None_iff set_map_put_keys rev_image_eqI)
  moreover have "queue_ok (set_reader r x q1)" using inv by (simp add: bulk_inv_def queue_ok_def q1_def)
  moreover have "Reader_new r h q = Inr (set_reader r x q1)" using reg by (simp add: Reader_new_def x_def)
  ultimately show ?thesis by (auto simp: bulk_inv_def none_missed_def q1_def)
qed

lemma callbacks_ok_other:
  assumes "callbacks_ok q" and "bq_callback_map q' = bq_callback_map q"
    and "map_of (bq_callback_map q) r = None"
    and "\<And>k. k \<noteq> r \<Longrightarrow> map_of (bq_count_map q) k \<noteq> None \<Longrightarrow> map_of (bq_count_map q') k \<noteq> None"
    and "\<And>k. k \<noteq> r \<Longrightarrow> bq_readers q' k = bq_readers q k"
  shows "callbacks_ok q'"
  unfolding callbacks_ok_def
proof (intro conjI ballI)
  show "map_keys_ok (bq_callback_map q')" using assms(1,2) by (simp add: callbacks_ok_def)
next
  fix cb assume cb: "cb \<in> set (bq_callback_map q')"
  obtain k kind c where kc: "cb = (k, kind, c)" by (cases cb)
  then have "k \<noteq> r" using cb assms(2,3) by (auto simp: map_of_eq_None_iff rev_image_eqI)
  moreover have "map_of (bq_count_map q) k \<noteq> None" "\<exists>x. bq_readers q k = Some x \<and> br_count x = c"
    using assms(1,2) cb kc unfolding callbacks_ok_def by auto
  ultimately show "case cb of (k, kind, c) \<Rightarrow> map_of (bq_count_map q') k \<noteq> None \<and>
      (\<exists>x. bq_readers q' k = Some x \<and> br_count x = c)"
    using assms(4,5) kc by simp
qed

lemma CancelCallback_ok:
  assumes "bulk_inv q"
  shows "bulk_inv (snd (CancelCallback r q)) \<and> (none_missed q \<longrightarrow> none_missed (snd (CancelCallback r q))) \<and>
    map_of (bq_callback_map (snd (CancelCallback r q))) r = None \<and>
    bq_count_map (snd (CancelCallback r q)) = bq_count_map q \<and>
    bq_readers (snd (CancelCallback r q)) = bq_readers q"
  using assms map_keys_ok_erase
  by (auto simp: CancelCallback_def bulk_inv_def callbacks_ok_def queue_ok_def none_missed_def
      set_map_erase map_of_erase split: option.split)

lemma Reader_destroy_ok:
  assumes inv: "bulk_inv q" and reg: "map_of (bq_count_map q) r \<noteq> None"
  shows "\<exists>q'. Reader_destroy r q = Inr q' \<and> bulk_inv q' \<and> (none_missed q \<longrightarrow> none_missed q')"
proof -
  define q0 where "q0 = snd (CancelCallback r q)"
  have q0: "bulk_inv q0" "none_missed q \<longrightarrow> none_missed q0" "map_of (bq_callback_map q0) r = None"
      "bq_count_map q0 = bq_count_map q"
    using CancelCallback_ok [OF inv, of r] by (simp_all add: q0_def)
  let ?cm = "map_erase r (bq_count_map q0)"
  define mn where "mn = (if ?cm = [] then bq_reader_min q0 else min_from (snd (hd ?cm)) ?cm)"
  define mx where "mx = (if ?cm = [] then bq_reader_max q0 else max_from (snd (hd ?cm)) ?cm)"
  define q1 where "q1 = q0\<lparr>bq_count_map := ?cm, bq_reader_min := mn, bq_reader_max := mx\<rparr>"
  have un: "UnRegisterReader r q0 = Inr q1"
    using reg q0(4) by (cases ?cm) (auto simp: UnRegisterReader_def Let_def q1_def mn_def mx_def)
  define q' where "q' = q1\<lparr>bq_readers := (bq_readers q1)(r := None)\<rparr>"
  have "?cm \<noteq> [] \<Longrightarrow> insert (snd (hd ?cm)) (snd ` set ?cm) = snd ` set ?cm"
    by (simp add: insert_absorb)
  then have "?cm \<noteq> [] \<longrightarrow> mn = Min (snd ` set ?cm) \<and> mx = Max (snd ` set ?cm)"
    by (simp add: mn_def mx_def min_from_Min max_from_Max)
  moreover have "map_keys_ok ?cm" using q0(1) by (simp add: bulk_inv_def readers_ok_def map_keys_ok_erase)
  moreover have "k \<noteq> r \<and> -1 \<le> v \<and> v < bq_count q0 \<and> (\<exists>x. bq_readers q0 k = Some x \<and> v < br_count x)"
    if "(k, v) \<in> set ?cm" for k v
    using that readers_okD [of q0 k v] q0(1) by (simp add: bulk_inv_def set_map_erase)
  ultimately have "readers_ok q'"
    unfolding readers_ok_def q'_def q1_def by (auto simp: fun_upd_def)
  moreover have "callbacks_ok q'"
    by (rule callbacks_ok_other [OF _ _ q0(3)])
      (use q0(1) in \<open>simp_all add: bulk_inv_def q'_def q1_def map_of_erase\<close>)
  moreover have "queue_ok q'" using q0(1) by (simp add: bulk_inv_def queue_ok_def q'_def q1_def)
  moreover have "Reader_destroy r q = Inr q'"
    using un by (simp add: Reader_destroy_def q0_def q'_def)
  ultimately show ?thesis using q0(2) by (auto simp: bulk_inv_def none_missed_def q'_def q1_def)
qed

lemma read_state_ok:
  assumes inv: "bulk_inv q" and v: "map_of (bq_count_map q) r = Some v" and x: "bq_readers q r = Some x"
    and p: "p \<in> set (bq_queue q)" "br_count x \<le> bp_count p"
    and idle: "map_of (bq_callback_map q) r = None" and x': "br_count x' = bp_count p + 1"
  defines "q' \<equiv> set_reader r x' (MayReleaseBuffer (read_to r (bp_count p) q))"
  shows "bulk_inv q' \<and> (none_missed q \<longrightarrow> none_missed q')"
proof -
  have ok: "queue_ok q" "readers_ok q" "callbacks_ok q" using inv by (simp_all add: bulk_inv_def)
  have "v < br_count x" using ok(2) map_of_SomeD [OF v] x by (auto simp: readers_ok_def)
  moreover have "bp_count p < bq_count q" using ok(1) p(1) by (auto simp: queue_ok_def)
  ultimately have "readers_ok (set_reader r x' (read_to r (bp_count p) q))"
    using readers_ok_read_to [OF ok(2) v] p(2) x' by simp
  then have "readers_ok q'" by (simp add: q'_def readers_ok_def)
  moreover have "queue_ok (read_to r (bp_count p) q)" using ok(1) by (simp add: queue_ok_def)
  then have "queue_ok (MayReleaseBuffer (read_to r (bp_count p) q))" by (rule queue_ok_MayReleaseBuffer)
  then have "queue_ok q'" by (simp add: q'_def queue_ok_def)
  moreover have "callbacks_ok q'"
    by (rule callbacks_ok_other [OF ok(3) _ idle]) (simp_all add: q'_def map_of_map_put_None)
  moreover have "none_missed q'" if "none_missed q"
    by (rule none_missed_subset [OF that])
      (use MayReleaseBuffer_subset [of "read_to r (bp_count p) q"] in \<open>simp_all add: q'_def\<close>)
  ultimately show ?thesis by (simp add: bulk_inv_def)
qed

text \<open>A reader that is registered and has no callback pending.\<close>

definition idle_reader :: "ptr \<Rightarrow> 'b SequencedBulkQueue \<Rightarrow> bool" where
  "idle_reader r q \<longleftrightarrow>
     map_of (bq_count_map q) r \<noteq> None \<and> map_of (bq_callback_map q) r = None"

lemma registered_reader:
  assumes "bulk_inv q" and "map_of (bq_count_map q) r \<noteq> None"
  obtains v x where "map_of (bq_count_map q) r = Some v" and "bq_readers q r = Some x"
proof -
  obtain v where v: "map_of (bq_count_map q) r = Some v" using assms(2) by auto
  then show ?thesis
    using that assms(1) map_of_SomeD [OF v] by (auto simp: bulk_inv_def readers_ok_def)
qed

lemma GetBulkSameThread_ok:
  assumes inv: "bulk_inv q" and idle: "idle_reader r q" and x: "bq_readers q r = Some x"
  shows "\<exists>res q'. GetBulkSameThread r q = Inr (res, q') \<and> bulk_inv q' \<and> (none_missed q \<longrightarrow> none_missed q') \<and>
    (case res of
       None \<Rightarrow> q' = q \<and> (\<forall>p \<in> set (bq_queue q). bp_count p < br_count x)
     | Some (b, n) \<Rightarrow> \<exists>p \<in> set (bq_queue q). bp_bulk p = b \<and> bp_count p = n \<and> br_count x \<le> n \<and>
         (\<forall>p' \<in> set (bq_queue q). br_count x \<le> bp_count p' \<longrightarrow> n \<le> bp_count p') \<and>
         q' = set_reader r (x\<lparr>br_count := n + 1\<rparr>) (MayReleaseBuffer (read_to r n q)))"
proof -
  obtain v where v: "map_of (bq_count_map q) r = Some v" using idle by (auto simp: idle_reader_def)
  show ?thesis
  proof (cases "find (\<lambda>p. br_count x \<le> bp_count p) (bq_queue q)")
    case None
    then have "\<forall>p \<in> set (bq_queue q). bp_count p < br_count x" by (auto simp: find_None_iff)
    moreover have "GetBulkSameThread r q = Inr (None, q)"
      using None x by (simp add: GetBulkSameThread_def the_reader_def GetBulkNoLock_def FindBulk_def)
    ultimately show ?thesis using inv by auto
  next
    case (Some p)
    note p = find_SomeD [OF Some]
    let ?q' = "set_reader r (x\<lparr>br_count := bp_count p + 1\<rparr>) (MayReleaseBuffer (read_to r (bp_count p) q))"
    have "GetBulkSameThread r q = Inr (Some (bp_bulk p, bp_count p), ?q')"
      using x p by (simp add: GetBulkSameThread_def the_reader_def GetBulkNoLock_found [OF inv v x Some])
    moreover have "bulk_inv ?q' \<and> (none_missed q \<longrightarrow> none_missed ?q')"
      using read_state_ok [OF inv v x] p idle by (simp add: idle_reader_def)
    moreover have "bp_count p \<le> bp_count p'"
      if "p' \<in> set (bq_queue q)" "br_count x \<le> bp_count p'" for p'
    proof -
      have "sorted_wrt (<) (map bp_count (bq_queue q))" using inv by (simp add: bulk_inv_def queue_ok_def)
      then show ?thesis using find_least [OF _ Some] that by blast
    qed
    ultimately show ?thesis using p by auto
  qed
qed

lemma CheckReady_ok:
  assumes inv: "bulk_inv q" and idle: "idle_reader r q" and x: "bq_readers q r = Some x"
  shows "\<exists>ready q'. CheckReady r (br_count x) q = Inr (ready, q') \<and> bulk_inv q' \<and>
    (none_missed q \<longrightarrow> none_missed q') \<and>
    (if ready then (\<exists>p y. p \<in> set (bq_queue q) \<and> br_count x \<le> bp_count p \<and> bq_readers q' r = Some y \<and>
         br_temp_ptr y = Some (bp_bulk p) \<and> br_temp_count y = bp_count p \<and> br_count y = bp_count p + 1)
     else q' = q \<and> (\<forall>p \<in> set (bq_queue q). bp_count p < br_count x))"
proof -
  obtain v where v: "map_of (bq_count_map q) r = Some v" using idle by (auto simp: idle_reader_def)
  have ok: "queue_ok q" using inv by (simp add: bulk_inv_def)
  show ?thesis
  proof (cases "bq_queue q \<noteq> [] \<and> br_count x \<le> bp_count (last (bq_queue q))")
    case True
    then have "last (bq_queue q) \<in> set (bq_queue q)" by simp
    then obtain p where p: "find (\<lambda>p. br_count x \<le> bp_count p) (bq_queue q) = Some p"
      using True find_sorted [of "bq_queue q" "br_count x" bp_count] by blast
    note pin = find_SomeD [OF p]
    have "br_count x \<le> CountNoLock q" using pin ok by (auto simp: queue_ok_def CountNoLock_def)
    then have "CheckReady r (br_count x) q = Inr (True, set_reader r
       (x\<lparr>br_temp_ptr := Some (bp_bulk p), br_temp_count := bp_count p, br_count := bp_count p + 1\<rparr>)
       (MayReleaseBuffer (read_to r (bp_count p) q)))"
      using True by (simp add: CheckReady_def Reader_GetBulk_found [OF inv v x p])
    moreover note read_state_ok [OF inv v x, of p
        "x\<lparr>br_temp_ptr := Some (bp_bulk p), br_temp_count := bp_count p, br_count := bp_count p + 1\<rparr>"]
    ultimately show ?thesis using pin idle by (auto simp: idle_reader_def)
  next
    case False
    then have "\<forall>p \<in> set (bq_queue q). bp_count p < br_count x"
      using queue_ok_last [OF ok] by (cases "bq_queue q = []") fastforce+
    moreover have "CheckReady r (br_count x) q = Inr (False, q)" using False by (auto simp: CheckReady_def)
    ultimately show ?thesis using inv by (intro exI [of _ False] exI [of _ q]) simp
  qed
qed

lemma SetReadyCallback_ok:
  assumes inv: "bulk_inv q" and idle: "idle_reader r q" and x: "bq_readers q r = Some x"
    and none: "\<forall>p \<in> set (bq_queue q). bp_count p < br_count x"
  shows "\<exists>q'. SetReadyCallback r kind (br_count x) q = Inr q' \<and> bulk_inv q' \<and> none_missed q'"
proof -
  let ?q1 = "q\<lparr>bq_callback_map := map_put r (kind, br_count x) (bq_callback_map q)\<rparr>"
  have ok: "map_keys_ok (bq_callback_map q)" using inv by (simp add: bulk_inv_def callbacks_ok_def)
  have "\<forall>cb \<in> set (bq_callback_map q). case cb of (k, _, c) \<Rightarrow>
      map_of (bq_count_map q) k \<noteq> None \<and> (\<exists>x. bq_readers q k = Some x \<and> br_count x = c)"
    using inv by (simp add: bulk_inv_def callbacks_ok_def)
  then have "callbacks_ok ?q1"
    using map_keys_ok_put [OF ok, of r "(kind, br_count x)"] idle x
    unfolding callbacks_ok_def by (auto simp: set_map_put [OF ok] idle_reader_def)
  then have "bulk_inv ?q1" using inv by (simp add: bulk_inv_def queue_ok_def)
  then obtain q' where "MayFireCallback ?q1 = Inr q'" "bulk_inv q'" "none_missed q'"
    using MayFireCallback_ok [of ?q1] by auto
  moreover have "insert_callback r kind (br_count x) q = Inr ?q1"
    using idle by (simp add: insert_callback_def idle_reader_def)
  ultimately show ?thesis by (simp add: SetReadyCallback_def)
qed

lemma Wait_begin_ok:
  assumes inv: "bulk_inv q" "none_missed q" and idle: "idle_reader r q" and x: "bq_readers q r = Some x"
    and "\<not> br_quiting x"
  shows "\<exists>ready q'. Wait_begin r q = Inr (ready, q') \<and> bulk_inv q' \<and> none_missed q'"
    and "\<exists>q'. CallbackOnReady r q = Inr q' \<and> bulk_inv q' \<and> none_missed q'"
proof -
  obtain ready q1 where q1: "CheckReady r (br_count x) q = Inr (ready, q1)" "bulk_inv q1" "none_missed q1"
      "\<not> ready \<longrightarrow> q1 = q \<and> (\<forall>p \<in> set (bq_queue q). bp_count p < br_count x)"
    using CheckReady_ok [OF inv(1) idle x] inv(2) by (metis (full_types))
  have set: "\<exists>q'. SetReadyCallback r kind (br_count x) q1 = Inr q' \<and> bulk_inv q' \<and> none_missed q'"
    if "\<not> ready" for kind
    using SetReadyCallback_ok [OF inv(1) idle x] q1(4) that by simp
  show "\<exists>ready q'. Wait_begin r q = Inr (ready, q') \<and> bulk_inv q' \<and> none_missed q'"
    using x assms(5) q1 set [of OnWaitReady] by (cases ready) (auto simp: Wait_begin_def the_reader_def)
  have "none_missed (q1\<lparr>bq_posted := ps\<rparr>)" for ps
    by (rule none_missed_subset [OF q1(3)]) simp_all
  then show "\<exists>q'. CallbackOnReady r q = Inr q' \<and> bulk_inv q' \<and> none_missed q'"
    using x assms(5) q1 set [of OnBufferReady] by (cases ready) (auto simp: CallbackOnReady_def the_reader_def)
qed

lemma set_reader_ok:
  assumes "bulk_inv q" and "none_missed q" and "bq_readers q r = Some x" and "br_count x' = br_count x"
  shows "bulk_inv (set_reader r x' q) \<and> none_missed (set_reader r x' q)"
  using bulk_inv_set_reader [OF assms(1,3,4)] none_missed_subset [OF assms(2), of "set_reader r x' q"] by simp

subsection \<open>All histories\<close>

text \<open>
  The operations of the queue's clients.  \<open>bq_allowed\<close> is the discipline they keep: a reader
  is made once, used while it is registered, and not used while it waits; no wait starts
  after the reader was told to quit; a thread that waits for its event goes on when the event
  is signaled, or, in the timed wait, when it can cancel its callback.
\<close>

datatype 'b bq_op =
    Push 'b
  | NewReader ptr bool
  | DestroyReader ptr
  | GetSame ptr
  | WaitBegin ptr
  | WaitEnd ptr
  | TimeoutEnd ptr
  | WaitBackOp ptr
  | AsyncWait ptr
  | Recycle
  | QuitOp
  | SkipOp ptr int

definition signaled :: "ptr \<Rightarrow> 'b SequencedBulkQueue \<Rightarrow> bool" where
  "signaled r q \<longleftrightarrow> (case bq_readers q r of None \<Rightarrow> False | Some x \<Rightarrow> br_event x)"

definition told_quit :: "ptr \<Rightarrow> 'b SequencedBulkQueue \<Rightarrow> bool" where
  "told_quit r q \<longleftrightarrow> (case bq_readers q r of None \<Rightarrow> False | Some x \<Rightarrow> br_quiting x)"

fun bq_allowed :: "'b bq_op \<Rightarrow> 'b SequencedBulkQueue \<Rightarrow> bool" where
  "bq_allowed (Push b) q \<longleftrightarrow> True"
| "bq_allowed (NewReader r h) q \<longleftrightarrow> map_of (bq_count_map q) r = None"
| "bq_allowed (DestroyReader r) q \<longleftrightarrow> map_of (bq_count_map q) r \<noteq> None"
| "bq_allowed (GetSame r) q \<longleftrightarrow> idle_reader r q"
| "bq_allowed (WaitBegin r) q \<longleftrightarrow> idle_reader r q \<and> \<not> told_quit r q"
| "bq_allowed (WaitEnd r) q \<longleftrightarrow> map_of (bq_count_map q) r \<noteq> None \<and> signaled r q"
| "bq_allowed (TimeoutEnd r) q \<longleftrightarrow> map_of (bq_count_map q) r \<noteq> None \<and>
     (signaled r q \<or> map_of (bq_callback_map q) r \<noteq> None)"
| "bq_allowed (WaitBackOp r) q \<longleftrightarrow> map_of (bq_count_map q) r \<noteq> None \<and>
     (signaled r q \<or> map_of (bq_callback_map q) r \<noteq> None)"
| "bq_allowed (AsyncWait r) q \<longleftrightarrow> idle_reader r q \<and> \<not> told_quit r q"
| "bq_allowed Recycle q \<longleftrightarrow> bq_over_write q"
| "bq_allowed QuitOp q \<longleftrightarrow> \<not> bq_quiting q"
| "bq_allowed (SkipOp r n) q \<longleftrightarrow> idle_reader r q \<and> 0 \<le> n"

fun bq_exec :: "'b bq_op \<Rightarrow> 'b SequencedBulkQueue \<Rightarrow> 'b SequencedBulkQueue res" where
  "bq_exec (Push b) q = PushBulk b q"
| "bq_exec (NewReader r h) q = Reader_new r h q"
| "bq_exec (DestroyReader r) q = Reader_destroy r q"
| "bq_exec (GetSame r) q = and_then (GetBulkSameThread r q) (\<lambda>(_, q'). Inr q')"
| "bq_exec (WaitBegin r) q = and_then (Wait_begin r q) (\<lambda>(_, q'). Inr q')"
| "bq_exec (WaitEnd r) q = and_then (WaitForReady_end r q) (\<lambda>(_, q'). Inr q')"
| "bq_exec (TimeoutEnd r) q = and_then (WaitTimeoutForReady_end r q) (\<lambda>(_, q'). Inr q')"
| "bq_exec (WaitBackOp r) q = and_then (WaitBack r q) (\<lambda>(_, q'). Inr q')"
| "bq_exec (AsyncWait r) q = CallbackOnReady r q"
| "bq_exec Recycle q = and_then (RecycleOne q) (\<lambda>(_, q'). Inr q')"
| "bq_exec QuitOp q = Quit q"
| "bq_exec (SkipOp r n) q = Skip r n q"

lemma Skip_ok:
  assumes inv: "bulk_inv q" "none_missed q" and idle: "idle_reader r q" and "0 \<le> n"
  shows "\<exists>q'. Skip r n q = Inr q' \<and> bulk_inv q' \<and> none_missed q'"
proof -
  obtain v x where v: "map_of (bq_count_map q) r = Some v" and x: "bq_readers q r = Some x"
    using registered_reader [OF inv(1)] idle by (metis idle_reader_def)
  let ?q' = "set_reader r (x\<lparr>br_count := br_count x + n\<rparr>) q"
  have ok: "queue_ok q" "readers_ok q" "callbacks_ok q" using inv(1) by (simp_all add: bulk_inv_def)
  have "\<exists>y. bq_readers ?q' k = Some y \<and> w < br_count y" if "(k, w) \<in> set (bq_count_map q)" for k w
    using readers_okD [OF ok(2) that] x assms(4) by auto
  then have "readers_ok ?q'" using ok(2) unfolding readers_ok_def set_reader_fields by blast
  moreover have "callbacks_ok ?q'"
    by (rule callbacks_ok_other [OF ok(3)]) (use idle in \<open>auto simp: idle_reader_def\<close>)
  moreover have "queue_ok ?q'" using ok(1) by (simp add: queue_ok_def)
  moreover have "none_missed ?q'" by (rule none_missed_subset [OF inv(2)]) simp_all
  ultimately show ?thesis using x by (simp add: Skip_def the_reader_def bulk_inv_def)
qed

lemma bq_exec_ok:
  assumes inv: "bulk_inv q" "none_missed q" and al: "bq_allowed a q"
  shows "\<exists>q'. bq_exec a q = Inr q' \<and> bulk_inv q' \<and> none_missed q'"
proof (cases a)
  case (Push b)
  then show ?thesis using PushBulk_ok [OF inv(1), of b] by auto
next
  case (NewReader r h)
  then show ?thesis using RegisterReader_ok [OF inv(1)] inv(2) al by auto
next
  case (DestroyReader r)
  then show ?thesis using Reader_destroy_ok [OF inv(1)] inv(2) al by auto
next
  case (GetSame r)
  then have idle: "idle_reader r q" using al by simp
  then obtain x where "bq_readers q r = Some x"
    using registered_reader [OF inv(1)] by (metis idle_reader_def)
  then obtain res q' where "GetBulkSameThread r q = Inr (res, q')" "bulk_inv q'" "none_missed q'"
    using GetBulkSameThread_ok [OF inv(1) idle] inv(2) by metis
  then show ?thesis using GetSame by simp
next
  case (WaitBegin r)
  then have idle: "idle_reader r q" and nq: "\<not> told_quit r q" using al by simp_all
  obtain x where x: "bq_readers q r = Some x"
    using registered_reader [OF inv(1)] idle by (metis idle_reader_def)
  then have "\<not> br_quiting x" using nq by (simp add: told_quit_def)
  then obtain b q' where "Wait_begin r q = Inr (b, q')" "bulk_inv q'" "none_missed q'"
    using Wait_begin_ok(1) [OF inv idle x] by blast
  then show ?thesis using WaitBegin by simp
next
  case (AsyncWait r)
  then have idle: "idle_reader r q" and nq: "\<not> told_quit r q" using al by simp_all
  obtain x where x: "bq_readers q r = Some x"
    using registered_reader [OF inv(1)] idle by (metis idle_reader_def)
  then have "\<not> br_quiting x" using nq by (simp add: told_quit_def)
  then show ?thesis using Wait_begin_ok(2) [OF inv idle x] AsyncWait by simp
next
  case (WaitEnd r)
  then obtain x where "bq_readers q r = Some x" "br_event x"
    using al by (auto simp: signaled_def split: option.splits)
  then show ?thesis
    using set_reader_ok [OF inv] WaitEnd by (simp add: WaitForReady_end_def the_reader_def)
next
  case (TimeoutEnd r)
  then obtain x where x: "bq_readers q r = Some x"
    using registered_reader [OF inv(1)] al by (metis bq_allowed.simps(7))
  show ?thesis
  proof (cases "br_event x")
    case True
    then show ?thesis
      using set_reader_ok [OF inv x] x TimeoutEnd
      by (simp add: WaitTimeoutForReady_end_def WaitForReady_end_def the_reader_def)
  next
    case False
    then have "fst (CancelCallback r q)"
      using al TimeoutEnd x by (auto simp: signaled_def CancelCallback_def)
    then show ?thesis
      using False CancelCallback_ok [OF inv(1), of r] inv(2) x TimeoutEnd
      by (cases "CancelCallback r q") (auto simp: WaitTimeoutForReady_end_def the_reader_def)
  qed
next
  case (WaitBackOp r)
  then obtain x where x: "bq_readers q r = Some x"
    using registered_reader [OF inv(1)] al by (metis bq_allowed.simps(8))
  let ?q1 = "snd (CancelCallback r q)"
  have q1: "bulk_inv ?q1" "none_missed ?q1" "bq_readers ?q1 r = Some x"
    using CancelCallback_ok [OF inv(1), of r] inv(2) x by simp_all
  have "fst (CancelCallback r q) \<or> br_event x"
    using al WaitBackOp x by (auto simp: signaled_def CancelCallback_def)
  then show ?thesis
    using set_reader_ok [OF q1] q1(3) WaitBackOp
    by (cases "CancelCallback r q"; cases "fst (CancelCallback r q)") (auto simp: WaitBack_def the_reader_def)
next
  case Recycle
  then show ?thesis using RecycleOne_ok [OF inv] al by auto
next
  case QuitOp
  then show ?thesis using Quit_ok [OF inv(1)] al by auto
next
  case (SkipOp r n)
  then show ?thesis using Skip_ok [OF inv] al by auto
qed

text \<open>The states that disciplined clients reach.\<close>

inductive bq_reach :: "'b SequencedBulkQueue \<Rightarrow> bool" where
  init: "bq_reach (SequencedBulkQueue_new over_write keep)"
| step: "bq_reach q \<Longrightarrow> bq_allowed a q \<Longrightarrow> bq_exec a q = Inr q' \<Longrightarrow> bq_reach q'"

lemma bq_init_ok:
  "bulk_inv (SequencedBulkQueue_new ow k) \<and> none_missed (SequencedBulkQueue_new ow k)"
  by (simp add: bulk_inv_def queue_ok_def readers_ok_def callbacks_ok_def SequencedBulkQueue_new_def)

lemma bq_reach_inv: "bq_reach q \<Longrightarrow> bulk_inv q \<and> none_missed q"
proof (induction rule: bq_reach.induct)
  case (init ow k)
  then show ?case by (rule bq_init_ok)
next
  case (step q a q')
  then show ?case using bq_exec_ok [of q a] by auto
qed

subsection \<open>Delivery without loss\<close>

text \<open>
  While nothing is recycled the queue is an unbroken run of numbers up to the last bulk
  pushed.  A reader has everything still to come when the run starts no later than the bulk
  after the last one it read.
\<close>

definition contiguous :: "'b SequencedBulkQueue \<Rightarrow> bool" where
  "contiguous q \<longleftrightarrow>
     map bp_count (bq_queue q) = [bq_count q - int (length (bq_queue q)) .. bq_count q - 1]"

lemma contiguous_member:
  "contiguous q \<Longrightarrow> (\<exists>p \<in> set (bq_queue q). bp_count p = n) \<longleftrightarrow>
     bq_count q - int (length (bq_queue q)) \<le> n \<and> n \<le> bq_count q - 1"
proof -
  assume "contiguous q"
  then have "bp_count ` set (bq_queue q) = {bq_count q - int (length (bq_queue q)) .. bq_count q - 1}"
    unfolding contiguous_def by (metis set_map set_upto)
  then show ?thesis by (metis (no_types, lifting) atLeastAtMost_iff image_iff)
qed

lemma contiguous_suffix:
  assumes "map f xs = [a..b]" and "xs = ys @ zs"
  shows "map f zs = [b - int (length zs) + 1 .. b]"
proof -
  have len: "length xs = nat (b - a + 1)" using arg_cong [OF assms(1), of length] by simp
  have "map f zs = drop (length ys) [a..b]" using assms(1) by (simp add: assms(2) flip: assms(1))
  also have "\<dots> = [b - int (length zs) + 1 .. b]"
  proof (rule nth_equalityI)
    show "length (drop (length ys) [a..b]) = length [b - int (length zs) + 1 .. b]"
      using len assms(2) by simp
  next
    fix i assume i: "i < length (drop (length ys) [a..b])"
    then have "a + int (length ys) + int i \<le> b" by simp
    moreover have "int (length ys) + int (length zs) = b - a + 1"
      using len assms(2) i by simp
    ultimately show "drop (length ys) [a..b] ! i = [b - int (length zs) + 1 .. b] ! i" by simp
  qed
  finally show ?thesis .
qed

lemma dropWhile_suffix: "\<exists>ys. xs = ys @ dropWhile P xs"
  by (rule exI [of _ "takeWhile P xs"]) simp

lemma contiguous_release:
  assumes "contiguous q" shows "contiguous (MayReleaseBuffer q)"
proof -
  have "\<exists>ys. bq_queue q = ys @ bq_queue (MayReleaseBuffer q)"
    using dropWhile_suffix [of "bq_queue q"] by (auto simp: MayReleaseBuffer_def Let_def)
  then obtain ys where "bq_queue q = ys @ bq_queue (MayReleaseBuffer q)" by blast
  from contiguous_suffix [OF _ this, of bp_count] assms show ?thesis
    by (simp add: contiguous_def)
qed

lemma contiguous_same: "bq_queue q' = bq_queue q \<Longrightarrow> bq_count q' = bq_count q \<Longrightarrow> contiguous q' = contiguous q"
  by (simp add: contiguous_def)


definition queue_witness :: "nat SequencedBulkQueue" where
  "queue_witness =
     \<lparr>bq_over_write = False, bq_keep_if_no_reader = False,
      bq_queue = [\<lparr>bp_bulk = 70, bp_count = 0\<rparr>, \<lparr>bp_bulk = 71, bp_count = 1\<rparr>],
      bq_quiting = False, bq_count = 2, bq_callback_map = [(9, OnWaitReady, 2)],
      bq_count_map = [(5, -1), (9, 1)], bq_reader_min = -1, bq_reader_max = 1,
      bq_readers =
        [5 \<mapsto> \<lparr>br_count = 0, br_event = False, br_quiting = False, br_have_data = False,
                br_temp_ptr = None, br_temp_count = 0\<rparr>,
         9 \<mapsto> \<lparr>br_count = 2, br_event = False, br_quiting = False, br_have_data = False,
                br_temp_ptr = None, br_temp_count = 0\<rparr>],
      bq_posted = []\<rparr>"

lemma queue_witness_ok: "bulk_inv queue_witness \<and> none_missed queue_witness \<and> contiguous queue_witness"
  by (simp add: queue_witness_def bulk_inv_def queue_ok_def readers_ok_def callbacks_ok_def
      none_missed_def contiguous_def upto.simps)


text \<open>
  C6.  A push wakes every waiting reader whose bulk it brings: the reader is signaled (or
  its task posted) and holds exactly the pushed bulk, the others keep waiting, and no
  assertion of the queue fails on the way.
\<close>

theorem PushBulk_delivers:
  assumes "bulk_inv q" and "none_missed q" and "\<not> bq_quiting q"
  shows "\<exists>q'. PushBulk b q = Inr q' \<and> bulk_inv q' \<and> none_missed q' \<and> bq_count q' = bq_count q + 1 \<and>
    (\<forall>(r, kind, c) \<in> set (bq_callback_map q).
       if c \<le> bq_count q
       then \<exists>x. bq_readers q' r = Some x \<and>
              delivered kind \<lparr>bp_bulk = b, bp_count = bq_count q\<rparr> r x q'
       else (r, kind, c) \<in> set (bq_callback_map q'))"
proof -
  let ?new = "\<lparr>bp_bulk = b, bp_count = bq_count q\<rparr>"
  let ?q1 = "q\<lparr>bq_queue := bq_queue q @ [?new], bq_count := bq_count q + 1\<rparr>"
  obtain q' q2 where q': "PushBulk b q = Inr q'" "bulk_inv q'" "none_missed q'" "bq_count q' = bq_count q + 1"
    and f: "fired (bq_count q) (bq_callback_map q) ?q1 q2" and rel: "q' = MayReleaseBuffer q2"
    using PushBulk_ok [OF assms(1), of b] assms(3) by blast
  have "if c \<le> bq_count q then \<exists>x. bq_readers q' r = Some x \<and> delivered kind ?new r x q'
      else (r, kind, c) \<in> set (bq_callback_map q')" if m: "(r, kind, c) \<in> set (bq_callback_map q)" for r kind c
  proof (cases "c \<le> bq_count q")
    case True
    then obtain p x where px: "p \<in> set (bq_queue ?q1)" "c \<le> bp_count p" "bq_readers q2 r = Some x"
        "delivered kind p r x q2"
      using f m unfolding fired_def by blast
    have "p \<notin> set (bq_queue q)" using assms(2,3) m px(2) by (fastforce simp: none_missed_def)
    then have "p = ?new" using px(1) by simp
    moreover have "delivered kind p r x q'"
      using px(4) by (simp add: delivered_def rel split: ready_callback.splits)
    ultimately show ?thesis using px(3) True by (auto simp: rel)
  next
    case False
    then have "(r, kind, c) \<in> set (bq_callback_map q2)" using f m by (simp add: fired_def)
    then show ?thesis using False by (simp add: rel)
  qed
  then show ?thesis using q' by blast
qed

theorem PushBulk_delivers_witness:
  "\<exists>q' x. PushBulk 72 queue_witness = Inr q' \<and> bq_readers q' 9 = Some x \<and>
     delivered OnWaitReady \<lparr>bp_bulk = 72, bp_count = 2\<rparr> 9 x q'"
proof -
  have "\<not> bq_quiting queue_witness" "bq_callback_map queue_witness = [(9, OnWaitReady, 2)]"
      "bq_count queue_witness = 2"
    by (simp_all add: queue_witness_def)
  then show ?thesis using PushBulk_delivers [of queue_witness 72] queue_witness_ok by auto
qed



text \<open>
  Quit does not wake the readers that wait on an empty queue: it changes nothing but
  the flag, and such a reader's thread stays blocked.  The source means Quit to end the
  waits (\<open>FireCallbacQuitkNoLock\<close> would, and nothing calls it).
\<close>

theorem Quit_on_empty_queue_wakes_nobody:
  assumes "\<not> bq_quiting q" and "bq_queue q = []" and "\<not> signaled r q" and "bq_readers q r = Some x"
  shows "\<exists>q'. Quit q = Inr q' \<and> bq_quiting q' \<and> bq_readers q' = bq_readers q \<and>
    bq_callback_map q' = bq_callback_map q \<and> WaitForReady_end r q' = Inl Blocked"
  using assms by (simp add: Quit_def MayFireCallback_def signaled_def WaitForReady_end_def the_reader_def)

text \<open>The state after a reader has read the only bulk and waits for the next.\<close>

definition waiting_run :: "nat SequencedBulkQueue res" where
  "waiting_run =
     for_each bq_exec [NewReader 5 False, Push 70, GetSame 5, WaitBegin 5] (SequencedBulkQueue_new False False)"

definition waiting_state :: "nat SequencedBulkQueue" where
  "waiting_state = (case waiting_run of Inr q \<Rightarrow> q | Inl _ \<Rightarrow> SequencedBulkQueue_new False False)"

lemmas bq_eval =
  Reader_new_def RegisterReader_def int32_of_def in_int32_def SequencedBulkQueue_new_def
  PushBulk_def FireCallbackNoLock_def MayReleaseBuffer_def CountNoLock_def set_reader_def
  GetBulkSameThread_def the_reader_def GetBulkNoLock_def FindBulk_def UpdateReaderCount_def
  min_from_def Wait_begin_def CheckReady_def SetReadyCallback_def insert_callback_def MayFireCallback_def

lemma waiting_state_eq:
  "waiting_run = Inr waiting_state \<and> bq_queue waiting_state = [] \<and> \<not> bq_quiting waiting_state \<and>
   bq_callback_map waiting_state = [(5, OnWaitReady, 1)] \<and>
   bq_readers waiting_state 5 = Some \<lparr>br_count = 1, br_event = False, br_quiting = False,
     br_have_data = False, br_temp_ptr = None, br_temp_count = 3735928559\<rparr>"
  by (simp add: waiting_state_def waiting_run_def bq_eval Let_def)

theorem Quit_on_empty_queue_wakes_nobody_witness:
  "\<exists>q'. Quit waiting_state = Inr q' \<and> WaitForReady_end 5 q' = Inl Blocked"
  using Quit_on_empty_queue_wakes_nobody [of waiting_state 5] waiting_state_eq
  by (auto simp: signaled_def)

text \<open>
  A reader that is told to quit while it waits in a WaitForManyReader is not counted
  as finished: Quit leaves its callback record in the map, so that WaitBack takes the wait
  for a cancelled one and answers false, although the comment in the header says that
  finish includes quit.
\<close>

theorem WaitBack_after_quit_not_finished:
  assumes "bulk_inv q" and "\<not> bq_quiting q" and "bq_queue q \<noteq> []"
    and "(r, OnWaitReady, c) \<in> set (bq_callback_map q)"
  shows "\<exists>q' q''. Quit q = Inr q' \<and> signaled r q' \<and> told_quit r q' \<and> WaitBack r q' = Inr (False, q'')"
proof -
  let ?q = "q\<lparr>bq_quiting := True\<rparr>"
  obtain q' where f: "FireCallbackNoLock (bp_count (last (bq_queue q))) ?q = Inr q'"
      "quit_fired (bq_callback_map q) ?q q'"
    using FireCallback_ok [of ?q "bp_count (last (bq_queue q))"] assms(1,3) by auto
  then obtain x where x: "bq_readers q' r = Some x" "br_quiting x" "br_event x"
    using assms(4) unfolding quit_fired_def by blast
  have cb: "bq_callback_map q' = bq_callback_map q" using f(2) by (simp add: quit_fired_def)
  have "map_of (bq_callback_map q) r \<noteq> None"
    using assms(4) by (auto simp: map_of_eq_None_iff rev_image_eqI)
  then have "\<exists>q''. CancelCallback r q' = (True, q'') \<and> bq_readers q'' = bq_readers q'"
    by (auto simp: CancelCallback_def cb)
  moreover have "Quit q = Inr q'" using assms(2,3) f(1) by (simp add: Quit_def MayFireCallback_def)
  ultimately show ?thesis
    using x by (auto simp: signaled_def told_quit_def WaitBack_def the_reader_def)
qed

theorem WaitBack_after_quit_not_finished_witness:
  "\<exists>q' q''. Quit queue_witness = Inr q' \<and> signaled 9 q' \<and> told_quit 9 q' \<and>
     WaitBack 9 q' = Inr (False, q'')"
  using WaitBack_after_quit_not_finished [of queue_witness 9 2] queue_witness_ok
  by (simp add: queue_witness_def)

end
