(* ===== verification/Property_Store.thy ===== *)
theory Property_Store
  imports Prelude "HOL-Library.Char_ord" "HOL-Library.List_Lexorder"
begin

text \<open>
  The property store: \<open>PropertyNotifiter\<close> (src/device/property/property_notifiter.cc),
  \<open>ValueMapDevicePropertyStore\<close> (value_map_device_property_store.cc) and the
  \<open>StoreMember\<close> classes that cache one value of it (store_member.h, store_member.cc,
  enum_store_member.h).

  Chromium's \<open>base::Value\<close> is the type parameter \<open>'v\<close>, compared with \<open>=\<close> where the code
  calls \<open>Equals\<close>; the type \<open>'a\<close> stands for the C++ values that members hold, and the
  conversions between the two (\<open>GetAsBoolean\<close>, \<open>new FundamentalValue\<close> and so on) are the
  fields \<open>m_get\<close> and \<open>m_make\<close> of a member.  \<open>PrefValueMap\<close> and \<open>DictionaryValue\<close> are maps
  that iterate in the order of their keys.  An observer that is a \<open>StoreMember\<close> is run;
  the call of any other observer, and of the callback of a member, is recorded in
  \<open>w_events\<close>.  Those calls are taken not to come back to the store while it notifies.
  Tracing (\<open>PropertyFormat\<close>, \<open>trace_object_\<close>) is left out.
\<close>

subsection \<open>State\<close>

datatype event =
    Notified ptr string
  | Called ptr string

record ('v, 'a) member =
  m_name :: string
  m_has_prefs :: bool
  m_has_observer :: bool
  m_setting :: bool
  m_value :: 'a
  m_loop :: "nat option"
  m_get :: "'v \<Rightarrow> 'a option"
  m_make :: "'a \<Rightarrow> 'v"

record ('v, 'a) world =
  w_prefs :: "(string \<times> 'v) list"
  w_observers :: "string \<Rightarrow> ptr list option"
  w_checker :: "nat option"
  w_members :: "ptr \<Rightarrow> ('v, 'a) member option"
  w_events :: "event list"
  w_thread :: nat
  w_has_loop :: bool

subsection \<open>PropertyNotifiter\<close>

text \<open>\<open>DCHECK(thread_checker_.CalledOnValidThread())\<close>: a detached checker attaches to the
  thread that asks first.\<close>

definition CalledOnValidThread :: "('v, 'a) world \<Rightarrow> ('v, 'a) world res" where
  "CalledOnValidThread w =
     (case w_checker w of
        None \<Rightarrow> Inr (w\<lparr>w_checker := Some (w_thread w)\<rparr>)
      | Some t \<Rightarrow> DCHECK (t = w_thread w) (Inr w))"

definition AddPrefObserver :: "string \<Rightarrow> ptr \<Rightarrow> ('v, 'a) world \<Rightarrow> ('v, 'a) world res" where
  "AddPrefObserver key obs w =
     (let observer_list = (case w_observers w key of None \<Rightarrow> [] | Some os \<Rightarrow> os) in
      if obs \<in> set observer_list then Inl NotReached
      else Inr (w\<lparr>w_observers := (w_observers w)(key \<mapsto> observer_list @ [obs])\<rparr>))"

definition RemovePrefObserver :: "string \<Rightarrow> ptr \<Rightarrow> ('v, 'a) world \<Rightarrow> ('v, 'a) world res" where
  "RemovePrefObserver key obs w =
     and_then (CalledOnValidThread w) (\<lambda>w.
       case w_observers w key of
         None \<Rightarrow> Inr w
       | Some os \<Rightarrow> Inr (w\<lparr>w_observers := (w_observers w)(key \<mapsto> removeAll obs os)\<rparr>))"

definition HasObserver :: "string \<Rightarrow> ptr \<Rightarrow> ('v, 'a) world \<Rightarrow> (bool \<times> ('v, 'a) world) res" where
  "HasObserver key obs w =
     and_then (CalledOnValidThread w) (\<lambda>w.
       case w_observers w key of
         None \<Rightarrow> Inr (False, w)
       | Some os \<Rightarrow> Inr (obs \<in> set os, w))"

subsection \<open>Reading the store, and how a member follows it\<close>

definition GetValue :: "string \<Rightarrow> ('v, 'a) world \<Rightarrow> 'v option" where
  "GetValue key w = map_of (w_prefs w) key"

definition HasPrefPath :: "string \<Rightarrow> ('v, 'a) world \<Rightarrow> bool" where
  "HasPrefPath key w \<longleftrightarrow> GetValue key w \<noteq> None"

definition IsOnCorrectThread :: "('v, 'a) world \<Rightarrow> ('v, 'a) member \<Rightarrow> bool" where
  "IsOnCorrectThread w m \<longleftrightarrow> m_loop m = None \<or> m_loop m = Some (w_thread w)"

text \<open>The member at an address; reading where there is none is undefined.\<close>

definition with_member ::
  "ptr \<Rightarrow> ('v, 'a) world \<Rightarrow> (('v, 'a) member \<Rightarrow> 'b res) \<Rightarrow> 'b res" where
  "with_member p w f = (case w_members w p of None \<Rightarrow> Inl Undefined | Some m \<Rightarrow> f m)"

definition put_member ::
  "ptr \<Rightarrow> ('v, 'a) member \<Rightarrow> ('v, 'a) world \<Rightarrow> ('v, 'a) world" where
  "put_member p m w = w\<lparr>w_members := (w_members w)(p \<mapsto> m)\<rparr>"

definition add_event :: "event \<Rightarrow> ('v, 'a) world \<Rightarrow> ('v, 'a) world" where
  "add_event e w = w\<lparr>w_events := w_events w @ [e]\<rparr>"

text \<open>\<open>closure_runner\<close> runs the callback when the function is left, after the value has
  been updated.\<close>

definition UpdateValueFromPref ::
  "ptr \<Rightarrow> string option \<Rightarrow> ('v, 'a) world \<Rightarrow> ('v, 'a) world res" where
  "UpdateValueFromPref p callback w =
     with_member p w (\<lambda>m.
       DCHECK (m_name m \<noteq> '''') (
       if \<not> m_has_prefs m then Inl Undefined
       else DCHECK (HasPrefPath (m_name m) w) (
         DCHECK (IsOnCorrectThread w m) (
         case GetValue (m_name m) w of
           None \<Rightarrow> Inl DcheckFailed
         | Some value \<Rightarrow>
             (case m_get m value of
                None \<Rightarrow> Inl DcheckFailed
              | Some x \<Rightarrow>
                  let w' = put_member p (m\<lparr>m_value := x\<rparr>) w in
                  Inr (case callback of
                         None \<Rightarrow> w'
                       | Some name \<Rightarrow> add_event (Called p name) w'))))))"

definition StoreMember_OnPreferenceChanged ::
  "ptr \<Rightarrow> string \<Rightarrow> ('v, 'a) world \<Rightarrow> ('v, 'a) world res" where
  "StoreMember_OnPreferenceChanged p pref_name w =
     with_member p w (\<lambda>m.
       DCHECK (m_name m \<noteq> '''')
         (UpdateValueFromPref p
            (if \<not> m_setting m \<and> m_has_observer m then Some pref_name else None) w))"

definition OnPreferenceChanged ::
  "string \<Rightarrow> ptr \<Rightarrow> ('v, 'a) world \<Rightarrow> ('v, 'a) world res" where
  "OnPreferenceChanged pref_name p w =
     (if w_members w p = None then Inr (add_event (Notified p pref_name) w)
      else StoreMember_OnPreferenceChanged p pref_name w)"

definition FireObservers :: "string \<Rightarrow> ('v, 'a) world \<Rightarrow> ('v, 'a) world res" where
  "FireObservers path w =
     and_then (CalledOnValidThread w) (\<lambda>w.
       case w_observers w path of
         None \<Rightarrow> Inr w
       | Some os \<Rightarrow> for_each (OnPreferenceChanged path) os w)"

subsection \<open>ValueMapDevicePropertyStore\<close>

definition ReportValueChanged :: "string \<Rightarrow> ('v, 'a) world \<Rightarrow> ('v, 'a) world res" where
  "ReportValueChanged key w = FireObservers key w"

definition SetValue :: "string \<Rightarrow> 'v \<Rightarrow> ('v, 'a) world \<Rightarrow> ('v, 'a) world res" where
  "SetValue key value w =
     (case GetValue key w of
        None \<Rightarrow> ReportValueChanged key (w\<lparr>w_prefs := map_put key value (w_prefs w)\<rparr>)
      | Some old_value \<Rightarrow>
          if value \<noteq> old_value
          then ReportValueChanged key (w\<lparr>w_prefs := map_put key value (w_prefs w)\<rparr>)
          else Inr w)"

definition SetValueInner :: "string \<Rightarrow> 'v \<Rightarrow> ('v, 'a) world \<Rightarrow> ('v, 'a) world res" where
  "SetValueInner key value w =
     (case GetValue key w of
        None \<Rightarrow> Inl DcheckFailed
      | Some old_value \<Rightarrow>
          if value \<noteq> old_value
          then ReportValueChanged key (w\<lparr>w_prefs := map_put key value (w_prefs w)\<rparr>)
          else Inr w)"

definition SetValueSilently :: "string \<Rightarrow> 'v \<Rightarrow> ('v, 'a) world \<Rightarrow> ('v, 'a) world" where
  "SetValueSilently key value w =
     (case GetValue key w of
        None \<Rightarrow> w\<lparr>w_prefs := map_put key value (w_prefs w)\<rparr>
      | Some old_value \<Rightarrow>
          if value \<noteq> old_value then w\<lparr>w_prefs := map_put key value (w_prefs w)\<rparr> else w)"

definition RemoveValue :: "string \<Rightarrow> ('v, 'a) world \<Rightarrow> ('v, 'a) world res" where
  "RemoveValue key w =
     (if HasPrefPath key w
      then ReportValueChanged key (w\<lparr>w_prefs := map_erase key (w_prefs w)\<rparr>)
      else Inr w)"

definition Reset :: "(string \<times> 'v) list \<Rightarrow> ('v, 'a) world \<Rightarrow> ('v, 'a) world" where
  "Reset dict w =
     w\<lparr>w_prefs := fold (\<lambda>(key, value). map_put key value) dict []\<rparr>"

definition Serialize :: "('v, 'a) world \<Rightarrow> (string \<times> 'v) list" where
  "Serialize w = fold (\<lambda>(key, value). map_put key value) (w_prefs w) []"

definition ChangeContent ::
  "(string \<times> 'v) list \<Rightarrow> ('v, 'a) world \<Rightarrow> ('v, 'a) world res" where
  "ChangeContent dict w =
     for_each (\<lambda>(key, value) w.
       DCHECK (HasPrefPath key w) (SetValueInner key value w)) dict w"

definition ChangedSet :: "('v, 'a) world \<Rightarrow> ('v, 'b) world \<Rightarrow> string list" where
  "ChangedSet w store =
     map fst (filter (\<lambda>(name, value). GetValue name store \<noteq> Some value) (w_prefs w))"

definition Store_DetachFromThread :: "('v, 'a) world \<Rightarrow> ('v, 'a) world" where
  "Store_DetachFromThread w = w\<lparr>w_checker := None\<rparr>"

subsection \<open>StoreMember\<close>

definition StoreMember_new ::
  "'a \<Rightarrow> ('v \<Rightarrow> 'a option) \<Rightarrow> ('a \<Rightarrow> 'v) \<Rightarrow> ('v, 'a) member" where
  "StoreMember_new garbage get mk =
     \<lparr>m_name = '''', m_has_prefs = False, m_has_observer = False, m_setting = False,
      m_value = garbage, m_loop = None, m_get = get, m_make = mk\<rparr>"

definition Init :: "ptr \<Rightarrow> string \<Rightarrow> bool \<Rightarrow> ('v, 'a) world \<Rightarrow> ('v, 'a) world res" where
  "Init p pref_name observer w =
     with_member p w (\<lambda>m.
       DCHECK (m_name m = '''') (
       DCHECK (HasPrefPath pref_name w) (
       and_then (AddPrefObserver pref_name p w) (\<lambda>w.
         Inr (put_member p (m\<lparr>m_has_observer := observer, m_has_prefs := True,
                m_name := pref_name,
                m_loop := (if w_has_loop w then Some (w_thread w) else None)\<rparr>) w)))))"

definition Destroy :: "ptr \<Rightarrow> ('v, 'a) world \<Rightarrow> ('v, 'a) world res" where
  "Destroy p w =
     with_member p w (\<lambda>m.
       if m_has_prefs m \<and> m_name m \<noteq> ''''
       then and_then (RemovePrefObserver (m_name m) p w)
              (\<lambda>w. Inr (put_member p (m\<lparr>m_has_prefs := False\<rparr>) w))
       else Inr w)"

definition VerifyPref :: "ptr \<Rightarrow> ('v, 'a) world \<Rightarrow> ('v, 'a) world res" where
  "VerifyPref p w =
     with_member p w (\<lambda>m. DCHECK (m_name m \<noteq> '''') (UpdateValueFromPref p None w))"

definition Member_value :: "ptr \<Rightarrow> ('v, 'a) world \<Rightarrow> ('a \<times> ('v, 'a) world) res" where
  "Member_value p w =
     and_then (VerifyPref p w) (\<lambda>w. with_member p w (\<lambda>m. Inr (m_value m, w)))"

definition UpdatePref :: "ptr \<Rightarrow> 'a \<Rightarrow> ('v, 'a) world \<Rightarrow> ('v, 'a) world res" where
  "UpdatePref p value w =
     with_member p w (\<lambda>m.
       if \<not> m_has_prefs m then Inl Undefined
       else SetValue (m_name m) (m_make m value) w)"

definition set_setting :: "ptr \<Rightarrow> bool \<Rightarrow> ('v, 'a) world \<Rightarrow> ('v, 'a) world res" where
  "set_setting p b w = with_member p w (\<lambda>m. Inr (put_member p (m\<lparr>m_setting := b\<rparr>) w))"

definition Member_set_value :: "ptr \<Rightarrow> 'a \<Rightarrow> ('v, 'a) world \<Rightarrow> ('v, 'a) world res" where
  "Member_set_value p value w =
     with_member p w (\<lambda>m.
       DCHECK (IsOnCorrectThread w m) (
       DCHECK (m_name m \<noteq> '''') (
       and_then (set_setting p True w) (\<lambda>w.
       and_then (UpdatePref p value w) (\<lambda>w.
       set_setting p False w)))))"

definition Member_DetachFromThread :: "ptr \<Rightarrow> ('v, 'a) world \<Rightarrow> ('v, 'a) world res" where
  "Member_DetachFromThread p w =
     with_member p w (\<lambda>m. Inr (put_member p (m\<lparr>m_loop := None\<rparr>) w))"

text \<open>
  The conversions that the two macros of enum_store_member.h generate, from the
  conversions of the underlying string or integer and the two functions that the user of
  the macro writes.
\<close>

definition enum_string_get ::
  "('v \<Rightarrow> string option) \<Rightarrow> (string \<Rightarrow> 'e option) \<Rightarrow> 'v \<Rightarrow> 'e option" where
  "enum_string_get GetAsString StringToEnum value =
     (case GetAsString value of None \<Rightarrow> None | Some str \<Rightarrow> StringToEnum str)"

definition enum_string_make :: "(string \<Rightarrow> 'v) \<Rightarrow> ('e \<Rightarrow> string) \<Rightarrow> 'e \<Rightarrow> 'v" where
  "enum_string_make StringValue EnumToString e = StringValue (EnumToString e)"

definition enum_int_get ::
  "('v \<Rightarrow> int option) \<Rightarrow> (int \<Rightarrow> 'e) \<Rightarrow> 'v \<Rightarrow> 'e option" where
  "enum_int_get GetAsInteger cast value =
     (case GetAsInteger value of None \<Rightarrow> None | Some int_out \<Rightarrow> Some (cast int_out))"

definition enum_int_make :: "(int \<Rightarrow> 'v) \<Rightarrow> ('e \<Rightarrow> int) \<Rightarrow> 'e \<Rightarrow> 'v" where
  "enum_int_make FundamentalValue cast e = FundamentalValue (cast e)"

subsection \<open>The invariant of the store and its members\<close>

text \<open>
  Every list of observers is without repetition, a member is in the list of its own name
  exactly as long as it is initialised and not destroyed, its name is in the store, and the
  store is used on one thread.
\<close>

definition member_ok :: "('v, 'a) world \<Rightarrow> ptr \<Rightarrow> ('v, 'a) member \<Rightarrow> bool" where
  "member_ok w p m \<longleftrightarrow>
     (m_has_prefs m \<longrightarrow>
        m_name m \<noteq> '''' \<and> HasPrefPath (m_name m) w \<and>
        (\<exists>os. w_observers w (m_name m) = Some os \<and> p \<in> set os)) \<and>
     IsOnCorrectThread w m"

definition observers_ok :: "('v, 'a) world \<Rightarrow> bool" where
  "observers_ok w \<longleftrightarrow>
     (\<forall>key os. w_observers w key = Some os \<longrightarrow> distinct os \<and>
        (\<forall>p \<in> set os. \<forall>m. w_members w p = Some m \<longrightarrow> m_has_prefs m \<and> m_name m = key))"

definition store_ok :: "('v, 'a) world \<Rightarrow> bool" where
  "store_ok w \<longleftrightarrow>
     map_keys_ok (w_prefs w) \<and>
     (w_checker w = None \<or> w_checker w = Some (w_thread w)) \<and>
     observers_ok w \<and> (\<forall>p m. w_members w p = Some m \<longrightarrow> member_ok w p m)"

text \<open>The observers of a key, and whether the members among them can hold a value.\<close>

definition observers_of :: "('v, 'a) world \<Rightarrow> string \<Rightarrow> ptr list" where
  "observers_of w key = (case w_observers w key of None \<Rightarrow> [] | Some os \<Rightarrow> os)"

definition accepts :: "('v, 'a) world \<Rightarrow> string \<Rightarrow> 'v \<Rightarrow> bool" where
  "accepts w key v \<longleftrightarrow>
     (\<forall>p \<in> set (observers_of w key). case w_members w p of
        None \<Rightarrow> True | Some m \<Rightarrow> m_get m v \<noteq> None)"

text \<open>What a notification of a key does: the calls it makes, in order, and the values of
  the members afterwards.\<close>

definition event_of :: "('v, 'a) world \<Rightarrow> string \<Rightarrow> ptr \<Rightarrow> event list" where
  "event_of w key p =
     (case w_members w p of
        None \<Rightarrow> [Notified p key]
      | Some m \<Rightarrow> if \<not> m_setting m \<and> m_has_observer m then [Called p key] else [])"

definition load_member :: "'v \<Rightarrow> ('v, 'a) member \<Rightarrow> ('v, 'a) member" where
  "load_member v m = m\<lparr>m_value := the (m_get m v)\<rparr>"

definition loaded ::
  "'v \<Rightarrow> ptr list \<Rightarrow> (ptr \<Rightarrow> ('v, 'a) member option) \<Rightarrow> ptr \<Rightarrow> ('v, 'a) member option" where
  "loaded v os ms = (\<lambda>p. if p \<in> set os then map_option (load_member v) (ms p) else ms p)"

definition notified :: "string \<Rightarrow> 'v \<Rightarrow> ('v, 'a) world \<Rightarrow> ('v, 'a) world" where
  "notified key v w =
     w\<lparr>w_members := loaded v (observers_of w key) (w_members w),
       w_events := w_events w @ concat (map (event_of w key) (observers_of w key)),
       w_checker := Some (w_thread w)\<rparr>"

lemma load_member_simps [simp]:
  "m_name (load_member v m) = m_name m"
  "m_has_prefs (load_member v m) = m_has_prefs m"
  "m_has_observer (load_member v m) = m_has_observer m"
  "m_setting (load_member v m) = m_setting m"
  "m_loop (load_member v m) = m_loop m"
  "m_get (load_member v m) = m_get m"
  "m_make (load_member v m) = m_make m"
  "m_value (load_member v m) = the (m_get m v)"
  by (simp_all add: load_member_def)

lemma notified_simps [simp]:
  "w_prefs (notified key v w) = w_prefs w"
  "w_observers (notified key v w) = w_observers w"
  "w_checker (notified key v w) = Some (w_thread w)"
  "w_thread (notified key v w) = w_thread w"
  "w_has_loop (notified key v w) = w_has_loop w"
  "w_members (notified key v w) = loaded v (observers_of w key) (w_members w)"
  by (simp_all add: notified_def)

lemma loaded_Nil [simp]: "loaded v [] ms = ms"
  by (simp add: loaded_def)

lemma loaded_Some:
  "loaded v os ms p = Some m' \<longleftrightarrow>
     (\<exists>m. ms p = Some m \<and> m' = (if p \<in> set os then load_member v m else m))"
  by (auto simp: loaded_def)

definition notifiable :: "('v, 'a) world \<Rightarrow> string \<Rightarrow> 'v \<Rightarrow> ptr \<Rightarrow> bool" where
  "notifiable w key v p \<longleftrightarrow> (\<forall>m. w_members w p = Some m \<longrightarrow>
     m_has_prefs m \<and> m_name m = key \<and> key \<noteq> '''' \<and> IsOnCorrectThread w m \<and>
     m_get m v \<noteq> None)"

lemma OnPreferenceChanged_notifies:
  assumes "map_of (w_prefs w) key = Some v" and "notifiable w key v p"
  shows "OnPreferenceChanged key p w =
    Inr (w\<lparr>w_members := loaded v [p] (w_members w), w_events := w_events w @ event_of w key p\<rparr>)"
proof (cases "w_members w p")
  case None
  then have "loaded v [p] (w_members w) = w_members w"
    by (auto simp: loaded_def fun_eq_iff)
  with None show ?thesis
    by (simp add: OnPreferenceChanged_def event_of_def add_event_def)
next
  case (Some m)
  with assms(2) obtain x where m: "m_has_prefs m" "m_name m = key" "key \<noteq> ''''"
    "IsOnCorrectThread w m" "m_get m v = Some x" by (auto simp: notifiable_def)
  have "loaded v [p] (w_members w) = (w_members w)(p \<mapsto> m\<lparr>m_value := x\<rparr>)"
    using Some m by (auto simp: loaded_def fun_eq_iff load_member_def)
  then show ?thesis
    using Some m assms(1)
    by (simp add: OnPreferenceChanged_def StoreMember_OnPreferenceChanged_def with_member_def
        UpdateValueFromPref_def HasPrefPath_def GetValue_def put_member_def add_event_def
        event_of_def)
qed

lemma for_each_notifies:
  assumes "map_of (w_prefs w) key = Some v" and "distinct os"
    and "\<And>p. p \<in> set os \<Longrightarrow> notifiable w key v p"
  shows "for_each (OnPreferenceChanged key) os w =
    Inr (w\<lparr>w_members := loaded v os (w_members w),
           w_events := w_events w @ concat (map (event_of w key) os)\<rparr>)"
  using assms
proof (induction os arbitrary: w)
  case Nil
  show ?case by simp
next
  case (Cons p os)
  define w1 where "w1 = w\<lparr>w_members := loaded v [p] (w_members w),
                          w_events := w_events w @ event_of w key p\<rparr>"
  have step: "OnPreferenceChanged key p w = Inr w1"
    unfolding w1_def by (rule OnPreferenceChanged_notifies) (use Cons.prems in auto)
  have same: "w_members w1 q = w_members w q" if "q \<in> set os" for q
    using that Cons.prems(2) by (auto simp: w1_def loaded_def)
  have "for_each (OnPreferenceChanged key) os w1 =
    Inr (w1\<lparr>w_members := loaded v os (w_members w1),
            w_events := w_events w1 @ concat (map (event_of w1 key) os)\<rparr>)"
  proof (rule Cons.IH)
    show "map_of (w_prefs w1) key = Some v" "distinct os"
      using Cons.prems by (simp_all add: w1_def)
    fix q assume "q \<in> set os"
    then show "notifiable w1 key v q"
      using same Cons.prems(3) [of q] by (simp add: notifiable_def IsOnCorrectThread_def w1_def)
  qed
  moreover have "map (event_of w1 key) os = map (event_of w key) os"
    using same by (simp add: event_of_def)
  moreover have "loaded v os (w_members w1) = loaded v (p # os) (w_members w)"
    using Cons.prems(2) by (auto simp: w1_def loaded_def fun_eq_iff)
  ultimately show ?case
    by (simp add: step) (simp add: w1_def)
qed

lemma store_ok_notifiable:
  assumes "store_ok w" and "accepts w key v" and "p \<in> set (observers_of w key)"
  shows "notifiable w key v p"
proof (unfold notifiable_def, intro allI impI)
  fix m assume m: "w_members w p = Some m"
  obtain os where os: "w_observers w key = Some os" "p \<in> set os"
    using assms(3) by (cases "w_observers w key") (auto simp: observers_of_def)
  with assms(1) m have 1: "m_has_prefs m" "m_name m = key"
    unfolding store_ok_def observers_ok_def by blast+
  have "member_ok w p m" using assms(1) m unfolding store_ok_def by blast
  moreover have "m_get m v \<noteq> None"
    using assms(2,3) m by (auto simp: accepts_def split: option.splits)
  ultimately show "m_has_prefs m \<and> m_name m = key \<and> key \<noteq> '''' \<and> IsOnCorrectThread w m \<and>
     m_get m v \<noteq> None" using 1 by (auto simp: member_ok_def)
qed

lemma store_ok_distinct: "store_ok w \<Longrightarrow> distinct (observers_of w key)"
  unfolding store_ok_def observers_ok_def observers_of_def by (auto split: option.splits)

lemma store_ok_thread:
  "store_ok w \<Longrightarrow> CalledOnValidThread w = Inr (w\<lparr>w_checker := Some (w_thread w)\<rparr>)"
  by (auto simp: store_ok_def CalledOnValidThread_def)

lemma FireObservers_notifies:
  assumes "store_ok w" and "map_of (w_prefs w) key = Some v" and "accepts w key v"
  shows "FireObservers key w = Inr (notified key v w)"
proof -
  let ?w = "w\<lparr>w_checker := Some (w_thread w)\<rparr>"
  have thread: "CalledOnValidThread w = Inr ?w" by (rule store_ok_thread [OF assms(1)])
  have "for_each (OnPreferenceChanged key) (observers_of w key) ?w =
    Inr (?w\<lparr>w_members := loaded v (observers_of w key) (w_members ?w),
           w_events := w_events ?w @ concat (map (event_of ?w key) (observers_of w key))\<rparr>)"
  proof (rule for_each_notifies)
    show "map_of (w_prefs ?w) key = Some v" using assms by simp
    show "distinct (observers_of w key)" by (rule store_ok_distinct [OF assms(1)])
    fix p assume "p \<in> set (observers_of w key)"
    then have "notifiable w key v p" by (rule store_ok_notifiable [OF assms(1,3)])
    then show "notifiable ?w key v p" by (simp add: notifiable_def IsOnCorrectThread_def)
  qed
  moreover have "event_of ?w key = event_of w key" by (simp add: event_of_def fun_eq_iff)
  ultimately show ?thesis
    by (auto simp add: FireObservers_def thread notified_def observers_of_def split: option.splits)
qed

lemma store_okD:
  assumes "store_ok w"
  shows "map_keys_ok (w_prefs w)" and "observers_ok w"
    and "\<And>p m. w_members w p = Some m \<Longrightarrow> member_ok w p m"
  using assms by (auto simp: store_ok_def)

lemma store_ok_put:
  assumes "store_ok w"
  shows "store_ok (w\<lparr>w_prefs := map_put key v (w_prefs w)\<rparr>)" (is "store_ok ?w")
proof -
  have prefs: "map_of (map_put key v (w_prefs w)) = (map_of (w_prefs w))(key \<mapsto> v)"
    using store_okD(1) [OF assms] by (rule map_of_put)
  have "member_ok ?w p m" if "w_members w p = Some m" for p m
    using store_okD(3) [OF assms that]
    by (auto simp: member_ok_def HasPrefPath_def GetValue_def prefs IsOnCorrectThread_def)
  then show ?thesis
    using assms map_keys_ok_put [OF store_okD(1) [OF assms]]
    by (simp add: store_ok_def observers_ok_def)
qed

lemma store_ok_notified:
  assumes "store_ok w"
  shows "store_ok (notified key v w)" (is "store_ok ?w")
proof -
  have "observers_ok ?w"
    using store_okD(2) [OF assms] unfolding observers_ok_def
    by (auto simp: loaded_Some)
  moreover have "member_ok ?w p m" if mem: "w_members ?w p = Some m" for p m
  proof -
    obtain m0 where "w_members w p = Some m0"
      "m = (if p \<in> set (observers_of w key) then load_member v m0 else m0)"
      using mem unfolding notified_simps loaded_Some by blast
    then show ?thesis using store_okD(3) [OF assms, of p m0]
      by (auto simp: member_ok_def HasPrefPath_def GetValue_def IsOnCorrectThread_def)
  qed
  ultimately show ?thesis using store_okD(1) [OF assms] by (simp add: store_ok_def)
qed

text \<open>The store after a new value for a key.\<close>

definition stored :: "string \<Rightarrow> 'v \<Rightarrow> ('v, 'a) world \<Rightarrow> ('v, 'a) world" where
  "stored key v w =
     (if GetValue key w = Some v then w
      else notified key v (w\<lparr>w_prefs := map_put key v (w_prefs w)\<rparr>))"

lemma stored_simps [simp]:
  "w_observers (stored key v w) = w_observers w"
  "w_thread (stored key v w) = w_thread w"
  "w_has_loop (stored key v w) = w_has_loop w"
  by (simp_all add: stored_def)

lemma store_ok_stored: "store_ok w \<Longrightarrow> store_ok (stored key v w)"
  by (simp add: stored_def store_ok_notified store_ok_put)

lemma GetValue_stored:
  "store_ok w \<Longrightarrow> GetValue k (stored key v w) = (if k = key then Some v else GetValue k w)"
  by (simp add: stored_def GetValue_def store_okD(1) map_of_put)

lemma observers_of_stored [simp]: "observers_of (stored key v w) = observers_of w"
  by (simp add: observers_of_def fun_eq_iff)

lemma observers_of_prefs [simp]: "observers_of (w\<lparr>w_prefs := ps\<rparr>) = observers_of w"
  by (simp add: observers_of_def fun_eq_iff)

lemma accepts_prefs [simp]: "accepts (w\<lparr>w_prefs := ps\<rparr>) = accepts w"
  by (simp add: accepts_def fun_eq_iff)

lemma event_of_prefs [simp]: "event_of (w\<lparr>w_prefs := ps\<rparr>) = event_of w"
  by (simp add: event_of_def fun_eq_iff)

lemma members_stored:
  "w_members (stored key v w) =
     (if GetValue key w = Some v then w_members w
      else loaded v (observers_of w key) (w_members w))"
  by (simp add: stored_def)

lemma stored_member:
  assumes "w_members w p = Some m"
  shows "\<exists>m'. w_members (stored key v w) p = Some m' \<and> m_name m' = m_name m \<and>
    m_has_prefs m' = m_has_prefs m \<and> m_loop m' = m_loop m \<and> m_get m' = m_get m"
  using assms by (auto simp: members_stored loaded_def)

lemma accepts_stored [simp]: "accepts (stored key v w) = accepts w"
proof (intro ext)
  show "accepts (stored key v w) k x = accepts w k x" for k x
    unfolding accepts_def observers_of_stored
    by (rule ball_cong) (auto simp: members_stored loaded_def split: option.splits)
qed

lemma event_of_stored [simp]: "event_of (stored key v w) = event_of w"
  by (auto simp: event_of_def members_stored loaded_def fun_eq_iff split: option.splits)

lemma events_stored:
  "w_events (stored key v w) = w_events w @
     (if GetValue key w = Some v then [] else concat (map (event_of w key) (observers_of w key)))"
  by (simp add: stored_def notified_def)

lemma put_fires:
  assumes "store_ok w" and "accepts w key v"
  shows "ReportValueChanged key (w\<lparr>w_prefs := map_put key v (w_prefs w)\<rparr>) =
    Inr (notified key v (w\<lparr>w_prefs := map_put key v (w_prefs w)\<rparr>))"
  unfolding ReportValueChanged_def
  by (rule FireObservers_notifies)
    (use assms store_okD(1) [OF assms(1)] in \<open>simp_all add: store_ok_put map_of_put\<close>)

lemma SetValue_stores:
  "store_ok w \<Longrightarrow> accepts w key v \<Longrightarrow> SetValue key v w = Inr (stored key v w)"
  by (auto simp: SetValue_def put_fires stored_def split: option.splits)

lemma SetValueInner_stores:
  "store_ok w \<Longrightarrow> accepts w key v \<Longrightarrow> HasPrefPath key w \<Longrightarrow>
     SetValueInner key v w = Inr (stored key v w)"
  by (auto simp: SetValueInner_def put_fires stored_def HasPrefPath_def split: option.splits)

text \<open>\<open>ChangeContent\<close> stores its entries one after the other.\<close>

lemma ChangeContent_folds:
  assumes "store_ok w"
    and "\<And>k v. (k, v) \<in> set dict \<Longrightarrow> HasPrefPath k w \<and> accepts w k v"
  shows "ChangeContent dict w = Inr (fold (\<lambda>(k, v). stored k v) dict w)"
  using assms
proof (induction dict arbitrary: w)
  case Nil
  then show ?case by (simp add: ChangeContent_def)
next
  case (Cons e dict)
  obtain k v where e: "e = (k, v)" by (cases e)
  have "ChangeContent dict (stored k v w) = Inr (fold (\<lambda>(k, v). stored k v) dict (stored k v w))"
    by (rule Cons.IH)
      (use Cons.prems in \<open>auto simp: store_ok_stored HasPrefPath_def GetValue_stored\<close>)
  then show ?case
    using Cons.prems(1) Cons.prems(2) [of k v]
    by (simp add: e ChangeContent_def SetValueInner_stores)
qed

lemma fold_stored_ok: "store_ok w \<Longrightarrow> store_ok (fold (\<lambda>(k, v). stored k v) dict w)"
  by (induction dict arbitrary: w) (auto simp: store_ok_stored)

lemma fold_stored_observers [simp]:
  "observers_of (fold (\<lambda>(k, v). stored k v) dict w) = observers_of w"
  "event_of (fold (\<lambda>(k, v). stored k v) dict w) = event_of w"
  "accepts (fold (\<lambda>(k, v). stored k v) dict w) = accepts w"
  by (induction dict arbitrary: w) auto

lemma fold_stored_values:
  "store_ok w \<Longrightarrow> distinct (map fst dict) \<Longrightarrow>
     GetValue k (fold (\<lambda>(k, v). stored k v) dict w) =
       (case map_of dict k of Some v \<Rightarrow> Some v | None \<Rightarrow> GetValue k w)"
proof (induction dict arbitrary: w)
  case Nil
  then show ?case by simp
next
  case (Cons e dict)
  obtain k' v where e: "e = (k', v)" by (cases e)
  show ?case
    using Cons.IH [OF store_ok_stored, of w k' v] Cons.prems
    by (auto simp: e GetValue_stored split: option.splits dest: map_of_SomeD)
      (metis image_eqI map_of_SomeD fst_conv)+
qed

lemma fold_stored_events:
  "store_ok w \<Longrightarrow> distinct (map fst dict) \<Longrightarrow>
     w_events (fold (\<lambda>(k, v). stored k v) dict w) = w_events w @
       concat (map (\<lambda>(k, v). concat (map (event_of w k) (observers_of w k)))
         (filter (\<lambda>(k, v). GetValue k w \<noteq> Some v) dict))"
proof (induction dict arbitrary: w)
  case Nil
  then show ?case by simp
next
  case (Cons e dict)
  obtain k v where e: "e = (k, v)" by (cases e)
  have "filter (\<lambda>(k', v'). GetValue k' (stored k v w) \<noteq> Some v') dict =
        filter (\<lambda>(k', v'). GetValue k' w \<noteq> Some v') dict"
    using Cons.prems by (intro filter_cong refl) (force simp: e GetValue_stored)
  then show ?case
    using Cons.IH [OF store_ok_stored, of w k v] Cons.prems
    by (auto simp: e events_stored)
qed

text \<open>C23. \<open>ChangeContent\<close> on a dictionary whose keys are all in the store and whose values
  the members accept succeeds, and it merges the dictionary into the store, leaves the other
  values alone, keeps the invariant, and notifies exactly the observers of the keys whose
  value differs, key by key in the order of the dictionary.\<close>

theorem ChangeContent_merges:
  assumes "store_ok w" and "map_keys_ok dict"
    and "\<And>k v. (k, v) \<in> set dict \<Longrightarrow> HasPrefPath k w \<and> accepts w k v"
  shows "\<exists>w'. ChangeContent dict w = Inr w' \<and> store_ok w' \<and>
     map_of (w_prefs w') = map_of (w_prefs w) ++ map_of dict \<and>
     w_events w' = w_events w @
       concat (map (\<lambda>(k, v). concat (map (event_of w k) (observers_of w k)))
         (filter (\<lambda>(k, v). GetValue k w \<noteq> Some v) dict))"
proof -
  let ?w = "fold (\<lambda>(k, v). stored k v) dict w"
  have dist: "distinct (map fst dict)" using assms(2) by (rule map_keys_ok_distinct)
  have "map_of (w_prefs ?w) = map_of (w_prefs w) ++ map_of dict"
    using fold_stored_values [OF assms(1) dist]
    by (auto simp: GetValue_def fun_eq_iff map_add_def split: option.splits)
  then show ?thesis
    using ChangeContent_folds [OF assms(1,3)] fold_stored_ok [OF assms(1)]
      fold_stored_events [OF assms(1) dist] by auto
qed

text \<open>A store with two keys, a member of each, and an observer of the second.\<close>

definition sample_member :: "string \<Rightarrow> nat \<Rightarrow> (nat, nat) member" where
  "sample_member name x = \<lparr>m_name = name, m_has_prefs = True, m_has_observer = True,
     m_setting = False, m_value = x, m_loop = None, m_get = Some, m_make = (\<lambda>x. x)\<rparr>"

definition sample_world :: "(nat, nat) world" where
  "sample_world = \<lparr>w_prefs = [(''a'', 10), (''b'', 20)],
     w_observers = [''a'' \<mapsto> [11, 13], ''b'' \<mapsto> [12, 15]], w_checker = Some 0,
     w_members = [11 \<mapsto> sample_member ''a'' 10, 12 \<mapsto> sample_member ''b'' 20,
                  13 \<mapsto> sample_member ''a'' 10],
     w_events = [], w_thread = 0, w_has_loop = True\<rparr>"

lemma sample_world_ok: "store_ok sample_world"
  by (auto simp: store_ok_def sample_world_def sample_member_def observers_ok_def member_ok_def
      HasPrefPath_def GetValue_def IsOnCorrectThread_def split: if_splits)

lemma sample_world_accepts: "accepts sample_world k v"
  by (auto simp: accepts_def sample_world_def sample_member_def observers_of_def
      split: option.splits if_splits)

lemma sample_world_simps:
  "HasPrefPath k sample_world \<longleftrightarrow> k = ''a'' \<or> k = ''b''"
  "GetValue ''a'' sample_world = Some 10"
  "GetValue ''b'' sample_world = Some 20"
  "w_events sample_world = []"
  "observers_of sample_world ''a'' = [11, 13]"
  "event_of sample_world ''a'' 11 = [Called 11 ''a'']"
  "event_of sample_world ''a'' 13 = [Called 13 ''a'']"
  by (auto simp: HasPrefPath_def GetValue_def sample_world_def sample_member_def
      observers_of_def event_of_def)

lemma ChangeContent_merges_witness:
  "\<exists>w'. ChangeContent [(''a'', 7), (''b'', 20)] sample_world = Inr w' \<and> store_ok w' \<and>
     w_events w' = [Called 11 ''a'', Called 13 ''a'']"
proof -
  have "map_keys_ok [(''a'', 7), (''b'', 20 :: nat)]" by simp
  moreover have "HasPrefPath k sample_world \<and> accepts sample_world k v"
    if "(k, v) \<in> set [(''a'', 7), (''b'', 20)]" for k v
    using that by (auto simp: sample_world_simps sample_world_accepts)
  ultimately show ?thesis
    using ChangeContent_merges [OF sample_world_ok, of "[(''a'', 7), (''b'', 20)]"]
    by (auto simp: sample_world_simps)
qed

text \<open>Where the dictionary has a key that the store has not, \<open>ChangeContent\<close> fails its
  DCHECK at the first such key, after it has stored the entries before it.\<close>

theorem ChangeContent_rejects_new_key:
  assumes "store_ok w"
    and "\<And>k v. (k, v) \<in> set before \<Longrightarrow> HasPrefPath k w \<and> accepts w k v"
    and "\<not> HasPrefPath key w"
  shows "ChangeContent (before @ (key, value) # after) w = Inl DcheckFailed"
proof -
  have "\<not> HasPrefPath key (fold (\<lambda>(k, v). stored k v) before w)"
    using assms
  proof (induction before arbitrary: w)
    case Nil
    then show ?case by simp
  next
    case (Cons e before)
    obtain k v where e: "e = (k, v)" by (cases e)
    have "k \<noteq> key" using Cons.prems(2) [of k v] Cons.prems(3) by (auto simp: e)
    then show ?case
      using Cons.IH [OF store_ok_stored, of w k v] Cons.prems
      by (auto simp: e HasPrefPath_def GetValue_stored)
  qed
  then show ?thesis
    using ChangeContent_folds [OF assms(1,2)] unfolding ChangeContent_def
    by (simp add: for_each_append)
qed

lemma ChangeContent_rejects_new_key_witness:
  "ChangeContent ([(''a'', 7)] @ (''c'', 1) # []) sample_world = Inl DcheckFailed"
  by (rule ChangeContent_rejects_new_key [OF sample_world_ok])
    (auto simp: sample_world_accepts sample_world_simps)

text \<open>The fold of \<open>Reset\<close> and \<open>Serialize\<close> over a list in key order rebuilds the list.\<close>

lemma map_put_last:
  "map_keys_ok xs \<Longrightarrow> (\<And>x. x \<in> set xs \<Longrightarrow> fst x < k) \<Longrightarrow> map_put k v xs = xs @ [(k, v)]"
proof (induction xs)
  case Nil
  then show ?case by simp
next
  case (Cons x xs)
  obtain k' v' where x: "x = (k', v')" by (cases x)
  have "k' < k" using Cons.prems(2) [of x] x by simp
  then have "k \<noteq> k'" "\<not> k < k'" by auto
  then show ?case using Cons x by simp
qed

lemma fold_map_put:
  "map_keys_ok (ys @ xs) \<Longrightarrow> fold (\<lambda>(k, v). map_put k v) xs ys = ys @ xs"
proof (induction xs arbitrary: ys)
  case Nil
  then show ?case by simp
next
  case (Cons x xs)
  obtain k v where x: "x = (k, v)" by (cases x)
  have ord: "map_keys_ok ys" "\<And>y. y \<in> set ys \<Longrightarrow> fst y < k"
    using Cons.prems by (auto simp: map_keys_ok_def sorted_wrt_append x)
  have "map_put k v ys = ys @ [(k, v)]" using ord by (rule map_put_last)
  then show ?case using Cons.IH [of "ys @ [(k, v)]"] Cons.prems by (simp add: x)
qed

text \<open>\<open>Serialize\<close> gives the whole content, and a store that is reset to what another
  store serialised has the same content, no change set in either direction, and has notified
  nobody.\<close>

theorem Serialize_Reset:
  assumes "map_keys_ok (w_prefs w)"
  shows "map_of (Serialize w) = map_of (w_prefs w) \<and>
    w_prefs (Reset (Serialize w) w2) = w_prefs w \<and>
    ChangedSet w (Reset (Serialize w) w2) = [] \<and> ChangedSet (Reset (Serialize w) w2) w = [] \<and>
    w_events (Reset (Serialize w) w2) = w_events w2"
proof -
  have ser: "Serialize w = w_prefs w"
    using fold_map_put [of "[]" "w_prefs w"] assms by (simp add: Serialize_def)
  have prefs: "w_prefs (Reset (Serialize w) w2) = w_prefs w"
    using fold_map_put [of "[]" "w_prefs w"] assms by (simp add: ser Reset_def)
  have "ChangedSet w (Reset (Serialize w) w2) = []" "ChangedSet (Reset (Serialize w) w2) w = []"
    using assms by (auto simp: ChangedSet_def GetValue_def prefs filter_empty_conv map_of_eq_Some_iff_ok)
  then show ?thesis using ser prefs by (simp add: Reset_def)
qed

lemma Serialize_Reset_witness:
  "ChangedSet sample_world (Reset (Serialize sample_world) sample_world) = []"
  using Serialize_Reset [of sample_world sample_world] by (simp add: sample_world_def)

text \<open>After \<open>a.ChangeContent(b.Serialize())\<close>, with the keys of \<open>b\<close> all in \<open>a\<close>, the
  store \<open>b\<close> has no change against \<open>a\<close>: a second \<open>ChangeContent\<close> with the same dictionary
  changes nothing and notifies nobody.\<close>

theorem ChangeContent_reverts:
  assumes "store_ok w" and "map_keys_ok (w_prefs b)"
    and "\<And>k v. (k, v) \<in> set (w_prefs b) \<Longrightarrow> HasPrefPath k w \<and> accepts w k v"
  shows "\<exists>w'. ChangeContent (Serialize b) w = Inr w' \<and> ChangedSet b w' = [] \<and>
     ChangeContent (Serialize b) w' = Inr w'"
proof -
  let ?d = "w_prefs b"
  let ?w = "fold (\<lambda>(k, v). stored k v) ?d w"
  have ser: "Serialize b = ?d"
    using fold_map_put [of "[]" "w_prefs b"] assms(2) by (simp add: Serialize_def)
  have ok: "store_ok ?w" by (rule fold_stored_ok [OF assms(1)])
  have get: "GetValue k ?w = Some v" if "(k, v) \<in> set ?d" for k v
    using fold_stored_values [OF assms(1) map_keys_ok_distinct [OF assms(2)], of k]
      map_of_eq_Some_iff_ok [OF assms(2), of k v] that by simp
  have same: "fold (\<lambda>(k, v). stored k v) xs ?w = ?w" if "set xs \<subseteq> set ?d" for xs
    using that by (induction xs) (auto simp: stored_def get)
  have "ChangeContent ?d ?w = Inr (fold (\<lambda>(k, v). stored k v) ?d ?w)"
    by (rule ChangeContent_folds [OF ok]) (use assms(3) in \<open>auto simp: HasPrefPath_def get\<close>)
  then show ?thesis
    using ChangeContent_folds [OF assms(1,3)] get same [OF order_refl]
    by (auto simp: ser ChangedSet_def filter_empty_conv)
qed

lemma ChangeContent_reverts_witness:
  "\<exists>w'. ChangeContent (Serialize (sample_world\<lparr>w_prefs := [(''a'', 9)]\<rparr>)) sample_world = Inr w' \<and>
     ChangedSet (sample_world\<lparr>w_prefs := [(''a'', 9)]\<rparr>) w' = []"
  using ChangeContent_reverts [of sample_world "sample_world\<lparr>w_prefs := [(''a'', 9)]\<rparr>"]
  by (auto simp: sample_world_ok sample_world_simps sample_world_accepts)

text \<open>Changing a member's value or its flag keeps the invariant.\<close>

lemma put_member_simps [simp]:
  "w_prefs (put_member p m w) = w_prefs w"
  "w_observers (put_member p m w) = w_observers w"
  "w_checker (put_member p m w) = w_checker w"
  "w_members (put_member p m w) = (w_members w)(p \<mapsto> m)"
  "w_events (put_member p m w) = w_events w"
  "w_thread (put_member p m w) = w_thread w"
  "GetValue k (put_member p m w) = GetValue k w"
  "observers_of (put_member p m w) = observers_of w"
  by (simp_all add: put_member_def GetValue_def observers_of_def fun_eq_iff)

lemma store_ok_put_member:
  assumes ok: "store_ok w" and m: "w_members w p = Some m"
    and same: "m_name m' = m_name m" "m_has_prefs m' = m_has_prefs m" "m_loop m' = m_loop m"
  shows "store_ok (put_member p m' w)" (is "store_ok ?w")
proof -
  have "observers_ok ?w"
    unfolding observers_ok_def put_member_simps
  proof (intro allI impI conjI ballI)
    fix key os assume os: "w_observers w key = Some os"
    then show "distinct os" using store_okD(2) [OF ok] unfolding observers_ok_def by blast
    fix q mq assume q: "q \<in> set os" "((w_members w)(p \<mapsto> m')) q = Some mq"
    have "m_has_prefs m \<and> m_name m = key" if "q = p"
      using store_okD(2) [OF ok] os q(1) m that unfolding observers_ok_def by blast
    moreover have "m_has_prefs mq \<and> m_name mq = key" if "q \<noteq> p"
      using store_okD(2) [OF ok] os q that unfolding observers_ok_def by force
    ultimately show "m_has_prefs mq" "m_name mq = key" using q(2) same by (cases "q = p"; simp)+
  qed
  moreover have "member_ok ?w q mq" if q: "w_members ?w q = Some mq" for q mq
  proof (cases "q = p")
    case True
    then show ?thesis using q store_okD(3) [OF ok m] same
      by (simp add: member_ok_def HasPrefPath_def IsOnCorrectThread_def)
  next
    case False
    then show ?thesis using q store_okD(3) [OF ok, of q mq]
      by (simp add: member_ok_def HasPrefPath_def IsOnCorrectThread_def)
  qed
  ultimately show ?thesis using ok by (simp add: store_ok_def)
qed

lemma accepts_put_member:
  assumes "w_members w p = Some m" and "m_get m' = m_get m"
  shows "accepts (put_member p m' w) = accepts w"
proof (intro ext)
  show "accepts (put_member p m' w) k v = accepts w k v" for k v
    unfolding accepts_def put_member_simps by (rule ball_cong) (use assms in auto)
qed

lemma Member_value_reads:
  assumes "store_ok w" and "w_members w q = Some m" and "m_has_prefs m"
    and "GetValue (m_name m) w = Some v" and "m_get m v = Some y"
  shows "Member_value q w = Inr (y, put_member q (m\<lparr>m_value := y\<rparr>) w)"
  using assms store_okD(3) [OF assms(1,2)]
  by (simp add: Member_value_def VerifyPref_def with_member_def UpdateValueFromPref_def
      member_ok_def HasPrefPath_def Let_def)

lemma events_without:
  assumes "f p = []" and "\<And>q. q \<noteq> p \<Longrightarrow> f q = g q"
  shows "concat (map f os) = concat (map g (filter (\<lambda>q. q \<noteq> p) os))"
  using assms by (induction os) auto

text \<open>C24. \<open>StoreMember::set_value\<close> stores the value, keeps the invariant, and calls the
  callbacks of the other members of the name, once each and in the order in which they were
  registered; its own callback is not called, and where the stored value was already that
  value nobody is called at all.  Every member of the name then reads the new value.\<close>

theorem set_value_syncs:
  assumes "store_ok w" and "w_members w p = Some m" and "m_has_prefs m" and "\<not> m_setting m"
    and "accepts w (m_name m) (m_make m x)"
  shows "\<exists>w'. Member_set_value p x w = Inr w' \<and> store_ok w' \<and>
     GetValue (m_name m) w' = Some (m_make m x) \<and>
     w_events w' = w_events w @
       (if GetValue (m_name m) w = Some (m_make m x) then []
        else concat (map (event_of w (m_name m))
               (filter (\<lambda>q. q \<noteq> p) (observers_of w (m_name m))))) \<and>
     (\<forall>q mq y. w_members w q = Some mq \<and> m_has_prefs mq \<and> m_name mq = m_name m \<and>
        m_get mq (m_make m x) = Some y \<longrightarrow> (\<exists>w2. Member_value q w' = Inr (y, w2)))"
proof -
  let ?n = "m_name m" and ?v = "m_make m x"
  let ?w1 = "put_member p (m\<lparr>m_setting := True\<rparr>) w"
  let ?w2 = "stored ?n ?v ?w1"
  have ok1: "store_ok ?w1" by (rule store_ok_put_member [OF assms(1,2)]) simp_all
  have acc1: "accepts ?w1 = accepts w" by (rule accepts_put_member [OF assms(2)]) simp
  have set1: "UpdatePref p x ?w1 = Inr ?w2"
    using SetValue_stores [OF ok1] assms(3,5) acc1 by (simp add: UpdatePref_def with_member_def)
  have ok2: "store_ok ?w2" by (rule store_ok_stored [OF ok1])
  obtain m2 where m2: "w_members ?w2 p = Some m2" "m_name m2 = ?n" "m_has_prefs m2"
    "m_loop m2 = m_loop m" "m_get m2 = m_get m"
    using stored_member [of ?w1 p "m\<lparr>m_setting := True\<rparr>" ?n ?v] assms(3) by auto
  let ?w3 = "put_member p (m2\<lparr>m_setting := False\<rparr>) ?w2"
  have ok3: "store_ok ?w3" by (rule store_ok_put_member [OF ok2 m2(1)]) simp_all
  have "member_ok w p m" using store_okD(3) [OF assms(1,2)] .
  then have run: "Member_set_value p x w = Inr ?w3"
    using assms(2,3) set1 m2(1)
    by (simp add: Member_set_value_def with_member_def member_ok_def set_setting_def)
  have val: "GetValue ?n ?w3 = Some ?v" by (simp add: GetValue_stored [OF ok1])
  have ev: "concat (map (event_of ?w1 ?n) (observers_of w ?n)) =
            concat (map (event_of w ?n) (filter (\<lambda>q. q \<noteq> p) (observers_of w ?n)))"
    by (rule events_without) (simp_all add: event_of_def)
  have "\<exists>w2. Member_value q ?w3 = Inr (y, w2)"
    if q: "w_members w q = Some mq" "m_has_prefs mq" "m_name mq = ?n" "m_get mq ?v = Some y" for q mq y
  proof -
    obtain mq' where mq': "w_members ?w3 q = Some mq'" "m_has_prefs mq'" "m_name mq' = ?n"
      "m_get mq' = m_get mq"
    proof (cases "q = p")
      case True
      then have "mq = m" using q(1) assms(2) by simp
      then show ?thesis using True m2 by (intro that [of "m2\<lparr>m_setting := False\<rparr>"]) simp_all
    next
      case False
      then have "w_members ?w1 q = Some mq" using q(1) by simp
      from stored_member [OF this, of ?n ?v] obtain mq' where "w_members ?w2 q = Some mq'"
        "m_name mq' = m_name mq" "m_has_prefs mq' = m_has_prefs mq" "m_get mq' = m_get mq" by blast
      with False q show ?thesis by (intro that [of mq']) simp_all
    qed
    show ?thesis
      using Member_value_reads [OF ok3 mq'(1,2)] val q(4) mq'(3,4) by auto
  qed
  with run ok3 val ev show ?thesis by (auto simp: events_stored)
qed

lemma set_value_syncs_witness:
  "\<exists>w'. Member_set_value 11 7 sample_world = Inr w' \<and>
     GetValue ''a'' w' = Some 7 \<and> w_events w' = [Called 13 ''a'']"
proof -
  have "w_members sample_world 11 = Some (sample_member ''a'' 10)"
    by (simp add: sample_world_def)
  then show ?thesis
    using set_value_syncs [OF sample_world_ok, of 11 "sample_member ''a'' 10" 7]
    by (auto simp: sample_world_accepts sample_world_simps)
      (auto simp: sample_member_def sample_world_simps)
qed

text \<open>Removing the value of a key whose first observer is a member fails the member's
  DCHECK: the notification finds the key gone.\<close>

theorem RemoveValue_with_member:
  assumes "store_ok w" and "HasPrefPath key w" and "observers_of w key = p # os"
    and "w_members w p = Some m"
  shows "RemoveValue key w = Inl DcheckFailed"
proof -
  obtain os' where os: "w_observers w key = Some os'" "os' = p # os"
    using assms(3) by (cases "w_observers w key") (auto simp: observers_of_def)
  then have m: "m_has_prefs m" "m_name m = key"
    using store_okD(2) [OF assms(1)] assms(4) unfolding observers_ok_def by fastforce+
  moreover have "key \<noteq> ''''" using store_okD(3) [OF assms(1,4)] m by (auto simp: member_ok_def)
  moreover have "w_checker w = None \<or> w_checker w = Some (w_thread w)"
    using assms(1) by (simp add: store_ok_def)
  ultimately show ?thesis
    using assms(2,4) os
    by (auto simp: RemoveValue_def ReportValueChanged_def FireObservers_def CalledOnValidThread_def
        OnPreferenceChanged_def StoreMember_OnPreferenceChanged_def with_member_def
        UpdateValueFromPref_def HasPrefPath_def GetValue_def map_of_erase)
qed

lemma RemoveValue_with_member_witness:
  "RemoveValue ''a'' sample_world = Inl DcheckFailed"
  by (rule RemoveValue_with_member [OF sample_world_ok, where p = 11 and os = "[13]"])
    (simp_all add: sample_world_simps, simp add: sample_world_def)

subsection \<open>Members come and go\<close>

lemma observers_ofI: "w_observers w key = Some os \<Longrightarrow> observers_of w key = os"
  by (simp add: observers_of_def)

text \<open>\<open>Init\<close> on a key of the store registers the member behind the observers the key
  already has, keeps the invariant and calls nobody; \<open>Destroy\<close> afterwards takes it out of
  its list again and leaves every other list as it was.\<close>

lemma Init_registers:
  assumes ok: "store_ok w" and m: "w_members w p = Some m" "m_name m = ''''"
    and key: "HasPrefPath key w" "key \<noteq> ''''" and new: "\<And>k. p \<notin> set (observers_of w k)"
  shows "\<exists>w'. Init p key obs w = Inr w' \<and> store_ok w' \<and>
    observers_of w' = (observers_of w)(key := observers_of w key @ [p]) \<and>
    w_events w' = w_events w \<and> w_prefs w' = w_prefs w \<and>
    (\<exists>m'. w_members w' p = Some m' \<and> m_name m' = key \<and> m_has_prefs m' \<and>
       m_has_observer m' = obs)"
proof -
  define m' where "m' = m\<lparr>m_has_observer := obs, m_has_prefs := True, m_name := key,
    m_loop := (if w_has_loop w then Some (w_thread w) else None)\<rparr>"
  define w' where "w' = put_member p m'
    (w\<lparr>w_observers := (w_observers w)(key \<mapsto> observers_of w key @ [p])\<rparr>)"
  have run: "Init p key obs w = Inr w'"
    using m key new [of key]
    by (simp add: Init_def with_member_def AddPrefObserver_def w'_def m'_def observers_of_def)
  have obs': "observers_of w' = (observers_of w)(key := observers_of w key @ [p])"
    by (simp add: w'_def observers_of_def fun_eq_iff)
  have "observers_ok w'"
    unfolding observers_ok_def
  proof (intro allI impI)
    fix k os assume "w_observers w' k = Some os"
    then have os: "(k = key \<and> os = observers_of w key @ [p]) \<or>
        (k \<noteq> key \<and> w_observers w k = Some os)"
      by (auto simp: w'_def split: if_splits)
    have old: "distinct os0 \<and> (\<forall>q \<in> set os0. q \<noteq> p \<and>
        (\<forall>mq. w_members w q = Some mq \<longrightarrow> m_has_prefs mq \<and> m_name mq = k))"
      if "os0 = observers_of w k" for os0
    proof (cases "w_observers w k")
      case None
      then show ?thesis using that by (simp add: observers_of_def)
    next
      case (Some os1)
      then show ?thesis
        using that store_okD(2) [OF ok] new [of k]
        unfolding observers_ok_def by (auto simp: observers_of_def)
    qed
    have "os = observers_of w k @ [p] \<and> k = key \<or> os = observers_of w k"
      using os by (auto simp: observers_of_def)
    then show "distinct os \<and> (\<forall>q \<in> set os. \<forall>mq. w_members w' q = Some mq \<longrightarrow>
        m_has_prefs mq \<and> m_name mq = k)"
      using old [OF refl] by (auto simp: w'_def m'_def)
  qed
  moreover have "member_ok w' q mq" if "w_members w' q = Some mq" for q mq
  proof (cases "q = p")
    case True
    then show ?thesis using that key
      by (auto simp: w'_def m'_def member_ok_def HasPrefPath_def GetValue_def IsOnCorrectThread_def)
  next
    case False
    then have "member_ok w q mq" using that store_okD(3) [OF ok] by (simp add: w'_def)
    then show ?thesis
      by (auto simp: w'_def member_ok_def HasPrefPath_def GetValue_def IsOnCorrectThread_def
          observers_of_def)
  qed
  ultimately have "store_ok w'" using ok by (simp add: store_ok_def w'_def)
  with run obs' show ?thesis by (simp add: w'_def m'_def)
qed

lemma Destroy_unregisters:
  assumes ok: "store_ok w" and m: "w_members w p = Some m" "m_has_prefs m"
  shows "\<exists>w'. Destroy p w = Inr w' \<and> store_ok w' \<and>
    observers_of w' = (observers_of w)(m_name m := removeAll p (observers_of w (m_name m))) \<and>
    (\<forall>k. p \<notin> set (observers_of w' k)) \<and> w_events w' = w_events w"
proof -
  obtain os where os: "w_observers w (m_name m) = Some os" "p \<in> set os" and ne: "m_name m \<noteq> ''''"
    using store_okD(3) [OF ok m(1)] m(2) by (auto simp: member_ok_def)
  define w' where "w' = put_member p (m\<lparr>m_has_prefs := False\<rparr>)
    (w\<lparr>w_checker := Some (w_thread w),
       w_observers := (w_observers w)(m_name m \<mapsto> removeAll p os)\<rparr>)"
  have run: "Destroy p w = Inr w'"
    using m ne os
    by (simp add: Destroy_def with_member_def RemovePrefObserver_def w'_def
        store_ok_thread [OF ok])
  have obs': "observers_of w' =
      (observers_of w)(m_name m := removeAll p (observers_of w (m_name m)))"
    using os by (auto simp: w'_def observers_of_def fun_eq_iff)
  have inlist: "distinct os0 \<and> (\<forall>q \<in> set os0. \<forall>mq. w_members w q = Some mq \<longrightarrow>
      m_has_prefs mq \<and> m_name mq = k)" if "w_observers w k = Some os0" for k os0
    using store_okD(2) [OF ok] that unfolding observers_ok_def by blast
  have gone: "p \<notin> set (observers_of w' k)" for k
  proof (cases "w_observers w k")
    case None
    then show ?thesis using os by (auto simp: obs' observers_of_def)
  next
    case (Some os0)
    then show ?thesis using inlist [OF Some] m(1) os by (auto simp: obs' observers_of_def)
  qed
  have "observers_ok w'"
    unfolding observers_ok_def
  proof (intro allI impI)
    fix k os0 assume k: "w_observers w' k = Some os0"
    obtain os1 where os1: "w_observers w k = Some os1" "os0 = removeAll p os1 \<or> os0 = os1"
      using k os by (auto simp: w'_def split: if_splits)
    have "p \<notin> set os0" using gone [of k] k by (simp add: observers_of_def)
    then show "distinct os0 \<and> (\<forall>q \<in> set os0. \<forall>mq. w_members w' q = Some mq \<longrightarrow>
        m_has_prefs mq \<and> m_name mq = k)"
      using inlist [OF os1(1)] os1(2) by (auto simp: w'_def distinct_removeAll)
  qed
  moreover have "member_ok w' q mq" if "w_members w' q = Some mq" for q mq
  proof (cases "q = p")
    case True
    then show ?thesis using that store_okD(3) [OF ok m(1)]
      by (auto simp: w'_def member_ok_def IsOnCorrectThread_def)
  next
    case False
    then have "member_ok w q mq" using that store_okD(3) [OF ok] by (simp add: w'_def)
    then show ?thesis using False os
      by (auto simp: w'_def member_ok_def HasPrefPath_def GetValue_def IsOnCorrectThread_def)
  qed
  ultimately have "store_ok w'" using ok by (simp add: store_ok_def w'_def)
  with run obs' gone show ?thesis by (auto simp: w'_def)
qed

end
