(* ===== verification/Device_Error.thy ===== *)
theory Device_Error
  imports Prelude
begin

text \<open>
  Device errors: the list of canscope/device_error_list.h, the enum it generates, the last
  error of each thread (canscope/device_errors.h, device_errors.cc) and its way through a
  dictionary.  An \<open>Error\<close> is its integer, as \<open>static_cast\<close> makes any integer one.  The
  thread-local pointer is a map from threads to \<open>ScopedDeviceError\<close> objects; reading the
  error of a thread that has none reads through NULL.
\<close>

type_synonym Error = int

subsection \<open>The error list\<close>

definition device_error_list :: "(string \<times> Error) list" where
  "device_error_list =
    [(''DEVICE_NO_START'', -11), (''DEVICE_CLOSING'', -12), (''READ_DEVICE'', -13),
     (''WRITE_DEVICE'', -14), (''DEVICE_LOCEKD'', -15), (''DEVICE_OPEN'', -16),
     (''DEVICE_INFO'', -17), (''DEVICE_LOADFPGAFILE'', -18), (''DEVICE_DOWNLOADFPGA'', -19),
     (''OSC_DEVICE_TIMEOUT_NOTTRIG'', -20), (''FPGA_SEND_TIMEOUT'', -21), (''DEVICE_CLOSE'', -22),
     (''FRAME_SIZE_NO_ALIGNED'', -23), (''OVERFLOW'', -400), (''UNDERFLOW'', -401),
     (''INVAILD_VALUE'', -499)]"

definition OK :: Error where "OK = 0"

definition ERR_DEVICE_NO_START :: Error where "ERR_DEVICE_NO_START = -11"
definition ERR_DEVICE_CLOSING :: Error where "ERR_DEVICE_CLOSING = -12"
definition ERR_READ_DEVICE :: Error where "ERR_READ_DEVICE = -13"
definition ERR_WRITE_DEVICE :: Error where "ERR_WRITE_DEVICE = -14"
definition ERR_DEVICE_LOCEKD :: Error where "ERR_DEVICE_LOCEKD = -15"
definition ERR_DEVICE_OPEN :: Error where "ERR_DEVICE_OPEN = -16"
definition ERR_DEVICE_INFO :: Error where "ERR_DEVICE_INFO = -17"
definition ERR_DEVICE_LOADFPGAFILE :: Error where "ERR_DEVICE_LOADFPGAFILE = -18"
definition ERR_DEVICE_DOWNLOADFPGA :: Error where "ERR_DEVICE_DOWNLOADFPGA = -19"
definition ERR_OSC_DEVICE_TIMEOUT_NOTTRIG :: Error where "ERR_OSC_DEVICE_TIMEOUT_NOTTRIG = -20"
definition ERR_FPGA_SEND_TIMEOUT :: Error where "ERR_FPGA_SEND_TIMEOUT = -21"
definition ERR_DEVICE_CLOSE :: Error where "ERR_DEVICE_CLOSE = -22"
definition ERR_FRAME_SIZE_NO_ALIGNED :: Error where "ERR_FRAME_SIZE_NO_ALIGNED = -23"
definition ERR_OVERFLOW :: Error where "ERR_OVERFLOW = -400"
definition ERR_UNDERFLOW :: Error where "ERR_UNDERFLOW = -401"
definition ERR_INVAILD_VALUE :: Error where "ERR_INVAILD_VALUE = -499"

lemmas error_defs = OK_def ERR_DEVICE_NO_START_def ERR_DEVICE_CLOSING_def ERR_READ_DEVICE_def
  ERR_WRITE_DEVICE_def ERR_DEVICE_LOCEKD_def ERR_DEVICE_OPEN_def ERR_DEVICE_INFO_def
  ERR_DEVICE_LOADFPGAFILE_def ERR_DEVICE_DOWNLOADFPGA_def ERR_OSC_DEVICE_TIMEOUT_NOTTRIG_def
  ERR_FPGA_SEND_TIMEOUT_def ERR_DEVICE_CLOSE_def ERR_FRAME_SIZE_NO_ALIGNED_def
  ERR_OVERFLOW_def ERR_UNDERFLOW_def ERR_INVAILD_VALUE_def

definition ErrorToString :: "Error \<Rightarrow> string" where
  "ErrorToString error =
     (if error = OK then ''device::OK''
      else case find (\<lambda>(label, value). value = error) device_error_list of
             Some (label, value) \<Rightarrow> ''device::ERR_'' @ label
           | None \<Rightarrow> ''device::<unknown>'')"

subsection \<open>The last error of a thread\<close>

record ErrorState =
  es_tls :: "nat \<Rightarrow> ptr option"
  es_last_error :: "ptr \<Rightarrow> Error"

definition LastDeviceError :: "nat \<Rightarrow> ErrorState \<Rightarrow> Error res" where
  "LastDeviceError t s =
     (case es_tls s t of None \<Rightarrow> Inl Undefined | Some p \<Rightarrow> Inr (es_last_error s p))"

definition put_error :: "nat \<Rightarrow> Error \<Rightarrow> ErrorState \<Rightarrow> ErrorState res" where
  "put_error t error s =
     (case es_tls s t of
        None \<Rightarrow> Inl Undefined
      | Some p \<Rightarrow> Inr (s\<lparr>es_last_error := (es_last_error s)(p := error)\<rparr>))"

definition SetDeviceError :: "nat \<Rightarrow> Error \<Rightarrow> ErrorState \<Rightarrow> ErrorState res" where
  "SetDeviceError t error s =
     and_then (LastDeviceError t s) (\<lambda>last_error.
       DCHECK (last_error = OK) (put_error t error s))"

definition SetDeviceErrorIfNoError :: "nat \<Rightarrow> Error \<Rightarrow> ErrorState \<Rightarrow> ErrorState res" where
  "SetDeviceErrorIfNoError t error s =
     and_then (LastDeviceError t s) (\<lambda>last_error.
       if last_error = OK then put_error t error s else Inr s)"

definition CleanError :: "nat \<Rightarrow> ErrorState \<Rightarrow> ErrorState res" where
  "CleanError t s = put_error t OK s"

definition ScopedDeviceError_new :: "nat \<Rightarrow> ptr \<Rightarrow> ErrorState \<Rightarrow> ErrorState res" where
  "ScopedDeviceError_new t this s =
     DCHECK (es_tls s t = None)
       (Inr (s\<lparr>es_last_error := (es_last_error s)(this := OK), es_tls := (es_tls s)(t := Some this)\<rparr>))"

definition ScopedDeviceError_destroy :: "nat \<Rightarrow> ptr \<Rightarrow> ErrorState \<Rightarrow> ErrorState res" where
  "ScopedDeviceError_destroy t this s =
     DCHECK (es_tls s t = Some this) (Inr (s\<lparr>es_tls := (es_tls s)(t := None)\<rparr>))"

text \<open>A dictionary value, as far as errors travel in it: integers by key.\<close>

definition ErrorAsDictionary :: "Error \<Rightarrow> (string \<times> int) list" where
  "ErrorAsDictionary error = [(''error'', error)]"

definition ErrorFromDictonary :: "(string \<times> int) list \<Rightarrow> Error res" where
  "ErrorFromDictonary value =
     (case map_of value ''error'' of None \<Rightarrow> Inl Undefined | Some error \<Rightarrow> Inr error)"

subsection \<open>Properties\<close>

lemma error_codes_distinct: "distinct (map snd device_error_list)" and
  error_labels_distinct: "distinct (map fst device_error_list)"
  by (simp_all add: device_error_list_def)

lemma error_codes_negative: "list_all (\<lambda>e. snd e < 0) device_error_list"
  by (simp add: device_error_list_def)

lemma find_value:
  "distinct (map snd xs) \<Longrightarrow> (l, v) \<in> set xs \<Longrightarrow> find (\<lambda>(_, v'). v' = v) xs = Some (l, v)"
  by (induction xs) (auto simp: rev_image_eqI)

lemma ErrorToString_listed:
  assumes "(label, value) \<in> set device_error_list"
  shows "ErrorToString value = ''device::ERR_'' @ label"
proof -
  have "value \<noteq> OK"
    using assms error_codes_negative by (auto simp: list_all_iff OK_def)
  then show ?thesis
    by (simp add: ErrorToString_def find_value [OF error_codes_distinct assms])
qed

text \<open>Two different errors of the list have different texts, none of them the text of
  \<open>OK\<close> or of an unknown code, and an error that goes through a dictionary comes back.\<close>

theorem errors_distinguishable:
  assumes "(label, value) \<in> set device_error_list" and "(label', value') \<in> set device_error_list"
  shows "(ErrorToString value = ErrorToString value' \<longleftrightarrow> value = value') \<and>
    ErrorToString value \<notin> {''device::OK'', ''device::<unknown>''} \<and>
    ErrorFromDictonary (ErrorAsDictionary value) = Inr value"
proof (intro conjI)
  show "ErrorToString value = ErrorToString value' \<longleftrightarrow> value = value'"
  proof
    assume "ErrorToString value = ErrorToString value'"
    then have "label = label'" using assms by (simp add: ErrorToString_listed)
    then show "value = value'"
      using assms error_labels_distinct by (metis eq_key_imp_eq_value)
  qed simp
  show "ErrorToString value \<notin> {''device::OK'', ''device::<unknown>''}"
    using assms(1) by (simp add: ErrorToString_listed)
  show "ErrorFromDictonary (ErrorAsDictionary value) = Inr value"
    by (simp add: ErrorFromDictonary_def ErrorAsDictionary_def)
qed

lemma errors_distinguishable_witness:
  "ErrorToString ERR_READ_DEVICE \<noteq> ErrorToString ERR_WRITE_DEVICE"
  using errors_distinguishable [of "''READ_DEVICE''" ERR_READ_DEVICE "''WRITE_DEVICE''"
      ERR_WRITE_DEVICE]
  by (simp add: device_error_list_def error_defs)

lemma report_errors:
  assumes "es_tls s t = Some p"
  shows "\<exists>s'. for_each (SetDeviceErrorIfNoError t) errs s = Inr s' \<and> es_tls s' = es_tls s \<and>
    es_last_error s' p =
      (case dropWhile (\<lambda>e. e = OK) (es_last_error s p # errs) of [] \<Rightarrow> OK | e # _ \<Rightarrow> e) \<and>
    (\<forall>q. q \<noteq> p \<longrightarrow> es_last_error s' q = es_last_error s q)"
  using assms
proof (induction errs arbitrary: s)
  case Nil
  then show ?case by simp
next
  case (Cons e errs)
  let ?s = "if es_last_error s p = OK then s\<lparr>es_last_error := (es_last_error s)(p := e)\<rparr> else s"
  have "SetDeviceErrorIfNoError t e s = Inr ?s"
    using Cons.prems by (simp add: SetDeviceErrorIfNoError_def LastDeviceError_def put_error_def)
  moreover have "es_tls ?s t = Some p" using Cons.prems by simp
  ultimately show ?case using Cons.IH [of ?s] by auto
qed

text \<open>Within a \<open>ScopedDeviceError\<close>, the errors that lower layers report with
  \<open>SetDeviceErrorIfNoError\<close> keep the first that is not \<open>OK\<close>: that is the thread's last
  error, other threads see nothing of it, and the object's destructor finds itself.\<close>

theorem first_error_wins:
  assumes "es_tls s t = None"
  shows "\<exists>s1 s2. ScopedDeviceError_new t p s = Inr s1 \<and>
    for_each (SetDeviceErrorIfNoError t) errs s1 = Inr s2 \<and>
    LastDeviceError t s2 = Inr (case dropWhile (\<lambda>e. e = OK) errs of [] \<Rightarrow> OK | e # _ \<Rightarrow> e) \<and>
    (\<forall>u q. es_tls s u = Some q \<and> q \<noteq> p \<longrightarrow> LastDeviceError u s2 = LastDeviceError u s) \<and>
    (\<exists>s3. ScopedDeviceError_destroy t p s2 = Inr s3 \<and> es_tls s3 = es_tls s)"
proof -
  let ?s1 = "s\<lparr>es_last_error := (es_last_error s)(p := OK), es_tls := (es_tls s)(t := Some p)\<rparr>"
  obtain s2 where s2: "for_each (SetDeviceErrorIfNoError t) errs ?s1 = Inr s2"
    "es_tls s2 = es_tls ?s1"
    "es_last_error s2 p = (case dropWhile (\<lambda>e. e = OK) errs of [] \<Rightarrow> OK | e # _ \<Rightarrow> e)"
    "\<forall>q. q \<noteq> p \<longrightarrow> es_last_error s2 q = es_last_error s q"
    using report_errors [of ?s1 t p errs] by auto
  moreover have "(es_tls s)(t := None) = es_tls s" using assms by auto
  moreover have "LastDeviceError u s2 = LastDeviceError u s"
    if "es_tls s u = Some q" "q \<noteq> p" for u q
  proof -
    have "u \<noteq> t" using that assms by auto
    then show ?thesis using s2(2,4) that by (simp add: LastDeviceError_def)
  qed
  ultimately show ?thesis
    using assms
    by (intro exI [of _ ?s1] exI [of _ s2])
      (simp add: ScopedDeviceError_new_def ScopedDeviceError_destroy_def LastDeviceError_def)
qed

lemma first_error_wins_witness:
  "\<exists>s1 s2. ScopedDeviceError_new 1 8 \<lparr>es_tls = \<lambda>_. None, es_last_error = \<lambda>_. 0\<rparr> = Inr s1 \<and>
    for_each (SetDeviceErrorIfNoError 1) [OK, ERR_READ_DEVICE, ERR_WRITE_DEVICE] s1 = Inr s2 \<and>
    LastDeviceError 1 s2 = Inr ERR_READ_DEVICE"
  using first_error_wins [of "\<lparr>es_tls = \<lambda>_. None, es_last_error = \<lambda>_. 0\<rparr>" 1 8
      "[OK, ERR_READ_DEVICE, ERR_WRITE_DEVICE]"]
  by (auto simp: error_defs)

end
