(* ===== verification/Async_Task.thy ===== *)
theory Async_Task
  imports Complex_Main Prelude
begin

text \<open>
  \<open>AsyncTask\<close> (canscope/async_task.h, async_task.cc).  A worker thread reports through
  \<open>Notify...\<close>, which post a task to the loop of the thread that created the object; that
  thread runs the posted tasks in order, changes the status and calls the observers.
  \<open>at_queue\<close> holds the posted tasks, \<open>at_events\<close> the calls of the observers so far.  A
  percentage, a C++ \<open>double\<close>, is a real number; the parameter values that the calls pass on
  are left out.
\<close>

datatype AsyncTaskStatus = kNoStart | kRunning | kError | kCancel | kFinish

datatype posted =
    StartImpl
  | ProgressImpl real
  | FinishImpl AsyncTaskStatus

datatype task_event =
    OnStart ptr
  | OnProgress ptr int
  | OnFinish ptr AsyncTaskStatus

record AsyncTask =
  at_status :: AsyncTaskStatus
  at_percent :: real
  at_cancel :: bool
  at_observers :: "ptr list"
  at_queue :: "posted list"
  at_events :: "task_event list"

definition AsyncTask_new :: AsyncTask where
  "AsyncTask_new = \<lparr>at_status = kNoStart, at_percent = 0, at_cancel = False,
     at_observers = [], at_queue = [], at_events = []\<rparr>"

text \<open>\<open>static_cast<int>\<close> of a percentage, which is not negative, rounds down.\<close>

definition GetProgress :: "AsyncTask \<Rightarrow> int" where
  "GetProgress t = \<lfloor>at_percent t\<rfloor>"

definition Task_Cancel :: "AsyncTask \<Rightarrow> AsyncTask" where
  "Task_Cancel t = t\<lparr>at_cancel := True\<rparr>"

definition UserCancel :: "AsyncTask \<Rightarrow> bool" where
  "UserCancel t = at_cancel t"

definition Task_AddObserver :: "ptr \<Rightarrow> AsyncTask \<Rightarrow> AsyncTask res" where
  "Task_AddObserver obs t =
     (if obs \<in> set (at_observers t) then Inl NotReached
      else Inr (t\<lparr>at_observers := at_observers t @ [obs]\<rparr>))"

definition Task_RemoveObserver :: "ptr \<Rightarrow> AsyncTask \<Rightarrow> AsyncTask" where
  "Task_RemoveObserver obs t = t\<lparr>at_observers := removeAll obs (at_observers t)\<rparr>"

definition PostTask :: "posted \<Rightarrow> AsyncTask \<Rightarrow> AsyncTask" where
  "PostTask p t = t\<lparr>at_queue := at_queue t @ [p]\<rparr>"

definition call_observers :: "(ptr \<Rightarrow> task_event) \<Rightarrow> AsyncTask \<Rightarrow> AsyncTask" where
  "call_observers ev t = t\<lparr>at_events := at_events t @ map ev (at_observers t)\<rparr>"

definition NotifyStart :: "AsyncTask \<Rightarrow> AsyncTask" where
  "NotifyStart t = PostTask StartImpl t"

definition NotifyStartImpl :: "AsyncTask \<Rightarrow> AsyncTask res" where
  "NotifyStartImpl t =
     CHECK (at_status t = kNoStart)
       (Inr (call_observers OnStart (t\<lparr>at_status := kRunning\<rparr>)))"

definition NotifyProgress :: "bool \<Rightarrow> real \<Rightarrow> AsyncTask \<Rightarrow> AsyncTask res" where
  "NotifyProgress add p t =
     (let percent = (if add then p + at_percent t else p) in
      CHECK (0 \<le> percent \<and> percent \<le> 100) (Inr (PostTask (ProgressImpl percent) t)))"

definition NotifyProgressImpl :: "real \<Rightarrow> AsyncTask \<Rightarrow> AsyncTask res" where
  "NotifyProgressImpl percent t =
     CHECK (at_status t = kRunning) (
     CHECK (0 \<le> percent \<and> percent \<le> 100)
       (Inr (call_observers (\<lambda>obs. OnProgress obs \<lfloor>percent\<rfloor>) (t\<lparr>at_percent := percent\<rparr>))))"

definition NotifyError :: "AsyncTask \<Rightarrow> AsyncTask" where
  "NotifyError t = PostTask (FinishImpl kError) t"

definition NotifyFinish :: "AsyncTask \<Rightarrow> AsyncTask" where
  "NotifyFinish t = PostTask (FinishImpl kFinish) t"

definition NotifyCancel :: "AsyncTask \<Rightarrow> AsyncTask" where
  "NotifyCancel t = PostTask (FinishImpl kCancel) t"

definition NotifyFinishImpl :: "AsyncTaskStatus \<Rightarrow> AsyncTask \<Rightarrow> AsyncTask res" where
  "NotifyFinishImpl status t =
     DCHECK (status \<noteq> kNoStart \<and> status \<noteq> kRunning) (
     CHECK (at_status t = kRunning)
       (Inr (call_observers (\<lambda>obs. OnFinish obs status) (t\<lparr>at_status := status\<rparr>))))"

text \<open>One posted task, run by the loop of the owner's thread.\<close>

fun run_posted :: "posted \<Rightarrow> AsyncTask \<Rightarrow> AsyncTask res" where
  "run_posted StartImpl t = NotifyStartImpl t"
| "run_posted (ProgressImpl percent) t = NotifyProgressImpl percent t"
| "run_posted (FinishImpl status) t = NotifyFinishImpl status t"

definition run_loop_once :: "AsyncTask \<Rightarrow> AsyncTask res" where
  "run_loop_once t =
     (case at_queue t of [] \<Rightarrow> Inr t | p # ps \<Rightarrow> run_posted p (t\<lparr>at_queue := ps\<rparr>))"

subsection \<open>The worker's protocol and the interleavings of worker and loop\<close>

datatype call =
    CallStart
  | CallProgress real
  | CallFinish AsyncTaskStatus

fun worker_call :: "call \<Rightarrow> AsyncTask \<Rightarrow> AsyncTask res" where
  "worker_call CallStart t = Inr (NotifyStart t)"
| "worker_call (CallProgress p) t = NotifyProgress False p t"
| "worker_call (CallFinish st) t =
     (if st = kError then Inr (NotifyError t)
      else if st = kCancel then Inr (NotifyCancel t)
      else Inr (NotifyFinish t))"

datatype action = Worker call | LoopRuns | UserCancels

fun task_exec :: "action \<Rightarrow> AsyncTask \<Rightarrow> AsyncTask res" where
  "task_exec (Worker c) t = worker_call c t"
| "task_exec LoopRuns t = run_loop_once t"
| "task_exec UserCancels t = Inr (Task_Cancel t)"

definition calls_of :: "action list \<Rightarrow> call list" where
  "calls_of as = concat (map (\<lambda>a. case a of Worker c \<Rightarrow> [c] | _ \<Rightarrow> []) as)"

text \<open>The status that the calls lead to, where they follow the protocol: start, then
  progress within 0 and 100, then one of the three ends.\<close>

fun protocol_step :: "AsyncTaskStatus \<Rightarrow> call \<Rightarrow> AsyncTaskStatus option" where
  "protocol_step kNoStart CallStart = Some kRunning"
| "protocol_step kRunning (CallProgress p) =
     (if 0 \<le> p \<and> p \<le> 100 then Some kRunning else None)"
| "protocol_step kRunning (CallFinish st) =
     (if st \<in> {kError, kCancel, kFinish} then Some st else None)"
| "protocol_step _ _ = None"

fun protocol :: "AsyncTaskStatus \<Rightarrow> call list \<Rightarrow> AsyncTaskStatus option" where
  "protocol st [] = Some st"
| "protocol st (c # cs) = (case protocol_step st c of None \<Rightarrow> None | Some st' \<Rightarrow> protocol st' cs)"

fun posted_call :: "posted \<Rightarrow> call" where
  "posted_call StartImpl = CallStart"
| "posted_call (ProgressImpl p) = CallProgress p"
| "posted_call (FinishImpl st) = CallFinish st"

fun call_event :: "ptr \<Rightarrow> call \<Rightarrow> task_event" where
  "call_event obs CallStart = OnStart obs"
| "call_event obs (CallProgress p) = OnProgress obs \<lfloor>p\<rfloor>"
| "call_event obs (CallFinish st) = OnFinish obs st"

definition call_events :: "ptr list \<Rightarrow> call list \<Rightarrow> task_event list" where
  "call_events os cs = concat (map (\<lambda>c. map (\<lambda>obs. call_event obs c) os) cs)"

lemma protocol_append:
  "protocol st (cs @ ds) = (case protocol st cs of None \<Rightarrow> None | Some st' \<Rightarrow> protocol st' ds)"
  by (induction cs arbitrary: st) (auto split: option.splits)

lemma protocol_step_Some:
  "protocol_step st c = Some st' \<Longrightarrow>
     (st = kNoStart \<and> c = CallStart \<and> st' = kRunning) \<or>
     (\<exists>p. st = kRunning \<and> c = CallProgress p \<and> 0 \<le> p \<and> p \<le> 100 \<and> st' = kRunning) \<or>
     (\<exists>e. st = kRunning \<and> c = CallFinish e \<and> e \<in> {kError, kCancel, kFinish} \<and> st' = e)"
  by (cases st; cases c) (auto split: if_splits)

text \<open>The state that corresponds to calls made so far, of which the first were delivered.\<close>

definition follows :: "ptr list \<Rightarrow> call list \<Rightarrow> AsyncTask \<Rightarrow> bool" where
  "follows os cs t \<longleftrightarrow>
     (\<exists>done. cs = done @ map posted_call (at_queue t) \<and>
        protocol kNoStart done = Some (at_status t) \<and>
        at_observers t = os \<and> at_events t = call_events os done)"

lemma follows_call:
  assumes "follows os cs t" and "protocol kNoStart (cs @ [c]) = Some st"
  shows "\<exists>t'. worker_call c t = Inr t' \<and> follows os (cs @ [c]) t'"
proof -
  obtain st0 where "protocol_step st0 c = Some st"
    using assms(2) by (auto simp: protocol_append split: option.splits)
  then have "\<exists>p. worker_call c t = Inr (PostTask p t) \<and> posted_call p = c"
    by (auto dest!: protocol_step_Some simp: NotifyStart_def NotifyProgress_def NotifyError_def
        NotifyFinish_def NotifyCancel_def)
  then show ?thesis using assms(1) by (auto simp: follows_def PostTask_def)
qed

lemma follows_loop:
  assumes "follows os cs t" and "protocol kNoStart cs = Some st"
  shows "\<exists>t'. run_loop_once t = Inr t' \<and> follows os cs t'"
proof (cases "at_queue t")
  case Nil
  then show ?thesis using assms(1) by (simp add: run_loop_once_def)
next
  case (Cons p ps)
  obtain dn where dn: "cs = dn @ posted_call p # map posted_call ps"
    "protocol kNoStart dn = Some (at_status t)" "at_observers t = os"
    "at_events t = call_events os dn"
    using assms(1) Cons by (auto simp: follows_def)
  obtain st' where st': "protocol_step (at_status t) (posted_call p) = Some st'"
    using assms(2) dn(1,2) by (auto simp: protocol_append split: option.splits)
  have "\<exists>t'. run_posted p (t\<lparr>at_queue := ps\<rparr>) = Inr t' \<and> at_queue t' = ps \<and> at_status t' = st' \<and>
      at_observers t' = os \<and> at_events t' = call_events os (dn @ [posted_call p])"
    using st' dn(3,4)
    by (cases p) (auto dest!: protocol_step_Some simp: NotifyStartImpl_def NotifyProgressImpl_def
        NotifyFinishImpl_def call_observers_def call_events_def)
  then obtain t' where "run_posted p (t\<lparr>at_queue := ps\<rparr>) = Inr t'" "at_queue t' = ps"
    "at_status t' = st'" "at_observers t' = os" "at_events t' = call_events os (dn @ [posted_call p])"
    by blast
  moreover have "protocol kNoStart (dn @ [posted_call p]) = Some st'"
    using dn(2) st' by (simp add: protocol_append)
  ultimately show ?thesis
    using dn(1) Cons unfolding follows_def run_loop_once_def
    by (intro exI [of _ t']) (auto intro!: exI [of _ "dn @ [posted_call p]"])
qed

lemma protocol_prefix:
  "protocol st (cs @ ds) = Some st' \<Longrightarrow> \<exists>st1. protocol st cs = Some st1"
  by (auto simp: protocol_append split: option.splits)

lemma follows_run:
  assumes "at_observers t0 = os" and "follows os [] t0"
    and "protocol kNoStart (calls_of as) = Some st"
  shows "\<exists>t. for_each task_exec as t0 = Inr t \<and> follows os (calls_of as) t"
  using assms(3)
proof (induction as arbitrary: st rule: rev_induct)
  case Nil
  then show ?case using assms by (simp add: calls_of_def)
next
  case (snoc a as)
  have calls: "calls_of (as @ [a]) = calls_of as @ (case a of Worker c \<Rightarrow> [c] | _ \<Rightarrow> [])"
    by (simp add: calls_of_def)
  obtain st1 where st1: "protocol kNoStart (calls_of as) = Some st1"
    using snoc.prems unfolding calls by (blast dest: protocol_prefix)
  then obtain t where t: "for_each task_exec as t0 = Inr t" "follows os (calls_of as) t"
    using snoc.IH by blast
  have "\<exists>t'. task_exec a t = Inr t' \<and> follows os (calls_of (as @ [a])) t'"
  proof (cases a)
    case (Worker c)
    then have eq: "calls_of (as @ [a]) = calls_of as @ [c]" unfolding calls by simp
    show ?thesis
      using follows_call [OF t(2)] snoc.prems unfolding eq by (simp add: Worker)
  next
    case LoopRuns
    then have eq: "calls_of (as @ [a]) = calls_of as" unfolding calls by simp
    show ?thesis using follows_loop [OF t(2) st1] unfolding eq by (simp add: LoopRuns)
  next
    case UserCancels
    then have eq: "calls_of (as @ [a]) = calls_of as" unfolding calls by simp
    show ?thesis using t(2) unfolding eq by (simp add: UserCancels follows_def Task_Cancel_def)
  qed
  then show ?case using t(1) by (auto simp: for_each_append)
qed

text \<open>C38. A worker that follows the protocol never fails a CHECK, whatever the interleaving
  with the owner's loop and with cancellation: every observer is told of its calls in order,
  those that are not yet delivered wait in the queue, and the status is that of the calls
  delivered.  Once the queue is empty the observers have got every call, the last of them at
  most one end, and the status says so.\<close>

theorem AsyncTask_delivers:
  assumes "protocol kNoStart (calls_of as) = Some st"
  shows "\<exists>t. for_each task_exec as (AsyncTask_new\<lparr>at_observers := os\<rparr>) = Inr t \<and>
    at_events t @ call_events os (map posted_call (at_queue t)) = call_events os (calls_of as) \<and>
    (at_queue t = [] \<longrightarrow> at_status t = st)"
proof -
  let ?t0 = "AsyncTask_new\<lparr>at_observers := os\<rparr>"
  have "follows os [] ?t0" by (simp add: follows_def AsyncTask_new_def call_events_def)
  then obtain t where t: "for_each task_exec as ?t0 = Inr t" "follows os (calls_of as) t"
    using follows_run [of ?t0 os as st] assms by auto
  obtain dn where dn: "calls_of as = dn @ map posted_call (at_queue t)"
    "protocol kNoStart dn = Some (at_status t)" "at_events t = call_events os dn"
    using t(2) by (auto simp: follows_def)
  have "at_events t @ call_events os (map posted_call (at_queue t)) = call_events os (calls_of as)"
    by (simp add: dn(1,3) call_events_def)
  moreover have "at_queue t = [] \<longrightarrow> at_status t = st" using dn assms by auto
  ultimately show ?thesis using t(1) by blast
qed

lemma AsyncTask_delivers_witness:
  "\<exists>t. for_each task_exec [Worker CallStart, Worker (CallProgress 40), LoopRuns, UserCancels,
      Worker (CallFinish kCancel), LoopRuns, LoopRuns] (AsyncTask_new\<lparr>at_observers := [5]\<rparr>) = Inr t \<and>
    at_events t @ call_events [5] (map posted_call (at_queue t)) =
      [OnStart 5, OnProgress 5 40, OnFinish 5 kCancel]"
  using AsyncTask_delivers [of "[Worker CallStart, Worker (CallProgress 40), LoopRuns, UserCancels,
      Worker (CallFinish kCancel), LoopRuns, LoopRuns]" kCancel "[5]"]
  by (auto simp: calls_of_def call_events_def)

text \<open>A call out of order stops the owner's thread: progress before the start, a second
  start, and anything after an end fail the CHECK of the posted task.\<close>

theorem AsyncTask_rejects:
  assumes "at_queue t = posted # ps" and "protocol_step (at_status t) (posted_call posted) = None"
    and "posted \<notin> {FinishImpl kNoStart, FinishImpl kRunning}"
  shows "run_loop_once t = Inl CheckFailed"
  using assms
proof (cases posted)
  case StartImpl
  then show ?thesis using assms by (cases "at_status t")
    (auto simp: run_loop_once_def NotifyStartImpl_def)
next
  case (ProgressImpl p)
  then show ?thesis using assms by (cases "at_status t")
    (auto simp: run_loop_once_def NotifyProgressImpl_def check_def split: if_splits)
next
  case (FinishImpl e)
  then show ?thesis using assms by (cases "at_status t"; cases e)
    (simp_all add: run_loop_once_def NotifyFinishImpl_def)
qed

lemma AsyncTask_rejects_witness:
  "run_loop_once (AsyncTask_new\<lparr>at_status := kFinish, at_queue := [FinishImpl kCancel]\<rparr>) =
     Inl CheckFailed"
proof -
  have "FinishImpl kCancel \<notin> {FinishImpl kNoStart, FinishImpl kRunning}" by simp
  then show ?thesis
    using AsyncTask_rejects [of "AsyncTask_new\<lparr>at_status := kFinish,
        at_queue := [FinishImpl kCancel]\<rparr>" "FinishImpl kCancel" "[]"] by simp
qed
text \<open>The header says that \<open>NotifyProgress\<close> with \<open>add\<close> adds to the progress, but it
  adds to the progress that the loop has delivered: a second addition that the worker makes
  before the loop has run the first replaces it.\<close>

theorem NotifyProgress_add_lost:
  assumes "at_status t = kRunning" and "at_queue t = []" and "at_percent t = p"
    and "0 \<le> p" and "0 \<le> a" and "0 \<le> b" and "p + a \<le> 100" and "p + b \<le> 100"
  shows "\<exists>t1 t2 t3 t4. NotifyProgress True a t = Inr t1 \<and> NotifyProgress True b t1 = Inr t2 \<and>
    run_loop_once t2 = Inr t3 \<and> run_loop_once t3 = Inr t4 \<and> at_percent t4 = p + b"
  using assms
  by (simp add: NotifyProgress_def PostTask_def run_loop_once_def NotifyProgressImpl_def
      call_observers_def)

lemma NotifyProgress_add_lost_witness:
  "\<exists>t1 t2 t3 t4. NotifyProgress True 10 (AsyncTask_new\<lparr>at_status := kRunning\<rparr>) = Inr t1 \<and>
    NotifyProgress True 10 t1 = Inr t2 \<and>
    run_loop_once t2 = Inr t3 \<and> run_loop_once t3 = Inr t4 \<and> at_percent t4 = 10"
  using NotifyProgress_add_lost [of "AsyncTask_new\<lparr>at_status := kRunning\<rparr>" 0 10 10]
  by (simp add: AsyncTask_new_def)

end
