(* ===== verification/Threaded_Loop.thy ===== *)
theory Threaded_Loop
  imports Prelude
begin

text \<open>
  \<open>ThreadedLoopRun\<close> (canscope/device/threaded_loop_run.h, threaded_loop_run.cc): a loop of
  posted tasks on a thread of its own, which other threads start and stop.

  A critical section of \<open>lock_\<close> is one step; what lies between two critical sections is a
  step of its own, so that the steps of the callers interleave with those of the run
  thread.  \<open>tl_posting\<close> counts the callers that have left the critical section of \<open>Start\<close>
  or \<open>Single\<close> and have not yet posted, \<open>tl_queued\<close> the posted \<open>LoopRun\<close> tasks, and
  \<open>tl_phase\<close> is where the run thread stands in \<open>LoopRun\<close>.  \<open>LoopRunImp\<close>, which a subclass
  implements, is the boolean it returns here; the collectors of the next theories implement
  it.
\<close>

subsection \<open>State and steps\<close>

datatype phase = Idle | InLoopRunImp | Reposting

datatype loop_event = StateChanged | Stopped

record ThreadedLoopRun =
  tl_start :: bool
  tl_single :: bool
  tl_stop :: bool
  tl_running :: bool
  tl_posting :: nat
  tl_queued :: nat
  tl_phase :: phase
  tl_events :: "loop_event list"

definition Loop_Reset :: "ThreadedLoopRun \<Rightarrow> ThreadedLoopRun" where
  "Loop_Reset s = s\<lparr>tl_running := False, tl_start := False, tl_single := False, tl_stop := False\<rparr>"

definition ThreadedLoopRun_new :: ThreadedLoopRun where
  "ThreadedLoopRun_new = \<lparr>tl_start = False, tl_single = False, tl_stop = False,
     tl_running = False, tl_posting = 0, tl_queued = 0, tl_phase = Idle, tl_events = []\<rparr>"

definition Start :: "ThreadedLoopRun \<Rightarrow> ThreadedLoopRun" where
  "Start s = (if tl_start s \<or> tl_single s then s
              else s\<lparr>tl_start := True, tl_posting := tl_posting s + 1\<rparr>)"

definition Single :: "ThreadedLoopRun \<Rightarrow> ThreadedLoopRun" where
  "Single s = (if tl_start s \<or> tl_single s then s
               else s\<lparr>tl_single := True, tl_posting := tl_posting s + 1\<rparr>)"

definition Loop_PostTask :: "ThreadedLoopRun \<Rightarrow> ThreadedLoopRun" where
  "Loop_PostTask s = s\<lparr>tl_posting := tl_posting s - 1, tl_queued := tl_queued s + 1\<rparr>"

definition Stop :: "ThreadedLoopRun \<Rightarrow> ThreadedLoopRun" where
  "Stop s = (if (\<not> tl_start s \<and> \<not> tl_single s) \<or> tl_stop s then s else s\<lparr>tl_stop := True\<rparr>)"

definition IsRunning :: "ThreadedLoopRun \<Rightarrow> bool" where
  "IsRunning s = tl_running s"

definition StartOrStarting :: "ThreadedLoopRun \<Rightarrow> bool" where
  "StartOrStarting s \<longleftrightarrow> tl_running s \<or> tl_start s"

definition StopOrStoping :: "ThreadedLoopRun \<Rightarrow> bool" where
  "StopOrStoping s \<longleftrightarrow> \<not> tl_running s \<or> tl_stop s"

definition NeedStop :: "ThreadedLoopRun \<Rightarrow> bool" where
  "NeedStop s = tl_stop s"

definition IsSingle :: "ThreadedLoopRun \<Rightarrow> bool" where
  "IsSingle s = tl_single s"

definition OnStateChanged :: "ThreadedLoopRun \<Rightarrow> ThreadedLoopRun" where
  "OnStateChanged s = s\<lparr>tl_events := tl_events s @ [StateChanged]\<rparr>"

definition OnStop :: "ThreadedLoopRun \<Rightarrow> ThreadedLoopRun" where
  "OnStop s = s\<lparr>tl_events := tl_events s @ [Stopped]\<rparr>"

text \<open>\<open>LoopRun\<close> up to the call of \<open>LoopRunImp\<close>, from its return to the repost, and the
  repost.\<close>

definition LoopRun_begin :: "ThreadedLoopRun \<Rightarrow> ThreadedLoopRun" where
  "LoopRun_begin s =
     (let s = s\<lparr>tl_queued := tl_queued s - 1\<rparr> in
      if tl_stop s
      then (OnStop (OnStateChanged (Loop_Reset s)))\<lparr>tl_phase := Idle\<rparr>
      else if \<not> tl_running s
      then (OnStateChanged (s\<lparr>tl_running := True\<rparr>))\<lparr>tl_phase := InLoopRunImp\<rparr>
      else s\<lparr>tl_phase := InLoopRunImp\<rparr>)"

definition LoopRun_end :: "bool \<Rightarrow> ThreadedLoopRun \<Rightarrow> ThreadedLoopRun" where
  "LoopRun_end ret s =
     (if tl_stop s \<or> \<not> ret
      then (OnStop (OnStateChanged (Loop_Reset s)))\<lparr>tl_phase := Idle\<rparr>
      else s\<lparr>tl_phase := Reposting\<rparr>)"

definition LoopRun_repost :: "ThreadedLoopRun \<Rightarrow> ThreadedLoopRun" where
  "LoopRun_repost s = s\<lparr>tl_queued := tl_queued s + 1, tl_phase := Idle\<rparr>"

text \<open>The whole of \<open>LoopRun\<close> where nobody interferes.\<close>

definition LoopRun :: "bool \<Rightarrow> ThreadedLoopRun \<Rightarrow> ThreadedLoopRun" where
  "LoopRun ret s =
     (let s1 = LoopRun_begin s in
      if tl_phase s1 \<noteq> InLoopRunImp then s1
      else let s2 = LoopRun_end ret s1 in
           if tl_phase s2 \<noteq> Reposting then s2 else LoopRun_repost s2)"

inductive loop_step :: "ThreadedLoopRun \<Rightarrow> ThreadedLoopRun \<Rightarrow> bool" where
  step_start: "loop_step s (Start s)"
| step_single: "loop_step s (Single s)"
| step_stop: "loop_step s (Stop s)"
| step_post: "0 < tl_posting s \<Longrightarrow> loop_step s (Loop_PostTask s)"
| step_begin: "tl_phase s = Idle \<Longrightarrow> 0 < tl_queued s \<Longrightarrow> loop_step s (LoopRun_begin s)"
| step_end: "tl_phase s = InLoopRunImp \<Longrightarrow> loop_step s (LoopRun_end ret s)"
| step_repost: "tl_phase s = Reposting \<Longrightarrow> loop_step s (LoopRun_repost s)"

inductive loop_reach :: "ThreadedLoopRun \<Rightarrow> bool" where
  reach_new: "loop_reach ThreadedLoopRun_new"
| reach_step: "loop_reach s \<Longrightarrow> loop_step s t \<Longrightarrow> loop_reach t"

inductive_cases loop_stepE: "loop_step s t"

subsection \<open>There is exactly one task while the loop is on\<close>

definition tokens :: "ThreadedLoopRun \<Rightarrow> nat" where
  "tokens s = tl_posting s + tl_queued s + (if tl_phase s = Idle then 0 else 1)"

definition loop_inv :: "ThreadedLoopRun \<Rightarrow> bool" where
  "loop_inv s \<longleftrightarrow>
     tokens s = (if tl_start s \<or> tl_single s then 1 else 0) \<and>
     \<not> (tl_start s \<and> tl_single s) \<and>
     (tl_running s \<longrightarrow> tl_start s \<or> tl_single s) \<and>
     (tl_stop s \<longrightarrow> tl_start s \<or> tl_single s) \<and>
     (tl_phase s \<noteq> Idle \<longrightarrow> tl_running s)"

lemmas loop_defs = tokens_def Start_def Single_def Stop_def Loop_PostTask_def LoopRun_begin_def
  LoopRun_end_def LoopRun_repost_def Loop_Reset_def OnStop_def OnStateChanged_def Let_def

lemma loop_inv_step: "loop_step s t \<Longrightarrow> loop_inv s \<Longrightarrow> loop_inv t"
proof (induction rule: loop_step.induct)
  case (step_end s ret)
  then show ?case by (auto simp: loop_inv_def loop_defs)
next
  case (step_begin s)
  then show ?case by (auto simp: loop_inv_def loop_defs split: if_splits)
qed (auto simp: loop_inv_def loop_defs split: if_splits)

lemma loop_inv_reach: "loop_reach s \<Longrightarrow> loop_inv s"
proof (induction rule: loop_reach.induct)
  case reach_new
  then show ?case by (simp add: loop_inv_def tokens_def ThreadedLoopRun_new_def)
next
  case (reach_step s t)
  then show ?case by (blast intro: loop_inv_step)
qed



subsection \<open>A stop is obeyed\<close>

text \<open>The steps of the run thread and of the posting caller, which go on by themselves.\<close>

inductive run_step :: "ThreadedLoopRun \<Rightarrow> ThreadedLoopRun \<Rightarrow> bool" where
  run_post: "0 < tl_posting s \<Longrightarrow> run_step s (Loop_PostTask s)"
| run_begin: "tl_phase s = Idle \<Longrightarrow> 0 < tl_queued s \<Longrightarrow> run_step s (LoopRun_begin s)"
| run_end: "tl_phase s = InLoopRunImp \<Longrightarrow> run_step s (LoopRun_end ret s)"
| run_repost: "tl_phase s = Reposting \<Longrightarrow> run_step s (LoopRun_repost s)"

definition stop_rank :: "ThreadedLoopRun \<Rightarrow> nat" where
  "stop_rank s = (if \<not> tl_stop s then 0
     else case tl_phase s of
       Idle \<Rightarrow> if 0 < tl_posting s then 2 else 1
     | InLoopRunImp \<Rightarrow> 1
     | Reposting \<Rightarrow> 2)"

lemma run_step_loop: "run_step s t \<Longrightarrow> loop_step s t"
  by (induction rule: run_step.induct) (auto intro: loop_step.intros)

lemma stop_rank_decreases:
  assumes "run_step s t" and "loop_inv s" and "tl_stop s"
  shows "stop_rank t < stop_rank s"
  using assms
  by (induction rule: run_step.induct)
    (auto simp: stop_rank_def loop_inv_def loop_defs split: if_splits phase.splits)

lemma stop_can_step:
  assumes "loop_inv s" and "tl_stop s"
  shows "\<exists>t. run_step s t"
proof (cases "tl_phase s")
  case Idle
  then have "0 < tl_posting s \<or> 0 < tl_queued s"
    using assms by (auto simp: loop_inv_def tokens_def split: if_splits)
  then show ?thesis using Idle run_post run_begin by blast
qed (use run_end run_repost in blast)+



text \<open>A \<open>Start\<close> or \<open>Single\<close> that comes while a stop is pending is lost: it changes
  nothing, and the loop stops.\<close>

theorem start_while_stopping_is_lost:
  assumes "loop_reach s" and "tl_stop s"
  shows "Start s = s \<and> Single s = s"
  using loop_inv_reach [OF assms(1)] assms(2)
  by (auto simp: loop_inv_def Start_def Single_def)

lemma start_while_stopping_is_lost_witness:
  "Start (Stop (Start ThreadedLoopRun_new)) = Stop (Start ThreadedLoopRun_new)"
proof -
  have "loop_reach (Stop (Start ThreadedLoopRun_new))"
    by (intro reach_step [OF reach_step [OF reach_new step_start] step_stop])
  from start_while_stopping_is_lost [OF this] show ?thesis
    by (simp add: loop_defs ThreadedLoopRun_new_def)
qed

end
