(* ===== verification/Usb_Port.thy ===== *)
theory Usb_Port
  imports Registers
begin

text \<open>
  The USB protocol of the instrument: canscope/device/usb/usb_command.h, usb_command.cc,
  usb_constants.h, usb_port.h and usb_port.cc.

  Windows is a parameter: a record of the calls the code makes, on a state \<open>'s\<close> of its own.
  \<open>ReadFile\<close> and \<open>WriteFile\<close> complete, go pending or fail; a call that succeeds gives the
  bytes it read or the number it wrote.  Where a call fails, the count and the bytes that the
  code leaves uninitialised are not represented: no caller looks at them.  A caller's buffer
  is a list of bytes, returned as the call leaves it.  Events, logging, the sleep after a
  download and the enumeration of devices are left out.
\<close>

named_theorems usb_consts "the constants of the USB protocol"

subsection \<open>Constants and the command buffer\<close>

definition WREP1 :: u16 where [usb_consts]: "WREP1 = 0xFC03"
definition RDEP1 :: u16 where [usb_consts]: "RDEP1 = 0xFB04"
definition WREP2 :: u16 where [usb_consts]: "WREP2 = 0xFA05"
definition RDEP2 :: u16 where [usb_consts]: "RDEP2 = 0xF906"
definition WREP3 :: u16 where [usb_consts]: "WREP3 = 0xF807"
definition RDEP3 :: u16 where [usb_consts]: "RDEP3 = 0xF708"
definition DOWNLOAD_FPGA :: u16 where [usb_consts]: "DOWNLOAD_FPGA = 0xFE01"
definition SSTQ :: u16 where [usb_consts]: "SSTQ = 0xFD02"
definition WRITE_SUCCESS :: u16 where [usb_consts]: "WRITE_SUCCESS = 0x55AA"

datatype UsbMode = kUsbModelNormal | kUsbModelStream

definition CMD_MAX_LEN :: nat where [usb_consts]: "CMD_MAX_LEN = 48"
definition DATA_MAX_LEN :: nat where [usb_consts]: "DATA_MAX_LEN = 0x10000"
definition kUsbCommandAddr :: u32 where [usb_consts]: "kUsbCommandAddr = 0"
definition kUsbCommandIDOffset :: nat where [usb_consts]: "kUsbCommandIDOffset = 0"
definition kUsbCommandModeOffset :: nat where [usb_consts]: "kUsbCommandModeOffset = 2"
definition kUsbCommandAddrOffset :: nat where [usb_consts]: "kUsbCommandAddrOffset = 4"
definition kUsbCommandDataSizeOffset :: nat where [usb_consts]: "kUsbCommandDataSizeOffset = 8"
definition kUsbCommandFucAddrOffset :: nat where [usb_consts]: "kUsbCommandFucAddrOffset = 12"
definition kUsbCommandSize :: nat where
  [usb_consts]: "kUsbCommandSize = kUsbCommandFucAddrOffset + 4"
definition kUsbCommandReadOffset :: nat where [usb_consts]: "kUsbCommandReadOffset = 4"
definition kUsbCommandWriteOffset :: nat where [usb_consts]: "kUsbCommandWriteOffset = 0x10"

definition UsbCommand_new :: "RegisterMemory res" where
  "UsbCommand_new = RegisterMemory_new kUsbCommandAddr (int (kUsbCommandSize + CMD_MAX_LEN))"

definition UsbCommand_cmd_id :: SimpleTypeBind where
  [usb_consts]: "UsbCommand_cmd_id = \<lparr>st_ptr = kUsbCommandIDOffset, st_big_endian = False\<rparr>"

definition UsbCommand_mode :: BoolBind where
  [usb_consts]: "UsbCommand_mode =
     \<lparr>bb_ptr = kUsbCommandModeOffset, bb_index = 0, bb_invert = False\<rparr>"

definition UsbCommand_addr :: SimpleTypeBind where
  [usb_consts]: "UsbCommand_addr = \<lparr>st_ptr = kUsbCommandAddrOffset, st_big_endian = False\<rparr>"

definition UsbCommand_data_size :: SimpleTypeBind where
  [usb_consts]: "UsbCommand_data_size =
     \<lparr>st_ptr = kUsbCommandDataSizeOffset, st_big_endian = False\<rparr>"

definition UsbCommand_func_addr :: SimpleTypeBind where
  [usb_consts]: "UsbCommand_func_addr =
     \<lparr>st_ptr = kUsbCommandFucAddrOffset, st_big_endian = False\<rparr>"

definition write_data_max_size :: int where
  [usb_consts]: "write_data_max_size = int CMD_MAX_LEN"

definition read_data_max_size :: int where
  [usb_consts]: "read_data_max_size = int (kUsbCommandSize + CMD_MAX_LEN - kUsbCommandReadOffset)"

definition UsbCommand_reset :: "RegisterMemory \<Rightarrow> RegisterMemory" where
  "UsbCommand_reset rm = rm\<lparr>rm_memory := replicate (length (rm_memory rm)) 0\<rparr>"

subsection \<open>The port and the operating system\<close>

datatype 'r io_start = IoDone 'r | IoPending | IoError

datatype wait_result = WAIT_OBJECT_0 | WAIT_TIMEOUT | WAIT_OTHER

record 's windows =
  win_CreateFile :: "string \<Rightarrow> nat \<Rightarrow> 's \<Rightarrow> nat option \<times> 's"
  win_CloseHandle :: "nat \<Rightarrow> 's \<Rightarrow> bool \<times> 's"
  win_ReadFile :: "nat \<Rightarrow> int \<Rightarrow> 's \<Rightarrow> u8 list io_start \<times> 's"
  win_WriteFile :: "nat \<Rightarrow> u8 list \<Rightarrow> 's \<Rightarrow> int io_start \<times> 's"
  win_Wait :: "'s \<Rightarrow> wait_result \<times> 's"
  win_ReadResult :: "nat \<Rightarrow> 's \<Rightarrow> u8 list option \<times> 's"
  win_WriteResult :: "nat \<Rightarrow> 's \<Rightarrow> int option \<times> 's"
  win_CancelIo :: "nat \<Rightarrow> 's \<Rightarrow> 's"

record 's UsbPort =
  up_cmd :: RegisterMemory
  up_rsp :: RegisterMemory
  up_pipes :: "nat option list"
  up_os :: 's

datatype Port = kPort1 | kPort2 | kPort3

fun port_number :: "Port \<Rightarrow> nat" where
  "port_number kPort1 = 0"
| "port_number kPort2 = 1"
| "port_number kPort3 = 2"

definition WriteHandleIndex :: "Port \<Rightarrow> nat" where
  "WriteHandleIndex port = port_number port * 2 + 1"

definition ReadHandleIndex :: "Port \<Rightarrow> nat" where
  "ReadHandleIndex port = port_number port * 2"

definition UsbModel2Memory :: "UsbMode \<Rightarrow> bool" where
  "UsbModel2Memory mode \<longleftrightarrow> mode = kUsbModelStream"

definition To4Align :: "int \<Rightarrow> int" where
  "To4Align sz = (if trunc_mod sz 4 \<noteq> 0 then (trunc_div sz 4 + 1) * 4 else sz)"

definition UsbPort_new :: "'s \<Rightarrow> 's UsbPort res" where
  "UsbPort_new os =
     and_then UsbCommand_new (\<lambda>c. and_then UsbCommand_new (\<lambda>r.
       Inr \<lparr>up_cmd = c, up_rsp = r, up_pipes = replicate 6 None, up_os = os\<rparr>))"

text \<open>\<open>OpenDevice\<close> opens the six pipes in turn; one that fails ends the loop, and the answer
  is whether the first three are open.\<close>

fun open_pipes :: "'s windows \<Rightarrow> string \<Rightarrow> nat list \<Rightarrow> 's UsbPort \<Rightarrow> bool \<times> 's UsbPort" where
  "open_pipes win name [] p = (True, p)"
| "open_pipes win name (i # is) p =
     (case win_CreateFile win name i (up_os p) of
        (None, os) \<Rightarrow> (3 \<le> i, p\<lparr>up_os := os\<rparr>)
      | (Some h, os) \<Rightarrow>
          open_pipes win name is (p\<lparr>up_os := os, up_pipes := (up_pipes p)[i := Some h]\<rparr>))"

definition OpenDevice :: "'s windows \<Rightarrow> string \<Rightarrow> 's UsbPort \<Rightarrow> (bool \<times> 's UsbPort) res" where
  "OpenDevice win name p =
     DCHECK (name \<noteq> '''') (Inr (open_pipes win name [0..<length (up_pipes p)] p))"

fun close_pipes :: "'s windows \<Rightarrow> nat list \<Rightarrow> nat \<Rightarrow> 's UsbPort \<Rightarrow> nat \<times> 's UsbPort" where
  "close_pipes win [] fault_num p = (fault_num, p)"
| "close_pipes win (i # is) fault_num p =
     (case up_pipes p ! i of
        None \<Rightarrow> close_pipes win is fault_num p
      | Some h \<Rightarrow>
          (case win_CloseHandle win h (up_os p) of
             (True, os) \<Rightarrow>
               close_pipes win is fault_num
                 (p\<lparr>up_os := os, up_pipes := (up_pipes p)[i := None]\<rparr>)
           | (False, os) \<Rightarrow> close_pipes win is (fault_num + 1) (p\<lparr>up_os := os\<rparr>)))"

definition CloseDevice :: "'s windows \<Rightarrow> 's UsbPort \<Rightarrow> bool \<times> 's UsbPort" where
  "CloseDevice win p =
     (case close_pipes win [0..<length (up_pipes p)] 0 p of (fault_num, p') \<Rightarrow> (fault_num = 0, p'))"

subsection \<open>One transfer\<close>

definition ReadPort :: "'s windows \<Rightarrow> Port \<Rightarrow> int \<Rightarrow> 's UsbPort \<Rightarrow> u8 list option \<times> 's UsbPort" where
  "ReadPort win port sz p =
     (case up_pipes p ! ReadHandleIndex port of
        None \<Rightarrow> (None, p)
      | Some h \<Rightarrow>
          (case win_ReadFile win h sz (up_os p) of
             (IoDone data, os) \<Rightarrow> (Some data, p\<lparr>up_os := os\<rparr>)
           | (IoError, os) \<Rightarrow> (None, p\<lparr>up_os := os\<rparr>)
           | (IoPending, os) \<Rightarrow>
               (case win_Wait win os of
                  (WAIT_OBJECT_0, os) \<Rightarrow>
                    (case win_ReadResult win h os of (r, os) \<Rightarrow> (r, p\<lparr>up_os := os\<rparr>))
                | (WAIT_TIMEOUT, os) \<Rightarrow> (None, p\<lparr>up_os := win_CancelIo win h os\<rparr>)
                | (WAIT_OTHER, os) \<Rightarrow> (None, p\<lparr>up_os := os\<rparr>))))"

definition WritePort ::
  "'s windows \<Rightarrow> Port \<Rightarrow> u8 list \<Rightarrow> 's UsbPort \<Rightarrow> (int option \<times> 's UsbPort) res" where
  "WritePort win port bytes p =
     DCHECK (0 < length bytes)
      (Inr (case up_pipes p ! WriteHandleIndex port of
        None \<Rightarrow> (None, p)
      | Some h \<Rightarrow>
          (case win_WriteFile win h bytes (up_os p) of
             (IoDone n, os) \<Rightarrow> (Some n, p\<lparr>up_os := os\<rparr>)
           | (IoError, os) \<Rightarrow> (None, p\<lparr>up_os := os\<rparr>)
           | (IoPending, os) \<Rightarrow>
               (case win_Wait win os of
                  (WAIT_OBJECT_0, os) \<Rightarrow>
                    (case win_WriteResult win h os of (r, os) \<Rightarrow> (r, p\<lparr>up_os := os\<rparr>))
                | (WAIT_TIMEOUT, os) \<Rightarrow> (None, p\<lparr>up_os := win_CancelIo win h os\<rparr>)
                | (WAIT_OTHER, os) \<Rightarrow> (None, p\<lparr>up_os := win_CancelIo win h os\<rparr>)))))"

subsection \<open>Commands\<close>

definition SetCmd ::
  "u16 \<Rightarrow> u32 \<Rightarrow> UsbMode \<Rightarrow> u8 list option \<Rightarrow> int \<Rightarrow> 's UsbPort \<Rightarrow> 's UsbPort res" where
  "SetCmd cmd addr mode buffer sz p =
     DCHECK (0 \<le> sz) (
     let rm = UsbCommand_reset (up_cmd p) in
     and_then (simple_set_value UsbCommand_cmd_id cmd (rm_memory rm)) (\<lambda>m.
     and_then (bool_set_value UsbCommand_mode (UsbModel2Memory mode) m) (\<lambda>m.
     and_then (simple_set_value UsbCommand_addr addr m) (\<lambda>m.
     and_then (simple_set_value UsbCommand_data_size (word_of_int sz :: u32) m) (\<lambda>m.
     and_then
       (case buffer of
          None \<Rightarrow> Inr m
        | Some b \<Rightarrow>
            CHECK (sz \<le> write_data_max_size) (
            and_then (PtrByRelative (rm\<lparr>rm_memory := m\<rparr>) (of_nat kUsbCommandWriteOffset)) (\<lambda>q.
            and_then (load_bytes b 0 (nat sz)) (\<lambda>bs. memcpy_to m q bs))))
       (\<lambda>m. Inr (p\<lparr>up_cmd := rm\<lparr>rm_memory := m\<rparr>\<rparr>)))))))"

definition SendCmd :: "'s windows \<Rightarrow> 's UsbPort \<Rightarrow> (bool \<times> 's UsbPort) res" where
  "SendCmd win p =
     and_then (RegisterMemory_buffer (up_cmd p)) (\<lambda>bytes.
     and_then (WritePort win kPort1 bytes p) (\<lambda>(written, p).
       if written \<noteq> Some (RegisterMemory_size (up_cmd p)) then Inr (False, p)
       else
         let p = p\<lparr>up_rsp := UsbCommand_reset (up_rsp p)\<rparr> in
         case ReadPort win kPort1 (RegisterMemory_size (up_rsp p)) p of
           (None, p) \<Rightarrow> Inr (False, p)
         | (Some data, p) \<Rightarrow>
             and_then (memcpy_to (rm_memory (up_rsp p)) 0 data) (\<lambda>m.
             let p = p\<lparr>up_rsp := (up_rsp p)\<lparr>rm_memory := m\<rparr>\<rparr> in
             if data = [] then Inr (False, p)
             else
               and_then (simple_value UsbCommand_cmd_id (rm_memory (up_cmd p)) :: u16 res) (\<lambda>a.
               and_then (simple_value UsbCommand_cmd_id (rm_memory (up_rsp p))) (\<lambda>b.
               Inr (a = b, p))))))"

text \<open>\<open>memcpy\<close> of \<open>sz\<close> bytes from the response, at offset \<open>q\<close>, to the caller's buffer.\<close>

definition copy_response :: "nat \<Rightarrow> int \<Rightarrow> mem \<Rightarrow> 's UsbPort \<Rightarrow> mem res" where
  "copy_response q sz buffer p =
     check Undefined (0 \<le> sz) (
     and_then (load_bytes (rm_memory (up_rsp p)) q (nat sz)) (\<lambda>bs. memcpy_to buffer 0 bs))"

definition UsbPort_GetDeviceInfo ::
  "'s windows \<Rightarrow> mem \<Rightarrow> int \<Rightarrow> 's UsbPort \<Rightarrow> (bool \<times> mem \<times> 's UsbPort) res" where
  "UsbPort_GetDeviceInfo win buffer sz p =
     DCHECK (sz = int kDeviceInfoSize) (
     and_then (SetCmd SSTQ 0 kUsbModelNormal None 0 p) (\<lambda>p.
     and_then (SendCmd win p) (\<lambda>(ok, p).
     if \<not> ok then Inr (False, buffer, p)
     else and_then (copy_response 0 sz buffer p) (\<lambda>b. Inr (True, b, p)))))"

definition ReadEP1 ::
  "'s windows \<Rightarrow> u32 \<Rightarrow> UsbMode \<Rightarrow> mem \<Rightarrow> int \<Rightarrow> 's UsbPort \<Rightarrow> (bool \<times> mem \<times> 's UsbPort) res" where
  "ReadEP1 win addr mode buffer sz p =
     CHECK (sz \<le> read_data_max_size) (
     and_then (SetCmd RDEP1 addr mode None sz p) (\<lambda>p.
     and_then (SendCmd win p) (\<lambda>(ok, p).
     if \<not> ok then Inr (False, buffer, p)
     else
       and_then (PtrByRelative (up_rsp p) (of_nat kUsbCommandReadOffset)) (\<lambda>q.
       and_then (copy_response q sz buffer p) (\<lambda>b. Inr (True, b, p))))))"

definition WriteEP1 ::
  "'s windows \<Rightarrow> u32 \<Rightarrow> UsbMode \<Rightarrow> mem \<Rightarrow> int \<Rightarrow> 's UsbPort \<Rightarrow> (bool \<times> 's UsbPort) res" where
  "WriteEP1 win addr mode buffer sz p =
     CHECK (sz \<le> write_data_max_size) (
     and_then (SetCmd WREP1 addr mode (Some buffer) sz p) (SendCmd win))"

subsection \<open>Transfers in pieces\<close>

text \<open>The comparison with \<open>DATA_MAX_LEN\<close> is one of unsigned numbers.\<close>

definition need_size :: "int \<Rightarrow> int \<Rightarrow> int" where
  "need_size sz pos =
     (if unat (word_of_int (sz - pos) :: u32) > DATA_MAX_LEN then int DATA_MAX_LEN else sz - pos)"

lemma need_size_progress:
  assumes "pos + need_size sz pos \<noteq> sz" and "pos + need_size sz pos \<le> sz"
  shows "0 < need_size sz pos" and "pos < sz"
  using assms by (auto simp: need_size_def DATA_MAX_LEN_def split: if_splits)

function read_pieces ::
  "'s windows \<Rightarrow> Port \<Rightarrow> int \<Rightarrow> int \<Rightarrow> mem \<Rightarrow> 's UsbPort \<Rightarrow> (bool \<times> mem \<times> 's UsbPort) res" where
  "read_pieces win port sz read_num buffer p =
     (let need_read = need_size sz read_num in
      case ReadPort win port need_read p of
        (None, p) \<Rightarrow> Inr (False, buffer, p)
      | (Some data, p) \<Rightarrow>
          and_then (memcpy_to buffer (nat read_num) data) (\<lambda>buffer.
          if int (length data) \<noteq> need_read then Inr (False, buffer, p)
          else if read_num + need_read = sz then Inr (True, buffer, p)
          else if read_num + need_read \<le> sz
          then read_pieces win port sz (read_num + need_read) buffer p
          else Inl CheckFailed))"
  by pat_completeness auto
termination
  by (relation "measure (\<lambda>(win, port, sz, read_num, buffer, p). nat (sz - read_num))")
    (auto dest: need_size_progress)

definition ReadEP2 ::
  "'s windows \<Rightarrow> u32 \<Rightarrow> UsbMode \<Rightarrow> mem \<Rightarrow> int \<Rightarrow> 's UsbPort \<Rightarrow> (bool \<times> mem \<times> 's UsbPort) res" where
  "ReadEP2 win addr mode buffer sz p =
     DCHECK (trunc_mod sz 4 = 0) (DCHECK (0 < sz) (
     and_then (SetCmd RDEP2 addr mode None sz p) (\<lambda>p.
     and_then (SendCmd win p) (\<lambda>(ok, p).
     if \<not> ok then Inr (False, buffer, p) else read_pieces win kPort2 sz 0 buffer p))))"

definition ReadEP3 ::
  "'s windows \<Rightarrow> u32 \<Rightarrow> UsbMode \<Rightarrow> mem \<Rightarrow> int \<Rightarrow> 's UsbPort \<Rightarrow> (bool \<times> mem \<times> 's UsbPort) res" where
  "ReadEP3 win addr mode buffer sz p =
     DCHECK (0 < sz) (
     and_then (SetCmd RDEP3 addr mode None sz p) (\<lambda>p.
     and_then (SendCmd win p) (\<lambda>(ok, p).
     if \<not> ok then Inr (False, buffer, p) else read_pieces win kPort3 sz 0 buffer p)))"

text \<open>A piece whose length is not a multiple of 4 is written with zeros behind it.\<close>

definition write_piece :: "mem \<Rightarrow> int \<Rightarrow> int \<Rightarrow> mem res" where
  "write_piece buffer write_num need_write =
     and_then (load_bytes buffer (nat write_num) (nat need_write)) (\<lambda>bs.
       if trunc_mod need_write 4 \<noteq> 0
       then Inr (bs @ replicate (nat (To4Align need_write) - length bs) 0)
       else Inr bs)"

function write_pieces ::
  "'s windows \<Rightarrow> int \<Rightarrow> int \<Rightarrow> mem \<Rightarrow> 's UsbPort \<Rightarrow> (bool \<times> 's UsbPort) res" where
  "write_pieces win sz write_num buffer p =
     (let need_write = need_size sz write_num in
      and_then (write_piece buffer write_num need_write) (\<lambda>bytes.
      and_then (WritePort win kPort2 bytes p) (\<lambda>(written, p).
        if written \<noteq> Some (int (length bytes)) then Inr (False, p)
        else if write_num + need_write = sz then Inr (True, p)
        else if write_num + need_write \<le> sz
        then write_pieces win sz (write_num + need_write) buffer p
        else Inl CheckFailed)))"
  by pat_completeness auto
termination
  by (relation "measure (\<lambda>(win, sz, write_num, buffer, p). nat (sz - write_num))")
    (auto dest: need_size_progress)

definition WritePort2Raw ::
  "'s windows \<Rightarrow> mem \<Rightarrow> int \<Rightarrow> 's UsbPort \<Rightarrow> (bool \<times> 's UsbPort) res" where
  "WritePort2Raw win buffer sz p =
     and_then (write_pieces win sz 0 buffer p) (\<lambda>(ok, p).
     if \<not> ok then Inr (False, p)
     else
       let p = p\<lparr>up_rsp := UsbCommand_reset (up_rsp p)\<rparr> in
       case ReadPort win kPort1 (RegisterMemory_size (up_rsp p)) p of
         (None, p) \<Rightarrow> Inr (False, p)
       | (Some data, p) \<Rightarrow>
           and_then (memcpy_to (rm_memory (up_rsp p)) 0 data) (\<lambda>m.
           let p = p\<lparr>up_rsp := (up_rsp p)\<lparr>rm_memory := m\<rparr>\<rparr> in
           if data = [] then Inr (False, p)
           else and_then (simple_value UsbCommand_cmd_id (rm_memory (up_rsp p))) (\<lambda>c.
                  Inr (c = WRITE_SUCCESS, p))))"

definition DownloadFPGA ::
  "'s windows \<Rightarrow> mem \<Rightarrow> int \<Rightarrow> 's UsbPort \<Rightarrow> (bool \<times> 's UsbPort) res" where
  "DownloadFPGA win buffer sz p =
     DCHECK (0 < sz) (
     and_then (SetCmd DOWNLOAD_FPGA 0 kUsbModelNormal None (To4Align sz) p) (\<lambda>p.
     and_then (SendCmd win p) (\<lambda>(ok, p).
     if \<not> ok then Inr (False, p) else WritePort2Raw win buffer sz p)))"

definition WriteEP2 ::
  "'s windows \<Rightarrow> u32 \<Rightarrow> UsbMode \<Rightarrow> mem \<Rightarrow> int \<Rightarrow> 's UsbPort \<Rightarrow> (bool \<times> 's UsbPort) res" where
  "WriteEP2 win addr mode buffer sz p =
     DCHECK (trunc_mod sz 4 = 0) (DCHECK (0 < sz) (
     and_then (SetCmd WREP2 addr mode None sz p) (\<lambda>p.
     and_then (SendCmd win p) (\<lambda>(ok, p).
     if \<not> ok then Inr (False, p) else WritePort2Raw win buffer sz p))))"

declare read_pieces.simps [simp del] write_pieces.simps [simp del]

subsection \<open>Commands read back\<close>

definition port_ok :: "'s UsbPort \<Rightarrow> bool" where
  "port_ok p \<longleftrightarrow> length (rm_memory (up_cmd p)) = 64 \<and> length (rm_memory (up_rsp p)) = 64 \<and>
     length (up_pipes p) = 6"

lemma port_ok_new: "UsbPort_new os = Inr p \<Longrightarrow> port_ok p"
  by (auto simp: UsbPort_new_def UsbCommand_new_def RegisterMemory_new_def usb_consts port_ok_def)

lemma To4Align_nonneg:
  assumes "0 \<le> n"
  shows "To4Align n = n + (- n) mod 4" and "To4Align n mod 4 = 0"
proof -
  show "To4Align n = n + (- n) mod 4"
    using assms by (simp add: To4Align_def) presburger
  then show "To4Align n mod 4 = 0" by presburger
qed

lemma memcpy_to_total:
  "q + length bs \<le> length m \<Longrightarrow> \<exists>m'. memcpy_to m q bs = Inr m'"
  by (simp add: memcpy_to_def)

text \<open>The members of the command buffer keep apart, so the writes of \<open>SetCmd\<close> read back.\<close>

definition UsbCommand_binds :: "bind list" where
  "UsbCommand_binds = [U16B UsbCommand_cmd_id, BoolB UsbCommand_mode, U32B UsbCommand_addr,
     U32B UsbCommand_data_size, U32B UsbCommand_func_addr]"

lemma UsbCommand_layout: "layout_ok 64 UsbCommand_binds"
  by (simp add: layout_ok_def UsbCommand_binds_def usb_consts binds_apart_def apart_def)

lemma ucast_u16_le: "(ucast (c :: u16) :: u32) \<le> 0xFFFF"
  using unsigned_less [where 'a = nat and w = c] by (simp add: word_le_nat_alt unsigned_ucast_eq take_bit_nat_eq_self)

lemma ucast_u16_back: "ucast (ucast (c :: u16) :: u32) = c"
  by (simp add: ucast_up_ucast_id is_up)

lemma ucast_u16_inj: "(ucast (c :: u16) :: u32) = ucast d \<Longrightarrow> c = d"
  by (metis (no_types) ucast_u16_back)

lemma set_cmd_header:
  fixes m0 :: mem and cmd :: u16 and addr num :: u32
  assumes "length m0 = 64"
  shows "\<exists>m1 m2 m3 m4. simple_set_value UsbCommand_cmd_id cmd m0 = Inr m1 \<and>
    bool_set_value UsbCommand_mode b m1 = Inr m2 \<and>
    simple_set_value UsbCommand_addr addr m2 = Inr m3 \<and>
    simple_set_value UsbCommand_data_size num m3 = Inr m4 \<and> length m4 = 64 \<and>
    simple_value UsbCommand_cmd_id m4 = Inr cmd \<and> bool_value UsbCommand_mode m4 = Inr b \<and>
    simple_value UsbCommand_addr m4 = Inr addr \<and> simple_value UsbCommand_data_size m4 = Inr num"
proof -
  let ?bs = UsbCommand_binds
  have bs: "length ?bs = 5" "?bs ! 0 = U16B UsbCommand_cmd_id" "?bs ! 1 = BoolB UsbCommand_mode"
    "?bs ! 2 = U32B UsbCommand_addr" "?bs ! 3 = U32B UsbCommand_data_size"
    by (simp_all add: UsbCommand_binds_def)
  have bounds: "ucast cmd \<le> bind_bound (?bs ! 0)" "of_bool b \<le> bind_bound (?bs ! 1)"
    "addr \<le> bind_bound (?bs ! 2)" "num \<le> bind_bound (?bs ! 3)"
    unfolding bs by (simp_all add: ucast_u16_le u32_le)
  have wr: "\<exists>m'. bind_set_value (?bs ! i) v m = Inr m' \<and> length m' = 64 \<and>
      bind_value (?bs ! i) m' = Inr v \<and>
      (\<forall>j < 5. j \<noteq> i \<longrightarrow> bind_value (?bs ! j) m' = bind_value (?bs ! j) m)"
    if "length m = 64" "i < 5" "v \<le> bind_bound (?bs ! i)" for m :: mem and i v
    using layout_write [of m ?bs i v] that UsbCommand_layout bs(1) by simp
  obtain m1 where m1: "bind_set_value (?bs ! 0) (ucast cmd) m0 = Inr m1" "length m1 = 64"
    "bind_value (?bs ! 0) m1 = Inr (ucast cmd)"
    using wr [OF assms _ bounds(1)] by auto
  obtain m2 where m2: "bind_set_value (?bs ! 1) (of_bool b) m1 = Inr m2" "length m2 = 64"
    "bind_value (?bs ! 1) m2 = Inr (of_bool b)"
    and k2: "\<And>j. j < 5 \<Longrightarrow> j \<noteq> 1 \<Longrightarrow> bind_value (?bs ! j) m2 = bind_value (?bs ! j) m1"
    using wr [OF m1(2) _ bounds(2)] by auto
  obtain m3 where m3: "bind_set_value (?bs ! 2) addr m2 = Inr m3" "length m3 = 64"
    "bind_value (?bs ! 2) m3 = Inr addr"
    and k3: "\<And>j. j < 5 \<Longrightarrow> j \<noteq> 2 \<Longrightarrow> bind_value (?bs ! j) m3 = bind_value (?bs ! j) m2"
    using wr [OF m2(2) _ bounds(3)] by auto
  obtain m4 where m4: "bind_set_value (?bs ! 3) num m3 = Inr m4" "length m4 = 64"
    "bind_value (?bs ! 3) m4 = Inr num"
    and k4: "\<And>j. j < 5 \<Longrightarrow> j \<noteq> 3 \<Longrightarrow> bind_value (?bs ! j) m4 = bind_value (?bs ! j) m3"
    using wr [OF m3(2) _ bounds(4)] by auto
  have v0: "bind_value (?bs ! 0) m4 = Inr (ucast cmd)" using k4 [of 0] k3 [of 0] k2 [of 0] m1(3) by simp
  have v1: "bind_value (?bs ! 1) m4 = Inr (of_bool b)" using k4 [of 1] k3 [of 1] m2(3) by simp
  have v2: "bind_value (?bs ! 2) m4 = Inr addr" using k4 [of 2] m3(3) by simp
  have "simple_set_value UsbCommand_cmd_id cmd m0 = Inr m1"
    using m1(1) unfolding bs by (auto simp: ucast_u16_back bind_set_value_def check_Inr_iff)
  moreover have "bool_set_value UsbCommand_mode b m1 = Inr m2"
    using m2(1) unfolding bs by (cases b) (auto simp: bind_set_value_def check_Inr_iff)
  moreover have "simple_set_value UsbCommand_addr addr m2 = Inr m3"
      "simple_set_value UsbCommand_data_size num m3 = Inr m4"
    using m3(1) m4(1) unfolding bs by (auto simp: bind_set_value_def check_Inr_iff)
  moreover have "simple_value UsbCommand_cmd_id m4 = Inr cmd"
  proof -
    obtain c :: u16 where "simple_value UsbCommand_cmd_id m4 = Inr c" "(ucast c :: u32) = ucast cmd"
      using v0 unfolding bs by auto
    moreover from this have "c = cmd" using ucast_u16_inj by blast
    ultimately show ?thesis by simp
  qed
  moreover have "bool_value UsbCommand_mode m4 = Inr b"
    using v1 unfolding bs by (cases "bool_value UsbCommand_mode m4") auto
  moreover have "simple_value UsbCommand_addr m4 = Inr addr" "simple_value UsbCommand_data_size m4 = Inr num"
    using v2 m4(3) unfolding bs by auto
  ultimately show ?thesis using m4(2) by blast
qed

definition command_is :: "'s UsbPort \<Rightarrow> u16 \<Rightarrow> u32 \<Rightarrow> UsbMode \<Rightarrow> int \<Rightarrow> bool" where
  "command_is p cmd addr mode sz \<longleftrightarrow>
     simple_value UsbCommand_cmd_id (rm_memory (up_cmd p)) = Inr cmd \<and>
     bool_value UsbCommand_mode (rm_memory (up_cmd p)) = Inr (UsbModel2Memory mode) \<and>
     simple_value UsbCommand_addr (rm_memory (up_cmd p)) = Inr addr \<and>
     simple_value UsbCommand_data_size (rm_memory (up_cmd p)) = Inr (word_of_int sz :: u32)"

lemma payload_keeps_header:
  assumes "memcpy_to m 16 bs = Inr m'" and "i < 4"
  shows "bind_value (UsbCommand_binds ! i) m' = bind_value (UsbCommand_binds ! i) m"
proof (rule memcpy_other [OF assms(1)])
  have "i \<in> {0, 1, 2, 3}" using assms(2) by auto
  then show "bind_ok (UsbCommand_binds ! i)"
    "list_all (apart (8 * 16, 8 * (16 + length bs))) (bind_spans (UsbCommand_binds ! i))"
    by (auto simp: UsbCommand_binds_def usb_consts apart_def)
qed

lemma SetCmd_encodes:
  assumes ok: "port_ok p" and sz: "0 \<le> sz"
    and buf: "\<And>b. buffer = Some b \<Longrightarrow> sz \<le> 48 \<and> sz \<le> int (length b)"
  shows "\<exists>p'. SetCmd cmd addr mode buffer sz p = Inr p' \<and> port_ok p' \<and>
    command_is p' cmd addr mode sz \<and>
    (\<forall>b. buffer = Some b \<longrightarrow>
       take (nat sz) (drop 16 (rm_memory (up_cmd p'))) = take (nat sz) b) \<and>
    up_rsp p' = up_rsp p \<and> up_pipes p' = up_pipes p \<and> up_os p' = up_os p"
proof -
  let ?m0 = "rm_memory (UsbCommand_reset (up_cmd p))"
  have "length ?m0 = 64" using ok by (simp add: port_ok_def UsbCommand_reset_def)
  from set_cmd_header [OF this, of cmd "UsbModel2Memory mode" addr "word_of_int sz"]
  obtain m1 m2 m3 m4 where m: "simple_set_value UsbCommand_cmd_id cmd ?m0 = Inr m1"
    "bool_set_value UsbCommand_mode (UsbModel2Memory mode) m1 = Inr m2"
    "simple_set_value UsbCommand_addr addr m2 = Inr m3"
    "simple_set_value UsbCommand_data_size (word_of_int sz :: u32) m3 = Inr m4" "length m4 = 64"
    and v: "simple_value UsbCommand_cmd_id m4 = Inr cmd"
    "bool_value UsbCommand_mode m4 = Inr (UsbModel2Memory mode)"
    "simple_value UsbCommand_addr m4 = Inr addr"
    "simple_value UsbCommand_data_size m4 = Inr (word_of_int sz :: u32)"
    by blast
  show ?thesis
  proof (cases buffer)
    case None
    then show ?thesis
      using m v sz ok by (simp add: SetCmd_def Let_def port_ok_def command_is_def)
  next
    case (Some b)
    let ?bs = "take (nat sz) b"
    have len: "length ?bs = nat sz" "nat sz \<le> length b" "nat sz \<le> 48" "sz \<le> 48"
      using buf [OF Some] sz by auto
    obtain m5 where m5: "memcpy_to m4 16 ?bs = Inr m5"
      using memcpy_to_total [of 16 ?bs m4] len m(5) by auto
    have hdr: "bind_value (UsbCommand_binds ! i) m5 = bind_value (UsbCommand_binds ! i) m4"
      if "i < 4" for i using m5 that by (rule payload_keeps_header)
    have keep: "simple_value UsbCommand_cmd_id m5 = (simple_value UsbCommand_cmd_id m4 :: u16 res)"
      "bool_value UsbCommand_mode m5 = bool_value UsbCommand_mode m4"
      "simple_value UsbCommand_addr m5 = (simple_value UsbCommand_addr m4 :: u32 res)"
      "simple_value UsbCommand_data_size m5 = (simple_value UsbCommand_data_size m4 :: u32 res)"
      using hdr [of 0] hdr [of 1] hdr [of 2] hdr [of 3] v
      by (auto simp: UsbCommand_binds_def and_then_Inr_iff dest: ucast_u16_inj)
    have "SetCmd cmd addr mode buffer sz p =
        Inr (p\<lparr>up_cmd := (UsbCommand_reset (up_cmd p))\<lparr>rm_memory := m5\<rparr>\<rparr>)"
      using m sz len m5 Some
      by (simp add: SetCmd_def Let_def usb_consts PtrByRelative_def load_bytes_def)
    moreover have "take (nat sz) (drop 16 m5) = ?bs"
      using load_bytes_memcpy_to [OF m5 refl] len(1) by (auto simp: load_bytes_Inr_iff)
    ultimately show ?thesis
      using keep v m(5) ok Some length_memcpy_to [OF m5] by (simp add: port_ok_def command_is_def)
  qed
qed

text \<open>What is assumed of Windows: a read gives at most the bytes asked for.\<close>

definition reads_bounded :: "'s windows \<Rightarrow> bool" where
  "reads_bounded win \<longleftrightarrow>
     (\<forall>h n s d. fst (win_ReadFile win h n s) = IoDone d \<longrightarrow> length d \<le> nat n) \<and>
     (\<forall>h n s s1 s2 d. win_ReadFile win h n s = (IoPending, s1) \<and>
        win_Wait win s1 = (WAIT_OBJECT_0, s2) \<and> fst (win_ReadResult win h s2) = Some d \<longrightarrow>
        length d \<le> nat n)"

lemma ReadPort_keeps:
  assumes "ReadPort win port n p = (r, p')"
  shows "up_cmd p' = up_cmd p \<and> up_rsp p' = up_rsp p \<and> up_pipes p' = up_pipes p"
  using assms
  by (auto simp: ReadPort_def split: option.splits prod.splits io_start.splits wait_result.splits)

lemma ReadPort_bounded:
  assumes "reads_bounded win" and "ReadPort win port n p = (Some d, p')"
  shows "length d \<le> nat n"
proof -
  obtain h where h: "up_pipes p ! ReadHandleIndex port = Some h"
    using assms(2) by (cases "up_pipes p ! ReadHandleIndex port") (auto simp: ReadPort_def)
  obtain r s1 where r: "win_ReadFile win h n (up_os p) = (r, s1)" by (meson surj_pair)
  show ?thesis
  proof (cases r)
    case (IoDone d')
    then have "d' = d" using assms(2) h r by (simp add: ReadPort_def)
    then show ?thesis using assms(1) r IoDone unfolding reads_bounded_def by (metis fst_conv)
  next
    case IoPending
    obtain w s2 where w: "win_Wait win s1 = (w, s2)" by (meson surj_pair)
    have "w = WAIT_OBJECT_0" "fst (win_ReadResult win h s2) = Some d"
      using assms(2) h r w IoPending
      by (auto simp: ReadPort_def split: wait_result.splits prod.splits)
    then show ?thesis using assms(1) r w IoPending unfolding reads_bounded_def by metis
  next
    case IoError
    then show ?thesis using assms(2) h r by (simp add: ReadPort_def)
  qed
qed

lemma WritePort_total:
  assumes "0 < length bytes"
  shows "\<exists>w p'. WritePort win port bytes p = Inr (w, p') \<and>
    up_cmd p' = up_cmd p \<and> up_rsp p' = up_rsp p \<and> up_pipes p' = up_pipes p"
  using assms
  by (auto simp: WritePort_def split: option.splits prod.splits io_start.splits wait_result.splits)

text \<open>A command that is sent never faults: the response fits its buffer.\<close>

lemma SendCmd_total:
  assumes ok: "port_ok p" and win: "reads_bounded win"
  shows "\<exists>r p'. SendCmd win p = Inr (r, p') \<and> port_ok p' \<and> up_cmd p' = up_cmd p"
proof -
  let ?bytes = "rm_memory (up_cmd p)"
  have len: "length ?bytes = 64" "?bytes \<noteq> []" using ok by (auto simp: port_ok_def)
  obtain w p1 where p1: "WritePort win kPort1 ?bytes p = Inr (w, p1)"
    "up_cmd p1 = up_cmd p" "up_rsp p1 = up_rsp p" "up_pipes p1 = up_pipes p"
    using WritePort_total [of ?bytes win kPort1 p] len by auto
  define p2 where "p2 = p1\<lparr>up_rsp := UsbCommand_reset (up_rsp p1)\<rparr>"
  have ok2: "port_ok p2" "up_cmd p2 = up_cmd p"
    using ok p1 by (auto simp: port_ok_def p2_def UsbCommand_reset_def)
  obtain r p3 where p3: "ReadPort win kPort1 (RegisterMemory_size (up_rsp p2)) p2 = (r, p3)"
    by (meson surj_pair)
  note keep = ReadPort_keeps [OF p3]
  have ok3: "port_ok p3" "up_cmd p3 = up_cmd p" using ok2 keep by (simp_all add: port_ok_def)
  show ?thesis
  proof (cases "w = Some (RegisterMemory_size (up_cmd p))")
    case False
    moreover have "port_ok p1" using ok p1 by (simp add: port_ok_def)
    ultimately show ?thesis
      using p1 len by (simp add: SendCmd_def RegisterMemory_buffer_def; blast)
  next
    case w: True
    have step: "SendCmd win p =
      (case ReadPort win kPort1 (RegisterMemory_size (up_rsp p2)) p2 of
         (None, p) \<Rightarrow> Inr (False, p)
       | (Some data, p) \<Rightarrow>
           and_then (memcpy_to (rm_memory (up_rsp p)) 0 data) (\<lambda>m.
           if data = [] then Inr (False, p\<lparr>up_rsp := (up_rsp p)\<lparr>rm_memory := m\<rparr>\<rparr>)
           else
             and_then (simple_value UsbCommand_cmd_id (rm_memory (up_cmd p)) :: u16 res) (\<lambda>a.
             and_then (simple_value UsbCommand_cmd_id m) (\<lambda>b.
             Inr (a = b, p\<lparr>up_rsp := (up_rsp p)\<lparr>rm_memory := m\<rparr>\<rparr>)))))"
      using w p1 len
      by (simp add: SendCmd_def RegisterMemory_buffer_def p2_def Let_def cong: if_cong
          split: prod.split option.split)
    show ?thesis
    proof (cases r)
      case None
      then have "SendCmd win p = Inr (False, p3)" by (simp add: step p3)
      then show ?thesis using ok3 by blast
    next
      case (Some d)
      have "length d \<le> 64"
        using ReadPort_bounded [OF win, of kPort1 64 p2 d p3] p3 Some ok2
        by (simp add: RegisterMemory_size_def port_ok_def)
      then obtain m where m: "memcpy_to (rm_memory (up_rsp p3)) 0 d = Inr m" "length m = 64"
        using memcpy_to_total [of 0 d "rm_memory (up_rsp p3)"] length_memcpy_to ok3
        by (fastforce simp: port_ok_def)
      have id: "\<exists>c :: u16. simple_value UsbCommand_cmd_id n = Inr c" if "length n = 64" for n
        using u16_bind.get_total [of UsbCommand_cmd_id n] that by (simp add: usb_consts)
      obtain a b :: u16 where ab: "simple_value UsbCommand_cmd_id ?bytes = Inr a"
        "simple_value UsbCommand_cmd_id m = Inr b"
        using id [OF len(1)] id [OF m(2)] by blast
      let ?p4 = "p3\<lparr>up_rsp := (up_rsp p3)\<lparr>rm_memory := m\<rparr>\<rparr>"
      have "SendCmd win p = Inr (d \<noteq> [] \<and> a = b, ?p4)"
        using Some m ab ok3 by (simp add: step p3)
      moreover have "port_ok ?p4" "up_cmd ?p4 = up_cmd p" using ok3 m by (simp_all add: port_ok_def)
      ultimately show ?thesis by blast
    qed
  qed
qed

subsection \<open>Transfers\<close>

lemma ReadEP1_result:
  assumes "port_ok p" and "reads_bounded win" and "0 \<le> sz" and "sz \<le> int (length buffer)"
  shows "if sz \<le> 60
    then \<exists>ok b p'. ReadEP1 win addr mode buffer sz p = Inr (ok, b, p') \<and> port_ok p' \<and>
      command_is p' RDEP1 addr mode sz \<and> length b = length buffer \<and>
      b = (if ok then take (nat sz) (drop 4 (rm_memory (up_rsp p'))) @ drop (nat sz) buffer else buffer)
    else ReadEP1 win addr mode buffer sz p = Inl CheckFailed"
proof (cases "sz \<le> 60")
  case True
  obtain p1 where p1: "SetCmd RDEP1 addr mode None sz p = Inr p1" "port_ok p1"
    "command_is p1 RDEP1 addr mode sz"
    using SetCmd_encodes [OF assms(1,3), of None RDEP1 addr mode] by auto
  obtain r p2 where p2: "SendCmd win p1 = Inr (r, p2)" "port_ok p2" "up_cmd p2 = up_cmd p1"
    using SendCmd_total [OF p1(2) assms(2)] by auto
  have cmd: "command_is p2 RDEP1 addr mode sz" using p1(3) p2(3) by (simp add: command_is_def)
  let ?rsp = "take (nat sz) (drop 4 (rm_memory (up_rsp p2)))"
  have len: "nat sz \<le> 60" "nat sz \<le> length buffer" "length (rm_memory (up_rsp p2)) = 64"
    using True assms(3,4) p2(2) by (auto simp: port_ok_def)
  then have copy: "copy_response 4 sz buffer p2 = Inr (?rsp @ drop (nat sz) buffer)"
    using assms(3) by (simp add: copy_response_def load_bytes_def memcpy_to_def)
  have "ReadEP1 win addr mode buffer sz p =
      Inr (r, if r then ?rsp @ drop (nat sz) buffer else buffer, p2)"
    using p1(1) p2(1) True len copy
    by (auto simp: ReadEP1_def usb_consts PtrByRelative_def)
  then show ?thesis using p2(2) cmd True assms(3,4) by (auto simp: port_ok_def)
next
  case False
  then show ?thesis by (simp add: ReadEP1_def usb_consts)
qed

text \<open>A register read of up to 60 bytes never faults, and never reads past the response:
  it fills the first bytes of the caller's buffer with the bytes behind the response's
  header, or leaves the buffer alone and answers false.  A longer one fails the CHECK.\<close>

theorem ReadEP1_bounds:
  assumes "port_ok p" and "reads_bounded win" and "0 \<le> sz" and "sz \<le> int (length buffer)"
  shows "if sz \<le> 60
    then \<exists>ok b p'. ReadEP1 win addr mode buffer sz p = Inr (ok, b, p') \<and> port_ok p' \<and>
      command_is p' RDEP1 addr mode sz \<and> length b = length buffer \<and>
      b = (if ok then take (nat sz) (drop 4 (rm_memory (up_rsp p'))) @ drop (nat sz) buffer else buffer)
    else ReadEP1 win addr mode buffer sz p = Inl CheckFailed"
  using assms by (rule ReadEP1_result)

text \<open>A Windows whose port 1 accepts every command and answers a register read with bytes
  \<open>1, 2, 3\<close> behind the header; port 3 delivers a stream of bytes.\<close>

definition sample_windows :: "nat windows" where
  "sample_windows = \<lparr>win_CreateFile = (\<lambda>_ i s. (Some i, s)), win_CloseHandle = (\<lambda>_ s. (True, s)),
     win_ReadFile = (\<lambda>h n s. if h = 0 then (IoDone (take (nat n) [0x04, 0xFB, 0, 0, 1, 2, 3]), s)
                     else (IoDone (map of_nat [s ..< s + nat n]), s + nat n)),
     win_WriteFile = (\<lambda>h bs s. (IoDone (int (length bs)), s)),
     win_Wait = (\<lambda>s. (WAIT_TIMEOUT, s)), win_ReadResult = (\<lambda>_ s. (None, s)),
     win_WriteResult = (\<lambda>_ s. (None, s)), win_CancelIo = (\<lambda>_ s. s)\<rparr>"

definition sample_port :: "nat UsbPort" where
  "sample_port = \<lparr>up_cmd = \<lparr>rm_memory = replicate 64 0, rm_start_addr = 0\<rparr>,
     up_rsp = \<lparr>rm_memory = replicate 64 0, rm_start_addr = 0\<rparr>,
     up_pipes = map Some [0..<6], up_os = 0\<rparr>"

lemma sample_port_ok: "port_ok sample_port"
  by (simp add: port_ok_def sample_port_def)

lemma sample_windows_bounded: "reads_bounded sample_windows"
  by (auto simp: reads_bounded_def sample_windows_def split: if_splits)

lemma ReadEP1_bounds_witness:
  "ReadEP1 sample_windows 5 kUsbModelNormal (replicate 70 0) 61 sample_port = Inl CheckFailed"
  using ReadEP1_bounds [OF sample_port_ok sample_windows_bounded, of 61 "replicate 70 0" 5] by simp

text \<open>The pieces of a transfer are full ones, but for the last.\<close>

lemma need_size_eq:
  assumes "0 \<le> pos" and "pos < sz" and "sz < 2 ^ 31"
  shows "need_size sz pos = min 65536 (sz - pos)"
proof -
  have "unat (word_of_int (sz - pos) :: u32) = nat (sz - pos)"
    using assms by (simp add: unsigned_of_int take_bit_int_eq_self del: of_int_diff)
  then show ?thesis using assms by (auto simp: need_size_def DATA_MAX_LEN_def)
qed

lemma read_pieces_bounds:
  assumes "reads_bounded win" and "0 \<le> pos" and "pos < sz" and "sz < 2 ^ 31"
    and "sz \<le> int (length buffer)" and "port_ok p"
  shows "\<exists>ok b p'. read_pieces win port sz pos buffer p = Inr (ok, b, p') \<and> port_ok p' \<and>
    up_cmd p' = up_cmd p \<and> length b = length buffer \<and>
    take (nat pos) b = take (nat pos) buffer \<and> drop (nat sz) b = drop (nat sz) buffer"
  using assms
proof (induction win port sz pos buffer p rule: read_pieces.induct)
  case (1 win port sz pos buffer p)
  let ?need = "need_size sz pos"
  have need: "?need = min 65536 (sz - pos)" using 1 by (intro need_size_eq)
  obtain r p1 where r: "ReadPort win port ?need p = (r, p1)" by (meson surj_pair)
  note keep = ReadPort_keeps [OF r]
  have ok1: "port_ok p1" using keep 1(7) by (simp add: port_ok_def)
  show ?case
  proof (cases r)
    case None
    then have "read_pieces win port sz pos buffer p = Inr (False, buffer, p1)"
      by (subst read_pieces.simps) (simp add: r)
    then show ?thesis using ok1 keep by blast
  next
    case (Some d)
    have "length d \<le> nat ?need" using ReadPort_bounded [OF 1(2)] r Some by blast
    moreover have "0 < ?need" using need 1(4) by simp
    ultimately have d: "int (length d) \<le> ?need" by linarith
    then have fits: "nat pos + length d \<le> length buffer" "nat pos + length d \<le> nat sz"
      using need 1(3,4,6) by linarith+
    obtain b1 where b1: "memcpy_to buffer (nat pos) d = Inr b1"
      using memcpy_to_total [OF fits(1)] by blast
    have b1': "length b1 = length buffer" "take (nat pos) b1 = take (nat pos) buffer"
      "drop (nat sz) b1 = drop (nat sz) buffer"
      using b1 fits 1(3,6) by (auto simp: memcpy_to_Inr_iff)
    show ?thesis
    proof (cases "int (length d) = ?need \<and> pos + ?need \<noteq> sz")
      case False
      then have "\<exists>ok. read_pieces win port sz pos buffer p = Inr (ok, b1, p1)"
        by (subst read_pieces.simps) (auto simp add: r Some b1 Let_def)
      then show ?thesis using ok1 keep b1' by auto
    next
      case True
      have lt: "pos + ?need < sz" "0 \<le> pos + ?need" using True need 1(3,4) by auto
      have step: "read_pieces win port sz pos buffer p = read_pieces win port sz (pos + ?need) b1 p1"
        using True lt by (subst read_pieces.simps) (simp add: r Some b1 Let_def)
      have "\<exists>ok b p'. read_pieces win port sz (pos + ?need) b1 p1 = Inr (ok, b, p') \<and> port_ok p' \<and>
          up_cmd p' = up_cmd p1 \<and> length b = length b1 \<and>
          take (nat (pos + ?need)) b = take (nat (pos + ?need)) b1 \<and> drop (nat sz) b = drop (nat sz) b1"
        using 1(1) [OF refl r [symmetric] Some, of b1] 1(2,5,6) b1 b1' ok1 True lt by simp
      then obtain ok b p' where b: "read_pieces win port sz (pos + ?need) b1 p1 = Inr (ok, b, p')"
        "port_ok p'" "up_cmd p' = up_cmd p1" "length b = length b1"
        "take (nat (pos + ?need)) b = take (nat (pos + ?need)) b1" "drop (nat sz) b = drop (nat sz) b1"
        by blast
      have "nat pos \<le> nat (pos + ?need)" using need 1(3,4) by simp
      then have "take (nat pos) b = take (nat pos) b1"
        using b(5) by (metis min.absorb1 take_take)
      then show ?thesis using b b1' keep step by auto
    qed
  qed
qed

text \<open>A device whose pipe delivers what is asked for: byte \<open>i\<close> of its stream is \<open>src i\<close>, and
  \<open>at s\<close> is how far a state has read.\<close>

definition delivers :: "'s windows \<Rightarrow> nat \<Rightarrow> (nat \<Rightarrow> u8) \<Rightarrow> ('s \<Rightarrow> nat) \<Rightarrow> bool" where
  "delivers win h src at \<longleftrightarrow>
     (\<forall>n s. 0 < n \<longrightarrow> (\<exists>s'. win_ReadFile win h n s = (IoDone (map src [at s ..< at s + nat n]), s') \<and>
        at s' = at s + nat n))"

lemma read_pieces_stream:
  assumes "delivers win h src at" and "0 \<le> pos" and "pos < sz" and "sz < 2 ^ 31"
    and "sz \<le> int (length buffer)" and "up_pipes p ! ReadHandleIndex port = Some h"
  shows "\<exists>p'. read_pieces win port sz pos buffer p =
    Inr (True, take (nat pos) buffer @ map src [at (up_os p) ..< at (up_os p) + nat (sz - pos)] @
      drop (nat sz) buffer, p') \<and> at (up_os p') = at (up_os p) + nat (sz - pos)"
  using assms
proof (induction win port sz pos buffer p rule: read_pieces.induct)
  case (1 win port sz pos buffer p)
  let ?need = "need_size sz pos" and ?a = "at (up_os p)"
  have need: "?need = min 65536 (sz - pos)" "0 < ?need" "pos + ?need \<le> sz"
    using 1 need_size_eq [of pos sz] by auto
  obtain s' where s': "win_ReadFile win h ?need (up_os p) =
      (IoDone (map src [?a ..< ?a + nat ?need]), s')" "at s' = ?a + nat ?need"
    using 1(2) need(2) unfolding delivers_def by blast
  let ?d = "map src [?a ..< ?a + nat ?need]" and ?p1 = "p\<lparr>up_os := s'\<rparr>"
  have r: "ReadPort win port ?need p = (Some ?d, ?p1)"
    using s' 1(7) by (simp add: ReadPort_def)
  have fits: "nat pos + length ?d \<le> length buffer" using need 1(3,6) by simp
  let ?b1 = "take (nat pos) buffer @ ?d @ drop (nat pos + nat ?need) buffer"
  have b1: "memcpy_to buffer (nat pos) ?d = Inr ?b1"
    using fits by (simp add: memcpy_to_def)
  show ?case
  proof (cases "pos + ?need = sz")
    case True
    then have "nat pos + nat ?need = nat sz" "nat (sz - pos) = nat ?need" using 1(3) need by auto
    moreover have "read_pieces win port sz pos buffer p = Inr (True, ?b1, ?p1)"
      using True need(2) by (subst read_pieces.simps) (simp add: r b1 Let_def)
    ultimately show ?thesis using s' by auto
  next
    case False
    then have lt: "pos + ?need < sz" "0 \<le> pos + ?need" using need 1(3) by auto
    have step: "read_pieces win port sz pos buffer p = read_pieces win port sz (pos + ?need) ?b1 ?p1"
      using False lt need(2) by (subst read_pieces.simps) (simp add: r b1 Let_def)
    have len: "length ?b1 = length buffer" using fits by simp
    obtain p' where p': "read_pieces win port sz (pos + ?need) ?b1 ?p1 =
        Inr (True, take (nat (pos + ?need)) ?b1 @
          map src [at (up_os ?p1) ..< at (up_os ?p1) + nat (sz - (pos + ?need))] @
          drop (nat sz) ?b1, p')"
      "at (up_os p') = at (up_os ?p1) + nat (sz - (pos + ?need))"
    proof -
      have d: "\<not> int (length ?d) \<noteq> ?need" using need(2) by simp
      have b: "sz \<le> int (length ?b1)" "up_pipes ?p1 ! ReadHandleIndex port = Some h"
        using len 1(6,7) by simp_all
      show ?thesis
        using 1(1) [OF refl r [symmetric] refl d False less_imp_le [OF lt(1)] 1(2) lt(2,1) 1(5) b]
        by (elim exE conjE) (rule that)
    qed
    have eqs: "nat (pos + ?need) = nat pos + nat ?need"
      "nat (sz - pos) = nat ?need + nat (sz - (pos + ?need))" using need 1(3) lt by auto
    have "take (nat (pos + ?need)) ?b1 = take (nat pos) buffer @ ?d"
      using fits by (simp add: eqs)
    moreover have "drop (nat sz) ?b1 = drop (nat sz) buffer"
      using fits need lt 1(3) by (auto simp: nat_le_iff)
    moreover have "[?a ..< ?a + nat (sz - pos)] =
        [?a ..< at s'] @ [at s' ..< at s' + nat (sz - (pos + ?need))]"
      using upt_add_eq_append [of ?a "?a + nat ?need" "nat (sz - (pos + ?need))"]
      by (simp add: s'(2) eqs(2) add.assoc)
    ultimately show ?thesis using step p' s'(2) eqs(2) by auto
  qed
qed

lemma ReadEP3_result:
  assumes "port_ok p" and "reads_bounded win" and "0 < sz" and "sz < 2 ^ 31"
    and "sz \<le> int (length buffer)"
  shows "\<exists>p1 r p2. SetCmd RDEP3 addr mode None sz p = Inr p1 \<and> SendCmd win p1 = Inr (r, p2) \<and>
    (\<exists>ok b p'. ReadEP3 win addr mode buffer sz p = Inr (ok, b, p') \<and> port_ok p' \<and>
       length b = length buffer \<and> drop (nat sz) b = drop (nat sz) buffer \<and> (\<not> r \<longrightarrow> \<not> ok) \<and>
       (\<forall>h src at. r \<and> up_pipes p2 ! ReadHandleIndex kPort3 = Some h \<and> delivers win h src at \<longrightarrow>
          ok \<and> take (nat sz) b = map src [at (up_os p2) ..< at (up_os p2) + nat sz] \<and>
          at (up_os p') = at (up_os p2) + nat sz))"
proof -
  obtain p1 where p1: "SetCmd RDEP3 addr mode None sz p = Inr p1" "port_ok p1"
    using SetCmd_encodes [OF assms(1), of sz None RDEP3 addr mode] assms(3) by auto
  obtain r p2 where p2: "SendCmd win p1 = Inr (r, p2)" "port_ok p2"
    using SendCmd_total [OF p1(2) assms(2)] by auto
  show ?thesis
  proof (cases r)
    case False
    then have "ReadEP3 win addr mode buffer sz p = Inr (False, buffer, p2)"
      using p1 p2 assms(3) by (simp add: ReadEP3_def)
    then show ?thesis using p1 p2 False by (simp; blast)
  next
    case True
    then have run: "ReadEP3 win addr mode buffer sz p = read_pieces win kPort3 sz 0 buffer p2"
      using p1 p2 assms(3) by (simp add: ReadEP3_def)
    obtain ok b p' where b: "read_pieces win kPort3 sz 0 buffer p2 = Inr (ok, b, p')" "port_ok p'"
      "length b = length buffer" "drop (nat sz) b = drop (nat sz) buffer"
      using read_pieces_bounds [OF assms(2) order_refl assms(3-5) p2(2)] by blast
    have "ok \<and> take (nat sz) b = map src [at (up_os p2) ..< at (up_os p2) + nat sz] \<and>
        at (up_os p') = at (up_os p2) + nat sz"
      if h: "up_pipes p2 ! ReadHandleIndex kPort3 = Some h" "delivers win h src at" for h src at
      using read_pieces_stream [OF h(2) order_refl assms(3-5) h(1)] b(1) by auto
    then show ?thesis using p1 p2 run b True by auto
  qed
qed

text \<open>C37. A bulk read of any size: it never faults and never touches a byte outside the
  first \<open>sz\<close> of the buffer, and where the command is answered and the device delivers its
  stream, it answers true with exactly the next \<open>sz\<close> bytes of it in the buffer, put together
  from pieces of at most 64 kB.\<close>

theorem ReadEP3_delivers:
  assumes "port_ok p" and "reads_bounded win" and "0 < sz" and "sz < 2 ^ 31"
    and "sz \<le> int (length buffer)"
  shows "\<exists>p1 r p2. SetCmd RDEP3 addr mode None sz p = Inr p1 \<and> SendCmd win p1 = Inr (r, p2) \<and>
    (\<exists>ok b p'. ReadEP3 win addr mode buffer sz p = Inr (ok, b, p') \<and> port_ok p' \<and>
       length b = length buffer \<and> drop (nat sz) b = drop (nat sz) buffer \<and> (\<not> r \<longrightarrow> \<not> ok) \<and>
       (\<forall>h src at. r \<and> up_pipes p2 ! ReadHandleIndex kPort3 = Some h \<and> delivers win h src at \<longrightarrow>
          ok \<and> take (nat sz) b = map src [at (up_os p2) ..< at (up_os p2) + nat sz] \<and>
          at (up_os p') = at (up_os p2) + nat sz))"
  using assms by (rule ReadEP3_result)

lemma sample_delivers: "delivers sample_windows 4 of_nat (\<lambda>s. s)"
  by (simp add: delivers_def sample_windows_def)

lemma ReadEP3_delivers_witness:
  "\<exists>b p'. length b = 80 \<and> drop 70 b = replicate 10 0 \<and>
    (\<exists>ok. ReadEP3 sample_windows 5 kUsbModelStream (replicate 80 0) 70 sample_port = Inr (ok, b, p'))"
  using ReadEP3_delivers [OF sample_port_ok sample_windows_bounded, of 70 "replicate 80 0" 5
      kUsbModelStream] by auto

text \<open>A device that takes what is written: \<open>log s\<close> is what it has received on a pipe.\<close>

definition records :: "'s windows \<Rightarrow> nat \<Rightarrow> ('s \<Rightarrow> u8 list) \<Rightarrow> bool" where
  "records win h log \<longleftrightarrow>
     (\<forall>bs s. \<exists>s'. win_WriteFile win h bs s = (IoDone (int (length bs)), s') \<and>
        log s' = log s @ bs)"

definition padded :: "u8 list \<Rightarrow> u8 list" where
  "padded bs = bs @ replicate (nat (To4Align (int (length bs))) - length bs) 0"

lemma padded_aligned:
  assumes "length bs mod 4 = 0"
  shows "padded bs = bs"
proof -
  have "int (length bs) mod 4 = 0" using assms by presburger
  then have "To4Align (int (length bs)) = int (length bs)" by (simp add: To4Align_def)
  then show ?thesis by (simp add: padded_def)
qed

lemma padded_append:
  assumes "length bs mod 4 = 0"
  shows "padded (bs @ cs) = bs @ padded cs"
proof -
  have "(- int (length bs + length cs)) mod 4 = (- int (length cs)) mod 4"
    using assms by presburger
  then show ?thesis by (simp add: padded_def To4Align_nonneg(1))
qed

lemma write_piece_padded:
  assumes "0 \<le> pos" and "0 < n" and "pos + n \<le> int (length buffer)"
  shows "write_piece buffer pos n = Inr (padded (take (nat n) (drop (nat pos) buffer)))"
proof -
  let ?bs = "take (nat n) (drop (nat pos) buffer)"
  have len: "length ?bs = nat n" "nat pos + nat n \<le> length buffer" using assms by auto
  have "To4Align n = n" if "n mod 4 = 0" using that assms(2) by (simp add: To4Align_def)
  then show ?thesis
    using len assms(2) by (simp add: write_piece_def load_bytes_def padded_def)
qed

lemma write_pieces_log:
  assumes "records win h log" and "0 \<le> pos" and "pos < sz" and "sz < 2 ^ 31"
    and "sz \<le> int (length buffer)" and "up_pipes p ! WriteHandleIndex kPort2 = Some h"
  shows "\<exists>p'. write_pieces win sz pos buffer p = Inr (True, p') \<and>
    log (up_os p') = log (up_os p) @ padded (take (nat (sz - pos)) (drop (nat pos) buffer)) \<and>
    up_cmd p' = up_cmd p \<and> up_rsp p' = up_rsp p \<and> up_pipes p' = up_pipes p"
  using assms
proof (induction win sz pos buffer p rule: write_pieces.induct)
  case (1 win sz pos buffer p)
  let ?need = "need_size sz pos"
  have need: "?need = min 65536 (sz - pos)" "0 < ?need" "pos + ?need \<le> sz"
    using 1 need_size_eq [of pos sz] by auto
  let ?raw = "take (nat ?need) (drop (nat pos) buffer)"
  let ?bs = "padded ?raw"
  have piece: "write_piece buffer pos ?need = Inr ?bs"
    by (rule write_piece_padded) (use 1 need in auto)
  have len: "length ?raw = nat ?need" "0 < length ?bs" using 1(3,6) need by (auto simp: padded_def)
  obtain s' where s': "win_WriteFile win h ?bs (up_os p) = (IoDone (int (length ?bs)), s')"
    "log s' = log (up_os p) @ ?bs"
    using 1(2) unfolding records_def by blast
  let ?p1 = "p\<lparr>up_os := s'\<rparr>"
  have w: "WritePort win kPort2 ?bs p = Inr (Some (int (length ?bs)), ?p1)"
    using s' 1(7) len(2) by (simp add: WritePort_def)
  show ?case
  proof (cases "pos + ?need = sz")
    case True
    then have "nat (sz - pos) = nat ?need" by auto
    moreover have "write_pieces win sz pos buffer p = Inr (True, ?p1)"
      using True by (subst write_pieces.simps) (simp add: piece w Let_def)
    ultimately show ?thesis using s' by auto
  next
    case False
    then have lt: "pos + ?need < sz" "0 \<le> pos + ?need" and full: "?need = 65536" using need 1(3) by auto
    have step: "write_pieces win sz pos buffer p = write_pieces win sz (pos + ?need) buffer ?p1"
      using False lt by (subst write_pieces.simps) (simp add: piece w Let_def)
    have "length ?raw = nat ?need" by (rule len(1))
    also have "\<dots> = 65536" by (simp add: full)
    finally have l4: "length ?raw mod 4 = 0" by (rule ssubst) simp
    have raw: "?bs = ?raw" by (rule padded_aligned [OF l4])
    obtain p' where p': "write_pieces win sz (pos + ?need) buffer ?p1 = Inr (True, p')"
      "log (up_os p') = log s' @ padded (take (nat (sz - (pos + ?need))) (drop (nat (pos + ?need)) buffer))"
      "up_cmd p' = up_cmd p" "up_rsp p' = up_rsp p" "up_pipes p' = up_pipes p"
      using 1(1) [where x = ?need and xb = "Some (int (length ?bs))" and xa = ?bs and xc = ?p1]
        1(2,5,6,7) lt False by auto
    have eqs: "nat (pos + ?need) = nat pos + nat ?need"
      "nat (sz - pos) = nat ?need + nat (sz - (pos + ?need))" using need 1(3) lt by auto
    have "take (nat (sz - pos)) (drop (nat pos) buffer) =
        ?raw @ take (nat (sz - (pos + ?need))) (drop (nat (pos + ?need)) buffer)"
      by (simp add: eqs take_add add.commute)
    then have "padded (take (nat (sz - pos)) (drop (nat pos) buffer)) =
        ?raw @ padded (take (nat (sz - (pos + ?need))) (drop (nat (pos + ?need)) buffer))"
      using padded_append [OF l4] by simp
    then show ?thesis using step p' s'(2) raw by simp
  qed
qed

text \<open>A download: a device that takes what is written receives exactly the caller's
  bytes, in order, with at most three zeros behind them to make a multiple of 4, which is the
  length the command has announced; no byte outside the buffer is read.\<close>

theorem WritePort2Raw_writes:
  assumes "records win h log" and "0 < sz" and "sz < 2 ^ 31" and "sz \<le> int (length buffer)"
    and "up_pipes p ! WriteHandleIndex kPort2 = Some h"
  shows "\<exists>p1 sent. write_pieces win sz 0 buffer p = Inr (True, p1) \<and>
    log (up_os p1) = log (up_os p) @ sent \<and> take (nat sz) sent = take (nat sz) buffer \<and>
    int (length sent) = To4Align sz \<and> length sent mod 4 = 0 \<and>
    (\<exists>k \<le> 3. drop (nat sz) sent = replicate k 0)"
proof -
  let ?raw = "take (nat sz) buffer"
  obtain p1 where p1: "write_pieces win sz 0 buffer p = Inr (True, p1)"
    "log (up_os p1) = log (up_os p) @ padded ?raw"
    using write_pieces_log [OF assms(1) order_refl assms(2-5)] by auto
  have len: "length ?raw = nat sz" using assms(4) by auto
  have align: "To4Align sz = sz + (- sz) mod 4" "To4Align sz mod 4 = 0"
    using To4Align_nonneg [of sz] assms(2) by auto
  define k where "k = nat (To4Align sz) - nat sz"
  have sent: "padded ?raw = ?raw @ replicate k 0" using len assms(2) by (simp add: padded_def k_def)
  have k: "k = nat ((- sz) mod 4)" using align(1) assms(2) by (simp add: k_def nat_add_distrib)
  then have "k \<le> 3" by (simp add: nat_le_iff)
  moreover have total: "int (length (padded ?raw)) = To4Align sz"
    using sent len k align(1) assms(2) by simp
  moreover have "length (padded ?raw) mod 4 = 0" using total align(2) by presburger
  ultimately show ?thesis using p1 sent len by (intro exI [of _ p1] exI [of _ "padded ?raw"]) auto
qed

definition sample_recorder :: "u8 list windows" where
  "sample_recorder = \<lparr>win_CreateFile = (\<lambda>_ i s. (Some i, s)), win_CloseHandle = (\<lambda>_ s. (True, s)),
     win_ReadFile = (\<lambda>h n s. (IoError, s)),
     win_WriteFile = (\<lambda>h bs s. (IoDone (int (length bs)), s @ bs)),
     win_Wait = (\<lambda>s. (WAIT_TIMEOUT, s)), win_ReadResult = (\<lambda>_ s. (None, s)),
     win_WriteResult = (\<lambda>_ s. (None, s)), win_CancelIo = (\<lambda>_ s. s)\<rparr>"

lemma WritePort2Raw_writes_witness:
  "\<exists>p1 sent. write_pieces sample_recorder 3 0 [7, 8, 9]
      \<lparr>up_cmd = \<lparr>rm_memory = [], rm_start_addr = 0\<rparr>, up_rsp = \<lparr>rm_memory = [], rm_start_addr = 0\<rparr>,
       up_pipes = map Some [0..<6], up_os = []\<rparr> = Inr (True, p1) \<and>
    up_os p1 = sent \<and> take 3 sent = [7, 8, 9] \<and> int (length sent) = To4Align 3"
  using WritePort2Raw_writes [of sample_recorder 3 "\<lambda>s. s" 3 "[7, 8, 9]"
      "\<lparr>up_cmd = \<lparr>rm_memory = [], rm_start_addr = 0\<rparr>, up_rsp = \<lparr>rm_memory = [], rm_start_addr = 0\<rparr>,
       up_pipes = map Some [0..<6], up_os = []\<rparr>"]
  by (auto simp: records_def sample_recorder_def WriteHandleIndex_def numeral_3_eq_3)

end
