(* ===== verification/Device_Base.thy ===== *)
theory Device_Base
  imports Property_Store
begin

text \<open>
  The base of a device: \<open>ConfigManager\<close> (canscope/device/config_manager.h, config_manager.cc),
  the lock and the configuration of \<open>DeviceBase\<close> (device_base.h, device_base.cc) and
  \<open>ScopedDeviceLock\<close> (scoped_device_lock.h, scoped_device_lock.cc).

  A device has its property store, or none; the store is the \<open>world\<close> of the property
  store's theory.  Notifications are recorded.  The clients of the lock run on threads of
  their own: each call of \<open>Lock\<close>, \<open>UnLock\<close> and the wait for the event is one step.
\<close>

subsection \<open>ConfigManager\<close>

datatype 'v pref = Dictionary "(string \<times> 'v) list" | OtherValue

record 'v Config =
  cfg_id :: int
  cfg_pref :: "'v pref"

record 'v ConfigManager =
  cm_current_id :: int
  cm_history :: "'v Config list"

definition ConfigManager_new :: "'v ConfigManager" where
  "ConfigManager_new = \<lparr>cm_current_id = 0, cm_history = []\<rparr>"

definition GetLast :: "'v ConfigManager \<Rightarrow> 'v Config res" where
  "GetLast cm = DCHECK (cm_history cm \<noteq> []) (Inr (last (cm_history cm)))"

definition Update :: "'v pref \<Rightarrow> 'v ConfigManager \<Rightarrow> 'v ConfigManager res" where
  "Update value cm =
     and_then (int32_of (cm_current_id cm + 1)) (\<lambda>next_id.
       Inr (cm\<lparr>cm_history := cm_history cm @ [\<lparr>cfg_id = cm_current_id cm, cfg_pref = value\<rparr>],
              cm_current_id := next_id\<rparr>))"

definition config_ok :: "'v ConfigManager \<Rightarrow> bool" where
  "config_ok cm \<longleftrightarrow> map cfg_id (cm_history cm) = map int [0 ..< length (cm_history cm)] \<and>
     cm_current_id cm = int (length (cm_history cm))"

lemma config_ok_new [inv_intros]: "config_ok ConfigManager_new"
  by (simp add: config_ok_def ConfigManager_new_def)

lemma Update_ok [inv_intros]:
  "config_ok cm \<Longrightarrow> Update value cm = Inr cm' \<Longrightarrow> config_ok cm'"
  by (auto simp: Update_def config_ok_def)

subsection \<open>DeviceBase\<close>

datatype notification = LOCK_STATUS_CHANGED | DEVICE_PREFS_UPDATE

record 'v DeviceBase =
  db_seq :: int
  db_lock_name :: string
  db_event :: bool
  db_config_manager :: "'v ConfigManager option"
  db_notified :: "notification list"

definition kNullSeq :: int where "kNullSeq = 0"

definition DeviceBase_new :: "'v ConfigManager option \<Rightarrow> 'v DeviceBase" where
  "DeviceBase_new cm = \<lparr>db_seq = kNullSeq, db_lock_name = '''', db_event = True,
     db_config_manager = cm, db_notified = []\<rparr>"

definition LockStatusChanged :: "'v DeviceBase \<Rightarrow> 'v DeviceBase" where
  "LockStatusChanged d = d\<lparr>db_notified := db_notified d @ [LOCK_STATUS_CHANGED]\<rparr>"

definition IncSeq :: "'v DeviceBase \<Rightarrow> (int \<times> 'v DeviceBase) res" where
  "IncSeq d =
     and_then (int32_of (db_seq d + 1)) (\<lambda>s.
     and_then (if s = kNullSeq then int32_of (s + 1) else Inr s) (\<lambda>s.
       Inr (s, d\<lparr>db_seq := s\<rparr>)))"

text \<open>\<open>Lock\<close> gives the sequence number where it succeeds.\<close>

definition Lock :: "string \<Rightarrow> 'v DeviceBase \<Rightarrow> (int option \<times> 'v DeviceBase) res" where
  "Lock name d =
     (if db_seq d \<noteq> kNullSeq then Inr (None, d)
      else and_then (IncSeq d) (\<lambda>(seq, d).
        Inr (Some seq, LockStatusChanged (d\<lparr>db_lock_name := name, db_event := False\<rparr>))))"

definition UnLock :: "int \<Rightarrow> 'v DeviceBase \<Rightarrow> 'v DeviceBase res" where
  "UnLock seq d =
     CHECK (seq = db_seq d)
       (Inr (LockStatusChanged (d\<lparr>db_seq := kNullSeq, db_lock_name := '''', db_event := True\<rparr>)))"

definition IsLocked :: "'v DeviceBase \<Rightarrow> bool" where
  "IsLocked d \<longleftrightarrow> db_seq d \<noteq> kNullSeq"

definition CheckLock :: "int \<Rightarrow> 'v DeviceBase \<Rightarrow> bool" where
  "CheckLock seq d \<longleftrightarrow> db_seq d = seq"

text \<open>The three operations on the configuration; the device's store is given apart.\<close>

definition config_dictionary :: "'v ConfigManager \<Rightarrow> (string \<times> 'v) list res" where
  "config_dictionary cm =
     and_then (GetLast cm) (\<lambda>config.
       case cfg_pref config of
         OtherValue \<Rightarrow> Inl DcheckFailed
       | Dictionary dict \<Rightarrow> Inr dict)"

definition LoadFromConfig ::
  "'v DeviceBase \<Rightarrow> ('v, 'a) world option \<Rightarrow> ('v, 'a) world option res" where
  "LoadFromConfig d prefs =
     (case (prefs, db_config_manager d) of
        (Some w, Some cm) \<Rightarrow>
          and_then (config_dictionary cm) (\<lambda>dict.
          and_then (ChangeContent dict w) (\<lambda>w. Inr (Some w)))
      | _ \<Rightarrow> Inr prefs)"

definition InitFromConfig ::
  "'v DeviceBase \<Rightarrow> ('v, 'a) world option \<Rightarrow> ('v, 'a) world option res" where
  "InitFromConfig d prefs =
     (case (prefs, db_config_manager d) of
        (Some w, Some cm) \<Rightarrow>
          and_then (config_dictionary cm) (\<lambda>dict. Inr (Some (Reset dict w)))
      | _ \<Rightarrow> Inr prefs)"

definition UpdateConfig ::
  "'v DeviceBase \<Rightarrow> ('v, 'a) world option \<Rightarrow> 'v DeviceBase res" where
  "UpdateConfig d prefs =
     (case (prefs, db_config_manager d) of
        (Some w, Some cm) \<Rightarrow>
          and_then (Update (Dictionary (Serialize w)) cm) (\<lambda>cm.
            Inr (d\<lparr>db_config_manager := Some cm,
                   db_notified := db_notified d @ [DEVICE_PREFS_UPDATE]\<rparr>))
      | _ \<Rightarrow> Inr d)"

subsection \<open>Saving and loading the configuration\<close>

lemma Update_GetLast:
  "Update value cm = Inr cm' \<Longrightarrow>
     GetLast cm' = Inr \<lparr>cfg_id = cm_current_id cm, cfg_pref = value\<rparr>"
  by (auto simp: Update_def GetLast_def)

text \<open>What \<open>UpdateConfig\<close> saves is what \<open>LoadFromConfig\<close> and \<open>InitFromConfig\<close> bring
  back: whatever the store's content has become, as long as it has the saved keys, loading
  gives every saved key its saved value and leaves nothing to change, and initialising gives
  exactly the saved content.\<close>

theorem config_save_load:
  assumes "map_keys_ok (w_prefs saved)" and "db_config_manager d = Some cm"
    and "UpdateConfig d (Some saved) = Inr d'"
    and "store_ok w" and "\<And>k v. (k, v) \<in> set (w_prefs saved) \<Longrightarrow> HasPrefPath k w \<and> accepts w k v"
  shows "(\<exists>w'. LoadFromConfig d' (Some w) = Inr (Some w') \<and> ChangedSet saved w' = [] \<and>
      LoadFromConfig d' (Some w') = Inr (Some w')) \<and>
    (\<exists>w'. InitFromConfig d' (Some w) = Inr (Some w') \<and> w_prefs w' = w_prefs saved)"
proof -
  obtain cm' where cm': "Update (Dictionary (Serialize saved)) cm = Inr cm'"
    "db_config_manager d' = Some cm'"
    using assms(2,3) by (auto simp: UpdateConfig_def)
  have dict: "config_dictionary cm' = Inr (Serialize saved)"
    using Update_GetLast [OF cm'(1)] by (simp add: config_dictionary_def)
  have ser: "Serialize saved = w_prefs saved"
    using fold_map_put [of "[]" "w_prefs saved"] assms(1) by (simp add: Serialize_def)
  let ?w = "fold (\<lambda>(k, v). stored k v) (w_prefs saved) w"
  have change: "ChangeContent (w_prefs saved) w = Inr ?w"
    by (rule ChangeContent_folds [OF assms(4,5)])
  have dist: "distinct (map fst (w_prefs saved))" by (rule map_keys_ok_distinct [OF assms(1)])
  have get: "GetValue k ?w = Some v" if "(k, v) \<in> set (w_prefs saved)" for k v
  proof -
    have "map_of (w_prefs saved) k = Some v" using that map_of_eq_Some_iff_ok [OF assms(1)] by blast
    then show ?thesis using fold_stored_values [OF assms(4) dist, of k] by simp
  qed
  have again: "fold (\<lambda>(k, v). stored k v) xs ?w = ?w" if "set xs \<subseteq> set (w_prefs saved)" for xs
    using that by (induction xs) (auto simp: stored_def get)
  have "ChangeContent (w_prefs saved) ?w = Inr (fold (\<lambda>(k, v). stored k v) (w_prefs saved) ?w)"
    by (rule ChangeContent_folds [OF fold_stored_ok [OF assms(4)]])
      (use assms(5) in \<open>auto simp: HasPrefPath_def get\<close>)
  then have "ChangeContent (w_prefs saved) ?w = Inr ?w" using again by simp
  moreover have "ChangedSet saved ?w = []" by (auto simp: ChangedSet_def filter_empty_conv get)
  moreover have "w_prefs (Reset (w_prefs saved) w) = w_prefs saved"
    using fold_map_put [of "[]" "w_prefs saved"] assms(1) by (simp add: Reset_def)
  ultimately show ?thesis
    using change dict cm'(2) by (simp add: LoadFromConfig_def InitFromConfig_def ser)
qed

lemma config_save_load_witness:
  "\<exists>d' w'. UpdateConfig (DeviceBase_new (Some ConfigManager_new))
      (Some (sample_world\<lparr>w_prefs := [(''a'', 9)]\<rparr>)) = Inr d' \<and>
    LoadFromConfig d' (Some sample_world) = Inr (Some w') \<and>
    ChangedSet (sample_world\<lparr>w_prefs := [(''a'', 9)]\<rparr>) w' = []"
proof -
  let ?s = "sample_world\<lparr>w_prefs := [(''a'', 9)]\<rparr>"
  obtain d' where d': "UpdateConfig (DeviceBase_new (Some ConfigManager_new)) (Some ?s) = Inr d'"
    by (simp add: UpdateConfig_def DeviceBase_new_def Update_def ConfigManager_new_def
        int32_of_def in_int32_def)
  have "db_config_manager (DeviceBase_new (Some ConfigManager_new)) = Some ConfigManager_new"
    by (simp add: DeviceBase_new_def)
  from config_save_load [OF _ this d' sample_world_ok] d' show ?thesis
    by (auto simp: sample_world_simps sample_world_accepts)
qed

text \<open>The configurations of a manager are numbered 0, 1, 2, ... in the order of the
  updates, and the last one is the one that is got, until the number would overflow.\<close>

theorem config_history:
  assumes "for_each Update values ConfigManager_new = Inr cm"
  shows "map cfg_pref (cm_history cm) = values \<and>
    map cfg_id (cm_history cm) = map int [0 ..< length values] \<and>
    (values \<noteq> [] \<longrightarrow> GetLast cm = Inr \<lparr>cfg_id = int (length values) - 1, cfg_pref = last values\<rparr>)"
proof -
  have "map cfg_pref (cm_history cm) = map cfg_pref (cm_history cm0) @ values \<and> config_ok cm"
    if "config_ok cm0" "for_each Update values cm0 = Inr cm" for cm0
    using that
  proof (induction "values" arbitrary: cm0)
    case Nil
    then show ?case by simp
  next
    case (Cons v vs)
    then obtain cm1 where cm1: "Update v cm0 = Inr cm1" "for_each Update vs cm1 = Inr cm" by auto
    have "config_ok cm1" using Cons.prems(1) cm1(1) by (rule Update_ok)
    from Cons.IH [OF this cm1(2)] show ?case using cm1(1) by (auto simp: Update_def)
  qed
  from this [OF config_ok_new assms] have h: "map cfg_pref (cm_history cm) = values" "config_ok cm"
    by (simp_all add: ConfigManager_new_def)
  have len: "length (cm_history cm) = length values" using h(1) by (metis length_map)
  have "GetLast cm = Inr \<lparr>cfg_id = int (length values) - 1, cfg_pref = last values\<rparr>" if "values \<noteq> []"
  proof -
    let ?c = "last (cm_history cm)"
    have ne: "cm_history cm \<noteq> []" using that len by auto
    then have "cfg_pref ?c = last values" using h(1) by (metis last_map)
    moreover have "cfg_id ?c = last (map int [0 ..< length values])"
      using h(2) ne len by (metis config_ok_def last_map)
    moreover have "last (map int [0 ..< length values]) = int (length values) - 1"
      using that by (simp add: last_map last_upt of_nat_diff Suc_le_eq)
    ultimately show ?thesis using ne by (simp add: GetLast_def)
  qed
  then show ?thesis using h len by (simp add: config_ok_def)
qed

lemma config_history_witness:
  "\<exists>cm. for_each Update [Dictionary [(''a'', 1 :: nat)], OtherValue] ConfigManager_new = Inr cm \<and>
    GetLast cm = Inr \<lparr>cfg_id = 1, cfg_pref = OtherValue\<rparr>"
proof -
  obtain cm where "for_each Update [Dictionary [(''a'', 1 :: nat)], OtherValue] ConfigManager_new = Inr cm"
    by (simp add: Update_def ConfigManager_new_def int32_of_def in_int32_def)
  with config_history [OF this] show ?thesis by simp
qed

subsection \<open>The lock and its clients\<close>

text \<open>A client is a \<open>ScopedDeviceLock\<close>: in its constructor's loop, waiting for the event,
  constructed, or gone.\<close>

datatype stage = Gone | Trying bool | Waiting | Constructed

record client =
  sl_stage :: stage
  sl_seq :: int

record 'v lock_system =
  ls_device :: "'v DeviceBase"
  ls_client :: "nat \<Rightarrow> client"

definition ScopedLock_IsLocked :: "client \<Rightarrow> bool" where
  "ScopedLock_IsLocked c \<longleftrightarrow> sl_seq c \<noteq> kNullSeq"

definition put_client :: "nat \<Rightarrow> client \<Rightarrow> 'v lock_system \<Rightarrow> 'v lock_system" where
  "put_client i c s = s\<lparr>ls_client := (ls_client s)(i := c)\<rparr>"

text \<open>One turn of the constructor's loop.\<close>

definition ScopedLock_try :: "nat \<Rightarrow> string \<Rightarrow> bool \<Rightarrow> 'v lock_system \<Rightarrow> 'v lock_system res" where
  "ScopedLock_try i name wait s =
     and_then (Lock name (ls_device s)) (\<lambda>(ret, d).
       let s = s\<lparr>ls_device := d\<rparr> in
       Inr (case ret of
              Some seq \<Rightarrow> put_client i \<lparr>sl_stage = Constructed, sl_seq = seq\<rparr> s
            | None \<Rightarrow>
                put_client i \<lparr>sl_stage = (if wait then Waiting else Constructed),
                              sl_seq = sl_seq (ls_client s i)\<rparr> s))"

definition ScopedLock_destroy :: "nat \<Rightarrow> 'v lock_system \<Rightarrow> 'v lock_system res" where
  "ScopedLock_destroy i s =
     and_then (if ScopedLock_IsLocked (ls_client s i)
               then UnLock (sl_seq (ls_client s i)) (ls_device s) else Inr (ls_device s))
       (\<lambda>d. Inr (put_client i \<lparr>sl_stage = Gone, sl_seq = kNullSeq\<rparr> (s\<lparr>ls_device := d\<rparr>)))"

inductive lock_step :: "'v lock_system \<Rightarrow> 'v lock_system res \<Rightarrow> bool" where
  begin_ctor: "sl_stage (ls_client s i) = Gone \<Longrightarrow>
     lock_step s (Inr (put_client i \<lparr>sl_stage = Trying wait, sl_seq = kNullSeq\<rparr> s))"
| try_lock: "sl_stage (ls_client s i) = Trying wait \<Longrightarrow>
     lock_step s (ScopedLock_try i name wait s)"
| wake: "sl_stage (ls_client s i) = Waiting \<Longrightarrow> db_event (ls_device s) \<Longrightarrow>
     lock_step s (Inr (put_client i ((ls_client s i)\<lparr>sl_stage := Trying True\<rparr>) s))"
| destroy: "sl_stage (ls_client s i) = Constructed \<Longrightarrow> lock_step s (ScopedLock_destroy i s)"

inductive_cases lock_stepE: "lock_step s r"

definition lock_system_new :: "'v ConfigManager option \<Rightarrow> 'v lock_system" where
  "lock_system_new cm =
     \<lparr>ls_device = DeviceBase_new cm, ls_client = (\<lambda>_. \<lparr>sl_stage = Gone, sl_seq = kNullSeq\<rparr>)\<rparr>"

inductive lock_reach :: "'v lock_system \<Rightarrow> bool" where
  lock_new: "lock_reach (lock_system_new cm)"
| lock_next: "lock_reach s \<Longrightarrow> lock_step s (Inr t) \<Longrightarrow> lock_reach t"

definition lock_inv :: "'v lock_system \<Rightarrow> bool" where
  "lock_inv s \<longleftrightarrow>
     (db_seq (ls_device s) = kNullSeq \<or> db_seq (ls_device s) = 1) \<and>
     (db_event (ls_device s) \<longleftrightarrow> db_seq (ls_device s) = kNullSeq) \<and>
     (\<forall>i. ScopedLock_IsLocked (ls_client s i) \<longrightarrow>
        sl_stage (ls_client s i) = Constructed \<and> sl_seq (ls_client s i) = db_seq (ls_device s)) \<and>
     (\<forall>i j. ScopedLock_IsLocked (ls_client s i) \<and> ScopedLock_IsLocked (ls_client s j) \<longrightarrow> i = j) \<and>
     (db_seq (ls_device s) \<noteq> kNullSeq \<longrightarrow> (\<exists>i. ScopedLock_IsLocked (ls_client s i)))"

text \<open>The abstract lock: its owner.\<close>

definition owner :: "'v lock_system \<Rightarrow> nat option" where
  "owner s = (if \<exists>i. ScopedLock_IsLocked (ls_client s i)
              then Some (LEAST i. ScopedLock_IsLocked (ls_client s i)) else None)"

inductive mutex_step :: "nat option \<Rightarrow> nat option \<Rightarrow> bool" where
  stutter: "mutex_step x x"
| acquire: "mutex_step None (Some i)"
| release: "mutex_step (Some i) None"

lemma owner_Some: "lock_inv s \<Longrightarrow> owner s = Some i \<longleftrightarrow> ScopedLock_IsLocked (ls_client s i)"
proof -
  assume inv: "lock_inv s"
  have "(LEAST i. ScopedLock_IsLocked (ls_client s i)) = i" if "ScopedLock_IsLocked (ls_client s i)" for i
    using that inv by (intro Least_equality) (auto simp: lock_inv_def)
  then show ?thesis by (auto simp: owner_def)
qed

lemma owner_None: "owner s = None \<longleftrightarrow> (\<forall>i. \<not> ScopedLock_IsLocked (ls_client s i))"
  by (auto simp: owner_def)

lemma Lock_free:
  "db_seq d = kNullSeq \<Longrightarrow> Lock name d =
     Inr (Some 1, LockStatusChanged (d\<lparr>db_seq := 1, db_lock_name := name, db_event := False\<rparr>))"
  by (simp add: Lock_def IncSeq_def kNullSeq_def int32_of_def in_int32_def)

lemma Lock_taken: "db_seq d \<noteq> kNullSeq \<Longrightarrow> Lock name d = Inr (None, d)"
  by (simp add: Lock_def)

lemma put_client_simps [simp]:
  "ls_device (put_client i c s) = ls_device s"
  "ls_client (put_client i c s) = (ls_client s)(i := c)"
  by (simp_all add: put_client_def)

lemma LockStatusChanged_simps [simp]:
  "db_seq (LockStatusChanged d) = db_seq d"
  "db_event (LockStatusChanged d) = db_event d"
  by (simp_all add: LockStatusChanged_def)

lemma owner_cong:
  "(\<And>j. ScopedLock_IsLocked (ls_client t j) = ScopedLock_IsLocked (ls_client s j)) \<Longrightarrow>
     owner t = owner s"
  unfolding owner_def by simp

lemma lock_inv_cong:
  assumes "lock_inv s" and "ls_device t = ls_device s"
    and "\<And>j. ScopedLock_IsLocked (ls_client t j) = ScopedLock_IsLocked (ls_client s j)"
    and "\<And>j. ScopedLock_IsLocked (ls_client s j) \<Longrightarrow> ls_client t j = ls_client s j"
  shows "lock_inv t"
  unfolding lock_inv_def assms(2,3)
  using assms(1,4) unfolding lock_inv_def by metis

lemma lock_step_refines:
  assumes "lock_step s r" and inv: "lock_inv s"
  shows "\<exists>t. r = Inr t \<and> lock_inv t \<and> mutex_step (owner s) (owner t)"
  using assms(1)
proof cases
  case (begin_ctor i wait)
  let ?t = "put_client i \<lparr>sl_stage = Trying wait, sl_seq = kNullSeq\<rparr> s"
  have free: "\<not> ScopedLock_IsLocked (ls_client s i)" using inv begin_ctor by (auto simp: lock_inv_def)
  have same: "ScopedLock_IsLocked (ls_client ?t j) = ScopedLock_IsLocked (ls_client s j)" for j
    using free by (simp add: ScopedLock_IsLocked_def)
  have "lock_inv ?t" by (rule lock_inv_cong [OF inv _ same]) (use free in auto)
  moreover have "owner ?t = owner s" by (rule owner_cong [OF same])
  ultimately show ?thesis using begin_ctor by (simp add: stutter)
next
  case (try_lock i wait name)
  show ?thesis
  proof (cases "db_seq (ls_device s) = kNullSeq")
    case True
    let ?d = "LockStatusChanged ((ls_device s)\<lparr>db_seq := 1, db_lock_name := name, db_event := False\<rparr>)"
    let ?t = "put_client i \<lparr>sl_stage = Constructed, sl_seq = 1\<rparr> (s\<lparr>ls_device := ?d\<rparr>)"
    have run: "r = Inr ?t"
      using try_lock by (simp add: ScopedLock_try_def Lock_free [OF True] Let_def)
    have none: "\<not> ScopedLock_IsLocked (ls_client s j)" for j
      using inv True by (auto simp: lock_inv_def ScopedLock_IsLocked_def)
    have held: "ScopedLock_IsLocked (ls_client ?t j) \<longleftrightarrow> j = i" for j
      using none by (auto simp: ScopedLock_IsLocked_def kNullSeq_def)
    have "lock_inv ?t" unfolding lock_inv_def using held by (auto simp: kNullSeq_def)
    moreover from this have "owner ?t = Some i" using held owner_Some by blast
    moreover have "owner s = None" using none owner_None by blast
    ultimately show ?thesis using run by (simp add: acquire)
  next
    case False
    let ?t = "put_client i \<lparr>sl_stage = (if wait then Waiting else Constructed),
                              sl_seq = sl_seq (ls_client s i)\<rparr> s"
    have run: "r = Inr ?t"
      using try_lock by (simp add: ScopedLock_try_def Lock_taken [OF False] Let_def)
    have free: "\<not> ScopedLock_IsLocked (ls_client s i)" using inv try_lock by (auto simp: lock_inv_def)
    have same: "ScopedLock_IsLocked (ls_client ?t j) = ScopedLock_IsLocked (ls_client s j)" for j
      by (simp add: ScopedLock_IsLocked_def)
    have "lock_inv ?t" by (rule lock_inv_cong [OF inv _ same]) (use free in auto)
    moreover have "owner ?t = owner s" by (rule owner_cong [OF same])
    ultimately show ?thesis using run by (simp add: stutter)
  qed
next
  case (wake i)
  let ?t = "put_client i ((ls_client s i)\<lparr>sl_stage := Trying True\<rparr>) s"
  have free: "\<not> ScopedLock_IsLocked (ls_client s i)" using inv wake by (auto simp: lock_inv_def)
  have same: "ScopedLock_IsLocked (ls_client ?t j) = ScopedLock_IsLocked (ls_client s j)" for j
    by (simp add: ScopedLock_IsLocked_def)
  have "lock_inv ?t" by (rule lock_inv_cong [OF inv _ same]) (use free in auto)
  moreover have "owner ?t = owner s" by (rule owner_cong [OF same])
  ultimately show ?thesis using wake by (simp add: stutter)
next
  case (destroy i)
  show ?thesis
  proof (cases "ScopedLock_IsLocked (ls_client s i)")
    case True
    let ?d = "LockStatusChanged ((ls_device s)\<lparr>db_seq := kNullSeq, db_lock_name := '''', db_event := True\<rparr>)"
    let ?t = "put_client i \<lparr>sl_stage = Gone, sl_seq = kNullSeq\<rparr> (s\<lparr>ls_device := ?d\<rparr>)"
    have run: "r = Inr ?t"
      using destroy True inv by (simp add: ScopedLock_destroy_def UnLock_def lock_inv_def)
    have only: "ScopedLock_IsLocked (ls_client s j) \<longleftrightarrow> j = i" for j
      using inv True by (auto simp: lock_inv_def)
    have none: "\<not> ScopedLock_IsLocked (ls_client ?t j)" for j
      using only [of j] by (auto simp: ScopedLock_IsLocked_def)
    have "lock_inv ?t" unfolding lock_inv_def using none by (simp add: kNullSeq_def)
    moreover have "owner ?t = None" using none owner_None by blast
    moreover have "owner s = Some i" using True owner_Some [OF inv] by blast
    ultimately show ?thesis using run by (simp add: release)
  next
    case False
    let ?t = "put_client i \<lparr>sl_stage = Gone, sl_seq = kNullSeq\<rparr> s"
    have run: "r = Inr ?t" using destroy False by (simp add: ScopedLock_destroy_def)
    have same: "ScopedLock_IsLocked (ls_client ?t j) = ScopedLock_IsLocked (ls_client s j)" for j
      using False by (simp add: ScopedLock_IsLocked_def)
    have "lock_inv ?t" by (rule lock_inv_cong [OF inv _ same]) (use False in auto)
    moreover have "owner ?t = owner s" by (rule owner_cong [OF same])
    ultimately show ?thesis using run by (simp add: stutter)
  qed
qed

lemma lock_inv_reach: "lock_reach s \<Longrightarrow> lock_inv s"
proof (induction rule: lock_reach.induct)
  case (lock_new cm)
  then show ?case
    by (simp add: lock_inv_def lock_system_new_def DeviceBase_new_def ScopedLock_IsLocked_def)
next
  case (lock_next s t)
  then show ?case using lock_step_refines [of s "Inr t"] by auto
qed

text \<open>The device lock implements a mutex with an owner.  In every state that its clients
  reach, every step succeeds (no CHECK of \<open>UnLock\<close> fails) and is an acquisition of the free
  lock, a release by the owner, or no change of the owner; at most one client holds the lock,
  the device is locked exactly while one does, and a waiting client can go on whenever the
  lock is free.\<close>

theorem device_lock_is_mutex:
  assumes "lock_reach s"
  shows "(\<forall>r. lock_step s r \<longrightarrow> (\<exists>t. r = Inr t \<and> mutex_step (owner s) (owner t))) \<and>
    (\<forall>i. owner s = Some i \<longleftrightarrow> ScopedLock_IsLocked (ls_client s i)) \<and>
    (IsLocked (ls_device s) \<longleftrightarrow> owner s \<noteq> None) \<and>
    (\<forall>i. sl_stage (ls_client s i) = Waiting \<and> owner s = None \<longrightarrow>
       lock_step s (Inr (put_client i ((ls_client s i)\<lparr>sl_stage := Trying True\<rparr>) s)))"
proof -
  have inv: "lock_inv s" by (rule lock_inv_reach [OF assms])
  have locked: "IsLocked (ls_device s) \<longleftrightarrow> owner s \<noteq> None"
    using inv owner_None [of s] unfolding lock_inv_def IsLocked_def ScopedLock_IsLocked_def
    by metis
  have "lock_step s (Inr (put_client i ((ls_client s i)\<lparr>sl_stage := Trying True\<rparr>) s))"
    if "sl_stage (ls_client s i) = Waiting" "owner s = None" for i
    using that locked inv by (intro wake) (auto simp: IsLocked_def lock_inv_def)
  then show ?thesis using lock_step_refines [OF _ inv] owner_Some [OF inv] locked by blast
qed

lemma device_lock_is_mutex_witness:
  "\<exists>t. ScopedLock_try 3 ''osc'' True
      (put_client 3 \<lparr>sl_stage = Trying True, sl_seq = kNullSeq\<rparr> (lock_system_new None :: nat lock_system)) = Inr t \<and>
    owner t = Some 3 \<and> IsLocked (ls_device t)"
proof -
  let ?s = "put_client 3 \<lparr>sl_stage = Trying True, sl_seq = kNullSeq\<rparr> (lock_system_new None :: nat lock_system)"
  have "lock_reach ?s"
    by (rule lock_next [OF lock_new begin_ctor]) (simp add: lock_system_new_def)
  moreover have step: "lock_step ?s (ScopedLock_try 3 ''osc'' True ?s)"
    by (rule try_lock) simp
  moreover obtain t where t: "ScopedLock_try 3 ''osc'' True ?s = Inr t"
    "ls_client t 3 = \<lparr>sl_stage = Constructed, sl_seq = 1\<rparr>"
    by (simp add: ScopedLock_try_def Lock_free lock_system_new_def DeviceBase_new_def Let_def)
  ultimately have "lock_reach t" using lock_next by metis
  moreover have "ScopedLock_IsLocked (ls_client t 3)"
    using t(2) by (simp add: ScopedLock_IsLocked_def kNullSeq_def)
  ultimately have "owner t = Some 3 \<and> IsLocked (ls_device t)"
    using device_lock_is_mutex [of t] by auto
  with t(1) show ?thesis by blast
qed

text \<open>Every locking gives the same sequence number: \<open>UnLock\<close> resets the counter, so the
  number of a client that has unlocked passes \<open>CheckLock\<close> again as soon as somebody else has
  locked the device.\<close>

theorem stale_seq_passes_CheckLock:
  assumes "Lock name d = Inr (Some seq, d1)" and "UnLock seq d1 = Inr d2"
  shows "\<exists>d3. Lock other d2 = Inr (Some seq, d3) \<and> CheckLock seq d3"
proof -
  have "db_seq d = kNullSeq" using assms(1) Lock_taken by fastforce
  then have "seq = 1" using assms(1) Lock_free by fastforce
  moreover have "db_seq d2 = kNullSeq" using assms(2) by (auto simp: UnLock_def)
  ultimately show ?thesis using Lock_free [of d2 other] by (simp add: CheckLock_def)
qed

lemma stale_seq_passes_CheckLock_witness:
  "\<exists>d1 d2 d3. Lock ''a'' (DeviceBase_new None :: nat DeviceBase) = Inr (Some 1, d1) \<and> UnLock 1 d1 = Inr d2 \<and>
    Lock ''b'' d2 = Inr (Some 1, d3) \<and> CheckLock 1 d3"
proof -
  obtain d1 d2 where "Lock ''a'' (DeviceBase_new None :: nat DeviceBase) = Inr (Some 1, d1)" "UnLock 1 d1 = Inr d2"
    by (simp add: Lock_free DeviceBase_new_def UnLock_def)
  then show ?thesis
    using stale_seq_passes_CheckLock [of "''a''" "DeviceBase_new None :: nat DeviceBase" 1 d1 d2 "''b''"] by blast
qed

end
