(* ===== verification/Calc_Group.thy ===== *)
theory Calc_Group
  imports Prelude "HOL-Library.Multiset"
begin

text \<open>
  The dependency graph of calculations (depend_calc/calc_item.h, calc_group.h,
  calc_group.cc): \<open>CalcItem\<close>, \<open>CalcGroup\<close> and its cycle test.

  Items are objects, known by their address.  \<open>items\<close> holds the objects that exist; using
  an object that does not, or deleting it a second time, is the fault \<open>Undefined\<close>.  The
  edges are a \<open>std::multimap\<close> from an item to the items that depend on it: a list of pairs
  in the order of the first address, equal ones in the order of their insertion.  An
  iterator is the place between two parts of that list, so that an iterator becomes
  invalid when the first element behind it is erased.
\<close>

subsection \<open>CalcItem\<close>

record CalcItem =
  ci_name :: string
  ci_id :: ptr

type_synonym items = "(ptr \<times> CalcItem) list"

definition CalcItem_new :: "string \<Rightarrow> ptr \<Rightarrow> CalcItem" where
  "CalcItem_new name key = \<lparr>ci_name = name, ci_id = key\<rparr>"

definition item_at :: "items \<Rightarrow> ptr \<Rightarrow> CalcItem res" where
  "item_at h p = (case map_of h p of None \<Rightarrow> Inl Undefined | Some i \<Rightarrow> Inr i)"

definition delete_item :: "ptr \<Rightarrow> items \<Rightarrow> items res" where
  "delete_item p h = (if map_of h p = None then Inl Undefined else Inr (map_erase p h))"

text \<open>\<open>new\<close>: the allocator, a parameter, gives an address that is neither NULL nor in use;
  \<open>next_free\<close> is one.\<close>

definition allocates :: "(items \<Rightarrow> ptr) \<Rightarrow> bool" where
  "allocates fresh \<longleftrightarrow> (\<forall>h. map_of h (fresh h) = None \<and> fresh h \<noteq> 0)"

definition next_free :: "items \<Rightarrow> ptr" where
  "next_free h = Suc (foldr max (map fst h) 0)"

lemma allocates_next_free: "allocates next_free"
proof -
  have "p \<le> foldr max (map fst h) 0" if "p \<in> fst ` set h" for p and h :: items
    using that by (induction h) (auto simp: le_max_iff_disj)
  then have "next_free h \<notin> fst ` set h" for h
    unfolding next_free_def using not_less_eq_eq by blast
  then show ?thesis by (simp add: allocates_def map_of_eq_None_iff next_free_def)
qed

definition CalcItem_Clone :: "(items \<Rightarrow> ptr) \<Rightarrow> ptr \<Rightarrow> items \<Rightarrow> (ptr \<times> items) res" where
  "CalcItem_Clone fresh p h =
     and_then (item_at h p) (\<lambda>i.
       Inr (fresh h, map_put (fresh h) (CalcItem_new (ci_name i) (ci_id i)) h))"

subsection \<open>CalcGroup\<close>

type_synonym edges = "(ptr \<times> ptr) list"

record CalcGroup =
  cg_name :: string
  cg_nodes :: "ptr list"
  cg_edges :: edges

definition CalcGroup_new :: "string \<Rightarrow> CalcGroup" where
  "CalcGroup_new name = \<lparr>cg_name = name, cg_nodes = [], cg_edges = []\<rparr>"

definition HasCalcItem :: "ptr \<Rightarrow> CalcGroup \<Rightarrow> bool" where
  "HasCalcItem p g \<longleftrightarrow> p \<in> set (cg_nodes g)"

definition AddCalcItem :: "ptr \<Rightarrow> CalcGroup \<Rightarrow> CalcGroup res" where
  "AddCalcItem p g = DCHECK (\<not> HasCalcItem p g) (Inr (g\<lparr>cg_nodes := cg_nodes g @ [p]\<rparr>))"

definition RemoveCalcItem :: "ptr \<Rightarrow> items \<times> CalcGroup \<Rightarrow> (items \<times> CalcGroup) res" where
  "RemoveCalcItem p = (\<lambda>(h, g).
     DCHECK (HasCalcItem p g) (
     and_then (delete_item p h) (\<lambda>h.
       Inr (h, g\<lparr>cg_nodes := removeAll p (cg_nodes g),
                 cg_edges := filter (\<lambda>(a, b). \<not> (a = p \<or> b = p)) (cg_edges g)\<rparr>))))"

text \<open>The search for a key; the result 0 is NULL.\<close>

fun find_key :: "ptr \<Rightarrow> items \<Rightarrow> ptr list \<Rightarrow> ptr res" where
  "find_key key h [] = Inr 0"
| "find_key key h (p # ps) =
     and_then (item_at h p) (\<lambda>i. if ci_id i = key then Inr p else find_key key h ps)"

definition GetCalcItem :: "ptr \<Rightarrow> items \<times> CalcGroup \<Rightarrow> ptr res" where
  "GetCalcItem key = (\<lambda>(h, g). find_key key h (cg_nodes g))"

definition HasCalcKey :: "ptr \<Rightarrow> items \<times> CalcGroup \<Rightarrow> bool res" where
  "HasCalcKey key s = and_then (GetCalcItem key s) (\<lambda>p. Inr (p \<noteq> 0))"

fun edge_insert :: "ptr \<Rightarrow> ptr \<Rightarrow> edges \<Rightarrow> edges" where
  "edge_insert a b [] = [(a, b)]"
| "edge_insert a b (e # es) = (if a < fst e then (a, b) # e # es else e # edge_insert a b es)"

definition SetDepend :: "ptr \<Rightarrow> ptr \<Rightarrow> CalcGroup \<Rightarrow> CalcGroup res" where
  "SetDepend er ee g =
     DCHECK (HasCalcItem er g) (
     DCHECK (HasCalcItem ee g) (Inr (g\<lparr>cg_edges := edge_insert er ee (cg_edges g)\<rparr>)))"

definition SetDependKey :: "ptr \<Rightarrow> ptr \<Rightarrow> items \<times> CalcGroup \<Rightarrow> CalcGroup res" where
  "SetDependKey er ee s =
     and_then (GetCalcItem er s) (\<lambda>p.
     and_then (GetCalcItem ee s) (\<lambda>q. SetDepend p q (snd s)))"

text \<open>\<open>Clone\<close>: the items first, then the edges along the map of the items, whose
  \<open>operator[]\<close> gives NULL for an item it does not have.\<close>

fun clone_items ::
  "(items \<Rightarrow> ptr) \<Rightarrow> ptr list \<Rightarrow> items \<Rightarrow> ((ptr \<times> ptr) list \<times> items) res" where
  "clone_items fresh [] h = Inr ([], h)"
| "clone_items fresh (p # ps) h =
     and_then (CalcItem_Clone fresh p h) (\<lambda>(q, h).
     and_then (clone_items fresh ps h) (\<lambda>(m, h). Inr ((p, q) # m, h)))"

definition mapped :: "(ptr \<times> ptr) list \<Rightarrow> ptr \<Rightarrow> ptr" where
  "mapped m p = (case map_of m p of None \<Rightarrow> 0 | Some q \<Rightarrow> q)"

definition Clone ::
  "(items \<Rightarrow> ptr) \<Rightarrow> string \<Rightarrow> items \<times> CalcGroup \<Rightarrow> (items \<times> CalcGroup) res" where
  "Clone fresh name = (\<lambda>(h, g).
     and_then (clone_items fresh (cg_nodes g) h) (\<lambda>(m, h).
       Inr (h, \<lparr>cg_name = name, cg_nodes = map snd m,
                cg_edges = fold (\<lambda>(a, b). edge_insert (mapped m a) (mapped m b)) (cg_edges g) []\<rparr>)))"

definition FreeNode :: "CalcGroup \<Rightarrow> ptr list" where
  "FreeNode g = fold (\<lambda>(a, b). removeAll b) (cg_edges g) (cg_nodes g)"

definition DeleteIsolateNode :: "ptr \<Rightarrow> items \<times> CalcGroup \<Rightarrow> (items \<times> CalcGroup) res" where
  "DeleteIsolateNode p = (\<lambda>(h, g).
     and_then (delete_item p h) (\<lambda>h. Inr (h, g\<lparr>cg_nodes := removeAll p (cg_nodes g)\<rparr>)))"

text \<open>\<open>equal_range\<close> splits the edges into those before, in and behind the range of a key.\<close>

definition before_range :: "ptr \<Rightarrow> edges \<Rightarrow> edges" where
  "before_range p es = takeWhile (\<lambda>e. fst e < p) es"

definition in_range :: "ptr \<Rightarrow> edges \<Rightarrow> edges" where
  "in_range p es = takeWhile (\<lambda>e. fst e \<le> p) (dropWhile (\<lambda>e. fst e < p) es)"

definition behind_range :: "ptr \<Rightarrow> edges \<Rightarrow> edges" where
  "behind_range p es = dropWhile (\<lambda>e. fst e \<le> p) es"

definition has_incoming_edges :: "ptr \<Rightarrow> edges \<Rightarrow> bool" where
  "has_incoming_edges dest es \<longleftrightarrow> dest \<in> set (map snd es)"

text \<open>The loop over the range that \<open>NodeSuccess\<close> and \<open>NoCycle\<close> share: \<open>pre\<close> and \<open>post\<close> are
  the edges outside the range, the second argument the edges that are left of it.\<close>

fun release_range :: "edges \<Rightarrow> edges \<Rightarrow> edges \<Rightarrow> ptr list" where
  "release_range pre [] post = []"
| "release_range pre (e # es) post =
     (if \<not> has_incoming_edges (snd e) (pre @ es @ post)
      then snd e # release_range pre es post else release_range pre es post)"

definition NodeSuccess :: "ptr \<Rightarrow> items \<times> CalcGroup \<Rightarrow> (ptr list \<times> items \<times> CalcGroup) res" where
  "NodeSuccess p = (\<lambda>(h, g).
     let es = cg_edges g;
         output = release_range (before_range p es) (in_range p es) (behind_range p es);
         g = g\<lparr>cg_edges := before_range p es @ behind_range p es\<rparr>
     in and_then (DeleteIsolateNode p (h, g)) (\<lambda>s. Inr (output, s)))"

text \<open>The loop over the range in \<open>NodeFailed\<close>.  Once the edges into \<open>dest\<close> are cleared, \<open>it\<close>
  is compared with \<open>range.second\<close>: both must still be valid.  Gives the edges and the items
  appended to the queue.\<close>

function fail_range :: "edges \<Rightarrow> edges \<Rightarrow> edges \<Rightarrow> (edges \<times> ptr list) res" where
  "fail_range pre [] post = Inr (pre @ post, [])"
| "fail_range pre (e # es) post =
     (let dest = snd e; cleared = filter (\<lambda>e. snd e \<noteq> dest)
      in if es @ post \<noteq> [] \<and> snd (hd (es @ post)) = dest \<or>
            post \<noteq> [] \<and> snd (hd post) = dest then Inl Undefined
         else and_then (fail_range (cleared pre) (cleared es) (cleared post)) (\<lambda>(es, q).
           Inr (es, dest # q)))"
  by pat_completeness auto
termination by (relation "measure (\<lambda>(pre, es, post). length es)") (auto simp: le_imp_less_Suc)

lemma fail_range_measure:
  "fail_range pre es post = Inr (es', q) \<Longrightarrow>
     length es' + length q \<le> length pre + length es + length post"
proof (induction pre es post arbitrary: es' q rule: fail_range.induct)
  case (1 pre post)
  then show ?case by auto
next
  case (2 pre e es post)
  let ?c = "filter (\<lambda>e'. snd e' \<noteq> snd e)"
  have ok: "\<not> (es @ post \<noteq> [] \<and> snd (hd (es @ post)) = snd e \<or> post \<noteq> [] \<and> snd (hd post) = snd e)"
    using 2(2) by (auto simp: Let_def split: if_splits)
  obtain q' where q': "fail_range (?c pre) (?c es) (?c post) = Inr (es', q')" "q = snd e # q'"
    using 2(2) ok by (auto simp: Let_def split: if_splits)
  from 2(1) [OF refl refl ok q'(1)]
  have "length es' + length q' \<le> length (?c pre) + length (?c es) + length (?c post)" .
  moreover have "length (?c pre) \<le> length pre" "length (?c es) \<le> length es"
    "length (?c post) \<le> length post" by (rule length_filter_le)+
  moreover have "length q = Suc (length q')" using q'(2) by simp
  ultimately show ?case unfolding list.size by linarith
qed

lemma range_split: "before_range p es @ in_range p es @ behind_range p es = es"
proof -
  have "takeWhile (\<lambda>e. fst e < p) es @ takeWhile (\<lambda>e. fst e \<le> p) (dropWhile (\<lambda>e. fst e < p) es) =
      takeWhile (\<lambda>e. fst e \<le> p) es"
    by (induction es) auto
  then show ?thesis
    by (simp add: before_range_def in_range_def behind_range_def append_assoc [symmetric]
        del: append_assoc)
qed

lemma DeleteIsolateNode_edges:
  "DeleteIsolateNode p s = Inr s' \<Longrightarrow> cg_edges (snd s') = cg_edges (snd s)"
  by (auto simp: DeleteIsolateNode_def split: prod.splits)

text \<open>The queue of \<open>NodeFailed\<close>.\<close>

function fail_queue :: "ptr list \<Rightarrow> items \<times> CalcGroup \<Rightarrow> (items \<times> CalcGroup) res" where
  "fail_queue [] s = Inr s"
| "fail_queue (p # queue) s =
     (case fail_range (before_range p (cg_edges (snd s))) (in_range p (cg_edges (snd s)))
             (behind_range p (cg_edges (snd s))) of
        Inl e \<Rightarrow> Inl e
      | Inr (es, q) \<Rightarrow>
          (case DeleteIsolateNode p (fst s, (snd s)\<lparr>cg_edges := es\<rparr>) of
             Inl e \<Rightarrow> Inl e
           | Inr s \<Rightarrow> fail_queue (queue @ q) s))"
  by pat_completeness auto

termination
proof (relation "measure (\<lambda>(queue, s). length queue + length (cg_edges (snd s)))", goal_cases)
  case 1
  then show ?case by simp
next
  case (2 p queue s r es q t)
  let ?es = "cg_edges (snd s)"
  have "length es + length q \<le> length ?es"
    using fail_range_measure [of "before_range p ?es" "in_range p ?es" "behind_range p ?es" es q]
      arg_cong [OF range_split [of p ?es], of length] 2(1,2) by simp
  moreover have "cg_edges (snd t) = es" using DeleteIsolateNode_edges [OF 2(3)] by simp
  ultimately show ?case by simp
qed

definition NodeFailed :: "ptr \<Rightarrow> items \<times> CalcGroup \<Rightarrow> (items \<times> CalcGroup) res" where
  "NodeFailed p s = fail_queue [p] s"

text \<open>\<open>NoCycle\<close>: the edges that Kahn's algorithm leaves.\<close>

lemma release_range_measure: "length (release_range pre es post) \<le> length es"
  by (induction pre es post rule: release_range.induct) auto

function kahn :: "ptr list \<Rightarrow> edges \<Rightarrow> edges" where
  "kahn [] es = es"
| "kahn (p # queue) es =
     kahn (queue @ release_range (before_range p es) (in_range p es) (behind_range p es))
       (before_range p es @ behind_range p es)"
  by pat_completeness auto

termination
proof (relation "measure (\<lambda>(queue, es). length queue + length es)", goal_cases)
  case 1
  then show ?case by simp
next
  case (2 p queue es)
  show ?case
    using release_range_measure [of "before_range p es" "in_range p es" "behind_range p es"]
      arg_cong [OF range_split [of p es], of length] by simp
qed

definition NoCycle :: "CalcGroup \<Rightarrow> bool" where
  "NoCycle g \<longleftrightarrow> kahn (FreeNode g) (cg_edges g) = []"

text \<open>The text for Graphviz.\<close>

definition endl :: string where
  "endl = [CHR 0x0A]"

definition DumpAsGraphviz :: "string \<Rightarrow> (ptr \<Rightarrow> string) \<Rightarrow> CalcGroup \<Rightarrow> string" where
  "DumpAsGraphviz toplevel_name node_name_callback g =
     ''digraph {'' @ endl @ ''  /* Dependencies */'' @ endl @
     concat (map (\<lambda>(a, b). ''  '' @ node_name_callback b @ '' -> '' @ node_name_callback a @
       '';'' @ endl) (cg_edges g)) @
     endl @ ''  /* Toplevel node */'' @ endl @ ''  '' @ toplevel_name @ '' [shape=box];'' @ endl @
     ''}'' @ endl"

definition DumpAsGraphviz_names :: "items \<times> CalcGroup \<Rightarrow> string res" where
  "DumpAsGraphviz_names = (\<lambda>(h, g).
     if \<forall>(a, b) \<in> set (cg_edges g). map_of h a \<noteq> None \<and> map_of h b \<noteq> None
     then Inr (DumpAsGraphviz (cg_name g) (\<lambda>p. ci_name (the (map_of h p))) g)
     else Inl Undefined)"

subsection \<open>The well-formed group\<close>

definition group_ok :: "items \<times> CalcGroup \<Rightarrow> bool" where
  "group_ok = (\<lambda>(h, g).
     map_keys_ok h \<and> distinct (cg_nodes g) \<and> sorted (map fst (cg_edges g)) \<and>
     set (cg_nodes g) \<subseteq> fst ` set h \<and> 0 \<notin> set (cg_nodes g) \<and>
     fst ` set (cg_edges g) \<union> snd ` set (cg_edges g) \<subseteq> set (cg_nodes g))"

lemma range_filter:
  assumes "sorted (map fst es)"
  shows "before_range p es = filter (\<lambda>e. fst e < p) es"
    and "in_range p es = filter (\<lambda>e. fst e = p) es"
    and "behind_range p es = filter (\<lambda>e. p < fst e) es"
proof -
  have b: "before_range p es = filter (\<lambda>e. fst e < p) es"
    unfolding before_range_def using assms
    by (induction es) (auto simp: empty_filter_conv not_less dest: order_trans)
  have c: "behind_range p es = filter (\<lambda>e. p < fst e) es"
    unfolding behind_range_def using assms
  proof (induction es)
    case (Cons e es)
    show ?case
    proof (cases "fst e \<le> p")
      case False
      then have "filter (\<lambda>e. p < fst e) es = es" using Cons.prems by (auto simp: filter_id_conv)
      then show ?thesis using False by simp
    qed (use Cons in auto)
  qed simp
  have "in_range p es = filter (\<lambda>e. fst e = p) es"
    using assms
  proof (induction es)
    case Nil
    then show ?case by (simp add: in_range_def)
  next
    case (Cons e es)
    then have ge: "\<forall>x \<in> set es. fst e \<le> fst x" by simp
    consider "fst e < p" | "fst e = p" | "p < fst e" by linarith
    then show ?case
    proof cases
      case 1
      then show ?thesis using Cons by (simp add: in_range_def)
    next
      case 2
      then have "dropWhile (\<lambda>e. fst e < p) es = es" using ge by (cases es) auto
      then show ?thesis using 2 Cons by (simp add: in_range_def)
    next
      case 3
      then show ?thesis using ge by (auto simp: in_range_def empty_filter_conv)
    qed
  qed
  with b c show "before_range p es = filter (\<lambda>e. fst e < p) es"
    "in_range p es = filter (\<lambda>e. fst e = p) es"
    "behind_range p es = filter (\<lambda>e. p < fst e) es" by auto
qed

lemma outside_range:
  assumes "sorted (map fst es)"
  shows "before_range p es @ behind_range p es = filter (\<lambda>e. fst e \<noteq> p) es"
  using assms unfolding range_filter [OF assms]
proof (induction es)
  case Nil
  then show ?case by simp
next
  case (Cons e es)
  consider "fst e < p" | "fst e = p" | "p < fst e" by linarith
  then show ?case
  proof cases
    case 3
    then have "filter (\<lambda>e. fst e < p) es = []" using Cons.prems by (auto simp: filter_empty_conv)
    with Cons 3 show ?thesis by auto
  qed (use Cons in auto)
qed

lemma set_release_range:
  "set (release_range pre es post) = snd ` set es - snd ` (set pre \<union> set post)"
  by (induction pre es post rule: release_range.induct) (auto simp: has_incoming_edges_def)

lemma distinct_release_range: "distinct (release_range pre es post)"
proof (induction pre es post rule: release_range.induct)
  case (2 pre e es post)
  then show ?case by (auto simp: has_incoming_edges_def set_release_range)
qed simp

lemma released:
  assumes "sorted (map fst es)"
  shows "set (release_range (before_range p es) (in_range p es) (behind_range p es)) =
    {d. (p, d) \<in> set es \<and> d \<notin> snd ` set (filter (\<lambda>e. fst e \<noteq> p) es)}"
proof -
  have "set (before_range p es) \<union> set (behind_range p es) = set (filter (\<lambda>e. fst e \<noteq> p) es)"
    using outside_range [OF assms, of p] by (metis set_append)
  moreover have "snd ` set (in_range p es) = {d. (p, d) \<in> set es}"
    by (force simp: range_filter [OF assms])
  ultimately show ?thesis unfolding set_release_range by auto
qed

lemma sorted_filter_edges [simp]: "sorted (map fst es) \<Longrightarrow> sorted (map fst (filter P es))"
  by (rule sorted_filter)

lemma FreeNode_filter: "FreeNode g = filter (\<lambda>p. p \<notin> snd ` set (cg_edges g)) (cg_nodes g)"
proof -
  have "fold (\<lambda>(a, b). removeAll b) es ps = filter (\<lambda>p. p \<notin> snd ` set es) ps"
    for es :: edges and ps
  proof (induction es arbitrary: ps)
    case (Cons e es)
    have "fold (\<lambda>(a, b). removeAll b) (e # es) ps =
        fold (\<lambda>(a, b). removeAll b) es (removeAll (snd e) ps)" by (simp add: case_prod_beta)
    also have "\<dots> = filter (\<lambda>p. p \<notin> snd ` set es) (filter (\<lambda>p. snd e \<noteq> p) ps)"
      unfolding Cons.IH by (simp add: removeAll_filter_not_eq)
    also have "\<dots> = filter (\<lambda>p. p \<notin> snd ` set (e # es)) ps"
      unfolding filter_filter by (rule filter_cong) auto
    finally show ?case .
  qed simp
  then show ?thesis by (simp add: FreeNode_def)
qed

subsection \<open>The cycle test\<close>

lemma acyclic_without_source:
  assumes "\<And>x. (x, p) \<notin> r" and "acyclic {e \<in> r. fst e \<noteq> p}"
  shows "acyclic r"
proof -
  have "x \<noteq> p \<longrightarrow> (x, y) \<in> {e \<in> r. fst e \<noteq> p}\<^sup>+" if "(x, y) \<in> r\<^sup>+" for x y
    using that
  proof (induction rule: trancl_induct)
    case (base y)
    then show ?case by auto
  next
    case (step y z)
    have "y \<noteq> p" using step.hyps(1) assms(1) by (metis tranclE)
    then have "(y, z) \<in> {e \<in> r. fst e \<noteq> p}" using step.hyps(2) by auto
    then show ?case using step.IH trancl.trancl_into_trancl by fast
  qed
  moreover have "x \<noteq> p" if "(x, x) \<in> r\<^sup>+" for x
    using that assms(1) by (metis tranclE)
  ultimately show ?thesis using assms(2) unfolding acyclic_def by blast
qed

lemma kahn_Nil_acyclic:
  assumes "kahn queue es = []" and "sorted (map fst es)" and "\<forall>p \<in> set queue. p \<notin> snd ` set es"
  shows "acyclic (set es)"
  using assms
proof (induction queue es rule: kahn.induct)
  case (1 es)
  then show ?case by (simp add: acyclic_def)
next
  case (2 p queue es)
  let ?es = "filter (\<lambda>e. fst e \<noteq> p) es"
  have "acyclic (set ?es)"
    using 2(1) 2(2,4) released [OF 2(3), of p] by (auto simp: outside_range [OF 2(3)] 2(3))
  moreover have "set ?es = {e \<in> set es. fst e \<noteq> p}" by auto
  moreover have "(x, p) \<notin> set es" for x using 2(4) by force
  ultimately show ?case using acyclic_without_source [of p "set es"] by simp
qed

lemma acyclic_has_source:
  assumes "acyclic r" and "finite r" and "r \<noteq> {}"
  obtains a b where "(a, b) \<in> r" "a \<notin> snd ` r"
proof -
  have "wf r" by (rule finite_acyclic_wf [OF assms(2,1)])
  moreover obtain x where "x \<in> fst ` r" using assms(3) by auto
  ultimately obtain z where "z \<in> fst ` r" "\<And>y. (y, z) \<in> r \<Longrightarrow> y \<notin> fst ` r"
    using wfE_min [of r x "fst ` r"] by metis
  then show ?thesis using that by force
qed

lemma acyclic_kahn_Nil:
  assumes "acyclic (set es)" and "sorted (map fst es)"
    and "fst ` set es - snd ` set es \<subseteq> set queue"
  shows "kahn queue es = []"
  using assms
proof (induction queue es rule: kahn.induct)
  case (1 es)
  show ?case
  proof (rule ccontr)
    assume "kahn [] es \<noteq> []"
    then obtain a b where "(a, b) \<in> set es" "a \<notin> snd ` set es"
      using acyclic_has_source [OF 1(1)] by auto
    then show False using 1(3) by force
  qed
next
  case (2 p queue es)
  let ?es = "filter (\<lambda>e. fst e \<noteq> p) es"
  have "acyclic (set ?es)" by (rule acyclic_subset [OF 2(2)]) auto
  moreover have "fst ` set ?es - snd ` set ?es \<subseteq> set (queue @
      release_range (before_range p es) (in_range p es) (behind_range p es))"
    unfolding set_append released [OF 2(3)] using 2(4) by (fastforce simp: image_iff)
  ultimately show ?case using 2(1) 2(3) by (simp add: outside_range [OF 2(3)])
qed

lemma NoCycle_acyclic:
  assumes "group_ok (h, g)"
  shows "NoCycle g \<longleftrightarrow> acyclic (set (cg_edges g))"
proof
  have srt: "sorted (map fst (cg_edges g))" using assms by (simp add: group_ok_def)
  show "acyclic (set (cg_edges g))" if "NoCycle g"
  proof (rule kahn_Nil_acyclic)
    show "kahn (FreeNode g) (cg_edges g) = []" using that by (simp add: NoCycle_def)
    show "\<forall>p \<in> set (FreeNode g). p \<notin> snd ` set (cg_edges g)"
      unfolding FreeNode_filter set_filter by blast
  qed (rule srt)
  show "NoCycle g" if "acyclic (set (cg_edges g))"
    unfolding NoCycle_def using that srt
    by (rule acyclic_kahn_Nil) (use assms in \<open>auto simp: group_ok_def FreeNode_filter image_iff\<close>)
qed

text \<open>C20. \<open>NoCycle\<close>, a worklist over the group's own edges, ends on every group and answers
  true exactly when no item depends on itself through any chain of dependencies.\<close>

theorem NoCycle_iff_acyclic:
  assumes "group_ok (h, g)"
  shows "NoCycle g \<longleftrightarrow> acyclic (set (cg_edges g))"
  using assms by (rule NoCycle_acyclic)

lemma NoCycle_iff_acyclic_witness:
  "NoCycle \<lparr>cg_name = ''g'', cg_nodes = [1, 2, 3], cg_edges = [(1, 3), (2, 3)]\<rparr> \<and>
   \<not> acyclic {(1 :: ptr, 2 :: ptr), (2, 1)}"
proof -
  let ?h = "[(1, CalcItem_new ''a'' 1), (2, CalcItem_new ''b'' 2), (3, CalcItem_new ''c'' 3)]"
  have "\<not> NoCycle \<lparr>cg_name = ''g'', cg_nodes = [1, 2], cg_edges = [(1, 2), (2, 1)]\<rparr>"
    by (simp add: NoCycle_def FreeNode_def)
  then have "\<not> acyclic {(1 :: ptr, 2 :: ptr), (2, 1)}"
    using NoCycle_iff_acyclic [of ?h "\<lparr>cg_name = ''g'', cg_nodes = [1, 2], cg_edges = [(1, 2), (2, 1)]\<rparr>"]
    by (simp add: group_ok_def)
  moreover have "NoCycle \<lparr>cg_name = ''g'', cg_nodes = [1, 2, 3], cg_edges = [(1, 3), (2, 3)]\<rparr>"
    by (simp add: NoCycle_def FreeNode_def before_range_def in_range_def behind_range_def
        has_incoming_edges_def)
  ultimately show ?thesis by simp
qed

subsection \<open>An item has succeeded\<close>

lemma group_okD:
  assumes "group_ok (h, g)"
  shows "map_keys_ok h" "distinct (cg_nodes g)" "sorted (map fst (cg_edges g))"
    "set (cg_nodes g) \<subseteq> fst ` set h" "0 \<notin> set (cg_nodes g)"
    "fst ` set (cg_edges g) \<subseteq> set (cg_nodes g)" "snd ` set (cg_edges g) \<subseteq> set (cg_nodes g)"
  using assms by (auto simp: group_ok_def)

lemma DeleteIsolateNode_ok:
  assumes "map_keys_ok h" and "p \<in> fst ` set h"
  shows "DeleteIsolateNode p (h, g) =
    Inr (map_erase p h, g\<lparr>cg_nodes := filter (\<lambda>q. q \<noteq> p) (cg_nodes g)\<rparr>)"
proof -
  have "map_of h p \<noteq> None" using assms(2) by (simp add: map_of_eq_None_iff)
  moreover have "removeAll p xs = filter (\<lambda>q. q \<noteq> p) xs" for xs :: "ptr list"
    by (induction xs) auto
  ultimately show ?thesis by (auto simp: DeleteIsolateNode_def delete_item_def)
qed

lemma NodeSuccess_ok:
  assumes ok: "group_ok (h, g)" and p: "p \<in> set (cg_nodes g)" "p \<notin> snd ` set (cg_edges g)"
  defines "es \<equiv> filter (\<lambda>e. fst e \<noteq> p) (cg_edges g)"
    and "ps \<equiv> filter (\<lambda>q. q \<noteq> p) (cg_nodes g)"
  obtains out where
    "NodeSuccess p (h, g) = Inr (out, map_erase p h, g\<lparr>cg_nodes := ps, cg_edges := es\<rparr>)"
    "set out = {d. (p, d) \<in> set (cg_edges g) \<and> d \<notin> snd ` set es}" "distinct out"
    "group_ok (map_erase p h, g\<lparr>cg_nodes := ps, cg_edges := es\<rparr>)"
proof -
  note d = group_okD [OF ok]
  let ?out = "release_range (before_range p (cg_edges g)) (in_range p (cg_edges g))
      (behind_range p (cg_edges g))"
  have "p \<in> fst ` set h" using d(4) p(1) by auto
  then have "NodeSuccess p (h, g) = Inr (?out, map_erase p h, g\<lparr>cg_nodes := ps, cg_edges := es\<rparr>)"
    unfolding NodeSuccess_def Let_def prod.case outside_range [OF d(3)]
    by (simp add: DeleteIsolateNode_ok [OF d(1)] es_def ps_def)
  moreover have "group_ok (map_erase p h, g\<lparr>cg_nodes := ps, cg_edges := es\<rparr>)"
  proof -
    have "set ps \<subseteq> fst ` set (map_erase p h)" using d(4) by (auto simp: ps_def set_map_erase image_iff)
    moreover have "fst ` set es \<subseteq> set ps" using d(6) by (auto simp: es_def ps_def)
    moreover have "snd ` set es \<subseteq> set ps" using d(7) p(2) by (auto simp: es_def ps_def)
    ultimately show ?thesis
      using d by (auto simp: group_ok_def map_keys_ok_erase ps_def es_def)
  qed
  ultimately show ?thesis
    using that [of ?out] released [OF d(3), of p] distinct_release_range unfolding es_def by simp
qed

subsection \<open>An item has failed\<close>

definition dependents :: "ptr \<Rightarrow> edges \<Rightarrow> ptr set" where
  "dependents p es = {d. (p, d) \<in> (set es)\<^sup>*}"

lemma fail_range_result:
  "fail_range pre es post = Inr (es', q) \<Longrightarrow>
     es' = filter (\<lambda>e. snd e \<notin> snd ` set es) (pre @ post) \<and> set q = snd ` set es \<and> distinct q"
proof (induction pre es post arbitrary: es' q rule: fail_range.induct)
  case (1 pre post)
  then show ?case by auto
next
  case (2 pre e es post)
  let ?c = "filter (\<lambda>e'. snd e' \<noteq> snd e)"
  have ok: "\<not> (es @ post \<noteq> [] \<and> snd (hd (es @ post)) = snd e \<or> post \<noteq> [] \<and> snd (hd post) = snd e)"
    using 2(2) by (auto simp: Let_def split: if_splits)
  obtain q' where q': "fail_range (?c pre) (?c es) (?c post) = Inr (es', q')" "q = snd e # q'"
    using 2(2) ok by (auto simp: Let_def split: if_splits)
  from 2(1) [OF refl refl ok q'(1)]
  have IH: "es' = filter (\<lambda>e. snd e \<notin> snd ` set (?c es)) (?c pre @ ?c post)"
    "set q' = snd ` set (?c es)" "distinct q'" by auto
  have "es' = filter (\<lambda>e'. snd e' \<notin> snd ` set (e # es)) (pre @ post)"
    unfolding IH(1) filter_append [symmetric] filter_filter by (rule filter_cong) auto
  moreover have "set q = snd ` set (e # es)" using IH(2) q'(2) by auto
  moreover have "distinct q" using IH(2,3) q'(2) by auto
  ultimately show ?case by blast
qed

lemma filter_no_target: "d \<notin> snd ` set xs \<Longrightarrow> filter (\<lambda>e. snd e \<noteq> d) xs = xs"
  by (induction xs) auto

lemma fail_range_tree:
  "distinct (map snd (pre @ es @ post)) \<Longrightarrow>
     fail_range pre es post = Inr (pre @ post, map snd es)"
proof (induction pre es post rule: fail_range.induct)
  case (1 pre post)
  then show ?case by simp
next
  case (2 pre e es post)
  let ?c = "filter (\<lambda>e'. snd e' \<noteq> snd e)"
  have keep: "?c pre = pre" "?c es = es" "?c post = post"
    by (rule filter_no_target; use 2(2) in simp)+
  have ok: "\<not> (es @ post \<noteq> [] \<and> snd (hd (es @ post)) = snd e \<or> post \<noteq> [] \<and> snd (hd post) = snd e)"
    using 2(2) by (cases es; cases post) auto
  have "distinct (map snd (pre @ es @ post))" using 2(2) by auto
  from 2(1) [OF refl refl ok] this keep ok show ?case by (simp add: Let_def)
qed

text \<open>The queue while an item's failure spreads: \<open>X\<close> are the items that are gone already,
  \<open>E\<close> the edges of the beginning.\<close>

definition spreading ::
  "items \<Rightarrow> CalcGroup \<Rightarrow> ptr set \<Rightarrow> ptr list \<Rightarrow> items \<times> CalcGroup \<Rightarrow> bool" where
  "spreading h0 g0 X queue = (\<lambda>(h, g).
     h = filter (\<lambda>i. fst i \<notin> X) h0 \<and>
     g = g0\<lparr>cg_nodes := filter (\<lambda>p. p \<notin> X) (cg_nodes g0),
            cg_edges := filter (\<lambda>e. fst e \<notin> X \<and> snd e \<notin> X \<union> set queue) (cg_edges g0)\<rparr> \<and>
     (\<forall>e \<in> set (cg_edges g0). fst e \<in> X \<longrightarrow> snd e \<in> X \<union> set queue))"

lemma filter_names: "filter (\<lambda>q. q \<noteq> p) (filter (\<lambda>p. p \<notin> X) xs) = filter (\<lambda>q. q \<notin> insert p X) xs"
  unfolding filter_filter by (rule filter_cong) auto

lemma spreading_step:
  assumes sp: "spreading h0 g0 X (p # queue) (h, g)" and ok: "group_ok (h0, g0)"
    and fr: "fail_range (before_range p (cg_edges g)) (in_range p (cg_edges g))
      (behind_range p (cg_edges g)) = Inr (es, q)"
    and del: "DeleteIsolateNode p (h, g\<lparr>cg_edges := es\<rparr>) = Inr s"
  shows "spreading h0 g0 (insert p X) (queue @ q) s \<and>
    set q \<subseteq> {d. (p, d) \<in> set (cg_edges g0)}"
proof -
  let ?E = "cg_edges g0"
  have h: "h = filter (\<lambda>i. fst i \<notin> X) h0"
    and g: "g = g0\<lparr>cg_nodes := filter (\<lambda>p. p \<notin> X) (cg_nodes g0),
        cg_edges := filter (\<lambda>e. fst e \<notin> X \<and> snd e \<notin> X \<union> set (p # queue)) ?E\<rparr>"
    and closed: "\<forall>e \<in> set ?E. fst e \<in> X \<longrightarrow> snd e \<in> X \<union> set (p # queue)"
    using sp by (simp_all add: spreading_def)
  have srt: "sorted (map fst (cg_edges g))" using group_okD(3) [OF ok] g by simp
  have q: "es = filter (\<lambda>e. snd e \<notin> snd ` set (in_range p (cg_edges g)))
      (before_range p (cg_edges g) @ behind_range p (cg_edges g))"
    "set q = snd ` set (in_range p (cg_edges g))"
    using fail_range_result [OF fr] by auto
  have edges: "cg_edges g = filter (\<lambda>e. fst e \<notin> X \<and> snd e \<notin> X \<union> set (p # queue)) ?E"
    using g by simp
  have qs: "set q = {d. (p, d) \<in> set ?E \<and> p \<notin> X \<and> d \<notin> X \<union> set (p # queue)}"
    unfolding q(2) range_filter(2) [OF srt] unfolding edges by force
  have es: "es = filter (\<lambda>e. fst e \<notin> insert p X \<and> snd e \<notin> insert p X \<union> set (queue @ q)) ?E"
    unfolding q(1) q(2) [symmetric] outside_range [OF srt] unfolding edges filter_filter
    by (rule filter_cong) auto
  have mko: "map_keys_ok h" using group_okD(1) [OF ok] h by (simp add: map_keys_ok_filter)
  have "map_of h p \<noteq> None"
    using del by (auto simp: DeleteIsolateNode_def delete_item_def split: if_splits)
  then have "p \<in> fst ` set h" by (simp add: map_of_eq_None_iff)
  then have s: "s = (map_erase p h, g\<lparr>cg_edges := es, cg_nodes := filter (\<lambda>q. q \<noteq> p) (cg_nodes g)\<rparr>)"
    using del DeleteIsolateNode_ok [OF mko] by simp
  have "map_erase p h = filter (\<lambda>i. fst i \<notin> insert p X) h0"
    unfolding h map_erase_def filter_filter by (rule filter_cong) auto
  moreover have "p \<notin> X" using \<open>p \<in> fst ` set h\<close> h by auto
  then have "\<forall>e \<in> set ?E. fst e \<in> insert p X \<longrightarrow> snd e \<in> insert p X \<union> set (queue @ q)"
    using closed qs by auto
  ultimately have "spreading h0 g0 (insert p X) (queue @ q) s"
    unfolding s spreading_def using es filter_names [of p X] by (simp add: g)
  then show ?thesis using qs by auto
qed

lemma fail_queue_spreads:
  assumes "fail_queue queue s = Inr t" and "spreading h0 g0 X queue s" and "group_ok (h0, g0)"
    and "X \<union> set queue \<subseteq> D" and "\<And>a b. a \<in> D \<Longrightarrow> (a, b) \<in> set (cg_edges g0) \<Longrightarrow> b \<in> D"
  shows "\<exists>X'. X \<union> set queue \<subseteq> X' \<and> X' \<subseteq> D \<and> spreading h0 g0 X' [] t"
  using assms(1,2,4)
proof (induction queue s arbitrary: X rule: fail_queue.induct)
  case (1 s)
  then show ?case by auto
next
  case (2 p queue s)
  obtain h g where s: "s = (h, g)" by (cases s)
  obtain es q where fr: "fail_range (before_range p (cg_edges g)) (in_range p (cg_edges g))
      (behind_range p (cg_edges g)) = Inr (es, q)"
    using 2(2) s by (auto split: sum.splits prod.splits)
  obtain u where del: "DeleteIsolateNode p (h, g\<lparr>cg_edges := es\<rparr>) = Inr u"
    using 2(2) s fr by (auto split: sum.splits)
  have run: "fail_queue (queue @ q) u = Inr t" using 2(2) s fr del by simp
  have st: "spreading h0 g0 (insert p X) (queue @ q) u"
    "set q \<subseteq> {d. (p, d) \<in> set (cg_edges g0)}"
    using spreading_step [OF _ assms(3) fr del] 2(3) s by auto
  have "insert p X \<union> set (queue @ q) \<subseteq> D" using 2(4) st(2) assms(5) by auto
  moreover have "fail_queue (queue @ q) u = Inr t \<Longrightarrow> spreading h0 g0 (insert p X) (queue @ q) u \<Longrightarrow>
      insert p X \<union> set (queue @ q) \<subseteq> D \<Longrightarrow>
      \<exists>X'. insert p X \<union> set (queue @ q) \<subseteq> X' \<and> X' \<subseteq> D \<and> spreading h0 g0 X' [] t"
    by (rule 2(1)) (auto simp: s fr intro: del)
  ultimately obtain X' where "insert p X \<union> set (queue @ q) \<subseteq> X'" "X' \<subseteq> D" "spreading h0 g0 X' [] t"
    using run st(1) by blast
  then show ?case by (intro exI [of _ X']) auto
qed

lemma fail_queue_tree:
  assumes "spreading h0 g0 X queue s" and ok: "group_ok (h0, g0)"
    and tree: "distinct (map snd (cg_edges g0))"
    and "distinct queue" and "set queue \<inter> X = {}" and "set queue \<subseteq> set (cg_nodes g0)"
  shows "\<exists>t. fail_queue queue s = Inr t"
  using assms(1,4-6)
proof (induction queue s arbitrary: X rule: fail_queue.induct)
  case (1 s)
  then show ?case by auto
next
  case (2 p queue s)
  obtain h g where s: "s = (h, g)" by (cases s)
  let ?r = "map snd (in_range p (cg_edges g))"
  have h: "h = filter (\<lambda>i. fst i \<notin> X) h0"
    and edges: "cg_edges g = filter (\<lambda>e. fst e \<notin> X \<and> snd e \<notin> X \<union> set (p # queue)) (cg_edges g0)"
    using 2(2) s by (simp_all add: spreading_def)
  have srt: "sorted (map fst (cg_edges g))" using group_okD(3) [OF ok] edges by simp
  have dist: "distinct (map snd (cg_edges g))" unfolding edges by (rule distinct_map_filter [OF tree])
  define es where "es = before_range p (cg_edges g) @ behind_range p (cg_edges g)"
  have "distinct (map snd (before_range p (cg_edges g) @ in_range p (cg_edges g) @
      behind_range p (cg_edges g)))" unfolding range_split by (rule dist)
  from fail_range_tree [OF this] have fr: "fail_range (before_range p (cg_edges g))
      (in_range p (cg_edges g)) (behind_range p (cg_edges g)) = Inr (es, ?r)" by (simp add: es_def)
  have "p \<in> fst ` set h0" using 2(5) group_okD(4) [OF ok] by auto
  then have "p \<in> fst ` set h" using 2(4) unfolding h by force
  moreover have "map_keys_ok h" unfolding h by (rule map_keys_ok_filter [OF group_okD(1) [OF ok]])
  ultimately obtain u where del: "DeleteIsolateNode p (h, g\<lparr>cg_edges := es\<rparr>) = Inr u"
    using DeleteIsolateNode_ok by blast
  have st: "spreading h0 g0 (insert p X) (queue @ ?r) u"
    using spreading_step [OF _ ok fr del] 2(2) s by auto
  have new: "d \<notin> X \<union> set (p # queue)" "d \<in> set (cg_nodes g0)" if r: "d \<in> set ?r" for d
  proof -
    obtain a where "(a, d) \<in> set (cg_edges g)" using r by (auto simp: range_filter [OF srt])
    then show "d \<notin> X \<union> set (p # queue)" "d \<in> set (cg_nodes g0)"
      using group_okD(7) [OF ok] unfolding edges by force+
  qed
  have "distinct ?r" unfolding range_filter [OF srt] by (rule distinct_map_filter [OF dist])
  then have dq: "distinct (queue @ ?r)" using 2(3) new(1) by auto
  have di: "set (queue @ ?r) \<inter> insert p X = {}" using 2(3,4) new(1) by auto
  have sub: "set (queue @ ?r) \<subseteq> set (cg_nodes g0)" using 2(5) new(2) by auto
  have "spreading h0 g0 (insert p X) (queue @ ?r) u \<Longrightarrow> distinct (queue @ ?r) \<Longrightarrow>
      set (queue @ ?r) \<inter> insert p X = {} \<Longrightarrow> set (queue @ ?r) \<subseteq> set (cg_nodes g0) \<Longrightarrow>
      \<exists>t. fail_queue (queue @ ?r) u = Inr t"
    by (rule 2(1)) (auto simp: s fr intro: del)
  then obtain t where "fail_queue (queue @ ?r) u = Inr t" using st dq di sub by blast
  then show ?case using s fr del by auto
qed

lemma NodeFailed_ok:
  assumes ok: "group_ok (h, g)" and p: "p \<in> set (cg_nodes g)" "p \<notin> snd ` set (cg_edges g)"
  defines "gone \<equiv> dependents p (cg_edges g)"
  shows "(\<forall>t. NodeFailed p (h, g) = Inr t \<longrightarrow>
      t = (filter (\<lambda>i. fst i \<notin> gone) h,
           g\<lparr>cg_nodes := filter (\<lambda>q. q \<notin> gone) (cg_nodes g),
             cg_edges := filter (\<lambda>e. fst e \<notin> gone \<and> snd e \<notin> gone) (cg_edges g)\<rparr>) \<and> group_ok t) \<and>
    (distinct (map snd (cg_edges g)) \<longrightarrow> (\<exists>t. NodeFailed p (h, g) = Inr t))"
proof -
  have start: "spreading h g {} [p] (h, g)"
    using filter_no_target [OF p(2)] by (simp add: spreading_def)
  have "t = (filter (\<lambda>i. fst i \<notin> gone) h,
      g\<lparr>cg_nodes := filter (\<lambda>q. q \<notin> gone) (cg_nodes g),
        cg_edges := filter (\<lambda>e. fst e \<notin> gone \<and> snd e \<notin> gone) (cg_edges g)\<rparr>) \<and> group_ok t"
    if run: "NodeFailed p (h, g) = Inr t" for t
  proof -
    obtain X where X: "p \<in> X" "X \<subseteq> gone" "spreading h g X [] t"
      using fail_queue_spreads [OF run [unfolded NodeFailed_def] start ok, of gone]
      by (auto simp: gone_def dependents_def intro: rtrancl_into_rtrancl)
    obtain h' g' where t: "t = (h', g')" by (cases t)
    have closed: "\<forall>e \<in> set (cg_edges g). fst e \<in> X \<longrightarrow> snd e \<in> X"
      using X(3) t by (simp add: spreading_def)
    have "d \<in> X" if "(p, d) \<in> (set (cg_edges g))\<^sup>*" for d
      using that X(1) closed by (induction rule: rtrancl_induct) auto
    then have "X = gone" using X(2) by (auto simp: gone_def dependents_def)
    moreover have "group_ok t"
    proof -
      have h': "h' = filter (\<lambda>i. fst i \<notin> X) h"
        and g': "g' = g\<lparr>cg_nodes := filter (\<lambda>p. p \<notin> X) (cg_nodes g),
          cg_edges := filter (\<lambda>e. fst e \<notin> X \<and> snd e \<notin> X) (cg_edges g)\<rparr>"
        using X(3) t by (simp_all add: spreading_def)
      show ?thesis
        unfolding t h' g' using group_okD [OF ok]
        by (auto simp: group_ok_def map_keys_ok_filter image_subset_iff) (force simp: image_iff)?
    qed
    ultimately show ?thesis using X(3) t by (simp add: spreading_def)
  qed
  moreover have "\<exists>t. NodeFailed p (h, g) = Inr t" if "distinct (map snd (cg_edges g))"
    unfolding NodeFailed_def using start ok that by (rule fail_queue_tree) (use p in auto)
  ultimately show ?thesis by blast
qed

text \<open>\<open>NodeFailed\<close> for an item that waits for nothing ends, and where it does not use an
  invalid iterator it removes and deletes exactly the item and all that depend on it, directly
  or through others, each once; the rest of the graph is as before.  It never goes wrong in a
  graph in which every item depends on at most one other.\<close>

theorem NodeFailed_removes:
  assumes ok: "group_ok (h, g)" and p: "p \<in> set (cg_nodes g)" "p \<notin> snd ` set (cg_edges g)"
  defines "gone \<equiv> dependents p (cg_edges g)"
  shows "(\<forall>t. NodeFailed p (h, g) = Inr t \<longrightarrow>
      t = (filter (\<lambda>i. fst i \<notin> gone) h,
           g\<lparr>cg_nodes := filter (\<lambda>q. q \<notin> gone) (cg_nodes g),
             cg_edges := filter (\<lambda>e. fst e \<notin> gone \<and> snd e \<notin> gone) (cg_edges g)\<rparr>) \<and> group_ok t) \<and>
    (distinct (map snd (cg_edges g)) \<longrightarrow> (\<exists>t. NodeFailed p (h, g) = Inr t))"
  unfolding gone_def using ok p by (rule NodeFailed_ok)

lemma NodeFailed_removes_witness:
  "\<exists>t. NodeFailed 1 ([(1, CalcItem_new ''a'' 1), (2, CalcItem_new ''b'' 2)],
      \<lparr>cg_name = ''g'', cg_nodes = [1, 2], cg_edges = [(1, 2)]\<rparr>) = Inr t \<and> group_ok t"
  using NodeFailed_removes [of "[(1, CalcItem_new ''a'' 1), (2, CalcItem_new ''b'' 2)]"
      "\<lparr>cg_name = ''g'', cg_nodes = [1, 2], cg_edges = [(1, 2)]\<rparr>" 1]
  by (auto simp: group_ok_def)

text \<open>\<open>NodeFailed\<close> uses an invalid iterator as soon as the first item that depends on the
  failed one also depends on the item whose edges follow the failed one's: clearing the edges
  into it erases the element at which \<open>range.second\<close> stands.\<close>

theorem NodeFailed_invalid_iterator:
  assumes "in_range p (cg_edges g) = (p, d) # r" and "behind_range p (cg_edges g) = (q, d) # s"
  shows "NodeFailed p (h, g) = Inl Undefined"
  using assms by (simp add: NodeFailed_def)

lemma NodeFailed_invalid_iterator_witness:
  "NodeFailed 1 ([(1, CalcItem_new ''a'' 1), (2, CalcItem_new ''b'' 2), (3, CalcItem_new ''sum'' 3)],
     \<lparr>cg_name = ''g'', cg_nodes = [1, 2, 3], cg_edges = [(1, 3), (2, 3)]\<rparr>) = Inl Undefined"
  by (rule NodeFailed_invalid_iterator [where d = 3 and r = "[]" and q = 2 and s = "[]"])
    (simp_all add: in_range_def behind_range_def)

subsection \<open>Cloning\<close>

lemma mset_edge_insert [simp]: "mset (edge_insert a b es) = add_mset (a, b) (mset es)"
  by (induction es) auto

lemma set_edge_insert [simp]: "set (edge_insert a b es) = insert (a, b) (set es)"
  by (induction es) auto

lemma sorted_edge_insert: "sorted (map fst es) \<Longrightarrow> sorted (map fst (edge_insert a b es))"
  by (induction es) auto

lemma fold_edge_insert:
  "mset (fold (\<lambda>(a, b). edge_insert (f a) (f b)) es acc) =
     image_mset (\<lambda>(a, b). (f a, f b)) (mset es) + mset acc"
  "sorted (map fst acc) \<Longrightarrow> sorted (map fst (fold (\<lambda>(a, b). edge_insert (f a) (f b)) es acc))"
  by (induction es arbitrary: acc) (auto simp: sorted_edge_insert)

definition cloned :: "items \<Rightarrow> ptr list \<Rightarrow> (ptr \<times> ptr) list \<Rightarrow> items \<Rightarrow> bool" where
  "cloned h ps m h' \<longleftrightarrow> map fst m = ps \<and> distinct (map snd m) \<and>
    map_keys_ok h' \<and> snd ` set m \<inter> (fst ` set h \<union> {0}) = {} \<and>
    fst ` set h' = fst ` set h \<union> snd ` set m \<and>
    (\<forall>p \<in> fst ` set h. map_of h' p = map_of h p) \<and>
    (\<forall>(p, q) \<in> set m. map_of h' q = map_of h p)"

lemma clonedD:
  assumes "cloned h ps m h'"
  shows "map fst m = ps" "distinct (map snd m)" "map_keys_ok h'"
    "snd ` set m \<inter> (fst ` set h \<union> {0}) = {}" "fst ` set h' = fst ` set h \<union> snd ` set m"
    "\<forall>p \<in> fst ` set h. map_of h' p = map_of h p" "\<forall>(p, q) \<in> set m. map_of h' q = map_of h p"
  using assms unfolding cloned_def by blast+

lemma clone_items_ok:
  assumes "allocates fresh" and "map_keys_ok h" and "set ps \<subseteq> fst ` set h"
  shows "\<exists>m h'. clone_items fresh ps h = Inr (m, h') \<and> cloned h ps m h'"
  using assms(2,3)
proof (induction ps arbitrary: h)
  case Nil
  then show ?case by (simp add: cloned_def)
next
  case (Cons p ps)
  obtain i where i: "map_of h p = Some i" using Cons.prems(2) by (metis list.set_intros(1) map_of_eq_None_iff not_None_eq subsetD)
  have fr: "map_of h (fresh h) = None" "fresh h \<noteq> 0" using assms(1) by (auto simp: allocates_def)
  let ?h = "map_put (fresh h) i h"
  have keys: "fst ` set ?h = insert (fresh h) (fst ` set h)" by (rule set_map_put_keys)
  have "CalcItem_new (ci_name i) (ci_id i) = i" by (cases i) (simp add: CalcItem_new_def)
  then have step: "CalcItem_Clone fresh p h = Inr (fresh h, ?h)"
    by (simp add: CalcItem_Clone_def item_at_def i)
  have "set ps \<subseteq> fst ` set ?h" using Cons.prems(2) keys by auto
  then obtain m h' where run: "clone_items fresh ps ?h = Inr (m, h')" and cl: "cloned ?h ps m h'"
    using Cons.IH [OF map_keys_ok_put [OF Cons.prems(1)]] by blast
  note IH = run clonedD [OF cl]
  have mo: "map_of ?h = (map_of h)(fresh h \<mapsto> i)" by (rule map_of_put [OF Cons.prems(1)])
  have nin: "fresh h \<notin> fst ` set h" using fr(1) by (simp add: map_of_eq_None_iff)
  let ?m = "(p, fresh h) # m"
  have "clone_items fresh (p # ps) h = Inr (?m, h')" using step IH(1) by simp
  moreover have "distinct (map snd ?m)" using IH(3,5) keys by auto
  moreover have "snd ` set ?m \<inter> (fst ` set h \<union> {0}) = {}" using IH(5) keys nin fr(2) by auto
  moreover have "fst ` set h' = fst ` set h \<union> snd ` set ?m" using IH(6) keys by auto
  moreover have "\<forall>p \<in> fst ` set h. map_of h' p = map_of h p"
  proof
    fix p assume p: "p \<in> fst ` set h"
    then have "p \<noteq> fresh h" using nin by metis
    moreover have "map_of h' p = map_of ?h p" using IH(7) p keys by blast
    ultimately show "map_of h' p = map_of h p" by (simp add: mo)
  qed
  moreover have lk: "map_of h' q = map_of h p'" if pq: "(p', q) \<in> set ?m" for p' q
  proof (cases "(p', q) \<in> set m")
    case True
    then have "p' \<in> set ps" using IH(2) by force
    then have "p' \<noteq> fresh h" using Cons.prems(2) nin by auto
    then show ?thesis using IH(8) True mo by auto
  next
    case False
    then have "p' = p" "q = fresh h" using pq by auto
    then show ?thesis using IH(7) keys mo i by auto
  qed
  moreover have "map fst ?m = p # ps" using IH(2) by simp
  moreover have "\<forall>(p', q) \<in> set ?m. map_of h' q = map_of h p'" using lk by auto
  ultimately show ?case
    unfolding cloned_def using IH(4) by (intro exI [of _ ?m] exI [of _ h'] conjI)
qed

lemma Clone_ok:
  assumes alloc: "allocates fresh" and ok: "group_ok (h, g)"
  shows "\<exists>f h' g'. Clone fresh name (h, g) = Inr (h', g') \<and> inj_on f (set (cg_nodes g)) \<and>
    cg_nodes g' = map f (cg_nodes g) \<and>
    mset (cg_edges g') = image_mset (\<lambda>(a, b). (f a, f b)) (mset (cg_edges g)) \<and>
    (\<forall>p \<in> set (cg_nodes g). map_of h' (f p) = map_of h p \<and> f p \<notin> fst ` set h) \<and>
    (\<forall>p \<in> fst ` set h. map_of h' p = map_of h p) \<and> group_ok (h', g') \<and> group_ok (h', g)"
proof -
  note d = group_okD [OF ok]
  obtain m h' where run: "clone_items fresh (cg_nodes g) h = Inr (m, h')"
    and cl: "cloned h (cg_nodes g) m h'"
    using clone_items_ok [OF alloc d(1,4)] by blast
  note c = run clonedD [OF cl]
  let ?f = "mapped m"
  let ?es = "fold (\<lambda>(a, b). edge_insert (?f a) (?f b)) (cg_edges g) []"
  let ?g = "\<lparr>cg_name = name, cg_nodes = map snd m, cg_edges = ?es\<rparr>"
  have dm: "distinct (map fst m)" using c(2) d(2) by simp
  have f: "?f p = q" if "(p, q) \<in> set m" for p q
    using map_of_is_SomeI [OF dm that] by (simp add: mapped_def)
  have pair: "(p, ?f p) \<in> set m" if p: "p \<in> set (cg_nodes g)" for p
  proof -
    obtain q where "(p, q) \<in> set m" using p unfolding c(2) [symmetric] by auto
    then show ?thesis using f by simp
  qed
  have nodes: "map snd m = map ?f (cg_nodes g)"
    unfolding c(2) [symmetric] map_map by (rule map_cong) (use f in auto)
  have inj: "inj_on ?f (set (cg_nodes g))" using c(3) unfolding nodes by (simp add: distinct_map)
  have es: "mset ?es = image_mset (\<lambda>(a, b). (?f a, ?f b)) (mset (cg_edges g))"
    using fold_edge_insert(1) [of ?f "cg_edges g" "[]"] by simp
  have eset: "set ?es = (\<lambda>(a, b). (?f a, ?f b)) ` set (cg_edges g)"
    using arg_cong [OF es, of set_mset] by simp
  have new: "map_of h' (?f p) = map_of h p \<and> ?f p \<notin> fst ` set h" if "p \<in> set (cg_nodes g)" for p
  proof -
    have "?f p \<in> snd ` set m" using pair [OF that] by (metis image_eqI snd_conv)
    then show ?thesis using pair [OF that] c(5,8) by auto
  qed
  have "group_ok (h', ?g)"
  proof -
    have "fst ` set ?es \<union> snd ` set ?es \<subseteq> set (map snd m)"
      using d(6,7) unfolding eset nodes by force
    moreover have "sorted (map fst ?es)" by (rule fold_edge_insert(2)) simp
    ultimately show ?thesis using c(3,4,5,6) by (auto simp: group_ok_def)
  qed
  moreover have "group_ok (h', g)" using d c(4,6) by (auto simp: group_ok_def)
  moreover have "Clone fresh name (h, g) = Inr (h', ?g)" using c(1) by (simp add: Clone_def)
  ultimately show ?thesis using inj nodes es new c(7)
    by (intro exI [of _ ?f] exI [of _ h'] exI [of _ ?g]) simp
qed

text \<open>C40. A clone is a copy of the group under a renaming of its items to new objects of the
  same name and id: the same items in the same order and the same dependencies; the group and
  its own items stay as they were, and the copy has a cycle exactly where the group has one.\<close>

theorem Clone_isomorphic:
  assumes alloc: "allocates fresh" and ok: "group_ok (h, g)"
  shows "\<exists>f h' g'. Clone fresh name (h, g) = Inr (h', g') \<and> inj_on f (set (cg_nodes g)) \<and>
    cg_nodes g' = map f (cg_nodes g) \<and>
    mset (cg_edges g') = image_mset (\<lambda>(a, b). (f a, f b)) (mset (cg_edges g)) \<and>
    (\<forall>p \<in> set (cg_nodes g). map_of h' (f p) = map_of h p \<and> f p \<notin> fst ` set h) \<and>
    (\<forall>p \<in> fst ` set h. map_of h' p = map_of h p) \<and> group_ok (h', g') \<and> group_ok (h', g)"
  using alloc ok by (rule Clone_ok)

lemma Clone_isomorphic_witness:
  "\<exists>h' g'. Clone next_free ''c''
      ([(1, CalcItem_new ''a'' 1), (2, CalcItem_new ''b'' 2)],
       \<lparr>cg_name = ''g'', cg_nodes = [1, 2], cg_edges = [(1, 2)]\<rparr>) = Inr (h', g') \<and> group_ok (h', g')"
  using Clone_isomorphic [OF allocates_next_free, of "[(1, CalcItem_new ''a'' 1), (2, CalcItem_new ''b'' 2)]"
      "\<lparr>cg_name = ''g'', cg_nodes = [1, 2], cg_edges = [(1, 2)]\<rparr>" "''c''"]
  by (auto simp: group_ok_def)

end
