(* ===== verification/Calc_Walker.thy ===== *)
theory Calc_Walker
  imports Calc_Group
begin

text \<open>
  \<open>CalcGroupWalker\<close> (depend_calc/calc_group_walker.h, calc_group_walker.cc): it clones a
  group and hands out its items in an order in which every item comes after those it depends
  on.  \<open>Runnable\<close> and \<open>Current\<close> are declared in the header and have no implementation.
\<close>

record CalcGroupWalker =
  cw_graph :: CalcGroup
  cw_runnable :: "ptr list"
  cw_current :: "ptr list"

definition Walker_new ::
  "(items \<Rightarrow> ptr) \<Rightarrow> items \<times> CalcGroup \<Rightarrow> (items \<times> CalcGroupWalker) res" where
  "Walker_new fresh s =
     DCHECK (NoCycle (snd s)) (
     and_then (Clone fresh (cg_name (snd s) @ ''_walker'') s) (\<lambda>(h, g).
       Inr (h, \<lparr>cw_graph = g, cw_runnable = FreeNode g, cw_current = []\<rparr>)))"

definition StartOne :: "CalcGroupWalker \<Rightarrow> (ptr \<times> CalcGroupWalker) res" where
  "StartOne w =
     (case cw_runnable w of
        [] \<Rightarrow> Inl DcheckFailed
      | p # ps \<Rightarrow> Inr (p, w\<lparr>cw_runnable := ps, cw_current := cw_current w @ [p]\<rparr>))"

definition StartAll :: "CalcGroupWalker \<Rightarrow> ptr list \<times> CalcGroupWalker" where
  "StartAll w =
     (cw_runnable w, w\<lparr>cw_runnable := [], cw_current := cw_current w @ cw_runnable w\<rparr>)"

definition Mark ::
  "ptr \<Rightarrow> bool \<Rightarrow> items \<times> CalcGroupWalker \<Rightarrow> (items \<times> CalcGroupWalker) res" where
  "Mark p success = (\<lambda>(h, w).
     DCHECK (p \<in> set (cw_current w)) (
     let w = w\<lparr>cw_current := remove1 p (cw_current w)\<rparr> in
     if success
     then and_then (NodeSuccess p (h, cw_graph w)) (\<lambda>(free_node, h, g).
       Inr (h, w\<lparr>cw_graph := g, cw_runnable := cw_runnable w @ free_node\<rparr>))
     else and_then (NodeFailed p (h, cw_graph w)) (\<lambda>(h, g).
       Inr (h, w\<lparr>cw_graph := g\<rparr>))))"

definition Walker_Finish :: "CalcGroupWalker \<Rightarrow> bool" where
  "Walker_Finish w \<longleftrightarrow> length (cw_current w) + length (cw_runnable w) = 0"

subsection \<open>The invariant\<close>

definition waiting_for_nothing :: "CalcGroup \<Rightarrow> ptr set" where
  "waiting_for_nothing g = {p \<in> set (cg_nodes g). p \<notin> snd ` set (cg_edges g)}"

definition walker_ok :: "items \<times> CalcGroupWalker \<Rightarrow> bool" where
  "walker_ok = (\<lambda>(h, w).
     group_ok (h, cw_graph w) \<and> acyclic (set (cg_edges (cw_graph w))) \<and>
     distinct (cw_runnable w @ cw_current w) \<and>
     set (cw_runnable w @ cw_current w) = waiting_for_nothing (cw_graph w))"

lemma walker_okD:
  assumes "walker_ok (h, w)"
  shows "group_ok (h, cw_graph w)" "acyclic (set (cg_edges (cw_graph w)))"
    "distinct (cw_runnable w @ cw_current w)"
    "set (cw_runnable w) \<union> set (cw_current w) = waiting_for_nothing (cw_graph w)"
  using assms by (auto simp: walker_ok_def)

lemma current_waits:
  assumes "walker_ok (h, w)" and "p \<in> set (cw_runnable w) \<union> set (cw_current w)"
  shows "p \<in> set (cg_nodes (cw_graph w))" "p \<notin> snd ` set (cg_edges (cw_graph w))"
  using walker_okD(4) [OF assms(1)] assms(2) by (auto simp: waiting_for_nothing_def)

lemma acyclic_image:
  assumes "acyclic r" and "inj_on f A" and "fst ` r \<union> snd ` r \<subseteq> A"
  shows "acyclic ((\<lambda>(a, b). (f a, f b)) ` r)"
proof -
  have "\<exists>a b. x = f a \<and> y = f b \<and> (a, b) \<in> r\<^sup>+" if "(x, y) \<in> ((\<lambda>(a, b). (f a, f b)) ` r)\<^sup>+" for x y
    using that
  proof (induction rule: trancl_induct)
    case (base y)
    then show ?case by auto
  next
    case (step y z)
    obtain a b where ab: "x = f a" "y = f b" "(a, b) \<in> r\<^sup>+" using step.IH by blast
    obtain c d where cd: "y = f c" "z = f d" "(c, d) \<in> r" using step.hyps(2) by auto
    have "b \<in> snd ` r" using ab(3) by (metis image_eqI snd_conv tranclE)
    moreover have "c \<in> fst ` r" using cd(3) by force
    ultimately have "b = c" using assms(2,3) ab(2) cd(1) by (metis UnI1 UnI2 inj_onD subsetD)
    then show ?case using ab cd by (metis trancl.trancl_into_trancl)
  qed
  moreover have "a = b" if "f a = f b" "(a, b) \<in> r\<^sup>+" for a b
  proof -
    have "a \<in> fst ` r" "b \<in> snd ` r"
      using that(2) by (metis fst_conv image_eqI tranclD, metis image_eqI snd_conv tranclE)
    then show ?thesis using assms(2,3) that(1) by (metis UnI1 UnI2 inj_onD subsetD)
  qed
  ultimately show ?thesis using assms(1) unfolding acyclic_def by metis
qed

lemma Walker_new_ok:
  assumes "allocates fresh" and "group_ok (h, g)" and "acyclic (set (cg_edges g))"
  obtains f h' w where "Walker_new fresh (h, g) = Inr (h', w)" "walker_ok (h', w)"
    "cw_current w = []" "inj_on f (set (cg_nodes g))" "cg_nodes (cw_graph w) = map f (cg_nodes g)"
    "mset (cg_edges (cw_graph w)) = image_mset (\<lambda>(a, b). (f a, f b)) (mset (cg_edges g))"
    "group_ok (h', g)" "\<forall>p \<in> set (cg_nodes g). map_of h' (f p) = map_of h p \<and> f p \<notin> fst ` set h"
    "\<forall>p \<in> fst ` set h. map_of h' p = map_of h p"
proof -
  let ?name = "cg_name g @ ''_walker''"
  obtain f h' g' where c: "Clone fresh ?name (h, g) = Inr (h', g')" "inj_on f (set (cg_nodes g))"
    "cg_nodes g' = map f (cg_nodes g)"
    "mset (cg_edges g') = image_mset (\<lambda>(a, b). (f a, f b)) (mset (cg_edges g))"
    "\<forall>p \<in> set (cg_nodes g). map_of h' (f p) = map_of h p \<and> f p \<notin> fst ` set h"
    "\<forall>p \<in> fst ` set h. map_of h' p = map_of h p" "group_ok (h', g')" "group_ok (h', g)"
    using Clone_ok [OF assms(1,2), of ?name] by (elim exE conjE) (rule that)
  let ?w = "\<lparr>cw_graph = g', cw_runnable = FreeNode g', cw_current = []\<rparr>"
  have "set (cg_edges g') = (\<lambda>(a, b). (f a, f b)) ` set (cg_edges g)"
    using arg_cong [OF c(4), of set_mset] by simp
  then have "acyclic (set (cg_edges g'))"
    using acyclic_image [OF assms(3) c(2)] group_okD(6,7) [OF assms(2)] by simp
  then have "walker_ok (h', ?w)"
    using c(7) group_okD(2) [OF c(7)]
    by (auto simp: walker_ok_def waiting_for_nothing_def FreeNode_filter)
  moreover have "Walker_new fresh (h, g) = Inr (h', ?w)"
    using c(1) NoCycle_acyclic [OF assms(2)] assms(3) by (simp add: Walker_new_def)
  ultimately show ?thesis using c by (intro that [of h' ?w f]) simp_all
qed

lemma StartAll_ok: "walker_ok (h, w) \<Longrightarrow> walker_ok (h, snd (StartAll w))"
  by (auto simp: walker_ok_def StartAll_def)

lemma StartOne_ok: "walker_ok (h, w) \<Longrightarrow> StartOne w = Inr (p, w') \<Longrightarrow> walker_ok (h, w')"
  by (auto simp: walker_ok_def StartOne_def split: list.splits)

text \<open>Marking an item that has succeeded.\<close>

lemma Mark_success_ok:
  assumes ok: "walker_ok (h, w)" and p: "p \<in> set (cw_current w)"
  obtains out where "Mark p True (h, w) = Inr (map_erase p h,
      w\<lparr>cw_current := remove1 p (cw_current w), cw_runnable := cw_runnable w @ out,
        cw_graph := (cw_graph w)\<lparr>cg_nodes := filter (\<lambda>q. q \<noteq> p) (cg_nodes (cw_graph w)),
          cg_edges := filter (\<lambda>e. fst e \<noteq> p) (cg_edges (cw_graph w))\<rparr>\<rparr>)"
    "walker_ok (map_erase p h,
      w\<lparr>cw_current := remove1 p (cw_current w), cw_runnable := cw_runnable w @ out,
        cw_graph := (cw_graph w)\<lparr>cg_nodes := filter (\<lambda>q. q \<noteq> p) (cg_nodes (cw_graph w)),
          cg_edges := filter (\<lambda>e. fst e \<noteq> p) (cg_edges (cw_graph w))\<rparr>\<rparr>)"
    "set out \<subseteq> snd ` set (cg_edges (cw_graph w))"
proof -
  let ?g = "cw_graph w"
  let ?g' = "?g\<lparr>cg_nodes := filter (\<lambda>q. q \<noteq> p) (cg_nodes ?g),
      cg_edges := filter (\<lambda>e. fst e \<noteq> p) (cg_edges ?g)\<rparr>"
  note d = walker_okD [OF ok]
  have free: "p \<in> set (cg_nodes ?g)" "p \<notin> snd ` set (cg_edges ?g)"
    using current_waits [OF ok] p by auto
  obtain out where out: "NodeSuccess p (h, ?g) = Inr (out, map_erase p h, ?g')"
    "set out = {d. (p, d) \<in> set (cg_edges ?g) \<and>
        d \<notin> snd ` set (filter (\<lambda>e. fst e \<noteq> p) (cg_edges ?g))}"
    "distinct out" "group_ok (map_erase p h, ?g')"
    by (rule NodeSuccess_ok [OF d(1) free])
  let ?w = "w\<lparr>cw_current := remove1 p (cw_current w), cw_runnable := cw_runnable w @ out,
      cw_graph := ?g'\<rparr>"
  have sub: "set out \<subseteq> snd ` set (cg_edges ?g)" using out(2) by force
  have "acyclic (set (cg_edges ?g'))" by (rule acyclic_subset [OF d(2)]) auto
  moreover have "distinct (cw_runnable ?w @ cw_current ?w)"
  proof -
    have "set out \<inter> (set (cw_runnable w) \<union> set (cw_current w)) = {}"
      using sub current_waits(2) [OF ok] by auto
    then show ?thesis using d(3) out(3) by (auto simp: distinct_remove1 dest: notin_set_remove1)
  qed
  moreover have "set (cw_runnable ?w @ cw_current ?w) = waiting_for_nothing ?g'"
  proof -
    have "set (remove1 p (cw_current w)) = set (cw_current w) - {p}"
      using d(3) by (simp add: set_remove1_eq)
    moreover have "p \<notin> set (cw_runnable w)" using d(3) p by auto
    ultimately have "set (cw_runnable ?w @ cw_current ?w) = waiting_for_nothing ?g - {p} \<union> set out"
      using d(4) by auto
    also have "\<dots> = waiting_for_nothing ?g'"
    proof -
      have mem: "x \<in> snd ` E \<longleftrightarrow> (\<exists>a. (a, x) \<in> E)" for x and E :: "(ptr \<times> ptr) set" by force
      have "\<forall>a x. (a, x) \<in> set (cg_edges ?g) \<longrightarrow> x \<in> set (cg_nodes ?g) \<and> x \<noteq> p"
        using group_okD(7) [OF d(1)] free(2) unfolding subset_iff mem by blast
      then show ?thesis
        unfolding out(2) waiting_for_nothing_def mem by auto
    qed
    finally show ?thesis .
  qed
  ultimately have wo: "walker_ok (map_erase p h, ?w)" using out(4) by (auto simp: walker_ok_def)
  have "Mark p True (h, w) = Inr (map_erase p h, ?w)"
    using out(1) p by (simp add: Mark_def)
  then show ?thesis using wo sub by (rule that [of out])
qed

lemma Mark_success:
  "walker_ok (h, w) \<Longrightarrow> p \<in> set (cw_current w) \<Longrightarrow> \<exists>u. Mark p True (h, w) = Inr u"
  by (erule (1) Mark_success_ok) blast

text \<open>Marking an item that has failed.\<close>

lemma Mark_failed_ok:
  assumes ok: "walker_ok (h, w)" and p: "p \<in> set (cw_current w)"
  defines "gone \<equiv> dependents p (cg_edges (cw_graph w))"
  shows "Mark p False (h, w) = Inr t \<Longrightarrow>
      t = (filter (\<lambda>i. fst i \<notin> gone) h,
        w\<lparr>cw_current := remove1 p (cw_current w),
          cw_graph := (cw_graph w)\<lparr>cg_nodes := filter (\<lambda>q. q \<notin> gone) (cg_nodes (cw_graph w)),
            cg_edges := filter (\<lambda>e. fst e \<notin> gone \<and> snd e \<notin> gone) (cg_edges (cw_graph w))\<rparr>\<rparr>) \<and>
      walker_ok t"
    and "distinct (map snd (cg_edges (cw_graph w))) \<Longrightarrow> \<exists>t. Mark p False (h, w) = Inr t"
proof -
  let ?g = "cw_graph w"
  let ?g' = "?g\<lparr>cg_nodes := filter (\<lambda>q. q \<notin> gone) (cg_nodes ?g),
      cg_edges := filter (\<lambda>e. fst e \<notin> gone \<and> snd e \<notin> gone) (cg_edges ?g)\<rparr>"
  note d = walker_okD [OF ok]
  have free: "p \<in> set (cg_nodes ?g)" "p \<notin> snd ` set (cg_edges ?g)"
    using current_waits [OF ok] p by auto
  note nf = NodeFailed_ok [OF d(1) free]
  show "\<exists>t. Mark p False (h, w) = Inr t" if "distinct (map snd (cg_edges ?g))"
    using nf that p by (auto simp: Mark_def)
  show "t = (filter (\<lambda>i. fst i \<notin> gone) h,
      w\<lparr>cw_current := remove1 p (cw_current w), cw_graph := ?g'\<rparr>) \<and> walker_ok t"
    if run: "Mark p False (h, w) = Inr t"
  proof -
    let ?w = "w\<lparr>cw_current := remove1 p (cw_current w), cw_graph := ?g'\<rparr>"
    obtain u where "NodeFailed p (h, ?g) = Inr u" using run by (auto simp: Mark_def)
    then have u: "NodeFailed p (h, ?g) = Inr (filter (\<lambda>i. fst i \<notin> gone) h, ?g')"
      "group_ok (filter (\<lambda>i. fst i \<notin> gone) h, ?g')"
      using nf unfolding gone_def by blast+
    have t: "t = (filter (\<lambda>i. fst i \<notin> gone) h, ?w)"
      using run p u(1) by (simp add: Mark_def)
    have sinks: "d = p \<or> d \<in> snd ` set (cg_edges ?g)" if "d \<in> gone" for d
    proof -
      have "(p, d) \<in> (set (cg_edges ?g))\<^sup>*" using that by (simp add: gone_def dependents_def)
      then show ?thesis by (cases rule: rtranclE) (auto intro: rev_image_eqI)
    qed
    have "acyclic (set (cg_edges ?g'))" by (rule acyclic_subset [OF d(2)]) auto
    moreover have "set (cw_runnable w) \<union> set (remove1 p (cw_current w)) = waiting_for_nothing ?g'"
    proof -
      have "set (remove1 p (cw_current w)) = set (cw_current w) - {p}" "p \<notin> set (cw_runnable w)"
        using d(3) p by (auto simp: set_remove1_eq)
      then have "set (cw_runnable w) \<union> set (remove1 p (cw_current w)) = waiting_for_nothing ?g - {p}"
        using d(4) by auto
      also have "\<dots> = waiting_for_nothing ?g'"
      proof -
        have mem: "x \<in> snd ` E \<longleftrightarrow> (\<exists>a. (a, x) \<in> E)" for x and E :: "(ptr \<times> ptr) set" by force
        have "p \<in> gone" by (simp add: gone_def dependents_def)
        moreover have "x \<in> gone" if "a \<in> gone" "(a, x) \<in> set (cg_edges ?g)" for a x
          using that unfolding gone_def dependents_def by (auto intro: rtrancl_into_rtrancl)
        ultimately show ?thesis
          unfolding waiting_for_nothing_def using sinks unfolding mem by auto
      qed
      finally show ?thesis .
    qed
    moreover have "distinct (cw_runnable w @ remove1 p (cw_current w))"
      using d(3) by (auto dest: notin_set_remove1)
    ultimately show ?thesis using u(2) t by (simp add: walker_ok_def)
  qed
qed

lemma Walker_Finish_iff:
  assumes "walker_ok (h, w)"
  shows "Walker_Finish w \<longleftrightarrow> cg_nodes (cw_graph w) = []"
proof
  note d = walker_okD [OF assms]
  show "Walker_Finish w" if "cg_nodes (cw_graph w) = []"
    using d(4) that by (auto simp: Walker_Finish_def waiting_for_nothing_def)
  show "cg_nodes (cw_graph w) = []" if "Walker_Finish w"
  proof (rule ccontr)
    assume "cg_nodes (cw_graph w) \<noteq> []"
    then obtain p where p: "p \<in> set (cg_nodes (cw_graph w))" by (cases "cg_nodes (cw_graph w)") auto
    have "waiting_for_nothing (cw_graph w) = {}" using that d(4) by (simp add: Walker_Finish_def)
    then have busy: "\<forall>q \<in> set (cg_nodes (cw_graph w)). q \<in> snd ` set (cg_edges (cw_graph w))"
      by (auto simp: waiting_for_nothing_def)
    then have "set (cg_edges (cw_graph w)) \<noteq> {}" using p by auto
    then obtain a b where "(a, b) \<in> set (cg_edges (cw_graph w))" "a \<notin> snd ` set (cg_edges (cw_graph w))"
      using acyclic_has_source [OF d(2)] by auto
    then show False using busy group_okD(6) [OF d(1)] by force
  qed
qed

subsection \<open>Walks\<close>

text \<open>A walk is a sequence of the walker's operations, in any order its user chooses: each
  \<open>Mark\<close> is of an item that was started and not marked yet.\<close>

datatype walk_event = Started ptr | Marked ptr bool

inductive walk :: "items \<times> CalcGroupWalker \<Rightarrow> walk_event list \<Rightarrow> items \<times> CalcGroupWalker \<Rightarrow> bool" where
  walk_nil: "walk s [] s"
| walk_one: "walk s t (h, w) \<Longrightarrow> StartOne w = Inr (p, w') \<Longrightarrow> walk s (t @ [Started p]) (h, w')"
| walk_all: "walk s t (h, w) \<Longrightarrow> StartAll w = (ps, w') \<Longrightarrow> walk s (t @ map Started ps) (h, w')"
| walk_mark: "walk s t (h, w) \<Longrightarrow> p \<in> set (cw_current w) \<Longrightarrow> Mark p b (h, w) = Inr u \<Longrightarrow>
    walk s (t @ [Marked p b]) u"

definition started :: "walk_event list \<Rightarrow> ptr list" where
  "started t = concat (map (\<lambda>e. case e of Started p \<Rightarrow> [p] | Marked _ _ \<Rightarrow> []) t)"

lemma started_simps [simp]:
  "started [] = []" "started (t @ u) = started t @ started u" "started [Started p] = [p]"
  "started [Marked p b] = []" "started (map Started ps) = ps"
  by (simp_all add: started_def comp_def)

text \<open>Every item of the trace is started after the items it depends on have succeeded.\<close>

definition in_order :: "edges \<Rightarrow> walk_event list \<Rightarrow> bool" where
  "in_order es t \<longleftrightarrow> (\<forall>i < length t. \<forall>p. t ! i = Started p \<longrightarrow>
     (\<forall>a. (a, p) \<in> set es \<longrightarrow> Marked a True \<in> set (take i t)))"

lemma in_order_append:
  assumes "in_order es t"
    and "\<And>p a. Started p \<in> set u \<Longrightarrow> (a, p) \<in> set es \<Longrightarrow> Marked a True \<in> set t"
  shows "in_order es (t @ u)"
  unfolding in_order_def
proof (intro allI impI)
  fix i p a
  assume i: "i < length (t @ u)" "(t @ u) ! i = Started p" and a: "(a, p) \<in> set es"
  show "Marked a True \<in> set (take i (t @ u))"
  proof (cases "i < length t")
    case True
    then show ?thesis using assms(1) i a by (auto simp: in_order_def nth_append)
  next
    case False
    then have "Started p \<in> set u" using i by (auto simp: nth_append) (metis nth_mem add_diff_inverse_nat nat_add_left_cancel_less)
    then show ?thesis using assms(2) a False by auto
  qed
qed

definition walk_inv :: "CalcGroup \<Rightarrow> walk_event list \<Rightarrow> items \<times> CalcGroupWalker \<Rightarrow> bool" where
  "walk_inv g0 t = (\<lambda>(h, w).
     walker_ok (h, w) \<and> in_order (cg_edges g0) t \<and> distinct (started t) \<and>
     set (cg_nodes (cw_graph w)) \<subseteq> set (cg_nodes g0) \<and>
     set (cg_edges (cw_graph w)) \<subseteq> set (cg_edges g0) \<and>
     set (started t) \<inter> set (cg_nodes (cw_graph w)) = set (cw_current w) \<and>
     (\<forall>(a, b) \<in> set (cg_edges g0). b \<in> set (cg_nodes (cw_graph w)) \<longrightarrow>
        Marked a True \<in> set t \<or> (a, b) \<in> set (cg_edges (cw_graph w))) \<and>
     (\<forall>p \<in> set (cg_nodes g0). p \<in> set (cg_nodes (cw_graph w)) \<or> Marked p True \<in> set t \<or>
        (\<exists>f. Marked f False \<in> set t \<and> p \<in> dependents f (cg_edges g0))))"

lemma walk_invD:
  assumes "walk_inv g0 t (h, w)"
  shows "walker_ok (h, w)" "in_order (cg_edges g0) t" "distinct (started t)"
    "set (cg_nodes (cw_graph w)) \<subseteq> set (cg_nodes g0)"
    "set (cg_edges (cw_graph w)) \<subseteq> set (cg_edges g0)"
    "set (started t) \<inter> set (cg_nodes (cw_graph w)) = set (cw_current w)"
    "\<And>a b. (a, b) \<in> set (cg_edges g0) \<Longrightarrow> b \<in> set (cg_nodes (cw_graph w)) \<Longrightarrow>
        Marked a True \<in> set t \<or> (a, b) \<in> set (cg_edges (cw_graph w))"
    "\<And>p. p \<in> set (cg_nodes g0) \<Longrightarrow> p \<in> set (cg_nodes (cw_graph w)) \<or> Marked p True \<in> set t \<or>
        (\<exists>f. Marked f False \<in> set t \<and> p \<in> dependents f (cg_edges g0))"
  using assms unfolding walk_inv_def by auto

lemma walk_invI:
  assumes "walker_ok (h, w)" and "in_order (cg_edges g0) t" and "distinct (started t)"
    and "set (cg_nodes (cw_graph w)) \<subseteq> set (cg_nodes g0)"
    and "set (cg_edges (cw_graph w)) \<subseteq> set (cg_edges g0)"
    and "set (started t) \<inter> set (cg_nodes (cw_graph w)) = set (cw_current w)"
    and "\<And>a b. (a, b) \<in> set (cg_edges g0) \<Longrightarrow> b \<in> set (cg_nodes (cw_graph w)) \<Longrightarrow>
        Marked a True \<in> set t \<or> (a, b) \<in> set (cg_edges (cw_graph w))"
    and "\<And>p. p \<in> set (cg_nodes g0) \<Longrightarrow> p \<in> set (cg_nodes (cw_graph w)) \<or> Marked p True \<in> set t \<or>
        (\<exists>f. Marked f False \<in> set t \<and> p \<in> dependents f (cg_edges g0))"
  shows "walk_inv g0 t (h, w)"
proof -
  have "\<forall>(a, b) \<in> set (cg_edges g0). b \<in> set (cg_nodes (cw_graph w)) \<longrightarrow>
      Marked a True \<in> set t \<or> (a, b) \<in> set (cg_edges (cw_graph w))" using assms(7) by blast
  then show ?thesis unfolding walk_inv_def using assms(1-6,8) by simp
qed

text \<open>Starting some of the runnable items.\<close>

lemma walk_inv_start:
  assumes inv: "walk_inv g0 t (h, w)" and ok: "walker_ok (h, w')"
    and w': "cw_graph w' = cw_graph w" "cw_runnable w = ps @ cw_runnable w'"
      "set (cw_current w') = set (cw_current w) \<union> set ps"
  shows "walk_inv g0 (t @ map Started ps) (h, w')"
proof -
  note d = walk_invD [OF inv]
  have run: "p \<in> set (cg_nodes (cw_graph w))" "p \<notin> snd ` set (cg_edges (cw_graph w))" if "p \<in> set ps" for p
    using current_waits [OF d(1), of p] that w'(2) by auto
  have "in_order (cg_edges g0) (t @ map Started ps)"
  proof (rule in_order_append [OF d(2)])
    fix p a assume "Started p \<in> set (map Started ps)" and e: "(a, p) \<in> set (cg_edges g0)"
    then have "p \<in> set ps" by auto
    then show "Marked a True \<in> set t" using d(7) [OF e] run [of p] by (auto simp: rev_image_eqI)
  qed
  moreover have "distinct (started (t @ map Started ps))"
  proof -
    have "distinct ps" "set ps \<inter> set (cw_current w) = {}"
      using walker_okD(3) [OF d(1)] w'(2) by auto
    then show ?thesis using d(3,6) run(1) by auto
  qed
  moreover have "set (started (t @ map Started ps)) \<inter> set (cg_nodes (cw_graph w')) = set (cw_current w')"
    using d(6) w'(1,3) run(1) by auto
  ultimately show ?thesis
  proof (intro walk_invI)
    show "Marked a True \<in> set (t @ map Started ps) \<or> (a, b) \<in> set (cg_edges (cw_graph w'))"
      if "(a, b) \<in> set (cg_edges g0)" "b \<in> set (cg_nodes (cw_graph w'))" for a b
      using d(7) [OF that(1)] that(2) w'(1) by auto
    show "p \<in> set (cg_nodes (cw_graph w')) \<or> Marked p True \<in> set (t @ map Started ps) \<or>
        (\<exists>f. Marked f False \<in> set (t @ map Started ps) \<and> p \<in> dependents f (cg_edges g0))"
      if "p \<in> set (cg_nodes g0)" for p
      using d(8) [OF that] w'(1) by auto
  qed (use ok d(4,5) w'(1) in simp_all)
qed

lemma walk_inv_mark:
  assumes inv: "walk_inv g0 t (h, w)" and p: "p \<in> set (cw_current w)"
    and run: "Mark p b (h, w) = Inr u"
  shows "walk_inv g0 (t @ [Marked p b]) u"
proof -
  note d = walk_invD [OF inv]
  let ?g = "cw_graph w"
  have free: "p \<in> set (cg_nodes ?g)" "p \<notin> snd ` set (cg_edges ?g)"
    using current_waits [OF d(1)] p by auto
  have order: "in_order (cg_edges g0) (t @ [Marked p b])" by (rule in_order_append [OF d(2)]) auto
  have dist: "distinct (cw_current w)" using walker_okD(3) [OF d(1)] by simp
  have cur: "set (remove1 p (cw_current w)) = set (cw_current w) - {p}"
    using dist by (simp add: set_remove1_eq)
  show ?thesis
  proof (cases b)
    case True
    obtain h' w' where w': "u = (h', w')" "cw_current w' = remove1 p (cw_current w)"
      "cg_nodes (cw_graph w') = filter (\<lambda>q. q \<noteq> p) (cg_nodes ?g)"
      "cg_edges (cw_graph w') = filter (\<lambda>e. fst e \<noteq> p) (cg_edges ?g)" "walker_ok (h', w')"
    proof -
      obtain out where m: "Mark p True (h, w) = Inr (map_erase p h,
          w\<lparr>cw_current := remove1 p (cw_current w), cw_runnable := cw_runnable w @ out,
            cw_graph := ?g\<lparr>cg_nodes := filter (\<lambda>q. q \<noteq> p) (cg_nodes ?g),
              cg_edges := filter (\<lambda>e. fst e \<noteq> p) (cg_edges ?g)\<rparr>\<rparr>)"
        "walker_ok (map_erase p h,
          w\<lparr>cw_current := remove1 p (cw_current w), cw_runnable := cw_runnable w @ out,
            cw_graph := ?g\<lparr>cg_nodes := filter (\<lambda>q. q \<noteq> p) (cg_nodes ?g),
              cg_edges := filter (\<lambda>e. fst e \<noteq> p) (cg_edges ?g)\<rparr>\<rparr>)"
        by (rule Mark_success_ok [OF d(1) p])
      have "u = (map_erase p h,
          w\<lparr>cw_current := remove1 p (cw_current w), cw_runnable := cw_runnable w @ out,
            cw_graph := ?g\<lparr>cg_nodes := filter (\<lambda>q. q \<noteq> p) (cg_nodes ?g),
              cg_edges := filter (\<lambda>e. fst e \<noteq> p) (cg_edges ?g)\<rparr>\<rparr>)"
        using run m(1) True by simp
      then show ?thesis by (rule that) (use m(2) in simp_all)
    qed
    show ?thesis unfolding w'(1)
    proof (rule walk_invI [OF w'(5) order])
      show "set (started (t @ [Marked p b])) \<inter> set (cg_nodes (cw_graph w')) = set (cw_current w')"
        using d(6) cur unfolding w'(2,3) by auto
      show "Marked a True \<in> set (t @ [Marked p b]) \<or> (a, c) \<in> set (cg_edges (cw_graph w'))"
        if "(a, c) \<in> set (cg_edges g0)" "c \<in> set (cg_nodes (cw_graph w'))" for a c
        using d(7) [OF that(1)] that(2) True unfolding w'(3,4) by auto
      show "q \<in> set (cg_nodes (cw_graph w')) \<or> Marked q True \<in> set (t @ [Marked p b]) \<or>
          (\<exists>f. Marked f False \<in> set (t @ [Marked p b]) \<and> q \<in> dependents f (cg_edges g0))"
        if "q \<in> set (cg_nodes g0)" for q
        using d(8) [OF that] True unfolding w'(3) by auto
    qed (use d(3,4,5) w'(3,4) in auto)
  next
    case False
    let ?gone = "dependents p (cg_edges ?g)"
    obtain h' w' where w': "u = (h', w')" "cw_current w' = remove1 p (cw_current w)"
      "cg_nodes (cw_graph w') = filter (\<lambda>q. q \<notin> ?gone) (cg_nodes ?g)"
      "cg_edges (cw_graph w') = filter (\<lambda>e. fst e \<notin> ?gone \<and> snd e \<notin> ?gone) (cg_edges ?g)"
      "walker_ok (h', w')"
      using Mark_failed_ok(1) [OF d(1) p] run False by auto
    have gone0: "q \<in> dependents p (cg_edges g0)" if "q \<in> ?gone" for q
      using that rtrancl_mono [OF d(5)] by (auto simp: dependents_def)
    have spread: "c \<in> ?gone" if "a \<in> ?gone" "(a, c) \<in> set (cg_edges ?g)" for a c
      using that by (auto simp: dependents_def intro: rtrancl_into_rtrancl)
    have others: "q \<notin> ?gone" if "q \<in> set (cw_current w)" "q \<noteq> p" for q
    proof
      assume "q \<in> ?gone"
      then have "(p, q) \<in> (set (cg_edges ?g))\<^sup>*" by (simp add: dependents_def)
      then have "q \<in> snd ` set (cg_edges ?g)"
        using that(2) by (cases rule: rtranclE) (auto intro: rev_image_eqI)
      then show False using current_waits(2) [OF d(1)] that(1) by auto
    qed
    have "p \<in> ?gone" by (simp add: dependents_def)
    show ?thesis unfolding w'(1)
    proof (rule walk_invI [OF w'(5) order])
      show "set (started (t @ [Marked p b])) \<inter> set (cg_nodes (cw_graph w')) = set (cw_current w')"
        using d(6) cur others \<open>p \<in> ?gone\<close> unfolding w'(2,3) by auto
      show "Marked a True \<in> set (t @ [Marked p b]) \<or> (a, c) \<in> set (cg_edges (cw_graph w'))"
        if "(a, c) \<in> set (cg_edges g0)" "c \<in> set (cg_nodes (cw_graph w'))" for a c
        using d(7) [OF that(1)] that(2) spread unfolding w'(3,4) by auto
      show "q \<in> set (cg_nodes (cw_graph w')) \<or> Marked q True \<in> set (t @ [Marked p b]) \<or>
          (\<exists>f. Marked f False \<in> set (t @ [Marked p b]) \<and> q \<in> dependents f (cg_edges g0))"
        if "q \<in> set (cg_nodes g0)" for q
        using d(8) [OF that] False gone0 unfolding w'(3) by auto
    qed (use d(3,4,5) w'(3,4) in auto)
  qed
qed

lemma walk_keeps: "walk s t u \<Longrightarrow> walk_inv g0 [] s \<Longrightarrow> walk_inv g0 t u"
proof (induction rule: walk.induct)
  case (walk_one s t h w p w')
  have inv: "walk_inv g0 t (h, w)" using walk_one by blast
  have "walk_inv g0 (t @ map Started [p]) (h, w')"
    by (rule walk_inv_start [OF inv StartOne_ok [OF walk_invD(1) [OF inv] walk_one(2)]])
      (use walk_one(2) in \<open>auto simp: StartOne_def split: list.splits\<close>)
  then show ?case by simp
next
  case (walk_all s t h w ps w')
  have inv: "walk_inv g0 t (h, w)" using walk_all by blast
  have "walker_ok (h, w')" using StartAll_ok [OF walk_invD(1) [OF inv]] walk_all(2) by simp
  then show ?case
    by (rule walk_inv_start [OF inv]) (use walk_all(2) in \<open>auto simp: StartAll_def\<close>)
qed (blast intro: walk_inv_mark)+

text \<open>C19. A walker hands out every item at most once, and only when all items it depends on
  have succeeded.  Marking an item it has handed out as successful always works, and when the
  walker is finished every item has succeeded or depends on one that failed.\<close>

theorem walker_order:
  assumes "allocates fresh" and "group_ok (h, g)" and "Walker_new fresh (h, g) = Inr (h0, w0)"
    and "walk (h0, w0) t (h1, w1)"
  shows "in_order (cg_edges (cw_graph w0)) t \<and> distinct (started t) \<and>
    (\<forall>p \<in> set (cw_current w1). \<exists>u. Mark p True (h1, w1) = Inr u) \<and>
    (Walker_Finish w1 \<longrightarrow> (\<forall>p \<in> set (cg_nodes (cw_graph w0)).
       Marked p True \<in> set t \<or>
       (\<exists>f. Marked f False \<in> set t \<and> p \<in> dependents f (cg_edges (cw_graph w0)))))"
proof -
  have "acyclic (set (cg_edges g))"
    using assms(3) NoCycle_acyclic [OF assms(2)] by (auto simp: Walker_new_def)
  then have w0: "walker_ok (h0, w0)" "cw_current w0 = []"
    using Walker_new_ok [OF assms(1,2)] assms(3) by (metis Inr_inject Pair_inject)+
  have "walk_inv (cw_graph w0) [] (h0, w0)"
    by (rule walk_invI [OF w0(1)]) (auto simp: in_order_def w0(2))
  from walk_keeps [OF assms(4) this] have inv: "walk_inv (cw_graph w0) t (h1, w1)" .
  note d = walk_invD [OF inv]
  have "\<exists>u. Mark p True (h1, w1) = Inr u" if "p \<in> set (cw_current w1)" for p
    by (rule Mark_success [OF d(1) that])
  moreover have "Marked p True \<in> set t \<or>
      (\<exists>f. Marked f False \<in> set t \<and> p \<in> dependents f (cg_edges (cw_graph w0)))"
    if "Walker_Finish w1" "p \<in> set (cg_nodes (cw_graph w0))" for p
    using d(8) [OF that(2)] that(1) Walker_Finish_iff [OF d(1)] by simp
  ultimately show ?thesis using d(2,3) by blast
qed

lemma walker_order_witness:
  "\<exists>h0 w0 s. Walker_new next_free ([(1, CalcItem_new ''a'' 1), (2, CalcItem_new ''b'' 2)],
      \<lparr>cg_name = ''g'', cg_nodes = [1, 2], cg_edges = [(1, 2)]\<rparr>) = Inr (h0, w0) \<and>
    walk (h0, w0) [Started 3, Marked 3 True, Started 4] s \<and>
    in_order (cg_edges (cw_graph w0)) [Started 3, Marked 3 True, Started 4]"
proof -
  let ?h = "[(1, CalcItem_new ''a'' 1), (2, CalcItem_new ''b'' 2)]"
  let ?g = "\<lparr>cg_name = ''g'', cg_nodes = [1, 2], cg_edges = [(1, 2)]\<rparr>"
  let ?h4 = "[(1, CalcItem_new ''a'' 1), (2, CalcItem_new ''b'' 2), (3, CalcItem_new ''a'' 1),
    (4, CalcItem_new ''b'' 2)]"
  let ?h3 = "[(1, CalcItem_new ''a'' 1), (2, CalcItem_new ''b'' 2), (4, CalcItem_new ''b'' 2)]"
  let ?w = "\<lambda>ps es r c. \<lparr>cw_graph = \<lparr>cg_name = ''g_walker'', cg_nodes = ps, cg_edges = es\<rparr>,
    cw_runnable = r, cw_current = c\<rparr>"
  note defs = before_range_def in_range_def behind_range_def has_incoming_edges_def
  have new: "Walker_new next_free (?h, ?g) = Inr (?h4, ?w [3, 4] [(3, 4)] [3] [])"
    by (simp add: Walker_new_def NoCycle_def FreeNode_def defs Clone_def CalcItem_Clone_def
        item_at_def next_free_def mapped_def CalcItem_new_def)
  have w1: "walk (?h4, ?w [3, 4] [(3, 4)] [3] []) ([] @ [Started 3]) (?h4, ?w [3, 4] [(3, 4)] [] [3])"
    by (rule walk_one [OF walk_nil]) (simp add: StartOne_def)
  have "Mark 3 True (?h4, ?w [3, 4] [(3, 4)] [] [3]) = Inr (?h3, ?w [4] [] [4] [])"
    by (simp add: Mark_def NodeSuccess_def Let_def defs DeleteIsolateNode_def delete_item_def map_erase_def)
  then have w2: "walk (?h4, ?w [3, 4] [(3, 4)] [3] []) (([] @ [Started 3]) @ [Marked 3 True])
      (?h3, ?w [4] [] [4] [])" by (intro walk_mark [OF w1]) simp
  have w3: "walk (?h4, ?w [3, 4] [(3, 4)] [3] []) ((([] @ [Started 3]) @ [Marked 3 True]) @ [Started 4])
      (?h3, ?w [4] [] [] [4])" by (rule walk_one [OF w2]) (simp add: StartOne_def)
  have "group_ok (?h, ?g)" by (auto simp: group_ok_def)
  from walker_order [OF allocates_next_free this new w3] new w3 show ?thesis by auto
qed

end
