(* ===== verification/Calc_Executer.thy ===== *)
theory Calc_Executer
  imports Calc_Walker Async_Task
begin

text \<open>
  \<open>CalcExecuter\<close> (depend_calc/calc_executer.h, calc_executer.cc): it runs the items of a
  group on the threads of a worker pool, following a walker, and reports the start and the
  end of the run to an \<open>AsyncTask\<close>.

  The threads interleave between the critical sections of \<open>lock_\<close>, each of which is one
  action below.  \<open>ex_posted\<close> holds the items whose \<open>RunItem\<close> is posted to the pool,
  \<open>ex_running\<close> those whose \<open>RunItem\<close> has passed its check for cancellation, \<open>ex_starting\<close>
  counts the threads on their way to \<open>StartAllRunnable\<close>.  \<open>CalcItem::Run\<close> is virtual: its
  answer is part of the action.  Of the delegate the model keeps the number of references.
\<close>

record Executer =
  ex_heap :: items
  ex_group :: CalcGroup
  ex_delegate :: bool
  ex_notify_end :: bool
  ex_task :: AsyncTask
  ex_walker :: "CalcGroupWalker option"
  ex_posted :: "ptr list"
  ex_running :: "ptr list"
  ex_starting :: nat
  ex_refs :: int

definition Executer_new :: "items \<Rightarrow> CalcGroup \<Rightarrow> Executer" where
  "Executer_new h g = \<lparr>ex_heap = h, ex_group = g, ex_delegate = False, ex_notify_end = True,
     ex_task = AsyncTask_new, ex_walker = None, ex_posted = [], ex_running = [],
     ex_starting = 0, ex_refs = 0\<rparr>"

definition set_delegate :: "Executer \<Rightarrow> Executer res" where
  "set_delegate s = CHECK (ex_notify_end s) (Inr (s\<lparr>ex_delegate := True\<rparr>))"

text \<open>\<open>walker_.reset\<close> makes the new walker first and then deletes the old one with the items
  its graph still has.\<close>

definition delete_walker :: "CalcGroupWalker option \<Rightarrow> items \<Rightarrow> items res" where
  "delete_walker w h =
     (case w of None \<Rightarrow> Inr h | Some w \<Rightarrow> for_each delete_item (cg_nodes (cw_graph w)) h)"

definition Executer_Reset :: "(items \<Rightarrow> ptr) \<Rightarrow> Executer \<Rightarrow> Executer res" where
  "Executer_Reset fresh s =
     DCHECK (ex_notify_end s) (
     and_then (Walker_new fresh (ex_heap s, ex_group s)) (\<lambda>(h, w).
     and_then (delete_walker (ex_walker s) h) (\<lambda>h.
       Inr (s\<lparr>ex_heap := h, ex_walker := Some w, ex_notify_end := False\<rparr>))))"

text \<open>The walker, which must be there.\<close>

definition with_walker :: "Executer \<Rightarrow> (CalcGroupWalker \<Rightarrow> 'a res) \<Rightarrow> 'a res" where
  "with_walker s f = (case ex_walker s of None \<Rightarrow> Inl Undefined | Some w \<Rightarrow> f w)"

definition StartRun :: "(items \<Rightarrow> ptr) \<Rightarrow> AsyncTask \<Rightarrow> Executer \<Rightarrow> Executer res" where
  "StartRun fresh task s =
     DCHECK (ex_delegate s) (
     and_then (Executer_Reset fresh (s\<lparr>ex_task := task\<rparr>)) (\<lambda>s.
       let s = s\<lparr>ex_task := NotifyStart (ex_task s)\<rparr> in
       with_walker s (\<lambda>w.
         if Walker_Finish w
         then Inr (s\<lparr>ex_notify_end := True, ex_task := NotifyFinish (ex_task s)\<rparr>)
         else Inr (s\<lparr>ex_refs := ex_refs s + 1, ex_starting := ex_starting s + 1\<rparr>))))"

text \<open>The part that \<open>StartAllRunnable\<close> and \<open>RunItem\<close> share once the user has canceled.\<close>

definition notify_canceled :: "Executer \<Rightarrow> Executer" where
  "notify_canceled s =
     (if \<not> ex_notify_end s
      then s\<lparr>ex_notify_end := True, ex_refs := ex_refs s - 1, ex_task := NotifyCancel (ex_task s)\<rparr>
      else s)"

definition StartAllRunnable :: "Executer \<Rightarrow> Executer res" where
  "StartAllRunnable s =
     (let s = s\<lparr>ex_starting := ex_starting s - 1\<rparr> in
      if UserCancel (ex_task s) then Inr (notify_canceled s)
      else with_walker s (\<lambda>w.
        let (calc_items, w) = StartAll w
        in Inr (s\<lparr>ex_walker := Some w, ex_posted := ex_posted s @ calc_items\<rparr>)))"

definition RunItem_begin :: "ptr \<Rightarrow> Executer \<Rightarrow> Executer res" where
  "RunItem_begin p s =
     (let s = s\<lparr>ex_posted := remove1 p (ex_posted s)\<rparr> in
      if UserCancel (ex_task s) then Inr (notify_canceled s)
      else Inr (s\<lparr>ex_running := ex_running s @ [p]\<rparr>))"

text \<open>From \<open>item->Run\<close>, which needs the item to exist, to the end of \<open>RunItem\<close>.\<close>

definition RunItem_end :: "ptr \<Rightarrow> bool \<Rightarrow> Executer \<Rightarrow> Executer res" where
  "RunItem_end p ret s =
     and_then (item_at (ex_heap s) p) (\<lambda>_.
     let s = s\<lparr>ex_running := remove1 p (ex_running s)\<rparr> in
     with_walker s (\<lambda>w.
     and_then (Mark p ret (ex_heap s, w)) (\<lambda>(h, w).
       let s = s\<lparr>ex_heap := h, ex_walker := Some w\<rparr> in
       Inr (if Walker_Finish w
            then (if \<not> ex_notify_end s
                  then s\<lparr>ex_notify_end := True, ex_refs := ex_refs s - 1,
                         ex_task := NotifyFinish (ex_task s)\<rparr>
                  else s)
            else s\<lparr>ex_starting := ex_starting s + 1\<rparr>))))"

subsection \<open>The threads\<close>

datatype exec_action =
    DoStartRun
  | DoCancel
  | DoOwner
  | DoStartAll
  | DoBegin ptr
  | DoEnd ptr bool

fun exec :: "(items \<Rightarrow> ptr) \<Rightarrow> AsyncTask \<Rightarrow> exec_action \<Rightarrow> Executer \<Rightarrow> Executer res" where
  "exec fresh task DoStartRun s = StartRun fresh task s"
| "exec fresh task DoCancel s = Inr (s\<lparr>ex_task := Task_Cancel (ex_task s)\<rparr>)"
| "exec fresh task DoOwner s = and_then (run_loop_once (ex_task s)) (\<lambda>t. Inr (s\<lparr>ex_task := t\<rparr>))"
| "exec fresh task DoStartAll s = StartAllRunnable s"
| "exec fresh task (DoBegin p) s = RunItem_begin p s"
| "exec fresh task (DoEnd p ret) s = RunItem_end p ret s"

text \<open>What can happen next: \<open>StartRun\<close> comes, as the header asks, after the previous task has
  finished, and here also after the last item of that run; the pool runs what is posted.\<close>

fun can :: "exec_action \<Rightarrow> Executer \<Rightarrow> bool" where
  "can DoStartRun s \<longleftrightarrow> ex_delegate s \<and> ex_notify_end s \<and> ex_posted s = [] \<and> ex_running s = []"
| "can DoCancel s \<longleftrightarrow> True"
| "can DoOwner s \<longleftrightarrow> True"
| "can DoStartAll s \<longleftrightarrow> ex_starting s > 0"
| "can (DoBegin p) s \<longleftrightarrow> p \<in> set (ex_posted s)"
| "can (DoEnd p ret) s \<longleftrightarrow> p \<in> set (ex_running s)"

definition fresh_task :: "AsyncTask \<Rightarrow> bool" where
  "fresh_task t \<longleftrightarrow> at_status t = kNoStart \<and> at_queue t = [] \<and> at_events t = []"

inductive exec_reach :: "(items \<Rightarrow> ptr) \<Rightarrow> Executer \<Rightarrow> Executer \<Rightarrow> bool" for fresh s0 where
  exec_new: "exec_reach fresh s0 s0"
| exec_next: "exec_reach fresh s0 s \<Longrightarrow> can a s \<Longrightarrow> fresh_task task \<Longrightarrow>
    exec fresh task a s = Inr t \<Longrightarrow> exec_reach fresh s0 t"

subsection \<open>The invariant\<close>

text \<open>The calls the executer has made on its task.\<close>

definition task_calls :: "Executer \<Rightarrow> call list \<Rightarrow> bool" where
  "task_calls s cs \<longleftrightarrow>
     (if ex_walker s = None then cs = []
      else if ex_notify_end s then \<exists>e \<in> {kCancel, kFinish}. cs = [CallStart, CallFinish e]
      else cs = [CallStart])"

definition walker_state :: "Executer \<Rightarrow> CalcGroupWalker \<Rightarrow> bool" where
  "walker_state s w \<longleftrightarrow>
     walker_ok (ex_heap s, w) \<and>
     set (cg_nodes (cw_graph w)) \<inter> set (cg_nodes (ex_group s)) = {} \<and>
     (distinct (map snd (cg_edges (ex_group s))) \<longrightarrow> distinct (map snd (cg_edges (cw_graph w)))) \<and>
     distinct (ex_posted s @ ex_running s) \<and>
     set (ex_posted s @ ex_running s) \<subseteq> set (cw_current w) \<and>
     (\<not> UserCancel (ex_task s) \<longrightarrow>
        set (cw_current w) \<subseteq> set (ex_posted s @ ex_running s) \<and>
        (cw_runnable w \<noteq> [] \<longrightarrow> ex_starting s > 0) \<and>
        (ex_notify_end s \<longrightarrow> Walker_Finish w)) \<and>
     (\<not> ex_notify_end s \<longrightarrow> \<not> Walker_Finish w)"

definition exec_inv :: "Executer \<Rightarrow> bool" where
  "exec_inv s \<longleftrightarrow>
     group_ok (ex_heap s, ex_group s) \<and> acyclic (set (cg_edges (ex_group s))) \<and>
     (\<exists>cs. task_calls s cs \<and> follows (at_observers (ex_task s)) cs (ex_task s)) \<and>
     ex_refs s = (if ex_notify_end s then 0 else 1) \<and>
     (\<not> ex_notify_end s \<longrightarrow> ex_posted s @ ex_running s \<noteq> [] \<or> ex_starting s > 0) \<and>
     (case ex_walker s of
        None \<Rightarrow> ex_notify_end s \<and> ex_posted s = [] \<and> ex_running s = [] \<and> ex_starting s = 0
      | Some w \<Rightarrow> walker_state s w)"

lemma walker_stateD:
  assumes "walker_state s w"
  shows "walker_ok (ex_heap s, w)"
    "set (cg_nodes (cw_graph w)) \<inter> set (cg_nodes (ex_group s)) = {}"
    "distinct (map snd (cg_edges (ex_group s))) \<Longrightarrow> distinct (map snd (cg_edges (cw_graph w)))"
    "distinct (ex_posted s @ ex_running s)"
    "set (ex_posted s @ ex_running s) \<subseteq> set (cw_current w)"
    "\<not> UserCancel (ex_task s) \<Longrightarrow> set (cw_current w) \<subseteq> set (ex_posted s @ ex_running s)"
    "\<not> UserCancel (ex_task s) \<Longrightarrow> cw_runnable w \<noteq> [] \<Longrightarrow> ex_starting s > 0"
    "\<not> UserCancel (ex_task s) \<Longrightarrow> ex_notify_end s \<Longrightarrow> Walker_Finish w"
    "\<not> ex_notify_end s \<Longrightarrow> \<not> Walker_Finish w"
  using assms unfolding walker_state_def by blast+

lemma exec_invD:
  assumes "exec_inv s"
  shows "group_ok (ex_heap s, ex_group s)" "acyclic (set (cg_edges (ex_group s)))"
    "\<exists>cs. task_calls s cs \<and> follows (at_observers (ex_task s)) cs (ex_task s)"
    "ex_refs s = (if ex_notify_end s then 0 else 1)"
    "\<not> ex_notify_end s \<Longrightarrow> ex_posted s @ ex_running s \<noteq> [] \<or> ex_starting s > 0"
    "ex_walker s = None \<Longrightarrow> ex_notify_end s \<and> ex_posted s = [] \<and> ex_running s = [] \<and> ex_starting s = 0"
    "ex_walker s = Some w \<Longrightarrow> walker_state s w"
  using assms unfolding exec_inv_def by (auto split: option.splits)

lemma exec_invI:
  assumes "group_ok (ex_heap s, ex_group s)" and "acyclic (set (cg_edges (ex_group s)))"
    and "task_calls s cs" and "follows (at_observers (ex_task s)) cs (ex_task s)"
    and "ex_refs s = (if ex_notify_end s then 0 else 1)"
    and "\<not> ex_notify_end s \<Longrightarrow> ex_posted s @ ex_running s \<noteq> [] \<or> ex_starting s > 0"
    and "ex_walker s = Some w" and "walker_state s w"
  shows "exec_inv s"
  using assms unfolding exec_inv_def by auto

subsection \<open>Its preservation\<close>

lemma group_ok_shrink:
  assumes "group_ok (h, g)" and "X \<inter> set (cg_nodes g) = {}"
  shows "group_ok (filter (\<lambda>i. fst i \<notin> X) h, g)"
proof -
  have "set (cg_nodes g) \<subseteq> fst ` set (filter (\<lambda>i. fst i \<notin> X) h)"
  proof
    fix p assume p: "p \<in> set (cg_nodes g)"
    then have "p \<in> fst ` set h" using group_okD(4) [OF assms(1)] by blast
    then obtain i where "i \<in> set h" "fst i = p" by auto
    moreover have "p \<notin> X" using p assms(2) by blast
    ultimately show "p \<in> fst ` set (filter (\<lambda>i. fst i \<notin> X) h)" by auto
  qed
  then show ?thesis using group_okD [OF assms(1)] by (simp add: group_ok_def map_keys_ok_filter)
qed

lemma delete_items_ok:
  "map_keys_ok h \<Longrightarrow> distinct ps \<Longrightarrow> set ps \<subseteq> fst ` set h \<Longrightarrow>
     for_each delete_item ps h = Inr (filter (\<lambda>i. fst i \<notin> set ps) h)"
proof (induction ps arbitrary: h)
  case Nil
  then show ?case by (simp add: filter_id_conv)
next
  case (Cons p ps)
  have "map_of h p \<noteq> None" using Cons.prems(3) by (simp add: map_of_eq_None_iff)
  then have "delete_item p h = Inr (map_erase p h)" by (simp add: delete_item_def)
  moreover have "set ps \<subseteq> fst ` set (map_erase p h)"
    using Cons.prems(2,3) by (force simp: set_map_erase)
  moreover have "filter (\<lambda>i. fst i \<notin> set ps) (map_erase p h) = filter (\<lambda>i. fst i \<notin> set (p # ps)) h"
    unfolding map_erase_def filter_filter by (rule filter_cong) auto
  ultimately show ?case using Cons by (simp add: map_keys_ok_erase)
qed

lemma follows_post:
  "follows os cs t \<Longrightarrow> follows os (cs @ [posted_call p]) (PostTask p t)"
  by (auto simp: follows_def PostTask_def)

lemma notify_simps [simp]:
  "follows os cs t \<Longrightarrow> follows os (cs @ [CallStart]) (NotifyStart t)"
  "follows os cs t \<Longrightarrow> follows os (cs @ [CallFinish kFinish]) (NotifyFinish t)"
  "follows os cs t \<Longrightarrow> follows os (cs @ [CallFinish kCancel]) (NotifyCancel t)"
  "at_observers (NotifyStart t) = at_observers t" "at_observers (NotifyFinish t) = at_observers t"
  "at_observers (NotifyCancel t) = at_observers t" "UserCancel (NotifyStart t) = UserCancel t"
  "UserCancel (NotifyFinish t) = UserCancel t" "UserCancel (NotifyCancel t) = UserCancel t"
  using follows_post [of os cs t StartImpl] follows_post [of os cs t "FinishImpl kFinish"]
    follows_post [of os cs t "FinishImpl kCancel"]
  by (auto simp: NotifyStart_def NotifyFinish_def NotifyCancel_def PostTask_def UserCancel_def)

lemma exec_inv_task:
  assumes inv: "exec_inv s"
    and fol: "\<And>cs. task_calls s cs \<Longrightarrow> follows (at_observers (ex_task s)) cs (ex_task s) \<Longrightarrow>
      follows (at_observers t) cs t"
    and can: "UserCancel (ex_task s) \<Longrightarrow> UserCancel t"
  shows "exec_inv (s\<lparr>ex_task := t\<rparr>)"
proof -
  have "walker_state (s\<lparr>ex_task := t\<rparr>) w" if "walker_state s w" for w
    using that can unfolding walker_state_def by auto
  moreover obtain cs where "task_calls s cs" "follows (at_observers t) cs t"
    using exec_invD(3) [OF inv] fol by blast
  then have "\<exists>cs. task_calls (s\<lparr>ex_task := t\<rparr>) cs \<and> follows (at_observers t) cs t"
    unfolding task_calls_def by (intro exI [of _ cs]) auto
  ultimately show ?thesis using inv unfolding exec_inv_def by (simp split: option.splits)
qed

lemma cancel_inv: "exec_inv s \<Longrightarrow> exec_inv (s\<lparr>ex_task := Task_Cancel (ex_task s)\<rparr>)"
  by (erule exec_inv_task) (simp_all add: follows_def Task_Cancel_def UserCancel_def)

lemma run_loop_UserCancel: "run_loop_once t = Inr u \<Longrightarrow> UserCancel u = UserCancel t"
proof (cases "at_queue t")
  case (Cons p ps)
  then show "run_loop_once t = Inr u \<Longrightarrow> UserCancel u = UserCancel t"
    by (cases p) (auto simp: run_loop_once_def UserCancel_def NotifyStartImpl_def
        NotifyProgressImpl_def NotifyFinishImpl_def call_observers_def)
qed (simp add: run_loop_once_def)

lemma owner_inv:
  assumes inv: "exec_inv s"
  obtains t where "run_loop_once (ex_task s) = Inr t" "exec_inv (s\<lparr>ex_task := t\<rparr>)"
proof -
  have pr: "\<exists>st. protocol kNoStart cs = Some st" if "task_calls s cs" for cs
    using that by (auto simp: task_calls_def split: if_splits)
  have loop: "\<exists>t. run_loop_once (ex_task s) = Inr t \<and> follows (at_observers (ex_task s)) cs t"
    if "task_calls s cs" "follows (at_observers (ex_task s)) cs (ex_task s)" for cs
    using follows_loop [OF that(2)] pr [OF that(1)] by blast
  obtain t where t: "run_loop_once (ex_task s) = Inr t" using exec_invD(3) [OF inv] loop by blast
  have "exec_inv (s\<lparr>ex_task := t\<rparr>)"
  proof (rule exec_inv_task [OF inv])
    show "follows (at_observers t) cs t"
      if "task_calls s cs" "follows (at_observers (ex_task s)) cs (ex_task s)" for cs
    proof -
      have "follows (at_observers (ex_task s)) cs t" using loop [OF that] t by simp
      then show ?thesis by (auto simp: follows_def)
    qed
  qed (simp add: run_loop_UserCancel [OF t])
  with t show ?thesis by (rule that)
qed

text \<open>The steps under the lock.\<close>

lemma notify_canceled_inv:
  assumes "exec_inv s0" and "s = s0\<lparr>ex_posted := ps, ex_starting := n\<rparr>"
    and "distinct (ps @ ex_running s0)" and "set ps \<subseteq> set (ex_posted s0)"
    and "UserCancel (ex_task s0)" and "ex_walker s0 \<noteq> None"
  shows "exec_inv (notify_canceled s)"
proof -
  obtain w where w: "ex_walker s0 = Some w" using assms(6) by auto
  note d = exec_invD [OF assms(1)]
  note ws = walker_stateD [OF d(7) [OF w]]
  obtain cs where cs: "task_calls s0 cs" "follows (at_observers (ex_task s0)) cs (ex_task s0)"
    using d(3) by blast
  let ?t = "notify_canceled s"
  have "\<exists>cs. task_calls ?t cs \<and> follows (at_observers (ex_task ?t)) cs (ex_task ?t)"
  proof (cases "ex_notify_end s0")
    case True
    then show ?thesis using cs w by (auto simp: notify_canceled_def assms(2) task_calls_def)
  next
    case False
    then have "cs = [CallStart]" using cs(1) w by (simp add: task_calls_def)
    then have "follows (at_observers (ex_task ?t)) [CallStart, CallFinish kCancel] (ex_task ?t)"
      using notify_simps(3) [OF cs(2)] False by (simp add: notify_canceled_def assms(2))
    then show ?thesis using w False
      by (intro exI [of _ "[CallStart, CallFinish kCancel]"])
        (simp add: task_calls_def notify_canceled_def assms(2))
  qed
  then obtain cs' where "task_calls ?t cs'" "follows (at_observers (ex_task ?t)) cs' (ex_task ?t)"
    by blast
  moreover have "walker_state ?t w"
    unfolding walker_state_def using ws assms(3-5)
    by (auto simp: notify_canceled_def assms(2))
  moreover have "ex_notify_end ?t" "ex_walker ?t = Some w" "ex_heap ?t = ex_heap s0"
    "ex_group ?t = ex_group s0" "ex_refs ?t = 0"
    using w d(4) by (auto simp: notify_canceled_def assms(2))
  ultimately show ?thesis using d(1,2) by (intro exec_invI [where w = w]) simp_all
qed

lemma StartAllRunnable_inv:
  assumes inv: "exec_inv s" and "ex_starting s > 0"
  obtains t where "StartAllRunnable s = Inr t" "exec_inv t"
proof -
  note d = exec_invD [OF inv]
  obtain w where w: "ex_walker s = Some w" using d(6) assms(2) by fastforce
  note ws = walker_stateD [OF d(7) [OF w]]
  let ?s = "s\<lparr>ex_starting := ex_starting s - 1\<rparr>"
  show ?thesis
  proof (cases "UserCancel (ex_task s)")
    case True
    then have "StartAllRunnable s = Inr (notify_canceled ?s)" by (simp add: StartAllRunnable_def Let_def)
    moreover have "exec_inv (notify_canceled ?s)"
      by (rule notify_canceled_inv [OF inv, where ps = "ex_posted s" and n = "ex_starting s - 1"])
        (use True w ws(4) in simp_all)
    ultimately show ?thesis by (rule that)
  next
    case False
    let ?w = "snd (StartAll w)"
    let ?t = "?s\<lparr>ex_walker := Some ?w, ex_posted := ex_posted s @ cw_runnable w\<rparr>"
    have run: "StartAllRunnable s = Inr ?t"
      using False w by (simp add: StartAllRunnable_def Let_def with_walker_def StartAll_def)
    obtain cs where cs: "task_calls s cs" "follows (at_observers (ex_task s)) cs (ex_task s)"
      using d(3) by blast
    have cur: "set (ex_posted s @ ex_running s) = set (cw_current w)" using ws(5,6) False by blast
    have fin: "Walker_Finish ?w = Walker_Finish w" by (auto simp: Walker_Finish_def StartAll_def)
    have "walker_ok (ex_heap s, ?w)" by (rule StartAll_ok [OF ws(1)])
    moreover have "distinct (ex_posted ?t @ ex_running ?t)"
      using ws(4) cur walker_okD(3) [OF ws(1)] by auto
    ultimately have "walker_state ?t ?w"
      unfolding walker_state_def fin using ws False cur by (auto simp: StartAll_def)
    moreover have "ex_posted ?t @ ex_running ?t \<noteq> []" if "\<not> ex_notify_end s"
      using ws(9) [OF that] cur by (auto simp: Walker_Finish_def)
    moreover have "task_calls ?t cs" using cs(1) w by (simp add: task_calls_def)
    ultimately have "exec_inv ?t"
      using d(1,2,4) cs(2) by (intro exec_invI [where w = ?w]) simp_all
    with run show ?thesis by (rule that)
  qed
qed

lemma RunItem_begin_inv:
  assumes inv: "exec_inv s" and p: "p \<in> set (ex_posted s)"
  obtains t where "RunItem_begin p s = Inr t" "exec_inv t"
proof -
  note d = exec_invD [OF inv]
  obtain w where w: "ex_walker s = Some w" using d(6) p by fastforce
  note ws = walker_stateD [OF d(7) [OF w]]
  let ?s = "s\<lparr>ex_posted := remove1 p (ex_posted s)\<rparr>"
  have rem: "set (remove1 p (ex_posted s)) = set (ex_posted s) - {p}"
    using ws(4) by (simp add: set_remove1_eq)
  show ?thesis
  proof (cases "UserCancel (ex_task s)")
    case True
    then have "RunItem_begin p s = Inr (notify_canceled ?s)" by (simp add: RunItem_begin_def Let_def)
    moreover have "exec_inv (notify_canceled ?s)"
      by (rule notify_canceled_inv [OF inv, where ps = "remove1 p (ex_posted s)" and n = "ex_starting s"])
        (use True w ws(4) rem in auto)
    ultimately show ?thesis by (rule that)
  next
    case False
    let ?t = "?s\<lparr>ex_running := ex_running s @ [p]\<rparr>"
    have run: "RunItem_begin p s = Inr ?t" using False by (simp add: RunItem_begin_def Let_def)
    obtain cs where cs: "task_calls s cs" "follows (at_observers (ex_task s)) cs (ex_task s)"
      using d(3) by blast
    have same: "set (ex_posted ?t @ ex_running ?t) = set (ex_posted s @ ex_running s)"
      using p rem by auto
    moreover have "distinct (ex_posted ?t @ ex_running ?t)" using ws(4) p rem by auto
    ultimately have "walker_state ?t w"
      unfolding walker_state_def using ws by auto
    moreover have "task_calls ?t cs" using cs(1) unfolding task_calls_def by auto
    ultimately have "exec_inv ?t"
      using d(1,2,4) cs(2) w by (intro exec_invI [where w = w]) simp_all
    with run show ?thesis by (rule that)
  qed
qed

text \<open>What marking any item leaves.\<close>

lemma Mark_shrinks:
  assumes ok: "walker_ok (h, w)" and p: "p \<in> set (cw_current w)" and run: "Mark p b (h, w) = Inr (h', w')"
  obtains X P where "h' = filter (\<lambda>i. fst i \<notin> X) h" "X \<subseteq> set (cg_nodes (cw_graph w))"
    "walker_ok (h', w')" "cw_current w' = remove1 p (cw_current w)"
    "set (cg_nodes (cw_graph w')) \<subseteq> set (cg_nodes (cw_graph w))"
    "cg_edges (cw_graph w') = filter P (cg_edges (cw_graph w))"
proof (cases b)
  case True
  obtain out where m: "Mark p True (h, w) = Inr (map_erase p h,
      w\<lparr>cw_current := remove1 p (cw_current w), cw_runnable := cw_runnable w @ out,
        cw_graph := (cw_graph w)\<lparr>cg_nodes := filter (\<lambda>q. q \<noteq> p) (cg_nodes (cw_graph w)),
          cg_edges := filter (\<lambda>e. fst e \<noteq> p) (cg_edges (cw_graph w))\<rparr>\<rparr>)"
    "walker_ok (map_erase p h,
      w\<lparr>cw_current := remove1 p (cw_current w), cw_runnable := cw_runnable w @ out,
        cw_graph := (cw_graph w)\<lparr>cg_nodes := filter (\<lambda>q. q \<noteq> p) (cg_nodes (cw_graph w)),
          cg_edges := filter (\<lambda>e. fst e \<noteq> p) (cg_edges (cw_graph w))\<rparr>\<rparr>)"
    by (rule Mark_success_ok [OF ok p])
  have h': "h' = map_erase p h" and w': "w' = w\<lparr>cw_current := remove1 p (cw_current w),
      cw_runnable := cw_runnable w @ out,
      cw_graph := (cw_graph w)\<lparr>cg_nodes := filter (\<lambda>q. q \<noteq> p) (cg_nodes (cw_graph w)),
        cg_edges := filter (\<lambda>e. fst e \<noteq> p) (cg_edges (cw_graph w))\<rparr>\<rparr>"
    using m(1) run True by simp_all
  have "h' = filter (\<lambda>i. fst i \<notin> {p}) h" by (auto simp: h' map_erase_def intro: filter_cong)
  then show ?thesis
    by (rule that) (use m(2) current_waits(1) [OF ok] p in \<open>auto simp: h' w'\<close>)
next
  case False
  let ?gone = "dependents p (cg_edges (cw_graph w))"
  have m: "(h', w') = (filter (\<lambda>i. fst i \<notin> ?gone) h,
      w\<lparr>cw_current := remove1 p (cw_current w),
        cw_graph := (cw_graph w)\<lparr>cg_nodes := filter (\<lambda>q. q \<notin> ?gone) (cg_nodes (cw_graph w)),
          cg_edges := filter (\<lambda>e. fst e \<notin> ?gone \<and> snd e \<notin> ?gone) (cg_edges (cw_graph w))\<rparr>\<rparr>)"
    and ok': "walker_ok (h', w')"
  proof -
    have "Mark p False (h, w) = Inr (h', w')" using run False by simp
    from Mark_failed_ok(1) [OF ok p this] show "(h', w') = (filter (\<lambda>i. fst i \<notin> ?gone) h,
      w\<lparr>cw_current := remove1 p (cw_current w),
        cw_graph := (cw_graph w)\<lparr>cg_nodes := filter (\<lambda>q. q \<notin> ?gone) (cg_nodes (cw_graph w)),
          cg_edges := filter (\<lambda>e. fst e \<notin> ?gone \<and> snd e \<notin> ?gone) (cg_edges (cw_graph w))\<rparr>\<rparr>)"
      "walker_ok (h', w')" by blast+
  qed
  have "?gone \<subseteq> set (cg_nodes (cw_graph w))"
  proof
    fix q assume "q \<in> ?gone"
    then have "(p, q) \<in> (set (cg_edges (cw_graph w)))\<^sup>*" by (simp add: dependents_def)
    then show "q \<in> set (cg_nodes (cw_graph w))"
      using current_waits(1) [OF ok, of p] p group_okD(7) [OF walker_okD(1) [OF ok]]
      by (cases rule: rtranclE) (auto simp: subset_iff intro: rev_image_eqI)
  qed
  then show ?thesis by (intro that [of ?gone]) (use m ok' in auto)
qed

lemma RunItem_end_inv:
  assumes inv: "exec_inv s" and p: "p \<in> set (ex_running s)"
    and safe: "ret \<or> distinct (map snd (cg_edges (ex_group s))) \<or> (\<exists>t. RunItem_end p ret s = Inr t)"
  obtains t where "RunItem_end p ret s = Inr t" "exec_inv t"
proof -
  note d = exec_invD [OF inv]
  obtain w where w: "ex_walker s = Some w" using d(6) p by fastforce
  note ws = walker_stateD [OF d(7) [OF w]]
  have cur: "p \<in> set (cw_current w)" using ws(5) p by auto
  have "p \<in> set (cg_nodes (cw_graph w))" using current_waits(1) [OF ws(1)] cur by auto
  then have "p \<in> fst ` set (ex_heap s)" using group_okD(4) [OF walker_okD(1) [OF ws(1)]] by auto
  then have "map_of (ex_heap s) p \<noteq> None" by (simp add: map_of_eq_None_iff)
  then obtain i where i: "item_at (ex_heap s) p = Inr i" by (auto simp: item_at_def)
  have "\<exists>u. Mark p ret (ex_heap s, w) = Inr u"
  proof (cases ret)
    case True
    then show ?thesis using Mark_success [OF ws(1) cur] by simp
  next
    case False
    consider "distinct (map snd (cg_edges (ex_group s)))" | t where "RunItem_end p ret s = Inr t"
      using safe False by blast
    then show ?thesis
    proof cases
      case 1
      then show ?thesis using Mark_failed_ok(2) [OF ws(1) cur] ws(3) False by simp
    next
      case 2
      then show ?thesis using w i by (cases "Mark p ret (ex_heap s, w)")
        (simp_all add: RunItem_end_def with_walker_def Let_def)
    qed
  qed
  then obtain h' w' where m: "Mark p ret (ex_heap s, w) = Inr (h', w')" by auto
  obtain X P where sh: "h' = filter (\<lambda>i. fst i \<notin> X) (ex_heap s)" "X \<subseteq> set (cg_nodes (cw_graph w))"
    "walker_ok (h', w')" "cw_current w' = remove1 p (cw_current w)"
    "set (cg_nodes (cw_graph w')) \<subseteq> set (cg_nodes (cw_graph w))"
    "cg_edges (cw_graph w') = filter P (cg_edges (cw_graph w))"
    by (rule Mark_shrinks [OF ws(1) cur m])
  have busy: "ex_notify_end s \<Longrightarrow> UserCancel (ex_task s)"
    using ws(8) cur by (cases "UserCancel (ex_task s)") (auto simp: Walker_Finish_def)
  let ?s = "s\<lparr>ex_running := remove1 p (ex_running s), ex_heap := h', ex_walker := Some w'\<rparr>"
  let ?t = "if Walker_Finish w'
            then (if \<not> ex_notify_end ?s
                  then ?s\<lparr>ex_notify_end := True, ex_refs := ex_refs ?s - 1,
                         ex_task := NotifyFinish (ex_task ?s)\<rparr>
                  else ?s)
            else ?s\<lparr>ex_starting := ex_starting ?s + 1\<rparr>"
  have run: "RunItem_end p ret s = Inr ?t"
    using i w m by (simp add: RunItem_end_def with_walker_def Let_def)
  have fields: "ex_heap ?t = h'" "ex_group ?t = ex_group s" "ex_walker ?t = Some w'"
    "ex_posted ?t = ex_posted s" "ex_running ?t = remove1 p (ex_running s)"
    "UserCancel (ex_task ?t) = UserCancel (ex_task s)"
    "ex_notify_end ?t = (ex_notify_end s \<or> Walker_Finish w')"
    "\<not> Walker_Finish w' \<Longrightarrow> ex_starting ?t > 0"
    "ex_refs ?t = (if ex_notify_end ?t then 0 else 1)"
    using d(4) by auto
  have "\<exists>cs. task_calls ?t cs \<and> follows (at_observers (ex_task ?t)) cs (ex_task ?t)"
  proof -
    obtain cs where cs: "task_calls s cs" "follows (at_observers (ex_task s)) cs (ex_task s)"
      using d(3) by blast
    show ?thesis
    proof (cases "Walker_Finish w' \<and> \<not> ex_notify_end s")
      case True
      then have "cs = [CallStart]" using cs(1) w by (simp add: task_calls_def)
      then show ?thesis using notify_simps(2) [OF cs(2)] True
        by (intro exI [of _ "[CallStart, CallFinish kFinish]"]) (simp add: task_calls_def)
    next
      case False
      then show ?thesis using cs w by (intro exI [of _ cs]) (auto simp: task_calls_def)
    qed
  qed
  then obtain cs where "task_calls ?t cs" "follows (at_observers (ex_task ?t)) cs (ex_task ?t)"
    by blast
  moreover have "walker_state ?t w'"
  proof -
    have rem: "set (remove1 p (ex_running s)) = set (ex_running s) - {p}"
      "set (remove1 p (cw_current w)) = set (cw_current w) - {p}" "p \<notin> set (ex_posted s)"
      using ws(4) p walker_okD(3) [OF ws(1)] by (auto simp: set_remove1_eq)
    have "distinct (map snd (cg_edges (cw_graph w')))" if "distinct (map snd (cg_edges (ex_group s)))"
      unfolding sh(6) by (rule distinct_map_filter [OF ws(3) [OF that]])
    moreover have "cw_runnable w' = []" if "Walker_Finish w'" using that by (simp add: Walker_Finish_def)
    moreover have "distinct (ex_posted s @ remove1 p (ex_running s))"
      using ws(4) by (auto dest: notin_set_remove1)
    ultimately show ?thesis
      unfolding walker_state_def fields(1-7)
      using sh(3,5) ws(2,5,6) rem busy fields(8) unfolding sh(4) by auto
  qed
  moreover have "group_ok (h', ex_group s)"
    unfolding sh(1) by (rule group_ok_shrink [OF d(1)]) (use sh(2) ws(2) in blast)
  ultimately have "exec_inv ?t"
    using d(2) fields by (intro exec_invI [where w = w']) auto
  with run show ?thesis by (rule that)
qed

lemma delete_walker_ok:
  assumes inv: "exec_inv s" and keys: "map_keys_ok h'"
    and kept: "fst ` set (ex_heap s) \<subseteq> fst ` set h'"
  obtains X where "delete_walker (ex_walker s) h' = Inr (filter (\<lambda>i. fst i \<notin> X) h')"
    "X \<subseteq> fst ` set (ex_heap s)" "X \<inter> set (cg_nodes (ex_group s)) = {}"
proof (cases "ex_walker s")
  case None
  then show ?thesis by (intro that [of "{}"]) (simp_all add: delete_walker_def)
next
  case (Some w)
  note ws = walker_stateD [OF exec_invD(7) [OF inv Some]]
  note g = group_okD [OF walker_okD(1) [OF ws(1)]]
  have "for_each delete_item (cg_nodes (cw_graph w)) h' =
      Inr (filter (\<lambda>i. fst i \<notin> set (cg_nodes (cw_graph w))) h')"
    by (rule delete_items_ok [OF keys g(2)]) (use g(4) kept in blast)
  then show ?thesis
    by (intro that [of "set (cg_nodes (cw_graph w))"])
      (use g(4) ws(2) Some in \<open>simp_all add: delete_walker_def\<close>)
qed

lemma StartRun_inv:
  assumes alloc: "allocates fresh" and inv: "exec_inv s" and "can DoStartRun s" and "fresh_task task"
  obtains t where "StartRun fresh task s = Inr t" "exec_inv t"
proof -
  note d = exec_invD [OF inv]
  let ?g = "ex_group s"
  obtain f h' w where n: "Walker_new fresh (ex_heap s, ?g) = Inr (h', w)" "walker_ok (h', w)"
    "cw_current w = []" "inj_on f (set (cg_nodes ?g))" "cg_nodes (cw_graph w) = map f (cg_nodes ?g)"
    "mset (cg_edges (cw_graph w)) = image_mset (\<lambda>(a, b). (f a, f b)) (mset (cg_edges ?g))"
    "group_ok (h', ?g)"
    "\<forall>p \<in> set (cg_nodes ?g). map_of h' (f p) = map_of (ex_heap s) p \<and> f p \<notin> fst ` set (ex_heap s)"
    "\<forall>p \<in> fst ` set (ex_heap s). map_of h' p = map_of (ex_heap s) p"
    by (rule Walker_new_ok [OF alloc d(1,2)])
  have "fst ` set (ex_heap s) \<subseteq> fst ` set h'"
  proof
    fix p assume "p \<in> fst ` set (ex_heap s)"
    moreover from this have "map_of h' p = map_of (ex_heap s) p" using n(9) by blast
    ultimately have "map_of h' p \<noteq> None" by (simp add: map_of_eq_None_iff)
    then show "p \<in> fst ` set h'" by (simp add: map_of_eq_None_iff)
  qed
  then obtain X where X: "delete_walker (ex_walker s) h' = Inr (filter (\<lambda>i. fst i \<notin> X) h')"
    "X \<subseteq> fst ` set (ex_heap s)" "X \<inter> set (cg_nodes ?g) = {}"
    by (rule delete_walker_ok [OF inv group_okD(1) [OF n(7)]])
  let ?h = "filter (\<lambda>i. fst i \<notin> X) h'"
  let ?s = "s\<lparr>ex_task := NotifyStart task, ex_heap := ?h, ex_walker := Some w, ex_notify_end := False\<rparr>"
  let ?t = "if Walker_Finish w
            then ?s\<lparr>ex_notify_end := True, ex_task := NotifyFinish (ex_task ?s)\<rparr>
            else ?s\<lparr>ex_refs := ex_refs ?s + 1, ex_starting := ex_starting ?s + 1\<rparr>"
  have quiet: "ex_posted s = []" "ex_running s = []" "ex_notify_end s" "ex_delegate s"
    using assms(3) by auto
  have run: "StartRun fresh task s = Inr ?t"
    using quiet n(1) X(1)
    by (simp add: StartRun_def Executer_Reset_def with_walker_def Let_def)
  have apart: "set (cg_nodes (cw_graph w)) \<inter> fst ` set (ex_heap s) = {}" using n(5,8) by auto
  have "group_ok (?h, cw_graph w)"
    by (rule group_ok_shrink [OF walker_okD(1) [OF n(2)]]) (use apart X(2) in blast)
  then have wok: "walker_ok (?h, w)" using n(2) by (simp add: walker_ok_def)
  have tree: "distinct (map snd (cg_edges (cw_graph w)))" if dist: "distinct (map snd (cg_edges ?g))"
  proof -
    have "mset (map snd (cg_edges (cw_graph w))) =
        image_mset snd (image_mset (\<lambda>(a, b). (f a, f b)) (mset (cg_edges ?g)))"
      by (simp add: n(6))
    also have "\<dots> = mset (map f (map snd (cg_edges ?g)))"
      by (simp add: image_mset.compositionality comp_def case_prod_beta)
    finally have "mset (map snd (cg_edges (cw_graph w))) = mset (map f (map snd (cg_edges ?g)))" .
    moreover have "distinct (map f (map snd (cg_edges ?g)))"
      unfolding distinct_map [of f] set_map
      using dist inj_on_subset [OF n(4) group_okD(7) [OF d(1)]] by blast
    ultimately show ?thesis using mset_eq_imp_distinct_iff by blast
  qed
  have base: "follows (at_observers task) [] task"
    using assms(4) by (simp add: follows_def fresh_task_def call_events_def)
  have "walker_state ?t w"
    unfolding walker_state_def using wok apart group_okD(4) [OF d(1)] quiet n(3) tree
    by (auto simp: Walker_Finish_def)
  moreover have "follows (at_observers (ex_task ?t)) (if Walker_Finish w then [CallStart, CallFinish kFinish]
      else [CallStart]) (ex_task ?t)"
    using notify_simps(1) [OF base] notify_simps(2) [OF notify_simps(1) [OF base]] by simp
  moreover have "task_calls ?t (if Walker_Finish w then [CallStart, CallFinish kFinish] else [CallStart])"
    by (simp add: task_calls_def)
  moreover have "group_ok (?h, ?g)" by (rule group_ok_shrink [OF n(7) X(3)])
  ultimately have "exec_inv ?t" using d(2,4) quiet by (intro exec_invI [where w = w]) auto
  with run show ?thesis by (rule that)
qed

lemma exec_step_inv:
  assumes "allocates fresh" and "exec_inv s" and "can a s" and "fresh_task task"
    and "\<And>p. a = DoEnd p False \<Longrightarrow> distinct (map snd (cg_edges (ex_group s))) \<or>
      (\<exists>t. exec fresh task a s = Inr t)"
  shows "\<exists>t. exec fresh task a s = Inr t \<and> exec_inv t"
proof (cases a)
  case DoStartRun
  then show ?thesis using StartRun_inv [OF assms(1,2) _ assms(4)] assms(3) by (metis exec.simps(1))
next
  case DoCancel
  then show ?thesis using cancel_inv [OF assms(2)] by simp
next
  case DoOwner
  obtain t where "run_loop_once (ex_task s) = Inr t" "exec_inv (s\<lparr>ex_task := t\<rparr>)"
    by (rule owner_inv [OF assms(2)])
  then show ?thesis using DoOwner by simp
next
  case DoStartAll
  obtain t where "StartAllRunnable s = Inr t" "exec_inv t"
    by (rule StartAllRunnable_inv [OF assms(2)]) (use assms(3) DoStartAll in auto)
  then show ?thesis using DoStartAll by simp
next
  case (DoBegin p)
  obtain t where "RunItem_begin p s = Inr t" "exec_inv t"
    by (rule RunItem_begin_inv [OF assms(2)]) (use assms(3) DoBegin in auto)
  then show ?thesis using DoBegin by simp
next
  case (DoEnd p ret)
  have "p \<in> set (ex_running s)" using assms(3) DoEnd by simp
  moreover have "ret \<or> distinct (map snd (cg_edges (ex_group s))) \<or> (\<exists>t. RunItem_end p ret s = Inr t)"
    using assms(5) DoEnd by (cases ret) auto
  ultimately obtain t where "RunItem_end p ret s = Inr t" "exec_inv t"
    by (rule RunItem_end_inv [OF assms(2)])
  then show ?thesis using DoEnd by simp
qed

definition Executer_ready :: "items \<Rightarrow> CalcGroup \<Rightarrow> Executer" where
  "Executer_ready h g = (Executer_new h g)\<lparr>ex_delegate := True\<rparr>"

lemma Executer_ready_set_delegate: "set_delegate (Executer_new h g) = Inr (Executer_ready h g)"
  by (simp add: set_delegate_def Executer_new_def Executer_ready_def)

lemma exec_reach_inv:
  assumes "allocates fresh" and "group_ok (h, g)" and "acyclic (set (cg_edges g))"
    and "exec_reach fresh (Executer_ready h g) s"
  shows "exec_inv s"
  using assms(4)
proof (induction rule: exec_reach.induct)
  case exec_new
  have "follows [] [] AsyncTask_new" by (simp add: follows_def AsyncTask_new_def call_events_def)
  then have "\<exists>cs. task_calls (Executer_ready h g) cs \<and> follows [] cs AsyncTask_new"
    by (intro exI [of _ "[]"]) (simp add: task_calls_def Executer_ready_def Executer_new_def)
  then show ?case
    using assms(2,3) by (simp add: exec_inv_def Executer_ready_def Executer_new_def AsyncTask_new_def)
next
  case (exec_next s a task t)
  have "\<exists>t'. exec fresh task a s = Inr t' \<and> exec_inv t'"
    by (rule exec_step_inv [OF assms(1) exec_next.IH exec_next.hyps(2,3)])
      (use exec_next.hyps(4) in blast)
  then show ?case using exec_next.hyps(4) by simp
qed


text \<open>After a cancellation the end is reported while other items may still be running.  A
  \<open>StartRun\<close> that follows the report deletes the items of the old walker, and an item that was
  still about to run is then used after its deletion.\<close>

theorem restart_uses_deleted_item:
  assumes "allocates fresh" and "group_ok (h, g)" and "acyclic (set (cg_edges g))"
    and "exec_reach fresh (Executer_ready h g) s"
    and "p \<in> set (ex_running s)" and "StartRun fresh task s = Inr t"
  shows "p \<in> set (ex_running t) \<and> RunItem_end p ret t = Inl Undefined"
proof -
  have inv: "exec_inv s" by (rule exec_reach_inv [OF assms(1-4)])
  note d = exec_invD [OF inv]
  obtain w where w: "ex_walker s = Some w" using d(6) assms(5) by fastforce
  note ws = walker_stateD [OF d(7) [OF w]]
  note g = group_okD [OF walker_okD(1) [OF ws(1)]]
  have p: "p \<in> set (cg_nodes (cw_graph w))"
    using current_waits(1) [OF ws(1)] ws(5) assms(5) by auto
  obtain f h' w' where n: "Walker_new fresh (ex_heap s, ex_group s) = Inr (h', w')"
    "group_ok (h', ex_group s)" "\<forall>p \<in> fst ` set (ex_heap s). map_of h' p = map_of (ex_heap s) p"
    by (rule Walker_new_ok [OF assms(1) d(1,2)])
  have "set (cg_nodes (cw_graph w)) \<subseteq> fst ` set h'"
  proof
    fix q assume "q \<in> set (cg_nodes (cw_graph w))"
    then have q: "q \<in> fst ` set (ex_heap s)" using g(4) by blast
    then have "map_of h' q = map_of (ex_heap s) q" using n(3) by blast
    then show "q \<in> fst ` set h'" using q by (metis map_of_eq_None_iff)
  qed
  then have del: "for_each delete_item (cg_nodes (cw_graph w)) h' =
      Inr (filter (\<lambda>i. fst i \<notin> set (cg_nodes (cw_graph w))) h')"
    by (rule delete_items_ok [OF group_okD(1) [OF n(2)] g(2)])
  have t: "ex_heap t = filter (\<lambda>i. fst i \<notin> set (cg_nodes (cw_graph w))) h'"
    "ex_running t = ex_running s"
    using assms(6) n(1) w del
    by (auto simp: StartRun_def Executer_Reset_def delete_walker_def with_walker_def Let_def
        split: if_splits)
  have "map_of (ex_heap t) p = None" unfolding t(1) using p by (auto simp: map_of_eq_None_iff)
  then show ?thesis using assms(5) t(2) by (simp add: RunItem_end_def item_at_def)
qed

text \<open>A run of two independent items, canceled while the first one runs.\<close>

definition two_items :: items where
  "two_items = [(1, CalcItem_new ''a'' 1), (2, CalcItem_new ''b'' 2)]"

definition two_nodes :: CalcGroup where
  "two_nodes = \<lparr>cg_name = ''g'', cg_nodes = [1, 2], cg_edges = []\<rparr>"

definition canceled_run :: Executer where
  "canceled_run = (Executer_ready two_items two_nodes)\<lparr>
     ex_heap := two_items @ [(3, CalcItem_new ''a'' 1), (4, CalcItem_new ''b'' 2)],
     ex_task := NotifyCancel (Task_Cancel (NotifyStart AsyncTask_new)),
     ex_walker := Some \<lparr>cw_graph = \<lparr>cg_name = ''g_walker'', cg_nodes = [3, 4], cg_edges = []\<rparr>,
       cw_runnable = [], cw_current = [3, 4]\<rparr>,
     ex_running := [3]\<rparr>"

lemma two_nodes_ok: "group_ok (two_items, two_nodes)" "acyclic (set (cg_edges two_nodes))"
  by (auto simp: group_ok_def two_items_def two_nodes_def acyclic_def)

lemma canceled_run_reached: "exec_reach next_free (Executer_ready two_items two_nodes) canceled_run"
proof -
  let ?s0 = "Executer_ready two_items two_nodes"
  let ?h = "two_items @ [(3, CalcItem_new ''a'' 1), (4, CalcItem_new ''b'' 2)]"
  let ?w = "\<lambda>r c. Some \<lparr>cw_graph = \<lparr>cg_name = ''g_walker'', cg_nodes = [3, 4], cg_edges = []\<rparr>,
      cw_runnable = r, cw_current = c\<rparr>"
  let ?s1 = "?s0\<lparr>ex_heap := ?h, ex_task := NotifyStart AsyncTask_new, ex_notify_end := False,
      ex_walker := ?w [3, 4] [], ex_refs := 1, ex_starting := 1\<rparr>"
  let ?s2 = "?s1\<lparr>ex_walker := ?w [] [3, 4], ex_posted := [3, 4], ex_starting := 0\<rparr>"
  let ?s3 = "?s2\<lparr>ex_posted := [4], ex_running := [3]\<rparr>"
  let ?s4 = "?s3\<lparr>ex_task := Task_Cancel (ex_task ?s3)\<rparr>"
  note reach = exec_next [where task = AsyncTask_new]
  have task: "fresh_task AsyncTask_new" by (simp add: fresh_task_def AsyncTask_new_def)
  have s0: "ex_delegate ?s0" "ex_notify_end ?s0" "ex_posted ?s0 = []" "ex_running ?s0 = []"
    "ex_heap ?s0 = two_items" "ex_group ?s0 = two_nodes" "ex_walker ?s0 = None" "ex_refs ?s0 = 0"
    "ex_starting ?s0 = 0"
    by (simp_all add: Executer_ready_def Executer_new_def)
  have "Walker_new next_free (two_items, two_nodes) = Inr (?h, the (?w [3, 4] []))"
    by (simp add: Walker_new_def NoCycle_def FreeNode_def Clone_def CalcItem_Clone_def
        item_at_def next_free_def CalcItem_new_def before_range_def in_range_def behind_range_def
        two_items_def two_nodes_def)
  then have "exec next_free AsyncTask_new DoStartRun ?s0 = Inr ?s1"
    using s0 by (simp add: StartRun_def Executer_Reset_def delete_walker_def with_walker_def
        Walker_Finish_def)
  then have r1: "exec_reach next_free ?s0 ?s1" by (rule reach [OF exec_new _ task, rotated]) (simp add: s0)
  have uc: "\<not> UserCancel (NotifyStart AsyncTask_new)" by (simp add: UserCancel_def AsyncTask_new_def NotifyStart_def PostTask_def)
  have "exec next_free AsyncTask_new DoStartAll ?s1 = Inr ?s2"
    using uc s0 by (simp add: StartAllRunnable_def with_walker_def StartAll_def Let_def)
  then have r2: "exec_reach next_free ?s0 ?s2" by (rule reach [OF r1 _ task, rotated]) (simp add: s0)
  have "exec next_free AsyncTask_new (DoBegin 3) ?s2 = Inr ?s3"
    using uc s0 by (simp add: RunItem_begin_def Let_def)
  then have r3: "exec_reach next_free ?s0 ?s3" by (rule reach [OF r2 _ task, rotated]) (simp add: s0)
  have r4: "exec_reach next_free ?s0 ?s4" by (rule reach [OF r3 _ task, of DoCancel]) simp_all
  have "exec next_free AsyncTask_new (DoBegin 4) ?s4 = Inr canceled_run"
    using s0 by (simp add: RunItem_begin_def Let_def notify_canceled_def canceled_run_def
        UserCancel_def Task_Cancel_def Executer_ready_def Executer_new_def)
  then show ?thesis by (rule reach [OF r4 _ task, rotated]) (simp add: s0)
qed


lemma restart_uses_deleted_item_witness:
  "\<exists>t. StartRun next_free AsyncTask_new canceled_run = Inr t \<and> RunItem_end 3 True t = Inl Undefined"
proof -
  have "\<exists>t. StartRun next_free AsyncTask_new canceled_run = Inr t"
    by (simp add: StartRun_def Executer_Reset_def delete_walker_def with_walker_def
        Walker_Finish_def Walker_new_def NoCycle_def FreeNode_def Clone_def CalcItem_Clone_def
        item_at_def next_free_def CalcItem_new_def before_range_def in_range_def behind_range_def
        two_items_def two_nodes_def canceled_run_def
        Executer_ready_def Executer_new_def delete_item_def map_erase_def Let_def)
  then obtain t where t: "StartRun next_free AsyncTask_new canceled_run = Inr t" by blast
  from restart_uses_deleted_item [OF allocates_next_free two_nodes_ok canceled_run_reached _ this, of 3]
  show ?thesis using t by (auto simp: canceled_run_def)
qed

end
