(* ===== verification/Doubles.thy ===== *)
theory Doubles
  imports Complex_Main Prelude
begin

text \<open>
  Conversions from \<open>double\<close> to the integer types.  A double is a real number here, so that
  rounding is left out.  A conversion cuts off the fraction; converting a value that the
  integer type does not have is undefined.
\<close>

definition to_int64 :: "real \<Rightarrow> int" where
  "to_int64 x = (if x < 0 then \<lceil>x\<rceil> else \<lfloor>x\<rfloor>)"

definition to_word :: "real \<Rightarrow> 'a::len word res" where
  "to_word x = (let n = to_int64 x in check Undefined (0 \<le> n \<and> n < 2 ^ LENGTH('a)) (Inr (word_of_int n)))"

definition to_int32 :: "real \<Rightarrow> int res" where
  "to_int32 x = check Undefined (in_int32 (to_int64 x)) (Inr (to_int64 x))"

lemma to_int64_range: "a \<le> 0 \<Longrightarrow> 0 < b \<Longrightarrow> a \<le> to_int64 x \<and> to_int64 x < b \<longleftrightarrow> of_int a - 1 < x \<and> x < of_int b"
  by (auto simp: to_int64_def less_ceiling_iff ceiling_less_iff floor_less_iff le_floor_iff) linarith+

lemma to_word_total:
  "-1 < x \<Longrightarrow> x < 2 ^ LENGTH('a) \<Longrightarrow> to_word x = Inr (word_of_int (to_int64 x) :: 'a::len word)"
  using to_int64_range [of 0 "2 ^ LENGTH('a)" x] by (simp add: to_word_def Let_def check_def)

lemma to_int64_of_int [simp]: "to_int64 (of_int n) = n" "to_int64 (of_nat k) = int k" "to_int64 (numeral m) = numeral m"
  "to_int64 0 = 0" "to_int64 1 = 1"
  by (simp_all add: to_int64_def)

end
