(* ===== verification/Device_Delegate.thy ===== *)
theory Device_Delegate
  imports Usb_Port Device_Error
begin

text \<open>
  The interface to the hardware, \<open>DeviceDelegate\<close> (canscope/device/device_delegate.h): a record
  with one function per virtual method, over the state \<open>'d\<close> of the hardware, and its
  implementation over the USB port, \<open>UsbPortDeviceDelegate\<close>
  (usb_port_device_delegate.h, usb_port_device_delegate.cc).

  The locale \<open>device_delegate\<close> states what the clients of the interface rely on: requests that
  the delegate accepts never go wrong, keep its invariant and give back as many bytes as
  there were.
\<close>

record 'd DeviceDelegate =
  dd_EnumDevices :: "'d \<Rightarrow> (Error \<times> string list \<times> 'd) res"
  dd_OpenDevice :: "string \<Rightarrow> 'd \<Rightarrow> (Error \<times> 'd) res"
  dd_CloseDevice :: "'d \<Rightarrow> (Error \<times> 'd) res"
  dd_DownloadFPGA :: "mem \<Rightarrow> int \<Rightarrow> 'd \<Rightarrow> (Error \<times> 'd) res"
  dd_WriteDevice :: "u32 \<Rightarrow> mem \<Rightarrow> int \<Rightarrow> 'd \<Rightarrow> (Error \<times> 'd) res"
  dd_ReadDevice :: "u32 \<Rightarrow> mem \<Rightarrow> int \<Rightarrow> 'd \<Rightarrow> (Error \<times> mem \<times> 'd) res"
  dd_GetDeviceInfo :: "RegisterMemory \<Rightarrow> 'd \<Rightarrow> (Error \<times> RegisterMemory \<times> 'd) res"
  dd_ReadOscData :: "mem \<Rightarrow> int \<Rightarrow> 'd \<Rightarrow> (Error \<times> mem \<times> 'd) res"
  dd_ReadFrameData :: "mem \<Rightarrow> int \<Rightarrow> 'd \<Rightarrow> (Error \<times> mem \<times> 'd) res"

subsection \<open>What a client relies on\<close>

locale device_delegate =
  fixes del :: "'d DeviceDelegate" and inv :: "'d \<Rightarrow> bool"
    and register :: "u32 \<Rightarrow> int \<Rightarrow> bool" and transfer :: "int \<Rightarrow> bool"
  assumes write_ok: "inv d \<Longrightarrow> register addr sz \<Longrightarrow> sz \<le> int (length b) \<Longrightarrow>
      \<exists>e d'. dd_WriteDevice del addr b sz d = Inr (e, d') \<and> inv d'"
    and read_ok: "inv d \<Longrightarrow> register addr sz \<Longrightarrow> sz = int (length b) \<Longrightarrow>
      \<exists>e b' d'. dd_ReadDevice del addr b sz d = Inr (e, b', d') \<and> inv d' \<and> length b' = length b"
    and read_osc: "inv d \<Longrightarrow> transfer sz \<Longrightarrow> sz = int (length b) \<Longrightarrow>
      \<exists>e b' d'. dd_ReadOscData del b sz d = Inr (e, b', d') \<and> inv d' \<and> length b' = length b"
    and read_frame: "inv d \<Longrightarrow> transfer sz \<Longrightarrow> sz = int (length b) \<Longrightarrow>
      \<exists>e b' d'. dd_ReadFrameData del b sz d = Inr (e, b', d') \<and> inv d' \<and> length b' = length b"
begin

text \<open>Reading the register \<open>rm\<close> and writing it, as the collecters do.\<close>

lemma read_register:
  assumes "inv d" and "register (rm_start_addr rm) (RegisterMemory_size rm)" and "rm_memory rm \<noteq> []"
  shows "\<exists>e b d'. and_then (RegisterMemory_buffer rm) (\<lambda>m.
      dd_ReadDevice del (rm_start_addr rm) m (RegisterMemory_size rm) d) = Inr (e, b, d') \<and>
    inv d' \<and> length b = length (rm_memory rm)"
  using read_ok [OF assms(1,2)] assms(3) by (simp add: RegisterMemory_buffer_def RegisterMemory_size_def)

lemma write_register:
  assumes "inv d" and "register (rm_start_addr rm) (RegisterMemory_size rm)" and "rm_memory rm \<noteq> []"
  shows "\<exists>e d'. and_then (RegisterMemory_buffer rm) (\<lambda>m.
      dd_WriteDevice del (rm_start_addr rm) m (RegisterMemory_size rm) d) = Inr (e, d') \<and> inv d'"
  using write_ok [OF assms(1,2)] assms(3) by (simp add: RegisterMemory_buffer_def RegisterMemory_size_def)

end

subsection \<open>The delegate over the USB port\<close>

text \<open>\<open>EnumDevices\<close> asks the SetupAPI of Windows, a parameter.\<close>

definition Usb_EnumDevices ::
  "('s \<Rightarrow> string list option \<times> 's) \<Rightarrow> 's UsbPort \<Rightarrow> (Error \<times> string list \<times> 's UsbPort) res" where
  "Usb_EnumDevices enum p =
     (case enum (up_os p) of
        (Some devices, os) \<Rightarrow> Inr (OK, devices, p\<lparr>up_os := os\<rparr>)
      | (None, os) \<Rightarrow> Inr (ERR_DEVICE_OPEN, [], p\<lparr>up_os := os\<rparr>))"

definition Usb_OpenDevice :: "'s windows \<Rightarrow> string \<Rightarrow> 's UsbPort \<Rightarrow> (Error \<times> 's UsbPort) res" where
  "Usb_OpenDevice win device_path p =
     and_then (OpenDevice win device_path p) (\<lambda>(ret, p).
       Inr (if ret then OK else ERR_DEVICE_OPEN, p))"

definition Usb_CloseDevice :: "'s windows \<Rightarrow> 's UsbPort \<Rightarrow> (Error \<times> 's UsbPort) res" where
  "Usb_CloseDevice win p =
     (case CloseDevice win p of (ret, p) \<Rightarrow> Inr (if ret then OK else ERR_READ_DEVICE, p))"

definition Usb_DownloadFPGA ::
  "'s windows \<Rightarrow> mem \<Rightarrow> int \<Rightarrow> 's UsbPort \<Rightarrow> (Error \<times> 's UsbPort) res" where
  "Usb_DownloadFPGA win buffer sz p =
     and_then (DownloadFPGA win buffer sz p) (\<lambda>(ret, p).
       Inr (if ret then OK else ERR_WRITE_DEVICE, p))"

definition Usb_WriteDevice ::
  "'s windows \<Rightarrow> u32 \<Rightarrow> mem \<Rightarrow> int \<Rightarrow> 's UsbPort \<Rightarrow> (Error \<times> 's UsbPort) res" where
  "Usb_WriteDevice win addr buffer sz p =
     and_then (WriteEP1 win addr kUsbModelNormal buffer sz p) (\<lambda>(ret, p).
       Inr (if ret then OK else ERR_WRITE_DEVICE, p))"

definition Usb_ReadDevice ::
  "'s windows \<Rightarrow> u32 \<Rightarrow> mem \<Rightarrow> int \<Rightarrow> 's UsbPort \<Rightarrow> (Error \<times> mem \<times> 's UsbPort) res" where
  "Usb_ReadDevice win addr buffer sz p =
     and_then (ReadEP1 win addr kUsbModelNormal buffer sz p) (\<lambda>(ret, b, p).
       Inr (if ret then OK else ERR_READ_DEVICE, b, p))"

definition Usb_GetDeviceInfo ::
  "'s windows \<Rightarrow> RegisterMemory \<Rightarrow> 's UsbPort \<Rightarrow> (Error \<times> RegisterMemory \<times> 's UsbPort) res" where
  "Usb_GetDeviceInfo win device_info p =
     and_then (RegisterMemory_buffer device_info) (\<lambda>m.
     and_then (UsbPort_GetDeviceInfo win m (RegisterMemory_size device_info) p) (\<lambda>(ret, b, p).
       Inr (if ret then OK else ERR_READ_DEVICE, device_info\<lparr>rm_memory := b\<rparr>, p)))"

definition Usb_ReadOscData ::
  "'s windows \<Rightarrow> mem \<Rightarrow> int \<Rightarrow> 's UsbPort \<Rightarrow> (Error \<times> mem \<times> 's UsbPort) res" where
  "Usb_ReadOscData win buffer sz p =
     and_then (ReadEP3 win kScopeReadAddr kUsbModelStream buffer sz p) (\<lambda>(ret, b, p).
       Inr (if ret then OK else ERR_READ_DEVICE, b, p))"

definition Usb_ReadFrameData ::
  "'s windows \<Rightarrow> mem \<Rightarrow> int \<Rightarrow> 's UsbPort \<Rightarrow> (Error \<times> mem \<times> 's UsbPort) res" where
  "Usb_ReadFrameData win buffer sz p =
     and_then (ReadEP3 win kFramdReadAddr kUsbModelStream buffer sz p) (\<lambda>(ret, b, p).
       Inr (if ret then OK else ERR_READ_DEVICE, b, p))"

definition UsbPortDeviceDelegate ::
  "('s \<Rightarrow> string list option \<times> 's) \<Rightarrow> 's windows \<Rightarrow> 's UsbPort DeviceDelegate" where
  "UsbPortDeviceDelegate enum win =
     \<lparr>dd_EnumDevices = Usb_EnumDevices enum, dd_OpenDevice = Usb_OpenDevice win,
      dd_CloseDevice = Usb_CloseDevice win, dd_DownloadFPGA = Usb_DownloadFPGA win,
      dd_WriteDevice = Usb_WriteDevice win, dd_ReadDevice = Usb_ReadDevice win,
      dd_GetDeviceInfo = Usb_GetDeviceInfo win, dd_ReadOscData = Usb_ReadOscData win,
      dd_ReadFrameData = Usb_ReadFrameData win\<rparr>"

lemma WriteEP1_total:
  assumes "port_ok p" and "reads_bounded win" and "0 \<le> sz" and "sz \<le> 48" and "sz \<le> int (length b)"
  shows "\<exists>r p'. WriteEP1 win addr mode b sz p = Inr (r, p') \<and> port_ok p'"
proof -
  obtain p1 where p1: "SetCmd WREP1 addr mode (Some b) sz p = Inr p1" "port_ok p1"
    using SetCmd_encodes [OF assms(1,3), of "Some b" WREP1 addr mode] assms(4,5) by auto
  show ?thesis
    using SendCmd_total [OF p1(2) assms(2)] p1(1) assms(4) by (auto simp: WriteEP1_def usb_consts)
qed

lemma ReadEP3_total:
  assumes "port_ok p" and "reads_bounded win" and "0 < sz" and "sz < 2 ^ 31" and "sz \<le> int (length b)"
  shows "\<exists>ok b' p'. ReadEP3 win addr mode b sz p = Inr (ok, b', p') \<and> port_ok p' \<and> length b' = length b"
  using ReadEP3_result [OF assms, of addr mode] by blast

interpretation usb: device_delegate "UsbPortDeviceDelegate enum win"
    "\<lambda>p. port_ok p \<and> reads_bounded win" "\<lambda>addr sz. 0 \<le> sz \<and> sz \<le> 48" "\<lambda>sz. 0 < sz \<and> sz < 2 ^ 31"
  for enum :: "'s \<Rightarrow> string list option \<times> 's" and win :: "'s windows"
proof (unfold_locales, goal_cases)
  case (1 d addr sz b)
  then have "\<exists>r d'. WriteEP1 win addr kUsbModelNormal b sz d = Inr (r, d') \<and> port_ok d'"
    by (intro WriteEP1_total) auto
  then show ?case using 1 by (auto simp: UsbPortDeviceDelegate_def Usb_WriteDevice_def)
next
  case (2 d addr sz b)
  then have "\<exists>ok b' d'. ReadEP1 win addr kUsbModelNormal b sz d = Inr (ok, b', d') \<and> port_ok d' \<and>
      length b' = length b"
    using ReadEP1_result [of d win sz b addr kUsbModelNormal] by auto
  then show ?case using 2 by (auto simp: UsbPortDeviceDelegate_def Usb_ReadDevice_def)
next
  case (3 d sz b)
  then have "\<exists>ok b' d'. ReadEP3 win kScopeReadAddr kUsbModelStream b sz d = Inr (ok, b', d') \<and>
      port_ok d' \<and> length b' = length b" by (intro ReadEP3_total) auto
  then show ?case using 3 by (auto simp: UsbPortDeviceDelegate_def Usb_ReadOscData_def)
next
  case (4 d sz b)
  then have "\<exists>ok b' d'. ReadEP3 win kFramdReadAddr kUsbModelStream b sz d = Inr (ok, b', d') \<and>
      port_ok d' \<and> length b' = length b" by (intro ReadEP3_total) auto
  then show ?case using 4 by (auto simp: UsbPortDeviceDelegate_def Usb_ReadFrameData_def)
qed

end
