(* ===== verification/Data_Collecter.thy ===== *)
theory Data_Collecter
  imports Doubles Threaded_Loop Device_Delegate
begin

text \<open>
  The base of the two collecters (canscope/device/data_collecter.h, data_collecter.cc): a
  threaded loop whose \<open>LoopRunImp\<close> runs the steps of a state machine until one asks for the
  next message loop or for a stop.  The machine, \<open>OnLoopRun\<close>, is a parameter here.  It may
  not return, the value None.
\<close>

datatype LoopState = NEXT_LOOP | IMMEDIATE | STOP

record DataCollecter =
  dc_loop :: ThreadedLoopRun
  dc_stop_by_offine :: bool
  dc_next_loop_delay :: int

text \<open>\<open>ReRun\<close>: the constructor leaves \<open>stop_by_offine_\<close> without a value.\<close>

definition ReRun :: "'a DataCollecter_scheme \<Rightarrow> 'a DataCollecter_scheme" where
  "ReRun s =
     (if dc_stop_by_offine s
      then s\<lparr>dc_loop := Start (dc_loop s), dc_stop_by_offine := False\<rparr> else s)"

text \<open>\<open>SetFreq\<close>, in milliseconds: the quotient is converted to an integer.\<close>

definition SetFreq :: "real \<Rightarrow> 'a DataCollecter_scheme \<Rightarrow> 'a DataCollecter_scheme res" where
  "SetFreq freq s =
     check Undefined (freq \<noteq> 0) (Inr (s\<lparr>dc_next_loop_delay := to_int64 (1000 / freq)\<rparr>))"

text \<open>\<open>Freq\<close>, from the delay in milliseconds: None is the infinity of a division by zero.\<close>

definition Freq :: "'a DataCollecter_scheme \<Rightarrow> real option" where
  "Freq s = (if dc_next_loop_delay s = 0 then None else Some (1 / (of_int (dc_next_loop_delay s) / 1000)))"

text \<open>The delay is rounded down, so that the loop is never slower than asked for, and up to a
  frequency of 500 at most twice as fast.\<close>

lemma SetFreq_Freq:
  assumes "0 < freq" and "freq \<le> 500" and "SetFreq freq s = Inr t"
  shows "\<exists>f. Freq t = Some f \<and> freq \<le> f \<and> f < 2 * freq"
proof -
  define d where "d = \<lfloor>1000 / freq\<rfloor>"
  have t: "dc_next_loop_delay t = d"
    using assms(1,3) by (auto simp: SetFreq_def check_Inr_iff to_int64_def d_def)
  have "2 \<le> 1000 / freq" using assms(1,2) by (simp add: field_simps)
  then have d: "2 \<le> d" "of_int d \<le> 1000 / freq" "1000 / freq < of_int d + 1"
    unfolding d_def by linarith+
  have "freq * of_int d \<le> freq * (1000 / freq)"
    using d(2) assms(1) by (intro mult_left_mono) simp_all
  then have "freq * of_int d \<le> 1000" using assms(1) by simp
  moreover have "1000 < 2 * freq * of_int d"
  proof -
    have "freq * (1000 / freq) < freq * (of_int d + 1)"
      using d(3) assms(1) by (intro mult_strict_left_mono) simp_all
    then have "1000 < freq * (of_int d + 1)" using assms(1) by simp
    also have "\<dots> \<le> freq * (2 * of_int d)" using d(1) assms(1) by (intro mult_left_mono) linarith+
    finally show ?thesis by simp
  qed
  moreover have pos: "0 < d" using d(1) by linarith
  then have "Freq t = Some (1000 / of_int d)" by (simp add: Freq_def t)
  ultimately show ?thesis using pos
    by (simp add: pos_le_divide_eq pos_divide_less_eq)
qed

partial_function (option) LoopRunImp ::
  "('s \<Rightarrow> (LoopState \<times> 's) res option) \<Rightarrow> 's \<Rightarrow> (bool \<times> 's) res option" where
  "LoopRunImp on_loop_run s =
     (case on_loop_run s of
        None \<Rightarrow> None
      | Some (Inl e) \<Rightarrow> Some (Inl e)
      | Some (Inr (state, s)) \<Rightarrow>
          if state = IMMEDIATE then LoopRunImp on_loop_run s
          else Some (Inr (state = NEXT_LOOP, s)))"

subsection \<open>What makes the loop end\<close>

locale collecter =
  fixes on_loop_run :: "'s \<Rightarrow> (LoopState \<times> 's) res option" and ok :: "'s \<Rightarrow> bool"
    and rank :: "'s \<Rightarrow> nat" and bad :: "fault \<Rightarrow> bool"
  assumes progress: "ok s \<Longrightarrow> on_loop_run s = Some (Inr (state, t)) \<Longrightarrow> state \<noteq> STOP \<Longrightarrow>
      ok t \<and> (state = IMMEDIATE \<longrightarrow> rank t < rank s)"
    and answers: "ok s \<Longrightarrow> on_loop_run s \<noteq> None"
    and faults: "ok s \<Longrightarrow> on_loop_run s = Some (Inl e) \<Longrightarrow> bad e"
begin

text \<open>From a good state the loop returns; where it asks to be run again the state is good,
  and what can go wrong is what a single step allows.\<close>

lemma loop_returns:
  "ok s \<Longrightarrow> \<exists>r. LoopRunImp on_loop_run s = Some r \<and>
     (\<forall>t. r = Inr (True, t) \<longrightarrow> ok t) \<and> (\<forall>e. r = Inl e \<longrightarrow> bad e)"
proof (induction "rank s" arbitrary: s rule: less_induct)
  case less
  obtain r where r: "on_loop_run s = Some r" using answers [OF less.prems] by auto
  show ?case
  proof (cases r)
    case (Inl e)
    then have "LoopRunImp on_loop_run s = Some (Inl e)" using r by (subst LoopRunImp.simps) simp
    then show ?thesis using faults [OF less.prems] r Inl by auto
  next
    case (Inr p)
    obtain state t where p: "p = (state, t)" by (cases p)
    have step: "on_loop_run s = Some (Inr (state, t))" using r Inr p by simp
    show ?thesis
    proof (cases "state = IMMEDIATE")
      case True
      then have "ok t" "rank t < rank s" using progress [OF less.prems step] by auto
      moreover have "LoopRunImp on_loop_run s = LoopRunImp on_loop_run t"
        using step True by (subst LoopRunImp.simps) simp
      ultimately show ?thesis using less.hyps [of t] by simp
    next
      case False
      then have "LoopRunImp on_loop_run s = Some (Inr (state = NEXT_LOOP, t))"
        using step by (subst LoopRunImp.simps) simp
      moreover have "state = NEXT_LOOP \<Longrightarrow> ok t" using progress [OF less.prems step] by auto
      ultimately show ?thesis by auto
    qed
  qed
qed

end

end
