(* ===== verification/Osc_Collecter.thy ===== *)
theory Osc_Collecter
  imports Data_Collecter Device_Base Memory_Pool Bulk_Queue
begin

text \<open>
  \<open>OscDataCollecter\<close> (canscope/device/osc_device/osc_data_collecter.h, osc_data_collecter.cc),
  with the configuration that raw data carries (osc_raw_data.h, osc_raw_data.cc).

  What the collecter reads from the outside at one step - the time, the trigger mode and the
  time parameter of the oscilloscope, the address a new buffer gets and the addresses that
  other references keep alive - is the record \<open>env\<close>; its law is \<open>env_ok\<close>.  A reference
  counted raw data is destroyed, and its buffer given back to the pool, once neither the queue
  nor a reader nor anybody else refers to it.  The threads that read the queue do so between
  the steps of the collecter.
\<close>

subsection \<open>Raw data and its configuration\<close>

record 'v OscRawDataDeviceConfig =
  oc_id :: int
  oc_pref :: "'v pref"
  oc_hardware_diff :: bool

definition OscRawDataDeviceConfig_new :: "'v Config \<Rightarrow> bool \<Rightarrow> 'v OscRawDataDeviceConfig" where
  "OscRawDataDeviceConfig_new config hardware_diff =
     \<lparr>oc_id = cfg_id config, oc_pref = cfg_pref config, oc_hardware_diff = hardware_diff\<rparr>"

definition SameConfig :: "'v Config \<Rightarrow> 'v OscRawDataDeviceConfig \<Rightarrow> bool" where
  "SameConfig config c \<longleftrightarrow> cfg_id config = oc_id c"

record 'v OscRawData =
  or_raw :: PooledRawData
  or_data :: mem
  or_type :: DeviceType
  or_property :: "'v OscRawDataDeviceConfig"

subsection \<open>The collecter\<close>

datatype OscState =
    STATE_LOAD_CALIBRATE
  | STATE_PRE_COLLECT
  | STATE_CHECK_COLLECT
  | STATE_COLLECT
  | STATE_NONE

record ('v, 'd) OscDataCollecter = DataCollecter +
  od_next_state :: OscState
  od_calibrated :: bool
  od_device :: 'd
  od_config :: "'v ConfigManager"
  od_device_type :: DeviceType
  od_last_config :: "'v OscRawDataDeviceConfig option"
  od_rv :: Error
  od_trigger_state :: RegisterMemory
  od_pool :: MemoryUsagePool
  od_queue :: "'v OscRawData SequencedBulkQueue"
  od_limit_time :: bool
  od_time_delta :: int
  od_start_time :: int

record env =
  en_now :: int
  en_trigger_auto :: bool
  en_time_param :: int
  en_fresh :: "MemoryUsagePool \<Rightarrow> ptr"
  en_garbage :: u8
  en_held :: "ptr list"

text \<open>The constructor; the parameters are the values of the members it does not initialise.\<close>

definition OscDataCollecter_new ::
  "'d \<Rightarrow> 'v ConfigManager \<Rightarrow> DeviceType \<Rightarrow> bool \<Rightarrow> bool \<Rightarrow> bool \<Rightarrow> int \<Rightarrow> int \<Rightarrow>
     ('v, 'd) OscDataCollecter res" where
  "OscDataCollecter_new device config type stop_by_offine calibrated limit_time time_delta start_time =
     and_then TriggerStateRegister_new (\<lambda>trigger_state.
       SetFreq (of_int kOscMaxFreq)
         \<lparr>dc_loop = ThreadedLoopRun_new, dc_stop_by_offine = stop_by_offine, dc_next_loop_delay = 0,
          od_next_state = STATE_LOAD_CALIBRATE, od_calibrated = calibrated, od_device = device,
          od_config = config, od_device_type = type, od_last_config = None, od_rv = OK,
          od_trigger_state = trigger_state, od_pool = MemoryUsagePool_new kOscMemoryUsage,
          od_queue = SequencedBulkQueue_new True False, od_limit_time = limit_time,
          od_time_delta = time_delta, od_start_time = start_time\<rparr>)"

definition SaveError :: "Error \<Rightarrow> ('v, 'd) OscDataCollecter \<Rightarrow> ('v, 'd) OscDataCollecter" where
  "SaveError error s = s\<lparr>od_rv := error\<rparr>"

definition DeviceOffine :: "('v, 'd) OscDataCollecter \<Rightarrow> ('v, 'd) OscDataCollecter" where
  "DeviceOffine s = s\<lparr>od_next_state := STATE_LOAD_CALIBRATE, dc_stop_by_offine := True\<rparr>"

type_synonym ('v, 'd) osc_result = "(LoopState \<times> ('v, 'd) OscDataCollecter) res"

definition CHECK_DEVICE ::
  "Error \<Rightarrow> ('v, 'd) OscDataCollecter \<Rightarrow> ('v, 'd) osc_result \<Rightarrow> ('v, 'd) osc_result" where
  "CHECK_DEVICE error s rest =
     (if error \<noteq> OK then Inr (STOP, DeviceOffine (SaveError error s)) else rest)"

definition Osc_WriteDevice ::
  "'d DeviceDelegate \<Rightarrow> RegisterMemory \<Rightarrow> ('v, 'd) OscDataCollecter \<Rightarrow>
     (Error \<times> ('v, 'd) OscDataCollecter) res" where
  "Osc_WriteDevice del rm s =
     and_then (and_then (RegisterMemory_buffer rm) (\<lambda>m.
       dd_WriteDevice del (rm_start_addr rm) m (RegisterMemory_size rm) (od_device s))) (\<lambda>(e, d).
     Inr (e, s\<lparr>od_device := d\<rparr>))"

definition UpdateTriggerState ::
  "'d DeviceDelegate \<Rightarrow> ('v, 'd) OscDataCollecter \<Rightarrow> (Error \<times> ('v, 'd) OscDataCollecter) res" where
  "UpdateTriggerState del s =
     (let rm = od_trigger_state s in
      and_then (and_then (RegisterMemory_buffer rm) (\<lambda>m.
        dd_ReadDevice del (rm_start_addr rm) m (RegisterMemory_size rm) (od_device s))) (\<lambda>(e, b, d).
      Inr (e, s\<lparr>od_device := d, od_trigger_state := rm\<lparr>rm_memory := b\<rparr>\<rparr>)))"

definition StartScope ::
  "'d DeviceDelegate \<Rightarrow> ('v, 'd) OscDataCollecter \<Rightarrow> (Error \<times> ('v, 'd) OscDataCollecter) res" where
  "StartScope del s =
     and_then ScopeCtrlRegister_new (\<lambda>scope_ctrl.
     and_then (bool_set_value ScopeCtrl_scope_ctrl True (rm_memory scope_ctrl)) (\<lambda>m.
       Osc_WriteDevice del (scope_ctrl\<lparr>rm_memory := m\<rparr>) s))"

definition IsCollected :: "('v, 'd) OscDataCollecter \<Rightarrow> bool res" where
  "IsCollected s = bool_value TriggerState_clet_bit (rm_memory (od_trigger_state s))"

definition LastConfig ::
  "('v, 'd) OscDataCollecter \<Rightarrow> ('v OscRawDataDeviceConfig \<times> ('v, 'd) OscDataCollecter) res" where
  "LastConfig s =
     and_then (GetLast (od_config s)) (\<lambda>config.
       let new = OscRawDataDeviceConfig_new config False in
       case od_last_config s of
         None \<Rightarrow> Inr (new, s\<lparr>od_last_config := Some new\<rparr>)
       | Some c \<Rightarrow>
           if \<not> SameConfig config c then Inr (new, s\<lparr>od_last_config := Some new\<rparr>) else Inr (c, s))"

text \<open>Times are in microseconds; the answer is the limit, if there is one.\<close>

definition GetLimitTime :: "env \<Rightarrow> int option" where
  "GetLimitTime en =
     (if en_trigger_auto en then Some (max (en_time_param en) (kOscCollectMiniTimeLimit * 1000))
      else None)"

text \<open>The references to raw data: the queue's, those in the hands of its readers, the others.\<close>

definition reader_refs :: "'b SequencedBulkQueue \<Rightarrow> 'b list" where
  "reader_refs q = concat (map (\<lambda>(r, _).
     case bq_readers q r of None \<Rightarrow> [] | Some x \<Rightarrow>
       (case br_temp_ptr x of None \<Rightarrow> [] | Some b \<Rightarrow> [b])) (bq_count_map q))"

definition references :: "env \<Rightarrow> 'v OscRawData SequencedBulkQueue \<Rightarrow> ptr list" where
  "references en q =
     map (\<lambda>b. rd_raw_data (or_raw b)) (map bp_bulk (bq_queue q) @ reader_refs q) @ en_held en"

definition reclaim :: "ptr list \<Rightarrow> MemoryUsagePool \<Rightarrow> MemoryUsagePool res" where
  "reclaim refs pool =
     for_each (\<lambda>a p. and_then (UsagePool_Free a p) (\<lambda>(p, _). Inr p))
       (filter (\<lambda>a. a \<notin> set refs) (map fst (up_alloced pool))) pool"

lemma RecycleOne_shrinks:
  assumes "RecycleOne q = Inr (True, q')"
  shows "length (bq_queue q') < length (bq_queue q)"
proof -
  have shorter: "length (takeWhile (\<lambda>x. \<not> P x) xs @ tl (dropWhile (\<lambda>x. \<not> P x) xs)) < length xs"
    if "\<exists>x \<in> set xs. P x" for P and xs :: "'a BulkPiece list"
    using that by (induction xs) auto
  let ?u = "\<lambda>p. bp_count p > bq_reader_max q"
  let ?b = "\<lambda>p. bp_count p > bq_reader_min q \<and> bp_count p \<le> bq_reader_max q"
  show ?thesis
  proof (cases "\<exists>p \<in> set (bq_queue q). ?u p")
    case True
    then have "q' = q\<lparr>bq_queue := takeWhile (\<lambda>p. \<not> ?u p) (bq_queue q) @
        tl (dropWhile (\<lambda>p. \<not> ?u p) (bq_queue q))\<rparr>"
      using assms unfolding RecycleOne_def Let_def by (simp add: check_Inr_iff split: if_splits)
    then show ?thesis using shorter [OF True] by simp
  next
    case False
    then have b: "\<exists>p \<in> set (bq_queue q). ?b p"
      and "q' = q\<lparr>bq_queue := takeWhile (\<lambda>p. \<not> ?b p) (bq_queue q) @
        tl (dropWhile (\<lambda>p. \<not> ?b p) (bq_queue q))\<rparr>"
      using assms unfolding RecycleOne_def Let_def
      by (simp_all only: check_Inr_iff if_False split: if_split_asm) auto
    then show ?thesis using shorter [OF b] by simp
  qed
qed

text \<open>\<open>AllocOscRawData\<close>'s loop: None where nothing can be recycled.\<close>

function alloc_loop ::
  "env \<Rightarrow> PooledRawData \<Rightarrow> MemoryUsagePool \<Rightarrow> 'v OscRawData SequencedBulkQueue \<Rightarrow>
     (PooledRawData option \<times> MemoryUsagePool \<times> 'v OscRawData SequencedBulkQueue) res" where
  "alloc_loop en raw pool q =
     (if rd_alloc_ok raw then Inr (Some raw, pool, q)
      else case RecycleOne q of
          Inl e \<Rightarrow> Inl e
        | Inr (ret, q') \<Rightarrow>
            if \<not> ret then Inr (None, pool, q')
            else and_then (reclaim (references en q') pool) (\<lambda>pool.
                 and_then (RawData_AllocAgain (en_fresh en pool) raw pool) (\<lambda>(raw, pool).
                   alloc_loop en raw pool q')))"
  by pat_completeness auto
termination
  by (relation "measure (\<lambda>(en, raw, pool, q). length (bq_queue q))") (auto dest: RecycleOne_shrinks)

declare alloc_loop.simps [simp del]

definition AllocOscRawData ::
  "env \<Rightarrow> 'v OscRawDataDeviceConfig \<Rightarrow> ('v, 'd) OscDataCollecter \<Rightarrow>
     ('v OscRawData option \<times> ('v, 'd) OscDataCollecter) res" where
  "AllocOscRawData en config s =
     and_then (PooledOscRawData_new (en_fresh en (od_pool s)) (od_device_type s) (od_pool s)) (\<lambda>(raw, pool).
     and_then (alloc_loop en raw pool (od_queue s)) (\<lambda>(found, pool, q).
       let s = s\<lparr>od_pool := pool, od_queue := q\<rparr> in
       Inr (case found of
              None \<Rightarrow> (None, s)
            | Some raw \<Rightarrow>
                (Some \<lparr>or_raw = raw, or_data = replicate (nat (rd_size raw)) (en_garbage en),
                       or_type = od_device_type s, or_property = config\<rparr>, s))))"

subsection \<open>The states\<close>

definition DoLoadCalibrate :: "('v, 'd) OscDataCollecter \<Rightarrow> ('v, 'd) osc_result" where
  "DoLoadCalibrate s =
     Inr (IMMEDIATE, s\<lparr>od_calibrated := True, od_next_state := STATE_PRE_COLLECT\<rparr>)"

text \<open>The answer of \<open>GetLimitTime\<close> goes to a local variable that hides the member
  \<open>limit_time_\<close>.\<close>

definition DoPreCollect ::
  "'d DeviceDelegate \<Rightarrow> env \<Rightarrow> ('v, 'd) OscDataCollecter \<Rightarrow> ('v, 'd) osc_result" where
  "DoPreCollect del en s =
     and_then (StartScope del s) (\<lambda>(error, s).
     CHECK_DEVICE error s (
       let s = (case GetLimitTime en of None \<Rightarrow> s | Some t \<Rightarrow> s\<lparr>od_time_delta := t\<rparr>) in
       Inr (IMMEDIATE, s\<lparr>od_start_time := en_now en, od_next_state := STATE_CHECK_COLLECT\<rparr>)))"

text \<open>The loop over \<open>i\<close>, with the number of turns that are left.\<close>

fun check_loop ::
  "'d DeviceDelegate \<Rightarrow> nat \<Rightarrow> ('v, 'd) OscDataCollecter \<Rightarrow> ('v, 'd) osc_result" where
  "check_loop del 0 s = Inl NotReached"
| "check_loop del (Suc n) s =
     and_then (UpdateTriggerState del s) (\<lambda>(error, s).
     CHECK_DEVICE error s (
     and_then (IsCollected s) (\<lambda>collected.
       if collected then Inr (IMMEDIATE, s\<lparr>od_next_state := STATE_COLLECT\<rparr>)
       else if n = 0 then Inr (NEXT_LOOP, s\<lparr>od_next_state := STATE_CHECK_COLLECT\<rparr>)
       else check_loop del n s)))"

definition DoCheckCollect ::
  "'d DeviceDelegate \<Rightarrow> env \<Rightarrow> ('v, 'd) OscDataCollecter \<Rightarrow> ('v, 'd) osc_result" where
  "DoCheckCollect del en s =
     CHECK_DEVICE
       (if od_limit_time s \<and> en_now en - od_start_time s > od_time_delta s
        then ERR_OSC_DEVICE_TIMEOUT_NOTTRIG else OK) s
       (check_loop del (nat kOscCollectUpdateStateCount) s)"

text \<open>A raw data that is not pushed loses its only reference at the end of \<open>DoCollect\<close>, bulks
  that \<open>PushBulk\<close> drops lose theirs there.\<close>

definition drop_references ::
  "env \<Rightarrow> ('v, 'd) OscDataCollecter \<Rightarrow> ('v, 'd) OscDataCollecter res" where
  "drop_references en s =
     and_then (reclaim (references en (od_queue s)) (od_pool s)) (\<lambda>pool. Inr (s\<lparr>od_pool := pool\<rparr>))"

definition DoCollect ::
  "'d DeviceDelegate \<Rightarrow> env \<Rightarrow> ('v, 'd) OscDataCollecter \<Rightarrow> ('v, 'd) osc_result" where
  "DoCollect del en s =
     and_then (LastConfig s) (\<lambda>(config, s).
     and_then (AllocOscRawData en config s) (\<lambda>(found, s).
       case found of
         None \<Rightarrow> Inr (NEXT_LOOP, s)
       | Some raw_data \<Rightarrow>
           and_then (dd_ReadOscData del (or_data raw_data) (rd_size (or_raw raw_data)) (od_device s))
             (\<lambda>(error, data, d).
           let s = s\<lparr>od_device := d\<rparr> in
           if error \<noteq> OK
           then and_then (drop_references en s) (\<lambda>s. Inr (STOP, DeviceOffine (SaveError error s)))
           else
             and_then (PushBulk (raw_data\<lparr>or_data := data\<rparr>) (od_queue s)) (\<lambda>q.
             and_then (drop_references en (s\<lparr>od_queue := q\<rparr>)) (\<lambda>s.
               Inr (if \<not> IsSingle (dc_loop s) then NEXT_LOOP else STOP,
                    s\<lparr>od_next_state := STATE_PRE_COLLECT\<rparr>))))))"

definition run_state ::
  "'d DeviceDelegate \<Rightarrow> env \<Rightarrow> OscState \<Rightarrow> ('v, 'd) OscDataCollecter \<Rightarrow> ('v, 'd) osc_result" where
  "run_state del en state s =
     (case state of
        STATE_LOAD_CALIBRATE \<Rightarrow> DoLoadCalibrate s
      | STATE_PRE_COLLECT \<Rightarrow> DoPreCollect del en s
      | STATE_CHECK_COLLECT \<Rightarrow> DoCheckCollect del en s
      | STATE_COLLECT \<Rightarrow> DoCollect del en s
      | STATE_NONE \<Rightarrow> Inl NotReached)"

definition Osc_OnLoopRun ::
  "'d DeviceDelegate \<Rightarrow> env \<Rightarrow> ('v, 'd) OscDataCollecter \<Rightarrow> ('v, 'd) osc_result" where
  "Osc_OnLoopRun del en s =
     CHECK (od_next_state s \<noteq> STATE_NONE) (
     and_then (run_state del en (od_next_state s) (s\<lparr>od_next_state := STATE_NONE\<rparr>)) (\<lambda>(loop_state, s).
       if od_next_state s = STATE_NONE then DCHECK (loop_state = STOP) (Inr (STOP, s))
       else Inr (loop_state, s)))"

subsection \<open>The pool\<close>

definition env_ok :: "env \<Rightarrow> bool" where
  "env_ok en \<longleftrightarrow> (\<forall>pool. en_fresh en pool \<noteq> 0 \<and> map_of (up_alloced pool) (en_fresh en pool) = None)"

definition pool_ok :: "MemoryUsagePool \<Rightarrow> bool" where
  "pool_ok pool \<longleftrightarrow> usage_pool_inv pool \<and> up_memory_limit pool = kOscMemoryUsage"

lemma free_all:
  assumes "pool_ok pool" and "distinct as" and "set as \<subseteq> dom (map_of (up_alloced pool))"
  shows "\<exists>pool'. for_each (\<lambda>a p. and_then (UsagePool_Free a p) (\<lambda>(p, _). Inr p)) as pool = Inr pool' \<and>
    pool_ok pool' \<and> map_of (up_alloced pool') = map_of (up_alloced pool) |` (- set as)"
  using assms
proof (induction as arbitrary: pool)
  case Nil
  then show ?case by simp
next
  case (Cons a as)
  obtain n where n: "map_of (up_alloced pool) a = Some n" using Cons.prems(3) by auto
  then obtain pool1 ev where pool1: "UsagePool_Free a pool = Inr (pool1, ev)" "usage_pool_inv pool1"
    "map_of (up_alloced pool1) = (map_of (up_alloced pool))(a := None)"
    using UsagePool_Free_held [of pool a n] Cons.prems(1) by (auto simp: pool_ok_def)
  have "up_memory_limit pool1 = up_memory_limit pool"
    using pool1(1) n by (auto simp: UsagePool_Free_def Let_def split: if_splits)
  then have ok: "pool_ok pool1" using pool1(2) Cons.prems(1) by (simp add: pool_ok_def)
  have "set as \<subseteq> dom (map_of (up_alloced pool1))" using Cons.prems(2,3) by (auto simp: pool1(3))
  with Cons.IH [OF ok] Cons.prems(2) obtain pool' where
    "for_each (\<lambda>a p. and_then (UsagePool_Free a p) (\<lambda>(p, _). Inr p)) as pool1 = Inr pool'" "pool_ok pool'"
    "map_of (up_alloced pool') = map_of (up_alloced pool1) |` (- set as)" by auto
  then show ?case using pool1(1,3) by (auto simp: fun_eq_iff restrict_map_def)
qed

text \<open>What nobody refers to is given back, and nothing else.\<close>

lemma reclaim_ok:
  assumes "pool_ok pool"
  shows "\<exists>pool'. reclaim refs pool = Inr pool' \<and> pool_ok pool' \<and>
    map_of (up_alloced pool') = map_of (up_alloced pool) |` set refs"
proof -
  let ?as = "filter (\<lambda>a. a \<notin> set refs) (map fst (up_alloced pool))"
  have "map_keys_ok (up_alloced pool)" using assms by (simp add: pool_ok_def usage_pool_inv_def)
  then have "distinct ?as" by (intro distinct_filter map_keys_ok_distinct)
  moreover have "set ?as \<subseteq> dom (map_of (up_alloced pool))" by (auto simp: dom_map_of_conv_image_fst)
  ultimately obtain pool' where "reclaim refs pool = Inr pool'" "pool_ok pool'"
    "map_of (up_alloced pool') = map_of (up_alloced pool) |` (- set ?as)"
    using free_all [OF assms] unfolding reclaim_def by blast
  moreover have "map_of (up_alloced pool) |` (- set ?as) = map_of (up_alloced pool) |` set refs"
    by (auto simp: fun_eq_iff restrict_map_def map_of_eq_None_iff)
  ultimately show ?thesis by simp
qed

definition raw_ok :: "DeviceType \<Rightarrow> PooledRawData \<Rightarrow> bool" where
  "raw_ok t raw \<longleftrightarrow> rd_need_size raw = DeviceTypeDataSize t \<and>
     (rd_alloc_ok raw \<longrightarrow> rd_size raw = DeviceTypeDataSize t)"

lemma type_size_bounds: "0 < DeviceTypeDataSize t" "DeviceTypeDataSize t \<le> 16000"
  by (simp_all add: DeviceTypeDataSize_def DeviceK_def)

lemma AllocAgain_ok:
  assumes "env_ok en" and pool: "pool_ok pool" and raw: "raw_ok t raw" and "\<not> rd_alloc_ok raw"
  shows "\<exists>raw' pool'. RawData_AllocAgain (en_fresh en pool) raw pool = Inr (raw', pool') \<and>
    pool_ok pool' \<and> raw_ok t raw' \<and>
    (rd_alloc_ok raw' \<longleftrightarrow> DeviceTypeDataSize t \<le> UsagePool_Left pool) \<and> (\<not> rd_alloc_ok raw' \<longrightarrow> pool' = pool)"
proof -
  let ?n = "DeviceTypeDataSize t"
  have fresh: "en_fresh en pool \<noteq> 0" "map_of (up_alloced pool) (en_fresh en pool) = None"
    using assms(1) by (auto simp: env_ok_def)
  have need: "rd_need_size raw = ?n" using raw by (simp add: raw_ok_def)
  note bounds = type_size_bounds [of t]
  show ?thesis
  proof (cases "?n \<le> UsagePool_Left pool")
    case True
    obtain pool' where pool': "UsagePool_Alloc (en_fresh en pool) ?n pool = Inr (en_fresh en pool, pool')"
      "usage_pool_inv pool'"
      "map_of (up_alloced pool') = (map_of (up_alloced pool))(en_fresh en pool \<mapsto> ?n)"
      using UsagePool_Alloc_room [OF _ fresh, of ?n] True bounds pool by (auto simp: pool_ok_def)
    have "up_memory_limit pool' = up_memory_limit pool"
      using pool'(1) fresh(1) by (auto simp: UsagePool_Alloc_def split: if_splits)
    then show ?thesis
      using pool' fresh(1) need pool assms(4) True
      by (auto simp: RawData_AllocAgain_def pool_ok_def raw_ok_def)
  next
    case False
    have "UsagePool_HitCeiling ?n pool = Inr True"
      using False pool bounds usage_nonneg [of pool]
      by (auto simp: UsagePool_HitCeiling_def int32_of_def in_int32_def pool_ok_def usage_pool_inv_def
          UsagePool_Left_def kOscMemoryUsage_def)
    then show ?thesis
      using need assms(4) pool False by (auto simp: RawData_AllocAgain_def UsagePool_Alloc_def raw_ok_def)
  qed
qed

lemma PooledOscRawData_new_ok:
  assumes "env_ok en" and "pool_ok pool"
  shows "\<exists>raw pool'. PooledOscRawData_new (en_fresh en pool) t pool = Inr (raw, pool') \<and>
    pool_ok pool' \<and> raw_ok t raw \<and>
    (rd_alloc_ok raw \<longleftrightarrow> DeviceTypeDataSize t \<le> UsagePool_Left pool) \<and> (\<not> rd_alloc_ok raw \<longrightarrow> pool' = pool)"
  unfolding PooledOscRawData_new_def by (rule AllocAgain_ok [OF assms]) (simp_all add: raw_ok_def)

definition queue_good :: "'b SequencedBulkQueue \<Rightarrow> bool" where
  "queue_good q \<longleftrightarrow> bulk_inv q \<and> none_missed q \<and> bq_over_write q"

lemma RecycleOne_good:
  assumes "queue_good q"
  shows "\<exists>ret q'. RecycleOne q = Inr (ret, q') \<and> queue_good q'"
proof -
  obtain ret q' where r: "RecycleOne q = Inr (ret, q')" "bulk_inv q'" "none_missed q'"
    using RecycleOne_ok [of q] assms by (auto simp: queue_good_def)
  moreover have "bq_over_write q'"
    using r(1) assms by (auto simp: RecycleOne_def Let_def queue_good_def split: if_splits)
  ultimately show ?thesis by (auto simp: queue_good_def)
qed

lemma PushBulk_good:
  assumes "queue_good q"
  shows "\<exists>q'. PushBulk b q = Inr q' \<and> queue_good q'"
proof -
  have inv: "bulk_inv q" and ow: "bq_over_write q" using assms by (simp_all add: queue_good_def)
  obtain q' where q': "PushBulk b q = Inr q'" "bulk_inv q'" "none_missed q'"
    using PushBulk_ok [OF inv, of b] by blast
  let ?q1 = "q\<lparr>bq_queue := bq_queue q @ [\<lparr>bp_bulk = b, bp_count = bq_count q\<rparr>], bq_count := bq_count q + 1\<rparr>"
  have "bulk_inv ?q1"
    using inv by (fastforce simp: bulk_inv_def queue_ok_def readers_ok_def callbacks_ok_def sorted_wrt_append)
  then obtain q2 where "FireCallbackNoLock (bq_count q) ?q1 = Inr q2"
    "if bq_quiting ?q1 then quit_fired (bq_callback_map ?q1) ?q1 q2
     else fired (bq_count q) (bq_callback_map ?q1) ?q1 q2"
    using FireCallback_ok [of ?q1 "bq_count q"] by auto
  then have "bq_over_write q2" "PushBulk b q = Inr (MayReleaseBuffer q2)"
    using ow by (auto simp: quit_fired_def fired_def PushBulk_def CountNoLock_def Let_def split: if_splits)
  then have "bq_over_write q'" using q'(1) by simp
  with q' show ?thesis by (auto simp: queue_good_def)
qed

lemma alloc_loop_ok:
  assumes "env_ok en" and "pool_ok pool" and "raw_ok t raw" and "queue_good q"
  shows "\<exists>found pool' q'. alloc_loop en raw pool q = Inr (found, pool', q') \<and> pool_ok pool' \<and>
    queue_good q' \<and> (\<forall>raw'. found = Some raw' \<longrightarrow> raw_ok t raw' \<and> rd_alloc_ok raw')"
  using assms
proof (induction en raw pool q rule: alloc_loop.induct)
  case (1 en raw pool q)
  note prems = 1(2-5)
  show ?case
  proof (cases "rd_alloc_ok raw")
    case True
    then show ?thesis using prems by (subst alloc_loop.simps) auto
  next
    case no: False
    obtain ret q1 where q1: "RecycleOne q = Inr (ret, q1)" "queue_good q1"
      using RecycleOne_good [OF prems(4)] by blast
    show ?thesis
    proof (cases ret)
      case False
      then show ?thesis using no q1 prems(2) by (subst alloc_loop.simps) auto
    next
      case True
      obtain pool1 where pool1: "reclaim (references en q1) pool = Inr pool1" "pool_ok pool1"
        using reclaim_ok [OF prems(2)] by blast
      obtain raw2 pool2 where raw2: "RawData_AllocAgain (en_fresh en pool1) raw pool1 = Inr (raw2, pool2)"
        "pool_ok pool2" "raw_ok t raw2"
        using AllocAgain_ok [OF prems(1) pool1(2) prems(3) no] by blast
      have "alloc_loop en raw pool q = alloc_loop en raw2 pool2 q1"
        using no q1(1) True pool1(1) raw2(1) by (subst alloc_loop.simps) simp
      moreover have "env_ok en \<Longrightarrow> pool_ok pool2 \<Longrightarrow> raw_ok t raw2 \<Longrightarrow> queue_good q1 \<Longrightarrow>
          \<exists>found pool' q'. alloc_loop en raw2 pool2 q1 = Inr (found, pool', q') \<and> pool_ok pool' \<and>
            queue_good q' \<and> (\<forall>raw'. found = Some raw' \<longrightarrow> raw_ok t raw' \<and> rd_alloc_ok raw')"
            by (rule 1(1) [OF no q1(1) refl]) (use True in simp_all)
      ultimately show ?thesis using prems(1) raw2(2,3) q1(2) by simp
    qed
  qed
qed

subsection \<open>Every step\<close>

definition trigger_state_ok :: "RegisterMemory \<Rightarrow> bool" where
  "trigger_state_ok rm \<longleftrightarrow> length (rm_memory rm) = kTriggerStateSize \<and> rm_start_addr rm = kTriggerStateAddr"

definition osc_base :: "('d \<Rightarrow> bool) \<Rightarrow> ('v, 'd) OscDataCollecter \<Rightarrow> bool" where
  "osc_base good s \<longleftrightarrow> good (od_device s) \<and> pool_ok (od_pool s) \<and> queue_good (od_queue s) \<and>
     cm_history (od_config s) \<noteq> [] \<and> trigger_state_ok (od_trigger_state s)"

definition osc_ok :: "('d \<Rightarrow> bool) \<Rightarrow> ('v, 'd) OscDataCollecter \<Rightarrow> bool" where
  "osc_ok good s \<longleftrightarrow> osc_base good s \<and> od_next_state s \<noteq> STATE_NONE"

definition osc_rank :: "('v, 'd) OscDataCollecter \<Rightarrow> nat" where
  "osc_rank s =
     (case od_next_state s of STATE_LOAD_CALIBRATE \<Rightarrow> 4 | STATE_PRE_COLLECT \<Rightarrow> 3
      | STATE_CHECK_COLLECT \<Rightarrow> 2 | STATE_COLLECT \<Rightarrow> 1 | STATE_NONE \<Rightarrow> 0)"

text \<open>What a state may do: it keeps the base, says where to go on unless it stops, and goes on
  at once only to a lower rank.\<close>

definition step_ok :: "('d \<Rightarrow> bool) \<Rightarrow> nat \<Rightarrow> LoopState \<Rightarrow> ('v, 'd) OscDataCollecter \<Rightarrow> bool" where
  "step_ok good n state t \<longleftrightarrow> osc_ok good t \<and> (state = IMMEDIATE \<longrightarrow> osc_rank t < n)"

lemma osc_base_simps [simp]:
  "osc_base good (s\<lparr>od_next_state := n\<rparr>) = osc_base good s"
  "osc_base good (s\<lparr>od_calibrated := b\<rparr>) = osc_base good s"
  "osc_base good (s\<lparr>od_last_config := c\<rparr>) = osc_base good s"
  "osc_base good (s\<lparr>od_rv := e\<rparr>) = osc_base good s"
  "osc_base good (s\<lparr>od_time_delta := i\<rparr>) = osc_base good s"
  "osc_base good (s\<lparr>od_start_time := i\<rparr>) = osc_base good s"
  "osc_base good (s\<lparr>dc_stop_by_offine := b\<rparr>) = osc_base good s"
  by (simp_all add: osc_base_def)

lemma offline_ok: "osc_base good s \<Longrightarrow> step_ok good n STOP (DeviceOffine (SaveError e s))"
  by (simp add: step_ok_def osc_ok_def DeviceOffine_def SaveError_def)

lemma LastConfig_ok:
  assumes "osc_base good s"
  shows "\<exists>config t. LastConfig s = Inr (config, t) \<and> osc_base good t \<and>
    od_next_state t = od_next_state s \<and> od_device_type t = od_device_type s"
  using assms by (auto simp: LastConfig_def GetLast_def osc_base_def check_def Let_def split: option.split)

lemma drop_references_ok:
  assumes "osc_base good s"
  shows "\<exists>t. drop_references en s = Inr t \<and> osc_base good t \<and> od_next_state t = od_next_state s \<and>
    od_queue t = od_queue s \<and> od_device t = od_device s"
proof -
  have "pool_ok (od_pool s)" using assms by (simp add: osc_base_def)
  then obtain pool where "reclaim (references en (od_queue s)) (od_pool s) = Inr pool" "pool_ok pool"
    using reclaim_ok by blast
  then show ?thesis using assms by (auto simp: drop_references_def osc_base_def)
qed

lemma AllocOscRawData_ok:
  assumes "env_ok en" and "osc_base good s"
  shows "\<exists>found t. AllocOscRawData en config s = Inr (found, t) \<and> osc_base good t \<and>
    od_next_state t = od_next_state s \<and> od_device_type t = od_device_type s \<and>
    (\<forall>raw. found = Some raw \<longrightarrow> rd_size (or_raw raw) = DeviceTypeDataSize (od_device_type s) \<and>
       length (or_data raw) = nat (rd_size (or_raw raw)))"
proof -
  let ?t = "od_device_type s"
  have pool: "pool_ok (od_pool s)" and queue: "queue_good (od_queue s)"
    using assms(2) by (simp_all add: osc_base_def)
  obtain raw1 pool1 where new: "PooledOscRawData_new (en_fresh en (od_pool s)) ?t (od_pool s) = Inr (raw1, pool1)"
    "pool_ok pool1" "raw_ok ?t raw1"
    using PooledOscRawData_new_ok [OF assms(1) pool, of ?t] by (elim exE conjE) (rule that)
  obtain found pool2 q2 where loop: "alloc_loop en raw1 pool1 (od_queue s) = Inr (found, pool2, q2)"
    "pool_ok pool2" "queue_good q2" "\<forall>raw'. found = Some raw' \<longrightarrow> raw_ok ?t raw' \<and> rd_alloc_ok raw'"
    using alloc_loop_ok [OF assms(1) new(2,3) queue] by blast
  show ?thesis
  proof (cases found)
    case None
    then show ?thesis using new(1) loop assms(2) by (simp add: AllocOscRawData_def Let_def osc_base_def)
  next
    case (Some raw2)
    then have "rd_size raw2 = DeviceTypeDataSize ?t" using loop(4) by (simp add: raw_ok_def)
    then show ?thesis
      using Some new(1) loop assms(2) by (simp add: AllocOscRawData_def Let_def osc_base_def)
  qed
qed

text \<open>The delegate of an oscilloscope: it accepts the registers and the sizes of this device.\<close>

locale osc_delegate = device_delegate +
  assumes scope_ctrl: "register kScopeCtrlAddr (int kScopeCtrlSize)"
    and trigger_state: "register kTriggerStateAddr (int kTriggerStateSize)"
    and data_size: "transfer (DeviceTypeDataSize t)"
begin

lemma UpdateTriggerState_ok:
  assumes "osc_base inv s"
  shows "\<exists>e t. UpdateTriggerState del s = Inr (e, t) \<and> osc_base inv t"
proof -
  have rm: "trigger_state_ok (od_trigger_state s)" and d: "inv (od_device s)"
    using assms(1) by (simp_all add: osc_base_def)
  have ne: "rm_memory (od_trigger_state s) \<noteq> []"
    using rm by (auto simp: trigger_state_ok_def register_consts)
  have reg: "register (rm_start_addr (od_trigger_state s)) (RegisterMemory_size (od_trigger_state s))"
    using rm trigger_state by (simp add: trigger_state_ok_def RegisterMemory_size_def)
  obtain e b d' where "and_then (RegisterMemory_buffer (od_trigger_state s)) (\<lambda>m.
      dd_ReadDevice del (rm_start_addr (od_trigger_state s)) m
        (RegisterMemory_size (od_trigger_state s)) (od_device s)) = Inr (e, b, d')"
    "inv d'" "length b = length (rm_memory (od_trigger_state s))"
    using read_register [OF d reg ne] by (elim exE conjE) (rule that)
  then show ?thesis
    using assms(1) by (auto simp: UpdateTriggerState_def Let_def osc_base_def trigger_state_ok_def)
qed

lemma StartScope_ok:
  assumes "osc_base inv s"
  shows "\<exists>e t. StartScope del s = Inr (e, t) \<and> osc_base inv t"
proof -
  obtain rm where rm: "ScopeCtrlRegister_new = Inr rm" "rm_start_addr rm = kScopeCtrlAddr"
    "length (rm_memory rm) = kScopeCtrlSize"
    by (simp add: ScopeCtrlRegister_new_def RegisterMemory_new_def register_consts)
  obtain m where m: "bool_set_value ScopeCtrl_scope_ctrl True (rm_memory rm) = Inr m"
    "length m = length (rm_memory rm)"
    using rm(3) by (auto simp: bool_set_value_def load8_def store8_def register_consts register_members Let_def)
  let ?rm = "rm\<lparr>rm_memory := m\<rparr>"
  have ne: "rm_memory ?rm \<noteq> []" using m(2) rm(3) by (auto simp: register_consts)
  have reg: "register (rm_start_addr ?rm) (RegisterMemory_size ?rm)"
    using scope_ctrl rm m(2) by (simp add: RegisterMemory_size_def)
  have d: "inv (od_device s)" using assms(1) by (simp add: osc_base_def)
  obtain e d' where wr: "and_then (RegisterMemory_buffer ?rm) (\<lambda>m.
      dd_WriteDevice del (rm_start_addr ?rm) m (RegisterMemory_size ?rm) (od_device s)) = Inr (e, d')" "inv d'"
    using write_register [OF d reg ne] by (elim exE conjE) (rule that)
  have "StartScope del s = Inr (e, s\<lparr>od_device := d'\<rparr>)"
    by (simp only: StartScope_def Osc_WriteDevice_def rm(1) m(1) and_then_simps wr(1) prod.case)
  moreover have "osc_base inv (s\<lparr>od_device := d'\<rparr>)" using assms(1) wr(2) by (simp add: osc_base_def)
  ultimately show ?thesis by blast
qed

lemma DoPreCollect_ok:
  assumes "osc_base inv s"
  shows "\<exists>state t. DoPreCollect del en s = Inr (state, t) \<and> step_ok inv 3 state t"
proof -
  obtain e t where t: "StartScope del s = Inr (e, t)" "osc_base inv t"
    using StartScope_ok [OF assms] by blast
  show ?thesis
  proof (cases "e = OK")
    case False
    then show ?thesis using t offline_ok [OF t(2)] by (simp add: DoPreCollect_def CHECK_DEVICE_def)
  next
    case True
    then show ?thesis using t
      by (simp add: DoPreCollect_def CHECK_DEVICE_def Let_def step_ok_def osc_ok_def osc_rank_def
          split: option.split)
  qed
qed

lemma check_loop_ok:
  assumes "osc_base inv s" and "0 < n"
  shows "\<exists>state t. check_loop del n s = Inr (state, t) \<and> step_ok inv 2 state t"
  using assms
proof (induction n arbitrary: s)
  case 0
  then show ?case by simp
next
  case (Suc n)
  obtain e t where t: "UpdateTriggerState del s = Inr (e, t)" "osc_base inv t"
    using UpdateTriggerState_ok [OF Suc.prems(1)] by blast
  have "length (rm_memory (od_trigger_state t)) = 16"
    using t(2) by (simp add: osc_base_def trigger_state_ok_def register_consts)
  then have "rm_memory (od_trigger_state t) \<noteq> []" by auto
  then obtain c where c: "IsCollected t = Inr c"
    by (auto simp: IsCollected_def bool_value_def load8_def check_def Let_def register_consts register_members)
  show ?case
  proof (cases "e = OK")
    case False
    then show ?thesis using t offline_ok [OF t(2)] by (simp add: CHECK_DEVICE_def)
  next
    case e: True
    show ?thesis
    proof (cases "c \<or> n = 0")
      case True
      then show ?thesis using t c e
        by (auto simp: CHECK_DEVICE_def step_ok_def osc_ok_def osc_rank_def)
    next
      case False
      then show ?thesis using Suc.IH [OF t(2)] t(1) c e by (simp add: CHECK_DEVICE_def)
    qed
  qed
qed

lemma DoCheckCollect_ok:
  assumes "osc_base inv s"
  shows "\<exists>state t. DoCheckCollect del en s = Inr (state, t) \<and> step_ok inv 2 state t"
proof -
  have "0 < nat kOscCollectUpdateStateCount" by (simp add: kOscCollectUpdateStateCount_def)
  from check_loop_ok [OF assms this] show ?thesis
    using offline_ok [OF assms] by (auto simp: DoCheckCollect_def CHECK_DEVICE_def)
qed

text \<open>Where no buffer can be had the collecter is left without a next state.\<close>

lemma DoCollect_ok:
  assumes "osc_base inv s" and "od_next_state s = STATE_NONE" and "env_ok en"
  shows "\<exists>state t. DoCollect del en s = Inr (state, t) \<and>
    (step_ok inv 1 state t \<or> state = NEXT_LOOP \<and> od_next_state t = STATE_NONE)"
proof -
  obtain config s1 where s1: "LastConfig s = Inr (config, s1)" "osc_base inv s1"
    "od_next_state s1 = STATE_NONE" using LastConfig_ok [OF assms(1)] assms(2) by auto
  obtain found s2 where s2: "AllocOscRawData en config s1 = Inr (found, s2)" "osc_base inv s2"
    "od_next_state s2 = STATE_NONE"
    "\<forall>raw. found = Some raw \<longrightarrow> rd_size (or_raw raw) = DeviceTypeDataSize (od_device_type s1) \<and>
       length (or_data raw) = nat (rd_size (or_raw raw))"
    using AllocOscRawData_ok [OF assms(3) s1(2), of config] unfolding s1(3) by (elim exE conjE) (rule that)
  show ?thesis
  proof (cases found)
    case None
    then show ?thesis using s1(1) s2(1,3) by (simp add: DoCollect_def)
  next
    case (Some raw)
    let ?n = "DeviceTypeDataSize (od_device_type s1)"
    have n: "rd_size (or_raw raw) = ?n" "?n = int (length (or_data raw))"
      using s2(4) Some type_size_bounds(1) [of "od_device_type s1"] by auto
    have "inv (od_device s2)" using s2(2) by (simp add: osc_base_def)
    from read_osc [OF this data_size n(2)]
    obtain e b d where rd: "dd_ReadOscData del (or_data raw) ?n (od_device s2) = Inr (e, b, d)" "inv d"
      by (elim exE conjE) (rule that)
    have base: "osc_base inv (s2\<lparr>od_device := d\<rparr>)" using s2(2) rd(2) by (simp add: osc_base_def)
    show ?thesis
    proof (cases "e = OK")
      case False
      obtain t where "drop_references en (s2\<lparr>od_device := d\<rparr>) = Inr t" "osc_base inv t"
        using drop_references_ok [OF base, of en] by (elim exE conjE) (rule that)
      then show ?thesis using s1(1) s2(1) Some n(1) rd(1) False offline_ok [of inv t 1 e]
        by (simp add: DoCollect_def Let_def)
    next
      case True
      have "queue_good (od_queue s2)" using s2(2) by (simp add: osc_base_def)
      from PushBulk_good [OF this, of "raw\<lparr>or_data := b\<rparr>"]
      obtain q where q: "PushBulk (raw\<lparr>or_data := b\<rparr>) (od_queue s2) = Inr q" "queue_good q" by (elim exE conjE) (rule that)
      have "osc_base inv (s2\<lparr>od_device := d, od_queue := q\<rparr>)" using base q(2) by (simp add: osc_base_def)
      from drop_references_ok [OF this, of en]
      obtain t where "drop_references en (s2\<lparr>od_device := d, od_queue := q\<rparr>) = Inr t" "osc_base inv t"
        by (elim exE conjE) (rule that)
      then show ?thesis using s1(1) s2(1) Some n(1) rd(1) True q(1)
        by (simp add: DoCollect_def Let_def step_ok_def osc_ok_def)
    qed
  qed
qed

lemma OnLoopRun_ok:
  assumes "osc_ok inv s" and "env_ok en"
  shows "Osc_OnLoopRun del en s = Inl DcheckFailed \<or>
    (\<exists>state t. Osc_OnLoopRun del en s = Inr (state, t) \<and> step_ok inv (osc_rank s) state t)"
proof -
  let ?s = "s\<lparr>od_next_state := STATE_NONE\<rparr>"
  have base: "osc_base inv ?s" using assms(1) by (simp add: osc_ok_def)
  have load: "\<exists>state t. DoLoadCalibrate ?s = Inr (state, t) \<and> step_ok inv 4 state t"
    using base by (simp add: DoLoadCalibrate_def step_ok_def osc_ok_def osc_rank_def)
  have goes: "Osc_OnLoopRun del en s = Inr (state, t)"
    if "run_state del en (od_next_state s) ?s = Inr (state, t)" "step_ok inv n state t" for state t n
    using that assms(1) by (simp add: Osc_OnLoopRun_def osc_ok_def step_ok_def)
  show ?thesis
  proof (cases "od_next_state s")
    case STATE_LOAD_CALIBRATE
    then show ?thesis using load goes by (fastforce simp: run_state_def osc_rank_def)
  next
    case STATE_PRE_COLLECT
    then show ?thesis using DoPreCollect_ok [OF base, of en] goes
      by (fastforce simp: run_state_def osc_rank_def)
  next
    case STATE_CHECK_COLLECT
    then show ?thesis using DoCheckCollect_ok [OF base, of en] goes
      by (fastforce simp: run_state_def osc_rank_def)
  next
    case STATE_COLLECT
    from DoCollect_ok [OF base _ assms(2)]
    obtain state t where r: "DoCollect del en ?s = Inr (state, t)"
      "step_ok inv 1 state t \<or> state = NEXT_LOOP \<and> od_next_state t = STATE_NONE" by auto
    then show ?thesis
    proof (cases "step_ok inv 1 state t")
      case True
      then show ?thesis using STATE_COLLECT r goes by (fastforce simp: run_state_def osc_rank_def)
    next
      case False
      then have "Osc_OnLoopRun del en s = Inl DcheckFailed"
        using r STATE_COLLECT assms(1) by (simp add: Osc_OnLoopRun_def run_state_def osc_ok_def)
      then show ?thesis by simp
    qed
  next
    case STATE_NONE
    then show ?thesis using assms(1) by (simp add: osc_ok_def)
  qed
qed

end

subsection \<open>The loop over the USB port\<close>

text \<open>The environments of the steps, in order: the step number \<open>n\<close> belongs to the state.\<close>

definition osc_step ::
  "'d DeviceDelegate \<Rightarrow> (nat \<Rightarrow> env) \<Rightarrow> nat \<times> ('v, 'd) OscDataCollecter \<Rightarrow>
     (LoopState \<times> nat \<times> ('v, 'd) OscDataCollecter) res option" where
  "osc_step del ens = (\<lambda>(n, s).
     Some (and_then (Osc_OnLoopRun del (ens n) s) (\<lambda>(state, s). Inr (state, n + 1, s))))"

definition Osc_LoopRunImp ::
  "'d DeviceDelegate \<Rightarrow> (nat \<Rightarrow> env) \<Rightarrow> nat \<Rightarrow> ('v, 'd) OscDataCollecter \<Rightarrow>
     (bool \<times> nat \<times> ('v, 'd) OscDataCollecter) res option" where
  "Osc_LoopRunImp del ens n s = LoopRunImp (osc_step del ens) (n, s)"

abbreviation usb_good :: "'s windows \<Rightarrow> 's UsbPort \<Rightarrow> bool" where
  "usb_good win \<equiv> (\<lambda>p. port_ok p \<and> reads_bounded win)"

interpretation osc_usb: osc_delegate "UsbPortDeviceDelegate enum win" "usb_good win"
    "\<lambda>addr sz. 0 \<le> sz \<and> sz \<le> 48" "\<lambda>sz. 0 < sz \<and> sz < 2 ^ 31"
  for enum :: "'s \<Rightarrow> string list option \<times> 's" and win :: "'s windows"
proof (unfold_locales, goal_cases)
  case (3 t)
  then show ?case using type_size_bounds [of t] by simp
qed (simp_all add: register_consts)

interpretation osc: collecter "osc_step (UsbPortDeviceDelegate enum win) ens"
    "\<lambda>(n, s). osc_ok (usb_good win) s \<and> (\<forall>k. env_ok (ens k))" "\<lambda>(n, s). osc_rank s"
    "\<lambda>e. e = DcheckFailed"
  for enum :: "'s \<Rightarrow> string list option \<times> 's" and win :: "'s windows" and ens :: "nat \<Rightarrow> env"
proof (unfold_locales, goal_cases)
  case (1 s state t)
  then show ?case
    using osc_usb.OnLoopRun_ok [of win "snd s" "ens (fst s)" enum]
    by (auto simp: osc_step_def step_ok_def)
next
  case (2 s)
  then show ?case by (auto simp: osc_step_def)
next
  case (3 s e)
  then show ?case
    using osc_usb.OnLoopRun_ok [of win "snd s" "ens (fst s)" enum]
    by (auto simp: osc_step_def)
qed

lemma queue_good_new: "queue_good (SequencedBulkQueue_new True keep)"
  by (simp add: queue_good_def bulk_inv_def queue_ok_def readers_ok_def callbacks_ok_def
      none_missed_def SequencedBulkQueue_new_def)

lemma OscDataCollecter_new_ok:
  assumes "good device" and "cm_history config \<noteq> []"
    and "OscDataCollecter_new device config type stop calibrated limit_time delta start = Inr s"
  shows "osc_ok good s"
proof -
  have "cm_history (od_config s) \<noteq> []" "od_device s = device" "od_next_state s = STATE_LOAD_CALIBRATE"
    "od_pool s = MemoryUsagePool_new kOscMemoryUsage" "od_queue s = SequencedBulkQueue_new True False"
    "TriggerStateRegister_new = Inr (od_trigger_state s)"
    using assms(2,3) by (auto simp: OscDataCollecter_new_def SetFreq_def check_Inr_iff)
  moreover from this(6) have "trigger_state_ok (od_trigger_state s)"
    by (cases "od_trigger_state s")
      (auto simp: TriggerStateRegister_new_def RegisterMemory_new_def trigger_state_ok_def register_consts)
  moreover have "pool_ok (MemoryUsagePool_new kOscMemoryUsage)"
    by (auto simp: pool_ok_def MemoryUsagePool_new_def usage_pool_inv_new [unfolded MemoryUsagePool_new_def]
        usage_pool_inv_def kOscMemoryUsage_def map_keys_ok_def)
  ultimately show ?thesis using assms(1) queue_good_new by (simp add: osc_ok_def osc_base_def)
qed

lemma Osc_LoopRunImp_result:
  assumes "osc_ok (usb_good win) s" and "\<forall>k. env_ok (ens k)"
  shows "\<exists>r. Osc_LoopRunImp (UsbPortDeviceDelegate enum win) ens n s = Some r \<and>
    (\<forall>m t. r = Inr (True, m, t) \<longrightarrow> osc_ok (usb_good win) t) \<and> (\<forall>e. r = Inl e \<longrightarrow> e = DcheckFailed)"
  using osc.loop_returns [of win ens "(n, s)" enum] assms by (auto simp: Osc_LoopRunImp_def)


definition sample_env :: env where
  "sample_env = \<lparr>en_now = 0, en_trigger_auto = False, en_time_param = 0,
     en_fresh = (\<lambda>pool. 1 + sum_list (map fst (up_alloced pool))), en_garbage = 0, en_held = []\<rparr>"

lemma sample_env_ok: "env_ok sample_env"
proof -
  have "a \<le> sum_list (map fst as)" if "(a, n) \<in> set as" for a :: nat and n :: int and as
    using member_le_sum_list [of a "map fst as"] that by force
  from this [of "Suc (sum_list (map fst (up_alloced pool)))" _ "up_alloced pool" for pool]
  show ?thesis by (auto simp: env_ok_def sample_env_def map_of_eq_None_iff)
qed

definition sample_config :: "nat ConfigManager" where
  "sample_config = \<lparr>cm_current_id = 1, cm_history = [\<lparr>cfg_id = 0, cfg_pref = Dictionary []\<rparr>]\<rparr>"


subsection \<open>What a collection delivers\<close>

lemma LastConfig_id:
  assumes "cm_history (od_config s) = h @ [config]"
  shows "\<exists>c t. LastConfig s = Inr (c, t) \<and> oc_id c = cfg_id config \<and>
    t = s\<lparr>od_last_config := Some c\<rparr>"
proof -
  have "GetLast (od_config s) = Inr config" using assms by (simp add: GetLast_def check_def)
  then show ?thesis
    by (auto simp: LastConfig_def Let_def SameConfig_def OscRawDataDeviceConfig_new_def split: option.split)
qed

lemma AllocOscRawData_room:
  assumes "env_ok en" and "pool_ok (od_pool s)"
    and "DeviceTypeDataSize (od_device_type s) \<le> UsagePool_Left (od_pool s)"
  shows "\<exists>raw pool. AllocOscRawData en c s = Inr (Some raw, s\<lparr>od_pool := pool\<rparr>) \<and> pool_ok pool \<and>
    or_property raw = c \<and> rd_size (or_raw raw) = DeviceTypeDataSize (od_device_type s) \<and>
    or_data raw = replicate (nat (DeviceTypeDataSize (od_device_type s))) (en_garbage en)"
proof -
  let ?t = "od_device_type s"
  obtain raw pool where r: "PooledOscRawData_new (en_fresh en (od_pool s)) ?t (od_pool s) = Inr (raw, pool)"
    "pool_ok pool" "raw_ok ?t raw" "rd_alloc_ok raw \<longleftrightarrow> DeviceTypeDataSize ?t \<le> UsagePool_Left (od_pool s)"
    using PooledOscRawData_new_ok [OF assms(1,2), of ?t] by (elim exE conjE) (rule that)
  have "alloc_loop en raw pool (od_queue s) = Inr (Some raw, pool, od_queue s)"
    using r(4) assms(3) by (subst alloc_loop.simps) simp
  then have eq: "AllocOscRawData en c s = Inr (Some \<lparr>or_raw = raw,
      or_data = replicate (nat (DeviceTypeDataSize ?t)) (en_garbage en), or_type = ?t, or_property = c\<rparr>,
      s\<lparr>od_pool := pool\<rparr>)"
    using r assms(3) by (simp add: AllocOscRawData_def Let_def raw_ok_def)
  show ?thesis using r assms(3) by (intro exI conjI) (rule eq, simp_all add: raw_ok_def)
qed

lemma DoCollect_result:
  assumes "osc_base (\<lambda>_. True) s" and "env_ok en"
    and "DeviceTypeDataSize (od_device_type s) \<le> UsagePool_Left (od_pool s)"
    and "cm_history (od_config s) = h @ [config]"
    and "\<And>b. length b = nat (DeviceTypeDataSize (od_device_type s)) \<Longrightarrow>
      dd_ReadOscData del b (DeviceTypeDataSize (od_device_type s)) (od_device s) = Inr (OK, data, d)"
  shows "\<exists>raw t. DoCollect del en s = Inr (if IsSingle (dc_loop s) then STOP else NEXT_LOOP, t) \<and>
    PushBulk raw (od_queue s) = Inr (od_queue t) \<and> or_data raw = data \<and>
    oc_id (or_property raw) = cfg_id config \<and> od_next_state t = STATE_PRE_COLLECT \<and> od_device t = d"
proof -
  have pool: "pool_ok (od_pool s)" and queue: "queue_good (od_queue s)"
    using assms(1) by (simp_all add: osc_base_def)
  obtain c s1 where s1: "LastConfig s = Inr (c, s1)" "oc_id c = cfg_id config"
    "s1 = s\<lparr>od_last_config := Some c\<rparr>"
    using LastConfig_id [OF assms(4)] by (elim exE conjE) (rule that)
  obtain raw pool' where raw: "AllocOscRawData en c s1 = Inr (Some raw, s1\<lparr>od_pool := pool'\<rparr>)" "pool_ok pool'"
    "or_property raw = c" "rd_size (or_raw raw) = DeviceTypeDataSize (od_device_type s)"
    "length (or_data raw) = nat (DeviceTypeDataSize (od_device_type s))"
  proof -
    have f: "pool_ok (od_pool s1)" "DeviceTypeDataSize (od_device_type s1) \<le> UsagePool_Left (od_pool s1)"
      "od_device_type s1 = od_device_type s" using pool assms(3) by (simp_all add: s1(3))
    from AllocOscRawData_room [OF assms(2) f(1,2), of c] show thesis
      unfolding f(3) by (elim exE conjE) (rule that, assumption+, simp)
  qed
  obtain q where q: "PushBulk (raw\<lparr>or_data := data\<rparr>) (od_queue s) = Inr q"
    using PushBulk_good [OF queue, of "raw\<lparr>or_data := data\<rparr>"] by (elim exE conjE) (rule that)
  let ?s = "s1\<lparr>od_pool := pool', od_device := d, od_queue := q\<rparr>"
  obtain pool2 where pool2: "reclaim (references en q) pool' = Inr pool2"
    using reclaim_ok [OF raw(2), of "references en q"] by (elim exE conjE) (rule that)
  have "DoCollect del en s = Inr (if IsSingle (dc_loop s) then STOP else NEXT_LOOP,
      ?s\<lparr>od_pool := pool2, od_next_state := STATE_PRE_COLLECT\<rparr>)"
    using s1 raw assms(5) [OF raw(5)] q pool2 by (simp add: DoCollect_def drop_references_def Let_def)
  then show ?thesis using q s1(2) raw(3)
    by (intro exI [of _ "raw\<lparr>or_data := data\<rparr>"] exI) (rule conjI, assumption, simp)
qed


text \<open>Where the pool is full and the queue has nothing to recycle, the collecter asks for
  another loop but leaves no next state, so the debug check of \<open>OnLoopRun\<close> stops the
  program.\<close>

theorem osc_full_pool_asserts:
  assumes "osc_ok good s" and "od_next_state s = STATE_COLLECT" and "env_ok en"
    and "UsagePool_Left (od_pool s) < DeviceTypeDataSize (od_device_type s)"
    and "RecycleOne (od_queue s) = Inr (False, q)"
  shows "Osc_OnLoopRun del en s = Inl DcheckFailed"
proof -
  let ?s = "s\<lparr>od_next_state := STATE_NONE\<rparr>" and ?t = "od_device_type s"
  have base: "osc_base good ?s" using assms(1) by (simp add: osc_ok_def)
  then have pool: "pool_ok (od_pool s)" by (simp add: osc_base_def)
  obtain h config where "cm_history (od_config ?s) = h @ [config]"
    using base by (cases "cm_history (od_config s)" rule: rev_cases) (auto simp: osc_base_def)
  from LastConfig_id [OF this] obtain c where s1: "LastConfig ?s = Inr (c, ?s\<lparr>od_last_config := Some c\<rparr>)"
    by auto
  obtain raw where raw: "PooledOscRawData_new (en_fresh en (od_pool s)) ?t (od_pool s) = Inr (raw, od_pool s)"
    "\<not> rd_alloc_ok raw"
    using PooledOscRawData_new_ok [OF assms(3) pool, of ?t] assms(4) by auto
  have "alloc_loop en raw (od_pool s) (od_queue s) = Inr (None, od_pool s, q)"
    using raw(2) assms(5) by (subst alloc_loop.simps) simp
  then have "DoCollect del en ?s = Inr (NEXT_LOOP, ?s\<lparr>od_last_config := Some c, od_queue := q\<rparr>)"
    using s1 raw(1) by (simp add: DoCollect_def AllocOscRawData_def Let_def)
  then show ?thesis using assms(2) by (simp add: Osc_OnLoopRun_def run_state_def check_def)
qed

subsection \<open>The time limit\<close>

lemma SaveError_limit [simp]: "od_limit_time (DeviceOffine (SaveError e s)) = od_limit_time s"
  by (simp add: DeviceOffine_def SaveError_def)

lemma check_loop_limit: "check_loop del n s = Inr (state, t) \<Longrightarrow> od_limit_time t = od_limit_time s"
proof (induction n arbitrary: s)
  case (Suc n)
  then show ?case
    by (force simp: UpdateTriggerState_def CHECK_DEVICE_def Let_def split: if_splits)
qed simp

lemma LastConfig_limit: "LastConfig s = Inr (c, t) \<Longrightarrow> od_limit_time t = od_limit_time s"
  by (auto simp: LastConfig_def Let_def split: option.splits if_splits)

lemma AllocOscRawData_limit: "AllocOscRawData en c s = Inr (r, t) \<Longrightarrow> od_limit_time t = od_limit_time s"
  by (auto simp: AllocOscRawData_def Let_def split: option.splits)

lemma drop_references_limit: "drop_references en s = Inr t \<Longrightarrow> od_limit_time t = od_limit_time s"
  by (auto simp: drop_references_def)

lemma DoCollect_limit: "DoCollect del en s = Inr (state, t) \<Longrightarrow> od_limit_time t = od_limit_time s"
  by (auto simp: DoCollect_def Let_def dest!: LastConfig_limit AllocOscRawData_limit drop_references_limit
      split: option.splits if_splits)

lemma DoPreCollect_limit: "DoPreCollect del en s = Inr (state, t) \<Longrightarrow> od_limit_time t = od_limit_time s"
  by (auto simp: DoPreCollect_def StartScope_def Osc_WriteDevice_def CHECK_DEVICE_def Let_def
      split: option.splits if_splits)

lemma DoCheckCollect_limit:
  "DoCheckCollect del en s = Inr (state, t) \<Longrightarrow> od_limit_time t = od_limit_time s"
  by (auto simp: DoCheckCollect_def CHECK_DEVICE_def dest: check_loop_limit split: if_split_asm)

text \<open>The time limit of the automatic mode is never in force where the member
  \<open>limit_time_\<close> starts as False: no step of the collecter sets it, and then
  \<open>DoCheckCollect\<close> waits for the trigger whatever the clock says.\<close>

theorem osc_time_limit_dead:
  assumes "\<not> od_limit_time s"
  shows "DoCheckCollect del en s = check_loop del (nat kOscCollectUpdateStateCount) s \<and>
    (\<forall>state t. Osc_OnLoopRun del en s = Inr (state, t) \<longrightarrow> \<not> od_limit_time t)"
proof (intro conjI allI impI)
  show "DoCheckCollect del en s = check_loop del (nat kOscCollectUpdateStateCount) s"
    using assms by (simp add: DoCheckCollect_def CHECK_DEVICE_def)
next
  fix state t assume "Osc_OnLoopRun del en s = Inr (state, t)"
  then obtain state' where "run_state del en (od_next_state s) (s\<lparr>od_next_state := STATE_NONE\<rparr>) = Inr (state', t)"
    by (auto simp: Osc_OnLoopRun_def check_Inr_iff split: if_splits)
  then have "od_limit_time t = od_limit_time (s\<lparr>od_next_state := STATE_NONE\<rparr>)"
    by (cases "od_next_state s")
      (auto simp: run_state_def DoLoadCalibrate_def
        dest: DoPreCollect_limit DoCheckCollect_limit DoCollect_limit)
  then show "\<not> od_limit_time t" using assms by simp
qed

subsection \<open>A collecter for the witnesses\<close>

definition sample_delegate :: "unit DeviceDelegate" where
  "sample_delegate =
     \<lparr>dd_EnumDevices = \<lambda>d. Inr (OK, [], d), dd_OpenDevice = \<lambda>_ d. Inr (OK, d),
      dd_CloseDevice = \<lambda>d. Inr (OK, d), dd_DownloadFPGA = \<lambda>_ _ d. Inr (OK, d),
      dd_WriteDevice = \<lambda>_ _ _ d. Inr (OK, d), dd_ReadDevice = \<lambda>_ b _ d. Inr (OK, b, d),
      dd_GetDeviceInfo = \<lambda>rm d. Inr (OK, rm, d),
      dd_ReadOscData = \<lambda>b _ d. Inr (OK, map (\<lambda>_. 7) b, d),
      dd_ReadFrameData = \<lambda>b _ d. Inr (OK, map (\<lambda>_. 7) b, d)\<rparr>"

definition sample_osc :: "OscState \<Rightarrow> MemoryUsagePool \<Rightarrow> (nat, unit) OscDataCollecter" where
  "sample_osc state pool =
     \<lparr>dc_loop = ThreadedLoopRun_new, dc_stop_by_offine = False, dc_next_loop_delay = 25,
      od_next_state = state, od_calibrated = True, od_device = (),
      od_config = sample_config, od_device_type = DT_CS1203, od_last_config = None, od_rv = OK,
      od_trigger_state = \<lparr>rm_memory = replicate kTriggerStateSize 0, rm_start_addr = kTriggerStateAddr\<rparr>,
      od_pool = pool, od_queue = SequencedBulkQueue_new True False,
      od_limit_time = False, od_time_delta = 0, od_start_time = 0\<rparr>"

lemma sample_osc_ok: "pool_ok pool \<Longrightarrow> osc_base (\<lambda>_. True) (sample_osc state pool)"
  by (simp add: osc_base_def sample_osc_def trigger_state_ok_def queue_good_new sample_config_def)

definition full_pool :: MemoryUsagePool where
  "full_pool = (MemoryUsagePool_new kOscMemoryUsage)
     \<lparr>up_memory_usage := kOscMemoryUsage, up_alloced := [(1, kOscMemoryUsage)]\<rparr>"

lemma pool_ok_samples:
  "pool_ok (MemoryUsagePool_new kOscMemoryUsage)"
  "pool_ok full_pool"
  by (auto simp: pool_ok_def full_pool_def MemoryUsagePool_new_def usage_pool_inv_new [unfolded MemoryUsagePool_new_def]
      usage_pool_inv_def kOscMemoryUsage_def map_keys_ok_def)


lemma osc_full_pool_asserts_witness:
  "Osc_OnLoopRun sample_delegate sample_env (sample_osc STATE_COLLECT
     full_pool) = Inl DcheckFailed"
proof (rule osc_full_pool_asserts [OF _ _ sample_env_ok])
  let ?s = "sample_osc STATE_COLLECT full_pool"
  show "osc_ok (\<lambda>_. True) ?s" using sample_osc_ok [OF pool_ok_samples(2)]
    by (simp add: osc_ok_def) (simp add: sample_osc_def)
  show "od_next_state ?s = STATE_COLLECT" by (simp add: sample_osc_def)
  show "UsagePool_Left (od_pool ?s) < DeviceTypeDataSize (od_device_type ?s)"
    by (simp add: sample_osc_def UsagePool_Left_def DeviceTypeDataSize_def DeviceK_def full_pool_def
        MemoryUsagePool_new_def)
  show "RecycleOne (od_queue ?s) = Inr (False, od_queue ?s)"
    by (simp add: sample_osc_def RecycleOne_def SequencedBulkQueue_new_def check_def Let_def)
qed

lemma osc_time_limit_dead_witness:
  "DoCheckCollect sample_delegate (sample_env\<lparr>en_now := 10 ^ 9\<rparr>)
      (sample_osc STATE_NONE (MemoryUsagePool_new kOscMemoryUsage)) =
    check_loop sample_delegate (nat kOscCollectUpdateStateCount)
      (sample_osc STATE_NONE (MemoryUsagePool_new kOscMemoryUsage))"
  using osc_time_limit_dead [of "sample_osc STATE_NONE (MemoryUsagePool_new kOscMemoryUsage)"
      sample_delegate "sample_env\<lparr>en_now := 10 ^ 9\<rparr>"] by (simp add: sample_osc_def)

end
