(* ===== verification/Frame_Collecter.thy ===== *)
theory Frame_Collecter
  imports Data_Collecter Device_Constants Registers Bulk_Queue
begin

text \<open>
  \<open>FrameDataCollecter\<close> (canscope/device/frame_device/frame_data_collecter.h,
  frame_data_collecter.cc), with the raw data it pushes (frame_raw_data.h, frame_raw_data.cc).

  \<open>garbage d n\<close> is what a new array of \<open>n\<close> bytes holds.  \<open>DoCleanLeftover\<close> reads until the
  device has nothing left, so it may not return: the value None.
\<close>

subsection \<open>Raw data\<close>

record FrameRawData =
  fr_data :: mem
  fr_size :: int
  fr_real_size :: int
  fr_own :: bool

text \<open>A negative size is an enormous one for \<open>new[]\<close>.\<close>

definition new_array :: "('d \<Rightarrow> int \<Rightarrow> mem) \<Rightarrow> 'd \<Rightarrow> int \<Rightarrow> mem res" where
  "new_array garbage d n = check BadAlloc (0 \<le> n) (Inr (garbage d n))"

definition garbage_ok :: "('d \<Rightarrow> int \<Rightarrow> mem) \<Rightarrow> bool" where
  "garbage_ok garbage \<longleftrightarrow> (\<forall>d n. length (garbage d n) = nat n)"

definition FrameRawData_new :: "('d \<Rightarrow> int \<Rightarrow> mem) \<Rightarrow> 'd \<Rightarrow> int \<Rightarrow> FrameRawData res" where
  "FrameRawData_new garbage d n =
     and_then (new_array garbage d n) (\<lambda>data.
       Inr \<lparr>fr_data = data, fr_size = n, fr_real_size = 0, fr_own = True\<rparr>)"

definition set_real_size :: "int \<Rightarrow> FrameRawData \<Rightarrow> FrameRawData" where
  "set_real_size n raw = raw\<lparr>fr_real_size := n\<rparr>"

subsection \<open>The collecter\<close>

datatype FrameState =
    FS_CLEAN_LEFTOVER
  | FS_CHECK_COLLECT
  | FS_WAIT_FULL
  | FS_COLLECT
  | FS_NONE

record 'd FrameDataCollecter = DataCollecter +
  fd_last_error :: Error
  fd_next_state :: FrameState
  fd_device :: 'd
  fd_clean_leftover :: bool
  fd_queue :: "FrameRawData SequencedBulkQueue"

text \<open>The constructor; \<open>stop_by_offine_\<close> has no initialiser.\<close>

definition FrameDataCollecter_new :: "'d \<Rightarrow> bool \<Rightarrow> bool \<Rightarrow> 'd FrameDataCollecter" where
  "FrameDataCollecter_new device clean_leftover stop_by_offine =
     \<lparr>dc_loop = ThreadedLoopRun_new, dc_stop_by_offine = stop_by_offine, dc_next_loop_delay = 0,
      fd_last_error = OK, fd_next_state = FS_CLEAN_LEFTOVER, fd_device = device,
      fd_clean_leftover = clean_leftover, fd_queue = SequencedBulkQueue_new False True\<rparr>"

definition Frame_DeviceOffine :: "'d FrameDataCollecter \<Rightarrow> 'd FrameDataCollecter" where
  "Frame_DeviceOffine s = s\<lparr>fd_next_state := FS_CLEAN_LEFTOVER, dc_stop_by_offine := True\<rparr>"

definition Frame_SaveError :: "Error \<Rightarrow> 'd FrameDataCollecter \<Rightarrow> 'd FrameDataCollecter" where
  "Frame_SaveError error s = s\<lparr>fd_last_error := error\<rparr>"

type_synonym 'd frame_result = "(LoopState \<times> 'd FrameDataCollecter) res"

definition Frame_CHECK_DEVICE ::
  "Error \<Rightarrow> 'd FrameDataCollecter \<Rightarrow> 'd frame_result \<Rightarrow> 'd frame_result" where
  "Frame_CHECK_DEVICE error s rest =
     (if error \<noteq> OK then Inr (STOP, Frame_DeviceOffine (Frame_SaveError error s)) else rest)"

definition Frame_ReadDevice ::
  "'d DeviceDelegate \<Rightarrow> RegisterMemory \<Rightarrow> 'd FrameDataCollecter \<Rightarrow>
     (Error \<times> RegisterMemory \<times> 'd FrameDataCollecter) res" where
  "Frame_ReadDevice del rm s =
     and_then (and_then (RegisterMemory_buffer rm) (\<lambda>m.
       dd_ReadDevice del (rm_start_addr rm) m (RegisterMemory_size rm) (fd_device s))) (\<lambda>(e, b, d).
     Inr (e, rm\<lparr>rm_memory := b\<rparr>, s\<lparr>fd_device := d\<rparr>))"

text \<open>Reading the storage register into a new one, and its frame number as an \<open>int\<close>.\<close>

definition read_storage ::
  "'d DeviceDelegate \<Rightarrow> 'd FrameDataCollecter \<Rightarrow> (Error \<times> RegisterMemory \<times> 'd FrameDataCollecter) res" where
  "read_storage del s = and_then FrameStorageRegister_new (\<lambda>frame_storage. Frame_ReadDevice del frame_storage s)"

definition frame_num :: "RegisterMemory \<Rightarrow> int res" where
  "frame_num rm =
     and_then (simple_value FrameStorage_frame_num (rm_memory rm) :: u32 res) (\<lambda>w. Inr (sint w))"

definition read_size :: "int \<Rightarrow> int" where
  "read_size num = (if num > kFrameBufferMaxSize then kFrameBufferMaxSize else num)"

text \<open>One turn of the loop in \<open>DoCleanLeftover\<close>: None goes on.\<close>

definition clean_turn ::
  "'d DeviceDelegate \<Rightarrow> ('d \<Rightarrow> int \<Rightarrow> mem) \<Rightarrow> 'd FrameDataCollecter \<Rightarrow>
     (LoopState option \<times> 'd FrameDataCollecter) res" where
  "clean_turn del garbage s =
     and_then (read_storage del s) (\<lambda>(err, frame_storage, s).
       if err \<noteq> OK then Inr (Some STOP, Frame_DeviceOffine (Frame_SaveError err s))
       else and_then (frame_num frame_storage) (\<lambda>num.
         if num = 0 then Inr (Some IMMEDIATE, s\<lparr>fd_next_state := FS_CHECK_COLLECT\<rparr>)
         else and_then (new_array garbage (fd_device s) (read_size num)) (\<lambda>buffer.
              and_then (dd_ReadFrameData del buffer (read_size num) (fd_device s)) (\<lambda>(err, _, d).
                let s = s\<lparr>fd_device := d\<rparr> in
                if err \<noteq> OK then Inr (Some STOP, Frame_DeviceOffine (Frame_SaveError err s))
                else Inr (None, s)))))"

partial_function (option) clean_loop ::
  "'d DeviceDelegate \<Rightarrow> ('d \<Rightarrow> int \<Rightarrow> mem) \<Rightarrow> 'd FrameDataCollecter \<Rightarrow> 'd frame_result option" where
  "clean_loop del garbage s =
     (case clean_turn del garbage s of
        Inl e \<Rightarrow> Some (Inl e)
      | Inr (Some loop_state, s) \<Rightarrow> Some (Inr (loop_state, s))
      | Inr (None, s) \<Rightarrow> clean_loop del garbage s)"

definition DoCleanLeftover ::
  "'d DeviceDelegate \<Rightarrow> ('d \<Rightarrow> int \<Rightarrow> mem) \<Rightarrow> 'd FrameDataCollecter \<Rightarrow> 'd frame_result option" where
  "DoCleanLeftover del garbage s =
     (if \<not> fd_clean_leftover s then Some (Inr (IMMEDIATE, s\<lparr>fd_next_state := FS_CHECK_COLLECT\<rparr>))
      else clean_loop del garbage s)"

text \<open>The part that \<open>DoCheckCollect\<close> and \<open>DoCollect\<close> share.\<close>

definition with_frames ::
  "'d DeviceDelegate \<Rightarrow> 'd FrameDataCollecter \<Rightarrow>
     (int \<Rightarrow> 'd FrameDataCollecter \<Rightarrow> 'd frame_result) \<Rightarrow> 'd frame_result" where
  "with_frames del s k =
     and_then (read_storage del s) (\<lambda>(err, frame_storage, s).
     Frame_CHECK_DEVICE err s (
     and_then (bool_value FrameStorage_overflow (rm_memory frame_storage)) (\<lambda>_.
     and_then (frame_num frame_storage) (\<lambda>num.
       if trunc_mod num kFrameSize \<noteq> 0 then Inr (STOP, Frame_SaveError ERR_FRAME_SIZE_NO_ALIGNED s)
       else k num s))))"

definition Frame_DoCheckCollect :: "'d DeviceDelegate \<Rightarrow> 'd FrameDataCollecter \<Rightarrow> 'd frame_result" where
  "Frame_DoCheckCollect del s =
     with_frames del s (\<lambda>num s.
       if num < kFrameBufferMaxSize
       then Inr (NEXT_LOOP, s\<lparr>dc_next_loop_delay := kFrameWaitFull, fd_next_state := FS_WAIT_FULL\<rparr>)
       else Inr (IMMEDIATE, s\<lparr>fd_next_state := FS_COLLECT\<rparr>))"

definition DoWaitFull :: "'d FrameDataCollecter \<Rightarrow> 'd frame_result" where
  "DoWaitFull s = Inr (IMMEDIATE, s\<lparr>fd_next_state := FS_COLLECT\<rparr>)"

definition Frame_DoCollect ::
  "'d DeviceDelegate \<Rightarrow> ('d \<Rightarrow> int \<Rightarrow> mem) \<Rightarrow> 'd FrameDataCollecter \<Rightarrow> 'd frame_result" where
  "Frame_DoCollect del garbage s =
     with_frames del s (\<lambda>num s.
       if num = 0
       then Inr (NEXT_LOOP, s\<lparr>fd_next_state := FS_CHECK_COLLECT, dc_next_loop_delay := 1\<rparr>)
       else
         and_then (FrameRawData_new garbage (fd_device s) (read_size num)) (\<lambda>raw_data.
         and_then (dd_ReadFrameData del (fr_data raw_data) (fr_size raw_data) (fd_device s)) (\<lambda>(err, data, d).
         let s = s\<lparr>fd_device := d\<rparr> in
         Frame_CHECK_DEVICE err s (
         and_then (PushBulk (set_real_size (read_size num) (raw_data\<lparr>fr_data := data\<rparr>)) (fd_queue s)) (\<lambda>q.
           Inr (if \<not> IsSingle (dc_loop s) then NEXT_LOOP else STOP,
                s\<lparr>fd_queue := q, fd_next_state := FS_CHECK_COLLECT, dc_next_loop_delay := 1\<rparr>))))))"

definition frame_run_state ::
  "'d DeviceDelegate \<Rightarrow> ('d \<Rightarrow> int \<Rightarrow> mem) \<Rightarrow> FrameState \<Rightarrow> 'd FrameDataCollecter \<Rightarrow> 'd frame_result option" where
  "frame_run_state del garbage state s =
     (case state of
        FS_CLEAN_LEFTOVER \<Rightarrow> DoCleanLeftover del garbage s
      | FS_CHECK_COLLECT \<Rightarrow> Some (Frame_DoCheckCollect del s)
      | FS_WAIT_FULL \<Rightarrow> Some (DoWaitFull s)
      | FS_COLLECT \<Rightarrow> Some (Frame_DoCollect del garbage s)
      | FS_NONE \<Rightarrow> Some (Inl NotReached))"

definition Frame_OnLoopRun ::
  "'d DeviceDelegate \<Rightarrow> ('d \<Rightarrow> int \<Rightarrow> mem) \<Rightarrow> 'd FrameDataCollecter \<Rightarrow> 'd frame_result option" where
  "Frame_OnLoopRun del garbage s =
     (if fd_next_state s = FS_NONE then Some (Inl CheckFailed)
      else case frame_run_state del garbage (fd_next_state s) (s\<lparr>fd_next_state := FS_NONE\<rparr>) of
          None \<Rightarrow> None
        | Some r \<Rightarrow> Some (and_then r (\<lambda>(loop_state, s).
            if fd_next_state s = FS_NONE then Inr (STOP, s) else Inr (loop_state, s))))"

subsection \<open>Every step\<close>

definition frame_base :: "('d \<Rightarrow> bool) \<Rightarrow> 'd FrameDataCollecter \<Rightarrow> bool" where
  "frame_base good s \<longleftrightarrow> good (fd_device s) \<and> bulk_inv (fd_queue s)"

text \<open>A good state: one of the machine's, and no clean-up ahead.\<close>

definition frame_ok :: "('d \<Rightarrow> bool) \<Rightarrow> 'd FrameDataCollecter \<Rightarrow> bool" where
  "frame_ok good s \<longleftrightarrow> frame_base good s \<and> fd_next_state s \<noteq> FS_NONE \<and>
     (fd_next_state s = FS_CLEAN_LEFTOVER \<longrightarrow> \<not> fd_clean_leftover s)"

definition frame_rank :: "'d FrameDataCollecter \<Rightarrow> nat" where
  "frame_rank s =
     (case fd_next_state s of FS_CLEAN_LEFTOVER \<Rightarrow> 3 | FS_CHECK_COLLECT \<Rightarrow> 2 | FS_WAIT_FULL \<Rightarrow> 2
      | FS_COLLECT \<Rightarrow> 1 | FS_NONE \<Rightarrow> 0)"

definition frame_step :: "('d \<Rightarrow> bool) \<Rightarrow> nat \<Rightarrow> 'd frame_result \<Rightarrow> bool" where
  "frame_step good n r \<longleftrightarrow>
     r = Inl BadAlloc \<or>
     (\<exists>state t. r = Inr (state, t) \<and>
        (state = STOP \<or> frame_ok good t \<and> (state = IMMEDIATE \<longrightarrow> frame_rank t < n)))"

lemma frame_step_intros:
  "frame_step good n (Inl BadAlloc)"
  "frame_step good n (Inr (STOP, t))"
  "frame_ok good t \<Longrightarrow> state \<noteq> IMMEDIATE \<Longrightarrow> frame_step good n (Inr (state, t))"
  "frame_ok good t \<Longrightarrow> frame_rank t < n \<Longrightarrow> frame_step good n (Inr (state, t))"
  by (simp_all add: frame_step_def)

lemma frame_base_simps [simp]:
  "frame_base good (s\<lparr>fd_next_state := n\<rparr>) = frame_base good s"
  "frame_base good (s\<lparr>dc_next_loop_delay := i\<rparr>) = frame_base good s"
  "frame_base good (s\<lparr>fd_device := d\<rparr>) \<longleftrightarrow> good d \<and> bulk_inv (fd_queue s)"
  by (simp_all add: frame_base_def)

lemma storage_fields:
  assumes "length (rm_memory rm) = kFrameStorageSize"
  shows "\<exists>num. frame_num rm = Inr num" and "\<exists>b. bool_value FrameStorage_overflow (rm_memory rm) = Inr b"
proof -
  have "LENGTH(32) div 8 \<le> length (take 4 (drop 4 (rm_memory rm)))"
    using assms by (simp add: register_consts)
  from ReadLittleEndian_total [OF this] obtain w :: u32
    where "ReadLittleEndian (take 4 (drop 4 (rm_memory rm))) = Inr w" by auto
  then show "\<exists>num. frame_num rm = Inr num"
    using assms by (simp add: frame_num_def simple_value_def load_bytes_def check_def register_consts register_members)
next
  have "kFrameOverFlowOffset < length (rm_memory rm)" using assms by (simp add: register_consts)
  then show "\<exists>b. bool_value FrameStorage_overflow (rm_memory rm) = Inr b"
    by (auto simp: bool_value_def load8_def check_def Let_def register_members)
qed

lemma kFrame_bounds: "0 < read_size num \<longleftrightarrow> 0 < num" "read_size num \<le> kFrameBufferMaxSize"
  by (simp_all add: read_size_def kFrameBufferMaxSize_def)

locale frame_delegate = device_delegate +
  assumes storage: "register kFrameStorageAddr (int kFrameStorageSize)"
    and block: "0 < n \<Longrightarrow> n \<le> kFrameBufferMaxSize \<Longrightarrow> transfer n"
begin

lemma read_storage_ok:
  assumes "inv (fd_device s)"
  shows "\<exists>e rm d. read_storage del s = Inr (e, rm, s\<lparr>fd_device := d\<rparr>) \<and> inv d \<and>
    length (rm_memory rm) = kFrameStorageSize"
proof -
  obtain rm where rm: "FrameStorageRegister_new = Inr rm" "rm_start_addr rm = kFrameStorageAddr"
    "length (rm_memory rm) = kFrameStorageSize"
    by (simp add: FrameStorageRegister_new_def RegisterMemory_new_def register_consts)
  have reg: "register (rm_start_addr rm) (RegisterMemory_size rm)" and ne: "rm_memory rm \<noteq> []"
    using rm storage by (auto simp: RegisterMemory_size_def register_consts)
  obtain e b d where rd: "and_then (RegisterMemory_buffer rm) (\<lambda>m.
      dd_ReadDevice del (rm_start_addr rm) m (RegisterMemory_size rm) (fd_device s)) = Inr (e, b, d)"
    "inv d" "length b = length (rm_memory rm)"
    using read_register [OF assms reg ne] by (elim exE conjE) (rule that)
  have "read_storage del s = Inr (e, rm\<lparr>rm_memory := b\<rparr>, s\<lparr>fd_device := d\<rparr>)"
    by (simp only: read_storage_def Frame_ReadDevice_def rm(1) and_then_simps rd(1) prod.case)
  then show ?thesis using rd(2,3) rm(3) by auto
qed

lemma with_frames_ok:
  assumes "frame_base inv s"
    and "\<And>num t. frame_base inv t \<Longrightarrow> trunc_mod num kFrameSize = 0 \<Longrightarrow> frame_step inv n (k num t)"
  shows "frame_step inv n (with_frames del s k)"
proof -
  have d: "inv (fd_device s)" and q: "bulk_inv (fd_queue s)" using assms(1) by (simp_all add: frame_base_def)
  obtain e rm d where r: "read_storage del s = Inr (e, rm, s\<lparr>fd_device := d\<rparr>)" "inv d"
    "length (rm_memory rm) = kFrameStorageSize"
    using read_storage_ok [OF d] by (elim exE conjE) (rule that)
  obtain num b where "frame_num rm = Inr num" "bool_value FrameStorage_overflow (rm_memory rm) = Inr b"
    using storage_fields [OF r(3)] by auto
  then show ?thesis
    using r(1) assms(2) [of "s\<lparr>fd_device := d\<rparr>" num] r(2) q
    by (simp add: with_frames_def Frame_CHECK_DEVICE_def frame_step_intros)
qed

lemma DoCheckCollect_ok: "frame_base inv s \<Longrightarrow> frame_step inv 2 (Frame_DoCheckCollect del s)"
  unfolding Frame_DoCheckCollect_def
  by (rule with_frames_ok) (simp_all add: frame_step_def frame_ok_def frame_rank_def)

lemma DoCollect_ok:
  assumes "frame_base inv s" and "garbage_ok garbage"
  shows "frame_step inv 1 (Frame_DoCollect del garbage s)"
  unfolding Frame_DoCollect_def
proof (rule with_frames_ok [OF assms(1)])
  fix num and t :: "'a FrameDataCollecter" assume t: "frame_base inv t"
  let ?n = "read_size num" and ?b = "garbage (fd_device t) (read_size num)"
  consider (none) "num = 0" | (neg) "num < 0" | (pos) "0 < num" by linarith
  then show "frame_step inv 1
      (if num = 0
       then Inr (NEXT_LOOP, t\<lparr>fd_next_state := FS_CHECK_COLLECT, dc_next_loop_delay := 1\<rparr>)
       else
         and_then (FrameRawData_new garbage (fd_device t) (read_size num)) (\<lambda>raw_data.
         and_then (dd_ReadFrameData del (fr_data raw_data) (fr_size raw_data) (fd_device t)) (\<lambda>(err, data, d).
         let s = t\<lparr>fd_device := d\<rparr> in
         Frame_CHECK_DEVICE err s (
         and_then (PushBulk (set_real_size (read_size num) (raw_data\<lparr>fr_data := data\<rparr>)) (fd_queue s)) (\<lambda>q.
           Inr (if \<not> IsSingle (dc_loop s) then NEXT_LOOP else STOP,
                s\<lparr>fd_queue := q, fd_next_state := FS_CHECK_COLLECT, dc_next_loop_delay := 1\<rparr>))))))"
  proof cases
    case none
    then show ?thesis using t by (simp add: frame_step_def frame_ok_def)
  next
    case neg
    then have "FrameRawData_new garbage (fd_device t) ?n = Inl BadAlloc"
      by (simp add: FrameRawData_new_def new_array_def check_def read_size_def kFrameBufferMaxSize_def)
    then show ?thesis using neg by (simp add: frame_step_def)
  next
    case pos
    let ?raw = "\<lparr>fr_data = ?b, fr_size = ?n, fr_real_size = 0, fr_own = True\<rparr>"
    have n: "0 < ?n" using pos by (simp add: kFrame_bounds(1))
    then have raw: "FrameRawData_new garbage (fd_device t) ?n = Inr ?raw"
      by (simp add: FrameRawData_new_def new_array_def check_def)
    have d: "inv (fd_device t)" and q: "bulk_inv (fd_queue t)" using t by (simp_all add: frame_base_def)
    have len: "?n = int (length ?b)" using assms(2) n by (simp add: garbage_ok_def)
    obtain e b d' where rd: "dd_ReadFrameData del ?b ?n (fd_device t) = Inr (e, b, d')" "inv d'"
      using read_frame [OF d block [OF n kFrame_bounds(2)] len] by (elim exE conjE) (rule that)
    obtain q' where q': "PushBulk (set_real_size ?n (?raw\<lparr>fr_data := b\<rparr>)) (fd_queue t) = Inr q'" "bulk_inv q'"
      using PushBulk_ok [OF q] by blast
    show ?thesis using pos raw rd q'
      by (auto simp: Let_def Frame_CHECK_DEVICE_def frame_step_def frame_ok_def frame_base_def)
  qed
qed

lemma OnLoopRun_ok:
  assumes "frame_ok inv s" and "garbage_ok garbage"
  shows "\<exists>r. Frame_OnLoopRun del garbage s = Some r \<and> frame_step inv (frame_rank s) r"
proof -
  let ?s = "s\<lparr>fd_next_state := FS_NONE\<rparr>"
  have base: "frame_base inv ?s" and state: "fd_next_state s \<noteq> FS_NONE"
    using assms(1) by (simp_all add: frame_ok_def)
  have clean: "frame_step inv 3 (Inr (IMMEDIATE, ?s\<lparr>fd_next_state := FS_CHECK_COLLECT\<rparr>))"
    and wait: "frame_step inv 2 (DoWaitFull ?s)"
    using base by (simp_all add: frame_step_def frame_ok_def frame_rank_def DoWaitFull_def)
  have "\<exists>r. frame_run_state del garbage (fd_next_state s) ?s = Some r \<and> frame_step inv (frame_rank s) r"
    using state assms(1) clean wait DoCheckCollect_ok [OF base] DoCollect_ok [OF base assms(2)]
    by (cases "fd_next_state s")
      (simp_all add: frame_run_state_def DoCleanLeftover_def frame_rank_def frame_ok_def)
  then show ?thesis using state
    by (auto simp: Frame_OnLoopRun_def frame_step_def frame_ok_def)
qed

end

interpretation frame_usb: frame_delegate "UsbPortDeviceDelegate enum win" "\<lambda>p. port_ok p \<and> reads_bounded win"
    "\<lambda>addr sz. 0 \<le> sz \<and> sz \<le> 48" "\<lambda>sz. 0 < sz \<and> sz < 2 ^ 31"
  for enum :: "'s \<Rightarrow> string list option \<times> 's" and win :: "'s windows"
  by unfold_locales (simp_all add: register_consts kFrameBufferMaxSize_def)

interpretation frame: collecter "Frame_OnLoopRun (UsbPortDeviceDelegate enum win) garbage"
    "\<lambda>s. frame_ok (\<lambda>p. port_ok p \<and> reads_bounded win) s \<and> garbage_ok garbage" frame_rank
    "\<lambda>e. e = BadAlloc"
  for enum :: "'s \<Rightarrow> string list option \<times> 's" and win :: "'s windows"
    and garbage :: "'s UsbPort \<Rightarrow> int \<Rightarrow> mem"
proof (unfold_locales, goal_cases)
  case (1 s state t)
  then show ?case using frame_usb.OnLoopRun_ok [of win s garbage enum] by (auto simp: frame_step_def)
next
  case (2 s)
  then show ?case using frame_usb.OnLoopRun_ok [of win s garbage enum] by auto
next
  case (3 s e)
  then show ?case using frame_usb.OnLoopRun_ok [of win s garbage enum] by (auto simp: frame_step_def)
qed

subsection \<open>The loop over the USB port\<close>

lemma FrameDataCollecter_new_base: "good device \<Longrightarrow> frame_base good (FrameDataCollecter_new device clean stop)"
  by (simp add: frame_base_def FrameDataCollecter_new_def bulk_inv_def queue_ok_def readers_ok_def
      callbacks_ok_def SequencedBulkQueue_new_def)


definition zeros :: "'d \<Rightarrow> int \<Rightarrow> mem" where
  "zeros d n = replicate (nat n) 0"

lemma zeros_ok: "garbage_ok zeros"
  by (simp add: garbage_ok_def zeros_def)


subsection \<open>The clean-up\<close>

text \<open>What the register says: in the state \<open>d\<close> the device reports \<open>num\<close> bytes, and its state
  is \<open>d'\<close> afterwards.\<close>

definition reports :: "'d DeviceDelegate \<Rightarrow> 'd \<Rightarrow> int \<Rightarrow> 'd \<Rightarrow> bool" where
  "reports del d num d' \<longleftrightarrow>
     (\<forall>s. fd_device s = d \<longrightarrow>
        (\<exists>rm. read_storage del s = Inr (OK, rm, s\<lparr>fd_device := d'\<rparr>) \<and>
           length (rm_memory rm) = kFrameStorageSize \<and> frame_num rm = Inr num))"

text \<open>A device whose frames run out: what is read is gone.\<close>

definition drains :: "'d DeviceDelegate \<Rightarrow> ('d \<Rightarrow> nat) \<Rightarrow> bool" where
  "drains del stock \<longleftrightarrow>
     (\<forall>d. \<exists>num d'. 0 \<le> num \<and> reports del d num d' \<and> stock d' \<le> stock d) \<and>
     (\<forall>d b n. 0 < n \<longrightarrow> n \<le> kFrameBufferMaxSize \<longrightarrow> length b = nat n \<longrightarrow>
        (\<exists>e b' d'. dd_ReadFrameData del b n d = Inr (e, b', d') \<and> (e = OK \<longrightarrow> stock d' < stock d)))"

lemma clean_turn_drains:
  assumes "drains del stock" and "garbage_ok garbage"
  shows "(\<exists>t. clean_turn del garbage s = Inr (None, t) \<and> stock (fd_device t) < stock (fd_device s)) \<or>
    (\<exists>t. clean_turn del garbage s = Inr (Some IMMEDIATE, t) \<and> fd_next_state t = FS_CHECK_COLLECT) \<or>
    (\<exists>t. clean_turn del garbage s = Inr (Some STOP, t) \<and> dc_stop_by_offine t)"
proof -
  obtain num d1 rm where r: "0 \<le> num" "stock d1 \<le> stock (fd_device s)"
    "read_storage del s = Inr (OK, rm, s\<lparr>fd_device := d1\<rparr>)" "frame_num rm = Inr num"
    using assms(1) unfolding drains_def reports_def by metis
  show ?thesis
  proof (cases "num = 0")
    case True
    then show ?thesis using r by (simp add: clean_turn_def)
  next
    case False
    let ?n = "read_size num" and ?b = "garbage d1 (read_size num)"
    have n: "0 < ?n" "?n \<le> kFrameBufferMaxSize" using False r(1) kFrame_bounds [of num] by auto
    have "length ?b = nat ?n" using assms(2) by (simp add: garbage_ok_def)
    then obtain e b' d2 where rd: "dd_ReadFrameData del ?b ?n d1 = Inr (e, b', d2)"
      "e = OK \<longrightarrow> stock d2 < stock d1"
      using assms(1) n unfolding drains_def by blast
    have turn: "clean_turn del garbage s = (let t = s\<lparr>fd_device := d2\<rparr> in
        if e \<noteq> OK then Inr (Some STOP, Frame_DeviceOffine (Frame_SaveError e t)) else Inr (None, t))"
      using r(3,4) False n(1) rd(1) by (simp add: clean_turn_def new_array_def check_def Let_def)
    show ?thesis
    proof (cases "e = OK")
      case True
      then show ?thesis using turn rd(2) r(2) by (simp add: Let_def)
    next
      case False
      then show ?thesis using turn by (simp add: Let_def Frame_DeviceOffine_def)
    qed
  qed
qed

lemma clean_loop_drains:
  assumes "drains del stock" and "garbage_ok garbage"
  shows "\<exists>state t. clean_loop del garbage s = Some (Inr (state, t)) \<and>
    (state = IMMEDIATE \<and> fd_next_state t = FS_CHECK_COLLECT \<or> state = STOP \<and> dc_stop_by_offine t)"
proof (induction "stock (fd_device s)" arbitrary: s rule: less_induct)
  case less
  from clean_turn_drains [OF assms, of s] show ?case
  proof (elim disjE exE conjE)
    fix t assume t: "clean_turn del garbage s = Inr (None, t)" "stock (fd_device t) < stock (fd_device s)"
    have "clean_loop del garbage s = clean_loop del garbage t"
      using t(1) by (subst clean_loop.simps) simp
    then show ?thesis using less [OF t(2)] by simp
  qed (subst clean_loop.simps, simp)+
qed

text \<open>The clean-up at the start returns on every device whose stock of frames shrinks with
  each read that succeeds, and it either goes on to the collection or, after a failed read,
  stops and marks the collecter for a restart.\<close>

theorem clean_leftover_terminates:
  assumes "drains del stock" and "garbage_ok garbage"
  shows "\<exists>state t. DoCleanLeftover del garbage s = Some (Inr (state, t)) \<and>
    (state = IMMEDIATE \<and> fd_next_state t = FS_CHECK_COLLECT \<or> state = STOP \<and> dc_stop_by_offine t)"
  using clean_loop_drains [OF assms, of s] by (simp add: DoCleanLeftover_def)

text \<open>A device that always has more: \<open>busy\<close> is a set of its states.\<close>

definition endless :: "'d DeviceDelegate \<Rightarrow> ('d \<Rightarrow> int \<Rightarrow> mem) \<Rightarrow> ('d \<Rightarrow> bool) \<Rightarrow> bool" where
  "endless del garbage busy \<longleftrightarrow>
     (\<forall>d. busy d \<longrightarrow> (\<exists>num d1 b d2. 0 < num \<and> reports del d num d1 \<and>
        dd_ReadFrameData del (garbage d1 (read_size num)) (read_size num) d1 = Inr (OK, b, d2) \<and> busy d2))"

lemma clean_turn_endless:
  assumes "endless del garbage busy" and "busy (fd_device s)"
  shows "\<exists>t. clean_turn del garbage s = Inr (None, t) \<and> busy (fd_device t)"
proof -
  obtain num d1 rm b d2 where r: "0 < num" "read_storage del s = Inr (OK, rm, s\<lparr>fd_device := d1\<rparr>)"
    "frame_num rm = Inr num" "busy d2"
    "dd_ReadFrameData del (garbage d1 (read_size num)) (read_size num) d1 = Inr (OK, b, d2)"
    using assms unfolding endless_def reports_def by metis
  then have "0 < read_size num" by (simp add: kFrame_bounds)
  then show ?thesis using r by (simp add: clean_turn_def new_array_def check_def Let_def)
qed

lemma clean_loop_endless:
  assumes "endless del garbage busy" and "busy (fd_device s)"
  shows "clean_loop del garbage s = None"
proof (rule ccontr)
  assume "clean_loop del garbage s \<noteq> None"
  then obtain r where "clean_loop del garbage s = Some r" by auto
  then have "del = del \<longrightarrow> garbage = garbage \<longrightarrow> \<not> busy (fd_device s)"
  proof (rule clean_loop.raw_induct
      [where P = "\<lambda>del1 garbage1 s1 _. del1 = del \<longrightarrow> garbage1 = garbage \<longrightarrow> \<not> busy (fd_device s1)", rotated],
      intro impI notI)
    fix loop del1 garbage1 s1 r1
    assume IH: "\<And>d g t y. loop d g t = Some y \<Longrightarrow> d = del \<longrightarrow> g = garbage \<longrightarrow> \<not> busy (fd_device t)"
      and body: "(case clean_turn del1 garbage1 s1 of Inl e \<Rightarrow> Some (Inl e)
        | Inr (None, s) \<Rightarrow> loop del1 garbage1 s
        | Inr (Some loop_state, s) \<Rightarrow> Some (Inr (loop_state, s))) = Some r1"
      and eqs: "del1 = del" "garbage1 = garbage" and "busy (fd_device s1)"
    then obtain t where "clean_turn del garbage s1 = Inr (None, t)" "busy (fd_device t)"
      using clean_turn_endless [OF assms(1)] by blast
    then show False using IH [of del garbage t r1] body eqs by simp
  qed
  then show False using assms(2) by simp
qed

text \<open>On a device that always has more, the clean-up never returns, and so neither does the
  run of the collecter's loop that it is part of: nothing in it looks at the stop request.\<close>

theorem clean_leftover_forever:
  assumes "endless del garbage busy" and "busy (fd_device s)" and "fd_clean_leftover s"
    and "fd_next_state s = FS_CLEAN_LEFTOVER"
  shows "DoCleanLeftover del garbage s = None \<and> LoopRunImp (Frame_OnLoopRun del garbage) s = None"
proof -
  have none: "DoCleanLeftover del garbage t = None" if "busy (fd_device t)" "fd_clean_leftover t" for t
    using clean_loop_endless [OF assms(1) that(1)] that(2) by (simp add: DoCleanLeftover_def)
  have "Frame_OnLoopRun del garbage s = None"
    using none [of "s\<lparr>fd_next_state := FS_NONE\<rparr>"] assms(2-4)
    by (simp add: Frame_OnLoopRun_def frame_run_state_def)
  then show ?thesis using none [OF assms(2,3)] by (subst LoopRunImp.simps) simp
qed

subsection \<open>A block that splits a frame\<close>

lemma with_frames_reports:
  assumes "reports del (fd_device s) num d"
  shows "with_frames del s k =
    (if trunc_mod num kFrameSize \<noteq> 0
     then Inr (STOP, Frame_SaveError ERR_FRAME_SIZE_NO_ALIGNED (s\<lparr>fd_device := d\<rparr>))
     else k num (s\<lparr>fd_device := d\<rparr>))"
proof -
  obtain rm where "read_storage del s = Inr (OK, rm, s\<lparr>fd_device := d\<rparr>)"
    "length (rm_memory rm) = kFrameStorageSize" "frame_num rm = Inr num"
    using assms unfolding reports_def by blast
  then show ?thesis using storage_fields(2) [of rm]
    by (auto simp: with_frames_def Frame_CHECK_DEVICE_def)
qed

text \<open>A full storage stops the collecter: \<open>kFrameBufferMaxSize\<close> is no multiple of the frame
  size, so where the device holds more, the aligned number of bytes it reports is read up to
  the middle of a frame, and the bulk with the torn frame is pushed.  What the device then
  still holds is not aligned, the next check stops the loop with an error that only the
  collecter knows, without the mark that \<open>ReRun\<close> looks for, and running it once more fails
  a check that is in every build.\<close>

theorem frame_split_stops:
  assumes "fd_next_state s = FS_COLLECT" and "bulk_inv (fd_queue s)"
    and "reports del (fd_device s) num d1" and "num mod kFrameSize = 0" and "kFrameBufferMaxSize < num"
    and "dd_ReadFrameData del (garbage d1 kFrameBufferMaxSize) kFrameBufferMaxSize d1 = Inr (OK, data, d2)"
    and "reports del d2 (num - kFrameBufferMaxSize) d3"
  shows "\<exists>raw t u. Frame_OnLoopRun del garbage s =
      Some (Inr (if IsSingle (dc_loop s) then STOP else NEXT_LOOP, t)) \<and>
    PushBulk raw (fd_queue s) = Inr (fd_queue t) \<and> fr_data raw = data \<and>
    fr_real_size raw mod kFrameSize = 32 \<and>
    Frame_OnLoopRun del garbage t = Some (Inr (STOP, u)) \<and>
    fd_last_error u = ERR_FRAME_SIZE_NO_ALIGNED \<and> dc_stop_by_offine u = dc_stop_by_offine s \<and>
    Frame_OnLoopRun del garbage u = Some (Inl CheckFailed)"
proof -
  let ?max = kFrameBufferMaxSize
  let ?raw = "\<lparr>fr_data = data, fr_size = ?max, fr_real_size = ?max, fr_own = True\<rparr>"
  obtain q where q: "PushBulk ?raw (fd_queue s) = Inr q"
    using PushBulk_ok [OF assms(2), of ?raw] by (elim exE conjE) (rule that)
  have max: "0 < ?max" "?max mod kFrameSize = 32" by (simp_all add: kFrameBufferMaxSize_def kFrameSize_def)
  let ?s = "s\<lparr>fd_next_state := FS_NONE\<rparr>"
  let ?t = "s\<lparr>fd_device := d2, fd_queue := q, fd_next_state := FS_CHECK_COLLECT, dc_next_loop_delay := 1\<rparr>"
  let ?u = "Frame_SaveError ERR_FRAME_SIZE_NO_ALIGNED (?t\<lparr>fd_next_state := FS_NONE, fd_device := d3\<rparr>)"
  have "trunc_mod num kFrameSize = 0" "num \<noteq> 0" "read_size num = ?max"
    using assms(4,5) max by (simp_all add: read_size_def kFrameSize_def)
  then have first: "Frame_OnLoopRun del garbage s =
      Some (Inr (if IsSingle (dc_loop s) then STOP else NEXT_LOOP, ?t))"
    using assms(1,6) q max(1) with_frames_reports [of del ?s num d1] assms(3)
    by (simp add: Frame_OnLoopRun_def frame_run_state_def Frame_DoCollect_def FrameRawData_new_def
        new_array_def check_def Frame_CHECK_DEVICE_def set_real_size_def Let_def)
  have "(num - ?max) mod kFrameSize = 16"
    using assms(4) max(2) by (simp add: mod_diff_eq [symmetric, of num] kFrameSize_def)
  then have "trunc_mod (num - ?max) kFrameSize \<noteq> 0" using assms(5) by (simp add: kFrameSize_def)
  then have second: "Frame_OnLoopRun del garbage ?t = Some (Inr (STOP, ?u))"
    using with_frames_reports [of del "?t\<lparr>fd_next_state := FS_NONE\<rparr>" "num - ?max" d3] assms(7)
    by (simp add: Frame_OnLoopRun_def frame_run_state_def Frame_DoCheckCollect_def Frame_SaveError_def)
  have "Frame_OnLoopRun del garbage ?u = Some (Inl CheckFailed)"
    by (simp add: Frame_OnLoopRun_def Frame_SaveError_def)
  then show ?thesis using first second q max(2)
    by (intro exI [of _ ?raw] exI [of _ ?t] exI [of _ ?u]) (simp add: Frame_SaveError_def)
qed

subsection \<open>A device for the witnesses\<close>

text \<open>A device that holds \<open>d\<close> bytes of frames, and reports at most \<open>2 ^ 30\<close>; where \<open>keep\<close>
  is True a read takes nothing away.\<close>

definition sample_frames :: "bool \<Rightarrow> nat DeviceDelegate" where
  "sample_frames keep =
     \<lparr>dd_EnumDevices = \<lambda>d. Inr (OK, [], d), dd_OpenDevice = \<lambda>_ d. Inr (OK, d),
      dd_CloseDevice = \<lambda>d. Inr (OK, d), dd_DownloadFPGA = \<lambda>_ _ d. Inr (OK, d),
      dd_WriteDevice = \<lambda>_ _ _ d. Inr (OK, d),
      dd_ReadDevice = \<lambda>_ _ _ d. Inr (OK, replicate 4 0 @
        WriteLittleEndian (of_nat (min d (2 ^ 30)) :: u32) @ replicate 4 0, d),
      dd_GetDeviceInfo = \<lambda>rm d. Inr (OK, rm, d),
      dd_ReadOscData = \<lambda>b _ d. Inr (OK, b, d),
      dd_ReadFrameData = \<lambda>b n d. Inr (if d = 0 then ERR_READ_DEVICE else OK, b, if keep then d else d - nat n)\<rparr>"

lemma sample_frames_reports: "reports (sample_frames keep) d (int (min d (2 ^ 30))) d"
proof -
  let ?w = "of_nat (min d (2 ^ 30)) :: u32"
  have "sint (word_of_int k :: u32) = k" if "0 \<le> k" "k < 2 ^ 31" for k
    using that by (simp add: signed_of_int signed_take_bit_int_eq_self)
  from this [of "int (min d (2 ^ 30))"] have "sint ?w = int (min d (2 ^ 30))"
    by (simp del: of_nat_min)
  then have num: "frame_num (rm\<lparr>rm_memory := replicate 4 0 @ WriteLittleEndian ?w @ replicate 4 0\<rparr>) =
      Inr (int (min d (2 ^ 30)))" for rm :: RegisterMemory
    by (simp add: frame_num_def simple_value_def load_bytes_def check_def register_consts register_members
        ReadLittleEndian_WriteLittleEndian del: of_nat_min)
  show ?thesis unfolding reports_def
  proof (intro allI impI exI conjI)
    fix s :: "nat FrameDataCollecter" assume "fd_device s = d"
    then show "read_storage (sample_frames keep) s = Inr (OK, \<lparr>rm_memory = replicate kFrameStorageSize 0,
          rm_start_addr = kFrameStorageAddr\<rparr>\<lparr>rm_memory := replicate 4 0 @ WriteLittleEndian ?w @ replicate 4 0\<rparr>,
        s\<lparr>fd_device := d\<rparr>)"
      by (simp add: read_storage_def FrameStorageRegister_new_def RegisterMemory_new_def Frame_ReadDevice_def
          RegisterMemory_buffer_def check_def register_consts sample_frames_def del: of_nat_min)
  qed (simp_all only: num, simp add: register_consts)
qed

lemma sample_frames_drains: "drains (sample_frames False) (\<lambda>d. d)"
proof -
  have "\<exists>num d'. 0 \<le> num \<and> reports (sample_frames False) d num d' \<and> d' \<le> d" for d
    using sample_frames_reports [of False d] by (intro exI conjI) auto
  moreover have "\<exists>e b' d'. dd_ReadFrameData (sample_frames False) b n d = Inr (e, b', d') \<and> (e = OK \<longrightarrow> d' < d)"
    if "0 < n" for d b n
    using that by (simp add: sample_frames_def OK_def ERR_READ_DEVICE_def)
  ultimately show ?thesis by (simp add: drains_def)
qed

lemma clean_leftover_terminates_witness:
  "\<exists>state t. DoCleanLeftover (sample_frames False) zeros (FrameDataCollecter_new 20000000 True False) =
     Some (Inr (state, t))"
  using clean_leftover_terminates [OF sample_frames_drains zeros_ok,
      of "FrameDataCollecter_new 20000000 True False"] by auto

lemma sample_frames_endless: "endless (sample_frames True) zeros (\<lambda>d. 0 < d)"
  unfolding endless_def
proof (intro allI impI)
  fix d :: nat assume "0 < d"
  then show "\<exists>num d1 b d2. 0 < num \<and> reports (sample_frames True) d num d1 \<and>
      dd_ReadFrameData (sample_frames True) (zeros d1 (read_size num)) (read_size num) d1 = Inr (OK, b, d2) \<and> 0 < d2"
    by (intro exI conjI, rule_tac [2] sample_frames_reports) (auto simp: sample_frames_def)
qed

lemma clean_leftover_forever_witness:
  "LoopRunImp (Frame_OnLoopRun (sample_frames True) zeros) (FrameDataCollecter_new 48 True False) = None"
  using clean_leftover_forever [OF sample_frames_endless, of "FrameDataCollecter_new 48 True False"]
  by (simp add: FrameDataCollecter_new_def)

lemma frame_split_stops_witness:
  "\<exists>t u. Frame_OnLoopRun (sample_frames False) zeros
      ((FrameDataCollecter_new 5242896 False False)\<lparr>fd_next_state := FS_COLLECT\<rparr>) = Some (Inr (NEXT_LOOP, t)) \<and>
    Frame_OnLoopRun (sample_frames False) zeros t = Some (Inr (STOP, u)) \<and>
    Frame_OnLoopRun (sample_frames False) zeros u = Some (Inl CheckFailed)"
proof -
  let ?s = "(FrameDataCollecter_new (5242896 :: nat) False False)\<lparr>fd_next_state := FS_COLLECT\<rparr>"
  have "bulk_inv (fd_queue ?s)"
    using FrameDataCollecter_new_base [of "\<lambda>_. True" "5242896::nat" False False] by (simp add: frame_base_def)
  moreover have "reports (sample_frames False) (fd_device ?s) 5242896 5242896"
    using sample_frames_reports [of False 5242896] by (simp add: FrameDataCollecter_new_def)
  moreover have "dd_ReadFrameData (sample_frames False) (zeros (5242896::nat) kFrameBufferMaxSize) kFrameBufferMaxSize
      5242896 = Inr (OK, zeros (5242896::nat) kFrameBufferMaxSize, 16)"
    by (simp add: sample_frames_def kFrameBufferMaxSize_def)
  moreover have "reports (sample_frames False) 16 (5242896 - kFrameBufferMaxSize) 16"
    using sample_frames_reports [of False 16] by (simp add: kFrameBufferMaxSize_def)
  ultimately have "\<exists>raw t u. Frame_OnLoopRun (sample_frames False) zeros ?s =
        Some (Inr (if IsSingle (dc_loop ?s) then STOP else NEXT_LOOP, t)) \<and>
      PushBulk raw (fd_queue ?s) = Inr (fd_queue t) \<and>
      fr_data raw = zeros (5242896::nat) kFrameBufferMaxSize \<and> fr_real_size raw mod kFrameSize = 32 \<and>
      Frame_OnLoopRun (sample_frames False) zeros t = Some (Inr (STOP, u)) \<and>
      fd_last_error u = ERR_FRAME_SIZE_NO_ALIGNED \<and> dc_stop_by_offine u = dc_stop_by_offine ?s \<and>
      Frame_OnLoopRun (sample_frames False) zeros u = Some (Inl CheckFailed)"
    by (intro frame_split_stops [where num = 5242896 and ?d1.0 = 5242896 and ?d2.0 = 16 and ?d3.0 = 16])
      (simp_all add: kFrameSize_def kFrameBufferMaxSize_def)
  moreover have "\<not> IsSingle (dc_loop ?s)"
    by (simp add: FrameDataCollecter_new_def IsSingle_def ThreadedLoopRun_new_def)
  ultimately show ?thesis by auto
qed

end
