(* ===== verification/Osc_Property.thy ===== *)
theory Osc_Property
  imports Doubles Property_Store
begin

text \<open>
  The properties of the oscilloscope (canscope/device/osc_device/osc_device_property.h,
  osc_device_property.cc) and the names of all device properties
  (canscope_device_property_constants.h, canscope_device_property_constants.cc).

  The enumerations are datatypes: an integer in the store that is none of an enumeration's
  values is left out.  \<open>OscProperties\<close> is what the members of \<open>OscDeviceProperty\<close> read; how
  they read it and how they are told of changes is the subject of the theory
  \<open>Property_Store\<close>.
\<close>

subsection \<open>Names\<close>

definition kVersionPath :: string where "kVersionPath = ''Version''"
definition kOscDevice :: string where "kOscDevice = ''OscDevice''"
definition kOscCANHVoltRange :: string where "kOscCANHVoltRange = ''CANH.Range''"
definition kOscCANHOffset :: string where "kOscCANHOffset = ''CANH.Offset''"
definition kOscCANHCoupling :: string where "kOscCANHCoupling = ''CANH.Coupling''"
definition kOscCANLVoltRange :: string where "kOscCANLVoltRange = ''CANL.Range''"
definition kOscCANLOffset :: string where "kOscCANLOffset = ''CANL.Offset''"
definition kOscCANLCoupling :: string where "kOscCANLCoupling = ''CANL.Coupling''"
definition kOscCANDIFFVoltRange :: string where "kOscCANDIFFVoltRange = ''CANDIFF.Range''"
definition kOscCANDIFFOffset :: string where "kOscCANDIFFOffset = ''CANDIFF.Offset''"
definition kOscDiffCtrl :: string where "kOscDiffCtrl = ''DiffCtrl''"
definition kOscTimeBase :: string where "kOscTimeBase = ''Time.Base''"
definition kOscTimeOffset :: string where "kOscTimeOffset = ''Time.Offset''"
definition kOscAutoTime :: string where "kOscAutoTime = ''Trigger.AutoTime''"
definition kOscTriggerSource :: string where "kOscTriggerSource = ''Trigger.Source''"
definition kOscTriggerType :: string where "kOscTriggerType = ''Trigger.Type''"
definition kOscTriggerMode :: string where "kOscTriggerMode = ''Trigger.Mode''"
definition kOscTriggerSens :: string where "kOscTriggerSens = ''Trigger.Sens''"
definition kOscCompare :: string where "kOscCompare = ''Trigger.Compare''"
definition kOscTriggerVolt :: string where "kOscTriggerVolt = ''Trigger.Volt''"
definition kOscTimeParam :: string where "kOscTimeParam = ''TimeParam''"
definition kFrameDevice :: string where "kFrameDevice = ''FrameDevice''"
definition kFrameDeviceEnable :: string where "kFrameDeviceEnable = ''DeviceEnable''"
definition kFrameAckEnable :: string where "kFrameAckEnable = ''AckEnable''"
definition kFrameSjaBtr :: string where "kFrameSjaBtr = ''SjaBtr''"
definition kFrameFrameStoragePercent :: string where "kFrameFrameStoragePercent = ''FrameStoragePercent''"
definition kFrameBitSampleRate :: string where "kFrameBitSampleRate = ''BitSampleRate''"
definition kFrameBit :: string where "kFrameBit = ''BitNum''"

lemmas property_names =
  kOscCANHVoltRange_def kOscCANHOffset_def kOscCANHCoupling_def kOscCANLVoltRange_def
  kOscCANLOffset_def kOscCANLCoupling_def kOscCANDIFFVoltRange_def kOscCANDIFFOffset_def
  kOscDiffCtrl_def kOscTimeBase_def kOscTimeOffset_def kOscAutoTime_def kOscTriggerSource_def
  kOscTriggerType_def kOscTriggerMode_def kOscTriggerSens_def kOscCompare_def
  kOscTriggerVolt_def kOscTimeParam_def kFrameDeviceEnable_def kFrameAckEnable_def
  kFrameSjaBtr_def kFrameFrameStoragePercent_def kFrameBitSampleRate_def kFrameBit_def

subsection \<open>Enumerations\<close>

datatype Chnl = CAN_L | CAN_H | CAN_DIFF

datatype VoltRange = k1V | k2V | k4V | k8V | k20V | k50V

fun volt_index :: "VoltRange \<Rightarrow> nat" where
  "volt_index k1V = 0" | "volt_index k2V = 1" | "volt_index k4V = 2"
| "volt_index k8V = 3" | "volt_index k20V = 4" | "volt_index k50V = 5"

fun Volt :: "VoltRange \<Rightarrow> int" where
  "Volt k1V = 1" | "Volt k2V = 2" | "Volt k4V = 4" | "Volt k8V = 8" | "Volt k20V = 20" | "Volt k50V = 50"

definition kVoltDivNum :: int where "kVoltDivNum = 8"

datatype TimeBase =
    k1us | k2us | k5us | k10us | k20us | k50us | k100us | k200us | k500us
  | k1ms | k2ms | k5ms | k10ms | k20ms | k50ms | k100ms | k200ms | k500ms | k1s

fun time_index :: "TimeBase \<Rightarrow> nat" where
  "time_index k1us = 0" | "time_index k2us = 1" | "time_index k5us = 2" | "time_index k10us = 3"
| "time_index k20us = 4" | "time_index k50us = 5" | "time_index k100us = 6" | "time_index k200us = 7"
| "time_index k500us = 8" | "time_index k1ms = 9" | "time_index k2ms = 10" | "time_index k5ms = 11"
| "time_index k10ms = 12" | "time_index k20ms = 13" | "time_index k50ms = 14" | "time_index k100ms = 15"
| "time_index k200ms = 16" | "time_index k500ms = 17" | "time_index k1s = 18"

definition kTimeBaseValue :: "u32 list" where
  "kTimeBaseValue =
     [1000, 2000, 5000, 10000, 20000, 50000, 100000, 200000, 500000, 1000000, 2000000, 5000000,
      10000000, 20000000, 50000000, 100000000, 200000000, 500000000, 1000000000]"

definition TimeBaseValue :: "TimeBase \<Rightarrow> u32" where
  "TimeBaseValue time_base = kTimeBaseValue ! time_index time_base"

datatype Coupling = kDC | kAC

datatype DiffCtrl = kSub | kAverage

datatype TriggerSource =
    kTriggerSourceCANH | kTriggerSourceCANL | kTriggerSourceCANDIFF | kTriggerSourceCANRxD
  | kTriggerSourceCANTxD | kTriggerSourceFrameStart | kTriggerSourceExernal

fun source_index :: "TriggerSource \<Rightarrow> nat" where
  "source_index kTriggerSourceCANH = 0" | "source_index kTriggerSourceCANL = 1"
| "source_index kTriggerSourceCANDIFF = 2" | "source_index kTriggerSourceCANRxD = 3"
| "source_index kTriggerSourceCANTxD = 4" | "source_index kTriggerSourceFrameStart = 5"
| "source_index kTriggerSourceExernal = 6"

datatype TriggerType = kRisingEdge | kFallingEdge | kDoubleEdge | kPositivePulse | kNegativePulse

fun type_index :: "TriggerType \<Rightarrow> nat" where
  "type_index kRisingEdge = 0" | "type_index kFallingEdge = 1" | "type_index kDoubleEdge = 2"
| "type_index kPositivePulse = 3" | "type_index kNegativePulse = 4"

datatype TriggerMode = kAuto | kNormal

datatype TriggerSens = kDefault | kStrengthen

datatype CompareType = kGreater | kLess | kEqual

fun compare_index :: "CompareType \<Rightarrow> nat" where
  "compare_index kGreater = 0" | "compare_index kLess = 1" | "compare_index kEqual = 2"

definition IsTriggerSourceChnl :: "TriggerSource \<Rightarrow> bool" where
  "IsTriggerSourceChnl trigger_source \<longleftrightarrow> trigger_source = kTriggerSourceCANH \<or>
     trigger_source = kTriggerSourceCANL \<or> trigger_source = kTriggerSourceCANDIFF"

definition TriggerSource2Chnl :: "TriggerSource \<Rightarrow> Chnl res" where
  "TriggerSource2Chnl trigger_source =
     (case trigger_source of
        kTriggerSourceCANH \<Rightarrow> Inr CAN_H
      | kTriggerSourceCANL \<Rightarrow> Inr CAN_L
      | kTriggerSourceCANDIFF \<Rightarrow> Inr CAN_DIFF
      | _ \<Rightarrow> Inl NotReached)"

fun Chnl2TriggerSource :: "Chnl \<Rightarrow> TriggerSource" where
  "Chnl2TriggerSource CAN_H = kTriggerSourceCANH"
| "Chnl2TriggerSource CAN_L = kTriggerSourceCANL"
| "Chnl2TriggerSource CAN_DIFF = kTriggerSourceCANDIFF"

lemma TriggerSource2Chnl_iff: "TriggerSource2Chnl src = Inr chnl \<longleftrightarrow> src = Chnl2TriggerSource chnl"
  by (cases src; cases chnl) (simp_all add: TriggerSource2Chnl_def)

lemma IsTriggerSourceChnl_iff: "IsTriggerSourceChnl src \<longleftrightarrow> (\<exists>chnl. src = Chnl2TriggerSource chnl)"
proof
  assume "\<exists>chnl. src = Chnl2TriggerSource chnl"
  then obtain chnl where "src = Chnl2TriggerSource chnl" ..
  then show "IsTriggerSourceChnl src" by (cases chnl) (simp_all add: IsTriggerSourceChnl_def)
next
  assume "IsTriggerSourceChnl src"
  then show "\<exists>chnl. src = Chnl2TriggerSource chnl"
    unfolding IsTriggerSourceChnl_def by (elim disjE) (metis Chnl2TriggerSource.simps)+
qed

subsection \<open>The members\<close>

record OscProperties =
  range_can_h :: VoltRange
  offset_can_h :: real
  coupling_can_h :: Coupling
  range_can_l :: VoltRange
  offset_can_l :: real
  coupling_can_l :: Coupling
  range_can_diff :: VoltRange
  offset_can_diff :: real
  diff_ctrl :: DiffCtrl
  time_base :: TimeBase
  time_offset :: real
  auto_time :: real
  trigger_source :: TriggerSource
  trigger_type :: TriggerType
  trigger_mode :: TriggerMode
  trigger_sens :: TriggerSens
  compare_type :: CompareType
  trigger_volt :: real
  time_param :: real

text \<open>The members of a property object in the order of its \<open>Init\<close>; the \<open>i\<close>-th member is the
  pointer \<open>base + i\<close>.\<close>

definition osc_names :: "string list" where
  "osc_names =
     [kOscCANHVoltRange, kOscCANHOffset, kOscCANHCoupling, kOscCANLVoltRange, kOscCANLOffset,
      kOscCANLCoupling, kOscCANDIFFVoltRange, kOscCANDIFFOffset, kOscDiffCtrl, kOscTimeBase,
      kOscTimeOffset, kOscAutoTime, kOscTriggerSource, kOscTriggerType, kOscTriggerMode,
      kOscTriggerSens, kOscCompare, kOscTriggerVolt, kOscTimeParam]"

definition init_members :: "ptr \<Rightarrow> string list \<Rightarrow> ('v, 'a) world \<Rightarrow> ('v, 'a) world res" where
  "init_members p names w = for_each (\<lambda>(q, name). Init q name False) (zip [p..<p + length names] names) w"

definition OscDeviceProperty_Init :: "ptr \<Rightarrow> ('v, 'a) world \<Rightarrow> ('v, 'a) world res" where
  "OscDeviceProperty_Init p = init_members p osc_names"

definition OscDeviceProperty_Init_dict ::
  "ptr \<Rightarrow> (string \<times> 'v) list option \<Rightarrow> ('v, 'a) world \<Rightarrow> ('v, 'a) world res" where
  "OscDeviceProperty_Init_dict p dict w =
     (case dict of None \<Rightarrow> Inl DcheckFailed | Some d \<Rightarrow> OscDeviceProperty_Init p (Reset d w))"

definition detach_members :: "ptr \<Rightarrow> nat \<Rightarrow> ('v, 'a) world \<Rightarrow> ('v, 'a) world res" where
  "detach_members p n w = for_each Member_DetachFromThread [p..<p + n] (Store_DetachFromThread w)"

definition OscDeviceProperty_DetachFromThread :: "ptr \<Rightarrow> ('v, 'a) world \<Rightarrow> ('v, 'a) world res" where
  "OscDeviceProperty_DetachFromThread p = detach_members p (length osc_names)"

lemma osc_names_distinct: "distinct osc_names" "'''' \<notin> set osc_names"
  by (simp_all add: osc_names_def property_names)

subsection \<open>What \<open>Init\<close> establishes\<close>

text \<open>Members that no store knows yet.\<close>

definition fresh_member :: "('v, 'a) world \<Rightarrow> ptr \<Rightarrow> bool" where
  "fresh_member w p \<longleftrightarrow> (\<exists>m. w_members w p = Some m \<and> m_name m = '''') \<and> (\<forall>k. p \<notin> set (observers_of w k))"

definition named_member :: "('v, 'a) world \<Rightarrow> ptr \<Rightarrow> string \<Rightarrow> bool" where
  "named_member w p name \<longleftrightarrow>
     (\<exists>m. w_members w p = Some m \<and> m_name m = name \<and> m_has_prefs m) \<and> p \<in> set (observers_of w name)"

lemma Init_other_member: "Init p key obs w = Inr w' \<Longrightarrow> q \<noteq> p \<Longrightarrow> w_members w' q = w_members w q"
  by (auto simp: Init_def with_member_def check_Inr_iff AddPrefObserver_def split: option.splits if_splits)

lemma init_members_ok:
  assumes "store_ok w" and "\<forall>name \<in> set names. HasPrefPath name w \<and> name \<noteq> ''''"
    and "\<forall>q. p \<le> q \<and> q < p + length names \<longrightarrow> fresh_member w q"
  shows "\<exists>w'. init_members p names w = Inr w' \<and> store_ok w' \<and> w_prefs w' = w_prefs w \<and>
    w_events w' = w_events w \<and> (\<forall>i < length names. named_member w' (p + i) (names ! i)) \<and>
    (\<forall>q key. q < p \<longrightarrow> named_member w q key \<longrightarrow> named_member w' q key)"
  using assms
proof (induction names arbitrary: p w)
  case Nil
  then show ?case by (simp add: init_members_def)
next
  case (Cons name names)
  have fresh: "fresh_member w p" using Cons.prems(3) by simp
  then obtain m where m: "w_members w p = Some m" "m_name m = ''''" "\<And>k. p \<notin> set (observers_of w k)"
    by (auto simp: fresh_member_def)
  have key: "HasPrefPath name w" "name \<noteq> ''''" using Cons.prems(2) by simp_all
  obtain w1 where w1: "Init p name False w = Inr w1" "store_ok w1"
    "observers_of w1 = (observers_of w)(name := observers_of w name @ [p])"
    "w_events w1 = w_events w" "w_prefs w1 = w_prefs w" "named_member w1 p name"
    using Init_registers [OF Cons.prems(1) m(1,2) key m(3), of False]
    by (auto simp: named_member_def)
  note other = Init_other_member [OF w1(1)]
  have fresh1: "fresh_member w1 q" if "Suc p \<le> q \<and> q < Suc p + length names" for q
    using Cons.prems(3) that other [of q] by (auto simp: fresh_member_def w1(3))
  have keys1: "\<forall>name \<in> set names. HasPrefPath name w1 \<and> name \<noteq> ''''"
    using Cons.prems(2) by (simp add: HasPrefPath_def GetValue_def w1(5))
  have keep: "named_member w1 q k" if "q < p" "named_member w q k" for q k
    using that other [of q] by (auto simp: named_member_def w1(3))
  obtain w2 where w2: "init_members (Suc p) names w1 = Inr w2" "store_ok w2" "w_prefs w2 = w_prefs w1"
    "w_events w2 = w_events w1" "\<forall>i < length names. named_member w2 (Suc p + i) (names ! i)"
    "\<forall>q key. q < Suc p \<longrightarrow> named_member w1 q key \<longrightarrow> named_member w2 q key"
    using Cons.IH [OF w1(2) keys1] fresh1 by blast
  have "init_members p (name # names) w = Inr w2"
    using w1(1) w2(1) by (simp add: init_members_def upt_conv_Cons del: upt_Suc)
  moreover have "named_member w2 (p + i) ((name # names) ! i)" if "i < length (name # names)" for i
    using that w2(5,6) w1(6) by (cases i) auto
  moreover have "named_member w2 q k" if "q < p" "named_member w q k" for q k
    using keep [OF that] w2(6) that(1) by simp
  ultimately show ?case using w2(2-4) w1(4,5) by auto
qed


text \<open>A store with the given keys and members that are not yet initialised.\<close>

definition blank_world :: "string list \<Rightarrow> (nat, nat) world" where
  "blank_world names =
     \<lparr>w_prefs = map (\<lambda>name. (name, 1)) (sort names), w_observers = Map.empty, w_checker = None,
      w_members = (\<lambda>_. Some (StoreMember_new 0 Some id)), w_events = [], w_thread = 0, w_has_loop = True\<rparr>"

lemma blank_world_ok: "distinct names \<Longrightarrow> store_ok (blank_world names)"
  by (simp add: store_ok_def blank_world_def map_keys_ok_def observers_ok_def member_ok_def StoreMember_new_def
      IsOnCorrectThread_def comp_def strict_sorted_iff)

lemma blank_world_fresh: "fresh_member (blank_world names) q"
  by (simp add: fresh_member_def blank_world_def observers_of_def StoreMember_new_def)

lemma blank_world_keys: "name \<in> set names \<Longrightarrow> HasPrefPath name (blank_world names)"
proof -
  have "map_of (map (\<lambda>name. (name, v)) xs) k = (if k \<in> set xs then Some v else None)"
    for xs and k :: string and v :: nat
    by (induction xs) auto
  then show "name \<in> set names \<Longrightarrow> HasPrefPath name (blank_world names)"
    by (simp add: blank_world_def HasPrefPath_def GetValue_def)
qed


end
