(* ===== verification/Register_Table.thy ===== *)
theory Register_Table
  imports Doubles Device_Delegate
begin

text \<open>
  Setting the members of a register one after the other, and what the register then holds:
  a register is described by a table of its members with the values they are to get, which may be
  undefined (a conversion out of range) before any register is written.  The last part is how the
  devices write registers and parts of them, one after the other, until a write fails.
\<close>

subsection \<open>Setting a member\<close>

definition put :: "bind \<Rightarrow> u32 \<Rightarrow> RegisterMemory \<Rightarrow> RegisterMemory res" where
  "put b v rm = and_then (bind_set_value b v (rm_memory rm)) (\<lambda>m. Inr (rm\<lparr>rm_memory := m\<rparr>))"

definition get :: "bind \<Rightarrow> RegisterMemory \<Rightarrow> u32 res" where
  "get b rm = bind_value b (rm_memory rm)"

subsection \<open>What a register holds\<close>

definition holds :: "bind list \<Rightarrow> (bind \<Rightarrow> u32) \<Rightarrow> RegisterMemory \<Rightarrow> bool" where
  "holds bs f rm \<longleftrightarrow> layout_ok (length (rm_memory rm)) bs \<and> (\<forall>b \<in> set bs. get b rm = Inr (f b))"

lemma put_ok:
  assumes "holds bs f rm" and "b \<in> set bs" and "v \<le> bind_bound b"
  shows "\<exists>rm'. put b v rm = Inr rm' \<and> holds bs (f(b := v)) rm' \<and> rm_start_addr rm' = rm_start_addr rm \<and>
    length (rm_memory rm') = length (rm_memory rm)"
proof -
  have ok: "layout_ok (length (rm_memory rm)) bs" using assms(1) by (simp add: holds_def)
  obtain i where i: "i < length bs" "b = bs ! i" using assms(2) by (auto simp: in_set_conv_nth)
  obtain m where m: "bind_set_value b v (rm_memory rm) = Inr m" "length m = length (rm_memory rm)"
    "bind_value b m = Inr v"
    "\<forall>j < length bs. j \<noteq> i \<longrightarrow> bind_value (bs ! j) m = bind_value (bs ! j) (rm_memory rm)"
    using layout_write [OF ok i(1), of v] assms(3) i(2) by auto
  have "bind_value c m = Inr ((f(b := v)) c)" if c: "c \<in> set bs" for c
  proof (cases "c = b")
    case False
    obtain j where "j < length bs" "c = bs ! j" using c by (auto simp: in_set_conv_nth)
    then show ?thesis using m(4) False i(2) assms(1) c by (auto simp: holds_def get_def)
  qed (simp add: m(3))
  then show ?thesis using m(1,2) ok by (simp add: put_def holds_def get_def)
qed

lemma register_layouts:
  "layout_ok kAnalogCtrlSize AnalogCtrlRegister_binds" "layout_ok kSoftDiffSize SoftDiffRegister_binds"
  "layout_ok kAnalogSwitchSize AnalogSwitchRegister_binds" "layout_ok kTrigger1Size Trigger1Register_binds"
  "layout_ok kTrigger2Size Trigger2Register_binds" "layout_ok kSJA1000Size SJA1000Register_binds"
  "layout_ok kFrameStorageSize FrameStorageRegister_binds" "layout_ok kWaveStorageSize WaveStorageRegister_binds"
  using register_classes_ok by (simp_all add: register_classes_def)

text \<open>Any content gives the members some values.\<close>

lemma holds_some:
  assumes "layout_ok (length (rm_memory rm)) bs"
  shows "\<exists>f. holds bs f rm"
proof -
  have "\<exists>v. get b rm = Inr v" if b: "b \<in> set bs" for b
  proof -
    have "bind_ok b" "bind_fits b (length (rm_memory rm))" using layout_ok_bind [OF assms b] by auto
    then show ?thesis using memory_field.get_total [OF bind_field] by (auto simp: get_def)
  qed
  then obtain f where "\<forall>b \<in> set bs. get b rm = Inr (f b)" by metis
  then show ?thesis using assms by (auto simp: holds_def)
qed

definition reg_at :: "u32 \<Rightarrow> nat \<Rightarrow> bind list \<Rightarrow> (bind \<Rightarrow> u32) \<Rightarrow> RegisterMemory \<Rightarrow> bool" where
  "reg_at addr sz bs f rm \<longleftrightarrow> holds bs f rm \<and> rm_start_addr rm = addr \<and> length (rm_memory rm) = sz"

lemma put_at:
  assumes "reg_at addr sz bs f rm" and "b \<in> set bs" and "v \<le> bind_bound b"
  shows "\<exists>rm'. put b v rm = Inr rm' \<and> reg_at addr sz bs (f(b := v)) rm'"
  using put_ok [of bs f rm b v] assms by (auto simp: reg_at_def)

lemma get_at: "reg_at addr sz bs f rm \<Longrightarrow> b \<in> set bs \<Longrightarrow> get b rm = Inr (f b)"
  by (simp add: reg_at_def holds_def)

lemma bound_simps:
  "v \<le> bind_bound (U32B b)" "of_bool c \<le> bind_bound (BoolB b')" "ucast (x :: u8) \<le> bind_bound (ByteB b'')"
  "ucast (y :: u16) \<le> bind_bound (SplitB b3)" "ucast (y :: u16) \<le> bind_bound (U16B b)"
  using ucast_le_bound u32_le by simp_all

subsection \<open>Registers as tables\<close>

type_synonym table = "(bind \<times> u32 res) list"

definition convertible :: "table \<Rightarrow> bool" where
  "convertible tab \<longleftrightarrow> list_all (\<lambda>(b, v). \<not> isl v) tab"

definition matches :: "table \<Rightarrow> RegisterMemory \<Rightarrow> bool" where
  "matches tab rm \<longleftrightarrow> list_all (\<lambda>(b, v). get b rm = v) tab"

definition reg_ok :: "u32 \<Rightarrow> nat \<Rightarrow> RegisterMemory \<Rightarrow> bool" where
  "reg_ok addr sz rm \<longleftrightarrow> rm_start_addr rm = addr \<and> length (rm_memory rm) = sz"

lemma reg_ok_at:
  assumes "reg_ok addr sz rm" and "layout_ok sz bs"
  shows "\<exists>f. reg_at addr sz bs f rm"
  using holds_some [of rm bs] assms by (auto simp: reg_ok_def reg_at_def)

lemma reg_at_ok: "reg_at addr sz bs f rm \<Longrightarrow> reg_ok addr sz rm"
  by (simp add: reg_at_def reg_ok_def)

lemma not_isl_iff_Inr: "\<not> isl v \<longleftrightarrow> (\<exists>x. v = Inr x)"
  by (cases v) simp_all

lemma and_then_assoc: "and_then (and_then m f) g = and_then m (\<lambda>x. and_then (f x) g)"
  by (simp add: and_then_def split: sum.split)

subsection \<open>Conversions that are defined\<close>

lemma to_word_ok: "-1 < x \<Longrightarrow> x < 2 ^ LENGTH('a) \<Longrightarrow> \<exists>v :: 'a::len word. to_word x = Inr v"
  using to_word_total by blast

lemma to_word_defined_iff: "(\<exists>v :: 'a::len word. to_word x = Inr v) \<longleftrightarrow> -1 < x \<and> x < 2 ^ LENGTH('a)"
  using to_int64_range [of 0 "2 ^ LENGTH('a)" x] by (simp add: to_word_def Let_def check_Inr_iff)

subsection \<open>Several members\<close>

fun put_list :: "(bind \<times> u32) list \<Rightarrow> RegisterMemory \<Rightarrow> RegisterMemory res" where
  "put_list [] rm = Inr rm"
| "put_list ((b, v) # xs) rm = and_then (put b v rm) (put_list xs)"

lemma put_list_at:
  assumes "reg_at addr sz bs f rm" and "\<forall>(b, v) \<in> set xs. b \<in> set bs \<and> v \<le> bind_bound b"
  shows "\<exists>rm'. put_list xs rm = Inr rm' \<and> reg_at addr sz bs (\<lambda>b. case map_of (rev xs) b of Some v \<Rightarrow> v | None \<Rightarrow> f b) rm'"
  using assms
proof (induction xs arbitrary: f rm)
  case (Cons x xs)
  obtain b v where x: "x = (b, v)" by (cases x)
  obtain rm1 where rm1: "put b v rm = Inr rm1" "reg_at addr sz bs (f(b := v)) rm1"
    using put_at [OF Cons.prems(1), of b v] Cons.prems(2) x by auto
  obtain rm2 where rm2: "put_list xs rm1 = Inr rm2"
    "reg_at addr sz bs (\<lambda>c. case map_of (rev xs) c of Some v \<Rightarrow> v | None \<Rightarrow> (f(b := v)) c) rm2"
    using Cons.IH [OF rm1(2)] Cons.prems(2) by auto
  have "(\<lambda>c. case map_of (rev xs) c of Some v \<Rightarrow> v | None \<Rightarrow> (f(b := v)) c) =
      (\<lambda>c. case map_of (rev (x # xs)) c of Some v \<Rightarrow> v | None \<Rightarrow> f c)"
    using x by (auto simp: map_add_def fun_eq_iff split: option.split)
  then show ?case using rm1(1) rm2 x by simp
qed simp

lemma put_list_ok:
  assumes "reg_ok addr sz rm" and "layout_ok sz bs" and "distinct (map fst xs)"
    and "\<forall>(b, v) \<in> set xs. b \<in> set bs \<and> v \<le> bind_bound b"
  shows "\<exists>rm'. put_list xs rm = Inr rm' \<and> reg_ok addr sz rm' \<and> (\<forall>(b, v) \<in> set xs. get b rm' = Inr v) \<and>
    (\<forall>b \<in> set bs. b \<notin> fst ` set xs \<longrightarrow> get b rm' = get b rm)"
proof -
  obtain f where f: "reg_at addr sz bs f rm" using reg_ok_at [OF assms(1,2)] by blast
  from put_list_at [OF this assms(4)] obtain rm' where rm': "put_list xs rm = Inr rm'"
    "reg_at addr sz bs (\<lambda>b. case map_of (rev xs) b of Some v \<Rightarrow> v | None \<Rightarrow> f b) rm'" by blast
  have "get b rm' = Inr v" if "(b, v) \<in> set xs" for b v
  proof -
    have "distinct (map fst (rev xs))" using assms(3) by (simp flip: rev_map)
    then have "map_of (rev xs) b = Some v" using that by (simp add: map_of_is_SomeI)
    then show ?thesis using get_at [OF rm'(2), of b] assms(4) that by auto
  qed
  moreover have "get b rm' = get b rm" if b: "b \<in> set bs" "b \<notin> fst ` set xs" for b
  proof -
    have "map_of (rev xs) b = None" using b(2) by (simp add: map_of_eq_None_iff)
    then show ?thesis using get_at [OF rm'(2) b(1)] get_at [OF f b(1)] by simp
  qed
  ultimately show ?thesis using rm' reg_at_ok by blast
qed

subsection \<open>Transfers\<close>

definition send_register :: "'d DeviceDelegate \<Rightarrow> RegisterMemory \<Rightarrow> 'd \<Rightarrow> (Error \<times> 'd) res" where
  "send_register del rm d =
     and_then (RegisterMemory_buffer rm) (\<lambda>m. dd_WriteDevice del (rm_start_addr rm) m (RegisterMemory_size rm) d)"

definition send_range :: "'d DeviceDelegate \<Rightarrow> RegisterMemory \<Rightarrow> int \<Rightarrow> int \<Rightarrow> 'd \<Rightarrow> (Error \<times> 'd) res" where
  "send_range del rm start_offset n d =
     DCHECK (start_offset + n \<le> RegisterMemory_size rm) (
     and_then (PtrByRelative rm (word_of_int start_offset)) (\<lambda>p.
       dd_WriteDevice del (rm_start_addr rm + word_of_int start_offset) (drop p (rm_memory rm)) n d))"

definition receive_range ::
  "'d DeviceDelegate \<Rightarrow> RegisterMemory \<Rightarrow> int \<Rightarrow> int \<Rightarrow> 'd \<Rightarrow> (Error \<times> RegisterMemory \<times> 'd) res" where
  "receive_range del rm start_offset n d =
     DCHECK (start_offset + n \<le> RegisterMemory_size rm) (
     and_then (PtrByRelative rm (word_of_int start_offset)) (\<lambda>p.
     and_then (dd_ReadDevice del (rm_start_addr rm + word_of_int start_offset) (drop p (rm_memory rm)) n d) (\<lambda>(e, b, d).
       Inr (e, rm\<lparr>rm_memory := take p (rm_memory rm) @ b\<rparr>, d))))"

text \<open>Writes one after the other, until one fails: the returns of \<open>CHECK_DEVICE\<close>.\<close>

type_synonym 's writer = "'s \<Rightarrow> (Error \<times> 's) res"

fun write_seq :: "'s writer list \<Rightarrow> 's \<Rightarrow> 's res" where
  "write_seq [] s = Inr s"
| "write_seq (w # ws) s = and_then (w s) (\<lambda>(err, s). if err \<noteq> OK then Inr s else write_seq ws s)"

definition keeps :: "('s \<Rightarrow> bool) \<Rightarrow> 's writer \<Rightarrow> bool" where
  "keeps P w \<longleftrightarrow> (\<forall>s. P s \<longrightarrow> (\<exists>e s'. w s = Inr (e, s') \<and> P s'))"

lemma write_seq_keeps:
  assumes "\<forall>w \<in> set ws. keeps P w" and "P s"
  shows "\<exists>s'. write_seq ws s = Inr s' \<and> P s'"
  using assms
proof (induction ws arbitrary: s)
  case (Cons w ws)
  then obtain e s' where w: "w s = Inr (e, s')" "P s'" unfolding keeps_def by (meson list.set_intros(1))
  show ?case using Cons.IH [OF _ w(2)] Cons.prems(1) w by (cases "e = OK") auto
qed simp

context device_delegate
begin

lemma send_register_ok:
  assumes "inv d" and "reg_ok addr sz rm" and "register addr (int sz)" and "0 < sz"
  shows "\<exists>e d'. send_register del rm d = Inr (e, d') \<and> inv d'"
proof -
  have "register (rm_start_addr rm) (RegisterMemory_size rm)" "rm_memory rm \<noteq> []"
    using assms(2-4) by (auto simp: reg_ok_def RegisterMemory_size_def)
  from write_ok [OF assms(1) this(1), of "rm_memory rm"] this(2) show ?thesis
    by (simp add: send_register_def RegisterMemory_buffer_def RegisterMemory_size_def)
qed

lemma range_ptr:
  assumes "reg_ok addr sz rm" and "0 \<le> off" and "0 < n" and "off + n \<le> int sz" and "int sz < 2 ^ 32"
  shows "PtrByRelative rm (word_of_int off) = Inr (nat off)"
proof -
  have "unat (word_of_int off :: u32) = nat off"
    using assms by (simp add: unat_eq_nat_uint uint_word_of_int_eq take_bit_int_eq_self)
  then show ?thesis using assms by (simp add: PtrByRelative_def check_def reg_ok_def)
qed

lemma send_range_ok:
  assumes "inv d" and "reg_ok addr sz rm" and "register (addr + word_of_int off) n"
    and "0 \<le> off" and "0 < n" and "off + n \<le> int sz" and "int sz < 2 ^ 32"
  shows "\<exists>e d'. send_range del rm off n d = Inr (e, d') \<and> inv d'"
  using write_ok [OF assms(1,3), of "drop (nat off) (rm_memory rm)"] range_ptr [OF assms(2,4-7)] assms(2,4-6)
  by (simp add: send_range_def check_def reg_ok_def RegisterMemory_size_def)

end

end
