(* ===== verification/Osc_Device.thy ===== *)
theory Osc_Device
  imports Osc_Property Register_Table Device_Delegate
begin

text \<open>
  \<open>OscDevice\<close> (canscope/device/osc_device/osc_device.h, osc_device.cc): the registers of the
  oscilloscope as functions of its properties, and the order in which they are written.

  A member of a register is set with \<open>put\<close>; a \<open>set_value\<close> that returns nothing leaves the
  register, a value too large for a part of a word fails its CHECK.  A double is a real
  number.
\<close>

subsection \<open>Tables and formulas\<close>

definition kSensCoeff :: "u8 list" where
  "kSensCoeff = [4, 8, 16, 32, 80, 200]"

definition OP07 :: real where "OP07 = -1.96"

record CalibrateInfo =
  N1 :: u32
  Kcal :: real
  VCal_base :: real

definition kDefaultCalibrateInfo :: "CalibrateInfo list" where
  "kDefaultCalibrateInfo =
     [\<lparr>N1 = 0x0000D164, Kcal = OP07 / 0.2, VCal_base = -0.102040816\<rparr>,
      \<lparr>N1 = 0x000092CD, Kcal = OP07 / 0.2, VCal_base = -0.204081633\<rparr>,
      \<lparr>N1 = 0x00005436, Kcal = OP07 / 0.2, VCal_base = -0.408163265\<rparr>,
      \<lparr>N1 = 0x0000E58B, Kcal = OP07 / 0.02, VCal_base = -0.081632653\<rparr>,
      \<lparr>N1 = 0x000092CD, Kcal = OP07 / 0.02, VCal_base = -0.204081633\<rparr>,
      \<lparr>N1 = 0x00004010, Kcal = OP07 / 0.02, VCal_base = -0.510204082\<rparr>]"

definition kCOE :: "u32 list" where
  "kCOE =
     [0, 1, 4, 9, 19, 49, 99, 199, 499, 999, 1999, 4999, 9999, 19999, 49999, 99999, 199999, 499999,
      1999999]"

definition CH_ZERO :: "VoltRange \<Rightarrow> real \<Rightarrow> u16 res" where
  "CH_ZERO rng offset = to_word ((offset * 250.0) / of_int (Volt rng) + 127)"

definition Attenuation :: "VoltRange \<Rightarrow> bool" where
  "Attenuation rng \<longleftrightarrow> volt_index rng \<ge> volt_index k8V"

definition GetDiffCtrl :: "DiffCtrl \<Rightarrow> bool" where
  "GetDiffCtrl d \<longleftrightarrow> d = kAverage"

definition GetCoupling :: "Coupling \<Rightarrow> bool" where
  "GetCoupling coupling \<longleftrightarrow> coupling = kAC"

definition SAMET :: "u32 \<Rightarrow> u32" where
  "SAMET coe = (coe + 1) * 10"

definition GetTrigMode :: "TriggerMode \<Rightarrow> u32" where
  "GetTrigMode mode = (if mode = kAuto then 0 else 1)"

definition CMP_LOW :: "VoltRange \<Rightarrow> real \<Rightarrow> real \<Rightarrow> u8 res" where
  "CMP_LOW rng trig_volt offset_volt =
     (let div_volt = of_int (Volt rng) / of_int kVoltDivNum in
      to_word ((trig_volt + offset_volt) / div_volt * 31.25 + 127))"

definition Voffset :: "CalibrateInfo \<Rightarrow> real \<Rightarrow> real" where
  "Voffset info offset = VCal_base info + offset / Kcal info"

definition Gain :: "CalibrateInfo \<Rightarrow> u32" where
  "Gain info = N1 info"

definition CH_OFFSET :: "CalibrateInfo \<Rightarrow> real \<Rightarrow> u32 res" where
  "CH_OFFSET info offset = to_word ((Voffset info offset + 2.67) * 2 ^ 16 / 4.2 / 1.25)"

subsection \<open>The device\<close>

record ChnlConfig =
  cc_range :: VoltRange
  cc_offset :: real
  cc_coupling :: Coupling

record 'd OscDevice =
  ov_props :: OscProperties
  ov_analog_ctrl :: RegisterMemory
  ov_soft_diff :: RegisterMemory
  ov_analog_switch :: RegisterMemory
  ov_trigger1 :: RegisterMemory
  ov_trigger2 :: RegisterMemory
  ov_device_type :: DeviceType
  ov_device :: 'd

definition OscDevice_new :: "OscProperties \<Rightarrow> DeviceType \<Rightarrow> 'd \<Rightarrow> 'd OscDevice res" where
  "OscDevice_new props type device =
     and_then AnalogCtrlRegister_new (\<lambda>analog_ctrl.
     and_then SoftDiffRegister_new (\<lambda>soft_diff.
     and_then AnalogSwitchRegister_new (\<lambda>analog_switch.
     and_then Trigger1Register_new (\<lambda>trigger1.
     and_then Trigger2Register_new (\<lambda>trigger2.
       Inr \<lparr>ov_props = props, ov_analog_ctrl = analog_ctrl, ov_soft_diff = soft_diff,
            ov_analog_switch = analog_switch, ov_trigger1 = trigger1, ov_trigger2 = trigger2,
            ov_device_type = type, ov_device = device\<rparr>)))))"

definition GetCalibrateInfo :: "Chnl \<Rightarrow> VoltRange \<Rightarrow> CalibrateInfo" where
  "GetCalibrateInfo chnl rng = kDefaultCalibrateInfo ! volt_index rng"

definition GetChnlConfig :: "Chnl \<Rightarrow> OscProperties \<Rightarrow> ChnlConfig" where
  "GetChnlConfig chnl p =
     (case chnl of
        CAN_H \<Rightarrow> \<lparr>cc_range = range_can_h p, cc_offset = offset_can_h p, cc_coupling = coupling_can_h p\<rparr>
      | CAN_L \<Rightarrow> \<lparr>cc_range = range_can_l p, cc_offset = offset_can_l p, cc_coupling = coupling_can_l p\<rparr>
      | CAN_DIFF \<Rightarrow> \<lparr>cc_range = range_can_diff p, cc_offset = offset_can_diff p, cc_coupling = kDC\<rparr>)"

text \<open>The gain and the offset of a channel.\<close>

definition put_analog :: "bind \<Rightarrow> bind \<Rightarrow> ChnlConfig \<Rightarrow> CalibrateInfo \<Rightarrow> RegisterMemory \<Rightarrow> RegisterMemory res" where
  "put_analog gain offset config info rm =
     and_then (put gain (Gain info) rm) (\<lambda>rm.
     and_then (CH_OFFSET info (cc_offset config)) (\<lambda>v. put offset v rm))"

definition SetAnalogCtrl :: "Chnl \<Rightarrow> 'd OscDevice \<Rightarrow> 'd OscDevice res" where
  "SetAnalogCtrl chnl s =
     (let config = GetChnlConfig chnl (ov_props s); info = GetCalibrateInfo chnl (cc_range config) in
      and_then
        (case chnl of
           CAN_H \<Rightarrow> put_analog (U32B AnalogCtrl_can_h_gain) (U32B AnalogCtrl_can_h_offset) config info
             (ov_analog_ctrl s)
         | CAN_L \<Rightarrow> put_analog (U32B AnalogCtrl_can_l_gain) (U32B AnalogCtrl_can_l_offset) config info
             (ov_analog_ctrl s)
         | CAN_DIFF \<Rightarrow> Inl NotReached)
        (\<lambda>rm. Inr (s\<lparr>ov_analog_ctrl := rm\<rparr>)))"

definition put_soft :: "bind \<Rightarrow> bind \<Rightarrow> ChnlConfig \<Rightarrow> RegisterMemory \<Rightarrow> RegisterMemory res" where
  "put_soft sens zero config rm =
     and_then (put sens (ucast (kSensCoeff ! volt_index (cc_range config))) rm) (\<lambda>rm.
     and_then (CH_ZERO (cc_range config) (cc_offset config)) (\<lambda>v. put zero (ucast v) rm))"

definition SetSoftDiff :: "Chnl \<Rightarrow> 'd OscDevice \<Rightarrow> 'd OscDevice res" where
  "SetSoftDiff chnl s =
     (let config = GetChnlConfig chnl (ov_props s) in
      and_then
        (case chnl of
           CAN_H \<Rightarrow> put_soft (ByteB SoftDiff_ch_sens_canh) (SplitB SoftDiff_ch_zero_canh) config (ov_soft_diff s)
         | CAN_L \<Rightarrow> put_soft (ByteB SoftDiff_ch_sens_canl) (SplitB SoftDiff_ch_zero_canl) config (ov_soft_diff s)
         | CAN_DIFF \<Rightarrow> put_soft (ByteB SoftDiff_ch_sens_candiff) (SplitB SoftDiff_ch_zero_candiff) config
             (ov_soft_diff s))
        (\<lambda>rm. and_then (put (BoolB SoftDiff_diff_ctrl) (of_bool (GetDiffCtrl (diff_ctrl (ov_props s)))) rm)
        (\<lambda>rm. Inr (s\<lparr>ov_soft_diff := rm\<rparr>))))"

definition put_switch :: "bind \<Rightarrow> bind \<Rightarrow> ChnlConfig \<Rightarrow> RegisterMemory \<Rightarrow> RegisterMemory res" where
  "put_switch coupling attenuation config rm =
     and_then (put coupling (of_bool (GetCoupling (cc_coupling config))) rm)
       (put attenuation (of_bool (Attenuation (cc_range config))))"

definition SetAnalogSwitch :: "Chnl \<Rightarrow> 'd OscDevice \<Rightarrow> 'd OscDevice res" where
  "SetAnalogSwitch chnl s =
     (let config = GetChnlConfig chnl (ov_props s) in
      and_then
        (case chnl of
           CAN_H \<Rightarrow> put_switch (BoolB AnalogSwitch_coupling_canh) (BoolB AnalogSwitch_attenuation_canh) config
             (ov_analog_switch s)
         | CAN_L \<Rightarrow> put_switch (BoolB AnalogSwitch_coupling_canl) (BoolB AnalogSwitch_attenuation_canl) config
             (ov_analog_switch s)
         | CAN_DIFF \<Rightarrow> Inl NotReached)
        (\<lambda>rm. Inr (s\<lparr>ov_analog_switch := rm\<rparr>)))"

text \<open>The number of samples before the trigger and behind it; \<open>base_value * 5 * k\<close> is a \<open>uint32\<close>.\<close>

definition half_window :: "OscProperties \<Rightarrow> DeviceType \<Rightarrow> u32" where
  "half_window p device_type = TimeBaseValue (time_base p) * 5 * word_of_int (DeviceK device_type)"

definition SetTrigger1 :: "DeviceType \<Rightarrow> 'd OscDevice \<Rightarrow> 'd OscDevice res" where
  "SetTrigger1 device_type s =
     (let p = ov_props s; window = of_nat (unat (half_window p device_type)) :: real in
      and_then (put (U32B Trigger1_div_coe) (kCOE ! time_index (time_base p)) (ov_trigger1 s)) (\<lambda>rm.
      and_then (get (U32B Trigger1_div_coe) rm) (\<lambda>div_coe.
      let samet = of_nat (unat (SAMET div_coe)) :: real in
      and_then (to_word ((window + time_offset p) / samet * 2)) (\<lambda>temp.
      and_then (put (U32B Trigger1_trig_pre) (temp AND 0xFFFFFFFC) rm) (\<lambda>rm.
      and_then (to_word ((window - time_offset p) / samet * 2)) (\<lambda>temp.
      and_then (put (U32B Trigger1_trig_post) (max 8 temp AND 0xFFFFFFFC) rm) (\<lambda>rm.
      and_then (to_word (auto_time p * 1000000 / 10)) (\<lambda>v.
      and_then (put (U32B Trigger1_auto_time) v rm) (\<lambda>rm.
        Inr (s\<lparr>ov_trigger1 := rm\<rparr>))))))))))"

text \<open>The two levels, high and low, are bytes: the sums wrap around.\<close>

definition TriggerVolt :: "OscProperties \<Rightarrow> (u8 \<times> u8) res" where
  "TriggerVolt p =
     and_then (TriggerSource2Chnl (trigger_source p)) (\<lambda>chnl.
     let config = GetChnlConfig chnl p in
     and_then (CMP_LOW (cc_range config) (trigger_volt p) (cc_offset config)) (\<lambda>low.
       let high = (case trigger_sens p of kDefault \<Rightarrow> low + 3 | kStrengthen \<Rightarrow> low + 15);
           low = (if low > 250 then 247 else low);
           high = (if high > 250 then 250 else high)
       in Inr (high, low)))"

definition SetTrigger2 :: "'d OscDevice \<Rightarrow> 'd OscDevice res" where
  "SetTrigger2 s =
     (let p = ov_props s in
      and_then (put (SubB Trigger2_trig_source) (of_nat (source_index (trigger_source p))) (ov_trigger2 s)) (\<lambda>rm.
      and_then (put (SubB Trigger2_trig_type) (of_nat (type_index (trigger_type p))) rm) (\<lambda>rm.
      and_then (put (SubB Trigger2_trig_mode) (GetTrigMode (trigger_mode p)) rm) (\<lambda>rm.
      and_then (put (SubB Trigger2_compare) (of_nat (compare_index (compare_type p))) rm) (\<lambda>rm.
      and_then (to_word (time_param p)) (\<lambda>time.
      and_then (put (SubB Trigger2_trig_time) ((time div 10 - 1) AND 0x3FFFFFFF) rm) (\<lambda>rm.
        if \<not> IsTriggerSourceChnl (trigger_source p) then Inr (s\<lparr>ov_trigger2 := rm\<rparr>)
        else
          and_then (TriggerVolt p) (\<lambda>(high, low).
          and_then (put (ByteB Trigger2_cmp_high) (ucast high) rm) (\<lambda>rm.
          and_then (put (ByteB Trigger2_cmp_low) (ucast low) rm) (\<lambda>rm.
            Inr (s\<lparr>ov_trigger2 := rm\<rparr>)))))))))))"

subsection \<open>Writing registers\<close>

definition OscDevice_WriteDevice :: "'d DeviceDelegate \<Rightarrow> ('d OscDevice \<Rightarrow> RegisterMemory) \<Rightarrow> 'd OscDevice writer" where
  "OscDevice_WriteDevice del reg s =
     and_then (send_register del (reg s) (ov_device s)) (\<lambda>(e, d). Inr (e, s\<lparr>ov_device := d\<rparr>))"

definition OscDevice_WriteDeviceRange ::
  "'d DeviceDelegate \<Rightarrow> ('d OscDevice \<Rightarrow> RegisterMemory) \<Rightarrow> int \<Rightarrow> int \<Rightarrow> 'd OscDevice writer" where
  "OscDevice_WriteDeviceRange del reg start_offset n s =
     and_then (send_range del (reg s) start_offset n (ov_device s)) (\<lambda>(e, d). Inr (e, s\<lparr>ov_device := d\<rparr>))"

definition WriteSoftDiff :: "'d DeviceDelegate \<Rightarrow> 'd OscDevice writer" where
  "WriteSoftDiff del = OscDevice_WriteDeviceRange del ov_soft_diff SoftDiff_kChnlOffset SoftDiff_kChnlSize"

definition SetVoltRange :: "'d DeviceDelegate \<Rightarrow> Chnl \<Rightarrow> 'd OscDevice \<Rightarrow> 'd OscDevice res" where
  "SetVoltRange del chnl s =
     and_then (if chnl \<noteq> CAN_DIFF then and_then (SetAnalogCtrl chnl s) (SetAnalogSwitch chnl) else Inr s) (\<lambda>s.
     and_then (SetSoftDiff chnl s) (\<lambda>s.
     and_then (SetTrigger2 s) (\<lambda>s.
       write_seq
         ((if chnl \<noteq> CAN_DIFF
           then [OscDevice_WriteDevice del ov_analog_ctrl, OscDevice_WriteDevice del ov_analog_switch] else []) @
          [WriteSoftDiff del, OscDevice_WriteDevice del ov_trigger2]) s)))"

definition SetVoltOffset :: "'d DeviceDelegate \<Rightarrow> Chnl \<Rightarrow> 'd OscDevice \<Rightarrow> 'd OscDevice res" where
  "SetVoltOffset = SetVoltRange"

definition SetCoupling :: "'d DeviceDelegate \<Rightarrow> Chnl \<Rightarrow> 'd OscDevice \<Rightarrow> 'd OscDevice res" where
  "SetCoupling del chnl s =
     DCHECK (chnl \<noteq> CAN_DIFF) (
     and_then (SetAnalogSwitch chnl s) (write_seq [OscDevice_WriteDevice del ov_analog_switch]))"

definition SetDiffCtrl :: "'d DeviceDelegate \<Rightarrow> 'd OscDevice \<Rightarrow> 'd OscDevice res" where
  "SetDiffCtrl del s = and_then (SetSoftDiff CAN_DIFF s) (write_seq [WriteSoftDiff del])"

definition SetTimeBase :: "'d DeviceDelegate \<Rightarrow> 'd OscDevice \<Rightarrow> 'd OscDevice res" where
  "SetTimeBase del s =
     and_then (SetTrigger1 (ov_device_type s) s) (write_seq [OscDevice_WriteDevice del ov_trigger1])"

definition SetTimeOffset :: "'d DeviceDelegate \<Rightarrow> 'd OscDevice \<Rightarrow> 'd OscDevice res" where
  "SetTimeOffset = SetTimeBase"

definition SetAutoTime :: "'d DeviceDelegate \<Rightarrow> 'd OscDevice \<Rightarrow> 'd OscDevice res" where
  "SetAutoTime = SetTimeBase"

definition SetTriggerSource :: "'d DeviceDelegate \<Rightarrow> 'd OscDevice \<Rightarrow> 'd OscDevice res" where
  "SetTriggerSource del s =
     and_then (SetTrigger2 s) (write_seq [OscDevice_WriteDevice del ov_trigger2])"

text \<open>The setters of the other trigger properties are \<open>SetTriggerSource\<close>.\<close>

definition SetTriggerType :: "'d DeviceDelegate \<Rightarrow> 'd OscDevice \<Rightarrow> 'd OscDevice res" where
  "SetTriggerType = SetTriggerSource"

definition SetTriggerMode :: "'d DeviceDelegate \<Rightarrow> 'd OscDevice \<Rightarrow> 'd OscDevice res" where
  "SetTriggerMode = SetTriggerSource"

definition SetTriggerSens :: "'d DeviceDelegate \<Rightarrow> 'd OscDevice \<Rightarrow> 'd OscDevice res" where
  "SetTriggerSens = SetTriggerSource"

definition SetCompare :: "'d DeviceDelegate \<Rightarrow> 'd OscDevice \<Rightarrow> 'd OscDevice res" where
  "SetCompare = SetTriggerSource"

definition SetTriggerVolt :: "'d DeviceDelegate \<Rightarrow> 'd OscDevice \<Rightarrow> 'd OscDevice res" where
  "SetTriggerVolt = SetTriggerSource"

definition SetTimeParam :: "'d DeviceDelegate \<Rightarrow> 'd OscDevice \<Rightarrow> 'd OscDevice res" where
  "SetTimeParam = SetTriggerSource"

text \<open>The registers in \<open>SetAll\<close>, and then the writes.\<close>

definition set_registers :: "'d OscDevice \<Rightarrow> 'd OscDevice res" where
  "set_registers s =
     and_then (SetAnalogCtrl CAN_H s) (\<lambda>s.
     and_then (SetAnalogCtrl CAN_L s) (\<lambda>s.
     and_then (SetSoftDiff CAN_H s) (\<lambda>s.
     and_then (SetSoftDiff CAN_L s) (\<lambda>s.
     and_then (SetSoftDiff CAN_DIFF s) (\<lambda>s.
     and_then (SetAnalogSwitch CAN_H s) (\<lambda>s.
     and_then (SetAnalogSwitch CAN_L s) (\<lambda>s.
     and_then (SetTrigger1 (ov_device_type s) s) SetTrigger2)))))))"

definition SetAll :: "'d DeviceDelegate \<Rightarrow> 'd OscDevice \<Rightarrow> 'd OscDevice res" where
  "SetAll del s =
     and_then (set_registers s)
       (write_seq [OscDevice_WriteDevice del ov_analog_ctrl, WriteSoftDiff del,
          OscDevice_WriteDevice del ov_analog_switch, OscDevice_WriteDevice del ov_trigger1,
          OscDevice_WriteDevice del ov_trigger2])"

lemma sub_bounds:
  "of_nat (source_index src) \<le> bind_bound (SubB Trigger2_trig_source)"
  "of_nat (type_index ty) \<le> bind_bound (SubB Trigger2_trig_type)"
  "GetTrigMode mode \<le> bind_bound (SubB Trigger2_trig_mode)"
  "of_nat (compare_index cmp) \<le> bind_bound (SubB Trigger2_compare)"
  "time AND 0x3FFFFFFF \<le> bind_bound (SubB Trigger2_trig_time)"
proof -
  have max: "MaxValue Trigger2_trig_source = 7" "MaxValue Trigger2_trig_type = 7" "MaxValue Trigger2_trig_mode = 1"
    "MaxValue Trigger2_compare = 3" "MaxValue Trigger2_trig_time = 0x3FFFFFFF"
    by (simp_all add: MaxValue_def register_members)
  show "of_nat (source_index src) \<le> bind_bound (SubB Trigger2_trig_source)" by (cases src) (simp_all add: max)
  show "of_nat (type_index ty) \<le> bind_bound (SubB Trigger2_trig_type)" by (cases ty) (simp_all add: max)
  show "GetTrigMode mode \<le> bind_bound (SubB Trigger2_trig_mode)" by (simp add: max GetTrigMode_def)
  show "of_nat (compare_index cmp) \<le> bind_bound (SubB Trigger2_compare)" by (cases cmp) (simp_all add: max)
  show "time AND 0x3FFFFFFF \<le> bind_bound (SubB Trigger2_trig_time)" by (simp add: max word_and_le1)
qed

subsection \<open>The registers as tables\<close>

definition calibrated :: "VoltRange \<Rightarrow> CalibrateInfo" where
  "calibrated rng = kDefaultCalibrateInfo ! volt_index rng"

definition analog_table :: "OscProperties \<Rightarrow> table" where
  "analog_table p =
     [(U32B AnalogCtrl_can_h_gain, Inr (N1 (calibrated (range_can_h p)))),
      (U32B AnalogCtrl_can_h_offset, CH_OFFSET (calibrated (range_can_h p)) (offset_can_h p)),
      (U32B AnalogCtrl_can_l_gain, Inr (N1 (calibrated (range_can_l p)))),
      (U32B AnalogCtrl_can_l_offset, CH_OFFSET (calibrated (range_can_l p)) (offset_can_l p))]"

definition soft_table :: "OscProperties \<Rightarrow> table" where
  "soft_table p =
     [(ByteB SoftDiff_ch_sens_canh, Inr (ucast (kSensCoeff ! volt_index (range_can_h p)))),
      (SplitB SoftDiff_ch_zero_canh, and_then (CH_ZERO (range_can_h p) (offset_can_h p)) (\<lambda>v. Inr (ucast v))),
      (ByteB SoftDiff_ch_sens_canl, Inr (ucast (kSensCoeff ! volt_index (range_can_l p)))),
      (SplitB SoftDiff_ch_zero_canl, and_then (CH_ZERO (range_can_l p) (offset_can_l p)) (\<lambda>v. Inr (ucast v))),
      (ByteB SoftDiff_ch_sens_candiff, Inr (ucast (kSensCoeff ! volt_index (range_can_diff p)))),
      (SplitB SoftDiff_ch_zero_candiff, and_then (CH_ZERO (range_can_diff p) (offset_can_diff p)) (\<lambda>v. Inr (ucast v))),
      (BoolB SoftDiff_diff_ctrl, Inr (of_bool (diff_ctrl p = kAverage)))]"

definition switch_table :: "OscProperties \<Rightarrow> table" where
  "switch_table p =
     [(BoolB AnalogSwitch_coupling_canh, Inr (of_bool (coupling_can_h p = kAC))),
      (BoolB AnalogSwitch_attenuation_canh, Inr (of_bool (8 \<le> Volt (range_can_h p)))),
      (BoolB AnalogSwitch_coupling_canl, Inr (of_bool (coupling_can_l p = kAC))),
      (BoolB AnalogSwitch_attenuation_canl, Inr (of_bool (8 \<le> Volt (range_can_l p))))]"

definition samples :: "OscProperties \<Rightarrow> DeviceType \<Rightarrow> real \<Rightarrow> u32 res" where
  "samples p t offset =
     to_word ((of_nat (unat (half_window p t)) + offset) / of_nat (unat (SAMET (kCOE ! time_index (time_base p)))) * 2)"

definition trigger1_table :: "OscProperties \<Rightarrow> DeviceType \<Rightarrow> table" where
  "trigger1_table p t =
     [(U32B Trigger1_div_coe, Inr (kCOE ! time_index (time_base p))),
      (U32B Trigger1_trig_pre, and_then (samples p t (time_offset p)) (\<lambda>v. Inr (v AND 0xFFFFFFFC))),
      (U32B Trigger1_trig_post, and_then (samples p t (- time_offset p)) (\<lambda>v. Inr (max 8 v AND 0xFFFFFFFC))),
      (U32B Trigger1_auto_time, to_word (auto_time p * 1000000 / 10))]"

definition trigger2_table :: "OscProperties \<Rightarrow> table" where
  "trigger2_table p =
     [(SubB Trigger2_trig_source, Inr (of_nat (source_index (trigger_source p)))),
      (SubB Trigger2_trig_type, Inr (of_nat (type_index (trigger_type p)))),
      (SubB Trigger2_trig_mode, Inr (of_bool (trigger_mode p = kNormal))),
      (SubB Trigger2_compare, Inr (of_nat (compare_index (compare_type p)))),
      (SubB Trigger2_trig_time, and_then (to_word (time_param p)) (\<lambda>v. Inr ((v div 10 - 1) AND 0x3FFFFFFF)))] @
     (if IsTriggerSourceChnl (trigger_source p)
      then [(ByteB Trigger2_cmp_high, and_then (TriggerVolt p) (\<lambda>(high, low). Inr (ucast high))),
            (ByteB Trigger2_cmp_low, and_then (TriggerVolt p) (\<lambda>(high, low). Inr (ucast low)))]
      else [])"

lemma Attenuation_iff: "Attenuation rng \<longleftrightarrow> 8 \<le> Volt rng"
  by (cases rng) (simp_all add: Attenuation_def)

lemma put_analog_ok:
  assumes "reg_at addr sz bs f rm" and "U32B gain \<in> set bs" and "U32B offset \<in> set bs"
    and "CH_OFFSET info (cc_offset config) = Inr v"
  shows "\<exists>rm'. put_analog (U32B gain) (U32B offset) config info rm = Inr rm' \<and>
    reg_at addr sz bs (f(U32B gain := N1 info, U32B offset := v)) rm'"
proof -
  obtain rm1 where "put (U32B gain) (Gain info) rm = Inr rm1" "reg_at addr sz bs (f(U32B gain := N1 info)) rm1"
    using put_at [OF assms(1,2) bound_simps(1), of "Gain info"] by (auto simp: Gain_def)
  then show ?thesis using put_at [OF _ assms(3) bound_simps(1), of addr sz _ rm1 v] assms(4)
    by (auto simp: put_analog_def)
qed

lemma put_soft_ok:
  assumes "reg_at addr sz bs f rm" and "ByteB sens \<in> set bs" and "SplitB zero \<in> set bs"
    and "CH_ZERO (cc_range config) (cc_offset config) = Inr v"
  shows "\<exists>rm'. put_soft (ByteB sens) (SplitB zero) config rm = Inr rm' \<and>
    reg_at addr sz bs (f(ByteB sens := ucast (kSensCoeff ! volt_index (cc_range config)), SplitB zero := ucast v)) rm'"
proof -
  let ?s = "ucast (kSensCoeff ! volt_index (cc_range config)) :: u32"
  obtain rm1 where "put (ByteB sens) ?s rm = Inr rm1" "reg_at addr sz bs (f(ByteB sens := ?s)) rm1"
    using put_at [OF assms(1,2) bound_simps(3)] by blast
  then show ?thesis using put_at [OF _ assms(3) bound_simps(4), of addr sz _ rm1 v] assms(4)
    by (auto simp: put_soft_def)
qed

lemma put_switch_ok:
  assumes "reg_at addr sz bs f rm" and "BoolB coupling \<in> set bs" and "BoolB attenuation \<in> set bs"
  shows "\<exists>rm'. put_switch (BoolB coupling) (BoolB attenuation) config rm = Inr rm' \<and>
    reg_at addr sz bs (f(BoolB coupling := of_bool (GetCoupling (cc_coupling config)),
      BoolB attenuation := of_bool (Attenuation (cc_range config)))) rm'"
proof -
  let ?c = "of_bool (GetCoupling (cc_coupling config)) :: u32"
  obtain rm1 where "put (BoolB coupling) ?c rm = Inr rm1" "reg_at addr sz bs (f(BoolB coupling := ?c)) rm1"
    using put_at [OF assms(1,2) bound_simps(2)] by blast
  then show ?thesis
    using put_at [OF _ assms(3) bound_simps(2), of addr sz _ rm1 "Attenuation (cc_range config)"]
    by (auto simp: put_switch_def)
qed

lemma analog_ok:
  assumes "reg_ok kAnalogCtrlAddr kAnalogCtrlSize (ov_analog_ctrl s)" and "convertible (analog_table (ov_props s))"
  shows "\<exists>rm. and_then (SetAnalogCtrl CAN_H s) (SetAnalogCtrl CAN_L) = Inr (s\<lparr>ov_analog_ctrl := rm\<rparr>) \<and>
    reg_ok kAnalogCtrlAddr kAnalogCtrlSize rm \<and> matches (analog_table (ov_props s)) rm"
proof -
  let ?p = "ov_props s" and ?bs = AnalogCtrlRegister_binds
  let ?H = "GetChnlConfig CAN_H ?p" and ?L = "GetChnlConfig CAN_L ?p"
  obtain f where f: "reg_at kAnalogCtrlAddr kAnalogCtrlSize ?bs f (ov_analog_ctrl s)"
    using reg_ok_at [OF assms(1) register_layouts(1)] by blast
  obtain h l where v: "CH_OFFSET (calibrated (range_can_h ?p)) (offset_can_h ?p) = Inr h"
    "CH_OFFSET (calibrated (range_can_l ?p)) (offset_can_l ?p) = Inr l"
    using assms(2) by (auto simp: convertible_def analog_table_def not_isl_iff_Inr)
  have mem: "U32B AnalogCtrl_can_h_gain \<in> set ?bs" "U32B AnalogCtrl_can_h_offset \<in> set ?bs"
    "U32B AnalogCtrl_can_l_gain \<in> set ?bs" "U32B AnalogCtrl_can_l_offset \<in> set ?bs"
    by (simp_all add: AnalogCtrlRegister_binds_def)
  obtain rm1 where rm1: "put_analog (U32B AnalogCtrl_can_h_gain) (U32B AnalogCtrl_can_h_offset) ?H
      (calibrated (range_can_h ?p)) (ov_analog_ctrl s) = Inr rm1"
    "reg_at kAnalogCtrlAddr kAnalogCtrlSize ?bs
      (f(U32B AnalogCtrl_can_h_gain := N1 (calibrated (range_can_h ?p)), U32B AnalogCtrl_can_h_offset := h)) rm1"
    using put_analog_ok [OF f mem(1,2), of "calibrated (range_can_h ?p)" ?H h] v(1) by (auto simp: GetChnlConfig_def)
  obtain rm2 where rm2: "put_analog (U32B AnalogCtrl_can_l_gain) (U32B AnalogCtrl_can_l_offset) ?L
      (calibrated (range_can_l ?p)) rm1 = Inr rm2"
    "reg_at kAnalogCtrlAddr kAnalogCtrlSize ?bs
      (f(U32B AnalogCtrl_can_h_gain := N1 (calibrated (range_can_h ?p)), U32B AnalogCtrl_can_h_offset := h,
         U32B AnalogCtrl_can_l_gain := N1 (calibrated (range_can_l ?p)), U32B AnalogCtrl_can_l_offset := l)) rm2"
    using put_analog_ok [OF rm1(2) mem(3,4), of "calibrated (range_can_l ?p)" ?L l] v(2) by (auto simp: GetChnlConfig_def)
  have "and_then (SetAnalogCtrl CAN_H s) (SetAnalogCtrl CAN_L) = Inr (s\<lparr>ov_analog_ctrl := rm2\<rparr>)"
    using rm1(1) rm2(1)
    by (simp add: SetAnalogCtrl_def Let_def GetCalibrateInfo_def calibrated_def GetChnlConfig_def)
  moreover have "matches (analog_table ?p) rm2"
    using get_at [OF rm2(2)] mem v by (simp add: matches_def analog_table_def register_consts register_members)
  ultimately show ?thesis using reg_at_ok [OF rm2(2)] by (intro exI conjI)
qed

lemma switch_ok:
  assumes "reg_ok kAnalogSwitchAddr kAnalogSwitchSize (ov_analog_switch s)"
  shows "\<exists>rm. and_then (SetAnalogSwitch CAN_H s) (SetAnalogSwitch CAN_L) = Inr (s\<lparr>ov_analog_switch := rm\<rparr>) \<and>
    reg_ok kAnalogSwitchAddr kAnalogSwitchSize rm \<and> matches (switch_table (ov_props s)) rm"
proof -
  let ?p = "ov_props s" and ?bs = AnalogSwitchRegister_binds
  let ?H = "GetChnlConfig CAN_H ?p" and ?L = "GetChnlConfig CAN_L ?p"
  obtain f where f: "reg_at kAnalogSwitchAddr kAnalogSwitchSize ?bs f (ov_analog_switch s)"
    using reg_ok_at [OF assms register_layouts(3)] by blast
  have mem: "BoolB AnalogSwitch_coupling_canh \<in> set ?bs" "BoolB AnalogSwitch_attenuation_canh \<in> set ?bs"
    "BoolB AnalogSwitch_coupling_canl \<in> set ?bs" "BoolB AnalogSwitch_attenuation_canl \<in> set ?bs"
    by (simp_all add: AnalogSwitchRegister_binds_def)
  obtain rm1 f1 where rm1: "put_switch (BoolB AnalogSwitch_coupling_canh) (BoolB AnalogSwitch_attenuation_canh) ?H
      (ov_analog_switch s) = Inr rm1" "reg_at kAnalogSwitchAddr kAnalogSwitchSize ?bs f1 rm1"
    "f1 = f(BoolB AnalogSwitch_coupling_canh := of_bool (coupling_can_h ?p = kAC),
      BoolB AnalogSwitch_attenuation_canh := of_bool (8 \<le> Volt (range_can_h ?p)))"
    using put_switch_ok [OF f mem(1,2), of ?H] by (auto simp: GetChnlConfig_def Attenuation_iff GetCoupling_def)
  obtain rm2 where rm2: "put_switch (BoolB AnalogSwitch_coupling_canl) (BoolB AnalogSwitch_attenuation_canl) ?L
      rm1 = Inr rm2"
    "reg_at kAnalogSwitchAddr kAnalogSwitchSize ?bs (f1(BoolB AnalogSwitch_coupling_canl := of_bool (coupling_can_l ?p = kAC),
      BoolB AnalogSwitch_attenuation_canl := of_bool (8 \<le> Volt (range_can_l ?p)))) rm2"
    using put_switch_ok [OF rm1(2) mem(3,4), of ?L] by (auto simp: GetChnlConfig_def Attenuation_iff GetCoupling_def)
  have "and_then (SetAnalogSwitch CAN_H s) (SetAnalogSwitch CAN_L) = Inr (s\<lparr>ov_analog_switch := rm2\<rparr>)"
    using rm1(1) rm2(1) by (simp add: SetAnalogSwitch_def Let_def)
  moreover have "matches (switch_table ?p) rm2"
    using get_at [OF rm2(2)] mem
    by (simp add: matches_def switch_table_def register_consts register_members rm1(3))
  ultimately show ?thesis using reg_at_ok [OF rm2(2)] by (intro exI conjI)
qed

definition soft_sens :: "Chnl \<Rightarrow> bind" where
  "soft_sens chnl = ByteB (case chnl of CAN_H \<Rightarrow> SoftDiff_ch_sens_canh | CAN_L \<Rightarrow> SoftDiff_ch_sens_canl
     | CAN_DIFF \<Rightarrow> SoftDiff_ch_sens_candiff)"

definition soft_zero :: "Chnl \<Rightarrow> bind" where
  "soft_zero chnl = SplitB (case chnl of CAN_H \<Rightarrow> SoftDiff_ch_zero_canh | CAN_L \<Rightarrow> SoftDiff_ch_zero_canl
     | CAN_DIFF \<Rightarrow> SoftDiff_ch_zero_candiff)"

lemma SetSoftDiff_ok:
  assumes "reg_at kSoftDiffAddr kSoftDiffSize SoftDiffRegister_binds f (ov_soft_diff s)"
    and "config = GetChnlConfig chnl (ov_props s)"
    and "CH_ZERO (cc_range config) (cc_offset config) = Inr v"
  shows "\<exists>rm. SetSoftDiff chnl s = Inr (s\<lparr>ov_soft_diff := rm\<rparr>) \<and>
    reg_at kSoftDiffAddr kSoftDiffSize SoftDiffRegister_binds
      (f(soft_sens chnl := ucast (kSensCoeff ! volt_index (cc_range config)), soft_zero chnl := ucast v,
         BoolB SoftDiff_diff_ctrl := of_bool (diff_ctrl (ov_props s) = kAverage))) rm"
proof -
  let ?bs = SoftDiffRegister_binds
  have mem: "soft_sens chnl \<in> set ?bs" "soft_zero chnl \<in> set ?bs" "BoolB SoftDiff_diff_ctrl \<in> set ?bs"
    by (cases chnl; simp add: soft_sens_def soft_zero_def SoftDiffRegister_binds_def)+
  obtain rm1 where rm1: "put_soft (soft_sens chnl) (soft_zero chnl) config (ov_soft_diff s) = Inr rm1"
    "reg_at kSoftDiffAddr kSoftDiffSize ?bs
      (f(soft_sens chnl := ucast (kSensCoeff ! volt_index (cc_range config)), soft_zero chnl := ucast v)) rm1"
    using put_soft_ok [OF assms(1), of _ _ config v] mem assms(3) unfolding soft_sens_def soft_zero_def by blast
  obtain rm2 where rm2: "put (BoolB SoftDiff_diff_ctrl) (of_bool (diff_ctrl (ov_props s) = kAverage)) rm1 = Inr rm2"
    "reg_at kSoftDiffAddr kSoftDiffSize ?bs
      (f(soft_sens chnl := ucast (kSensCoeff ! volt_index (cc_range config)), soft_zero chnl := ucast v,
         BoolB SoftDiff_diff_ctrl := of_bool (diff_ctrl (ov_props s) = kAverage))) rm2"
    using put_at [OF rm1(2) mem(3) bound_simps(2), of "diff_ctrl (ov_props s) = kAverage"]
    by (elim exE conjE) (rule that)
  have "SetSoftDiff chnl s = and_then (put_soft (soft_sens chnl) (soft_zero chnl) config (ov_soft_diff s))
      (\<lambda>rm. and_then (put (BoolB SoftDiff_diff_ctrl) (of_bool (GetDiffCtrl (diff_ctrl (ov_props s)))) rm)
        (\<lambda>rm. Inr (s\<lparr>ov_soft_diff := rm\<rparr>)))"
    by (cases chnl) (simp_all add: SetSoftDiff_def soft_sens_def soft_zero_def assms(2) Let_def)
  then have "SetSoftDiff chnl s = Inr (s\<lparr>ov_soft_diff := rm2\<rparr>)"
    by (simp only: GetDiffCtrl_def rm1(1) rm2(1) and_then_simps)
  with rm2(2) show ?thesis by blast
qed

lemma soft_ok:
  assumes "reg_ok kSoftDiffAddr kSoftDiffSize (ov_soft_diff s)" and "convertible (soft_table (ov_props s))"
  shows "\<exists>rm. and_then (and_then (SetSoftDiff CAN_H s) (SetSoftDiff CAN_L)) (SetSoftDiff CAN_DIFF) =
      Inr (s\<lparr>ov_soft_diff := rm\<rparr>) \<and>
    reg_ok kSoftDiffAddr kSoftDiffSize rm \<and> matches (soft_table (ov_props s)) rm"
proof -
  let ?p = "ov_props s" and ?bs = SoftDiffRegister_binds
  let ?c = "\<lambda>chnl. GetChnlConfig chnl ?p" and ?d = "of_bool (diff_ctrl ?p = kAverage) :: u32"
  let ?u = "\<lambda>chnl. ucast (kSensCoeff ! volt_index (cc_range (?c chnl))) :: u32"
  obtain f where f: "reg_at kSoftDiffAddr kSoftDiffSize ?bs f (ov_soft_diff s)"
    using reg_ok_at [OF assms(1) register_layouts(2)] by blast
  have "\<forall>chnl. \<exists>v. CH_ZERO (cc_range (?c chnl)) (cc_offset (?c chnl)) = Inr v"
  proof
    fix chnl
    show "\<exists>v. CH_ZERO (cc_range (?c chnl)) (cc_offset (?c chnl)) = Inr v"
      using assms(2) by (cases chnl) (auto simp: convertible_def soft_table_def not_isl_iff_Inr GetChnlConfig_def)
  qed
  then obtain z where z: "\<And>chnl. CH_ZERO (cc_range (?c chnl)) (cc_offset (?c chnl)) = Inr (z chnl)"
    by metis
  define f1 where "f1 = f(soft_sens CAN_H := ?u CAN_H, soft_zero CAN_H := ucast (z CAN_H), BoolB SoftDiff_diff_ctrl := ?d)"
  define f2 where "f2 = f1(soft_sens CAN_L := ?u CAN_L, soft_zero CAN_L := ucast (z CAN_L), BoolB SoftDiff_diff_ctrl := ?d)"
  define f3 where "f3 = f2(soft_sens CAN_DIFF := ?u CAN_DIFF, soft_zero CAN_DIFF := ucast (z CAN_DIFF),
    BoolB SoftDiff_diff_ctrl := ?d)"
  obtain rm1 where rm1: "SetSoftDiff CAN_H s = Inr (s\<lparr>ov_soft_diff := rm1\<rparr>)" "reg_at kSoftDiffAddr kSoftDiffSize ?bs f1 rm1"
    using SetSoftDiff_ok [OF f refl z, of CAN_H, folded f1_def] by (elim exE conjE) (rule that)
  obtain rm2 where rm2: "SetSoftDiff CAN_L (s\<lparr>ov_soft_diff := rm1\<rparr>) = Inr (s\<lparr>ov_soft_diff := rm2\<rparr>)"
    "reg_at kSoftDiffAddr kSoftDiffSize ?bs f2 rm2"
    using SetSoftDiff_ok [of f1 "s\<lparr>ov_soft_diff := rm1\<rparr>" "?c CAN_L" CAN_L "z CAN_L"] rm1(2) z unfolding f2_def by auto
  obtain rm3 where rm3: "SetSoftDiff CAN_DIFF (s\<lparr>ov_soft_diff := rm2\<rparr>) = Inr (s\<lparr>ov_soft_diff := rm3\<rparr>)"
    "reg_at kSoftDiffAddr kSoftDiffSize ?bs f3 rm3"
    using SetSoftDiff_ok [of f2 "s\<lparr>ov_soft_diff := rm2\<rparr>" "?c CAN_DIFF" CAN_DIFF "z CAN_DIFF"] rm2(2) z
    unfolding f3_def by auto
  have "get b rm3 = Inr (f3 b)" if "b \<in> set ?bs" for b using get_at [OF rm3(2) that] .
  then have "matches (soft_table ?p) rm3"
    using z [of CAN_H] z [of CAN_L] z [of CAN_DIFF]
    by (simp add: matches_def soft_table_def f1_def f2_def f3_def soft_sens_def soft_zero_def GetChnlConfig_def
        SoftDiffRegister_binds_def register_consts register_members)
  moreover have "and_then (and_then (SetSoftDiff CAN_H s) (SetSoftDiff CAN_L)) (SetSoftDiff CAN_DIFF) =
      Inr (s\<lparr>ov_soft_diff := rm3\<rparr>)" using rm1(1) rm2(1) rm3(1) by simp
  ultimately show ?thesis using reg_at_ok [OF rm3(2)] by (intro exI conjI)
qed

lemma trigger1_ok:
  assumes "reg_ok kTrigger1Addr kTrigger1Size (ov_trigger1 s)" and "convertible (trigger1_table (ov_props s) type)"
  shows "\<exists>rm. SetTrigger1 type s = Inr (s\<lparr>ov_trigger1 := rm\<rparr>) \<and>
    reg_ok kTrigger1Addr kTrigger1Size rm \<and> matches (trigger1_table (ov_props s) type) rm"
proof -
  let ?p = "ov_props s" and ?bs = Trigger1Register_binds
  let ?coe = "kCOE ! time_index (time_base (ov_props s))" and ?at = "reg_at kTrigger1Addr kTrigger1Size Trigger1Register_binds"
  obtain f where f: "?at f (ov_trigger1 s)"
    using reg_ok_at [OF assms(1) register_layouts(4)] by blast
  obtain pre post time where v: "samples ?p type (time_offset ?p) = Inr pre"
    "samples ?p type (- time_offset ?p) = Inr post" "to_word (auto_time ?p * 1000000 / 10) = Inr (time :: u32)"
    using assms(2) by (auto simp: convertible_def trigger1_table_def not_isl_iff_Inr and_then_Inr_iff)
  have mem: "U32B Trigger1_div_coe \<in> set ?bs" "U32B Trigger1_trig_pre \<in> set ?bs" "U32B Trigger1_trig_post \<in> set ?bs"
    "U32B Trigger1_auto_time \<in> set ?bs" by (simp_all add: Trigger1Register_binds_def)
  define f1 where "f1 = f(U32B Trigger1_div_coe := ?coe)"
  define f2 where "f2 = f1(U32B Trigger1_trig_pre := pre AND 0xFFFFFFFC)"
  define f3 where "f3 = f2(U32B Trigger1_trig_post := max 8 post AND 0xFFFFFFFC)"
  define f4 where "f4 = f3(U32B Trigger1_auto_time := time)"
  obtain rm1 where rm1: "put (U32B Trigger1_div_coe) ?coe (ov_trigger1 s) = Inr rm1" "?at f1 rm1"
    using put_at [OF f mem(1) bound_simps(1), of ?coe, folded f1_def] by (elim exE conjE) (rule that)
  obtain rm2 where rm2: "put (U32B Trigger1_trig_pre) (pre AND 0xFFFFFFFC) rm1 = Inr rm2" "?at f2 rm2"
    using put_at [OF rm1(2) mem(2) bound_simps(1), of "pre AND 0xFFFFFFFC", folded f2_def] by (elim exE conjE) (rule that)
  obtain rm3 where rm3: "put (U32B Trigger1_trig_post) (max 8 post AND 0xFFFFFFFC) rm2 = Inr rm3" "?at f3 rm3"
    using put_at [OF rm2(2) mem(3) bound_simps(1), of "max 8 post AND 0xFFFFFFFC", folded f3_def]
    by (elim exE conjE) (rule that)
  obtain rm4 where rm4: "put (U32B Trigger1_auto_time) time rm3 = Inr rm4" "?at f4 rm4"
    using put_at [OF rm3(2) mem(4) bound_simps(1), of time, folded f4_def] by (elim exE conjE) (rule that)
  have coe: "get (U32B Trigger1_div_coe) rm1 = Inr ?coe" using get_at [OF rm1(2) mem(1)] by (simp add: f1_def)
  have "SetTrigger1 type s = Inr (s\<lparr>ov_trigger1 := rm4\<rparr>)"
    using v unfolding samples_def SetTrigger1_def Let_def
    by (simp only: rm1(1) rm2(1) rm3(1) rm4(1) coe and_then_simps diff_conv_add_uminus)
  moreover have "matches (trigger1_table ?p type) rm4"
    using get_at [OF rm4(2)] mem v
    by (simp add: matches_def trigger1_table_def f1_def f2_def f3_def f4_def register_consts register_members)
  ultimately show ?thesis using reg_at_ok [OF rm4(2)] by (intro exI conjI)
qed

lemma trigger2_ok:
  assumes "reg_ok kTrigger2Addr kTrigger2Size (ov_trigger2 s)" and "convertible (trigger2_table (ov_props s))"
  shows "\<exists>rm. SetTrigger2 s = Inr (s\<lparr>ov_trigger2 := rm\<rparr>) \<and>
    reg_ok kTrigger2Addr kTrigger2Size rm \<and> matches (trigger2_table (ov_props s)) rm"
proof -
  let ?p = "ov_props s" and ?bs = Trigger2Register_binds and ?at = "reg_at kTrigger2Addr kTrigger2Size Trigger2Register_binds"
  obtain f where f: "?at f (ov_trigger2 s)"
    using reg_ok_at [OF assms(1) register_layouts(5)] by blast
  obtain time :: u32 where v: "to_word (time_param ?p) = Inr time"
    using assms(2) by (auto simp: convertible_def trigger2_table_def not_isl_iff_Inr and_then_Inr_iff)
  have mem: "SubB Trigger2_trig_source \<in> set ?bs" "SubB Trigger2_trig_type \<in> set ?bs" "SubB Trigger2_trig_mode \<in> set ?bs"
    "SubB Trigger2_compare \<in> set ?bs" "SubB Trigger2_trig_time \<in> set ?bs" "ByteB Trigger2_cmp_high \<in> set ?bs"
    "ByteB Trigger2_cmp_low \<in> set ?bs" by (simp_all add: Trigger2Register_binds_def)
  let ?src = "of_nat (source_index (trigger_source ?p)) :: u32" and ?ty = "of_nat (type_index (trigger_type ?p)) :: u32"
    and ?mode = "GetTrigMode (trigger_mode ?p)" and ?cmp = "of_nat (compare_index (compare_type ?p)) :: u32"
    and ?time = "(time div 10 - 1) AND 0x3FFFFFFF"
  define f1 where "f1 = f(SubB Trigger2_trig_source := ?src)"
  define f2 where "f2 = f1(SubB Trigger2_trig_type := ?ty)"
  define f3 where "f3 = f2(SubB Trigger2_trig_mode := ?mode)"
  define f4 where "f4 = f3(SubB Trigger2_compare := ?cmp)"
  define f5 where "f5 = f4(SubB Trigger2_trig_time := ?time)"
  obtain rm1 where rm1: "put (SubB Trigger2_trig_source) ?src (ov_trigger2 s) = Inr rm1" "?at f1 rm1"
    using put_at [OF f mem(1) sub_bounds(1), of "trigger_source ?p", folded f1_def] by (elim exE conjE) (rule that)
  obtain rm2 where rm2: "put (SubB Trigger2_trig_type) ?ty rm1 = Inr rm2" "?at f2 rm2"
    using put_at [OF rm1(2) mem(2) sub_bounds(2), of "trigger_type ?p", folded f2_def] by (elim exE conjE) (rule that)
  obtain rm3 where rm3: "put (SubB Trigger2_trig_mode) ?mode rm2 = Inr rm3" "?at f3 rm3"
    using put_at [OF rm2(2) mem(3) sub_bounds(3), of "trigger_mode ?p", folded f3_def] by (elim exE conjE) (rule that)
  obtain rm4 where rm4: "put (SubB Trigger2_compare) ?cmp rm3 = Inr rm4" "?at f4 rm4"
    using put_at [OF rm3(2) mem(4) sub_bounds(4), of "compare_type ?p", folded f4_def] by (elim exE conjE) (rule that)
  obtain rm5 where rm5: "put (SubB Trigger2_trig_time) ?time rm4 = Inr rm5" "?at f5 rm5"
    using put_at [OF rm4(2) mem(5) sub_bounds(5), of "time div 10 - 1", folded f5_def] by (elim exE conjE) (rule that)
  note steps = rm1(1) rm2(1) rm3(1) rm4(1) rm5(1) v
  note defs = f1_def f2_def f3_def f4_def f5_def
  have mode: "?mode = of_bool (trigger_mode ?p = kNormal)" by (cases "trigger_mode ?p") (simp_all add: GetTrigMode_def)
  show ?thesis
  proof (cases "IsTriggerSourceChnl (trigger_source ?p)")
    case False
    then have "SetTrigger2 s = Inr (s\<lparr>ov_trigger2 := rm5\<rparr>)"
      unfolding SetTrigger2_def Let_def by (simp only: steps and_then_simps if_True not_False_eq_True)
    moreover have "matches (trigger2_table ?p) rm5"
      using get_at [OF rm5(2)] mem v False mode
      by (simp add: matches_def trigger2_table_def defs register_consts register_members)
    ultimately show ?thesis using reg_at_ok [OF rm5(2)] by (intro exI conjI)
  next
    case True
    then obtain high low where hl: "TriggerVolt ?p = Inr (high, low)"
      using assms(2) by (auto simp: convertible_def trigger2_table_def not_isl_iff_Inr and_then_Inr_iff)
    define f6 where "f6 = f5(ByteB Trigger2_cmp_high := ucast high)"
    define f7 where "f7 = f6(ByteB Trigger2_cmp_low := ucast low)"
    obtain rm6 where rm6: "put (ByteB Trigger2_cmp_high) (ucast high) rm5 = Inr rm6" "?at f6 rm6"
      using put_at [OF rm5(2) mem(6) bound_simps(3), of high, folded f6_def] by (elim exE conjE) (rule that)
    obtain rm7 where rm7: "put (ByteB Trigger2_cmp_low) (ucast low) rm6 = Inr rm7" "?at f7 rm7"
      using put_at [OF rm6(2) mem(7) bound_simps(3), of low, folded f7_def] by (elim exE conjE) (rule that)
    have "SetTrigger2 s = Inr (s\<lparr>ov_trigger2 := rm7\<rparr>)"
      using True unfolding SetTrigger2_def Let_def
      by (simp only: steps hl rm6(1) rm7(1) and_then_simps prod.case if_False not_True_eq_False)
    moreover have "matches (trigger2_table ?p) rm7"
      using get_at [OF rm7(2)] mem v hl True mode
      by (simp add: matches_def trigger2_table_def defs f6_def f7_def register_consts register_members)
    ultimately show ?thesis using reg_at_ok [OF rm7(2)] by (intro exI conjI)
  qed
qed

definition osc_regs_ok :: "'d OscDevice \<Rightarrow> bool" where
  "osc_regs_ok s \<longleftrightarrow>
     reg_ok kAnalogCtrlAddr kAnalogCtrlSize (ov_analog_ctrl s) \<and> reg_ok kSoftDiffAddr kSoftDiffSize (ov_soft_diff s) \<and>
     reg_ok kAnalogSwitchAddr kAnalogSwitchSize (ov_analog_switch s) \<and>
     reg_ok kTrigger1Addr kTrigger1Size (ov_trigger1 s) \<and> reg_ok kTrigger2Addr kTrigger2Size (ov_trigger2 s)"

definition osc_convertible :: "OscProperties \<Rightarrow> DeviceType \<Rightarrow> bool" where
  "osc_convertible p type \<longleftrightarrow> convertible (analog_table p) \<and> convertible (soft_table p) \<and>
     convertible (trigger1_table p type) \<and> convertible (trigger2_table p)"

definition osc_matches :: "'d OscDevice \<Rightarrow> bool" where
  "osc_matches s \<longleftrightarrow>
     matches (analog_table (ov_props s)) (ov_analog_ctrl s) \<and> matches (soft_table (ov_props s)) (ov_soft_diff s) \<and>
     matches (switch_table (ov_props s)) (ov_analog_switch s) \<and>
     matches (trigger1_table (ov_props s) (ov_device_type s)) (ov_trigger1 s) \<and>
     matches (trigger2_table (ov_props s)) (ov_trigger2 s)"

lemma osc_device_simps [simp]:
  "osc_regs_ok (s\<lparr>ov_device := d\<rparr>) = osc_regs_ok s" "osc_matches (s\<lparr>ov_device := d\<rparr>) = osc_matches s"
  by (simp_all add: osc_regs_ok_def osc_matches_def)

lemma set_registers_ok:
  assumes "osc_regs_ok s" and "osc_convertible (ov_props s) (ov_device_type s)"
  shows "\<exists>t. set_registers s = Inr t \<and> osc_regs_ok t \<and> osc_matches t \<and> ov_props t = ov_props s \<and>
    ov_device t = ov_device s"
proof -
  note regs = assms(1) [unfolded osc_regs_ok_def] and conv = assms(2) [unfolded osc_convertible_def]
  obtain a where a: "and_then (SetAnalogCtrl CAN_H s) (SetAnalogCtrl CAN_L) = Inr (s\<lparr>ov_analog_ctrl := a\<rparr>)"
    "reg_ok kAnalogCtrlAddr kAnalogCtrlSize a" "matches (analog_table (ov_props s)) a"
    using analog_ok [of s] regs conv by auto
  let ?s1 = "s\<lparr>ov_analog_ctrl := a\<rparr>"
  obtain d where d: "and_then (and_then (SetSoftDiff CAN_H ?s1) (SetSoftDiff CAN_L)) (SetSoftDiff CAN_DIFF) =
      Inr (?s1\<lparr>ov_soft_diff := d\<rparr>)" "reg_ok kSoftDiffAddr kSoftDiffSize d" "matches (soft_table (ov_props s)) d"
    using soft_ok [of ?s1] regs conv by auto
  let ?s2 = "?s1\<lparr>ov_soft_diff := d\<rparr>"
  obtain w where w: "and_then (SetAnalogSwitch CAN_H ?s2) (SetAnalogSwitch CAN_L) = Inr (?s2\<lparr>ov_analog_switch := w\<rparr>)"
    "reg_ok kAnalogSwitchAddr kAnalogSwitchSize w" "matches (switch_table (ov_props s)) w"
    using switch_ok [of ?s2] regs by auto
  let ?s3 = "?s2\<lparr>ov_analog_switch := w\<rparr>"
  obtain t1 where t1: "SetTrigger1 (ov_device_type s) ?s3 = Inr (?s3\<lparr>ov_trigger1 := t1\<rparr>)"
    "reg_ok kTrigger1Addr kTrigger1Size t1" "matches (trigger1_table (ov_props s) (ov_device_type s)) t1"
    using trigger1_ok [of ?s3 "ov_device_type s"] regs conv by auto
  let ?s4 = "?s3\<lparr>ov_trigger1 := t1\<rparr>"
  obtain t2 where t2: "SetTrigger2 ?s4 = Inr (?s4\<lparr>ov_trigger2 := t2\<rparr>)"
    "reg_ok kTrigger2Addr kTrigger2Size t2" "matches (trigger2_table (ov_props s)) t2"
    using trigger2_ok [of ?s4] regs conv by auto
  have "set_registers s =
      and_then (and_then (SetAnalogCtrl CAN_H s) (SetAnalogCtrl CAN_L)) (\<lambda>s.
      and_then (and_then (and_then (SetSoftDiff CAN_H s) (SetSoftDiff CAN_L)) (SetSoftDiff CAN_DIFF)) (\<lambda>s.
      and_then (and_then (SetAnalogSwitch CAN_H s) (SetAnalogSwitch CAN_L)) (\<lambda>s.
      and_then (SetTrigger1 (ov_device_type s) s) SetTrigger2)))"
    by (simp only: set_registers_def and_then_assoc)
  also have "\<dots> = Inr (?s4\<lparr>ov_trigger2 := t2\<rparr>)"
    using t1(1) t2(1) by (simp add: a(1) d(1) w(1))
  finally show ?thesis
    using a(2,3) d(2,3) w(2,3) t1(2,3) t2(2,3) by (simp add: osc_regs_ok_def osc_matches_def)
qed

subsection \<open>The writes\<close>

locale scope_delegate = device_delegate +
  assumes blocks: "register kAnalogCtrlAddr (int kAnalogCtrlSize)"
      "register (kSoftDiffAddr + word_of_int SoftDiff_kChnlOffset) SoftDiff_kChnlSize"
      "register kAnalogSwitchAddr (int kAnalogSwitchSize)" "register kTrigger1Addr (int kTrigger1Size)"
      "register kTrigger2Addr (int kTrigger2Size)"
begin

lemma WriteDevice_ok:
  assumes "reg_ok addr sz (reg s)" and "\<And>d. reg (s\<lparr>ov_device := d\<rparr>) = reg s" and "register addr (int sz)" and "0 < sz"
  shows "keeps (\<lambda>t. \<exists>d. t = s\<lparr>ov_device := d\<rparr> \<and> inv d) (OscDevice_WriteDevice del reg)"
  unfolding keeps_def
proof (intro allI impI)
  fix t assume "\<exists>d. t = s\<lparr>ov_device := d\<rparr> \<and> inv d"
  then obtain d where d: "t = s\<lparr>ov_device := d\<rparr>" "inv d" by blast
  obtain e d' where "send_register del (reg s) d = Inr (e, d')" "inv d'"
    using send_register_ok [OF d(2) assms(1,3,4)] by blast
  moreover from this(1) have "OscDevice_WriteDevice del reg t = Inr (e, s\<lparr>ov_device := d'\<rparr>)"
    by (simp add: OscDevice_WriteDevice_def d(1) assms(2))
  ultimately show "\<exists>e t'. OscDevice_WriteDevice del reg t = Inr (e, t') \<and> (\<exists>d. t' = s\<lparr>ov_device := d\<rparr> \<and> inv d)"
    by blast
qed

lemma WriteSoftDiff_ok:
  assumes "reg_ok kSoftDiffAddr kSoftDiffSize (ov_soft_diff s)"
  shows "keeps (\<lambda>t. \<exists>d. t = s\<lparr>ov_device := d\<rparr> \<and> inv d) (WriteSoftDiff del)"
  unfolding keeps_def
proof (intro allI impI)
  fix t assume "\<exists>d. t = s\<lparr>ov_device := d\<rparr> \<and> inv d"
  then obtain d where d: "t = s\<lparr>ov_device := d\<rparr>" "inv d" by blast
  have "\<exists>e d'. send_range del (ov_soft_diff s) SoftDiff_kChnlOffset SoftDiff_kChnlSize d = Inr (e, d') \<and> inv d'"
    by (rule send_range_ok [OF d(2) assms blocks(2)]) (simp_all add: range_defs register_consts)
  then obtain e d' where "send_range del (ov_soft_diff s) SoftDiff_kChnlOffset SoftDiff_kChnlSize d = Inr (e, d')"
    "inv d'" by blast
  moreover from this(1) have "WriteSoftDiff del t = Inr (e, s\<lparr>ov_device := d'\<rparr>)"
    by (simp add: WriteSoftDiff_def OscDevice_WriteDeviceRange_def d(1))
  ultimately show "\<exists>e t'. WriteSoftDiff del t = Inr (e, t') \<and> (\<exists>d. t' = s\<lparr>ov_device := d\<rparr> \<and> inv d)" by blast
qed

lemma SetAll_ok:
  assumes "inv (ov_device s)" and "osc_regs_ok s" and "osc_convertible (ov_props s) (ov_device_type s)"
  shows "\<exists>t. SetAll del s = Inr t \<and> osc_matches t \<and> osc_regs_ok t \<and> inv (ov_device t) \<and> ov_props t = ov_props s"
proof -
  obtain t where t: "set_registers s = Inr t" "osc_regs_ok t" "osc_matches t" "ov_props t = ov_props s"
    "ov_device t = ov_device s" using set_registers_ok [OF assms(2,3)] by blast
  let ?ws = "[OscDevice_WriteDevice del ov_analog_ctrl, WriteSoftDiff del,
    OscDevice_WriteDevice del ov_analog_switch, OscDevice_WriteDevice del ov_trigger1,
    OscDevice_WriteDevice del ov_trigger2]"
  let ?P = "\<lambda>u. \<exists>d. u = t\<lparr>ov_device := d\<rparr> \<and> inv d"
  have "\<forall>w \<in> set ?ws. keeps ?P w"
  proof -
    note regs = t(2) [unfolded osc_regs_ok_def]
    have pos: "0 < kAnalogCtrlSize" "0 < kAnalogSwitchSize" "0 < kTrigger1Size" "0 < kTrigger2Size"
      by (simp_all add: register_consts)
    have "keeps ?P (OscDevice_WriteDevice del ov_analog_ctrl)"
      by (rule WriteDevice_ok [OF _ _ blocks(1) pos(1)]) (simp_all add: regs)
    moreover have "keeps ?P (WriteSoftDiff del)" by (rule WriteSoftDiff_ok) (simp add: regs)
    moreover have "keeps ?P (OscDevice_WriteDevice del ov_analog_switch)"
      by (rule WriteDevice_ok [OF _ _ blocks(3) pos(2)]) (simp_all add: regs)
    moreover have "keeps ?P (OscDevice_WriteDevice del ov_trigger1)"
      by (rule WriteDevice_ok [OF _ _ blocks(4) pos(3)]) (simp_all add: regs)
    moreover have "keeps ?P (OscDevice_WriteDevice del ov_trigger2)"
      by (rule WriteDevice_ok [OF _ _ blocks(5) pos(4)]) (simp_all add: regs)
    ultimately show ?thesis by (simp only: list.set ball_simps simp_thms)
  qed
  moreover have "\<exists>d. t = t\<lparr>ov_device := d\<rparr> \<and> inv d"
    using assms(1) t(5) by (intro exI [of _ "ov_device t"]) simp
  ultimately have "\<exists>u. write_seq ?ws t = Inr u \<and> ?P u" by (rule write_seq_keeps)
  then obtain u d where "write_seq ?ws t = Inr u" "u = t\<lparr>ov_device := d\<rparr>" "inv d"
    by (elim exE conjE) (rule that)
  then show ?thesis using t by (simp add: SetAll_def)
qed

end

interpretation scope_usb: scope_delegate "UsbPortDeviceDelegate enum win" "\<lambda>p. port_ok p \<and> reads_bounded win"
    "\<lambda>addr sz. 0 \<le> sz \<and> sz \<le> 48" "\<lambda>sz. 0 < sz \<and> sz < 2 ^ 31"
  for enum :: "'s \<Rightarrow> string list option \<times> 's" and win :: "'s windows"
  by unfold_locales (simp_all add: register_consts range_defs)

subsection \<open>Where the conversions are defined\<close>

definition within_limits :: "OscProperties \<Rightarrow> DeviceType \<Rightarrow> bool" where
  "within_limits p type \<longleftrightarrow>
     list_all (\<lambda>chnl. \<bar>cc_offset (GetChnlConfig chnl p)\<bar> \<le> of_int (Volt (cc_range (GetChnlConfig chnl p))) / 2 \<and>
       (trigger_source p = Chnl2TriggerSource chnl \<longrightarrow>
         \<bar>trigger_volt p + cc_offset (GetChnlConfig chnl p)\<bar> \<le> of_int (Volt (cc_range (GetChnlConfig chnl p))) / 2))
       [CAN_H, CAN_L, CAN_DIFF] \<and>
     \<bar>time_offset p\<bar> \<le> of_nat (unat (half_window p type)) \<and>
     0 \<le> auto_time p \<and> auto_time p \<le> 10000 \<and> 0 \<le> time_param p \<and> time_param p < 2 ^ 32"

lemma half_volt_defined:
  assumes "\<bar>x\<bar> \<le> of_int (Volt rng) / 2"
  shows "\<exists>v. CH_ZERO rng x = Inr v" "\<exists>v. CH_OFFSET (calibrated rng) x = Inr v"
    "t + o' = x \<Longrightarrow> \<exists>v. CMP_LOW rng t o' = Inr v"
proof -
  show "\<exists>v. CH_ZERO rng x = Inr v"
    unfolding CH_ZERO_def using assms by (intro to_word_ok; cases rng) (auto simp: field_simps)
  show "\<exists>v. CH_OFFSET (calibrated rng) x = Inr v"
    unfolding CH_OFFSET_def using assms
    by (intro to_word_ok; cases rng)
      (auto simp: calibrated_def Voffset_def kDefaultCalibrateInfo_def OP07_def field_simps)
  show "\<exists>v. CMP_LOW rng t o' = Inr v" if "t + o' = x"
    unfolding CMP_LOW_def Let_def that using assms
    by (intro to_word_ok; cases rng) (auto simp: kVoltDivNum_def field_simps)
qed

lemma half_window_bound: "of_nat (unat (half_window p type)) < (4294967296 :: real)"
proof -
  have "unat (half_window p type) < 2 ^ 32" using unsigned_less [of "half_window p type", where 'a = nat] by simp
  then show ?thesis using of_nat_less_iff [of "unat (half_window p type)" "2 ^ 32"] by simp
qed

lemma samples_defined:
  assumes "\<bar>off\<bar> \<le> of_nat (unat (half_window p type))"
  shows "\<exists>v. samples p type off = Inr v"
proof -
  let ?w = "of_nat (unat (half_window p type)) :: real"
  let ?s = "of_nat (unat (SAMET (kCOE ! time_index (time_base p)))) :: real"
  have s: "10 \<le> ?s" by (cases "time_base p") (simp_all add: SAMET_def kCOE_def)
  define x where "x = ?w + off"
  define q where "q = x / ?s"
  have x: "0 \<le> x" "x < 8589934592" using assms half_window_bound [of p type] unfolding x_def by linarith+
  have "q \<le> x / 10" "0 \<le> q" using s x(1) divide_left_mono [OF s x(1)] by (simp_all add: q_def)
  then have "-1 < q * 2" "q * 2 < 4294967296" using x(2) by linarith+
  then show ?thesis unfolding samples_def q_def x_def by (intro to_word_ok) simp_all
qed

lemma within_limits_convertible:
  assumes "within_limits p type" shows "osc_convertible p type"
proof -
  note lim = assms [unfolded within_limits_def list.pred_inject]
  have off: "\<bar>offset_can_h p\<bar> \<le> of_int (Volt (range_can_h p)) / 2"
    "\<bar>offset_can_l p\<bar> \<le> of_int (Volt (range_can_l p)) / 2"
    "\<bar>offset_can_diff p\<bar> \<le> of_int (Volt (range_can_diff p)) / 2"
    using lim by (simp_all add: GetChnlConfig_def)
  have time: "\<exists>v. samples p type (time_offset p) = Inr v" "\<exists>v. samples p type (- time_offset p) = Inr v"
    "\<exists>v :: u32. to_word (auto_time p * 1000000 / 10) = Inr v" "\<exists>v :: u32. to_word (time_param p) = Inr v"
  proof -
    have "\<bar>- time_offset p\<bar> \<le> of_nat (unat (half_window p type))" using lim by simp
    then show "\<exists>v. samples p type (- time_offset p) = Inr v" by (rule samples_defined)
    show "\<exists>v. samples p type (time_offset p) = Inr v" using lim by (intro samples_defined) simp
    have "0 \<le> auto_time p" "auto_time p \<le> 10000" "0 \<le> time_param p" "time_param p < 4294967296"
      using lim by simp_all
    then show "\<exists>v :: u32. to_word (auto_time p * 1000000 / 10) = Inr v" "\<exists>v :: u32. to_word (time_param p) = Inr v"
      by (simp_all only: to_word_defined_iff) simp_all
  qed
  have "\<exists>v. TriggerVolt p = Inr v" if chnl: "IsTriggerSourceChnl (trigger_source p)"
  proof -
    obtain chnl where src: "trigger_source p = Chnl2TriggerSource chnl"
      using chnl by (auto simp: IsTriggerSourceChnl_iff)
    let ?c = "GetChnlConfig chnl p"
    have "\<bar>trigger_volt p + cc_offset ?c\<bar> \<le> of_int (Volt (cc_range ?c)) / 2"
      using lim src by (cases chnl) auto
    from half_volt_defined(3) [OF this refl] obtain low where
      "CMP_LOW (cc_range ?c) (trigger_volt p) (cc_offset ?c) = Inr low" by blast
    then show ?thesis
      using src by (simp add: TriggerVolt_def TriggerSource2Chnl_iff [THEN iffD2] Let_def)
  qed
  then show ?thesis
    using half_volt_defined [OF off(1)] half_volt_defined [OF off(2)] half_volt_defined [OF off(3)] time
    by (auto simp: osc_convertible_def convertible_def analog_table_def soft_table_def trigger1_table_def
        trigger2_table_def)
qed

subsection \<open>Writing everything over USB\<close>

text \<open>C4. When the offsets and the trigger level are within half of a channel's range and the
  times are within their limits, \<open>OscDevice::SetAll\<close> over the USB port comes back, whatever
  the device answers: no conversion of a double is undefined, no member of a register is too
  small and no CHECK fails.  Then every member of the five registers holds the value that the
  properties ask for, and the port is in a state that serves the next command.\<close>

theorem osc_SetAll_registers:
  assumes "port_ok (ov_device s)" and "reads_bounded win" and "osc_regs_ok s"
    and "within_limits (ov_props s) (ov_device_type s)"
  shows "\<exists>t. SetAll (UsbPortDeviceDelegate enum win) s = Inr t \<and> osc_matches t \<and> osc_regs_ok t \<and>
    port_ok (ov_device t) \<and> ov_props t = ov_props s"
  using scope_usb.SetAll_ok [of s win enum] within_limits_convertible [OF assms(4)] assms(1-3) by blast

text \<open>The oscilloscope's part of the default configuration (config_util.cc).\<close>

definition default_osc :: OscProperties where
  "default_osc =
     \<lparr>range_can_h = k8V, offset_can_h = 0, coupling_can_h = kAC, range_can_l = k8V, offset_can_l = 0,
      coupling_can_l = kAC, range_can_diff = k8V, offset_can_diff = 0, diff_ctrl = kSub, time_base = k20us,
      time_offset = 0, auto_time = 100, trigger_source = kTriggerSourceCANDIFF, trigger_type = kRisingEdge,
      trigger_mode = kAuto, trigger_sens = kDefault, compare_type = kGreater, trigger_volt = 0, time_param = 1\<rparr>"

lemma OscDevice_new_regs: "OscDevice_new p type d = Inr s \<Longrightarrow> osc_regs_ok s \<and> ov_props s = p \<and> ov_device s = d \<and> ov_device_type s = type"
  by (auto simp: OscDevice_new_def AnalogCtrlRegister_new_def SoftDiffRegister_new_def AnalogSwitchRegister_new_def
      Trigger1Register_new_def Trigger2Register_new_def RegisterMemory_new_def and_then_Inr_iff check_Inr_iff
      osc_regs_ok_def reg_ok_def)

lemma OscDevice_new_total: "\<exists>s. OscDevice_new p type d = Inr s"
  by (simp add: OscDevice_new_def AnalogCtrlRegister_new_def SoftDiffRegister_new_def AnalogSwitchRegister_new_def
      Trigger1Register_new_def Trigger2Register_new_def RegisterMemory_new_def check_def register_consts)

lemma default_within_limits: "within_limits default_osc DT_CS1203"
  by (simp add: within_limits_def default_osc_def GetChnlConfig_def half_window_def TimeBaseValue_def
      kTimeBaseValue_def DeviceK_def)

lemma osc_SetAll_registers_witness:
  "\<exists>s t. OscDevice_new default_osc DT_CS1203 sample_port = Inr s \<and>
     SetAll (UsbPortDeviceDelegate (Pair None) sample_windows) s = Inr t \<and>
     get (U32B Trigger1_div_coe) (ov_trigger1 t) = Inr 19"
proof -
  obtain s where s: "OscDevice_new default_osc DT_CS1203 sample_port = Inr s" using OscDevice_new_total [of default_osc DT_CS1203 sample_port] ..
  note st = OscDevice_new_regs [OF s]
  have "port_ok (ov_device s)" "osc_regs_ok s" "within_limits (ov_props s) (ov_device_type s)"
    using st sample_port_ok default_within_limits by simp_all
  from osc_SetAll_registers [OF this(1) sample_windows_bounded this(2,3), of "Pair None"]
  obtain t where t: "SetAll (UsbPortDeviceDelegate (Pair None) sample_windows) s = Inr t" "osc_matches t"
    "ov_props t = default_osc" using st by auto
  then have "get (U32B Trigger1_div_coe) (ov_trigger1 t) = Inr 19"
    by (simp add: osc_matches_def matches_def trigger1_table_def default_osc_def kCOE_def)
  with s t(1) show ?thesis by blast
qed

subsection \<open>The window around the trigger\<close>

lemma samples_zero:
  assumes "time_index (time_base p) \<le> (if t = DT_CS1203 then 15 else 16)"
  shows "samples p t 0 = Inr (1000 * word_of_int (DeviceK t))"
  using assms
  by (cases "time_base p"; cases t)
    (simp_all add: samples_def half_window_def TimeBaseValue_def kTimeBaseValue_def DeviceK_def SAMET_def kCOE_def
      to_word_def Let_def check_def to_int64_def)

lemma samples_overflow:
  assumes "\<not> time_index (time_base p) \<le> (if t = DT_CS1203 then 15 else 16)"
  shows "\<exists>v < 500 * word_of_int (DeviceK t). samples p t 0 = Inr v"
  using assms
  by (cases "time_base p"; cases t)
    (simp_all add: samples_def half_window_def TimeBaseValue_def kTimeBaseValue_def DeviceK_def SAMET_def kCOE_def
      to_word_def Let_def check_def to_int64_def)

lemma samples_result:
  "\<exists>v. samples p t 0 = Inr v \<and> (if time_index (time_base p) \<le> (if t = DT_CS1203 then 15 else 16)
    then v = 1000 * word_of_int (DeviceK t) else v < 500 * word_of_int (DeviceK t))"
proof (cases "time_index (time_base p) \<le> (if t = DT_CS1203 then 15 else 16)")
  case True
  then show ?thesis using samples_zero [OF True] by (simp only: if_True) simp
next
  case False
  then show ?thesis using samples_overflow [OF False] by (simp only: if_False) blast
qed

lemma window_words:
  fixes v :: u32
  shows "v = 1000 * word_of_int (DeviceK t) \<Longrightarrow>
      uint (v AND 0xFFFFFFFC) + uint (max 8 v AND 0xFFFFFFFC) = DeviceTypeDataSize t"
    and "v < 500 * word_of_int (DeviceK t) \<Longrightarrow>
      2 * (uint (v AND 0xFFFFFFFC) + uint (max 8 v AND 0xFFFFFFFC)) < DeviceTypeDataSize t"
proof -
  show "uint (v AND 0xFFFFFFFC) + uint (max 8 v AND 0xFFFFFFFC) = DeviceTypeDataSize t"
    if "v = 1000 * word_of_int (DeviceK t)"
    using that by (cases t) (simp_all add: DeviceK_def DeviceTypeDataSize_def)
  show "2 * (uint (v AND 0xFFFFFFFC) + uint (max 8 v AND 0xFFFFFFFC)) < DeviceTypeDataSize t"
    if "v < 500 * word_of_int (DeviceK t)"
  proof -
    have "uint (x AND 0xFFFFFFFC) \<le> uint x" for x :: u32 by (simp add: word_and_le2 flip: word_le_def)
    from this [of v] this [of "max 8 v"] have "uint (v AND 0xFFFFFFFC) + uint (max 8 v AND 0xFFFFFFFC) \<le> uint v + max 8 (uint v)"
      by (simp add: max_def word_le_def split: if_splits)
    moreover have "uint v < 500 * DeviceK t" using that by (cases t) (simp_all add: DeviceK_def word_less_def)
    moreover have "1000 \<le> 500 * DeviceK t" by (simp add: DeviceK_def)
    ultimately show ?thesis by (simp add: DeviceTypeDataSize_def)
  qed
qed

lemma window_result:
  assumes "reg_ok kTrigger1Addr kTrigger1Size (ov_trigger1 s)" and "time_offset (ov_props s) = 0"
    and "0 \<le> auto_time (ov_props s)" and "auto_time (ov_props s) \<le> 10000"
  shows "\<exists>s' pre post. SetTrigger1 t s = Inr s' \<and> get (U32B Trigger1_trig_pre) (ov_trigger1 s') = Inr pre \<and>
    get (U32B Trigger1_trig_post) (ov_trigger1 s') = Inr post \<and>
    (if time_index (time_base (ov_props s)) \<le> (if t = DT_CS1203 then 15 else 16)
     then uint pre + uint post = DeviceTypeDataSize t
     else 2 * (uint pre + uint post) < DeviceTypeDataSize t)"
proof -
  let ?p = "ov_props s"
  obtain v where v: "samples ?p t 0 = Inr v" "if time_index (time_base ?p) \<le> (if t = DT_CS1203 then 15 else 16)
      then v = 1000 * word_of_int (DeviceK t) else v < 500 * word_of_int (DeviceK t)"
    using samples_result [of ?p t] by (elim exE conjE) (rule that)
  have "\<exists>w :: u32. to_word (auto_time ?p * 1000000 / 10) = Inr w"
    using assms(3,4) by (intro to_word_ok) simp_all
  then have conv: "convertible (trigger1_table ?p t)"
    using v(1) assms(2) by (auto simp: convertible_def trigger1_table_def)
  obtain rm where rm: "SetTrigger1 t s = Inr (s\<lparr>ov_trigger1 := rm\<rparr>)" "matches (trigger1_table ?p t) rm"
    using trigger1_ok [OF assms(1) conv] by blast
  have "get (U32B Trigger1_trig_pre) rm = Inr (v AND 0xFFFFFFFC)"
    "get (U32B Trigger1_trig_post) rm = Inr (max 8 v AND 0xFFFFFFFC)"
    using rm(2) v(1) assms(2) by (simp_all add: matches_def trigger1_table_def)
  moreover have "if time_index (time_base ?p) \<le> (if t = DT_CS1203 then 15 else 16)
     then uint (v AND 0xFFFFFFFC) + uint (max 8 v AND 0xFFFFFFFC) = DeviceTypeDataSize t
     else 2 * (uint (v AND 0xFFFFFFFC) + uint (max 8 v AND 0xFFFFFFFC)) < DeviceTypeDataSize t"
    using v(2) window_words [of v t] by (simp split: if_splits)
  ultimately show ?thesis using rm(1) by auto
qed

definition sample_osc :: "unit OscDevice" where
  "sample_osc =
     \<lparr>ov_props = default_osc, ov_analog_ctrl = \<lparr>rm_memory = [], rm_start_addr = 0\<rparr>,
      ov_soft_diff = \<lparr>rm_memory = [], rm_start_addr = 0\<rparr>, ov_analog_switch = \<lparr>rm_memory = [], rm_start_addr = 0\<rparr>,
      ov_trigger1 = \<lparr>rm_memory = replicate kTrigger1Size 0, rm_start_addr = kTrigger1Addr\<rparr>,
      ov_trigger2 = \<lparr>rm_memory = [], rm_start_addr = 0\<rparr>, ov_device_type = DT_CS1203, ov_device = ()\<rparr>"

text \<open>C28. With the trigger in the middle, the samples before and behind it fill the buffer of one
  collection, as long as the time base is at most 100 ms (CS1203) or 200 ms (CS1201, CS1202).  For the
  longer time bases the product \<open>base_value * 5 * k\<close> wraps around in 32 bits, and the window is
  less than half of the buffer.\<close>

theorem trigger1_window:
  assumes "reg_ok kTrigger1Addr kTrigger1Size (ov_trigger1 s)" and "time_offset (ov_props s) = 0"
    and "0 \<le> auto_time (ov_props s)" and "auto_time (ov_props s) \<le> 10000"
  shows "\<exists>s' pre post. SetTrigger1 t s = Inr s' \<and> get (U32B Trigger1_trig_pre) (ov_trigger1 s') = Inr pre \<and>
    get (U32B Trigger1_trig_post) (ov_trigger1 s') = Inr post \<and>
    (if time_index (time_base (ov_props s)) \<le> (if t = DT_CS1203 then 15 else 16)
     then uint pre + uint post = DeviceTypeDataSize t
     else 2 * (uint pre + uint post) < DeviceTypeDataSize t)"
  using window_result [OF assms] .

lemma trigger1_window_witness:
  "\<exists>s' pre post. SetTrigger1 DT_CS1203 sample_osc = Inr s' \<and>
    get (U32B Trigger1_trig_pre) (ov_trigger1 s') = Inr pre \<and>
    get (U32B Trigger1_trig_post) (ov_trigger1 s') = Inr post \<and> uint pre + uint post = 16000"
proof -
  have at: "reg_ok kTrigger1Addr kTrigger1Size (ov_trigger1 sample_osc)" "time_offset (ov_props sample_osc) = 0"
    "0 \<le> auto_time (ov_props sample_osc)" "auto_time (ov_props sample_osc) \<le> 10000"
    "time_index (time_base (ov_props sample_osc)) \<le> (if DT_CS1203 = DT_CS1203 then 15 else 16)"
    "DeviceTypeDataSize DT_CS1203 = 16000"
    by (simp_all add: sample_osc_def default_osc_def reg_ok_def DeviceTypeDataSize_def DeviceK_def)
  show ?thesis using trigger1_window [OF at(1-4), of DT_CS1203] at(5) unfolding at(6) by (simp only: if_True)
qed

subsection \<open>The levels of the trigger\<close>

lemma byte_levels:
  fixes raw :: u8
  shows "(if raw > 250 then 247 else raw) < (if raw + 3 > 250 then 250 else raw + 3) \<longleftrightarrow> raw \<le> 252 \<and> raw \<noteq> 250"
    and "(if raw > 250 then 247 else raw) < (if raw + 15 > 250 then 250 else raw + 15) \<longleftrightarrow> raw \<le> 240"
proof -
  have sums: "uint (raw + 3) = (if uint raw < 253 then uint raw + 3 else uint raw - 253)"
    "uint (raw + 15) = (if uint raw < 241 then uint raw + 15 else uint raw - 241)"
    using uint_lt2p [of raw] by (simp_all add: uint_plus_if')
  note bound = uint_lt2p [of raw]
  show "(if raw > 250 then 247 else raw) < (if raw + 3 > 250 then 250 else raw + 3) \<longleftrightarrow> raw \<le> 252 \<and> raw \<noteq> 250"
    using sums(1) bound by (auto simp: word_less_def word_le_def word_uint_eq_iff split: if_splits)
  show "(if raw > 250 then 247 else raw) < (if raw + 15 > 250 then 250 else raw + 15) \<longleftrightarrow> raw \<le> 240"
    using sums(2) bound by (auto simp: word_less_def word_le_def word_uint_eq_iff split: if_splits)
qed

text \<open>The upper level of the trigger lies above the lower one exactly when the byte of the lower level
  leaves room for the hysteresis: above 252 (and at 250), or above 240 with the strengthened
  sensitivity, \<open>low + 3\<close> and \<open>low + 15\<close> wrap around, and the device is given levels that
  are swapped or equal.\<close>

theorem trigger_levels:
  assumes "trigger_source p = Chnl2TriggerSource chnl"
    and "CMP_LOW (cc_range (GetChnlConfig chnl p)) (trigger_volt p) (cc_offset (GetChnlConfig chnl p)) = Inr raw"
  shows "\<exists>high low. TriggerVolt p = Inr (high, low) \<and>
    (low < high \<longleftrightarrow> (case trigger_sens p of kDefault \<Rightarrow> raw \<le> 252 \<and> raw \<noteq> 250 | kStrengthen \<Rightarrow> raw \<le> 240))"
proof -
  let ?h = "case trigger_sens p of kDefault \<Rightarrow> raw + 3 | kStrengthen \<Rightarrow> raw + 15"
  have "TriggerVolt p = Inr (if ?h > 250 then 250 else ?h, if raw > 250 then 247 else raw)"
    using assms by (simp add: TriggerVolt_def TriggerSource2Chnl_iff [THEN iffD2] Let_def)
  then show ?thesis
    using byte_levels [of raw] by (cases "trigger_sens p") (simp_all only: TriggerSens.case, blast+)
qed

lemma trigger_levels_witness:
  "\<exists>high low. TriggerVolt (default_osc\<lparr>trigger_volt := 4, trigger_sens := kStrengthen\<rparr>) = Inr (high, low) \<and> \<not> low < high"
  using trigger_levels [of "default_osc\<lparr>trigger_volt := 4, trigger_sens := kStrengthen\<rparr>" CAN_DIFF 252]
  by (simp add: default_osc_def GetChnlConfig_def CMP_LOW_def kVoltDivNum_def to_word_def Let_def check_def)

text \<open>The conversions of the levels to bytes and words are defined exactly within these limits: a
  channel's zero for an offset above \<open>-0.512\<close> of the range, a trigger level for a sum of level and
  offset between \<open>-0.512\<close> and \<open>0.516\<close> of the range.\<close>

theorem osc_levels_bounds:
  "((\<exists>v. CH_ZERO rng off = Inr v) \<longleftrightarrow>
     -0.512 * of_int (Volt rng) < off \<and> off < 261.636 * of_int (Volt rng)) \<and>
   ((\<exists>v. CMP_LOW rng trig off = Inr v) \<longleftrightarrow>
     -0.512 * of_int (Volt rng) < trig + off \<and> trig + off < 0.516 * of_int (Volt rng))"
  unfolding CH_ZERO_def CMP_LOW_def Let_def to_word_defined_iff kVoltDivNum_def
  by (intro conjI; cases rng; auto simp: field_simps)

end
