(* ===== verification/Frame_Device.thy ===== *)
theory Frame_Device
  imports Osc_Property Register_Table
begin

text \<open>
  The frame device: its properties (canscope/device/frame_device/frame_device_property.h,
  frame_device_property.cc), the baud rate of the bit-timing register (sja_btr_util.cc), the
  registers it sets (frame_device.h, frame_device.cc) and the sending of frames through the
  FPGA (frame_device_handle.h, frame_device_handle.cc).

  \<open>FrameDevice\<close> shares the register \<open>soft_diff\<close> with \<open>OscDevice\<close>: \<open>fv_soft_diff\<close> is what its
  pointer points to.
\<close>

subsection \<open>Properties\<close>

record FrameProperties =
  device_enable :: bool
  ack_enable :: bool
  sja_btr :: u16
  bit_sample_rate :: int
  frame_bit :: int
  frame_storage_percent :: real

definition frame_names :: "string list" where
  "frame_names =
     [kFrameDeviceEnable, kFrameAckEnable, kFrameSjaBtr, kFrameFrameStoragePercent, kFrameBitSampleRate,
      kFrameBit]"

definition FrameDeviceProperty_Init :: "ptr \<Rightarrow> ('v, 'a) world \<Rightarrow> ('v, 'a) world res" where
  "FrameDeviceProperty_Init p = init_members p frame_names"

definition FrameDeviceProperty_Init_dict ::
  "ptr \<Rightarrow> (string \<times> 'v) list option \<Rightarrow> ('v, 'a) world \<Rightarrow> ('v, 'a) world res" where
  "FrameDeviceProperty_Init_dict p dict w =
     (case dict of None \<Rightarrow> Inl DcheckFailed | Some d \<Rightarrow> FrameDeviceProperty_Init p (Reset d w))"

definition FrameDeviceProperty_DetachFromThread :: "ptr \<Rightarrow> ('v, 'a) world \<Rightarrow> ('v, 'a) world res" where
  "FrameDeviceProperty_DetachFromThread p = detach_members p (length frame_names)"

text \<open>The integer of a \<open>uint16\<close> member is cast.\<close>

definition uint16_of_store :: "int \<Rightarrow> u16" where
  "uint16_of_store temp = word_of_int temp"

definition kClk :: u32 where "kClk = 16 * 1000 * 1000"

definition btr_field :: "nat \<Rightarrow> nat \<Rightarrow> u16 \<Rightarrow> int" where
  "btr_field pos n v = uint (drop_bit pos v AND mask n)"

definition BRP :: "u16 \<Rightarrow> int" where "BRP = btr_field 0 6"
definition SJW :: "u16 \<Rightarrow> int" where "SJW = btr_field 6 2"
definition SEG1 :: "u16 \<Rightarrow> int" where "SEG1 = btr_field 8 4"
definition SEG2 :: "u16 \<Rightarrow> int" where "SEG2 = btr_field 12 3"
definition SAM :: "u16 \<Rightarrow> int" where "SAM = btr_field 15 1"

definition SJABtrToBaudRate :: "u16 \<Rightarrow> int res" where
  "SJABtrToBaudRate v =
     (let divisor = word_of_int (2 * (BRP v + 1) * (SEG1 v + SEG2 v + 3)) in
      check Undefined (divisor \<noteq> 0) (Inr (sint (kClk div divisor))))"

definition BaudRate :: "FrameProperties \<Rightarrow> int res" where
  "BaudRate p = SJABtrToBaudRate (sja_btr p)"

definition BtrDiv :: "FrameProperties \<Rightarrow> u16 res" where
  "BtrDiv p =
     and_then (BaudRate p) (\<lambda>baud_rate.
     check Undefined (baud_rate \<noteq> 0) (Inr (word_of_int (trunc_div kMaxBaudRate baud_rate - 1))))"

subsection \<open>The sample rate\<close>

definition KValidSampleRates :: "int list" where
  "KValidSampleRates =
     [100000000, 50000000, 20000000, 10000000, 5000000, 2000000, 1000000, 500000, 200000, 100000, 50000,
      20000, 10000, 5000, 2000, 1000, 500, 200, 100, 50, 20, 10, 5, 2, 1]"

definition nearer :: "int \<Rightarrow> int \<Rightarrow> int \<Rightarrow> int res" where
  "nearer frame_rate rate best_frame_rate =
     and_then (int32_of (rate - frame_rate)) (\<lambda>a.
     and_then (int32_of (best_frame_rate - frame_rate)) (\<lambda>b.
     and_then (int32_of \<bar>a\<bar>) (\<lambda>a. and_then (int32_of \<bar>b\<bar>) (\<lambda>b.
       Inr (if a < b then rate else best_frame_rate)))))"

definition FrameSampleRate :: "int \<Rightarrow> int \<Rightarrow> int res" where
  "FrameSampleRate baud_rate bit_rate =
     and_then (int32_of (baud_rate * bit_rate)) (\<lambda>frame_rate.
       for_each (nearer frame_rate) KValidSampleRates (KValidSampleRates ! 0))"

definition kMemorySizeRate :: int where "kMemorySizeRate = 0x10"

subsection \<open>The device\<close>

record 'd FrameDevice =
  fv_props :: FrameProperties
  fv_sja1000 :: RegisterMemory
  fv_frame_storage :: RegisterMemory
  fv_wave_storage :: RegisterMemory
  fv_soft_diff :: RegisterMemory
  fv_device_type :: DeviceType
  fv_device :: 'd

definition FrameDevice_new ::
  "FrameProperties \<Rightarrow> RegisterMemory option \<Rightarrow> DeviceType \<Rightarrow> 'd \<Rightarrow> 'd FrameDevice res" where
  "FrameDevice_new props soft_diff type device =
     and_then SJA1000Register_new (\<lambda>sja1000.
     and_then FrameStorageRegister_new (\<lambda>frame_storage.
     and_then WaveStorageRegister_new (\<lambda>wave_storage.
       case soft_diff of
         None \<Rightarrow> Inl DcheckFailed
       | Some soft_diff \<Rightarrow>
           Inr \<lparr>fv_props = props, fv_sja1000 = sja1000, fv_frame_storage = frame_storage,
             fv_wave_storage = wave_storage, fv_soft_diff = soft_diff, fv_device_type = type,
             fv_device = device\<rparr>)))"

definition GetFrameStorageSize :: "FrameProperties \<Rightarrow> DeviceType \<Rightarrow> int res" where
  "GetFrameStorageSize p device_type =
     (let percent = frame_storage_percent p in
      CHECK (0 \<le> percent \<and> percent \<le> 100)
        (to_int32 (of_nat (unat (DeviceStorageSize device_type)) * percent / 100)))"

definition SetSJA1000 :: "'d FrameDevice \<Rightarrow> 'd FrameDevice res" where
  "SetSJA1000 s =
     and_then (put (BoolB SJA1000_slient) (of_bool (\<not> ack_enable (fv_props s))) (fv_sja1000 s)) (\<lambda>rm.
     and_then (put (U16B SJA1000_sja_btr) (ucast (sja_btr (fv_props s))) rm) (\<lambda>rm.
       Inr (s\<lparr>fv_sja1000 := rm\<rparr>)))"

definition SetFrameStorage :: "'d FrameDevice \<Rightarrow> 'd FrameDevice res" where
  "SetFrameStorage s =
     and_then (GetFrameStorageSize (fv_props s) (fv_device_type s)) (\<lambda>sz.
     let frame_depth = word_of_int (trunc_div sz kFrameSize * kFrameSize) in
     and_then (put (U32B FrameStorage_frame_depth) frame_depth (fv_frame_storage s)) (\<lambda>rm.
       Inr (s\<lparr>fv_frame_storage := rm\<rparr>)))"

definition WaveFrameLen :: "FrameProperties \<Rightarrow> int \<Rightarrow> int \<Rightarrow> u32 res" where
  "WaveFrameLen p baud_rate frame_sample_rate =
     and_then (int32_of (frame_bit p * 2)) (\<lambda>bits.
     and_then (to_word (of_int bits * 1.0 * of_int frame_sample_rate / of_int baud_rate)) (\<lambda>frame_len.
       Inr (frame_len AND 0xFFFFFFF8)))"

text \<open>The end of the wave memory; all operands become \<open>uint32\<close>.\<close>

definition WaveEnd :: "DeviceType \<Rightarrow> u32 \<Rightarrow> u32 \<Rightarrow> u32 res" where
  "WaveEnd device_type wave_start frame_len =
     (let memory_size = DeviceStorageSize device_type div word_of_int kMemorySizeRate in
      check Undefined (frame_len \<noteq> 0) (Inr (memory_size - (memory_size - wave_start) mod frame_len)))"

definition SetWaveStorage :: "'d FrameDevice \<Rightarrow> 'd FrameDevice res" where
  "SetWaveStorage s =
     (let p = fv_props s in
      and_then (BaudRate p) (\<lambda>baud_rate.
      and_then (FrameSampleRate baud_rate (bit_sample_rate p)) (\<lambda>frame_sample_rate.
      and_then (WaveFrameLen p baud_rate frame_sample_rate) (\<lambda>frame_len.
      and_then (put (U32B WaveStorage_frame_len) frame_len (fv_wave_storage s)) (\<lambda>rm.
      and_then (GetFrameStorageSize p (fv_device_type s)) (\<lambda>frame_storage_size.
      let wave_start = word_of_int frame_storage_size AND 0xFFFFFFF8 in
      and_then (put (U32B WaveStorage_wave_start) wave_start rm) (\<lambda>rm.
      and_then (WaveEnd (fv_device_type s) wave_start frame_len) (\<lambda>wave_end.
      and_then (put (U32B WaveStorage_wave_end) wave_end rm) (\<lambda>rm.
      let div_coe = word_of_int (trunc_div kMaxBaudRate frame_sample_rate - 1) in
      and_then (put (U32B WaveStorage_div_coe) div_coe rm) (\<lambda>rm.
        Inr (s\<lparr>fv_wave_storage := rm\<rparr>)))))))))))"

definition Frame_SetSoftDiff :: "'d FrameDevice \<Rightarrow> 'd FrameDevice res" where
  "Frame_SetSoftDiff s =
     and_then (put (U16B SoftDiff_sja_btr) (ucast (sja_btr (fv_props s))) (fv_soft_diff s)) (\<lambda>rm.
     and_then (put (BoolB SoftDiff_sys_cfg) (of_bool (device_enable (fv_props s))) rm) (\<lambda>rm.
     and_then (SJABtrToBaudRate (sja_btr (fv_props s))) (\<lambda>baud_rate.
     and_then (BaudRateToFilDiv baud_rate) (\<lambda>fil_div.
     and_then (put (U16B SoftDiff_fil_div) (ucast fil_div) rm) (\<lambda>rm.
       Inr (s\<lparr>fv_soft_diff := rm\<rparr>))))))"

definition FrameDevice_WriteDevice ::
  "'d DeviceDelegate \<Rightarrow> ('d FrameDevice \<Rightarrow> RegisterMemory) \<Rightarrow> 'd FrameDevice writer" where
  "FrameDevice_WriteDevice del reg s =
     and_then (send_register del (reg s) (fv_device s)) (\<lambda>(e, d). Inr (e, s\<lparr>fv_device := d\<rparr>))"

definition FrameDevice_WriteDeviceRange ::
  "'d DeviceDelegate \<Rightarrow> ('d FrameDevice \<Rightarrow> RegisterMemory) \<Rightarrow> int \<Rightarrow> int \<Rightarrow> 'd FrameDevice writer" where
  "FrameDevice_WriteDeviceRange del reg start_offset n s =
     and_then (send_range del (reg s) start_offset n (fv_device s)) (\<lambda>(e, d). Inr (e, s\<lparr>fv_device := d\<rparr>))"

definition frame_writers :: "'d DeviceDelegate \<Rightarrow> 'd FrameDevice writer list" where
  "frame_writers del =
     [FrameDevice_WriteDeviceRange del fv_sja1000 SJA1000_SysOffset SJA1000_SysSize,
      FrameDevice_WriteDevice del fv_frame_storage, FrameDevice_WriteDevice del fv_wave_storage,
      FrameDevice_WriteDeviceRange del fv_soft_diff SoftDiff_kFilDivOffset SoftDiff_kFilDivSize,
      FrameDevice_WriteDeviceRange del fv_soft_diff SoftDiff_kSysOffset SoftDiff_kSysSize]"

definition FrameDevice_SetAll :: "'d DeviceDelegate \<Rightarrow> 'd FrameDevice \<Rightarrow> 'd FrameDevice res" where
  "FrameDevice_SetAll del s =
     and_then (SetSJA1000 s) (\<lambda>s.
     and_then (SetFrameStorage s) (\<lambda>s.
     and_then (SetWaveStorage s) (\<lambda>s.
     and_then (Frame_SetSoftDiff s) (write_seq (frame_writers del)))))"

subsection \<open>The baud rate\<close>

lemma btr_field_bounds: "0 \<le> btr_field pos n v" "btr_field pos n v < 2 ^ n"
proof -
  show "0 \<le> btr_field pos n v" by (simp add: btr_field_def)
  show "btr_field pos n v < 2 ^ n"
    by (simp add: btr_field_def unsigned_take_bit_eq flip: take_bit_eq_mask)
qed

lemma btr_bounds:
  "0 \<le> BRP v" "BRP v < 64" "0 \<le> SEG1 v" "SEG1 v < 16" "0 \<le> SEG2 v" "SEG2 v < 8"
  using btr_field_bounds [of 0 6 v] btr_field_bounds [of 8 4 v] btr_field_bounds [of 12 3 v]
  by (simp_all add: BRP_def SEG1_def SEG2_def btr_field_bounds(1))

lemma SJABtrToBaudRate_eq:
  "SJABtrToBaudRate v = Inr (16000000 div (2 * (BRP v + 1) * (SEG1 v + SEG2 v + 3)))"
    (is "_ = Inr (16000000 div ?d)")
proof -
  have d: "6 \<le> ?d" "?d \<le> 3200"
  proof -
    have "2 * 1 * 3 \<le> ?d" using btr_bounds [of v] by (intro mult_mono) simp_all
    then show "6 \<le> ?d" by simp
    have "?d \<le> 2 * 64 * 25" using btr_bounds [of v] by (intro mult_mono) simp_all
    then show "?d \<le> 3200" by simp
  qed
  have u: "uint (word_of_int ?d :: u32) = ?d"
    using d by (simp add: uint_word_of_int_eq take_bit_int_eq_self del: of_int_mult of_int_add)
  then have "(word_of_int ?d :: u32) \<noteq> 0" using d by (metis uint_0_eq not_numeral_le_zero)
  moreover have "sint (kClk div word_of_int ?d) = 16000000 div ?d"
  proof -
    have "16000000 div ?d \<le> 16000000 div 1" by (rule zdiv_mono2) (use d in simp_all)
    moreover have "0 \<le> 16000000 div ?d" using d by (simp add: pos_imp_zdiv_nonneg_iff)
    ultimately show ?thesis
      using u by (simp add: sint_uint uint_div kClk_def signed_take_bit_int_eq_self del: of_int_mult of_int_add)
  qed
  ultimately show ?thesis by (simp add: SJABtrToBaudRate_def Let_def check_def del: of_int_mult of_int_add)
qed

definition baud :: "u16 \<Rightarrow> int" where
  "baud v = 16000000 div (2 * (BRP v + 1) * (SEG1 v + SEG2 v + 3))"

lemma baud_bounds: "5000 \<le> baud v" "baud v \<le> 2666666"
proof -
  let ?d = "2 * (BRP v + 1) * (SEG1 v + SEG2 v + 3)"
  have "2 * 1 * 3 \<le> ?d" "?d \<le> 2 * 64 * 25" using btr_bounds [of v] by (intro mult_mono; simp)+
  then have d: "6 \<le> ?d" "?d \<le> 3200" by simp_all
  have "16000000 div 3200 \<le> baud v" unfolding baud_def by (rule zdiv_mono2) (use d in simp_all)
  then show "5000 \<le> baud v" by simp
  have "baud v \<le> 16000000 div 6" unfolding baud_def by (rule zdiv_mono2) (use d in simp_all)
  then show "baud v \<le> 2666666" by simp
qed

lemma BaudRate_eq: "SJABtrToBaudRate v = Inr (baud v)" "BaudRate p = Inr (baud (sja_btr p))"
  by (simp_all add: BaudRate_def SJABtrToBaudRate_eq baud_def)

lemma div_range: "0 < a \<Longrightarrow> 5000 \<le> b \<Longrightarrow> b \<le> 2666666 \<Longrightarrow> (a :: int) div 2666666 \<le> a div b \<and> a div b \<le> a div 5000"
  by (auto intro!: zdiv_mono2)

lemma BtrDiv_eq: "\<exists>d. BtrDiv p = Inr d \<and> uint d = kMaxBaudRate div baud (sja_btr p) - 1"
proof -
  let ?b = "baud (sja_btr p)"
  have b: "kMaxBaudRate div 2666666 \<le> kMaxBaudRate div ?b" "kMaxBaudRate div ?b \<le> kMaxBaudRate div 5000"
    using div_range [of kMaxBaudRate ?b] baud_bounds by (simp_all add: kMaxBaudRate_def)
  have "BtrDiv p = Inr (word_of_int (kMaxBaudRate div ?b - 1))"
    using baud_bounds [of "sja_btr p"] by (simp add: BtrDiv_def BaudRate_eq check_def kMaxBaudRate_def)
  moreover have "uint (word_of_int (kMaxBaudRate div ?b - 1) :: u16) = kMaxBaudRate div ?b - 1"
    using b by (simp add: kMaxBaudRate_def uint_word_of_int_eq take_bit_int_eq_self del: of_int_diff)
  ultimately show ?thesis by blast
qed

lemma BaudRateToFilDiv_eq:
  "\<exists>d. BaudRateToFilDiv (baud v) = Inr d \<and> uint d = kMaxBaudRate div baud v div 16 - 1"
proof -
  have b: "kMaxBaudRate div 2666666 \<le> kMaxBaudRate div baud v" "kMaxBaudRate div baud v \<le> kMaxBaudRate div 5000"
    using div_range [of kMaxBaudRate "baud v"] baud_bounds by (simp_all add: kMaxBaudRate_def)
  then have q: "1 \<le> kMaxBaudRate div baud v div 16" "kMaxBaudRate div baud v div 16 \<le> 1250"
    by (simp_all add: kMaxBaudRate_def)
  have "BaudRateToFilDiv (baud v) = Inr (word_of_int (kMaxBaudRate div baud v div 16 - 1))"
    using baud_bounds [of v] b by (simp add: BaudRateToFilDiv_def check_def kMaxBaudRate_def)
  moreover have "uint (word_of_int (kMaxBaudRate div baud v div 16 - 1) :: u16) = kMaxBaudRate div baud v div 16 - 1"
    using q by (simp add: uint_word_of_int_eq take_bit_int_eq_self del: of_int_diff)
  ultimately show ?thesis by blast
qed

text \<open>Whatever the bit-timing register holds, the baud rate it stands for lies between 5000 and
  2666666, so that none of the divisions by it is one by zero, no DCHECK fails, and the dividers for
  the sending clock and for the filter fit into 16 bits.\<close>

theorem baud_rate_dividers:
  "\<exists>b d f. BaudRate p = Inr b \<and> 5000 \<le> b \<and> b \<le> 2666666 \<and>
     BtrDiv p = Inr d \<and> uint d = kMaxBaudRate div b - 1 \<and>
     BaudRateToFilDiv b = Inr f \<and> uint f = kMaxBaudRate div b div 16 - 1"
  using BtrDiv_eq [of p] BaudRateToFilDiv_eq [of "sja_btr p"] baud_bounds [of "sja_btr p"]
  by (auto simp: BaudRate_eq)

subsection \<open>The nearest sample rate\<close>

lemma nearer_ok:
  assumes "in_int32 f" and "0 \<le> f" and "0 < r" and "r \<le> 100000000" and "0 < best" and "best \<le> 100000000"
  shows "nearer f r best = Inr (if \<bar>r - f\<bar> < \<bar>best - f\<bar> then r else best)"
proof -
  have "int32_of (r - f) = Inr (r - f)" "int32_of (best - f) = Inr (best - f)"
    "int32_of \<bar>r - f\<bar> = Inr \<bar>r - f\<bar>" "int32_of \<bar>best - f\<bar> = Inr \<bar>best - f\<bar>"
    using assms by (auto simp: in_int32_def)
  then show ?thesis by (simp only: nearer_def and_then_simps)
qed

lemma nearest_loop:
  assumes "in_int32 f" and "0 \<le> f" and "\<forall>r \<in> set rs. 0 < r \<and> r \<le> 100000000" and "0 < best" and "best \<le> 100000000"
  shows "\<exists>r. for_each (nearer f) rs best = Inr r \<and> r \<in> insert best (set rs) \<and>
    (\<forall>q \<in> insert best (set rs). \<bar>r - f\<bar> \<le> \<bar>q - f\<bar>)"
  using assms(3-)
proof (induction rs arbitrary: best)
  case (Cons x xs)
  define b where "b = (if \<bar>x - f\<bar> < \<bar>best - f\<bar> then x else best)"
  have step: "nearer f x best = Inr b"
    using nearer_ok [OF assms(1,2), of x best] Cons.prems by (simp add: b_def)
  have b: "0 < b" "b \<le> 100000000" using Cons.prems by (simp_all add: b_def)
  obtain r where r: "for_each (nearer f) xs b = Inr r" "r \<in> insert b (set xs)"
    "\<forall>q \<in> insert b (set xs). \<bar>r - f\<bar> \<le> \<bar>q - f\<bar>"
    using Cons.IH [OF _ b] Cons.prems(1) by auto
  have "\<bar>r - f\<bar> \<le> \<bar>q - f\<bar>" if "q \<in> insert best (set (x # xs))" for q
  proof -
    have "\<bar>b - f\<bar> \<le> \<bar>x - f\<bar>" "\<bar>b - f\<bar> \<le> \<bar>best - f\<bar>" by (simp_all add: b_def)
    moreover have "\<bar>r - f\<bar> \<le> \<bar>b - f\<bar>" using r(3) by simp
    ultimately show ?thesis using that r(3) by (auto intro: order_trans)
  qed
  moreover have "r \<in> insert best (set (x # xs))" using r(2) by (auto simp: b_def split: if_splits)
  ultimately show ?case using step r(1) by auto
qed auto

lemma FrameSampleRate_result:
  assumes "0 \<le> baud_rate * bit_rate" and "in_int32 (baud_rate * bit_rate)"
  shows "\<exists>r. FrameSampleRate baud_rate bit_rate = Inr r \<and> r \<in> set KValidSampleRates \<and>
    (\<forall>q \<in> set KValidSampleRates. \<bar>r - baud_rate * bit_rate\<bar> \<le> \<bar>q - baud_rate * bit_rate\<bar>)"
proof -
  have first: "KValidSampleRates ! 0 = 100000000" "100000000 \<in> set KValidSampleRates"
    "\<forall>r \<in> set KValidSampleRates. 0 < r \<and> r \<le> 100000000" by (simp_all add: KValidSampleRates_def)
  show ?thesis
    using nearest_loop [OF assms(2,1) first(3), of 100000000] first(1,2) assms(2)
    by (simp add: FrameSampleRate_def int32_of_def insert_absorb)
qed

text \<open>The sample rate of the frame's wave is one of the valid rates, and none of them is nearer to baud
  rate times samples per bit, when that product is an \<open>int\<close>; otherwise it overflows.  With the
  default configuration (1 Mbit/s, 5000 samples per bit) it does.\<close>

theorem frame_sample_rate:
  assumes "0 \<le> baud_rate" and "0 \<le> bit_rate"
  shows "if in_int32 (baud_rate * bit_rate)
    then \<exists>r. FrameSampleRate baud_rate bit_rate = Inr r \<and> r \<in> set KValidSampleRates \<and>
      (\<forall>q \<in> set KValidSampleRates. \<bar>r - baud_rate * bit_rate\<bar> \<le> \<bar>q - baud_rate * bit_rate\<bar>)
    else FrameSampleRate baud_rate bit_rate = Inl Overflow"
  using FrameSampleRate_result [of baud_rate bit_rate] assms
  by (simp add: FrameSampleRate_def int32_of_def)

definition default_frame :: FrameProperties where
  "default_frame =
     \<lparr>device_enable = False, ack_enable = True, sja_btr = 5184, bit_sample_rate = 5000, frame_bit = 100,
      frame_storage_percent = 50\<rparr>"

lemma default_baud: "baud (sja_btr default_frame) = 1000000"
  by (simp add: baud_def BRP_def SEG1_def SEG2_def btr_field_def default_frame_def mask_eq_exp_minus_1)

lemma frame_sample_rate_witness:
  "BaudRate default_frame = Inr 1000000 \<and> FrameSampleRate 1000000 (bit_sample_rate default_frame) = Inl Overflow"
  using frame_sample_rate [of 1000000 "bit_sample_rate default_frame"] default_baud
  by (simp add: BaudRate_eq default_frame_def in_int32_def)

subsection \<open>The registers\<close>

text \<open>The bytes of the storage for frames, and the samples of a frame's wave.\<close>

definition storage_size :: "FrameProperties \<Rightarrow> int" where
  "storage_size p = \<lfloor>536870912 * frame_storage_percent p / 100\<rfloor>"

definition wave_len :: "FrameProperties \<Rightarrow> int \<Rightarrow> u32" where
  "wave_len p rate = word_of_int (frame_bit p * 2 * rate div baud (sja_btr p)) AND 0xFFFFFFF8"

definition wave_start_of :: "FrameProperties \<Rightarrow> u32" where
  "wave_start_of p = word_of_int (storage_size p) AND 0xFFFFFFF8"

definition frame_limits :: "FrameProperties \<Rightarrow> bool" where
  "frame_limits p \<longleftrightarrow>
     0 \<le> frame_storage_percent p \<and> frame_storage_percent p \<le> 100 \<and>
     0 \<le> frame_bit p \<and> frame_bit p < 2 ^ 30 \<and>
     (case FrameSampleRate (baud (sja_btr p)) (bit_sample_rate p) of
        Inl e \<Rightarrow> False
      | Inr r \<Rightarrow> 8 * baud (sja_btr p) \<le> frame_bit p * 2 * r \<and> frame_bit p * 2 * r < 4294967296 * baud (sja_btr p))"

definition sja_list :: "FrameProperties \<Rightarrow> (bind \<times> u32) list" where
  "sja_list p = [(BoolB SJA1000_slient, of_bool (\<not> ack_enable p)), (U16B SJA1000_sja_btr, ucast (sja_btr p))]"

definition storage_list :: "FrameProperties \<Rightarrow> (bind \<times> u32) list" where
  "storage_list p = [(U32B FrameStorage_frame_depth, word_of_int (storage_size p div 48 * 48))]"

definition wave_list :: "FrameProperties \<Rightarrow> int \<Rightarrow> (bind \<times> u32) list" where
  "wave_list p rate =
     [(U32B WaveStorage_frame_len, wave_len p rate),
      (U32B WaveStorage_wave_start, wave_start_of p),
      (U32B WaveStorage_wave_end, 33554432 - (33554432 - wave_start_of p) mod wave_len p rate),
      (U32B WaveStorage_div_coe, word_of_int (trunc_div kMaxBaudRate rate - 1))]"

definition soft_list :: "FrameProperties \<Rightarrow> u16 \<Rightarrow> (bind \<times> u32) list" where
  "soft_list p fil_div =
     [(U16B SoftDiff_sja_btr, ucast (sja_btr p)), (BoolB SoftDiff_sys_cfg, of_bool (device_enable p)),
      (U16B SoftDiff_fil_div, ucast fil_div)]"

definition holds_list :: "(bind \<times> u32) list \<Rightarrow> RegisterMemory \<Rightarrow> bool" where
  "holds_list xs rm \<longleftrightarrow> list_all (\<lambda>(b, v). get b rm = Inr v) xs"

definition frame_matches :: "'d FrameDevice \<Rightarrow> bool" where
  "frame_matches s \<longleftrightarrow>
     (let p = fv_props s in
      holds_list (sja_list p) (fv_sja1000 s) \<and> holds_list (storage_list p) (fv_frame_storage s) \<and>
      (case FrameSampleRate (baud (sja_btr p)) (bit_sample_rate p) of
         Inl e \<Rightarrow> False | Inr rate \<Rightarrow> holds_list (wave_list p rate) (fv_wave_storage s)) \<and>
      (case BaudRateToFilDiv (baud (sja_btr p)) of
         Inl e \<Rightarrow> False | Inr fil_div \<Rightarrow> holds_list (soft_list p fil_div) (fv_soft_diff s)))"

definition frame_regs_ok :: "'d FrameDevice \<Rightarrow> bool" where
  "frame_regs_ok s \<longleftrightarrow>
     reg_ok kSJA1000Addr kSJA1000Size (fv_sja1000 s) \<and> reg_ok kFrameStorageAddr kFrameStorageSize (fv_frame_storage s) \<and>
     reg_ok kWaveStorageAddr kWaveStorageSize (fv_wave_storage s) \<and> reg_ok kSoftDiffAddr kSoftDiffSize (fv_soft_diff s)"

text \<open>The oscilloscope's part of the shared register.\<close>

definition osc_part_kept :: "RegisterMemory \<Rightarrow> RegisterMemory \<Rightarrow> bool" where
  "osc_part_kept rm rm' \<longleftrightarrow>
     (\<forall>b \<in> set SoftDiffRegister_binds.
        b \<notin> {U16B SoftDiff_sja_btr, BoolB SoftDiff_sys_cfg, U16B SoftDiff_fil_div} \<longrightarrow> get b rm' = get b rm)"

lemma frame_put_list_keeps:
  assumes "reg_ok addr sz rm" and "layout_ok sz bs" and "distinct (map fst xs)"
    and "list_all (\<lambda>(b, v). b \<in> set bs \<and> v \<le> bind_bound b) xs"
    and "m = and_then (put_list xs rm) (\<lambda>rm. Inr (upd rm))"
  shows "\<exists>rm'. m = Inr (upd rm') \<and> reg_ok addr sz rm' \<and> holds_list xs rm' \<and>
    (\<forall>b \<in> set bs. b \<notin> fst ` set xs \<longrightarrow> get b rm' = get b rm)"
proof -
  have "\<forall>(b, v) \<in> set xs. b \<in> set bs \<and> v \<le> bind_bound b" using assms(4) by (simp add: list_all_iff)
  then obtain rm' where "put_list xs rm = Inr rm'" "reg_ok addr sz rm'" "\<forall>(b, v) \<in> set xs. get b rm' = Inr v"
    "\<forall>b \<in> set bs. b \<notin> fst ` set xs \<longrightarrow> get b rm' = get b rm"
    using put_list_ok [OF assms(1-3)] by blast
  then show ?thesis using assms(5) by (auto simp: holds_list_def list_all_iff)
qed

lemma frame_put_list:
  assumes "reg_ok addr sz rm" and "layout_ok sz bs" and "distinct (map fst xs)"
    and "list_all (\<lambda>(b, v). b \<in> set bs \<and> v \<le> bind_bound b) xs"
    and "m = and_then (put_list xs rm) (\<lambda>rm. Inr (upd rm))"
  shows "\<exists>rm'. m = Inr (upd rm') \<and> reg_ok addr sz rm' \<and> holds_list xs rm'"
  using frame_put_list_keeps [OF assms] by blast

lemma SetSJA1000_ok:
  assumes "reg_ok kSJA1000Addr kSJA1000Size (fv_sja1000 s)"
  shows "\<exists>rm. SetSJA1000 s = Inr (s\<lparr>fv_sja1000 := rm\<rparr>) \<and> reg_ok kSJA1000Addr kSJA1000Size rm \<and>
    holds_list (sja_list (fv_props s)) rm"
proof -
  have eq: "SetSJA1000 s = and_then (put_list (sja_list (fv_props s)) (fv_sja1000 s)) (\<lambda>rm. Inr (s\<lparr>fv_sja1000 := rm\<rparr>))"
    by (simp add: SetSJA1000_def sja_list_def and_then_assoc)
  have bounds: "list_all (\<lambda>(b, v). b \<in> set SJA1000Register_binds \<and> v \<le> bind_bound b) (sja_list (fv_props s))"
    using bound_simps by (simp add: sja_list_def SJA1000Register_binds_def)
  show ?thesis by (rule frame_put_list [OF assms register_layouts(6) _ bounds eq]) (simp add: sja_list_def)
qed

lemma storage_size_eq:
  assumes "0 \<le> frame_storage_percent p" and "frame_storage_percent p \<le> 100"
  shows "GetFrameStorageSize p t = Inr (storage_size p)" "0 \<le> storage_size p" "storage_size p \<le> 536870912"
proof -
  have "536870912 * frame_storage_percent p / 100 \<le> of_int 536870912" "of_int 0 \<le> 536870912 * frame_storage_percent p / 100"
    using assms by simp_all
  then show "0 \<le> storage_size p" "storage_size p \<le> 536870912"
    unfolding storage_size_def by (simp_all add: floor_le_iff le_floor_iff)
  then show "GetFrameStorageSize p t = Inr (storage_size p)"
    using assms by (simp add: GetFrameStorageSize_def Let_def check_def to_int32_def to_int64_def DeviceStorageSize_def
        storage_size_def in_int32_def)
qed

lemma SetFrameStorage_percent:
  assumes "reg_ok kFrameStorageAddr kFrameStorageSize (fv_frame_storage s)"
    and lim: "0 \<le> frame_storage_percent (fv_props s)" "frame_storage_percent (fv_props s) \<le> 100"
  shows "\<exists>rm. SetFrameStorage s = Inr (s\<lparr>fv_frame_storage := rm\<rparr>) \<and> reg_ok kFrameStorageAddr kFrameStorageSize rm \<and>
    holds_list (storage_list (fv_props s)) rm"
proof -
  have eq: "SetFrameStorage s =
      and_then (put_list (storage_list (fv_props s)) (fv_frame_storage s)) (\<lambda>rm. Inr (s\<lparr>fv_frame_storage := rm\<rparr>))"
    using storage_size_eq [OF lim] by (simp add: SetFrameStorage_def storage_list_def Let_def kFrameSize_def and_then_assoc)
  have bounds: "list_all (\<lambda>(b, v). b \<in> set FrameStorageRegister_binds \<and> v \<le> bind_bound b) (storage_list (fv_props s))"
    using bound_simps by (simp add: storage_list_def FrameStorageRegister_binds_def)
  show ?thesis by (rule frame_put_list [OF assms(1) register_layouts(7) _ bounds eq]) (simp add: storage_list_def)
qed

lemma SetFrameStorage_ok:
  assumes "reg_ok kFrameStorageAddr kFrameStorageSize (fv_frame_storage s)" and "frame_limits (fv_props s)"
  shows "\<exists>rm. SetFrameStorage s = Inr (s\<lparr>fv_frame_storage := rm\<rparr>) \<and> reg_ok kFrameStorageAddr kFrameStorageSize rm \<and>
    holds_list (storage_list (fv_props s)) rm"
  using SetFrameStorage_percent [OF assms(1)] assms(2) by (simp add: frame_limits_def)

lemma and_F8: "uint ((x :: u32) AND 0xFFFFFFF8) = uint x div 8 * 8"
proof -
  have "x AND NOT (mask 3) = push_bit 3 (drop_bit 3 x)"
    by (intro bit_word_eqI) (auto simp: bit_simps)
  moreover have "(0xFFFFFFF8 :: u32) = NOT (mask 3)" by (simp add: mask_eq_exp_minus_1)
  ultimately have "x AND 0xFFFFFFF8 = push_bit 3 (drop_bit 3 x)" by (simp only:)
  moreover have "push_bit 3 (drop_bit 3 (uint x)) = uint x div 8 * 8" by (simp add: push_bit_eq_mult drop_bit_eq_div)
  moreover have "uint x div 8 * 8 \<le> uint x" by (simp add: minus_mod_eq_div_mult [symmetric])
  then have "take_bit 32 (uint x div 8 * 8) = uint x div 8 * 8"
    using uint_lt2p [of x] by (intro take_bit_int_eq_self) (simp_all add: pos_imp_zdiv_nonneg_iff)
  moreover have "take_bit 32 (uint x) = uint x" using uint_lt2p [of x] by (intro take_bit_int_eq_self) simp_all
  ultimately show ?thesis by (simp add: unsigned_push_bit_eq unsigned_drop_bit_eq)
qed

lemma u32_word: "0 \<le> n \<Longrightarrow> n < 4294967296 \<Longrightarrow> uint (word_of_int n :: u32) = n"
  by (simp add: uint_word_of_int_eq take_bit_int_eq_self)

lemma frame_rate_ok:
  assumes "frame_limits p"
  shows "\<exists>r. FrameSampleRate (baud (sja_btr p)) (bit_sample_rate p) = Inr r \<and>
    8 \<le> frame_bit p * 2 * r div baud (sja_btr p) \<and> frame_bit p * 2 * r div baud (sja_btr p) < 4294967296"
proof -
  let ?b = "baud (sja_btr p)"
  have b: "0 < ?b" using baud_bounds(1) [of "sja_btr p"] by simp
  obtain r where r: "FrameSampleRate ?b (bit_sample_rate p) = Inr r"
    "8 * ?b \<le> frame_bit p * 2 * r" "frame_bit p * 2 * r < 4294967296 * ?b"
    using assms unfolding frame_limits_def by (auto split: sum.splits)
  have "8 * ?b div ?b \<le> frame_bit p * 2 * r div ?b" by (rule zdiv_mono1) (use r(2) b in simp_all)
  then have "8 \<le> frame_bit p * 2 * r div ?b" using b by simp
  moreover have "frame_bit p * 2 * r div ?b < 4294967296"
  proof -
    have "frame_bit p * 2 * r div ?b * ?b \<le> frame_bit p * 2 * r"
      using pos_mod_sign [OF b, of "frame_bit p * 2 * r"] by (simp add: minus_mod_eq_div_mult [symmetric])
    then have "frame_bit p * 2 * r div ?b * ?b < 4294967296 * ?b" using r(3) by linarith
    then show ?thesis using b by (simp only: mult_less_cancel_right_pos)
  qed
  ultimately show ?thesis using r(1) by blast
qed

lemma WaveFrameLen_eq:
  assumes "frame_limits p" and "0 \<le> frame_bit p * 2 * r div baud (sja_btr p)"
    and "frame_bit p * 2 * r div baud (sja_btr p) < 4294967296"
  shows "WaveFrameLen p (baud (sja_btr p)) r = Inr (wave_len p r)"
proof -
  let ?n = "frame_bit p * 2 * r" and ?b = "baud (sja_btr p)"
  have "int32_of (frame_bit p * 2) = Inr (frame_bit p * 2)"
    using assms(1) by (simp add: frame_limits_def in_int32_def)
  moreover have "to_int64 (of_int (frame_bit p * 2) * 1.0 * of_int r / of_int ?b) = ?n div ?b"
  proof -
    have eq: "of_int (frame_bit p * 2) * 1.0 * of_int r / of_int ?b = (of_int ?n / of_int ?b :: real)" by simp
    have "0 \<le> ?n" using assms(2) baud_bounds(1) [of "sja_btr p"] by (simp add: pos_imp_zdiv_nonneg_iff)
    then have "(0 :: real) \<le> of_int ?n" by (simp only: of_int_0_le_iff)
    then have "0 \<le> (of_int ?n / of_int ?b :: real)" using baud_bounds(1) [of "sja_btr p"]
      by (intro divide_nonneg_nonneg) simp_all
    then have "\<not> (of_int ?n / of_int ?b :: real) < 0" by (simp only: not_less)
    then show ?thesis unfolding eq to_int64_def by (simp only: if_False floor_divide_of_int_eq)
  qed
  then have "(to_word (of_int (frame_bit p * 2) * 1.0 * of_int r / of_int ?b) :: u32 res) = Inr (word_of_int (?n div ?b))"
    using assms(2,3) by (simp add: to_word_def Let_def check_def)
  ultimately show ?thesis unfolding WaveFrameLen_def wave_len_def by (simp only: and_then_simps)
qed

lemma SetWaveStorage_ok:
  assumes "reg_ok kWaveStorageAddr kWaveStorageSize (fv_wave_storage s)" and "frame_limits (fv_props s)"
    and "FrameSampleRate (baud (sja_btr (fv_props s))) (bit_sample_rate (fv_props s)) = Inr r"
  shows "\<exists>rm. SetWaveStorage s = Inr (s\<lparr>fv_wave_storage := rm\<rparr>) \<and> reg_ok kWaveStorageAddr kWaveStorageSize rm \<and>
    holds_list (wave_list (fv_props s) r) rm"
proof -
  let ?p = "fv_props s"
  have len: "8 \<le> frame_bit ?p * 2 * r div baud (sja_btr ?p)" "frame_bit ?p * 2 * r div baud (sja_btr ?p) < 4294967296"
    using frame_rate_ok [OF assms(2)] assms(3) by auto
  have "WaveFrameLen ?p (baud (sja_btr ?p)) r = Inr (wave_len ?p r)"
    using WaveFrameLen_eq [OF assms(2)] len by simp
  moreover have "uint (wave_len ?p r) \<noteq> 0" unfolding wave_len_def and_F8 using len by (simp add: u32_word)
  then have "wave_len ?p r \<noteq> 0" by auto
  moreover have "GetFrameStorageSize ?p (fv_device_type s) = Inr (storage_size ?p)"
    using assms(2) by (intro storage_size_eq) (simp_all add: frame_limits_def)
  ultimately have eq: "SetWaveStorage s =
      and_then (put_list (wave_list ?p r) (fv_wave_storage s)) (\<lambda>rm. Inr (s\<lparr>fv_wave_storage := rm\<rparr>))"
    using assms(3)
    by (simp add: SetWaveStorage_def wave_list_def Let_def BaudRate_eq and_then_assoc WaveEnd_def check_def
        wave_start_of_def DeviceStorageSize_def kMemorySizeRate_def)
  have bounds: "list_all (\<lambda>(b, v). b \<in> set WaveStorageRegister_binds \<and> v \<le> bind_bound b) (wave_list ?p r)"
    using bound_simps by (simp add: wave_list_def WaveStorageRegister_binds_def)
  show ?thesis
    by (rule frame_put_list [OF assms(1) register_layouts(8) _ bounds eq])
      (simp add: wave_list_def register_members register_consts)
qed

lemma Frame_SetSoftDiff_ok:
  assumes "reg_ok kSoftDiffAddr kSoftDiffSize (fv_soft_diff s)"
    and "BaudRateToFilDiv (baud (sja_btr (fv_props s))) = Inr f"
  shows "\<exists>rm. Frame_SetSoftDiff s = Inr (s\<lparr>fv_soft_diff := rm\<rparr>) \<and> reg_ok kSoftDiffAddr kSoftDiffSize rm \<and>
    holds_list (soft_list (fv_props s) f) rm \<and> osc_part_kept (fv_soft_diff s) rm"
proof -
  have eq: "Frame_SetSoftDiff s =
      and_then (put_list (soft_list (fv_props s) f) (fv_soft_diff s)) (\<lambda>rm. Inr (s\<lparr>fv_soft_diff := rm\<rparr>))"
    using assms(2) by (simp add: Frame_SetSoftDiff_def soft_list_def BaudRate_eq and_then_assoc)
  have bounds: "list_all (\<lambda>(b, v). b \<in> set SoftDiffRegister_binds \<and> v \<le> bind_bound b) (soft_list (fv_props s) f)"
    using bound_simps by (simp add: soft_list_def SoftDiffRegister_binds_def)
  have names: "fst ` set (soft_list (fv_props s) f) = {U16B SoftDiff_sja_btr, BoolB SoftDiff_sys_cfg, U16B SoftDiff_fil_div}"
    by (simp add: soft_list_def)
  show ?thesis unfolding osc_part_kept_def names [symmetric]
    by (rule frame_put_list_keeps [OF assms(1) register_layouts(2) _ bounds eq])
      (simp add: soft_list_def register_members register_consts)
qed

lemma frame_set_registers:
  assumes "frame_regs_ok s" and "frame_limits (fv_props s)"
  shows "\<exists>t. and_then (SetSJA1000 s) (\<lambda>s. and_then (SetFrameStorage s) (\<lambda>s. and_then (SetWaveStorage s) Frame_SetSoftDiff)) =
      Inr t \<and> frame_regs_ok t \<and> frame_matches t \<and> fv_props t = fv_props s \<and> fv_device t = fv_device s \<and>
      osc_part_kept (fv_soft_diff s) (fv_soft_diff t)"
proof -
  note regs = assms(1) [unfolded frame_regs_ok_def]
  obtain r where r: "FrameSampleRate (baud (sja_btr (fv_props s))) (bit_sample_rate (fv_props s)) = Inr r"
    using frame_rate_ok [OF assms(2)] by blast
  obtain f where f: "BaudRateToFilDiv (baud (sja_btr (fv_props s))) = Inr f"
    using BaudRateToFilDiv_eq by blast
  obtain a where a: "SetSJA1000 s = Inr (s\<lparr>fv_sja1000 := a\<rparr>)" "reg_ok kSJA1000Addr kSJA1000Size a"
    "holds_list (sja_list (fv_props s)) a"
    using SetSJA1000_ok [of s] regs by auto
  let ?s1 = "s\<lparr>fv_sja1000 := a\<rparr>"
  obtain b where b: "SetFrameStorage ?s1 = Inr (?s1\<lparr>fv_frame_storage := b\<rparr>)"
    "reg_ok kFrameStorageAddr kFrameStorageSize b" "holds_list (storage_list (fv_props s)) b"
    using SetFrameStorage_ok [of ?s1] regs assms(2) by auto
  let ?s2 = "?s1\<lparr>fv_frame_storage := b\<rparr>"
  obtain c where c: "SetWaveStorage ?s2 = Inr (?s2\<lparr>fv_wave_storage := c\<rparr>)"
    "reg_ok kWaveStorageAddr kWaveStorageSize c" "holds_list (wave_list (fv_props s) r) c"
    using SetWaveStorage_ok [of ?s2 r] regs assms(2) r by auto
  let ?s3 = "?s2\<lparr>fv_wave_storage := c\<rparr>"
  obtain d where d: "Frame_SetSoftDiff ?s3 = Inr (?s3\<lparr>fv_soft_diff := d\<rparr>)"
    "reg_ok kSoftDiffAddr kSoftDiffSize d" "holds_list (soft_list (fv_props s) f) d" "osc_part_kept (fv_soft_diff s) d"
    using Frame_SetSoftDiff_ok [of ?s3 f] regs f by auto
  show ?thesis
    using a b c d r f by (simp add: frame_regs_ok_def frame_matches_def Let_def)
qed

lemma frame_device_simps [simp]:
  "frame_regs_ok (s\<lparr>fv_device := d\<rparr>) = frame_regs_ok s" "frame_matches (s\<lparr>fv_device := d\<rparr>) = frame_matches s"
  by (simp_all add: frame_regs_ok_def frame_matches_def Let_def split: sum.split)

subsection \<open>The writes\<close>

locale frame_device_delegate = device_delegate +
  assumes frame_blocks:
      "register (kSJA1000Addr + word_of_int SJA1000_SysOffset) SJA1000_SysSize"
      "register kFrameStorageAddr (int kFrameStorageSize)" "register kWaveStorageAddr (int kWaveStorageSize)"
      "register (kSoftDiffAddr + word_of_int SoftDiff_kFilDivOffset) SoftDiff_kFilDivSize"
      "register (kSoftDiffAddr + word_of_int SoftDiff_kSysOffset) SoftDiff_kSysSize"
    and send_blocks:
      "register (kFpgaSendAddr + word_of_int FpgaSend_SendOffset) FpgaSend_SendSize"
      "register (kFpgaSendAddr + word_of_int FpgaSend_StateOffset) FpgaSend_StateSize"
    and read_part: "inv d \<Longrightarrow> register addr sz \<Longrightarrow> sz \<le> int (length b) \<Longrightarrow>
      \<exists>e b' d'. dd_ReadDevice del addr b sz d = Inr (e, b', d') \<and> inv d' \<and> length b' = length b"
begin

lemma frame_WriteDevice_ok:
  assumes "reg_ok addr sz (reg s)" and "\<And>d. reg (s\<lparr>fv_device := d\<rparr>) = reg s" and "register addr (int sz)" and "0 < sz"
  shows "keeps (\<lambda>t. \<exists>d. t = s\<lparr>fv_device := d\<rparr> \<and> inv d) (FrameDevice_WriteDevice del reg)"
  unfolding keeps_def
proof (intro allI impI)
  fix t assume "\<exists>d. t = s\<lparr>fv_device := d\<rparr> \<and> inv d"
  then obtain d where d: "t = s\<lparr>fv_device := d\<rparr>" "inv d" by blast
  obtain e d' where "send_register del (reg s) d = Inr (e, d')" "inv d'"
    using send_register_ok [OF d(2) assms(1,3,4)] by blast
  moreover from this(1) have "FrameDevice_WriteDevice del reg t = Inr (e, s\<lparr>fv_device := d'\<rparr>)"
    by (simp add: FrameDevice_WriteDevice_def d(1) assms(2))
  ultimately show "\<exists>e t'. FrameDevice_WriteDevice del reg t = Inr (e, t') \<and> (\<exists>d. t' = s\<lparr>fv_device := d\<rparr> \<and> inv d)"
    by blast
qed

lemma frame_WriteDeviceRange_ok:
  assumes "reg_ok addr sz (reg s)" and "\<And>d. reg (s\<lparr>fv_device := d\<rparr>) = reg s" and "register (addr + word_of_int off) n"
    and "0 \<le> off" and "0 < n" and "off + n \<le> int sz" and "int sz < 2 ^ 32"
  shows "keeps (\<lambda>t. \<exists>d. t = s\<lparr>fv_device := d\<rparr> \<and> inv d) (FrameDevice_WriteDeviceRange del reg off n)"
  unfolding keeps_def
proof (intro allI impI)
  fix t assume "\<exists>d. t = s\<lparr>fv_device := d\<rparr> \<and> inv d"
  then obtain d where d: "t = s\<lparr>fv_device := d\<rparr>" "inv d" by blast
  obtain e d' where "send_range del (reg s) off n d = Inr (e, d')" "inv d'"
    using send_range_ok [OF d(2) assms(1,3-7)] by blast
  moreover from this(1) have "FrameDevice_WriteDeviceRange del reg off n t = Inr (e, s\<lparr>fv_device := d'\<rparr>)"
    by (simp add: FrameDevice_WriteDeviceRange_def d(1) assms(2))
  ultimately show "\<exists>e t'. FrameDevice_WriteDeviceRange del reg off n t = Inr (e, t') \<and>
      (\<exists>d. t' = s\<lparr>fv_device := d\<rparr> \<and> inv d)" by blast
qed

lemma frame_writers_ok:
  assumes "frame_regs_ok s"
  shows "\<forall>w \<in> set (frame_writers del). keeps (\<lambda>t. \<exists>d. t = s\<lparr>fv_device := d\<rparr> \<and> inv d) w"
proof -
  let ?P = "\<lambda>t. \<exists>d. t = s\<lparr>fv_device := d\<rparr> \<and> inv d"
  note regs = assms [unfolded frame_regs_ok_def]
  have r: "reg_ok kSJA1000Addr kSJA1000Size (fv_sja1000 s)" "reg_ok kSoftDiffAddr kSoftDiffSize (fv_soft_diff s)"
    using regs by simp_all
  have pos: "0 < kFrameStorageSize" "0 < kWaveStorageSize" by (simp_all add: register_consts)
  have "keeps ?P (FrameDevice_WriteDeviceRange del fv_sja1000 SJA1000_SysOffset SJA1000_SysSize)"
    by (rule frame_WriteDeviceRange_ok [where reg = fv_sja1000, OF r(1) _ frame_blocks(1)])
      (simp_all add: range_defs register_consts)
  moreover have "keeps ?P (FrameDevice_WriteDevice del fv_frame_storage)"
    by (rule frame_WriteDevice_ok [OF _ _ frame_blocks(2) pos(1)]) (simp_all add: regs)
  moreover have "keeps ?P (FrameDevice_WriteDevice del fv_wave_storage)"
    by (rule frame_WriteDevice_ok [OF _ _ frame_blocks(3) pos(2)]) (simp_all add: regs)
  moreover have "keeps ?P (FrameDevice_WriteDeviceRange del fv_soft_diff SoftDiff_kFilDivOffset SoftDiff_kFilDivSize)"
    by (rule frame_WriteDeviceRange_ok [where reg = fv_soft_diff, OF r(2) _ frame_blocks(4)])
      (simp_all add: range_defs register_consts)
  moreover have "keeps ?P (FrameDevice_WriteDeviceRange del fv_soft_diff SoftDiff_kSysOffset SoftDiff_kSysSize)"
    by (rule frame_WriteDeviceRange_ok [where reg = fv_soft_diff, OF r(2) _ frame_blocks(5)])
      (simp_all add: range_defs register_consts)
  ultimately show ?thesis by (simp only: frame_writers_def list.set ball_simps simp_thms)
qed

lemma frame_SetAll_ok:
  assumes "inv (fv_device s)" and "frame_regs_ok s" and "frame_limits (fv_props s)"
  shows "\<exists>t. FrameDevice_SetAll del s = Inr t \<and> frame_matches t \<and> frame_regs_ok t \<and> inv (fv_device t) \<and>
    fv_props t = fv_props s \<and> osc_part_kept (fv_soft_diff s) (fv_soft_diff t)"
proof -
  obtain t where t: "and_then (SetSJA1000 s) (\<lambda>s. and_then (SetFrameStorage s) (\<lambda>s. and_then (SetWaveStorage s) Frame_SetSoftDiff)) =
      Inr t" "frame_regs_ok t" "frame_matches t" "fv_props t = fv_props s" "fv_device t = fv_device s"
      "osc_part_kept (fv_soft_diff s) (fv_soft_diff t)"
    using frame_set_registers [OF assms(2,3)] by (elim exE conjE) (rule that)
  have "\<exists>d. t = t\<lparr>fv_device := d\<rparr> \<and> inv d" using assms(1) t(5) by (intro exI [of _ "fv_device t"]) simp
  with frame_writers_ok [OF t(2)]
  have "\<exists>u. write_seq (frame_writers del) t = Inr u \<and> (\<exists>d. u = t\<lparr>fv_device := d\<rparr> \<and> inv d)" by (rule write_seq_keeps)
  then obtain u d where u: "write_seq (frame_writers del) t = Inr u" "u = t\<lparr>fv_device := d\<rparr>" "inv d"
    by (elim exE conjE) (rule that)
  have "FrameDevice_SetAll del s = and_then (and_then (SetSJA1000 s) (\<lambda>s. and_then (SetFrameStorage s) (\<lambda>s.
      and_then (SetWaveStorage s) Frame_SetSoftDiff))) (write_seq (frame_writers del))"
    by (simp only: FrameDevice_SetAll_def and_then_assoc)
  then have "FrameDevice_SetAll del s = Inr u" by (simp only: t(1) and_then_simps u(1))
  then show ?thesis using t u(2,3) by simp
qed

end

interpretation frame_device_usb: frame_device_delegate "UsbPortDeviceDelegate enum win"
    "\<lambda>p. port_ok p \<and> reads_bounded win" "\<lambda>addr sz. 0 \<le> sz \<and> sz \<le> 48" "\<lambda>sz. 0 < sz \<and> sz < 2 ^ 31"
  for enum :: "'s \<Rightarrow> string list option \<times> 's" and win :: "'s windows"
proof (unfold_locales, goal_cases)
  case (8 d addr sz b)
  then have "\<exists>ok b' d'. ReadEP1 win addr kUsbModelNormal b sz d = Inr (ok, b', d') \<and> port_ok d' \<and>
      length b' = length b"
    using ReadEP1_result [of d win sz b addr kUsbModelNormal] by auto
  then show ?case using 8 by (auto simp: UsbPortDeviceDelegate_def Usb_ReadDevice_def)
qed (simp_all add: register_consts range_defs)


lemma FrameDevice_new_regs:
  assumes "SoftDiffRegister_new = Inr soft"
  shows "\<exists>s. FrameDevice_new p (Some soft) t d = Inr s \<and> frame_regs_ok s \<and> fv_props s = p \<and> fv_device s = d"
  using assms
  by (auto simp: FrameDevice_new_def SJA1000Register_new_def FrameStorageRegister_new_def WaveStorageRegister_new_def
      SoftDiffRegister_new_def RegisterMemory_new_def check_def register_consts frame_regs_ok_def reg_ok_def split: if_splits)

lemma default_rate_overflows: "FrameSampleRate 1000000 (bit_sample_rate default_frame) = Inl Overflow"
  by (simp add: FrameSampleRate_def int32_of_def in_int32_def default_frame_def)

lemma default_SetAll_overflows:
  assumes "frame_regs_ok s" and "fv_props s = default_frame"
  shows "FrameDevice_SetAll del s = Inl Overflow"
proof -
  note regs = assms(1) [unfolded frame_regs_ok_def]
  obtain a where a: "SetSJA1000 s = Inr (s\<lparr>fv_sja1000 := a\<rparr>)" using SetSJA1000_ok [of s] regs by auto
  have "0 \<le> frame_storage_percent (fv_props s)" "frame_storage_percent (fv_props s) \<le> 100"
    using assms(2) by (simp_all add: default_frame_def)
  then obtain b where b: "SetFrameStorage (s\<lparr>fv_sja1000 := a\<rparr>) = Inr (s\<lparr>fv_sja1000 := a, fv_frame_storage := b\<rparr>)"
    using SetFrameStorage_percent [of "s\<lparr>fv_sja1000 := a\<rparr>"] regs by auto
  have "SetWaveStorage (s\<lparr>fv_sja1000 := a, fv_frame_storage := b\<rparr>) = Inl Overflow"
    using assms(2) default_baud default_rate_overflows by (simp add: SetWaveStorage_def Let_def BaudRate_eq)
  then show ?thesis using a b by (simp add: FrameDevice_SetAll_def)
qed

text \<open>A configuration whose sample rate does not overflow.\<close>

definition slow_frame :: FrameProperties where
  "slow_frame = default_frame\<lparr>bit_sample_rate := 20\<rparr>"

lemma slow_frame_rate: "FrameSampleRate (baud (sja_btr slow_frame)) (bit_sample_rate slow_frame) = Inr 20000000"
proof -
  have "baud (sja_btr slow_frame) = 1000000" "bit_sample_rate slow_frame = 20"
    using default_baud by (simp_all add: slow_frame_def)
  then show ?thesis
    by (simp add: FrameSampleRate_def KValidSampleRates_def nearer_def int32_of_def in_int32_def)
qed

lemma slow_frame_limits: "frame_limits slow_frame"
  using slow_frame_rate default_baud by (simp add: frame_limits_def) (simp add: slow_frame_def default_frame_def)


subsection \<open>The memory for the wave\<close>

lemma wave_start_uint:
  assumes "0 \<le> frame_storage_percent p" and "frame_storage_percent p \<le> 100"
  shows "uint (wave_start_of p) = storage_size p div 8 * 8"
  using storage_size_eq(2,3) [OF assms] by (simp add: wave_start_of_def and_F8 u32_word)

lemma WaveEnd_uint:
  assumes "len \<noteq> 0" and "uint start \<le> 33554432"
  shows "\<exists>e. WaveEnd t start len = Inr e \<and> uint e = 33554432 - (33554432 - uint start) mod uint len"
proof -
  have sub: "uint (33554432 - start) = 33554432 - uint start"
    using assms(2) by (simp add: uint_sub_if')
  have "(33554432 - uint start) mod uint len \<le> 33554432 - uint start"
    using assms(2) by (intro zmod_le_nonneg_dividend) simp
  also have "\<dots> \<le> 33554432" by simp
  finally have "uint ((33554432 - start) mod len) \<le> 33554432" by (simp only: uint_mod sub)
  then have "uint (33554432 - (33554432 - start) mod len) = 33554432 - uint ((33554432 - start) mod len)"
    by (simp add: uint_sub_if')
  then have "uint (33554432 - (33554432 - start) mod len) = 33554432 - (33554432 - uint start) mod uint len"
    by (simp only: uint_mod sub)
  then show ?thesis using assms(1)
    by (simp add: WaveEnd_def Let_def check_def DeviceStorageSize_def kMemorySizeRate_def)
qed

lemma WaveEnd_wrapped:
  assumes "len \<noteq> 0" and "uint len \<le> 33554432" shows "\<exists>e. WaveEnd t start len = Inr e \<and> uint e \<le> 33554432"
proof -
  let ?r = "(33554432 - start) mod len"
  have "0 < uint len" using assms(1) by (simp add: word_neq_0_conv word_less_def)
  then have "uint ?r < 33554432" using assms(2) by (simp add: uint_mod order.strict_trans2 [OF pos_mod_bound])
  then have "uint (33554432 - ?r) \<le> 33554432" by (simp add: uint_sub_if')
  then show ?thesis using assms(1)
    by (simp add: WaveEnd_def Let_def check_def DeviceStorageSize_def kMemorySizeRate_def)
qed

lemma wave_region_result:
  assumes "0 \<le> frame_storage_percent p" and "frame_storage_percent p \<le> 100" and "len \<noteq> 0" and "uint len \<le> 33554432"
  shows "\<exists>e. WaveEnd t (wave_start_of p) len = Inr e \<and> uint e \<le> 33554432 \<and>
    (frame_storage_percent p \<le> 6.25 \<longrightarrow>
      uint (wave_start_of p) \<le> uint e \<and> uint len dvd uint e - uint (wave_start_of p)) \<and>
    (6.26 \<le> frame_storage_percent p \<longrightarrow> uint e < uint (wave_start_of p))"
proof (cases "frame_storage_percent p \<le> 6.25")
  case True
  have "storage_size p \<le> 33554432" using True by (simp add: storage_size_def floor_le_iff)
  then have start: "uint (wave_start_of p) \<le> 33554432"
    using wave_start_uint [OF assms(1,2)] by (simp add: minus_mod_eq_div_mult [symmetric])
  let ?d = "33554432 - uint (wave_start_of p)"
  obtain e where e: "WaveEnd t (wave_start_of p) len = Inr e" "uint e = 33554432 - ?d mod uint len"
    using WaveEnd_uint [OF assms(3) start] by blast
  have "0 < uint len" using assms(3) by (simp add: word_neq_0_conv word_less_def)
  then have "?d mod uint len \<le> ?d" "0 \<le> ?d mod uint len"
    using start by (auto intro: zmod_le_nonneg_dividend)
  moreover have "uint e - uint (wave_start_of p) = ?d - ?d mod uint len" using e(2) by simp
  then have "uint len dvd uint e - uint (wave_start_of p)" by (simp add: minus_mod_eq_mult_div)
  ultimately show ?thesis using e True by simp
next
  case False
  obtain e where e: "WaveEnd t (wave_start_of p) len = Inr e" "uint e \<le> 33554432"
    using WaveEnd_wrapped [OF assms(3,4)] by blast
  have "uint e < uint (wave_start_of p)" if "6.26 \<le> frame_storage_percent p"
  proof -
    have "33554440 \<le> storage_size p" using that by (simp add: storage_size_def le_floor_iff)
    then have "33554440 \<le> uint (wave_start_of p)" unfolding wave_start_uint [OF assms(1,2)] by presburger
    then show ?thesis using e(2) by simp
  qed
  then show ?thesis using e False by auto
qed

text \<open>The region for the waves ends at or before \<open>memory_size\<close>, 32 MB.  When the frames get at most
  6.25 percent, it is a whole number of waves long; from 6.26 percent on it ends before it starts: the
  subtraction \<open>memory_size - wave_start\<close> wraps around, because the storage of the frames is a
  percentage of 512 MB and \<open>memory_size\<close> is a sixteenth of that.  The default is 50 percent.\<close>

theorem wave_region:
  assumes "0 \<le> frame_storage_percent p" and "frame_storage_percent p \<le> 100" and "len \<noteq> 0" and "uint len \<le> 33554432"
  shows "\<exists>e. WaveEnd t (wave_start_of p) len = Inr e \<and> uint e \<le> 33554432 \<and>
    (frame_storage_percent p \<le> 6.25 \<longrightarrow>
      uint (wave_start_of p) \<le> uint e \<and> uint len dvd uint e - uint (wave_start_of p)) \<and>
    (6.26 \<le> frame_storage_percent p \<longrightarrow> uint e < uint (wave_start_of p))"
  using wave_region_result [OF assms] .

lemma wave_region_witness:
  "\<exists>e. WaveEnd DT_CS1203 (wave_start_of default_frame) 200 = Inr e \<and> uint e < uint (wave_start_of default_frame)"
  using wave_region [of default_frame 200 DT_CS1203] by (auto simp: default_frame_def)

subsection \<open>Sending frames\<close>

text \<open>\<open>FrameDeviceHandle\<close>: \<open>fh_device\<close> is the hardware behind the device; \<open>SyncCall\<close> runs
  \<open>FpgaSendImpl\<close> on the device thread and waits for it.  The sleep after each 40 reads changes
  nothing the model shows.\<close>

record 'd FrameDeviceHandle =
  fpga_send :: RegisterMemory
  fh_properties :: FrameProperties
  fh_last_err :: Error
  fh_device :: 'd

definition kFpgaSendStateFreq :: int where "kFpgaSendStateFreq = 40"

text \<open>One turn of the loop, which tells whether it returns.\<close>

definition send_turn ::
  "'d DeviceDelegate \<Rightarrow> int \<Rightarrow> 'd FrameDeviceHandle \<Rightarrow> (bool \<times> 'd FrameDeviceHandle) res" where
  "send_turn del count s =
     and_then (receive_range del (fpga_send s) FpgaSend_StateOffset FpgaSend_StateSize (fh_device s)) (\<lambda>(err, rm, d).
     let s = s\<lparr>fpga_send := rm, fh_device := d\<rparr> in
     if err \<noteq> OK then Inr (True, s\<lparr>fh_last_err := err\<rparr>)
     else
       and_then (get (BoolB FpgaSend_send_state) rm) (\<lambda>send_state.
       if send_state \<noteq> 0 then Inr (True, s\<lparr>fh_last_err := OK\<rparr>)
       else
         and_then (get (ByteB FpgaSend_send_num) rm) (\<lambda>send_num.
         if count > uint send_num * 2 * kFpgaSendStateFreq
         then Inr (True, s\<lparr>fh_last_err := ERR_FPGA_SEND_TIMEOUT\<rparr>)
         else and_then (int32_of (count + 1)) (\<lambda>_. Inr (False, s)))))"

partial_function (option) send_loop ::
  "'d DeviceDelegate \<Rightarrow> int \<Rightarrow> 'd FrameDeviceHandle \<Rightarrow> 'd FrameDeviceHandle res option" where
  "send_loop del count s =
     (case send_turn del count s of
        Inl e \<Rightarrow> Some (Inl e)
      | Inr (returns, s) \<Rightarrow> if returns then Some (Inr s) else send_loop del (count + 1) s)"

definition FpgaSendImpl :: "'d DeviceDelegate \<Rightarrow> 'd FrameDeviceHandle \<Rightarrow> 'd FrameDeviceHandle res option" where
  "FpgaSendImpl del s =
     (case send_range del (fpga_send s) FpgaSend_SendOffset FpgaSend_SendSize (fh_device s) of
        Inl e \<Rightarrow> Some (Inl e)
      | Inr (err, d) \<Rightarrow>
          let s = s\<lparr>fh_device := d\<rparr> in
          if err \<noteq> OK then Some (Inr (s\<lparr>fh_last_err := err\<rparr>))
          else
            (case send_range del (fpga_send s) FpgaSend_StateOffset FpgaSend_StateSize (fh_device s) of
               Inl e \<Rightarrow> Some (Inl e)
             | Inr (err, d) \<Rightarrow>
                 let s = s\<lparr>fh_device := d\<rparr> in
                 if err \<noteq> OK then Some (Inr (s\<lparr>fh_last_err := err\<rparr>)) else send_loop del 0 s))"

definition FpgaSend :: "'d DeviceDelegate \<Rightarrow> 'd FrameDeviceHandle \<Rightarrow> 'd FrameDeviceHandle res option" where
  "FpgaSend del s = FpgaSendImpl del (s\<lparr>fh_last_err := OK\<rparr>)"

definition fill_send :: "u8 list \<Rightarrow> u8 \<Rightarrow> 'd FrameDeviceHandle \<Rightarrow> 'd FrameDeviceHandle res" where
  "fill_send data send_num s =
     and_then (FpgaSend_set_frame_data data (fpga_send s)) (\<lambda>rm.
     and_then (put (ByteB FpgaSend_send_num) (ucast send_num) rm) (\<lambda>rm.
     and_then (put (ByteB FpgaSend_bit_num) 120 rm) (\<lambda>rm.
     and_then (BtrDiv (fh_properties s)) (\<lambda>btr_div.
     and_then (put (U16B FpgaSend_btr_div) (ucast btr_div) rm) (\<lambda>rm.
     and_then (put (BoolB FpgaSend_start_send) 1 rm) (\<lambda>rm.
       Inr (s\<lparr>fpga_send := rm\<rparr>)))))))"

definition FpgaSend_data ::
  "'d DeviceDelegate \<Rightarrow> u8 list \<Rightarrow> u8 \<Rightarrow> 'd FrameDeviceHandle \<Rightarrow> 'd FrameDeviceHandle res option" where
  "FpgaSend_data del data send_num s =
     (case fill_send data send_num s of Inl e \<Rightarrow> Some (Inl e) | Inr s \<Rightarrow> FpgaSend del s)"

subsection \<open>The loop ends\<close>

lemma receive_range_send_num:
  assumes "receive_range del rm FpgaSend_StateOffset FpgaSend_StateSize d = Inr (err, rm', d')"
  shows "get (ByteB FpgaSend_send_num) rm' = get (ByteB FpgaSend_send_num) rm" "28 < length (rm_memory rm)"
    "rm_start_addr rm' = rm_start_addr rm" "take 28 (rm_memory rm') = take 28 (rm_memory rm)"
proof -
  obtain b where b: "28 < length (rm_memory rm)" "rm' = rm\<lparr>rm_memory := take 28 (rm_memory rm) @ b\<rparr>"
    using assms by (auto simp: receive_range_def PtrByRelative_def range_defs and_then_Inr_iff check_Inr_iff split: prod.splits)
  show "get (ByteB FpgaSend_send_num) rm' = get (ByteB FpgaSend_send_num) rm"
    using b by (simp add: get_def register_members register_consts nth_append one_byte_value_def load8_def)
  show "28 < length (rm_memory rm)" "rm_start_addr rm' = rm_start_addr rm" "take 28 (rm_memory rm') = take 28 (rm_memory rm)"
    using b by simp_all
qed

definition num_sent :: "RegisterMemory \<Rightarrow> int" where
  "num_sent rm = (case get (ByteB FpgaSend_send_num) rm of Inl e \<Rightarrow> 0 | Inr v \<Rightarrow> uint v)"

lemma send_turn_again:
  assumes "send_turn del count s = Inr (False, t)"
  shows "count \<le> 80 * num_sent (fpga_send s)" "num_sent (fpga_send t) = num_sent (fpga_send s)"
proof -
  obtain err rm d where r: "receive_range del (fpga_send s) FpgaSend_StateOffset FpgaSend_StateSize (fh_device s) = Inr (err, rm, d)"
    "fpga_send t = rm" "num_sent rm = num_sent rm"
    and c: "count \<le> 80 * num_sent rm"
    using assms by (auto simp: send_turn_def and_then_Inr_iff Let_def num_sent_def kFpgaSendStateFreq_def
        split: prod.splits if_splits)
  have "num_sent rm = num_sent (fpga_send s)" using receive_range_send_num(1) [OF r(1)] by (simp add: num_sent_def)
  then show "count \<le> 80 * num_sent (fpga_send s)" "num_sent (fpga_send t) = num_sent (fpga_send s)"
    using r(2) c by simp_all
qed

lemma send_loop_ends:
  "\<exists>r. send_loop del count s = Some r"
proof (induction "nat (80 * num_sent (fpga_send s) + 1 - count)" arbitrary: count s rule: less_induct)
  case less
  show ?case
  proof (cases "send_turn del count s")
    case (Inl e)
    then show ?thesis by (subst send_loop.simps) simp
  next
    case (Inr r)
    show ?thesis
    proof (cases "fst r")
      case True
      then show ?thesis using Inr by (cases r) (subst send_loop.simps, simp)
    next
      case False
      then obtain t where t: "send_turn del count s = Inr (False, t)" using Inr by (cases r) simp
      note again = send_turn_again [OF t]
      have "\<exists>r. send_loop del (count + 1) t = Some r" using again by (intro less.hyps) simp
      then show ?thesis using t by (subst send_loop.simps) simp
    qed
  qed
qed

text \<open>Sending frames ends, whatever the device answers: \<open>FpgaSendImpl\<close> waits for at most
  \<open>80 * send_num + 2\<close> reads of the state.\<close>

theorem FpgaSendImpl_ends: "\<exists>r. FpgaSendImpl del s = Some r"
  using send_loop_ends by (auto simp: FpgaSendImpl_def Let_def split: sum.split)

text \<open>A device whose reads of the state answer \<open>answer 0\<close>, \<open>answer 1\<close>, \<dots>: \<open>stage i d\<close> says that \<open>i\<close>
  reads were answered.\<close>

definition answers :: "'d DeviceDelegate \<Rightarrow> (nat \<Rightarrow> mem) \<Rightarrow> (nat \<Rightarrow> 'd \<Rightarrow> bool) \<Rightarrow> bool" where
  "answers del answer stage \<longleftrightarrow>
     (\<forall>i d b. stage i d \<longrightarrow> length b = 32 \<longrightarrow>
       (\<exists>d'. dd_ReadDevice del (kFpgaSendAddr + 0x1C) b 4 d = Inr (OK, answer i, d') \<and> stage (Suc i) d'))"

text \<open>Bit 0 of the state is cleared when the frames are sent.\<close>

definition sent :: "mem \<Rightarrow> bool" where
  "sent b \<longleftrightarrow> b ! 0 AND 1 = 0"

lemma send_turn_answer:
  assumes "answers del answer stage" and "reg_ok kFpgaSendAddr kFpgaSendSize (fpga_send s)" and "stage k (fh_device s)"
    and "length (answer k) = 32"
  shows "\<exists>rm d. reg_ok kFpgaSendAddr kFpgaSendSize rm \<and> num_sent rm = num_sent (fpga_send s) \<and> stage (Suc k) d \<and>
    send_turn del count s =
      (if sent (answer k) then Inr (True, s\<lparr>fpga_send := rm, fh_device := d, fh_last_err := OK\<rparr>)
       else if count > 80 * num_sent rm
       then Inr (True, s\<lparr>fpga_send := rm, fh_device := d, fh_last_err := ERR_FPGA_SEND_TIMEOUT\<rparr>)
       else and_then (int32_of (count + 1)) (\<lambda>_. Inr (False, s\<lparr>fpga_send := rm, fh_device := d\<rparr>)))"
proof -
  let ?m = "rm_memory (fpga_send s)"
  have m: "length ?m = 60" "rm_start_addr (fpga_send s) = kFpgaSendAddr"
    using assms(2) by (simp_all add: reg_ok_def register_consts)
  obtain d where d: "dd_ReadDevice del (kFpgaSendAddr + 0x1C) (drop 28 ?m) 4 (fh_device s) = Inr (OK, answer k, d)"
    "stage (Suc k) d"
    using assms(1) [unfolded answers_def, rule_format, OF assms(3), of "drop 28 ?m"] m(1) by auto
  define rm where "rm = (fpga_send s)\<lparr>rm_memory := take 28 ?m @ answer k\<rparr>"
  have r: "receive_range del (fpga_send s) FpgaSend_StateOffset FpgaSend_StateSize (fh_device s) = Inr (OK, rm, d)"
    using d(1) m by (simp add: receive_range_def PtrByRelative_def check_def range_defs RegisterMemory_size_def rm_def)
  have num: "num_sent rm = num_sent (fpga_send s)" using receive_range_send_num(1) [OF r] by (simp add: num_sent_def)
  have "reg_ok kFpgaSendAddr kFpgaSendSize rm" using assms(4) m by (simp add: rm_def reg_ok_def register_consts)
  moreover have "get (BoolB FpgaSend_send_state) rm = Inr (of_bool (sent (answer k)))"
    using m assms(4) by (simp add: get_def rm_def register_members register_consts bool_value_def load8_def nth_append sent_def)
  moreover obtain v where "get (ByteB FpgaSend_send_num) rm = Inr v"
    using m assms(4) by (simp add: get_def rm_def register_members register_consts one_byte_value_def load8_def nth_append)
  then have "get (ByteB FpgaSend_send_num) rm = Inr v" "uint v = num_sent rm" by (simp_all add: num_sent_def)
  ultimately show ?thesis using r d(2) num
    by (intro exI [of _ rm] exI [of _ d]) (simp add: send_turn_def Let_def kFpgaSendStateFreq_def)
qed

lemma num_sent_bounds: "0 \<le> num_sent rm" "num_sent rm \<le> 255"
proof -
  have "uint (ucast v :: u32) \<le> 255" for v :: u8
    using uint_lt2p [of v] by (simp add: unsigned_ucast_eq take_bit_int_eq_self)
  then show "0 \<le> num_sent rm" "num_sent rm \<le> 255"
    by (auto simp: num_sent_def get_def one_byte_value_def and_then_def split: sum.splits)
qed

definition send_outcome ::
  "(nat \<Rightarrow> mem) \<Rightarrow> (nat \<Rightarrow> 'd \<Rightarrow> bool) \<Rightarrow> nat \<Rightarrow> int \<Rightarrow> 'd FrameDeviceHandle \<Rightarrow> nat \<Rightarrow> bool" where
  "send_outcome answer stage k n t m \<longleftrightarrow>
     stage m (fh_device t) \<and> k < m \<and> int m \<le> 80 * n + 2 \<and> (\<forall>j. k \<le> j \<longrightarrow> j < m - 1 \<longrightarrow> \<not> sent (answer j)) \<and>
     (if sent (answer (m - 1)) then fh_last_err t = OK
      else fh_last_err t = ERR_FPGA_SEND_TIMEOUT \<and> int m = 80 * n + 2)"

lemma send_loop_answer:
  assumes "answers del answer stage" and "\<forall>i. length (answer i) = 32"
    and "reg_ok kFpgaSendAddr kFpgaSendSize (fpga_send s)" and "stage k (fh_device s)"
    and "int k \<le> 80 * num_sent (fpga_send s) + 1"
  shows "\<exists>t m. send_loop del (int k) s = Some (Inr t) \<and> send_outcome answer stage k (num_sent (fpga_send s)) t m"
  using assms(3-)
proof (induction "nat (80 * num_sent (fpga_send s) + 1 - int k)" arbitrary: k s rule: less_induct)
  case less
  let ?n = "num_sent (fpga_send s)"
  obtain rm d where turn: "reg_ok kFpgaSendAddr kFpgaSendSize rm" "num_sent rm = ?n" "stage (Suc k) d"
    "send_turn del (int k) s =
      (if sent (answer k) then Inr (True, s\<lparr>fpga_send := rm, fh_device := d, fh_last_err := OK\<rparr>)
       else if int k > 80 * num_sent rm
       then Inr (True, s\<lparr>fpga_send := rm, fh_device := d, fh_last_err := ERR_FPGA_SEND_TIMEOUT\<rparr>)
       else and_then (int32_of (int k + 1)) (\<lambda>_. Inr (False, s\<lparr>fpga_send := rm, fh_device := d\<rparr>)))"
    using send_turn_answer [OF assms(1) less.prems(1,2), of "int k"] assms(2) by blast
  note loop = send_loop.simps [of del "int k" s]
  consider "sent (answer k)" | "\<not> sent (answer k)" "int k > 80 * ?n" | "\<not> sent (answer k)" "\<not> int k > 80 * ?n"
    by blast
  then show ?case
  proof cases
    case 1
    then have "send_loop del (int k) s = Some (Inr (s\<lparr>fpga_send := rm, fh_device := d, fh_last_err := OK\<rparr>))"
      using turn(4) by (simp add: loop)
    moreover have "send_outcome answer stage k ?n (s\<lparr>fpga_send := rm, fh_device := d, fh_last_err := OK\<rparr>) (Suc k)"
      using 1 turn(3) less.prems(3) by (simp add: send_outcome_def)
    ultimately show ?thesis by blast
  next
    case 2
    then have "send_loop del (int k) s =
        Some (Inr (s\<lparr>fpga_send := rm, fh_device := d, fh_last_err := ERR_FPGA_SEND_TIMEOUT\<rparr>))"
      using turn(2,4) by (simp add: loop)
    moreover have "send_outcome answer stage k ?n
        (s\<lparr>fpga_send := rm, fh_device := d, fh_last_err := ERR_FPGA_SEND_TIMEOUT\<rparr>) (Suc k)"
      using 2 turn(3) less.prems(3) by (simp add: send_outcome_def)
    ultimately show ?thesis by blast
  next
    case 3
    let ?t = "s\<lparr>fpga_send := rm, fh_device := d\<rparr>"
    have "int32_of (int k + 1) = Inr (int k + 1)" using 3 num_sent_bounds [of "fpga_send s"] by (simp add: in_int32_def)
    then have "send_turn del (int k) s = Inr (False, ?t)" using turn(2,4) 3 by (simp only: if_False and_then_simps)
    then have eq: "send_loop del (int k) s = send_loop del (int (Suc k)) ?t" by (simp add: loop add.commute)
    have "nat (80 * num_sent (fpga_send ?t) + 1 - int (Suc k)) < nat (80 * ?n + 1 - int k)"
      using 3 turn(2) by simp
    from less.hyps [OF this] turn 3
    obtain t m where t: "send_loop del (int (Suc k)) ?t = Some (Inr t)" "send_outcome answer stage (Suc k) ?n t m"
      by auto
    have "send_outcome answer stage k ?n t m"
      unfolding send_outcome_def
    proof (intro conjI allI impI)
      fix j assume "k \<le> j" "j < m - 1"
      then show "\<not> sent (answer j)" using t(2) 3 by (cases "j = k") (auto simp: send_outcome_def)
    qed (use t(2) in \<open>auto simp: send_outcome_def\<close>)
    then show ?thesis using t(1) eq by auto
  qed
qed

text \<open>What sending keeps, and that it returns.\<close>

definition handle_ok :: "('d \<Rightarrow> bool) \<Rightarrow> 'd FrameDeviceHandle \<Rightarrow> bool" where
  "handle_ok good s \<longleftrightarrow> good (fh_device s) \<and> reg_ok kFpgaSendAddr kFpgaSendSize (fpga_send s)"

lemma fill_send_ok:
  assumes "handle_ok good s" and "length data = 20"
  shows "\<exists>t. fill_send data send_num s = Inr t \<and> handle_ok good t \<and> num_sent (fpga_send t) = uint send_num"
proof -
  let ?rm = "fpga_send s"
  have rm: "length (rm_memory ?rm) = 60" "rm_start_addr ?rm = kFpgaSendAddr"
    using assms(1) by (simp_all add: handle_ok_def reg_ok_def register_consts)
  obtain rm1 where rm1: "FpgaSend_set_frame_data data ?rm = Inr rm1" "rm_start_addr rm1 = kFpgaSendAddr"
    "memcpy_to (rm_memory ?rm) 4 data = Inr (rm_memory rm1)"
    using set_region_get [of 4 ?rm data] rm assms(2) by (auto simp: FpgaSend_set_frame_data_def register_consts)
  have "length (rm_memory rm1) = 60" using length_memcpy_to [OF rm1(3)] rm by simp
  then have ok1: "reg_ok kFpgaSendAddr kFpgaSendSize rm1" using rm1(2) by (simp add: reg_ok_def register_consts)
  obtain dv where dv: "BtrDiv (fh_properties s) = Inr dv" using BtrDiv_eq by blast
  let ?xs = "[(ByteB FpgaSend_send_num, ucast send_num), (ByteB FpgaSend_bit_num, 120),
    (U16B FpgaSend_btr_div, ucast dv), (BoolB FpgaSend_start_send, 1)] :: (bind \<times> u32) list"
  have layout: "layout_ok kFpgaSendSize FpgaSendRegister_binds"
    using register_classes_ok by (simp add: register_classes_def)
  have bounds: "list_all (\<lambda>(b, v). b \<in> set FpgaSendRegister_binds \<and> v \<le> bind_bound b) ?xs"
    using bound_simps by (simp add: FpgaSendRegister_binds_def)
  have eq: "fill_send data send_num s = and_then (put_list ?xs rm1) (\<lambda>rm. Inr (s\<lparr>fpga_send := rm\<rparr>))"
    using rm1(1) dv by (simp add: fill_send_def and_then_assoc)
  have "distinct (map fst ?xs)" by (simp add: register_members register_consts)
  from frame_put_list [OF ok1 layout this bounds eq]
  obtain rm2 where "fill_send data send_num s = Inr (s\<lparr>fpga_send := rm2\<rparr>)" "reg_ok kFpgaSendAddr kFpgaSendSize rm2"
    "holds_list ?xs rm2" by blast
  moreover from this(3) have "num_sent rm2 = uint send_num"
    using uint_lt2p [of send_num]
    by (simp add: holds_list_def num_sent_def unsigned_ucast_eq take_bit_int_eq_self)
  ultimately show ?thesis using assms(1) by (auto simp: handle_ok_def)
qed

context frame_device_delegate
begin

lemma receive_state_ok:
  assumes "handle_ok inv s"
  shows "\<exists>e rm d. receive_range del (fpga_send s) FpgaSend_StateOffset FpgaSend_StateSize (fh_device s) = Inr (e, rm, d) \<and>
    inv d \<and> reg_ok kFpgaSendAddr kFpgaSendSize rm"
proof -
  have m: "length (rm_memory (fpga_send s)) = 60" "rm_start_addr (fpga_send s) = kFpgaSendAddr" "inv (fh_device s)"
    using assms by (simp_all add: handle_ok_def reg_ok_def register_consts)
  have "\<exists>e b' d'. dd_ReadDevice del (kFpgaSendAddr + word_of_int FpgaSend_StateOffset)
      (drop 28 (rm_memory (fpga_send s))) FpgaSend_StateSize (fh_device s) = Inr (e, b', d') \<and> inv d' \<and>
      length b' = length (drop 28 (rm_memory (fpga_send s)))"
    using m by (intro read_part send_blocks) (simp_all add: range_defs)
  then obtain e b' d' where "dd_ReadDevice del (kFpgaSendAddr + word_of_int FpgaSend_StateOffset)
      (drop 28 (rm_memory (fpga_send s))) FpgaSend_StateSize (fh_device s) = Inr (e, b', d')" "inv d'" "length b' = 32"
    using m(1) by auto
  then show ?thesis using m
    by (auto simp: receive_range_def PtrByRelative_def check_def range_defs RegisterMemory_size_def reg_ok_def register_consts)
qed

lemma send_turn_ok:
  assumes "handle_ok inv s" and "0 \<le> count" and "count \<le> 80 * num_sent (fpga_send s) + 1"
  shows "\<exists>r t. send_turn del count s = Inr (r, t) \<and> handle_ok inv t"
proof -
  obtain e rm d where r: "receive_range del (fpga_send s) FpgaSend_StateOffset FpgaSend_StateSize (fh_device s) = Inr (e, rm, d)"
    "inv d" "reg_ok kFpgaSendAddr kFpgaSendSize rm"
    using receive_state_ok [OF assms(1)] by blast
  have "\<exists>v. get (BoolB FpgaSend_send_state) rm = Inr v" "\<exists>v. get (ByteB FpgaSend_send_num) rm = Inr v"
    using r(3) by (simp_all add: reg_ok_def get_def register_members register_consts bool_value_def one_byte_value_def load8_def Let_def)
  moreover have "int32_of (count + 1) = Inr (count + 1)"
    using assms(2,3) num_sent_bounds [of "fpga_send s"] by (simp add: in_int32_def)
  ultimately show ?thesis using r by (auto simp: send_turn_def Let_def handle_ok_def simp del: int32_of_Inr_iff)
qed

lemma send_loop_ok:
  assumes "handle_ok inv s" and "0 \<le> count" and "count \<le> 80 * num_sent (fpga_send s) + 1"
  shows "\<exists>t. send_loop del count s = Some (Inr t) \<and> handle_ok inv t"
  using assms
proof (induction "nat (80 * num_sent (fpga_send s) + 1 - count)" arbitrary: count s rule: less_induct)
  case less
  obtain r t where t: "send_turn del count s = Inr (r, t)" "handle_ok inv t"
    using send_turn_ok [OF less.prems] by blast
  show ?case
  proof (cases r)
    case True
    then show ?thesis using t by (subst send_loop.simps) simp
  next
    case False
    then have "send_turn del count s = Inr (False, t)" using t(1) by simp
    note again = send_turn_again [OF this]
    have "\<exists>u. send_loop del (count + 1) t = Some (Inr u) \<and> handle_ok inv u"
      using again t(2) less.prems(2) False by (intro less.hyps) simp_all
    then show ?thesis using t(1) False by (subst send_loop.simps) simp
  qed
qed

lemma send_command_ok:
  assumes "handle_ok inv s" and "off = FpgaSend_SendOffset \<and> n = FpgaSend_SendSize \<or> off = FpgaSend_StateOffset \<and> n = FpgaSend_StateSize"
  shows "\<exists>e d. send_range del (fpga_send s) off n (fh_device s) = Inr (e, d) \<and> handle_ok inv (s\<lparr>fh_device := d\<rparr>)"
proof -
  have reg: "inv (fh_device s)" "reg_ok kFpgaSendAddr kFpgaSendSize (fpga_send s)" using assms(1) by (simp_all add: handle_ok_def)
  have blk: "register (kFpgaSendAddr + word_of_int off) n" using assms(2) send_blocks by auto
  have "\<exists>e d. send_range del (fpga_send s) off n (fh_device s) = Inr (e, d) \<and> inv d"
    by (rule send_range_ok [OF reg blk]) (use assms(2) in \<open>auto simp: range_defs register_consts\<close>)
  then show ?thesis using reg(2) by (auto simp: handle_ok_def)
qed

lemma FpgaSendImpl_ok:
  assumes "handle_ok inv s"
  shows "\<exists>t. FpgaSendImpl del s = Some (Inr t) \<and> handle_ok inv t"
proof -
  obtain e1 d1 where d1: "send_range del (fpga_send s) FpgaSend_SendOffset FpgaSend_SendSize (fh_device s) = Inr (e1, d1)"
    "handle_ok inv (s\<lparr>fh_device := d1\<rparr>)" using send_command_ok [OF assms] by blast
  obtain e2 d2 where d2: "send_range del (fpga_send s) FpgaSend_StateOffset FpgaSend_StateSize d1 = Inr (e2, d2)"
    "handle_ok inv (s\<lparr>fh_device := d2\<rparr>)" using send_command_ok [OF d1(2), of FpgaSend_StateOffset FpgaSend_StateSize] by auto
  obtain t where "send_loop del 0 (s\<lparr>fh_device := d2\<rparr>) = Some (Inr t)" "handle_ok inv t"
    using send_loop_ok [OF d2(2), of 0] num_sent_bounds [of "fpga_send s"] by auto
  then show ?thesis using d1 d2 by (auto simp: FpgaSendImpl_def handle_ok_def Let_def)
qed

lemma FpgaSend_data_ok:
  assumes "handle_ok inv s" and "length data = 20"
  shows "\<exists>t. FpgaSend_data del data send_num s = Some (Inr t) \<and> handle_ok inv t"
proof -
  obtain u where u: "fill_send data send_num s = Inr u" "handle_ok inv u" using fill_send_ok [OF assms] by blast
  have "handle_ok inv (u\<lparr>fh_last_err := OK\<rparr>)" using u(2) by (simp add: handle_ok_def)
  from FpgaSendImpl_ok [OF this] show ?thesis using u(1) by (simp add: FpgaSend_data_def FpgaSend_def)
qed

end

text \<open>Sending 20 bytes over the USB port, any number of times, comes back and no CHECK or DCHECK fails on the
  way, whatever the device answers; the port and the register are ready for the next call.\<close>

theorem fpga_send_safe:
  assumes "port_ok (fh_device s)" and "reads_bounded win" and "reg_ok kFpgaSendAddr kFpgaSendSize (fpga_send s)"
    and "length data = 20"
  shows "\<exists>t. FpgaSend_data (UsbPortDeviceDelegate enum win) data send_num s = Some (Inr t) \<and> port_ok (fh_device t) \<and>
    reg_ok kFpgaSendAddr kFpgaSendSize (fpga_send t)"
  using frame_device_usb.FpgaSend_data_ok [of win s data enum send_num] assms by (auto simp: handle_ok_def)

lemma fpga_send_safe_witness:
  "\<exists>t. FpgaSend_data (UsbPortDeviceDelegate (Pair None) sample_windows) (replicate 20 0) 3
      \<lparr>fpga_send = \<lparr>rm_memory = replicate 60 0, rm_start_addr = kFpgaSendAddr\<rparr>,
       fh_properties = default_frame, fh_last_err = OK, fh_device = sample_port\<rparr> = Some (Inr t)"
  using fpga_send_safe [of "\<lparr>fpga_send = \<lparr>rm_memory = replicate 60 0, rm_start_addr = kFpgaSendAddr\<rparr>,
       fh_properties = default_frame, fh_last_err = OK, fh_device = sample_port\<rparr>" sample_windows "replicate 20 0" "Pair None" 3]
    sample_port_ok sample_windows_bounded
  by (auto simp: reg_ok_def register_consts)


text \<open>A device that has sent the frames at the given read.\<close>

definition sending_device :: "nat \<Rightarrow> nat DeviceDelegate" where
  "sending_device n = undefined\<lparr>dd_WriteDevice := \<lambda>addr b sz d. Inr (OK, d),
     dd_ReadDevice := \<lambda>addr b sz d. Inr (OK, replicate 32 (if d < n then 1 else 0), Suc d)\<rparr>"

definition sample_handle :: "nat FrameDeviceHandle" where
  "sample_handle = \<lparr>fpga_send = \<lparr>rm_memory = replicate 60 0, rm_start_addr = kFpgaSendAddr\<rparr>,
     fh_properties = default_frame, fh_last_err = OK, fh_device = 0\<rparr>"


end
