(* ===== verification/Device_Config.thy ===== *)
theory Device_Config
  imports Osc_Device Frame_Device Device_Base
begin

text \<open>
  From a configuration to the properties of the devices: the default configuration and the access to
  its parts (canscope/device/config_util.cc), the values of a configuration, and how the members of
  \<open>OscDeviceProperty\<close> and \<open>FrameDeviceProperty\<close> read them through the property store.

  Of \<open>base::Value\<close> the configurations have integers, doubles and booleans in one dictionary per
  device.  The parsing of the JSON text is the library's.
\<close>

subsection \<open>Values and members\<close>

datatype val = VInt int | VReal real | VBool bool

fun GetAsInteger :: "val \<Rightarrow> int option" where
  "GetAsInteger (VInt i) = Some i" | "GetAsInteger _ = None"

fun GetAsDouble :: "val \<Rightarrow> real option" where
  "GetAsDouble (VInt i) = Some (of_int i)" | "GetAsDouble (VReal r) = Some r" | "GetAsDouble _ = None"

fun GetAsBoolean :: "val \<Rightarrow> bool option" where
  "GetAsBoolean (VBool b) = Some b" | "GetAsBoolean _ = None"

text \<open>What a member holds; an enumeration member holds its integer.\<close>

datatype cell = CInt int | CReal real | CBool bool | CU16 u16

datatype kind = KInt | KReal | KBool | KU16

fun kind_get :: "kind \<Rightarrow> val \<Rightarrow> cell option" where
  "kind_get KInt v = map_option CInt (GetAsInteger v)"
| "kind_get KReal v = map_option CReal (GetAsDouble v)"
| "kind_get KBool v = map_option CBool (GetAsBoolean v)"
| "kind_get KU16 v = map_option (\<lambda>i. CU16 (uint16_of_store i)) (GetAsInteger v)"

fun cell_make :: "cell \<Rightarrow> val" where
  "cell_make (CInt i) = VInt i" | "cell_make (CReal r) = VReal r" | "cell_make (CBool b) = VBool b"
| "cell_make (CU16 w) = VInt (uint w)"

definition osc_kinds :: "kind list" where
  "osc_kinds =
     [KInt, KReal, KInt, KInt, KReal, KInt, KInt, KReal, KInt, KInt, KReal, KReal, KInt, KInt, KInt, KInt,
      KInt, KReal, KReal]"

definition frame_kinds :: "kind list" where
  "frame_kinds = [KBool, KBool, KU16, KReal, KInt, KInt]"

type_synonym store = "(val, cell) world"

text \<open>The store of a device with its members, at \<open>base\<close> and behind it; the members have no value yet.\<close>

definition store_new :: "kind list \<Rightarrow> ptr \<Rightarrow> nat \<Rightarrow> store" where
  "store_new kinds base thread =
     \<lparr>w_prefs = [], w_observers = Map.empty, w_checker = None,
      w_members = (\<lambda>p. if base \<le> p \<and> p < base + length kinds
        then Some (StoreMember_new (CInt 0) (kind_get (kinds ! (p - base))) cell_make) else None),
      w_events = [], w_thread = thread, w_has_loop = True\<rparr>"

fun read_cells :: "ptr list \<Rightarrow> store \<Rightarrow> (cell list \<times> store) res" where
  "read_cells [] w = Inr ([], w)"
| "read_cells (p # ps) w =
     and_then (Member_value p w) (\<lambda>(c, w). and_then (read_cells ps w) (\<lambda>(cs, w). Inr (c # cs, w)))"

fun cell_int :: "cell \<Rightarrow> int" where
  "cell_int (CInt i) = i" | "cell_int _ = 0"

fun cell_real :: "cell \<Rightarrow> real" where
  "cell_real (CReal r) = r" | "cell_real _ = 0"

fun cell_bool :: "cell \<Rightarrow> bool" where
  "cell_bool (CBool b) = b" | "cell_bool _ = False"

fun cell_u16 :: "cell \<Rightarrow> u16" where
  "cell_u16 (CU16 w) = w" | "cell_u16 _ = 0"

text \<open>An integer that is no value of the enumeration makes the behaviour of what follows
  undefined: the tables are indexed with it.\<close>

definition enum_of :: "'e list \<Rightarrow> int \<Rightarrow> 'e res" where
  "enum_of es i = check Undefined (0 \<le> i \<and> i < int (length es)) (Inr (es ! nat i))"

definition time_bases :: "TimeBase list" where
  "time_bases = [k1us, k2us, k5us, k10us, k20us, k50us, k100us, k200us, k500us, k1ms, k2ms, k5ms, k10ms,
     k20ms, k50ms, k100ms, k200ms, k500ms, k1s]"

definition volt_ranges :: "VoltRange list" where
  "volt_ranges = [k1V, k2V, k4V, k8V, k20V, k50V]"

definition trigger_sources :: "TriggerSource list" where
  "trigger_sources = [kTriggerSourceCANH, kTriggerSourceCANL, kTriggerSourceCANDIFF, kTriggerSourceCANRxD,
     kTriggerSourceCANTxD, kTriggerSourceFrameStart, kTriggerSourceExernal]"

definition trigger_types :: "TriggerType list" where
  "trigger_types = [kRisingEdge, kFallingEdge, kDoubleEdge, kPositivePulse, kNegativePulse]"

definition osc_of :: "cell list \<Rightarrow> OscProperties res" where
  "osc_of cs =
     (let i = (\<lambda>k. cell_int (cs ! k)); r = (\<lambda>k. cell_real (cs ! k)) in
      and_then (enum_of volt_ranges (i 0)) (\<lambda>range_h.
      and_then (enum_of [kDC, kAC] (i 2)) (\<lambda>coupling_h.
      and_then (enum_of volt_ranges (i 3)) (\<lambda>range_l.
      and_then (enum_of [kDC, kAC] (i 5)) (\<lambda>coupling_l.
      and_then (enum_of volt_ranges (i 6)) (\<lambda>range_diff.
      and_then (enum_of [kSub, kAverage] (i 8)) (\<lambda>ctrl.
      and_then (enum_of time_bases (i 9)) (\<lambda>base.
      and_then (enum_of trigger_sources (i 12)) (\<lambda>source.
      and_then (enum_of trigger_types (i 13)) (\<lambda>type.
      and_then (enum_of [kAuto, kNormal] (i 14)) (\<lambda>mode.
      and_then (enum_of [kDefault, kStrengthen] (i 15)) (\<lambda>sens.
      and_then (enum_of [kGreater, kLess, kEqual] (i 16)) (\<lambda>cmp.
        Inr \<lparr>range_can_h = range_h, offset_can_h = r 1, coupling_can_h = coupling_h, range_can_l = range_l,
             offset_can_l = r 4, coupling_can_l = coupling_l, range_can_diff = range_diff,
             offset_can_diff = r 7, diff_ctrl = ctrl, time_base = base, time_offset = r 10, auto_time = r 11,
             trigger_source = source, trigger_type = type, trigger_mode = mode, trigger_sens = sens,
             compare_type = cmp, trigger_volt = r 17, time_param = r 18\<rparr>)))))))))))))"

definition frame_of :: "cell list \<Rightarrow> FrameProperties" where
  "frame_of cs =
     \<lparr>device_enable = cell_bool (cs ! 0), ack_enable = cell_bool (cs ! 1), sja_btr = cell_u16 (cs ! 2),
      bit_sample_rate = cell_int (cs ! 4), frame_bit = cell_int (cs ! 5),
      frame_storage_percent = cell_real (cs ! 3)\<rparr>"

definition read_osc :: "ptr \<Rightarrow> store \<Rightarrow> (OscProperties \<times> store) res" where
  "read_osc base w =
     and_then (read_cells [base..<base + length osc_kinds] w) (\<lambda>(cs, w). and_then (osc_of cs) (\<lambda>p. Inr (p, w)))"

definition read_frame :: "ptr \<Rightarrow> store \<Rightarrow> (FrameProperties \<times> store) res" where
  "read_frame base w =
     and_then (read_cells [base..<base + length frame_kinds] w) (\<lambda>(cs, w). Inr (frame_of cs, w))"

subsection \<open>The default configuration\<close>

text \<open>A configuration: a dictionary whose entries are dictionaries, or something else.\<close>

type_synonym config = "(string \<times> val pref) list"

definition TakeSubDict :: "config option \<Rightarrow> string \<Rightarrow> ((string \<times> val) list option \<times> config option)" where
  "TakeSubDict value key =
     (case value of
        None \<Rightarrow> (None, None)
      | Some dict_value \<Rightarrow>
          (case map_of dict_value key of
             Some (Dictionary sub_dict) \<Rightarrow> (Some sub_dict, Some (map_erase key dict_value))
           | _ \<Rightarrow> (None, value)))"

definition GetSubDict :: "config option \<Rightarrow> string \<Rightarrow> (string \<times> val) list option" where
  "GetSubDict value key =
     (case value of
        None \<Rightarrow> None
      | Some dict_value \<Rightarrow>
          (case map_of dict_value key of Some (Dictionary sub_dict) \<Rightarrow> Some sub_dict | _ \<Rightarrow> None))"

definition default_osc_dict :: "(string \<times> val) list" where
  "default_osc_dict =
     [(''CANH.Range'', VInt 3), (''CANH.Offset'', VReal 0), (''CANH.Coupling'', VInt 1),
      (''CANL.Range'', VInt 3), (''CANL.Offset'', VReal 0), (''CANL.Coupling'', VInt 1),
      (''CANDIFF.Range'', VInt 3), (''CANDIFF.Offset'', VReal 0), (''DiffCtrl'', VInt 0), (''Time.Base'', VInt 4),
      (''Time.Offset'', VReal 0), (''Trigger.AutoTime'', VReal 100), (''Trigger.Source'', VInt 2),
      (''Trigger.Type'', VInt 0), (''Trigger.Mode'', VInt 0), (''Trigger.Sens'', VInt 0),
      (''Trigger.Compare'', VInt 0), (''Trigger.Volt'', VReal 0), (''TimeParam'', VReal 1)]"

definition default_frame_dict :: "(string \<times> val) list" where
  "default_frame_dict =
     [(''DeviceEnable'', VBool False), (''AckEnable'', VBool True), (''SjaBtr'', VInt 5184),
      (''FrameStoragePercent'', VReal 50), (''BitSampleRate'', VInt 5000), (''BitNum'', VInt 100)]"

definition kDefaultCANScopeConfig :: config where
  "kDefaultCANScopeConfig = [(''OscDevice'', Dictionary default_osc_dict), (''FrameDevice'', Dictionary default_frame_dict)]"

definition GetDefaultConfig :: "config option" where
  "GetDefaultConfig = Some kDefaultCANScopeConfig"

definition GetDefaultOscDeviceConfig :: "(string \<times> val) list option" where
  "GetDefaultOscDeviceConfig = fst (TakeSubDict GetDefaultConfig kOscDevice)"

definition GetDefaultFrameDeviceConfig :: "(string \<times> val) list option" where
  "GetDefaultFrameDeviceConfig = fst (TakeSubDict GetDefaultConfig kFrameDevice)"

subsection \<open>Reading the members\<close>

definition cell_ready :: "store \<Rightarrow> ptr \<Rightarrow> cell \<Rightarrow> bool" where
  "cell_ready w p c \<longleftrightarrow>
     (\<exists>m v. w_members w p = Some m \<and> m_has_prefs m \<and> GetValue (m_name m) w = Some v \<and> m_get m v = Some c)"

lemma Member_value_cell:
  assumes "store_ok w" and "cell_ready w p c"
  shows "\<exists>w'. Member_value p w = Inr (c, w') \<and> store_ok w' \<and> w_prefs w' = w_prefs w \<and> w_events w' = w_events w \<and>
    (\<forall>q d. cell_ready w q d \<longrightarrow> cell_ready w' q d)"
proof -
  obtain m v where m: "w_members w p = Some m" "m_has_prefs m" "GetValue (m_name m) w = Some v" "m_get m v = Some c"
    using assms(2) by (auto simp: cell_ready_def)
  let ?w = "put_member p (m\<lparr>m_value := c\<rparr>) w"
  have "Member_value p w = Inr (c, ?w)" by (rule Member_value_reads [OF assms(1) m])
  moreover have "store_ok ?w" by (rule store_ok_put_member [OF assms(1) m(1)]) simp_all
  moreover have "cell_ready ?w q d" if "cell_ready w q d" for q d
    using that m(1) by (auto simp: cell_ready_def)
  ultimately show ?thesis by (intro exI [of _ ?w]) simp
qed

lemma read_cells_ok:
  assumes "store_ok w" and "list_all2 (cell_ready w) ps cs"
  shows "\<exists>w'. read_cells ps w = Inr (cs, w') \<and> store_ok w' \<and> w_prefs w' = w_prefs w \<and> w_events w' = w_events w \<and>
    (\<forall>q d. cell_ready w q d \<longrightarrow> cell_ready w' q d)"
  using assms
proof (induction ps arbitrary: cs w)
  case Nil
  then show ?case by simp
next
  case (Cons p ps)
  obtain c ds where cs: "cs = c # ds" "cell_ready w p c" "list_all2 (cell_ready w) ps ds"
    using Cons.prems(2) by (cases cs) auto
  obtain w1 where w1: "Member_value p w = Inr (c, w1)" "store_ok w1" "w_prefs w1 = w_prefs w" "w_events w1 = w_events w"
    "\<forall>q d. cell_ready w q d \<longrightarrow> cell_ready w1 q d"
    using Member_value_cell [OF Cons.prems(1) cs(2)] by blast
  have "list_all2 (cell_ready w1) ps ds" using cs(3) w1(5) by (auto elim: list_all2_mono)
  from Cons.IH [OF w1(2) this] obtain w2 where w2: "read_cells ps w1 = Inr (ds, w2)" "store_ok w2"
    "w_prefs w2 = w_prefs w1" "w_events w2 = w_events w1" "\<forall>q d. cell_ready w1 q d \<longrightarrow> cell_ready w2 q d"
    by blast
  then show ?case using w1 cs(1) by auto
qed

text \<open>What \<open>Reset\<close> keeps of a dictionary, and what \<open>Init\<close> keeps of the members.\<close>

lemma map_of_fold_put:
  "map_keys_ok xs \<Longrightarrow>
     map_of (fold (\<lambda>(key, value). map_put key value) dict xs) = map_of xs ++ map_of (rev dict) \<and>
     map_keys_ok (fold (\<lambda>(key, value). map_put key value) dict xs)"
proof (induction dict arbitrary: xs)
  case (Cons x dict)
  obtain k v where x: "x = (k, v)" by (cases x)
  from Cons.IH [OF map_keys_ok_put [OF Cons.prems]] show ?case
    by (auto simp: x map_of_put [OF Cons.prems] map_add_def fun_eq_iff split: option.split)
qed simp

lemma Reset_dict:
  assumes "distinct (map fst dict)"
  shows "map_of (w_prefs (Reset dict w)) = map_of dict" "map_keys_ok (w_prefs (Reset dict w))"
proof -
  have "map_keys_ok ([] :: (string \<times> 'b) list)" by (simp add: map_keys_ok_def)
  moreover have "map_of (rev dict) = map_of dict"
    by (subst map_of_inject_set) (use assms in \<open>simp_all flip: rev_map\<close>)
  ultimately show
    "map_of (w_prefs (Reset dict w)) = map_of dict" "map_keys_ok (w_prefs (Reset dict w))"
    using map_of_fold_put [of "[]" dict] by (simp_all add: Reset_def)
qed

definition gets_kept :: "('v, 'a) world \<Rightarrow> ('v, 'a) world \<Rightarrow> bool" where
  "gets_kept w w' \<longleftrightarrow>
     (\<forall>p. map_option m_get (w_members w' p) = map_option m_get (w_members w p))"

lemma Init_gets: "Init p key obs w = Inr w' \<Longrightarrow> gets_kept w w'"
  by (auto simp: gets_kept_def Init_def with_member_def check_Inr_iff AddPrefObserver_def Let_def
      split: option.splits if_splits)

lemma init_members_gets:
  assumes "init_members p names w = Inr w'"
  shows "gets_kept w w'"
  unfolding init_members_def
proof (rule for_each_invariant [where P = "gets_kept w"])
  show "for_each (\<lambda>(q, name). Init q name False) (zip [p..<p + length names] names) w = Inr w'"
    using assms by (simp add: init_members_def)
  show "gets_kept w w" by (simp add: gets_kept_def)
  fix x s t
  assume "gets_kept w s" and "(case x of (q, name) \<Rightarrow> Init q name False) s = Inr t"
  then show "gets_kept w t" using Init_gets by (cases x) (fastforce simp: gets_kept_def)
qed

text \<open>The values of a dictionary under given names, as the members hold them.\<close>

definition dict_cells :: "kind list \<Rightarrow> string list \<Rightarrow> (string \<times> val) list \<Rightarrow> cell list \<Rightarrow> bool" where
  "dict_cells kinds names dict cs \<longleftrightarrow>
     list_all2 (\<lambda>(k, name) c. \<exists>v. map_of dict name = Some v \<and> kind_get k v = Some c) (zip kinds names) cs"

lemma members_read:
  assumes dict: "distinct (map fst dict)" "dict_cells kinds names dict cs"
    and names: "length kinds = length names" "'''' \<notin> set names"
  shows "\<exists>w w'. init_members base names (Reset dict (store_new kinds base thread)) = Inr w \<and> store_ok w \<and>
    map_of (w_prefs w) = map_of dict \<and> w_events w = [] \<and>
    read_cells [base..<base + length names] w = Inr (cs, w') \<and> store_ok w' \<and> w_prefs w' = w_prefs w"
proof -
  let ?w = "Reset dict (store_new kinds base thread)"
  have prefs: "map_of (w_prefs ?w) = map_of dict" "map_keys_ok (w_prefs ?w)" by (rule Reset_dict [OF dict(1)])+
  have ok: "store_ok ?w"
    using prefs(2) by (auto simp: store_ok_def Reset_def store_new_def observers_ok_def member_ok_def
        StoreMember_new_def IsOnCorrectThread_def)
  have cell: "\<exists>v. map_of dict (names ! i) = Some v \<and> kind_get (kinds ! i) v = Some (cs ! i)"
    and len: "length cs = length names" if "i < length names" for i
    using dict(2) names(1) that by (auto simp: dict_cells_def list_all2_conv_all_nth)
  have keys: "\<forall>name \<in> set names. HasPrefPath name ?w \<and> name \<noteq> ''''"
    using cell names(2) prefs(1) by (fastforce simp: HasPrefPath_def GetValue_def in_set_conv_nth)
  have fresh: "\<forall>q. base \<le> q \<and> q < base + length names \<longrightarrow> fresh_member ?w q"
    using names(1) by (auto simp: fresh_member_def Reset_def store_new_def observers_of_def StoreMember_new_def)
  obtain w where w: "init_members base names ?w = Inr w" "store_ok w" "w_prefs w = w_prefs ?w" "w_events w = w_events ?w"
    "\<forall>i < length names. named_member w (base + i) (names ! i)"
    using init_members_ok [OF ok keys fresh] by blast
  have "cell_ready w (base + i) (cs ! i)" if i: "i < length names" for i
  proof -
    obtain m where m: "w_members w (base + i) = Some m" "m_name m = names ! i" "m_has_prefs m"
      using w(5) i unfolding named_member_def by blast
    have "map_option m_get (w_members w (base + i)) = Some (kind_get (kinds ! i))"
      using init_members_gets [OF w(1)] i names(1)
      by (simp add: gets_kept_def Reset_def store_new_def StoreMember_new_def)
    then show ?thesis using m cell [OF i] prefs(1) w(3) by (auto simp: cell_ready_def GetValue_def)
  qed
  then have "list_all2 (cell_ready w) [base..<base + length names] cs"
    using dict(2) names(1) by (auto simp: dict_cells_def list_all2_conv_all_nth)
  from read_cells_ok [OF w(2) this] show ?thesis
    using w prefs(1) by (auto simp: Reset_def store_new_def)
qed

subsection \<open>From a configuration to the properties\<close>

lemma frame_names_ok: "'''' \<notin> set frame_names" "length frame_kinds = length frame_names"
  by (simp_all add: frame_names_def frame_kinds_def property_names)

lemma osc_names_kinds: "length osc_kinds = length osc_names"
  by (simp add: osc_names_def osc_kinds_def)

definition default_osc_cells :: "cell list" where
  "default_osc_cells =
     [CInt 3, CReal 0, CInt 1, CInt 3, CReal 0, CInt 1, CInt 3, CReal 0, CInt 0, CInt 4, CReal 0, CReal 100,
      CInt 2, CInt 0, CInt 0, CInt 0, CInt 0, CReal 0, CReal 1]"

definition default_frame_cells :: "cell list" where
  "default_frame_cells = [CBool False, CBool True, CU16 5184, CReal 50, CInt 5000, CInt 100]"

lemma osc_config_reads:
  assumes "distinct (map fst dict)" and "dict_cells osc_kinds osc_names dict cs" and "osc_of cs = Inr p"
  shows "\<exists>w w'. OscDeviceProperty_Init_dict base (Some dict) (store_new osc_kinds base thread) = Inr w \<and>
    store_ok w \<and> map_of (w_prefs w) = map_of dict \<and> w_events w = [] \<and> read_osc base w = Inr (p, w')"
  using members_read [OF assms(1,2) osc_names_kinds osc_names_distinct(2), of base thread] assms(3)
  by (auto simp: OscDeviceProperty_Init_dict_def OscDeviceProperty_Init_def read_osc_def osc_names_kinds)


lemma default_osc_cells_ok:
  "distinct (map fst default_osc_dict)" "dict_cells osc_kinds osc_names default_osc_dict default_osc_cells"
  "osc_of default_osc_cells = Inr default_osc"
  by (simp_all add: default_osc_dict_def dict_cells_def osc_kinds_def osc_names_def property_names
      default_osc_cells_def osc_of_def enum_of_def volt_ranges_def time_bases_def trigger_sources_def
      trigger_types_def check_def default_osc_def)


lemma frame_config_reads:
  assumes "distinct (map fst dict)" and "dict_cells frame_kinds frame_names dict cs"
  shows "\<exists>w w'. FrameDeviceProperty_Init_dict base (Some dict) (store_new frame_kinds base thread) = Inr w \<and>
    store_ok w \<and> map_of (w_prefs w) = map_of dict \<and> w_events w = [] \<and> read_frame base w = Inr (frame_of cs, w')"
  using members_read [OF assms frame_names_ok(2,1), of base thread]
  by (auto simp: FrameDeviceProperty_Init_dict_def FrameDeviceProperty_Init_def read_frame_def frame_names_ok)

lemma default_frame_cells_ok:
  "distinct (map fst default_frame_dict)" "dict_cells frame_kinds frame_names default_frame_dict default_frame_cells"
  "frame_of default_frame_cells = default_frame"
  by (simp_all add: default_frame_dict_def dict_cells_def frame_kinds_def frame_names_def property_names
      default_frame_cells_def frame_of_def default_frame_def uint16_of_store_def ex_bool_eq)

lemma default_config_parts:
  "GetDefaultOscDeviceConfig = Some default_osc_dict" "GetDefaultFrameDeviceConfig = Some default_frame_dict"
  by (simp_all add: GetDefaultOscDeviceConfig_def GetDefaultFrameDeviceConfig_def TakeSubDict_def
      GetDefaultConfig_def kDefaultCANScopeConfig_def kOscDevice_def kFrameDevice_def)

end
