(* ===== verification/Device_Runner.thy ===== *)
theory Device_Runner
  imports Data_Collecter Register_Table
begin

text \<open>
  Bringing a device up and down: \<open>CANScopeDeviceRunner\<close> (canscope/device/canscope_device_runner.h,
  canscope_device_runner.cc) opens the device, reads its information, loads the FPGA when it is
  not configured, and starts and stops the two collecters.

  Of the collecters the runner uses the base, \<open>DataCollecter\<close>.  The file of the FPGA image is
  read through a parameter.  \<open>rn_device_type\<close> is the type that \<open>DeviceTypeDetected\<close> hands to the
  two devices.
\<close>

datatype DeviceStatus = kExist | kOnline | kOffline | kNoExist

record 'd Runner =
  rn_osc_data :: "DataCollecter option"
  rn_frame_data :: "DataCollecter option"
  rn_device_path :: string
  rn_device_info :: RegisterMemory
  rn_inited :: bool
  rn_status :: DeviceStatus
  rn_auto_init_device :: bool
  rn_start_on_device_online :: bool
  rn_rerun_on_back_online :: bool
  rn_device_type :: "DeviceType option"
  rn_device :: 'd

text \<open>The constructor; \<open>flags\<close> are the three members it leaves without a value.\<close>

definition Runner_new :: "bool \<times> bool \<times> bool \<Rightarrow> 'd \<Rightarrow> 'd Runner res" where
  "Runner_new flags device =
     and_then DeviceInfo_new (\<lambda>device_info.
       Inr \<lparr>rn_osc_data = None, rn_frame_data = None, rn_device_path = '''', rn_device_info = device_info,
            rn_inited = False, rn_status = kOnline, rn_auto_init_device = fst flags,
            rn_start_on_device_online = fst (snd flags), rn_rerun_on_back_online = snd (snd flags),
            rn_device_type = None, rn_device = device\<rparr>)"

text \<open>\<open>Init\<close> creates the collecters, which the caller's arguments stand for.\<close>

definition Runner_Init ::
  "string \<Rightarrow> DataCollecter \<Rightarrow> DataCollecter \<Rightarrow> 'd Runner \<Rightarrow> 'd Runner res" where
  "Runner_Init device_path osc frame s =
     DCHECK (\<not> rn_inited s)
       (Inr (s\<lparr>rn_device_path := device_path, rn_osc_data := Some osc, rn_frame_data := Some frame\<rparr>))"

subsection \<open>The collecters\<close>

text \<open>\<open>Start\<close> of a loop and the task it posts, in one step.\<close>

definition start_collecter :: "DataCollecter \<Rightarrow> DataCollecter" where
  "start_collecter c =
     (let loop = Start (dc_loop c) in
      c\<lparr>dc_loop := if tl_posting loop = tl_posting (dc_loop c) then loop else Loop_PostTask loop\<rparr>)"

definition stop_collecter :: "DataCollecter \<Rightarrow> DataCollecter" where
  "stop_collecter c = c\<lparr>dc_loop := Stop (dc_loop c)\<rparr>"

definition rerun_collecter :: "DataCollecter \<Rightarrow> DataCollecter" where
  "rerun_collecter c =
     (if dc_stop_by_offine c then (start_collecter c)\<lparr>dc_stop_by_offine := False\<rparr> else c)"

definition both :: "(DataCollecter \<Rightarrow> DataCollecter) \<Rightarrow> 'd Runner \<Rightarrow> 'd Runner res" where
  "both f s =
     (case (rn_osc_data s, rn_frame_data s) of
        (Some osc, Some frame) \<Rightarrow> Inr (s\<lparr>rn_osc_data := Some (f osc), rn_frame_data := Some (f frame)\<rparr>)
      | _ \<Rightarrow> Inl Undefined)"

definition Runner_StartAll :: "'d Runner \<Rightarrow> 'd Runner res" where "Runner_StartAll = both start_collecter"

definition StopAll :: "'d Runner \<Rightarrow> 'd Runner res" where "StopAll = both stop_collecter"

definition ReRunAll :: "'d Runner \<Rightarrow> 'd Runner res" where "ReRunAll = both rerun_collecter"

subsection \<open>Opening and closing\<close>

text \<open>The failure of an opening after the device is open: it is closed again, whatever that
  returns.\<close>

definition close_with :: "'d DeviceDelegate \<Rightarrow> Error \<Rightarrow> 'd Runner \<Rightarrow> (Error \<times> 'd Runner) res" where
  "close_with del error s =
     and_then (dd_CloseDevice del (rn_device s)) (\<lambda>(_, d). Inr (error, s\<lparr>rn_device := d\<rparr>))"

definition fpga_name :: "bool \<Rightarrow> string" where
  "fpga_name pro = (if pro then ''CANScopePro.dll'' else ''CANScope.dll'')"

text \<open>\<open>InitDeviceImpl\<close> from the configuration of the FPGA on, and all of it.\<close>

definition config_fpga ::
  "'d DeviceDelegate \<Rightarrow> (string \<Rightarrow> u8 list option) \<Rightarrow> 'd Runner \<Rightarrow> (Error \<times> 'd Runner) res" where
  "config_fpga del read_file s =
     and_then (IsProVersion (rm_memory (rn_device_info s))) (\<lambda>pro.
     case read_file (fpga_name pro) of
       None \<Rightarrow> close_with del ERR_DEVICE_LOADFPGAFILE s
     | Some content \<Rightarrow>
         and_then (dd_DownloadFPGA del content (int (length content)) (rn_device s)) (\<lambda>(err, d).
         if err \<noteq> OK then close_with del ERR_DEVICE_DOWNLOADFPGA (s\<lparr>rn_device := d\<rparr>)
         else Inr (OK, s\<lparr>rn_device := d\<rparr>)))"

definition InitDeviceImpl ::
  "'d DeviceDelegate \<Rightarrow> (string \<Rightarrow> u8 list option) \<Rightarrow> string \<Rightarrow> 'd Runner \<Rightarrow> (Error \<times> 'd Runner) res" where
  "InitDeviceImpl del read_file device_path s =
     and_then (dd_OpenDevice del device_path (rn_device s)) (\<lambda>(err, d).
     if err \<noteq> OK then Inr (ERR_DEVICE_OPEN, s\<lparr>rn_device := d\<rparr>)
     else
       and_then (dd_GetDeviceInfo del (rn_device_info s) d) (\<lambda>(err, info, d).
       if err \<noteq> OK then close_with del ERR_DEVICE_INFO (s\<lparr>rn_device_info := info, rn_device := d\<rparr>)
       else
         and_then (get (U32B DeviceInfo_fpage_version) info) (\<lambda>version.
         if version \<noteq> 0xFFFFFFFF then Inr (OK, s\<lparr>rn_device_info := info, rn_device := d\<rparr>)
         else config_fpga del read_file (s\<lparr>rn_device_info := info, rn_device := d\<rparr>))))"

definition CloseDeviceImpl :: "'d DeviceDelegate \<Rightarrow> 'd Runner \<Rightarrow> 'd Runner res" where
  "CloseDeviceImpl del s =
     and_then (dd_CloseDevice del (rn_device s)) (\<lambda>(err, d). DCHECK (err = OK) (Inr (s\<lparr>rn_device := d\<rparr>)))"

definition Runner_GetDeviceType :: "'d Runner \<Rightarrow> DeviceType res" where
  "Runner_GetDeviceType s = DCHECK (rn_inited s) (GetDeviceType (rm_memory (rn_device_info s)))"

definition DeviceTypeDetected :: "DeviceType \<Rightarrow> 'd Runner \<Rightarrow> 'd Runner" where
  "DeviceTypeDetected type s = s\<lparr>rn_device_type := Some type\<rparr>"

definition InitDevice ::
  "'d DeviceDelegate \<Rightarrow> (string \<Rightarrow> u8 list option) \<Rightarrow> 'd Runner \<Rightarrow> (Error \<times> 'd Runner) res" where
  "InitDevice del read_file s =
     DCHECK (\<not> rn_inited s) (
     and_then (InitDeviceImpl del read_file (rn_device_path s) s) (\<lambda>(error, s).
     if error \<noteq> OK then Inr (error, s)
     else
       let s = s\<lparr>rn_status := kOnline, rn_inited := True\<rparr> in
       and_then (Runner_GetDeviceType s) (\<lambda>type.
       let s = DeviceTypeDetected type s in
       and_then (if rn_start_on_device_online s then Runner_StartAll s else Inr s) (\<lambda>s. Inr (error, s)))))"

definition ReOnline ::
  "'d DeviceDelegate \<Rightarrow> (string \<Rightarrow> u8 list option) \<Rightarrow> 'd Runner \<Rightarrow> (Error \<times> 'd Runner) res" where
  "ReOnline del read_file s =
     DCHECK (rn_inited s) (
     and_then (CloseDeviceImpl del s) (\<lambda>s.
     and_then (InitDeviceImpl del read_file (rn_device_path s) s) (\<lambda>(error, s).
     if error \<noteq> OK then Inr (error, s)
     else
       let s = s\<lparr>rn_inited := True\<rparr> in
       and_then (if rn_rerun_on_back_online s then ReRunAll s else Inr s) (\<lambda>s. Inr (error, s)))))"

definition Runner_CloseDevice :: "'d DeviceDelegate \<Rightarrow> 'd Runner \<Rightarrow> 'd Runner res" where
  "Runner_CloseDevice del s =
     (if \<not> rn_inited s then Inr s
      else and_then (StopAll s) (\<lambda>s. and_then (CloseDeviceImpl del s) (\<lambda>s. Inr (s\<lparr>rn_inited := False\<rparr>))))"

text \<open>The observer of the devices manager; \<open>status\<close> is what \<open>GetDeviceStatus\<close> gives for the
  device's path.\<close>

definition Runner_DeviceStateChanged ::
  "'d DeviceDelegate \<Rightarrow> (string \<Rightarrow> u8 list option) \<Rightarrow> DeviceStatus \<Rightarrow> 'd Runner \<Rightarrow> 'd Runner res" where
  "Runner_DeviceStateChanged del read_file status s =
     (if status = rn_status s then Inr s
      else if status = kOffline then Inr s
      else if status = kOnline
      then and_then (ReOnline del read_file s) (\<lambda>(error, s). Inr (if error = OK then s\<lparr>rn_status := kOnline\<rparr> else s))
      else Inr s)"

text \<open>What is called on a runner, and the calls that end.\<close>

datatype runner_call =
    RC_Init string DataCollecter DataCollecter
  | RC_InitDevice
  | RC_CloseDevice
  | RC_DeviceStateChanged DeviceStatus

fun runner_run ::
  "'d DeviceDelegate \<Rightarrow> (string \<Rightarrow> u8 list option) \<Rightarrow> runner_call \<Rightarrow> 'd Runner \<Rightarrow> 'd Runner res" where
  "runner_run del rf (RC_Init path osc frame) s = Runner_Init path osc frame s"
| "runner_run del rf RC_InitDevice s = and_then (InitDevice del rf s) (\<lambda>(_, s). Inr s)"
| "runner_run del rf RC_CloseDevice s = Runner_CloseDevice del s"
| "runner_run del rf (RC_DeviceStateChanged status) s = Runner_DeviceStateChanged del rf status s"

inductive runner_reach :: "'d DeviceDelegate \<Rightarrow> (string \<Rightarrow> u8 list option) \<Rightarrow> 'd Runner \<Rightarrow> bool"
  for del rf where
  runner_new: "Runner_new flags d = Inr s \<Longrightarrow> runner_reach del rf s"
| runner_call: "runner_reach del rf s \<Longrightarrow> runner_run del rf c s = Inr t \<Longrightarrow> runner_reach del rf t"

subsection \<open>The observer\<close>

lemma both_status: "both f s = Inr t \<Longrightarrow> rn_status t = rn_status s \<and> rn_inited t = rn_inited s \<and> rn_device t = rn_device s"
  by (auto simp: both_def split: option.splits)

definition same_runner :: "'d Runner \<Rightarrow> 'd Runner \<Rightarrow> bool" where
  "same_runner s t \<longleftrightarrow> rn_status t = rn_status s \<and> rn_inited t = rn_inited s \<and> rn_osc_data t = rn_osc_data s \<and>
     rn_frame_data t = rn_frame_data s \<and> rn_start_on_device_online t = rn_start_on_device_online s"

lemma same_runner_simps [simp]:
  "same_runner s (s\<lparr>rn_device := d\<rparr>)" "same_runner s (s\<lparr>rn_device_info := i, rn_device := d\<rparr>)"
  by (simp_all add: same_runner_def)

lemma same_runner_trans: "same_runner s t \<Longrightarrow> same_runner t u \<Longrightarrow> same_runner s u"
  by (simp add: same_runner_def)

lemma close_with_same: "close_with del error s = Inr (err, t) \<Longrightarrow> same_runner s t"
  by (auto simp: close_with_def)

lemma config_fpga_same:
  assumes "config_fpga del rf s = Inr (err, t)" shows "same_runner s t"
proof -
  obtain pro where pro: "(case rf (fpga_name pro) of
      None \<Rightarrow> close_with del ERR_DEVICE_LOADFPGAFILE s
    | Some content \<Rightarrow>
        and_then (dd_DownloadFPGA del content (int (length content)) (rn_device s)) (\<lambda>(err, d).
        if err \<noteq> OK then close_with del ERR_DEVICE_DOWNLOADFPGA (s\<lparr>rn_device := d\<rparr>)
        else Inr (OK, s\<lparr>rn_device := d\<rparr>))) = Inr (err, t)"
    using assms unfolding config_fpga_def by (elim and_then_InrE) (rule that)
  show ?thesis
  proof (cases "rf (fpga_name pro)")
    case None
    then show ?thesis using pro close_with_same by simp
  next
    case (Some content)
    then obtain e d where "(if e \<noteq> OK then close_with del ERR_DEVICE_DOWNLOADFPGA (s\<lparr>rn_device := d\<rparr>)
        else Inr (OK, s\<lparr>rn_device := d\<rparr>)) = Inr (err, t)"
      using pro by auto
    then show ?thesis
      using close_with_same [of del ERR_DEVICE_DOWNLOADFPGA "s\<lparr>rn_device := d\<rparr>" err t]
        same_runner_trans [OF same_runner_simps(1)]
      by (auto split: if_splits)
  qed
qed

lemma InitDeviceImpl_status:
  assumes "InitDeviceImpl del rf path s = Inr (err, t)" shows "same_runner s t"
proof -
  obtain e1 d1 where o: "dd_OpenDevice del path (rn_device s) = Inr (e1, d1)"
    using assms by (auto simp: InitDeviceImpl_def)
  show ?thesis
  proof (cases "e1 = OK")
    case False
    then show ?thesis using assms o by (auto simp: InitDeviceImpl_def)
  next
    case True
    obtain e2 info d2 where i: "dd_GetDeviceInfo del (rn_device_info s) d1 = Inr (e2, info, d2)"
      using assms o True by (auto simp: InitDeviceImpl_def)
    let ?s = "s\<lparr>rn_device_info := info, rn_device := d2\<rparr>"
    have "close_with del ERR_DEVICE_INFO ?s = Inr (err, t) \<or> t = ?s \<or> config_fpga del rf ?s = Inr (err, t)"
      using assms o True i by (auto simp: InitDeviceImpl_def split: if_splits)
    then show ?thesis
      using close_with_same [of del ERR_DEVICE_INFO ?s err t] config_fpga_same [of del rf ?s err t]
        same_runner_trans [OF same_runner_simps(2) [where i = info and d = d2]]
      by auto
  qed
qed

lemma InitDevice_status:
  assumes "InitDevice del rf s = Inr (err, t)"
  shows "rn_status t = kOnline \<or> rn_status t = rn_status s"
proof -
  obtain error u where u: "InitDeviceImpl del rf (rn_device_path s) s = Inr (error, u)"
    "(if error \<noteq> OK then Inr (error, u)
      else let s = u\<lparr>rn_status := kOnline, rn_inited := True\<rparr> in
        and_then (Runner_GetDeviceType s) (\<lambda>type.
        let s = DeviceTypeDetected type s in
        and_then (if rn_start_on_device_online s then Runner_StartAll s else Inr s) (\<lambda>s. Inr (error, s)))) = Inr (err, t)"
    using assms by (auto simp: InitDevice_def check_Inr_iff and_then_Inr_iff)
  note st = InitDeviceImpl_status [OF u(1)]
  show ?thesis
  proof (cases "error = OK")
    case True
    then obtain type where "(if rn_start_on_device_online u
        then Runner_StartAll (u\<lparr>rn_status := kOnline, rn_inited := True, rn_device_type := Some type\<rparr>)
        else Inr (u\<lparr>rn_status := kOnline, rn_inited := True, rn_device_type := Some type\<rparr>)) = Inr t"
      using u(2) by (auto simp: Let_def and_then_Inr_iff DeviceTypeDetected_def)
    then show ?thesis
      using both_status [of start_collecter "u\<lparr>rn_status := kOnline, rn_inited := True, rn_device_type := Some type\<rparr>" t]
      by (auto simp: Runner_StartAll_def split: if_splits)
  next
    case False
    then show ?thesis using u(2) st by (auto simp: same_runner_def)
  qed
qed

lemma CloseDevice_status: "Runner_CloseDevice del s = Inr t \<Longrightarrow> rn_status t = rn_status s"
proof -
  assume a: "Runner_CloseDevice del s = Inr t"
  show ?thesis
  proof (cases "rn_inited s")
    case True
    then obtain u where "StopAll s = Inr u" "rn_status t = rn_status u"
      using a by (auto simp: Runner_CloseDevice_def CloseDeviceImpl_def and_then_Inr_iff check_Inr_iff)
    then show ?thesis using both_status [of stop_collecter s u] by (simp add: StopAll_def)
  qed (use a in \<open>simp add: Runner_CloseDevice_def\<close>)
qed

lemma runner_online: "runner_reach del rf s \<Longrightarrow> rn_status s = kOnline"
proof (induction rule: runner_reach.induct)
  case (runner_new flags d s)
  then show ?case by (auto simp: Runner_new_def and_then_Inr_iff)
next
  case (runner_call s c t)
  show ?case
  proof (cases c)
    case (RC_Init path osc frame)
    then show ?thesis using runner_call by (auto simp: Runner_Init_def check_Inr_iff)
  next
    case RC_InitDevice
    then obtain err where "InitDevice del rf s = Inr (err, t)" using runner_call by auto
    then show ?thesis using runner_call.IH InitDevice_status by metis
  next
    case RC_CloseDevice
    then show ?thesis using runner_call CloseDevice_status [of del s t] by simp
  next
    case (RC_DeviceStateChanged status)
    then show ?thesis using runner_call by (auto simp: Runner_DeviceStateChanged_def split: if_splits)
  qed
qed

text \<open>The runner's own record of the device's status is never anything but \<open>kOnline\<close>, so that
  \<open>DeviceStateChanged\<close> does nothing, whatever has happened before and whatever the devices manager
  reports: a device that was unplugged and comes back is never reopened by \<open>ReOnline\<close>, and
  \<open>rerun_on_back_online\<close> has no effect.\<close>

theorem runner_ignores_state:
  assumes "runner_reach del rf s"
  shows "Runner_DeviceStateChanged del rf status s = Inr s"
  using runner_online [OF assms] by (simp add: Runner_DeviceStateChanged_def)

lemma runner_ignores_state_witness:
  "\<exists>s t. Runner_new (True, True, True) sample_port = Inr s \<and>
     Runner_DeviceStateChanged (UsbPortDeviceDelegate (Pair None) sample_windows) Map.empty kOffline s = Inr t \<and>
     Runner_DeviceStateChanged (UsbPortDeviceDelegate (Pair None) sample_windows) Map.empty kOnline t = Inr s"
proof -
  let ?del = "UsbPortDeviceDelegate (Pair None) sample_windows"
  have "\<exists>s. Runner_new (True, True, True) sample_port = Inr s"
    by (simp add: Runner_new_def DeviceInfo_new_def RegisterMemory_new_def check_def register_consts)
  then obtain s where s: "Runner_new (True, True, True) sample_port = Inr s" ..
  have "runner_reach ?del Map.empty s" by (rule runner_new [OF s])
  from runner_ignores_state [OF this, of kOffline] runner_ignores_state [OF this, of kOnline] s show ?thesis by auto
qed

subsection \<open>Opening a device\<close>

definition open_errors :: "Error set" where
  "open_errors = {OK, ERR_DEVICE_OPEN, ERR_DEVICE_INFO, ERR_DEVICE_LOADFPGAFILE, ERR_DEVICE_DOWNLOADFPGA}"

text \<open>The image of the FPGA, where there is one, is not empty and smaller than 2 GB.\<close>

definition files_ok :: "(string \<Rightarrow> u8 list option) \<Rightarrow> bool" where
  "files_ok rf \<longleftrightarrow> (\<forall>name c. rf name = Some c \<longrightarrow> 0 < length c \<and> length c < 2 ^ 31)"

locale device_opener =
  fixes del :: "'d DeviceDelegate" and inv :: "'d \<Rightarrow> bool"
  assumes open_total: "inv d \<Longrightarrow> path \<noteq> '''' \<Longrightarrow> \<exists>e d'. dd_OpenDevice del path d = Inr (e, d') \<and> inv d'"
    and close_total: "inv d \<Longrightarrow> \<exists>e d'. dd_CloseDevice del d = Inr (e, d') \<and> inv d'"
    and info_total: "inv d \<Longrightarrow> length (rm_memory rm) = kDeviceInfoSize \<Longrightarrow>
      \<exists>e rm' d'. dd_GetDeviceInfo del rm d = Inr (e, rm', d') \<and> inv d' \<and> length (rm_memory rm') = kDeviceInfoSize"
    and download_total: "inv d \<Longrightarrow> 0 < length c \<Longrightarrow> length c < 2 ^ 31 \<Longrightarrow>
      \<exists>e d'. dd_DownloadFPGA del c (int (length c)) d = Inr (e, d') \<and> inv d'"
begin

lemma close_with_ok:
  "inv (rn_device s) \<Longrightarrow> \<exists>t. close_with del error s = Inr (error, t) \<and> inv (rn_device t) \<and>
     length (rm_memory (rn_device_info t)) = length (rm_memory (rn_device_info s))"
  using close_total [of "rn_device s"] by (auto simp: close_with_def)

lemma info_get:
  assumes "length (rm_memory (info :: RegisterMemory)) = kDeviceInfoSize" and "b \<in> set DeviceInfo_binds"
  shows "\<exists>v. get b info = Inr v"
proof -
  have "layout_ok kDeviceInfoSize DeviceInfo_binds" using register_classes_ok by (simp add: register_classes_def)
  then obtain f where "holds DeviceInfo_binds f info" using holds_some [of info] assms(1) by auto
  then show ?thesis using assms(2) by (auto simp: holds_def)
qed

lemma GetDeviceType_cases:
  assumes "length (rm_memory (info :: RegisterMemory)) = kDeviceInfoSize"
  shows "GetDeviceType (rm_memory info) = Inl NotReached \<or> (\<exists>type. GetDeviceType (rm_memory info) = Inr type)"
proof -
  obtain v where "get (U32B DeviceInfo_device_type) info = Inr v"
    using info_get [OF assms, of "U32B DeviceInfo_device_type"] by (auto simp: DeviceInfo_binds_def)
  then have "simple_value DeviceInfo_device_type (rm_memory info) = Inr v" by (auto simp: get_def)
  then show ?thesis by (simp add: GetDeviceType_def Let_def)
qed

lemma config_fpga_ok:
  assumes "inv (rn_device s)" and "length (rm_memory (rn_device_info s)) = kDeviceInfoSize"
    and "files_ok rf"
  shows "config_fpga del rf s = Inl NotReached \<or>
    (\<exists>err t. config_fpga del rf s = Inr (err, t) \<and> err \<in> open_errors \<and> inv (rn_device t) \<and>
      length (rm_memory (rn_device_info t)) = kDeviceInfoSize)"
proof (cases "IsProVersion (rm_memory (rn_device_info s))")
  case (Inl e)
  then have "e = NotReached" using GetDeviceType_cases [OF assms(2)] by (auto simp: IsProVersion_def)
  then show ?thesis using Inl by (simp add: config_fpga_def)
next
  case (Inr pro)
  show ?thesis
  proof (cases "rf (fpga_name pro)")
    case None
    then show ?thesis using Inr close_with_ok [OF assms(1), of ERR_DEVICE_LOADFPGAFILE] assms(2)
      by (auto simp: config_fpga_def open_errors_def)
  next
    case (Some c)
    obtain e d where d: "dd_DownloadFPGA del c (int (length c)) (rn_device s) = Inr (e, d)" "inv d"
      using download_total [OF assms(1)] assms(3) Some unfolding files_ok_def by blast
    then show ?thesis
      using Inr Some assms(2) close_with_ok [of "s\<lparr>rn_device := d\<rparr>" ERR_DEVICE_DOWNLOADFPGA]
      by (cases "e = OK") (auto simp: config_fpga_def open_errors_def)
  qed
qed

lemma InitDeviceImpl_ok:
  assumes "inv (rn_device s)" and "length (rm_memory (rn_device_info s)) = kDeviceInfoSize" and "path \<noteq> ''''"
    and "files_ok rf"
  shows "InitDeviceImpl del rf path s = Inl NotReached \<or>
    (\<exists>err t. InitDeviceImpl del rf path s = Inr (err, t) \<and> err \<in> open_errors \<and> inv (rn_device t) \<and>
      length (rm_memory (rn_device_info t)) = kDeviceInfoSize)"
proof -
  obtain e1 d1 where o: "dd_OpenDevice del path (rn_device s) = Inr (e1, d1)" "inv d1"
    using open_total [OF assms(1,3)] by blast
  show ?thesis
  proof (cases "e1 = OK")
    case False
    then show ?thesis using o assms(2) by (auto simp: InitDeviceImpl_def open_errors_def)
  next
    case True
    obtain e2 info d2 where i: "dd_GetDeviceInfo del (rn_device_info s) d1 = Inr (e2, info, d2)" "inv d2"
      "length (rm_memory info) = kDeviceInfoSize"
      using info_total [OF o(2) assms(2)] by blast
    let ?s = "s\<lparr>rn_device_info := info, rn_device := d2\<rparr>"
    have s: "inv (rn_device ?s)" "length (rm_memory (rn_device_info ?s)) = kDeviceInfoSize" using i by simp_all
    obtain v where v: "get (U32B DeviceInfo_fpage_version) info = Inr v"
      using info_get [OF i(3), of "U32B DeviceInfo_fpage_version"] by (auto simp: DeviceInfo_binds_def)
    have start: "InitDeviceImpl del rf path s =
        (if e2 \<noteq> OK then close_with del ERR_DEVICE_INFO ?s
         else if v \<noteq> 0xFFFFFFFF then Inr (OK, ?s) else config_fpga del rf ?s)"
      using o i True v by (simp add: InitDeviceImpl_def)
    note close = close_with_ok [of ?s, unfolded s(2)]
    consider "e2 \<noteq> OK" | "e2 = OK" "v \<noteq> 0xFFFFFFFF" | "e2 = OK" "v = 0xFFFFFFFF" by blast
    then show ?thesis
    proof cases
      case 1
      then show ?thesis using start close s(1) by (auto simp: open_errors_def)
    next
      case 2
      then show ?thesis using start s by (auto simp: open_errors_def)
    next
      case 3
      then show ?thesis using start config_fpga_ok [OF s assms(4)] by simp
    qed
  qed
qed

lemma InitDevice_ok:
  assumes "inv (rn_device s)" and "length (rm_memory (rn_device_info s)) = kDeviceInfoSize"
    and "rn_device_path s \<noteq> ''''" and "\<not> rn_inited s" and "rn_osc_data s = Some osc" and "rn_frame_data s = Some frame"
    and "files_ok rf"
  shows "InitDevice del rf s = Inl NotReached \<or>
    (\<exists>err t. InitDevice del rf s = Inr (err, t) \<and> err \<in> open_errors \<and> inv (rn_device t) \<and>
      (rn_inited t \<longleftrightarrow> err = OK) \<and>
      rn_osc_data t = Some (if err = OK \<and> rn_start_on_device_online s then start_collecter osc else osc) \<and>
      rn_frame_data t = Some (if err = OK \<and> rn_start_on_device_online s then start_collecter frame else frame))"
proof (cases "InitDeviceImpl del rf (rn_device_path s) s = Inl NotReached")
  case True
  then show ?thesis using assms(4) by (simp add: InitDevice_def)
next
  case False
  then obtain err t where t: "InitDeviceImpl del rf (rn_device_path s) s = Inr (err, t)" "err \<in> open_errors"
    "inv (rn_device t)" "length (rm_memory (rn_device_info t)) = kDeviceInfoSize"
    using InitDeviceImpl_ok [OF assms(1-3,7)] by blast
  note same = InitDeviceImpl_status [OF t(1), unfolded same_runner_def]
  show ?thesis
  proof (cases "err = OK")
    case False
    then have "InitDevice del rf s = Inr (err, t)" using t(1) assms(4) by (simp add: InitDevice_def)
    then show ?thesis using False t same assms(4-6) by simp
  next
    case True
    from GetDeviceType_cases [OF t(4)] show ?thesis
    proof (elim disjE exE)
      assume "GetDeviceType (rm_memory (rn_device_info t)) = Inl NotReached"
      then have "InitDevice del rf s = Inl NotReached"
        using t(1) assms(4) True by (simp add: InitDevice_def Runner_GetDeviceType_def)
      then show ?thesis ..
    next
      fix type assume type: "GetDeviceType (rm_memory (rn_device_info t)) = Inr type"
      let ?u = "t\<lparr>rn_status := kOnline, rn_inited := True, rn_device_type := Some type\<rparr>"
      let ?v = "if rn_start_on_device_online s
        then ?u\<lparr>rn_osc_data := Some (start_collecter osc), rn_frame_data := Some (start_collecter frame)\<rparr> else ?u"
      have "InitDevice del rf s = Inr (OK, ?v)"
        using t(1) assms(4-6) True type same
        by (simp add: InitDevice_def Runner_GetDeviceType_def DeviceTypeDetected_def Runner_StartAll_def both_def)
      then show ?thesis using True t(2,3) same assms(5,6) by simp
    qed
  qed
qed

end

subsection \<open>Opening over USB\<close>

lemma write_pieces_total:
  assumes "0 \<le> pos" and "pos < sz" and "sz < 2 ^ 31" and "sz \<le> int (length buffer)"
  shows "\<exists>ok p'. write_pieces win sz pos buffer p = Inr (ok, p') \<and>
    up_cmd p' = up_cmd p \<and> up_rsp p' = up_rsp p \<and> up_pipes p' = up_pipes p"
  using assms
proof (induction "nat (sz - pos)" arbitrary: pos p rule: less_induct)
  case less
  let ?n = "need_size sz pos"
  have n: "?n = min 65536 (sz - pos)" by (rule need_size_eq [OF less.prems(1-3)])
  have bounds: "0 < ?n" "pos + ?n \<le> sz" using n less.prems by auto
  let ?bytes = "padded (take (nat ?n) (drop (nat pos) buffer))"
  have piece: "write_piece buffer pos ?n = Inr ?bytes"
    using write_piece_padded [of pos ?n buffer] bounds less.prems by simp
  have "0 < length ?bytes" using bounds less.prems by (simp add: padded_def)
  from WritePort_total [OF this, of win kPort2 p] obtain w p1 where w: "WritePort win kPort2 ?bytes p = Inr (w, p1)"
    "up_cmd p1 = up_cmd p" "up_rsp p1 = up_rsp p" "up_pipes p1 = up_pipes p" by blast
  have step: "write_pieces win sz pos buffer p =
      (if w \<noteq> Some (int (length ?bytes)) then Inr (False, p1)
       else if pos + ?n = sz then Inr (True, p1) else write_pieces win sz (pos + ?n) buffer p1)"
    using piece w(1) bounds by (subst write_pieces.simps) (simp add: Let_def)
  show ?case
  proof (cases "w \<noteq> Some (int (length ?bytes)) \<or> pos + ?n = sz")
    case True
    then show ?thesis using step w by auto
  next
    case False
    have "\<exists>ok p'. write_pieces win sz (pos + ?n) buffer p1 = Inr (ok, p') \<and>
        up_cmd p' = up_cmd p1 \<and> up_rsp p' = up_rsp p1 \<and> up_pipes p' = up_pipes p1"
      using False bounds less.prems by (intro less.hyps) simp_all
    then show ?thesis using step w False by auto
  qed
qed

lemma WritePort2Raw_total:
  assumes "port_ok p" and "reads_bounded win" and "0 < sz" and "sz < 2 ^ 31" and "sz \<le> int (length buffer)"
  shows "\<exists>ok p'. WritePort2Raw win buffer sz p = Inr (ok, p') \<and> port_ok p'"
proof -
  obtain ok p1 where p1: "write_pieces win sz 0 buffer p = Inr (ok, p1)" "port_ok p1"
    using write_pieces_total [of 0 sz buffer win p] assms by (auto simp: port_ok_def)
  define p2 where "p2 = p1\<lparr>up_rsp := UsbCommand_reset (up_rsp p1)\<rparr>"
  have p2: "port_ok p2" using p1(2) by (simp add: p2_def port_ok_def UsbCommand_reset_def)
  obtain r p3 where p3: "ReadPort win kPort1 (RegisterMemory_size (up_rsp p2)) p2 = (r, p3)" by (meson surj_pair)
  have ok3: "port_ok p3" using ReadPort_keeps [OF p3] p2 by (simp add: port_ok_def)
  show ?thesis
  proof (cases r)
    case None
    then show ?thesis using p1 p3 ok3 by (cases ok) (auto simp: WritePort2Raw_def Let_def p2_def)
  next
    case (Some data)
    have "length data \<le> 64"
      using ReadPort_bounded [OF assms(2) p3 [unfolded Some]] p2 by (simp add: RegisterMemory_size_def port_ok_def)
    then obtain m where m: "memcpy_to (rm_memory (up_rsp p3)) 0 data = Inr m" "length m = 64"
      using memcpy_to_total [of 0 data "rm_memory (up_rsp p3)"] ok3 length_memcpy_to by (fastforce simp: port_ok_def)
    have "port_ok (p3\<lparr>up_rsp := (up_rsp p3)\<lparr>rm_memory := m\<rparr>\<rparr>)" using ok3 m(2) by (simp add: port_ok_def)
    moreover have "\<exists>c :: u16. simple_value UsbCommand_cmd_id m = Inr c"
    proof -
      have "bind_ok (U16B UsbCommand_cmd_id)" "bind_fits (U16B UsbCommand_cmd_id) (length m)"
        using layout_ok_bind [OF UsbCommand_layout, of "U16B UsbCommand_cmd_id"] m(2)
        by (auto simp: UsbCommand_binds_def)
      then have "\<exists>v. bind_value (U16B UsbCommand_cmd_id) m = Inr v"
        using memory_field.get_total [OF bind_field] by blast
      then show ?thesis by auto
    qed
    ultimately show ?thesis using p1 p3 Some m(1)
      by (cases ok) (auto simp: WritePort2Raw_def Let_def p2_def)
  qed
qed

lemma DownloadFPGA_total:
  assumes "port_ok p" and "reads_bounded win" and "0 < sz" and "sz < 2 ^ 31" and "sz \<le> int (length buffer)"
  shows "\<exists>ok p'. DownloadFPGA win buffer sz p = Inr (ok, p') \<and> port_ok p'"
proof -
  have "0 \<le> To4Align sz" using To4Align_nonneg(1) [of sz] assms(3) by simp
  then obtain p1 where p1: "SetCmd DOWNLOAD_FPGA 0 kUsbModelNormal None (To4Align sz) p = Inr p1" "port_ok p1"
    using SetCmd_encodes [OF assms(1), of "To4Align sz" None DOWNLOAD_FPGA 0 kUsbModelNormal] by auto
  obtain r p2 where p2: "SendCmd win p1 = Inr (r, p2)" "port_ok p2" using SendCmd_total [OF p1(2) assms(2)] by blast
  show ?thesis
    using WritePort2Raw_total [OF p2(2) assms(2-5)] p1 p2 assms(3) by (cases r) (auto simp: DownloadFPGA_def)
qed

lemma GetDeviceInfo_total:
  assumes "port_ok p" and "reads_bounded win" and "length b = kDeviceInfoSize"
  shows "\<exists>ok b' p'. UsbPort_GetDeviceInfo win b (int kDeviceInfoSize) p = Inr (ok, b', p') \<and> port_ok p' \<and>
    length b' = kDeviceInfoSize"
proof -
  obtain p1 where p1: "SetCmd SSTQ 0 kUsbModelNormal None 0 p = Inr p1" "port_ok p1"
    using SetCmd_encodes [OF assms(1), of 0 None SSTQ 0 kUsbModelNormal] by auto
  obtain r p2 where p2: "SendCmd win p1 = Inr (r, p2)" "port_ok p2" using SendCmd_total [OF p1(2) assms(2)] by blast
  have "kDeviceInfoSize \<le> 64" by (simp add: register_consts)
  then have "\<exists>b'. copy_response 0 (int kDeviceInfoSize) b p2 = Inr b' \<and> length b' = kDeviceInfoSize"
    using p2(2) assms(3) by (simp add: copy_response_def load_bytes_def memcpy_to_def port_ok_def)
  then show ?thesis using p1 p2 assms(3) by (cases r) (auto simp: UsbPort_GetDeviceInfo_def)
qed

lemma open_pipes_ok: "port_ok p \<Longrightarrow> port_ok (snd (open_pipes win name is p))"
proof (induction "is" arbitrary: p)
  case (Cons i "is")
  show ?case
  proof (cases "win_CreateFile win name i (up_os p)")
    case (Pair h os)
    then show ?thesis using Cons by (cases h) (auto simp: port_ok_def)
  qed
qed simp

lemma close_pipes_ok: "port_ok p \<Longrightarrow> port_ok (snd (close_pipes win is n p))"
proof (induction "is" arbitrary: n p)
  case (Cons i "is")
  show ?case
  proof (cases "up_pipes p ! i")
    case None
    then show ?thesis using Cons by simp
  next
    case (Some h)
    obtain r os where "win_CloseHandle win h (up_os p) = (r, os)" by (meson surj_pair)
    then show ?thesis using Some Cons by (cases r) (simp_all add: port_ok_def)
  qed
qed simp

interpretation usb_opener: device_opener "UsbPortDeviceDelegate enum win" "\<lambda>p. port_ok p \<and> reads_bounded win"
  for enum :: "'s \<Rightarrow> string list option \<times> 's" and win :: "'s windows"
proof (unfold_locales, goal_cases)
  case (1 d path)
  then show ?case using open_pipes_ok [of d win path "[0..<length (up_pipes d)]"]
    by (auto simp: UsbPortDeviceDelegate_def Usb_OpenDevice_def OpenDevice_def check_def split: prod.split)
next
  case (2 d)
  then show ?case using close_pipes_ok [of d win "[0..<length (up_pipes d)]" 0]
    by (auto simp: UsbPortDeviceDelegate_def Usb_CloseDevice_def CloseDevice_def split: prod.split)
next
  case (3 d rm)
  have "rm_memory rm \<noteq> []" using 3(2) by (auto simp: register_consts)
  then show ?case using GetDeviceInfo_total [of d win "rm_memory rm"] 3
    by (auto simp: UsbPortDeviceDelegate_def Usb_GetDeviceInfo_def RegisterMemory_buffer_def RegisterMemory_size_def)
next
  case (4 d c)
  then show ?case using DownloadFPGA_total [of d win "int (length c)" c]
    by (auto simp: UsbPortDeviceDelegate_def Usb_DownloadFPGA_def)
qed


definition idle_collecter :: DataCollecter where
  "idle_collecter = \<lparr>dc_loop = ThreadedLoopRun_new, dc_stop_by_offine = False, dc_next_loop_delay = 0\<rparr>"

definition no_windows :: "unit windows" where
  "no_windows = \<lparr>win_CreateFile = (\<lambda>_ i s. (None, s)), win_CloseHandle = (\<lambda>_ s. (True, s)),
     win_ReadFile = (\<lambda>h n s. (IoError, s)), win_WriteFile = (\<lambda>h bs s. (IoError, s)),
     win_Wait = (\<lambda>s. (WAIT_TIMEOUT, s)), win_ReadResult = (\<lambda>_ s. (None, s)),
     win_WriteResult = (\<lambda>_ s. (None, s)), win_CancelIo = (\<lambda>_ s. s)\<rparr>"

definition closed_port :: "unit UsbPort" where
  "closed_port = \<lparr>up_cmd = \<lparr>rm_memory = replicate 64 0, rm_start_addr = 0\<rparr>,
     up_rsp = \<lparr>rm_memory = replicate 64 0, rm_start_addr = 0\<rparr>, up_pipes = replicate 6 None, up_os = ()\<rparr>"


end
