(* ===== verification/Devices_Manager.thy ===== *)
theory Devices_Manager
  imports Device_Runner "HOL-Library.Char_ord" "HOL-Library.List_Lexorder"
begin

text \<open>
  The devices manager (canscope/device/devices_manager.cc, devices_manager.h) and the loop that
  feeds it (canscope_device_finder.cc): which instruments are plugged in, which of them are open, and
  who hears of a change.

  An open device is a \<open>CANScopeDevice\<close>, of which the manager uses the operations of the record
  \<open>DeviceOps\<close>; the \<open>n\<close>-th device that is created has the number \<open>n\<close>, which stands for the pointer
  to its runner in the list of observers.  The two maps of the code are lists in the order of their
  keys.  The operations run on the device thread, each of them in one step; the calls from other
  threads, which only post or read under the lock, see the states between the steps.  Notifying posts
  a task to the device thread, \<open>deliver\<close>.
\<close>

subsection \<open>State\<close>

datatype change = StateChange | ListChange

record 'v DeviceOps =
  ops_create :: "nat \<Rightarrow> string \<Rightarrow> 'v res"
  ops_init_device :: "'v \<Rightarrow> (Error \<times> 'v) res"
  ops_close_device :: "'v \<Rightarrow> 'v res"
  ops_start_destroying :: "'v \<Rightarrow> 'v"
  ops_setup :: "'v \<Rightarrow> 'v res"
  ops_state_changed :: "DeviceStatus \<Rightarrow> 'v \<Rightarrow> 'v res"

record 'v DevicesManager =
  dm_auto_open_first :: bool
  dm_auto_open_all :: bool
  dm_auto_close_offline :: bool
  dm_open_first :: bool
  device_to_status :: "(string \<times> DeviceStatus) list"
  path_to_device :: "(string \<times> (nat \<times> 'v)) list"
  dm_observers :: "nat list"
  dm_created :: nat
  dm_dropped :: "(nat \<times> 'v) list"
  dm_pending :: "change list"

definition DevicesManager_new :: "bool \<Rightarrow> bool \<Rightarrow> bool \<Rightarrow> 'v DevicesManager res" where
  "DevicesManager_new auto_open_first auto_open_all auto_close_offline =
     DCHECK (\<not> (auto_open_first \<and> auto_open_all))
       (Inr \<lparr>dm_auto_open_first = auto_open_first, dm_auto_open_all = auto_open_all,
             dm_auto_close_offline = auto_close_offline, dm_open_first = False, device_to_status = [],
             path_to_device = [], dm_observers = [], dm_created = 0, dm_dropped = [], dm_pending = []\<rparr>)"

definition NotifyDeviceStateChanged :: "'v DevicesManager \<Rightarrow> 'v DevicesManager" where
  "NotifyDeviceStateChanged s = s\<lparr>dm_pending := dm_pending s @ [StateChange]\<rparr>"

definition NotifyDeviceListChanged :: "'v DevicesManager \<Rightarrow> 'v DevicesManager" where
  "NotifyDeviceListChanged s = s\<lparr>dm_pending := dm_pending s @ [ListChange]\<rparr>"

definition Manager_AddObserver :: "nat \<Rightarrow> 'v DevicesManager \<Rightarrow> 'v DevicesManager res" where
  "Manager_AddObserver obs s =
     check NotReached (obs \<notin> set (dm_observers s)) (Inr (s\<lparr>dm_observers := dm_observers s @ [obs]\<rparr>))"

definition Manager_RemoveObserver :: "nat \<Rightarrow> 'v DevicesManager \<Rightarrow> 'v DevicesManager" where
  "Manager_RemoveObserver obs s = s\<lparr>dm_observers := removeAll obs (dm_observers s)\<rparr>"

subsection \<open>Queries\<close>

definition GetDeviceStatus :: "string \<Rightarrow> 'v DevicesManager \<Rightarrow> DeviceStatus" where
  "GetDeviceStatus device_path s =
     (case map_of (device_to_status s) device_path of None \<Rightarrow> kNoExist | Some status \<Rightarrow> status)"

definition GetDeviceManager :: "string \<Rightarrow> 'v DevicesManager \<Rightarrow> (nat \<times> 'v) option" where
  "GetDeviceManager device_path s = map_of (path_to_device s) device_path"

definition GetDeviceList :: "'v DevicesManager \<Rightarrow> string list" where
  "GetDeviceList s = map fst (device_to_status s)"

subsection \<open>Opening and closing\<close>

definition OpenDeviceImpl ::
  "'v DeviceOps \<Rightarrow> string \<Rightarrow> bool \<Rightarrow> 'v DevicesManager \<Rightarrow> (bool \<times> 'v DevicesManager) res" where
  "OpenDeviceImpl ops device_path notify s =
     (case map_of (device_to_status s) device_path of
        None \<Rightarrow> Inr (False, s)
      | Some status \<Rightarrow>
          if status = kOnline \<or> status = kOffline then Inr (False, s)
          else
            and_then (ops_create ops (dm_created s) device_path) (\<lambda>device.
            let n = dm_created s; s = s\<lparr>dm_created := n + 1\<rparr> in
            and_then (ops_init_device ops device) (\<lambda>(error, device).
            if error \<noteq> OK
            then Inr (False, s\<lparr>dm_dropped := dm_dropped s @ [(n, ops_start_destroying ops device)]\<rparr>)
            else
              and_then (Manager_AddObserver n s) (\<lambda>s.
              DCHECK (map_of (device_to_status s) device_path \<noteq> None) (
              let s = s\<lparr>device_to_status := map_put device_path kOnline (device_to_status s)\<rparr> in
              DCHECK (map_of (path_to_device s) device_path = None) (
              let s = s\<lparr>path_to_device := map_put device_path (n, device) (path_to_device s)\<rparr>;
                  s = (if notify then NotifyDeviceStateChanged s else s) in
              and_then (ops_setup ops device) (\<lambda>device.
                Inr (True, s\<lparr>path_to_device := map_put device_path (n, device) (path_to_device s)\<rparr>))))))))"

definition Manager_CloseDeviceImpl ::
  "'v DeviceOps \<Rightarrow> string \<Rightarrow> bool \<Rightarrow> 'v DevicesManager \<Rightarrow> (bool \<times> 'v DevicesManager) res" where
  "Manager_CloseDeviceImpl ops device_path notify s =
     (case map_of (device_to_status s) device_path of
        None \<Rightarrow> Inr (False, s)
      | Some status \<Rightarrow>
          if status = kExist then Inr (False, s)
          else
            (case map_of (path_to_device s) device_path of
               None \<Rightarrow> Inl DcheckFailed
             | Some (n, device) \<Rightarrow>
                 let s = Manager_RemoveObserver n s in
                 and_then (ops_close_device ops device) (\<lambda>device.
                 let s = s\<lparr>dm_dropped := dm_dropped s @ [(n, ops_start_destroying ops device)]\<rparr> in
                 DCHECK (map_of (device_to_status s) device_path \<noteq> None) (
                 let s = s\<lparr>device_to_status := map_put device_path kExist (device_to_status s)\<rparr> in
                 DCHECK (map_of (path_to_device s) device_path \<noteq> None) (
                 let s = s\<lparr>path_to_device := map_erase device_path (path_to_device s)\<rparr> in
                 Inr (True, if notify then NotifyDeviceStateChanged s else s))))))"

definition DestroyDevicesImpl :: "'v DeviceOps \<Rightarrow> 'v DevicesManager \<Rightarrow> 'v DevicesManager res" where
  "DestroyDevicesImpl ops s =
     and_then (for_each (\<lambda>path s. and_then (Manager_CloseDeviceImpl ops path False s) (\<lambda>(_, s). Inr s))
                 (map fst (path_to_device s)) s)
       (\<lambda>s. Inr (NotifyDeviceStateChanged s))"

subsection \<open>A new list of devices\<close>

text \<open>The three loops over the map of statuses: the devices that are both in the map and in the list,
  which they are taken from; those that are not in the list; and those that are new.\<close>

fun merge_known ::
  "(string \<times> DeviceStatus) list \<Rightarrow> string list \<Rightarrow> (string \<times> DeviceStatus) list \<times> string list \<times> string list \<times> bool" where
  "merge_known [] devices = ([], devices, [], False)"
| "merge_known ((path, status) # m) devices =
     (if path \<in> set devices then
        (let (m', rest, off_list, state_change) = merge_known m (remove1 path devices) in
         if status = kOffline then ((path, kOnline) # m', rest, off_list, True)
         else ((path, status) # m', rest, off_list, state_change))
      else
        (let (m', rest, off_list, state_change) = merge_known m devices in
         ((path, status) # m', rest, path # off_list, state_change)))"

definition merge_off ::
  "string \<Rightarrow> (string \<times> DeviceStatus) list \<times> bool \<times> bool \<Rightarrow> (string \<times> DeviceStatus) list \<times> bool \<times> bool" where
  "merge_off path = (\<lambda>(m, list_change, state_change).
     if map_of m path = Some kExist then (map_erase path m, True, state_change)
     else if map_of m path = Some kOnline then (map_put path kOffline m, list_change, True)
     else (m, list_change, state_change))"

definition merge_new ::
  "string \<Rightarrow> (string \<times> DeviceStatus) list \<times> bool \<times> bool \<Rightarrow> (string \<times> DeviceStatus) list \<times> bool \<times> bool" where
  "merge_new path = (\<lambda>(m, list_change, state_change).
     (if map_of m path = None then map_put path kExist m else m, True, state_change))"

definition MergeDeviceList ::
  "string list \<Rightarrow> (string \<times> DeviceStatus) list \<Rightarrow> (string \<times> DeviceStatus) list \<times> bool \<times> bool" where
  "MergeDeviceList devices m =
     (let (m, rest, off_list, state_change) = merge_known m devices in
      fold merge_new rest (fold merge_off off_list (m, False, state_change)))"

text \<open>A call whose answer is not looked at.\<close>

definition ignoring :: "('s \<Rightarrow> (bool \<times> 's) res) \<Rightarrow> 's \<Rightarrow> 's res" where
  "ignoring f s = and_then (f s) (\<lambda>(_, s). Inr s)"

definition auto_first :: "'v DeviceOps \<Rightarrow> string list \<Rightarrow> 'v DevicesManager \<Rightarrow> (bool \<times> 'v DevicesManager) res" where
  "auto_first ops devices s =
     (if dm_auto_open_first s \<and> \<not> dm_open_first s \<and> devices \<noteq> [] then
        and_then (OpenDeviceImpl ops (hd devices) False s) (\<lambda>(ret, s). Inr (True, s\<lparr>dm_open_first := ret\<rparr>))
      else Inr (False, s))"

definition auto_all ::
  "'v DeviceOps \<Rightarrow> 'v DevicesManager \<Rightarrow> (bool \<times> bool \<times> 'v DevicesManager) res" where
  "auto_all ops s =
     (let need_open = (if dm_auto_open_all s then map fst (filter (\<lambda>(_, status). status = kExist) (device_to_status s)) else []);
          need_close = (if dm_auto_close_offline s then map fst (filter (\<lambda>(_, status). status = kOffline) (device_to_status s)) else []) in
      and_then (for_each (\<lambda>path. ignoring (OpenDeviceImpl ops path False)) need_open s) (\<lambda>s.
      and_then (for_each (\<lambda>path. ignoring (Manager_CloseDeviceImpl ops path False)) need_close s) (\<lambda>s.
        Inr (need_close \<noteq> [], need_open \<noteq> [], s))))"

definition DeviceListChanged :: "'v DeviceOps \<Rightarrow> string list \<Rightarrow> 'v DevicesManager \<Rightarrow> 'v DevicesManager res" where
  "DeviceListChanged ops devices s =
     (let (m, list_change, state_change) = MergeDeviceList devices (device_to_status s);
          s = s\<lparr>device_to_status := m\<rparr> in
      and_then (auto_first ops devices s) (\<lambda>(opened, s).
      and_then (auto_all ops s) (\<lambda>(list_change', state_change', s).
      let list_change = list_change \<or> list_change'; state_change = state_change \<or> opened \<or> state_change';
          s = (if list_change then NotifyDeviceListChanged s else s) in
      Inr (if \<not> list_change \<and> state_change then NotifyDeviceStateChanged s else s))))"

text \<open>The posted notification: the runners of open devices are asked to look at their status; their
  \<open>DeviceListChanged\<close> is empty.\<close>

definition deliver_to :: "'v DeviceOps \<Rightarrow> string \<Rightarrow> 'v DevicesManager \<Rightarrow> 'v DevicesManager res" where
  "deliver_to ops path s =
     (case map_of (path_to_device s) path of
        None \<Rightarrow> Inr s
      | Some (n, device) \<Rightarrow>
          if n \<in> set (dm_observers s)
          then and_then (ops_state_changed ops (GetDeviceStatus path s) device) (\<lambda>device.
                 Inr (s\<lparr>path_to_device := map_put path (n, device) (path_to_device s)\<rparr>))
          else Inr s)"

definition deliver :: "'v DeviceOps \<Rightarrow> 'v DevicesManager \<Rightarrow> 'v DevicesManager res" where
  "deliver ops s =
     (case dm_pending s of
        [] \<Rightarrow> Inr s
      | ListChange # rest \<Rightarrow> Inr (s\<lparr>dm_pending := rest\<rparr>)
      | StateChange # rest \<Rightarrow>
          for_each (deliver_to ops) (map fst (path_to_device s)) (s\<lparr>dm_pending := rest\<rparr>))"

subsection \<open>What the new list makes of the statuses\<close>

fun next_status :: "bool \<Rightarrow> DeviceStatus option \<Rightarrow> DeviceStatus option" where
  "next_status True None = Some kExist"
| "next_status True (Some status) = Some (if status = kOffline then kOnline else status)"
| "next_status False None = None"
| "next_status False (Some status) =
     (if status = kExist then None else Some (if status = kOnline then kOffline else status))"

lemma merge_known_result:
  assumes "distinct (map fst m)" and "merge_known m devices = (m1, rest, off, sc)"
  shows "map fst m1 = map fst m \<and>
    (\<forall>p. map_of m1 p = (if p \<in> set devices then map_option (\<lambda>s. if s = kOffline then kOnline else s) (map_of m p) else map_of m p)) \<and>
    off = filter (\<lambda>p. p \<notin> set devices) (map fst m) \<and>
    set rest \<subseteq> set devices \<and> set devices \<subseteq> set rest \<union> fst ` set m \<and>
    (distinct devices \<longrightarrow> set rest \<inter> fst ` set m = {}) \<and>
    (sc \<longleftrightarrow> (\<exists>p \<in> set devices. map_of m p = Some kOffline))"
  using assms
proof (induction m arbitrary: devices m1 rest off sc)
  case (Cons x m)
  obtain path status where x: "x = (path, status)" by (cases x)
  define devs where "devs = (if path \<in> set devices then remove1 path devices else devices)"
  obtain m2 rest2 off2 sc2 where r: "merge_known m devs = (m2, rest2, off2, sc2)" by (cases "merge_known m devs") auto
  have new: "path \<notin> fst ` set m" "map_of m path = None" "distinct (map fst m)"
    using Cons.prems(1) x by (auto simp: map_of_eq_None_iff)
  note ih = Cons.IH [OF new(3) r]
  have mem: "p \<in> set devs \<longleftrightarrow> p \<in> set devices" if "p \<noteq> path" for p
    using that by (simp add: devs_def)
  have sub: "set devs \<subseteq> set devices" by (auto simp: devs_def dest: set_remove1_subset [THEN subsetD])
  have off2: "off2 = filter (\<lambda>p. p \<notin> set devices) (map fst m)"
  proof -
    have "off2 = filter (\<lambda>p. p \<notin> set devs) (map fst m)" using ih by blast
    also have "\<dots> = filter (\<lambda>p. p \<notin> set devices) (map fst m)"
      by (rule filter_cong [OF refl]) (use new(1) mem in \<open>auto simp: image_iff\<close>)
    finally show ?thesis .
  qed
  have sc2: "sc2 \<longleftrightarrow> (\<exists>p \<in> set devices. map_of m p = Some kOffline)"
    using ih mem new(2) by (metis option.distinct(1))
  have of2: "map_of m2 p = (if p \<in> set devices then map_option (\<lambda>s. if s = kOffline then kOnline else s) (map_of m p) else map_of m p)"
    for p using ih mem [of p] new(2) by (cases "p = path") auto
  have rest2: "set rest2 \<subseteq> set devices" "set devices \<subseteq> set rest2 \<union> insert path (fst ` set m)"
    using ih sub mem by blast+
  have dis: "set rest2 \<inter> insert path (fst ` set m) = {}" if "distinct devices" "path \<in> set devices"
    using ih that by (auto simp: devs_def)
  have dis2: "set rest2 \<inter> insert path (fst ` set m) = {}" if "distinct devices" "path \<notin> set devices"
    using ih that rest2(1) by (auto simp: devs_def)
  have m1: "m1 = (path, if path \<in> set devices \<and> status = kOffline then kOnline else status) # m2" "rest = rest2"
    "off = (if path \<in> set devices then off2 else path # off2)"
    "sc \<longleftrightarrow> sc2 \<or> path \<in> set devices \<and> status = kOffline"
    using Cons.prems(2) r by (auto simp: x devs_def split: if_splits)
  show ?case
  proof (intro conjI)
    show "map fst m1 = map fst (x # m)" using ih m1(1) by (simp add: x)
    show "\<forall>p. map_of m1 p = (if p \<in> set devices then map_option (\<lambda>s. if s = kOffline then kOnline else s) (map_of (x # m) p) else map_of (x # m) p)"
      using of2 m1(1) by (simp add: x)
    show "off = filter (\<lambda>p. p \<notin> set devices) (map fst (x # m))" using off2 m1(3) by (simp add: x)
    show "set rest \<subseteq> set devices" "set devices \<subseteq> set rest \<union> fst ` set (x # m)" using rest2 m1(2) by (simp_all add: x)
    show "distinct devices \<longrightarrow> set rest \<inter> fst ` set (x # m) = {}"
      using dis dis2 m1(2) by (cases "path \<in> set devices") (simp_all add: x)
    have "(\<exists>p \<in> set devices. map_of (x # m) p = Some kOffline) \<longleftrightarrow>
      (path \<in> set devices \<and> status = kOffline) \<or> (\<exists>p \<in> set devices. p \<noteq> path \<and> map_of m p = Some kOffline)"
      by (auto simp: x)
    also have "\<dots> \<longleftrightarrow> sc" using sc2 m1(4) new(2) by (metis option.distinct(1))
    finally show "sc \<longleftrightarrow> (\<exists>p \<in> set devices. map_of (x # m) p = Some kOffline)" by simp
  qed
qed auto

lemma fold_merge_off:
  assumes "map_keys_ok m" and "fold merge_off off (m, lc, sc) = (m', lc', sc')" and "distinct off"
  shows "map_keys_ok m' \<and>
    (\<forall>p. map_of m' p = (if p \<in> set off then next_status False (map_of m p) else map_of m p)) \<and>
    (lc' \<longleftrightarrow> lc \<or> (\<exists>p \<in> set off. map_of m p = Some kExist)) \<and>
    (sc' \<longleftrightarrow> sc \<or> (\<exists>p \<in> set off. map_of m p = Some kOnline))"
  using assms
proof (induction off arbitrary: m lc sc)
  case (Cons path off)
  obtain m1 lc1 sc1 where one: "merge_off path (m, lc, sc) = (m1, lc1, sc1)" by (cases "merge_off path (m, lc, sc)") auto
  have m1: "map_keys_ok m1" "map_of m1 = (map_of m)(path := next_status False (map_of m path))"
    "lc1 \<longleftrightarrow> lc \<or> map_of m path = Some kExist" "sc1 \<longleftrightarrow> sc \<or> map_of m path = Some kOnline"
    using one Cons.prems(1)
    by (auto simp: merge_off_def map_keys_ok_erase map_keys_ok_put map_of_erase map_of_put fun_eq_iff split: if_splits)
      (cases "map_of m path"; auto)+
  have rest: "fold merge_off off (m1, lc1, sc1) = (m', lc', sc')" using Cons.prems(2) one by simp
  have "path \<notin> set off" "distinct off" using Cons.prems(3) by simp_all
  with Cons.IH [OF m1(1) rest] m1(2-4) show ?case by auto
qed auto

lemma fold_merge_new:
  assumes "map_keys_ok m" and "fold merge_new rest (m, lc, sc) = (m', lc', sc')"
  shows "map_keys_ok m' \<and>
    (\<forall>p. map_of m' p = (if p \<in> set rest \<and> map_of m p = None then Some kExist else map_of m p)) \<and>
    (lc' \<longleftrightarrow> lc \<or> rest \<noteq> []) \<and> sc' = sc"
  using assms
proof (induction rest arbitrary: m lc)
  case (Cons path rest)
  let ?m = "if map_of m path = None then map_put path kExist m else m"
  have m: "map_keys_ok ?m" "map_of ?m = (if map_of m path = None then (map_of m)(path \<mapsto> kExist) else map_of m)"
    using Cons.prems(1) by (auto simp: map_keys_ok_put map_of_put)
  have "fold merge_new rest (?m, True, sc) = (m', lc', sc')"
    using Cons.prems(2) by (simp add: merge_new_def [of path])
  from Cons.IH [OF m(1) this] m(2) show ?case by auto
qed auto

lemma ex_differs: "(\<exists>p. A p \<and> \<not> B p) \<or> (\<exists>p. \<not> A p \<and> B p) \<longleftrightarrow> \<not> (\<forall>p. B p \<longleftrightarrow> A p)"
  by blast

lemma device_list_merge_result:
  assumes "map_keys_ok m" and "MergeDeviceList devices m = (m', list_change, state_change)"
  shows "map_keys_ok m' \<and> (\<forall>p. map_of m' p = next_status (p \<in> set devices) (map_of m p)) \<and>
    (state_change \<longleftrightarrow> (\<exists>p st st'. map_of m p = Some st \<and> map_of m' p = Some st' \<and> st \<noteq> st')) \<and>
    (distinct devices \<longrightarrow> (list_change \<longleftrightarrow> dom (map_of m') \<noteq> dom (map_of m)))"
proof -
  obtain m1 rest off sc1 where known: "merge_known m devices = (m1, rest, off, sc1)"
    by (cases "merge_known m devices") auto
  obtain m2 lc2 sc2 where off: "fold merge_off off (m1, False, sc1) = (m2, lc2, sc2)"
    by (cases "fold merge_off off (m1, False, sc1)") auto
  have new: "fold merge_new rest (m2, lc2, sc2) = (m', list_change, state_change)"
    using assms(2) known off by (simp add: MergeDeviceList_def)
  note k = merge_known_result [OF map_keys_ok_distinct [OF assms(1)] known]
  have keys1: "map_keys_ok m1" using k assms(1) by (simp add: map_keys_ok_def)
  have distinct: "distinct off" using k map_keys_ok_distinct [OF assms(1)] by simp
  note o = fold_merge_off [OF keys1 off distinct]
  have keys2: "map_keys_ok m2" using o by blast
  note n = fold_merge_new [OF keys2 new]
  have of1: "map_of m1 p = (if p \<in> set devices then map_option (\<lambda>s. if s = kOffline then kOnline else s) (map_of m p) else map_of m p)" for p
    using k by blast
  have dom: "p \<in> fst ` set m \<longleftrightarrow> map_of m p \<noteq> None" for p by (auto simp: map_of_eq_None_iff)
  have off_set: "p \<in> set off \<longleftrightarrow> p \<notin> set devices \<and> map_of m p \<noteq> None" for p
  proof -
    have "off = filter (\<lambda>p. p \<notin> set devices) (map fst m)" using k by blast
    then show ?thesis unfolding dom [symmetric] by auto
  qed
  have of2: "map_of m2 p = (if p \<in> set off then next_status False (map_of m1 p) else map_of m1 p)" for p using o by blast
  have rest: "p \<in> set rest \<Longrightarrow> p \<in> set devices" "p \<in> set devices \<Longrightarrow> map_of m p = None \<Longrightarrow> p \<in> set rest" for p
    using k dom by blast+
  have of3: "map_of m' p = (if p \<in> set rest \<and> map_of m2 p = None then Some kExist else map_of m2 p)" for p using n by blast
  have result: "map_of m' p = next_status (p \<in> set devices) (map_of m p)" for p
    using of1 [of p] of2 [of p] of3 [of p] off_set [of p] rest [of p]
    by (cases "p \<in> set devices"; cases "map_of m p") auto
  have sc: "state_change \<longleftrightarrow> (\<exists>p \<in> set devices. map_of m p = Some kOffline) \<or> (\<exists>p \<in> set off. map_of m1 p = Some kOnline)"
    using k o n by blast
  have "state_change \<longleftrightarrow> (\<exists>p st st'. map_of m p = Some st \<and> map_of m' p = Some st' \<and> st \<noteq> st')"
  proof
    assume state_change
    then consider p where "p \<in> set devices" "map_of m p = Some kOffline" | p where "p \<in> set off" "map_of m1 p = Some kOnline"
      using sc by blast
    then show "\<exists>p st st'. map_of m p = Some st \<and> map_of m' p = Some st' \<and> st \<noteq> st'"
    proof cases
      case 1
      then show ?thesis using result [of p] by auto
    next
      case 2
      then have "map_of m p = Some kOnline" "p \<notin> set devices" using off_set [of p] of1 [of p] by auto
      then show ?thesis using result [of p] by auto
    qed
  next
    assume "\<exists>p st st'. map_of m p = Some st \<and> map_of m' p = Some st' \<and> st \<noteq> st'"
    then obtain p st st' where p: "map_of m p = Some st" "map_of m' p = Some st'" "st \<noteq> st'" by blast
    then have "p \<in> set devices \<and> st = kOffline \<or> p \<notin> set devices \<and> st = kOnline"
      using result [of p] by (cases "p \<in> set devices") (auto split: if_splits)
    then show state_change unfolding sc using p(1) off_set [of p] of1 [of p] by auto
  qed
  moreover have "list_change \<longleftrightarrow> dom (map_of m') \<noteq> dom (map_of m)" if d: "distinct devices"
  proof -
    have lc: "list_change \<longleftrightarrow> (\<exists>p \<in> set off. map_of m1 p = Some kExist) \<or> rest \<noteq> []" using o n by blast
    have gone: "(\<exists>p \<in> set off. map_of m1 p = Some kExist) \<longleftrightarrow> (\<exists>p. map_of m p \<noteq> None \<and> map_of m' p = None)"
    proof -
      have "p \<in> set off \<and> map_of m1 p = Some kExist \<longleftrightarrow> map_of m p \<noteq> None \<and> map_of m' p = None" for p
        using off_set [of p] of1 [of p] result [of p] by (cases "p \<in> set devices"; cases "map_of m p") auto
      then show ?thesis by blast
    qed
    have come: "rest \<noteq> [] \<longleftrightarrow> (\<exists>p. map_of m p = None \<and> map_of m' p \<noteq> None)"
    proof -
      have "p \<in> set rest \<longleftrightarrow> map_of m p = None \<and> map_of m' p \<noteq> None" for p
        using k d dom [of p] rest [of p] result [of p] by (cases "p \<in> set devices"; cases "map_of m p") auto
      then show ?thesis by (metis list.set_intros(1) neq_Nil_conv empty_iff list.set(1))
    qed
    show ?thesis unfolding lc gone come set_eq_iff domIff
      using ex_differs [of "\<lambda>p. map_of m p \<noteq> None" "\<lambda>p. map_of m' p \<noteq> None"] by simp
  qed
  ultimately show ?thesis using n result by blast
qed

text \<open>C11. A new list of devices changes the statuses as \<open>next_status\<close> says: a device that is new exists,
  one that is gone is forgotten if it was not open and is offline if it was, and an offline one that is
  back is online.  \<open>state_change\<close> says exactly whether a device that stays in the map has a new
  status, \<open>list_change\<close> whether one has come or gone; a path that the list has twice counts as a
  change of the list.\<close>

theorem device_list_merge:
  assumes "map_keys_ok m" and "MergeDeviceList devices m = (m', list_change, state_change)"
  shows "map_keys_ok m' \<and> (\<forall>p. map_of m' p = next_status (p \<in> set devices) (map_of m p)) \<and>
    (state_change \<longleftrightarrow> (\<exists>p st st'. map_of m p = Some st \<and> map_of m' p = Some st' \<and> st \<noteq> st')) \<and>
    (distinct devices \<longrightarrow> (list_change \<longleftrightarrow> dom (map_of m') \<noteq> dom (map_of m)))"
  using device_list_merge_result [OF assms] .

lemma device_list_merge_witness:
  "\<exists>m. MergeDeviceList [''b'', ''c''] [(''a'', kOnline), (''b'', kOffline)] = (m, True, True) \<and>
     map_of m ''a'' = Some kOffline \<and> map_of m ''b'' = Some kOnline \<and> map_of m ''c'' = Some kExist"
proof -
  have "\<exists>m. MergeDeviceList [''b'', ''c''] [(''a'', kOnline), (''b'', kOffline)] = (m, True, True)"
    by (simp add: MergeDeviceList_def merge_off_def merge_new_def)
  then obtain m where m: "MergeDeviceList [''b'', ''c''] [(''a'', kOnline), (''b'', kOffline)] = (m, True, True)" ..
  have "map_keys_ok [(''a'', kOnline), (''b'', kOffline)]" by simp
  from device_list_merge [OF this m] m show ?thesis by simp
qed

subsection \<open>The invariant\<close>

text \<open>Exactly the devices that are online or offline are open; the observers are the runners of the
  open devices, each of them once.\<close>

definition open_status :: "DeviceStatus option \<Rightarrow> bool" where
  "open_status st \<longleftrightarrow> st = Some kOnline \<or> st = Some kOffline"

definition registry_ok ::
  "('v \<Rightarrow> bool) \<Rightarrow> (string \<Rightarrow> DeviceStatus option) \<Rightarrow> (string \<Rightarrow> (nat \<times> 'v) option) \<Rightarrow> nat list \<Rightarrow> nat \<Rightarrow> bool" where
  "registry_ok ready st dev obs created \<longleftrightarrow>
     st '''' = None \<and> (\<forall>p. st p \<noteq> Some kNoExist) \<and> (\<forall>p. dev p \<noteq> None \<longleftrightarrow> open_status (st p)) \<and>
     (\<forall>p n v. dev p = Some (n, v) \<longrightarrow> n < created \<and> n \<in> set obs \<and> ready v) \<and>
     (\<forall>n \<in> set obs. \<exists>p v. dev p = Some (n, v)) \<and>
     (\<forall>p q n v w. dev p = Some (n, v) \<longrightarrow> dev q = Some (n, w) \<longrightarrow> p = q) \<and> distinct obs"

definition manager_ok :: "bool \<Rightarrow> ('v \<Rightarrow> bool) \<Rightarrow> 'v DevicesManager \<Rightarrow> bool" where
  "manager_ok env ready s \<longleftrightarrow>
     env \<and> map_keys_ok (device_to_status s) \<and> map_keys_ok (path_to_device s) \<and>
     registry_ok ready (map_of (device_to_status s)) (map_of (path_to_device s)) (dm_observers s) (dm_created s)"

lemma registry_fresh: "registry_ok ready st dev obs created \<Longrightarrow> created \<notin> set obs"
  unfolding registry_ok_def by (metis less_irrefl)

lemma registry_later: "registry_ok ready st dev obs created \<Longrightarrow> registry_ok ready st dev obs (Suc created)"
  unfolding registry_ok_def by (elim conjE) (intro conjI; (assumption | blast intro: less_SucI))

lemma registry_open:
  assumes "registry_ok ready st dev obs created" and "st p = Some x" and "\<not> open_status (st p)" and "ready v"
  shows "registry_ok ready (st(p \<mapsto> kOnline)) (dev(p \<mapsto> (created, v))) (obs @ [created]) (Suc created)"
  unfolding registry_ok_def
proof (intro conjI)
  note r = assms(1) [unfolded registry_ok_def]
  have none: "dev p = None" using r assms(3) by (elim conjE) blast
  have less: "\<And>q n w. dev q = Some (n, w) \<Longrightarrow> n < created \<and> n \<in> set obs \<and> ready w" using r by blast
  show "(st(p \<mapsto> kOnline)) '''' = None" using r assms(2) by auto
  show "\<forall>q. (st(p \<mapsto> kOnline)) q \<noteq> Some kNoExist" using r by auto
  show "\<forall>q. (dev(p \<mapsto> (created, v))) q \<noteq> None \<longleftrightarrow> open_status ((st(p \<mapsto> kOnline)) q)"
    using r by (simp add: open_status_def)
  show "\<forall>q n w. (dev(p \<mapsto> (created, v))) q = Some (n, w) \<longrightarrow> n < Suc created \<and> n \<in> set (obs @ [created]) \<and> ready w"
    using less assms(4) by (auto simp: less_Suc_eq)
  show "\<forall>n \<in> set (obs @ [created]). \<exists>q w. (dev(p \<mapsto> (created, v))) q = Some (n, w)"
  proof
    fix n assume "n \<in> set (obs @ [created])"
    then consider "n = created" | q w where "dev q = Some (n, w)" using r by auto
    then show "\<exists>q w. (dev(p \<mapsto> (created, v))) q = Some (n, w)"
    proof cases
      case 1
      then show ?thesis by (intro exI [of _ p]) simp
    next
      case 2
      then show ?thesis using none by (intro exI [of _ q]) auto
    qed
  qed
  show "\<forall>q q' n w w'. (dev(p \<mapsto> (created, v))) q = Some (n, w) \<longrightarrow> (dev(p \<mapsto> (created, v))) q' = Some (n, w') \<longrightarrow> q = q'"
  proof (intro allI impI)
    fix q q' n w w'
    assume "(dev(p \<mapsto> (created, v))) q = Some (n, w)" "(dev(p \<mapsto> (created, v))) q' = Some (n, w')"
    then show "q = q'" using less [of q n w] less [of q' n w'] r by (cases "q = p"; cases "q' = p") auto
  qed
  show "distinct (obs @ [created])" using r registry_fresh [OF assms(1)] by simp
qed

lemma registry_close:
  assumes "registry_ok ready st dev obs created" and "dev p = Some (n, v)"
  shows "registry_ok ready (st(p \<mapsto> kExist)) (dev(p := None)) (removeAll n obs) created"
  unfolding registry_ok_def
proof (intro conjI)
  note r = assms(1) [unfolded registry_ok_def]
  have "open_status (st p)" using r assms(2) by (metis option.distinct(1))
  then show "(st(p \<mapsto> kExist)) '''' = None" using r by (auto simp: open_status_def)
  show "\<forall>q. (st(p \<mapsto> kExist)) q \<noteq> Some kNoExist" using r by auto
  show "\<forall>q. (dev(p := None)) q \<noteq> None \<longleftrightarrow> open_status ((st(p \<mapsto> kExist)) q)" using r by (simp add: open_status_def)
  show "\<forall>q m w. (dev(p := None)) q = Some (m, w) \<longrightarrow> m < created \<and> m \<in> set (removeAll n obs) \<and> ready w"
  proof (intro allI impI)
    fix q m w assume "(dev(p := None)) q = Some (m, w)"
    then have q: "q \<noteq> p" "dev q = Some (m, w)" by (auto split: if_splits)
    then have "m \<noteq> n" using r assms(2) by blast
    then show "m < created \<and> m \<in> set (removeAll n obs) \<and> ready w" using r q(2) by auto
  qed
  show "\<forall>m \<in> set (removeAll n obs). \<exists>q w. (dev(p := None)) q = Some (m, w)"
  proof
    fix m assume "m \<in> set (removeAll n obs)"
    then obtain q w where "dev q = Some (m, w)" "m \<noteq> n" using r by auto
    then show "\<exists>q w. (dev(p := None)) q = Some (m, w)" using assms(2) by (intro exI [of _ q]) auto
  qed
  show "\<forall>q q' m w w'. (dev(p := None)) q = Some (m, w) \<longrightarrow> (dev(p := None)) q' = Some (m, w') \<longrightarrow> q = q'"
  proof (intro allI impI)
    fix q q' m w w'
    assume "(dev(p := None)) q = Some (m, w)" "(dev(p := None)) q' = Some (m, w')"
    then have "dev q = Some (m, w)" "dev q' = Some (m, w')" by (simp_all split: if_splits)
    then show "q = q'" using r by blast
  qed
  show "distinct (removeAll n obs)" using r by (simp add: distinct_removeAll)
qed

lemma registry_merge:
  assumes "registry_ok ready st dev obs created" and "\<forall>p. st' p = next_status (b p) (st p)" and "\<not> b ''''"
  shows "registry_ok ready st' dev obs created"
proof -
  note r = assms(1) [unfolded registry_ok_def]
  have same: "open_status (st' p) \<longleftrightarrow> open_status (st p)" for p
    using assms(2) by (cases "b p"; cases "st p") (auto simp: open_status_def)
  have "st' p \<noteq> Some kNoExist" for p
    using assms(2) r by (cases "b p"; cases "st p") auto
  moreover have "st' '''' = None" using assms(2,3) r by simp
  ultimately show ?thesis using r unfolding registry_ok_def same by blast
qed

lemma registry_update:
  assumes "registry_ok ready st dev obs created" and "dev p = Some (n, v)" and "ready w"
  shows "registry_ok ready st (dev(p \<mapsto> (n, w))) obs created"
  unfolding registry_ok_def
proof (intro conjI)
  note r = assms(1) [unfolded registry_ok_def]
  show "st '''' = None" "\<forall>p. st p \<noteq> Some kNoExist" "distinct obs" using r by blast+
  show "\<forall>q. (dev(p \<mapsto> (n, w))) q \<noteq> None \<longleftrightarrow> open_status (st q)" using r assms(2) by (auto split: if_splits)
  show "\<forall>q m u. (dev(p \<mapsto> (n, w))) q = Some (m, u) \<longrightarrow> m < created \<and> m \<in> set obs \<and> ready u"
    using r assms(2,3) by (auto split: if_splits)
  show "\<forall>m \<in> set obs. \<exists>q u. (dev(p \<mapsto> (n, w))) q = Some (m, u)"
  proof
    fix m assume "m \<in> set obs"
    then obtain q u where q: "dev q = Some (m, u)" using r by blast
    then show "\<exists>q u. (dev(p \<mapsto> (n, w))) q = Some (m, u)" using assms(2) by (intro exI [of _ q]) auto
  qed
  show "\<forall>q q' m u u'. (dev(p \<mapsto> (n, w))) q = Some (m, u) \<longrightarrow> (dev(p \<mapsto> (n, w))) q' = Some (m, u') \<longrightarrow> q = q'"
  proof (intro allI impI)
    fix q q' m u u'
    assume "(dev(p \<mapsto> (n, w))) q = Some (m, u)" "(dev(p \<mapsto> (n, w))) q' = Some (m, u')"
    then obtain x x' where "dev q = Some (m, x)" "dev q' = Some (m, x')" using assms(2) by (auto split: if_splits)
    then show "q = q'" using r by blast
  qed
qed

text \<open>What the client needs of the operations of a device: \<open>fresh\<close> after its creation, \<open>opened\<close> after
  \<open>InitDevice\<close>, \<open>ready\<close> when it is set up; \<open>faults\<close> are those that the operations may stop with, and
  \<open>env\<close> is what they need of their surroundings.\<close>

definition stays :: "fault set \<Rightarrow> ('s \<Rightarrow> bool) \<Rightarrow> 's res \<Rightarrow> bool" where
  "stays F P r \<longleftrightarrow> (case r of Inl f \<Rightarrow> f \<in> F | Inr s \<Rightarrow> P s)"

lemma stays_simps [simp]: "stays F P (Inl f) \<longleftrightarrow> f \<in> F" "stays F P (Inr s) \<longleftrightarrow> P s"
  by (simp_all add: stays_def)

lemma stays_and_then:
  assumes "stays F P r" and "\<And>s. r = Inr s \<Longrightarrow> P s \<Longrightarrow> stays F Q (g s)"
  shows "stays F Q (and_then r g)"
  using assms by (cases r) auto

lemma stays_for_each:
  assumes "I s" and "\<And>x s. x \<in> set xs \<Longrightarrow> I s \<Longrightarrow> stays F I (f x s)"
  shows "stays F I (for_each f xs s)"
  using assms by (induction xs arbitrary: s) (auto intro!: stays_and_then)

lemma stays_mono: "stays F P r \<Longrightarrow> (\<And>s. P s \<Longrightarrow> Q s) \<Longrightarrow> stays F Q r"
  by (cases r) auto

datatype manager_call = MC_List "string list" | MC_Open string | MC_Close string | MC_Destroy | MC_Deliver

fun manager_run :: "'v DeviceOps \<Rightarrow> manager_call \<Rightarrow> 'v DevicesManager \<Rightarrow> 'v DevicesManager res" where
  "manager_run ops (MC_List devices) s = DeviceListChanged ops devices s"
| "manager_run ops (MC_Open path) s = ignoring (OpenDeviceImpl ops path True) s"
| "manager_run ops (MC_Close path) s = ignoring (Manager_CloseDeviceImpl ops path True) s"
| "manager_run ops MC_Destroy s = DestroyDevicesImpl ops s"
| "manager_run ops MC_Deliver s = deliver ops s"

text \<open>No path that is enumerated is empty.\<close>

fun call_ok :: "manager_call \<Rightarrow> bool" where
  "call_ok (MC_List devices) = ('''' \<notin> set devices)" | "call_ok _ = True"

inductive manager_reach :: "'v DeviceOps \<Rightarrow> 'v DevicesManager \<Rightarrow> bool" for ops where
  manager_new: "DevicesManager_new a b c = Inr s \<Longrightarrow> manager_reach ops s"
| manager_call: "manager_reach ops s \<Longrightarrow> call_ok c \<Longrightarrow> manager_run ops c s = Inr t \<Longrightarrow> manager_reach ops t"

locale managed_device =
  fixes ops :: "'v DeviceOps" and env :: bool and fresh opened ready :: "'v \<Rightarrow> bool" and faults :: "fault set"
  assumes create_total: "env \<Longrightarrow> path \<noteq> '''' \<Longrightarrow> \<exists>v. ops_create ops n path = Inr v \<and> fresh v"
    and init_stays: "fresh v \<Longrightarrow> stays faults (\<lambda>(err, v). err = OK \<longrightarrow> opened v) (ops_init_device ops v)"
    and setup_stays: "opened v \<Longrightarrow> stays faults ready (ops_setup ops v)"
    and close_total: "ready v \<Longrightarrow> \<exists>v'. ops_close_device ops v = Inr v'"
    and changed_total: "ready v \<Longrightarrow> \<exists>v'. ops_state_changed ops status v = Inr v' \<and> ready v'"
begin

lemma open_result:
  assumes "manager_ok env ready s"
  shows "stays faults (\<lambda>(ret, t). manager_ok env ready t \<and> device_to_status t \<in>
      {device_to_status s, map_put path kOnline (device_to_status s)}) (OpenDeviceImpl ops path notify s)"
proof (cases "map_of (device_to_status s) path = None \<or> open_status (map_of (device_to_status s) path)")
  case True
  then show ?thesis using assms by (auto simp: OpenDeviceImpl_def open_status_def)
next
  case False
  note ok = assms [unfolded manager_ok_def]
  then have reg: "registry_ok ready (map_of (device_to_status s)) (map_of (path_to_device s)) (dm_observers s) (dm_created s)"
    by blast
  obtain status where st: "map_of (device_to_status s) path = Some status" "status \<noteq> kOnline" "status \<noteq> kOffline"
    using False by (auto simp: open_status_def)
  have path: "path \<noteq> ''''" using st(1) reg by (auto simp: registry_ok_def)
  have closed: "map_of (path_to_device s) path = None" using False reg unfolding registry_ok_def by blast
  obtain v where v: "ops_create ops (dm_created s) path = Inr v" "fresh v" using create_total [OF _ path] ok by blast
  show ?thesis
  proof (cases "ops_init_device ops v")
    case (Inl f)
    then show ?thesis using init_stays [OF v(2)] st v(1) by (simp add: OpenDeviceImpl_def)
  next
    case (Inr r)
    obtain err v1 where r: "r = (err, v1)" by (cases r)
    show ?thesis
    proof (cases "err = OK")
      case False
      then show ?thesis using ok st v(1) Inr r registry_later
        by (auto simp: OpenDeviceImpl_def Let_def manager_ok_def)
    next
      case True
      have opened: "opened v1" using init_stays [OF v(2)] Inr r True by simp
      have run: "OpenDeviceImpl ops path notify s = and_then (ops_setup ops v1) (\<lambda>v2. Inr (True,
          s\<lparr>dm_created := dm_created s + 1, dm_observers := dm_observers s @ [dm_created s],
            device_to_status := map_put path kOnline (device_to_status s),
            path_to_device := map_put path (dm_created s, v2) (map_put path (dm_created s, v1) (path_to_device s)),
            dm_pending := dm_pending s @ (if notify then [StateChange] else [])\<rparr>))"
        using st v(1) Inr r True closed registry_fresh [OF reg]
        by (cases "ops_setup ops v1")
          (simp_all add: OpenDeviceImpl_def Let_def Manager_AddObserver_def NotifyDeviceStateChanged_def)
      show ?thesis unfolding run
      proof (rule stays_and_then [OF setup_stays [OF opened]])
        fix v2 assume v2: "ready v2"
        from registry_open [OF reg st(1) _ this] False ok show "stays faults (\<lambda>(ret, t). manager_ok env ready t \<and>
          device_to_status t \<in> {device_to_status s, map_put path kOnline (device_to_status s)}) (Inr (True,
          s\<lparr>dm_created := dm_created s + 1, dm_observers := dm_observers s @ [dm_created s],
            device_to_status := map_put path kOnline (device_to_status s),
            path_to_device := map_put path (dm_created s, v2) (map_put path (dm_created s, v1) (path_to_device s)),
            dm_pending := dm_pending s @ (if notify then [StateChange] else [])\<rparr>))"
          by (simp add: manager_ok_def map_keys_ok_put map_of_put)
      qed
    qed
  qed
qed

lemma open_ok: "manager_ok env ready s \<Longrightarrow> stays faults (\<lambda>(ret, t). manager_ok env ready t) (OpenDeviceImpl ops path notify s)"
  using open_result by (rule stays_mono) auto

lemma close_result:
  assumes "manager_ok env ready s"
  shows "\<exists>ret t. Manager_CloseDeviceImpl ops path notify s = Inr (ret, t) \<and> manager_ok env ready t \<and>
    device_to_status t = (if open_status (map_of (device_to_status s) path) then map_put path kExist (device_to_status s)
      else device_to_status s)"
proof (cases "map_of (device_to_status s) path = None \<or> map_of (device_to_status s) path = Some kExist")
  case True
  then show ?thesis using assms by (auto simp: Manager_CloseDeviceImpl_def open_status_def)
next
  case False
  note ok = assms [unfolded manager_ok_def]
  then have reg: "registry_ok ready (map_of (device_to_status s)) (map_of (path_to_device s)) (dm_observers s) (dm_created s)"
    by blast
  obtain status where st: "map_of (device_to_status s) path = Some status" "status \<noteq> kExist" using False by auto
  then have opened: "open_status (map_of (device_to_status s) path)"
    using reg by (cases status) (auto simp: registry_ok_def open_status_def)
  obtain n v where dev: "map_of (path_to_device s) path = Some (n, v)" using opened reg unfolding registry_ok_def by (metis not_None_eq surj_pair)
  then have "ready v" using reg unfolding registry_ok_def by blast
  then obtain v' where "ops_close_device ops v = Inr v'" using close_total by blast
  then have "Manager_CloseDeviceImpl ops path notify s = Inr (True,
      s\<lparr>dm_observers := removeAll n (dm_observers s), dm_dropped := dm_dropped s @ [(n, ops_start_destroying ops v')],
        device_to_status := map_put path kExist (device_to_status s),
        path_to_device := map_erase path (path_to_device s),
        dm_pending := dm_pending s @ (if notify then [StateChange] else [])\<rparr>)"
    using st dev
    by (simp add: Manager_CloseDeviceImpl_def Let_def Manager_RemoveObserver_def NotifyDeviceStateChanged_def)
  then show ?thesis using registry_close [OF reg dev] ok opened
    by (simp add: manager_ok_def map_keys_ok_put map_keys_ok_erase map_of_put map_of_erase ex_bool_eq)
qed

lemma close_ok:
  "manager_ok env ready s \<Longrightarrow> stays faults (\<lambda>(ret, t). manager_ok env ready t) (Manager_CloseDeviceImpl ops path notify s)"
  using close_result [of s path notify] by auto

lemma ignoring_ok: "stays faults (\<lambda>(ret, t). P t) (f s) \<Longrightarrow> stays faults P (ignoring f s)"
  by (auto simp: ignoring_def intro!: stays_and_then)

lemma pending_ok [simp]:
  "manager_ok env ready (s\<lparr>dm_pending := ns\<rparr>) = manager_ok env ready s"
  "manager_ok env ready (s\<lparr>dm_open_first := b\<rparr>) = manager_ok env ready s"
  by (simp_all add: manager_ok_def)

lemma notify_ok [simp]:
  "manager_ok env ready (NotifyDeviceStateChanged s) = manager_ok env ready s"
  "manager_ok env ready (NotifyDeviceListChanged s) = manager_ok env ready s"
  by (simp_all add: NotifyDeviceStateChanged_def NotifyDeviceListChanged_def)

lemma destroy_ok:
  assumes "manager_ok env ready s"
  shows "stays faults (manager_ok env ready) (DestroyDevicesImpl ops s)"
proof -
  have "stays faults (manager_ok env ready)
      (for_each (\<lambda>path s. and_then (Manager_CloseDeviceImpl ops path False s) (\<lambda>(_, s). Inr s)) (map fst (path_to_device s)) s)"
    using assms ignoring_ok [OF close_ok] by (intro stays_for_each) (simp_all add: ignoring_def)
  then show ?thesis unfolding DestroyDevicesImpl_def by (rule stays_and_then) simp
qed

lemma deliver_to_ok:
  assumes "manager_ok env ready s"
  shows "stays faults (manager_ok env ready) (deliver_to ops path s)"
proof (cases "map_of (path_to_device s) path")
  case None
  then show ?thesis using assms by (simp add: deliver_to_def)
next
  case (Some d)
  obtain n v where d: "d = (n, v)" by (cases d)
  have reg: "registry_ok ready (map_of (device_to_status s)) (map_of (path_to_device s)) (dm_observers s) (dm_created s)"
    using assms by (simp add: manager_ok_def)
  then have "ready v" using Some d unfolding registry_ok_def by blast
  then obtain v' where v': "ops_state_changed ops (GetDeviceStatus path s) v = Inr v'" "ready v'"
    using changed_total by blast
  show ?thesis
    using Some d v' assms registry_update [OF reg, of path n v v']
    by (auto simp: deliver_to_def manager_ok_def map_keys_ok_put map_of_put)
qed

lemma deliver_ok: "manager_ok env ready s \<Longrightarrow> stays faults (manager_ok env ready) (deliver ops s)"
  by (auto simp: deliver_def intro!: stays_for_each deliver_to_ok split: list.split change.split)

lemma auto_first_ok:
  "manager_ok env ready s \<Longrightarrow> stays faults (\<lambda>(b, t). manager_ok env ready t) (auto_first ops devices s)"
  by (auto simp: auto_first_def intro!: stays_and_then [OF open_ok])

lemma auto_all_ok:
  assumes "manager_ok env ready s"
  shows "stays faults (\<lambda>(a, b, t). manager_ok env ready t) (auto_all ops s)"
  unfolding auto_all_def Let_def
proof (rule stays_and_then)
  show "stays faults (manager_ok env ready) (for_each (\<lambda>path. ignoring (OpenDeviceImpl ops path False))
      (if dm_auto_open_all s then map fst (filter (\<lambda>(_, status). status = kExist) (device_to_status s)) else []) s)"
    using assms by (intro stays_for_each ignoring_ok open_ok)
  fix t assume t: "manager_ok env ready t"
  show "stays faults (\<lambda>(a, b, t). manager_ok env ready t)
     (and_then (for_each (\<lambda>path. ignoring (Manager_CloseDeviceImpl ops path False))
        (if dm_auto_close_offline s then map fst (filter (\<lambda>(_, status). status = kOffline) (device_to_status s)) else []) t)
       (\<lambda>u. Inr ((if dm_auto_close_offline s then map fst (filter (\<lambda>(_, status). status = kOffline) (device_to_status s)) else []) \<noteq> [],
                (if dm_auto_open_all s then map fst (filter (\<lambda>(_, status). status = kExist) (device_to_status s)) else []) \<noteq> [], u)))"
  proof (rule stays_and_then)
    show "stays faults (manager_ok env ready) (for_each (\<lambda>path. ignoring (Manager_CloseDeviceImpl ops path False))
        (if dm_auto_close_offline s then map fst (filter (\<lambda>(_, status). status = kOffline) (device_to_status s)) else []) t)"
      using t by (intro stays_for_each ignoring_ok close_ok)
  qed simp
qed

lemma merge_ok:
  assumes "manager_ok env ready s" and "MergeDeviceList devices (device_to_status s) = (m, lc, sc)" and "'''' \<notin> set devices"
  shows "manager_ok env ready (s\<lparr>device_to_status := m\<rparr>)"
proof -
  have keys: "map_keys_ok (device_to_status s)" using assms(1) by (simp add: manager_ok_def)
  note merged = device_list_merge_result [OF keys assms(2)]
  have "registry_ok ready (map_of m) (map_of (path_to_device s)) (dm_observers s) (dm_created s)"
    by (rule registry_merge [where b = "\<lambda>p. p \<in> set devices" and st = "map_of (device_to_status s)"])
      (use merged assms(1,3) in \<open>simp_all add: manager_ok_def\<close>)
  then show ?thesis using merged assms(1) by (simp add: manager_ok_def)
qed

lemma list_changed_ok:
  assumes "manager_ok env ready s" and "'''' \<notin> set devices"
  shows "stays faults (manager_ok env ready) (DeviceListChanged ops devices s)"
proof -
  obtain m lc sc where merge: "MergeDeviceList devices (device_to_status s) = (m, lc, sc)"
    by (cases "MergeDeviceList devices (device_to_status s)") auto
  have ok: "manager_ok env ready (s\<lparr>device_to_status := m\<rparr>)" by (rule merge_ok [OF assms(1) merge assms(2)])
  have last: "stays faults (manager_ok env ready) (and_then (auto_all ops t) (f :: _ \<Rightarrow> 'v DevicesManager res))"
    if "manager_ok env ready t" "\<And>a b u. manager_ok env ready u \<Longrightarrow> stays faults (manager_ok env ready) (f (a, b, u))" for t f
    by (rule stays_and_then [OF auto_all_ok [OF that(1)]]) (use that(2) in \<open>simp split: prod.splits\<close>)
  have first: "stays faults (manager_ok env ready) (and_then (auto_first ops devices (s\<lparr>device_to_status := m\<rparr>)) (f :: _ \<Rightarrow> 'v DevicesManager res))"
    if "\<And>a u. manager_ok env ready u \<Longrightarrow> stays faults (manager_ok env ready) (f (a, u))" for f
    by (rule stays_and_then [OF auto_first_ok [OF ok]]) (use that in \<open>simp split: prod.splits\<close>)
  show ?thesis unfolding DeviceListChanged_def merge Let_def prod.case
    by (rule first, unfold prod.case, rule last) (simp_all split: prod.split)
qed

lemma run_ok: "manager_ok env ready s \<Longrightarrow> call_ok c \<Longrightarrow> stays faults (manager_ok env ready) (manager_run ops c s)"
  by (cases c) (simp_all add: list_changed_ok ignoring_ok open_ok close_ok destroy_ok deliver_ok)

lemma reach_ok: "manager_reach ops s \<Longrightarrow> env \<Longrightarrow> manager_ok env ready s"
proof (induction rule: manager_reach.induct)
  case (manager_new a b c s)
  then show ?case by (auto simp: DevicesManager_new_def check_Inr_iff manager_ok_def registry_ok_def open_status_def)
next
  case (manager_call s c t)
  then show ?case using run_ok [OF manager_call.IH manager_call.hyps(2)] by simp
qed

text \<open>With \<open>auto_close_offline\<close> a new list leaves no device offline.\<close>

lemma close_all_offline:
  assumes "manager_ok env ready s"
    and "\<forall>p. map_of (device_to_status s) p = Some kOffline \<longrightarrow> p \<in> set paths"
  shows "\<exists>t. for_each (\<lambda>path. ignoring (Manager_CloseDeviceImpl ops path False)) paths s = Inr t \<and>
    manager_ok env ready t \<and> (\<forall>p. map_of (device_to_status t) p \<noteq> Some kOffline)"
  using assms
proof (induction paths arbitrary: s)
  case (Cons path paths)
  obtain ret u where u: "Manager_CloseDeviceImpl ops path False s = Inr (ret, u)" "manager_ok env ready u"
    "device_to_status u = (if open_status (map_of (device_to_status s) path) then map_put path kExist (device_to_status s)
      else device_to_status s)"
    using close_result [OF Cons.prems(1), of path False] by blast
  have keys: "map_keys_ok (device_to_status s)" using Cons.prems(1) by (simp add: manager_ok_def)
  have "\<forall>q. map_of (device_to_status u) q = Some kOffline \<longrightarrow> q \<in> set paths"
    using u(3) Cons.prems(2) map_of_put [OF keys, of path kExist] by (auto simp: open_status_def split: if_splits)
  from Cons.IH [OF u(2) this] show ?case using u(1) by (simp add: ignoring_def)
qed simp

lemma open_offline:
  assumes "manager_ok env ready s"
  shows "stays faults (\<lambda>t. manager_ok env ready t \<and>
      (\<forall>p. map_of (device_to_status t) p = Some kOffline \<longrightarrow> map_of (device_to_status s) p = Some kOffline))
    (for_each (\<lambda>path. ignoring (OpenDeviceImpl ops path False)) paths s)"
proof (rule stays_for_each)
  fix path t
  assume t: "manager_ok env ready t \<and> (\<forall>p. map_of (device_to_status t) p = Some kOffline \<longrightarrow> map_of (device_to_status s) p = Some kOffline)"
  then have "map_keys_ok (device_to_status t)" by (simp add: manager_ok_def)
  note put = map_of_put [OF this, of path kOnline]
  show "stays faults (\<lambda>t. manager_ok env ready t \<and>
      (\<forall>p. map_of (device_to_status t) p = Some kOffline \<longrightarrow> map_of (device_to_status s) p = Some kOffline))
    (ignoring (OpenDeviceImpl ops path False) t)"
    by (rule ignoring_ok, rule stays_mono [OF open_result]) (use t put in \<open>auto split: if_splits\<close>)
qed (use assms in simp)

text \<open>With \<open>auto_close_offline\<close> a new list leaves no device offline.\<close>

lemma auto_all_closes:
  assumes "manager_ok env ready s" and "dm_auto_close_offline s"
  shows "stays faults (\<lambda>(a, b, t). \<forall>p. map_of (device_to_status t) p \<noteq> Some kOffline) (auto_all ops s)"
proof -
  define opens where "opens = (if dm_auto_open_all s then map fst (filter (\<lambda>(_, status). status = kExist) (device_to_status s)) else [])"
  define closes where "closes = map fst (filter (\<lambda>(_, status). status = kOffline) (device_to_status s))"
  have closes: "p \<in> set closes" if "map_of (device_to_status s) p = Some kOffline" for p
    using map_of_SomeD [OF that] by (force simp: closes_def)
  have run: "auto_all ops s = and_then (for_each (\<lambda>path. ignoring (OpenDeviceImpl ops path False)) opens s) (\<lambda>s.
      and_then (for_each (\<lambda>path. ignoring (Manager_CloseDeviceImpl ops path False)) closes s) (\<lambda>s.
        Inr (closes \<noteq> [], opens \<noteq> [], s)))"
    using assms(2) by (simp add: auto_all_def opens_def closes_def)
  show ?thesis unfolding run
  proof (rule stays_and_then [OF open_offline [OF assms(1)]])
    fix t
    assume "manager_ok env ready t \<and> (\<forall>p. map_of (device_to_status t) p = Some kOffline \<longrightarrow> map_of (device_to_status s) p = Some kOffline)"
    then obtain u where "for_each (\<lambda>path. ignoring (Manager_CloseDeviceImpl ops path False)) closes t = Inr u"
      "\<forall>p. map_of (device_to_status u) p \<noteq> Some kOffline"
      using close_all_offline [of t closes] closes by blast
    then show "stays faults (\<lambda>(a, b, t). \<forall>p. map_of (device_to_status t) p \<noteq> Some kOffline)
      (and_then (for_each (\<lambda>path. ignoring (Manager_CloseDeviceImpl ops path False)) closes t) (\<lambda>s. Inr (closes \<noteq> [], opens \<noteq> [], s)))"
      by simp
  qed
qed

lemma list_changed_closes:
  assumes "manager_ok env ready s" and "'''' \<notin> set devices" and "dm_auto_close_offline s" and "\<not> dm_auto_open_first s"
  shows "stays faults (\<lambda>t. \<forall>p. map_of (device_to_status t) p \<noteq> Some kOffline) (DeviceListChanged ops devices s)"
proof -
  obtain m lc sc where merge: "MergeDeviceList devices (device_to_status s) = (m, lc, sc)"
    by (cases "MergeDeviceList devices (device_to_status s)") auto
  have ok: "manager_ok env ready (s\<lparr>device_to_status := m\<rparr>)" by (rule merge_ok [OF assms(1) merge assms(2)])
  have "stays faults (\<lambda>t. \<forall>p. map_of (device_to_status t) p \<noteq> Some kOffline)
      (and_then (auto_all ops (s\<lparr>device_to_status := m\<rparr>)) (f :: _ \<Rightarrow> 'v DevicesManager res))"
    if "\<And>a b u. (\<forall>p. map_of (device_to_status u) p \<noteq> Some kOffline) \<Longrightarrow>
      stays faults (\<lambda>t. \<forall>p. map_of (device_to_status t) p \<noteq> Some kOffline) (f (a, b, u))" for f
    by (rule stays_and_then [OF auto_all_closes [OF ok]]) (use that assms(3) in \<open>simp_all split: prod.splits\<close>)
  then show ?thesis
    using assms(4) by (simp add: DeviceListChanged_def merge auto_first_def NotifyDeviceStateChanged_def NotifyDeviceListChanged_def)
qed

end

subsection \<open>Who hears of a change\<close>

definition manual :: "'v DevicesManager \<Rightarrow> bool" where
  "manual s \<longleftrightarrow> \<not> dm_auto_open_first s \<and> \<not> dm_auto_open_all s \<and> \<not> dm_auto_close_offline s"

lemma manual_list:
  assumes "manual s" and "MergeDeviceList devices (device_to_status s) = (m, lc, sc)"
  shows "DeviceListChanged ops devices s =
    Inr (s\<lparr>device_to_status := m, dm_pending := dm_pending s @ (if lc then [ListChange] else if sc then [StateChange] else [])\<rparr>)"
  using assms
  by (simp add: DeviceListChanged_def auto_first_def auto_all_def manual_def NotifyDeviceListChanged_def
      NotifyDeviceStateChanged_def)

text \<open>A new list gives one notification at most, and where a device has come or gone it is the one
  of the list, which the runners of the open devices answer with nothing: a device that comes back online in
  the same scan in which another one is plugged in is not told.  The comment in
  devices_manager_observer.h says that \<open>DeviceListChanged\<close> includes \<open>DeviceStateChanged\<close>.\<close>

theorem list_change_hides_state_change:
  assumes "manual s" and "dm_pending s = []" and "MergeDeviceList devices (device_to_status s) = (m, True, sc)"
  shows "\<exists>t. DeviceListChanged ops devices s = Inr t \<and> dm_pending t = [ListChange] \<and>
    deliver ops t = Inr (t\<lparr>dm_pending := []\<rparr>) \<and> path_to_device t = path_to_device s"
  using manual_list [OF assms(1,3)] assms(2) by (auto simp: deliver_def)

lemma list_change_hides_state_change_witness:
  "\<exists>s t. DevicesManager_new False False False = Inr s \<and>
     DeviceListChanged (undefined :: unit DeviceOps) [''a'', ''b'']
       (s\<lparr>device_to_status := [(''a'', kOffline)], path_to_device := [(''a'', (0, ()))], dm_observers := [0]\<rparr>) = Inr t \<and>
     GetDeviceStatus ''a'' t = kOnline \<and> deliver (undefined :: unit DeviceOps) t = Inr (t\<lparr>dm_pending := []\<rparr>)"
proof -
  obtain s :: "unit DevicesManager" where s: "DevicesManager_new False False False = Inr s"
    by (simp add: DevicesManager_new_def)
  let ?s = "s\<lparr>device_to_status := [(''a'', kOffline)], path_to_device := [(''a'', (0, ()))], dm_observers := [0]\<rparr>"
  have at: "manual ?s" "dm_pending ?s = []" using s by (auto simp: DevicesManager_new_def manual_def)
  have merge: "MergeDeviceList [''a'', ''b''] (device_to_status ?s) = ([(''a'', kOnline), (''b'', kExist)], True, True)"
    by (simp add: MergeDeviceList_def merge_new_def)
  from list_change_hides_state_change [OF at merge, of undefined] manual_list [OF at(1) merge, of undefined] s
  show ?thesis by (auto simp: GetDeviceStatus_def)
qed

text \<open>With \<open>auto_open_first\<close>, and the first device of the list already opened by hand, \<open>open_first_\<close> stays
  false and every scan that finds nothing new posts a notification all the same.\<close>

theorem auto_open_first_spurious:
  assumes "dm_auto_open_first s" and "\<not> dm_open_first s" and "\<not> dm_auto_open_all s" and "\<not> dm_auto_close_offline s"
    and "devices \<noteq> []" and "open_status (map_of (device_to_status s) (hd devices))"
    and "MergeDeviceList devices (device_to_status s) = (device_to_status s, False, False)"
  shows "DeviceListChanged ops devices s = Inr (s\<lparr>dm_pending := dm_pending s @ [StateChange]\<rparr>)"
proof -
  have "OpenDeviceImpl ops (hd devices) False s = Inr (False, s)"
    using assms(6) by (auto simp: OpenDeviceImpl_def open_status_def)
  then show ?thesis
    using assms
    by (simp add: DeviceListChanged_def auto_first_def auto_all_def NotifyDeviceStateChanged_def)
qed

lemma auto_open_first_spurious_witness:
  "\<exists>s. DevicesManager_new True False False = Inr s \<and>
     DeviceListChanged (undefined :: unit DeviceOps) [''a'']
       (s\<lparr>device_to_status := [(''a'', kOnline)], path_to_device := [(''a'', (0, ()))], dm_observers := [0]\<rparr>) =
     Inr (s\<lparr>device_to_status := [(''a'', kOnline)], path_to_device := [(''a'', (0, ()))], dm_observers := [0],
            dm_pending := [StateChange]\<rparr>)"
proof -
  obtain s :: "unit DevicesManager" where s: "DevicesManager_new True False False = Inr s"
    by (simp add: DevicesManager_new_def)
  let ?s = "s\<lparr>device_to_status := [(''a'', kOnline)], path_to_device := [(''a'', (0, ()))], dm_observers := [0]\<rparr>"
  have "MergeDeviceList [''a''] (device_to_status ?s) = (device_to_status ?s, False, False)"
    by (simp add: MergeDeviceList_def)
  from auto_open_first_spurious [OF _ _ _ _ _ _ this, of undefined] s show ?thesis
    by (auto simp: DevicesManager_new_def open_status_def)
qed

subsection \<open>The manager of the process and the loop that looks for devices\<close>

definition Manager_Create ::
  "bool \<Rightarrow> bool \<Rightarrow> bool \<Rightarrow> 'v DevicesManager option \<Rightarrow> 'v DevicesManager option res" where
  "Manager_Create auto_open_first auto_open_all auto_close_offline g_manager =
     DCHECK (g_manager = None)
       (and_then (DevicesManager_new auto_open_first auto_open_all auto_close_offline) (\<lambda>m. Inr (Some m)))"

text \<open>\<open>Destroy\<close> on the device thread; the answer has the manager that is left to its last references.\<close>

definition Manager_Destroy ::
  "'v DeviceOps \<Rightarrow> 'v DevicesManager option \<Rightarrow> ('v DevicesManager \<times> 'v DevicesManager option) res" where
  "Manager_Destroy ops g_manager =
     (case g_manager of
        None \<Rightarrow> Inl DcheckFailed
      | Some m \<Rightarrow> and_then (DestroyDevicesImpl ops m) (\<lambda>m. Inr (m, None)))"

record 'd Finder =
  fd_loop :: ThreadedLoopRun
  fd_stop_on_found :: bool
  fd_delegate :: "'d option"

definition Finder_new :: "bool \<Rightarrow> 'd Finder" where
  "Finder_new stop_on_found =
     \<lparr>fd_loop = ThreadedLoopRun_new, fd_stop_on_found = stop_on_found, fd_delegate = None\<rparr>"

text \<open>\<open>create\<close> is the state of the delegate that \<open>CreateDeviceDelegate\<close> makes.\<close>

definition Finder_LoopRunImp ::
  "'d DeviceDelegate \<Rightarrow> 'd \<Rightarrow> 'v DeviceOps \<Rightarrow> 'v DevicesManager option \<Rightarrow> 'd Finder \<Rightarrow>
     (bool \<times> 'v DevicesManager option \<times> 'd Finder) res" where
  "Finder_LoopRunImp del create ops g_manager s =
     (let d = (case fd_delegate s of None \<Rightarrow> create | Some d \<Rightarrow> d) in
      and_then (dd_EnumDevices del d) (\<lambda>(err, devices, d).
      DCHECK (err = OK) (
      let s = s\<lparr>fd_delegate := Some d\<rparr> in
      case g_manager of
        None \<Rightarrow> Inr (False, None, s)
      | Some m \<Rightarrow>
          and_then (DeviceListChanged ops devices m) (\<lambda>m.
            Inr (if fd_stop_on_found s \<and> devices \<noteq> [] then False else \<not> IsSingle (fd_loop s), Some m, s)))))"

definition Finder_OnStop :: "'d Finder \<Rightarrow> 'd Finder" where
  "Finder_OnStop s = s\<lparr>fd_delegate := None\<rparr>"

end
