(* ===== verification/Device_Lifetime.thy ===== *)
theory Device_Lifetime
  imports Prelude
begin

text \<open>
  The life of a device object: \<open>DeviceManager\<close> (canscope/device/device_manager.cc, device_manager.h) and
  the part of \<open>CANScopeDevice\<close> that tells the others of it (canscope_device.cc: \<open>NotifyCreated\<close>,
  \<open>DestroyImpl\<close>, \<open>DeleteDeviceImpl\<close>).

  The object holds a reference to itself until its destruction has started; \<open>lf_refs\<close> counts the
  references of everybody else.  \<open>lf_tasks\<close> are the tasks posted to the device thread: a posted
  \<open>DestroyPos\<close> holds a reference of its own, a posted \<open>DeleteDeviceImpl\<close> none.
\<close>

datatype life_task = DestroyPos_task | DeleteDeviceImpl_task

datatype life_note = Created | StartDestroy | Destroyed

record Lifetime =
  lf_destroy :: bool
  lf_own_ref :: bool
  lf_refs :: nat
  lf_tasks :: "life_task list"
  lf_notify_created :: bool
  lf_notes :: "life_note list"
  lf_deleted :: bool

definition DeviceManager_new :: Lifetime where
  "DeviceManager_new =
     \<lparr>lf_destroy = False, lf_own_ref = True, lf_refs = 0, lf_tasks = [], lf_notify_created = False, lf_notes = [],
      lf_deleted = False\<rparr>"

definition IsDestroying :: "Lifetime \<Rightarrow> bool" where
  "IsDestroying s = lf_destroy s"

definition StartDestroying :: "Lifetime \<Rightarrow> Lifetime" where
  "StartDestroying s =
     (if lf_destroy s then s else s\<lparr>lf_destroy := True, lf_tasks := lf_tasks s @ [DestroyPos_task]\<rparr>)"

definition NotifyCreated :: "Lifetime \<Rightarrow> Lifetime res" where
  "NotifyCreated s =
     DCHECK (\<not> lf_notify_created s)
       (Inr (s\<lparr>lf_notify_created := True, lf_notes := lf_notes s @ [Created]\<rparr>))"

definition DestroyImpl :: "Lifetime \<Rightarrow> Lifetime" where
  "DestroyImpl s =
     (if \<not> lf_notify_created s then s else s\<lparr>lf_notes := lf_notes s @ [StartDestroy]\<rparr>)"

definition DeleteDevice :: "Lifetime \<Rightarrow> Lifetime" where
  "DeleteDevice s = s\<lparr>lf_tasks := lf_tasks s @ [DeleteDeviceImpl_task]\<rparr>"

definition DeleteDeviceImpl :: "Lifetime \<Rightarrow> Lifetime" where
  "DeleteDeviceImpl s =
     (if lf_notify_created s then s\<lparr>lf_notes := lf_notes s @ [Destroyed]\<rparr> else s)\<lparr>lf_deleted := True\<rparr>"

text \<open>\<open>DestroyPos\<close> with the release of the task's own reference after it.\<close>

definition DestroyPos :: "Lifetime \<Rightarrow> Lifetime" where
  "DestroyPos s =
     (let s = (DestroyImpl s)\<lparr>lf_own_ref := False\<rparr> in if lf_refs s = 0 then DeleteDevice s else s)"

fun run_task :: "Lifetime \<Rightarrow> Lifetime" where
  "run_task s =
     (case lf_tasks s of
        [] \<Rightarrow> s
      | DestroyPos_task # ts \<Rightarrow> DestroyPos (s\<lparr>lf_tasks := ts\<rparr>)
      | DeleteDeviceImpl_task # ts \<Rightarrow> DeleteDeviceImpl (s\<lparr>lf_tasks := ts\<rparr>))"

text \<open>\<open>AddRef\<close> and \<open>Release\<close> of the others; the last release posts the deletion
  (\<open>DeviceManagerTraits::Destruct\<close>).\<close>

definition AddRef :: "Lifetime \<Rightarrow> Lifetime" where
  "AddRef s = s\<lparr>lf_refs := lf_refs s + 1\<rparr>"

definition Release :: "Lifetime \<Rightarrow> Lifetime" where
  "Release s =
     (let s = s\<lparr>lf_refs := lf_refs s - 1\<rparr> in
      if lf_refs s = 0 \<and> \<not> lf_own_ref s then DeleteDevice s else s)"

text \<open>Whoever calls has a reference, or the device, which has not let go of itself, hands it out; a
  device is announced by the one who created it, before any task of it has run.\<close>

inductive life_step :: "Lifetime \<Rightarrow> Lifetime \<Rightarrow> bool" where
  life_start: "0 < lf_refs s \<or> lf_own_ref s \<Longrightarrow> life_step s (StartDestroying s)"
| life_created: "lf_own_ref s \<Longrightarrow> NotifyCreated s = Inr t \<Longrightarrow> life_step s t"
| life_add: "0 < lf_refs s \<or> lf_own_ref s \<Longrightarrow> life_step s (AddRef s)"
| life_release: "0 < lf_refs s \<Longrightarrow> life_step s (Release s)"
| life_run: "lf_tasks s \<noteq> [] \<Longrightarrow> life_step s (run_task s)"

inductive life_reach :: "Lifetime \<Rightarrow> bool" where
  life_new: "life_reach DeviceManager_new"
| life_more: "life_reach s \<Longrightarrow> life_step s t \<Longrightarrow> life_reach t"

subsection \<open>The invariant\<close>

definition life_notes :: "Lifetime \<Rightarrow> life_note list" where
  "life_notes s =
     (if lf_notify_created s
      then Created # (if lf_own_ref s then [] else [StartDestroy]) @ (if lf_deleted s then [Destroyed] else [])
      else [])"

definition life_ok :: "Lifetime \<Rightarrow> bool" where
  "life_ok s \<longleftrightarrow>
     lf_notes s = life_notes s \<and> (lf_own_ref s \<or> lf_destroy s) \<and> (lf_deleted s \<longrightarrow> \<not> lf_own_ref s \<and> lf_refs s = 0) \<and>
     lf_tasks s =
       (if lf_own_ref s then (if lf_destroy s then [DestroyPos_task] else [])
        else if lf_refs s = 0 \<and> \<not> lf_deleted s then [DeleteDeviceImpl_task] else [])"

lemmas life_defs = life_ok_def life_notes_def StartDestroying_def NotifyCreated_def AddRef_def Release_def
  DestroyPos_def DestroyImpl_def DeleteDevice_def DeleteDeviceImpl_def

lemma life_step_ok:
  assumes "life_ok s" and "life_step s t"
  shows "life_ok t"
  using assms(2,1)
proof (cases rule: life_step.cases)
  case life_start
  then show ?thesis using assms(1) by (auto simp: life_defs)
next
  case life_created
  then show ?thesis using assms(1) by (auto simp: life_defs check_Inr_iff)
next
  case life_add
  then show ?thesis using assms(1) by (auto simp: life_defs)
next
  case life_release
  then show ?thesis using assms(1) by (auto simp: life_defs Let_def)
next
  case life_run
  show ?thesis
  proof (cases "lf_own_ref s")
    case True
    then have "lf_tasks s = [DestroyPos_task]" "lf_destroy s" using life_run assms(1) by (auto simp: life_ok_def split: if_splits)
    then show ?thesis using life_run True assms(1) by (auto simp: life_defs Let_def)
  next
    case False
    then have "lf_tasks s = [DeleteDeviceImpl_task]" "\<not> lf_deleted s" "lf_refs s = 0"
      using life_run assms(1) by (auto simp: life_ok_def split: if_splits)
    then show ?thesis using life_run False assms(1) by (auto simp: life_defs Let_def)
  qed
qed

lemma life_reach_ok: "life_reach s \<Longrightarrow> life_ok s"
proof (induction rule: life_reach.induct)
  case life_new
  show ?case by (simp add: life_ok_def life_notes_def DeviceManager_new_def)
qed (rule life_step_ok)

text \<open>C12. Whatever the interleaving of its users with the device thread, a device is deleted once, and only when
  nobody, itself included, has a reference to it; no task runs on a deleted device; and the others are told
  of its creation, of the start of its destruction and of its end in this order, each once, and not at
  all if it was never announced.\<close>

theorem device_lifetime:
  assumes "life_reach s"
  shows "lf_notes s = life_notes s \<and> (lf_deleted s \<longrightarrow> \<not> lf_own_ref s \<and> lf_refs s = 0) \<and>
    (lf_tasks s \<noteq> [] \<longrightarrow> \<not> lf_deleted s) \<and> length (lf_tasks s) \<le> 1"
  using life_reach_ok [OF assms] by (auto simp: life_ok_def)

lemma device_lifetime_witness:
  "\<exists>s. NotifyCreated DeviceManager_new = Inr s \<and>
     lf_notes (run_task (run_task (StartDestroying s))) = [Created, StartDestroy, Destroyed]"
proof -
  let ?s = "DeviceManager_new\<lparr>lf_notify_created := True, lf_notes := [Created]\<rparr>"
  have s: "NotifyCreated DeviceManager_new = Inr ?s" by (simp add: NotifyCreated_def DeviceManager_new_def)
  have "life_reach ?s" using s by (intro life_more [OF life_new] life_created) (simp_all add: DeviceManager_new_def)
  then have "life_reach (StartDestroying ?s)"
    by (rule life_more) (rule life_start, simp add: DeviceManager_new_def)
  then have "life_reach (run_task (StartDestroying ?s))"
    by (rule life_more) (rule life_run, simp add: DeviceManager_new_def StartDestroying_def)
  then have "life_reach (run_task (run_task (StartDestroying ?s)))"
    by (rule life_more) (rule life_run, simp add: DeviceManager_new_def StartDestroying_def life_defs Let_def)
  from device_lifetime [OF this] have "lf_notes (run_task (run_task (StartDestroying ?s))) =
      life_notes (run_task (run_task (StartDestroying ?s)))" by blast
  also have "\<dots> = [Created, StartDestroy, Destroyed]"
    by (simp add: DeviceManager_new_def StartDestroying_def life_defs Let_def)
  finally show ?thesis using s by blast
qed

text \<open>A device whose destruction has been asked for is deleted as soon as the others have let go of it and
  the device thread has run what was posted, two tasks at most.\<close>

theorem device_is_deleted:
  assumes "life_reach s" and "lf_destroy s" and "lf_refs s = 0"
  shows "lf_deleted (run_task (run_task s))"
proof -
  have ok: "life_ok s" by (rule life_reach_ok [OF assms(1)])
  consider "lf_own_ref s" "lf_tasks s = [DestroyPos_task]" | "\<not> lf_own_ref s" "lf_tasks s = [DeleteDeviceImpl_task]"
    | "lf_deleted s" "lf_tasks s = []"
    using ok assms(2,3) by (auto simp: life_ok_def split: if_splits)
  then show ?thesis by cases (use assms(3) in \<open>simp_all add: life_defs Let_def\<close>)
qed

lemma device_is_deleted_witness: "lf_deleted (run_task (run_task (StartDestroying DeviceManager_new)))"
proof (rule device_is_deleted)
  show "life_reach (StartDestroying DeviceManager_new)"
    by (rule life_more [OF life_new], rule life_start) (simp add: DeviceManager_new_def)
qed (simp_all add: StartDestroying_def DeviceManager_new_def)

end
