(* ===== verification/Canscope_Device.thy ===== *)
theory Canscope_Device
  imports Device_Config Devices_Manager Device_Lifetime
begin

text \<open>
  \<open>CANScopeDevice\<close> (canscope/device/canscope_device.cc, canscope_device.h): the device with its two
  halves, the oscilloscope and the frame device, its runner, its configurations and its life.

  The components are the records of their own theories.  What they share is here once: \<open>cd_device\<close> is
  the hardware behind the delegate, and the register \<open>soft_diff\<close> of the oscilloscope is lent to the frame
  device for each of its calls (\<open>on_osc\<close>, \<open>on_frame\<close>, \<open>on_runner\<close>).  Before a call the properties are
  read from their members.  The configuration manager of a half is part of its \<open>DeviceBase\<close>.
\<close>

subsection \<open>The device\<close>

text \<open>The values of a new object that its constructors do not set, its collecters and the hardware.\<close>

record 'd making =
  mk_osc :: OscProperties
  mk_frame :: FrameProperties
  mk_type :: DeviceType
  mk_flags :: "bool \<times> bool \<times> bool"
  mk_osc_data :: DataCollecter
  mk_frame_data :: DataCollecter
  mk_device :: 'd

record 'd CANScopeDevice =
  cd_device :: 'd
  cd_osc_base :: "val DeviceBase"
  cd_osc_prefs :: store
  cd_osc :: "'d OscDevice"
  cd_frame_base :: "val DeviceBase"
  cd_frame_prefs :: store
  cd_frame :: "'d FrameDevice"
  cd_runner :: "'d Runner"
  cd_life :: Lifetime

definition CANScopeDevice_Create :: "'d making \<Rightarrow> nat \<Rightarrow> 'd CANScopeDevice res" where
  "CANScopeDevice_Create mk thread =
     and_then (OscDevice_new (mk_osc mk) (mk_type mk) (mk_device mk)) (\<lambda>osc.
     and_then (FrameDevice_new (mk_frame mk) (Some (ov_soft_diff osc)) (mk_type mk) (mk_device mk)) (\<lambda>frame.
     and_then (Runner_new (mk_flags mk) (mk_device mk)) (\<lambda>runner.
       Inr \<lparr>cd_device = mk_device mk, cd_osc_base = DeviceBase_new (Some ConfigManager_new),
            cd_osc_prefs = store_new osc_kinds 0 thread, cd_osc = osc,
            cd_frame_base = DeviceBase_new (Some ConfigManager_new),
            cd_frame_prefs = store_new frame_kinds 0 thread, cd_frame = frame, cd_runner = runner,
            cd_life = DeviceManager_new\<rparr>)))"

definition on_osc ::
  "('d OscDevice \<Rightarrow> 'd OscDevice res) \<Rightarrow> 'd CANScopeDevice \<Rightarrow> 'd CANScopeDevice res" where
  "on_osc f s =
     and_then (read_osc 0 (cd_osc_prefs s)) (\<lambda>(p, prefs).
     and_then (f ((cd_osc s)\<lparr>ov_props := p, ov_device := cd_device s\<rparr>)) (\<lambda>osc.
       Inr (s\<lparr>cd_osc_prefs := prefs, cd_osc := osc, cd_device := ov_device osc\<rparr>)))"

definition on_frame ::
  "('d FrameDevice \<Rightarrow> 'd FrameDevice res) \<Rightarrow> 'd CANScopeDevice \<Rightarrow> 'd CANScopeDevice res" where
  "on_frame f s =
     and_then (read_frame 0 (cd_frame_prefs s)) (\<lambda>(p, prefs).
     and_then (f ((cd_frame s)\<lparr>fv_props := p, fv_device := cd_device s, fv_soft_diff := ov_soft_diff (cd_osc s)\<rparr>)) (\<lambda>frame.
       Inr (s\<lparr>cd_frame_prefs := prefs, cd_frame := frame, cd_device := fv_device frame,
              cd_osc := (cd_osc s)\<lparr>ov_soft_diff := fv_soft_diff frame\<rparr>\<rparr>)))"

definition Device_DeviceTypeDetected :: "DeviceType \<Rightarrow> 'd CANScopeDevice \<Rightarrow> 'd CANScopeDevice" where
  "Device_DeviceTypeDetected type s =
     s\<lparr>cd_osc := (cd_osc s)\<lparr>ov_device_type := type\<rparr>, cd_frame := (cd_frame s)\<lparr>fv_device_type := type\<rparr>\<rparr>"

text \<open>A call of the runner, with the \<open>DeviceTypeDetected\<close> that it makes.\<close>

definition on_runner ::
  "('d Runner \<Rightarrow> ('a \<times> 'd Runner) res) \<Rightarrow> 'd CANScopeDevice \<Rightarrow> ('a \<times> 'd CANScopeDevice) res" where
  "on_runner f s =
     and_then (f ((cd_runner s)\<lparr>rn_device := cd_device s, rn_device_type := None\<rparr>)) (\<lambda>(a, runner).
     let s = s\<lparr>cd_runner := runner, cd_device := rn_device runner\<rparr> in
     Inr (a, case rn_device_type runner of None \<Rightarrow> s | Some type \<Rightarrow> Device_DeviceTypeDetected type s))"

subsection \<open>Configurations\<close>

definition update_config :: "(string \<times> val) list \<Rightarrow> val DeviceBase \<Rightarrow> val DeviceBase res" where
  "update_config dict base =
     (case db_config_manager base of
        None \<Rightarrow> Inl Undefined
      | Some cm \<Rightarrow>
          and_then (Update (Dictionary dict) cm) (\<lambda>cm. Inr (base\<lparr>db_config_manager := Some cm\<rparr>)))"

text \<open>A half of \<open>Init\<close> and of \<open>LoadConfig\<close>: the entry of the configuration, which is handed to the
  configuration manager, and the call by which the device takes it over.\<close>

definition take_config ::
  "(val DeviceBase \<Rightarrow> store option \<Rightarrow> store option res) \<Rightarrow> (string \<times> val) list option \<Rightarrow>
     val DeviceBase \<Rightarrow> store \<Rightarrow> (val DeviceBase \<times> store) res" where
  "take_config from_config value base prefs =
     (case value of
        None \<Rightarrow> Inl DcheckFailed
      | Some dict \<Rightarrow>
          and_then (update_config dict base) (\<lambda>base.
          and_then (from_config base (Some prefs)) (\<lambda>prefs'.
            case prefs' of None \<Rightarrow> Inl Undefined | Some prefs \<Rightarrow> Inr (base, prefs))))"

definition Device_Init :: "config option \<Rightarrow> 'd CANScopeDevice \<Rightarrow> 'd CANScopeDevice res" where
  "Device_Init value s =
     (let (osc_device_value, value) = TakeSubDict value kOscDevice in
      and_then (take_config InitFromConfig osc_device_value (cd_osc_base s) (cd_osc_prefs s)) (\<lambda>(base, prefs).
      and_then (OscDeviceProperty_Init 0 prefs) (\<lambda>prefs.
      let s = s\<lparr>cd_osc_base := base, cd_osc_prefs := prefs\<rparr>;
          (frame_device_value, value) = TakeSubDict value kFrameDevice in
      and_then (take_config InitFromConfig frame_device_value (cd_frame_base s) (cd_frame_prefs s)) (\<lambda>(base, prefs).
      and_then (FrameDeviceProperty_Init 0 prefs) (\<lambda>prefs.
        Inr (s\<lparr>cd_frame_base := base, cd_frame_prefs := prefs\<rparr>))))))"

definition LoadConfig :: "config option \<Rightarrow> 'd CANScopeDevice \<Rightarrow> 'd CANScopeDevice res" where
  "LoadConfig value s =
     (let (osc_device_value, value) = TakeSubDict value kOscDevice in
      and_then (take_config LoadFromConfig osc_device_value (cd_osc_base s) (cd_osc_prefs s)) (\<lambda>(base, prefs).
      let s = s\<lparr>cd_osc_base := base, cd_osc_prefs := prefs\<rparr>;
          (frame_device_value, value) = TakeSubDict value kFrameDevice in
      and_then (take_config InitFromConfig frame_device_value (cd_frame_base s) (cd_frame_prefs s)) (\<lambda>(base, prefs).
        Inr (s\<lparr>cd_frame_base := base, cd_frame_prefs := prefs\<rparr>))))"

definition last_pref :: "val DeviceBase \<Rightarrow> val pref res" where
  "last_pref base =
     (case db_config_manager base of
        None \<Rightarrow> Inl Undefined
      | Some cm \<Rightarrow> and_then (GetLast cm) (\<lambda>c. Inr (cfg_pref c)))"

definition SaveConfig :: "'d CANScopeDevice \<Rightarrow> config res" where
  "SaveConfig s =
     and_then (last_pref (cd_osc_base s)) (\<lambda>osc.
     and_then (last_pref (cd_frame_base s)) (\<lambda>frame.
       Inr (map_put kFrameDevice frame (map_put kOscDevice osc []))))"

definition Device_SetAll :: "'d DeviceDelegate \<Rightarrow> 'd CANScopeDevice \<Rightarrow> 'd CANScopeDevice res" where
  "Device_SetAll del s = and_then (on_osc (SetAll del) s) (on_frame (FrameDevice_SetAll del))"

definition Device_NotifyCreated :: "'d CANScopeDevice \<Rightarrow> 'd CANScopeDevice res" where
  "Device_NotifyCreated s = and_then (NotifyCreated (cd_life s)) (\<lambda>life. Inr (s\<lparr>cd_life := life\<rparr>))"

subsection \<open>The device as the manager uses it\<close>

definition kDefaultAutoInitDevice :: bool where "kDefaultAutoInitDevice = True"
definition kDefaultStartOnDeviceOnline :: bool where "kDefaultStartOnDeviceOnline = True"
definition kDefaultRerunOnbackOnline :: bool where "kDefaultRerunOnbackOnline = True"

text \<open>\<open>mks n\<close> is what the \<open>n\<close>-th device is made of.  The manager sets the three flags of the runner after
  its \<open>Init\<close>, and sets a new device up with the default configuration; \<open>value\<close> stands for that.\<close>

definition create_device :: "(nat \<Rightarrow> 'd making) \<Rightarrow> nat \<Rightarrow> string \<Rightarrow> 'd CANScopeDevice res" where
  "create_device mks n path =
     and_then (CANScopeDevice_Create (mks n) 0) (\<lambda>s.
     and_then (Runner_Init path (mk_osc_data (mks n)) (mk_frame_data (mks n)) (cd_runner s)) (\<lambda>runner.
       Inr (s\<lparr>cd_runner := runner\<lparr>rn_auto_init_device := kDefaultAutoInitDevice,
              rn_start_on_device_online := kDefaultStartOnDeviceOnline,
              rn_rerun_on_back_online := kDefaultRerunOnbackOnline\<rparr>\<rparr>)))"

definition setup_device :: "'d DeviceDelegate \<Rightarrow> config option \<Rightarrow> 'd CANScopeDevice \<Rightarrow> 'd CANScopeDevice res" where
  "setup_device del value s =
     and_then (Device_Init value s) (\<lambda>s. and_then (Device_SetAll del s) Device_NotifyCreated)"

definition unit_call :: "('s \<Rightarrow> 's res) \<Rightarrow> 's \<Rightarrow> (unit \<times> 's) res" where
  "unit_call f s = and_then (f s) (\<lambda>s. Inr ((), s))"

definition canscope_ops ::
  "'d DeviceDelegate \<Rightarrow> (string \<Rightarrow> u8 list option) \<Rightarrow> (nat \<Rightarrow> 'd making) \<Rightarrow> config option \<Rightarrow>
     'd CANScopeDevice DeviceOps" where
  "canscope_ops del read_file mks value =
     \<lparr>ops_create = create_device mks,
      ops_init_device = on_runner (InitDevice del read_file),
      ops_close_device = (\<lambda>s. and_then (on_runner (unit_call (Runner_CloseDevice del)) s) (\<lambda>(_, s). Inr s)),
      ops_start_destroying = (\<lambda>s. s\<lparr>cd_life := StartDestroying (cd_life s)\<rparr>),
      ops_setup = setup_device del value,
      ops_state_changed = (\<lambda>status s.
        and_then (on_runner (unit_call (Runner_DeviceStateChanged del read_file status)) s) (\<lambda>(_, s). Inr s))\<rparr>"

subsection \<open>Taking a configuration over\<close>

text \<open>A configuration that gives the two halves the properties \<open>p\<close> and \<open>q\<close>.\<close>

definition gives_properties :: "config option \<Rightarrow> OscProperties \<Rightarrow> FrameProperties \<Rightarrow> bool" where
  "gives_properties value p q \<longleftrightarrow>
     (\<exists>c osc frame cs ds. value = Some c \<and>
        map_of c kOscDevice = Some (Dictionary osc) \<and> map_of c kFrameDevice = Some (Dictionary frame) \<and>
        distinct (map fst osc) \<and> dict_cells osc_kinds osc_names osc cs \<and> osc_of cs = Inr p \<and>
        distinct (map fst frame) \<and> dict_cells frame_kinds frame_names frame ds \<and> frame_of ds = q)"

definition reads_as :: "'d CANScopeDevice \<Rightarrow> OscProperties \<Rightarrow> FrameProperties \<Rightarrow> bool" where
  "reads_as s p q \<longleftrightarrow>
     (\<exists>v. read_osc 0 (cd_osc_prefs s) = Inr (p, v)) \<and> (\<exists>w. read_frame 0 (cd_frame_prefs s) = Inr (q, w))"

definition no_config :: "'d CANScopeDevice \<Rightarrow> bool" where
  "no_config s \<longleftrightarrow>
     cd_osc_base s = DeviceBase_new (Some ConfigManager_new) \<and> cd_frame_base s = DeviceBase_new (Some ConfigManager_new) \<and>
     (\<exists>t. cd_osc_prefs s = store_new osc_kinds 0 t) \<and> (\<exists>t. cd_frame_prefs s = store_new frame_kinds 0 t)"

lemma kOscDevice_neq: "kOscDevice \<noteq> kFrameDevice" "kFrameDevice \<noteq> kOscDevice"
  by (simp_all add: kOscDevice_def kFrameDevice_def)

lemma TakeSubDict_takes:
  "map_of c key = Some (Dictionary d) \<Longrightarrow> TakeSubDict (Some c) key = (Some d, Some (map_erase key c))"
  by (simp add: TakeSubDict_def)

lemma take_first_config:
  "take_config InitFromConfig (Some dict) (DeviceBase_new (Some ConfigManager_new)) prefs =
     Inr (DeviceBase_new (Some \<lparr>cm_current_id = 1, cm_history = [\<lparr>cfg_id = 0, cfg_pref = Dictionary dict\<rparr>]\<rparr>), Reset dict prefs)"
  by (simp add: take_config_def update_config_def DeviceBase_new_def Update_def ConfigManager_new_def int32_of_def
      in_int32_def InitFromConfig_def config_dictionary_def GetLast_def)

lemma Device_Init_ok:
  assumes "no_config s" and "gives_properties value p q"
  shows "\<exists>t osc frame. Device_Init value s = Inr t \<and> reads_as t p q \<and> cd_osc t = cd_osc s \<and> cd_frame t = cd_frame s \<and>
    cd_runner t = cd_runner s \<and> cd_device t = cd_device s \<and> cd_life t = cd_life s \<and>
    value = Some osc \<and> SaveConfig t = Inr frame \<and> map_of frame kOscDevice = map_of osc kOscDevice \<and>
    map_of frame kFrameDevice = map_of osc kFrameDevice"
proof -
  obtain c osc frame cs ds where c: "value = Some c"
    "map_of c kOscDevice = Some (Dictionary osc)" "map_of c kFrameDevice = Some (Dictionary frame)"
    "distinct (map fst osc)" "dict_cells osc_kinds osc_names osc cs" "osc_of cs = Inr p"
    "distinct (map fst frame)" "dict_cells frame_kinds frame_names frame ds" "frame_of ds = q"
    using assms(2) unfolding gives_properties_def by blast
  obtain t1 t2 where n: "cd_osc_prefs s = store_new osc_kinds 0 t1" "cd_frame_prefs s = store_new frame_kinds 0 t2"
    "cd_osc_base s = DeviceBase_new (Some ConfigManager_new)" "cd_frame_base s = DeviceBase_new (Some ConfigManager_new)"
    using assms(1) unfolding no_config_def by blast
  obtain v v' where v: "OscDeviceProperty_Init 0 (Reset osc (cd_osc_prefs s)) = Inr v" "read_osc 0 v = Inr (p, v')"
    using osc_config_reads [OF c(4-6), of 0 t1] n(1) by (auto simp: OscDeviceProperty_Init_dict_def)
  obtain w w' where w: "FrameDeviceProperty_Init 0 (Reset frame (cd_frame_prefs s)) = Inr w" "read_frame 0 w = Inr (q, w')"
    using frame_config_reads [OF c(7,8), of 0 t2] n(2) c(9) by (auto simp: FrameDeviceProperty_Init_dict_def)
  have take: "TakeSubDict value kOscDevice = (Some osc, Some (map_erase kOscDevice c))"
    "TakeSubDict (Some (map_erase kOscDevice c)) kFrameDevice = (Some frame, Some (map_erase kFrameDevice (map_erase kOscDevice c)))"
    using c(1-3) by (simp_all add: TakeSubDict_def map_of_erase kOscDevice_neq)
  let ?base = "\<lambda>dict. DeviceBase_new (Some \<lparr>cm_current_id = 1, cm_history = [\<lparr>cfg_id = 0, cfg_pref = Dictionary dict\<rparr>]\<rparr>)"
  let ?t = "s\<lparr>cd_osc_base := ?base osc, cd_osc_prefs := v, cd_frame_base := ?base frame, cd_frame_prefs := w\<rparr>"
  have "Device_Init value s = Inr ?t"
    using v(1) w(1) by (simp add: Device_Init_def take n(3,4) take_first_config)
  moreover have "reads_as ?t p q" using v(2) w(2) by (simp add: reads_as_def)
  moreover have "SaveConfig ?t = Inr (map_put kFrameDevice (Dictionary frame) (map_put kOscDevice (Dictionary osc) []))"
    by (simp add: SaveConfig_def last_pref_def DeviceBase_new_def GetLast_def)
  moreover have "map_of (map_put kFrameDevice (Dictionary frame) (map_put kOscDevice (Dictionary osc) [])) =
      [kOscDevice \<mapsto> Dictionary osc, kFrameDevice \<mapsto> Dictionary frame]"
    by (subst map_of_put) simp_all
  ultimately show ?thesis using c(1-3) kOscDevice_neq by auto
qed

subsection \<open>Setting a device up\<close>

definition device_regs_ok :: "'d CANScopeDevice \<Rightarrow> bool" where
  "device_regs_ok s \<longleftrightarrow> osc_regs_ok (cd_osc s) \<and> frame_regs_ok ((cd_frame s)\<lparr>fv_soft_diff := ov_soft_diff (cd_osc s)\<rparr>)"

text \<open>Both halves have what their properties ask for, the shared register with both parts of it.\<close>

definition device_matches :: "'d CANScopeDevice \<Rightarrow> OscProperties \<Rightarrow> FrameProperties \<Rightarrow> bool" where
  "device_matches s p q \<longleftrightarrow>
     ov_props (cd_osc s) = p \<and> osc_matches (cd_osc s) \<and> fv_props (cd_frame s) = q \<and> frame_matches (cd_frame s) \<and>
     fv_soft_diff (cd_frame s) = ov_soft_diff (cd_osc s)"

lemma soft_table_kept:
  assumes "matches (soft_table p) rm" and "osc_part_kept rm rm'"
  shows "matches (soft_table p) rm'"
proof -
  have "list_all (\<lambda>(b, v). b \<in> set SoftDiffRegister_binds \<and> b \<notin> {U16B SoftDiff_sja_btr, BoolB SoftDiff_sys_cfg, U16B SoftDiff_fil_div}) (soft_table p)"
    by (simp add: soft_table_def SoftDiffRegister_binds_def register_members register_consts)
  then show ?thesis
    using assms by (auto simp: matches_def osc_part_kept_def list_all_iff)
qed

lemma Device_SetAll_ok:
  assumes "port_ok (cd_device s)" and "reads_bounded win" and "device_regs_ok s" and "reads_as s p q"
    and "within_limits p (ov_device_type (cd_osc s))" and "frame_limits q"
  shows "\<exists>t. Device_SetAll (UsbPortDeviceDelegate enum win) s = Inr t \<and> device_matches t p q \<and> device_regs_ok t \<and>
    port_ok (cd_device t) \<and> cd_runner t = cd_runner s \<and> cd_life t = cd_life s"
proof -
  let ?del = "UsbPortDeviceDelegate enum win"
  obtain v where v: "read_osc 0 (cd_osc_prefs s) = Inr (p, v)" using assms(4) by (auto simp: reads_as_def)
  obtain w where w: "read_frame 0 (cd_frame_prefs s) = Inr (q, w)" using assms(4) by (auto simp: reads_as_def)
  let ?o = "(cd_osc s)\<lparr>ov_props := p, ov_device := cd_device s\<rparr>"
  have "osc_regs_ok ?o" using assms(3) by (simp add: device_regs_ok_def osc_regs_ok_def)
  then have "\<exists>t. SetAll ?del ?o = Inr t \<and> osc_matches t \<and> osc_regs_ok t \<and> port_ok (ov_device t) \<and> ov_props t = p"
    using scope_usb.SetAll_ok [of ?o win enum] within_limits_convertible [OF assms(5)] assms(1,2) by simp
  then obtain o' where o': "SetAll ?del ?o = Inr o'" "osc_matches o'" "osc_regs_ok o'" "port_ok (ov_device o')" "ov_props o' = p"
    by blast
  let ?f = "(cd_frame s)\<lparr>fv_props := q, fv_device := ov_device o', fv_soft_diff := ov_soft_diff o'\<rparr>"
  have "frame_regs_ok ?f" using assms(3) o'(3) by (simp add: device_regs_ok_def frame_regs_ok_def osc_regs_ok_def)
  then have "\<exists>t. FrameDevice_SetAll ?del ?f = Inr t \<and> frame_matches t \<and> frame_regs_ok t \<and> port_ok (fv_device t) \<and>
      fv_props t = q \<and> osc_part_kept (ov_soft_diff o') (fv_soft_diff t)"
    using frame_device_usb.frame_SetAll_ok [of ?f win enum] assms(2,6) o'(4) by simp
  then obtain f' where f': "FrameDevice_SetAll ?del ?f = Inr f'" "frame_matches f'" "frame_regs_ok f'" "port_ok (fv_device f')"
    "fv_props f' = q" "osc_part_kept (ov_soft_diff o') (fv_soft_diff f')" by blast
  let ?t = "s\<lparr>cd_osc_prefs := v, cd_frame_prefs := w, cd_frame := f', cd_device := fv_device f',
      cd_osc := o'\<lparr>ov_soft_diff := fv_soft_diff f'\<rparr>\<rparr>"
  have "on_osc (SetAll ?del) s = Inr (s\<lparr>cd_osc_prefs := v, cd_osc := o', cd_device := ov_device o'\<rparr>)"
    using v o'(1) by (simp add: on_osc_def)
  then have "Device_SetAll ?del s = Inr ?t"
    using w f'(1) by (simp add: Device_SetAll_def on_frame_def)
  moreover have "osc_matches (o'\<lparr>ov_soft_diff := fv_soft_diff f'\<rparr>)"
    using o'(2,5) soft_table_kept [OF _ f'(6), of p] by (simp add: osc_matches_def)
  moreover have "osc_regs_ok (o'\<lparr>ov_soft_diff := fv_soft_diff f'\<rparr>)"
    using o'(3) f'(3) by (simp add: osc_regs_ok_def frame_regs_ok_def)
  moreover have "f'\<lparr>fv_soft_diff := fv_soft_diff f'\<rparr> = f'" by simp
  ultimately show ?thesis using f' o'(5) by (simp add: device_matches_def device_regs_ok_def)
qed

text \<open>A device of which the runner has opened the hardware and detected the type.\<close>

definition device_open :: "'d CANScopeDevice \<Rightarrow> bool" where
  "device_open s \<longleftrightarrow> no_config s \<and> device_regs_ok s \<and> cd_life s = DeviceManager_new"

lemma setup_result:
  assumes "port_ok (cd_device s)" and "reads_bounded win" and "device_open s" and "gives_properties value p q"
    and "within_limits p (ov_device_type (cd_osc s))" and "frame_limits q"
  shows "\<exists>t c. setup_device (UsbPortDeviceDelegate enum win) value s = Inr t \<and> device_matches t p q \<and>
    device_regs_ok t \<and> port_ok (cd_device t) \<and> lf_notes (cd_life t) = [Created] \<and> cd_runner t = cd_runner s \<and>
    SaveConfig t = Inr c \<and> map_of c kOscDevice = map_of (the value) kOscDevice \<and>
    map_of c kFrameDevice = map_of (the value) kFrameDevice"
proof -
  let ?del = "UsbPortDeviceDelegate enum win"
  obtain u vc c where u: "Device_Init value s = Inr u" "reads_as u p q" "cd_osc u = cd_osc s" "cd_frame u = cd_frame s"
    "cd_runner u = cd_runner s" "cd_device u = cd_device s" "cd_life u = cd_life s"
    "value = Some vc" "SaveConfig u = Inr c" "map_of c kOscDevice = map_of vc kOscDevice"
    "map_of c kFrameDevice = map_of vc kFrameDevice"
    using Device_Init_ok [OF _ assms(4), of s] assms(3) unfolding device_open_def by blast
  have "device_regs_ok u" using assms(3) u(3,4) by (simp add: device_open_def device_regs_ok_def)
  from Device_SetAll_ok [OF _ assms(2) this u(2) _ assms(6), of enum] assms(1,5) u(3,6)
  obtain t where t: "Device_SetAll ?del u = Inr t" "device_matches t p q" "device_regs_ok t" "port_ok (cd_device t)"
    "cd_runner t = cd_runner u" "cd_life t = cd_life u" by auto
  have base: "cd_osc_base t = cd_osc_base u" "cd_frame_base t = cd_frame_base u"
    using t(1) by (auto simp: Device_SetAll_def on_osc_def on_frame_def)
  have life: "cd_life t = DeviceManager_new" using t(6) u(7) assms(3) by (simp add: device_open_def)
  let ?t = "t\<lparr>cd_life := DeviceManager_new\<lparr>lf_notify_created := True, lf_notes := [Created]\<rparr>\<rparr>"
  have "setup_device ?del value s = Inr ?t"
    using u(1) t(1) life
    by (simp add: setup_device_def Device_NotifyCreated_def NotifyCreated_def) (simp add: DeviceManager_new_def)
  moreover have "SaveConfig ?t = SaveConfig u" using base by (simp add: SaveConfig_def)
  ultimately show ?thesis using t u by (simp add: device_matches_def device_regs_ok_def)
qed

text \<open>C3. Setting a device up over the USB port, from a configuration within its limits: the
  configuration becomes the properties of both halves, the properties become the registers of both halves,
  and the register that the two share holds the part of each of them; whatever the device answers, no
  assertion fails on the way.  The device is announced, and the configuration that can be saved is the one
  that was given.\<close>

theorem device_setup:
  assumes "port_ok (cd_device s)" and "reads_bounded win" and "device_open s" and "gives_properties value p q"
    and "within_limits p (ov_device_type (cd_osc s))" and "frame_limits q"
  shows "\<exists>t c. setup_device (UsbPortDeviceDelegate enum win) value s = Inr t \<and> device_matches t p q \<and>
    port_ok (cd_device t) \<and> lf_notes (cd_life t) = [Created] \<and>
    SaveConfig t = Inr c \<and> map_of c kOscDevice = map_of (the value) kOscDevice \<and>
    map_of c kFrameDevice = map_of (the value) kFrameDevice"
  using setup_result [OF assms, of enum] by blast

text \<open>The default configuration with 20 samples for a bit.\<close>

definition slow_config :: "config option" where
  "slow_config = Some [(''OscDevice'', Dictionary default_osc_dict),
     (''FrameDevice'', Dictionary (map (\<lambda>(k, v). (k, if k = ''BitSampleRate'' then VInt 20 else v)) default_frame_dict))]"

lemma slow_config_gives: "gives_properties slow_config default_osc slow_frame"
proof -
  let ?frame = "map (\<lambda>(k, v). (k, if k = ''BitSampleRate'' then VInt 20 else v)) default_frame_dict"
  let ?cells = "[CBool False, CBool True, CU16 5184, CReal 50, CInt 20, CInt 100]"
  have frame: "distinct (map fst ?frame)" "dict_cells frame_kinds frame_names ?frame ?cells" "frame_of ?cells = slow_frame"
    by (simp_all add: default_frame_dict_def dict_cells_def frame_kinds_def frame_names_def property_names
        frame_of_def slow_frame_def default_frame_def uint16_of_store_def ex_bool_eq)
  show ?thesis unfolding gives_properties_def slow_config_def
    by (intro exI conjI, rule refl, simp_all only: map_of.simps prod.sel)
      (use default_osc_cells_ok frame in \<open>simp_all add: kOscDevice_def kFrameDevice_def\<close>)
qed

lemma default_gives: "gives_properties GetDefaultConfig default_osc default_frame"
  unfolding gives_properties_def GetDefaultConfig_def
  by (intro exI conjI, rule refl)
    (use default_osc_cells_ok default_frame_cells_ok in \<open>simp_all add: kDefaultCANScopeConfig_def kOscDevice_def kFrameDevice_def\<close>)

lemma default_osc_limits: "within_limits default_osc type"
  by (cases type) (simp_all add: within_limits_def default_osc_def GetChnlConfig_def half_window_def TimeBaseValue_def
      kTimeBaseValue_def DeviceK_def)

lemma default_frame_regs: "frame_regs_ok ((cd_frame s)\<lparr>fv_soft_diff := rm\<rparr>) \<longleftrightarrow>
    frame_regs_ok ((cd_frame s)\<lparr>fv_props := q, fv_device := d, fv_soft_diff := rm\<rparr>)"
  by (simp add: frame_regs_ok_def)

text \<open>C18. With the default configuration, which the manager gives to every device it opens, setting the
  device up never ends well: when the oscilloscope's half is written, the frame device multiplies the
  baud rate by 5000 samples for a bit, and the product is no \<open>int\<close>.\<close>

theorem default_setup_overflows:
  assumes "port_ok (cd_device s)" and "reads_bounded win" and "device_open s"
  shows "setup_device (UsbPortDeviceDelegate enum win) GetDefaultConfig s = Inl Overflow"
proof -
  let ?del = "UsbPortDeviceDelegate enum win"
  obtain u where u: "Device_Init GetDefaultConfig s = Inr u" "reads_as u default_osc default_frame" "cd_osc u = cd_osc s"
    "cd_frame u = cd_frame s" "cd_device u = cd_device s"
    using Device_Init_ok [OF _ default_gives, of s] assms(3) unfolding device_open_def by blast
  have regs: "osc_regs_ok (cd_osc u)" "frame_regs_ok ((cd_frame u)\<lparr>fv_soft_diff := ov_soft_diff (cd_osc u)\<rparr>)"
    using assms(3) u(3,4) by (simp_all add: device_open_def device_regs_ok_def)
  obtain v where v: "read_osc 0 (cd_osc_prefs u) = Inr (default_osc, v)" using u(2) by (auto simp: reads_as_def)
  obtain w where w: "read_frame 0 (cd_frame_prefs u) = Inr (default_frame, w)" using u(2) by (auto simp: reads_as_def)
  let ?o = "(cd_osc u)\<lparr>ov_props := default_osc, ov_device := cd_device u\<rparr>"
  have "osc_regs_ok ?o" using regs(1) by (simp add: osc_regs_ok_def)
  then have "\<exists>t. SetAll ?del ?o = Inr t \<and> osc_regs_ok t"
    using scope_usb.SetAll_ok [of ?o win enum] within_limits_convertible [OF default_osc_limits] assms(1,2) u(5) by auto
  then obtain o' where o': "SetAll ?del ?o = Inr o'" "osc_regs_ok o'" by blast
  have "on_osc (SetAll ?del) u = Inr (u\<lparr>cd_osc_prefs := v, cd_osc := o', cd_device := ov_device o'\<rparr>)"
    using v o'(1) by (simp add: on_osc_def)
  moreover have "frame_regs_ok ((cd_frame u)\<lparr>fv_props := default_frame, fv_device := ov_device o', fv_soft_diff := ov_soft_diff o'\<rparr>)"
    using regs(2) o'(2) by (simp add: frame_regs_ok_def osc_regs_ok_def)
  then have "FrameDevice_SetAll ?del ((cd_frame u)\<lparr>fv_props := default_frame, fv_device := ov_device o', fv_soft_diff := ov_soft_diff o'\<rparr>) = Inl Overflow"
    by (rule default_SetAll_overflows) simp
  ultimately have "Device_SetAll ?del u = Inl Overflow" using w by (simp add: Device_SetAll_def on_frame_def)
  then show ?thesis using u(1) by (simp add: setup_device_def)
qed

subsection \<open>New devices\<close>

text \<open>What a device is made of: hardware in a good state, and collecters.\<close>

lemma Create_ok:
  assumes "CANScopeDevice_Create mk thread = Inr s"
  shows "device_open s \<and> cd_device s = mk_device mk \<and> \<not> rn_inited (cd_runner s) \<and> rn_status (cd_runner s) = kOnline \<and>
    length (rm_memory (rn_device_info (cd_runner s))) = kDeviceInfoSize"
proof -
  obtain osc frame runner where new: "OscDevice_new (mk_osc mk) (mk_type mk) (mk_device mk) = Inr osc"
    "FrameDevice_new (mk_frame mk) (Some (ov_soft_diff osc)) (mk_type mk) (mk_device mk) = Inr frame"
    "Runner_new (mk_flags mk) (mk_device mk) = Inr runner"
    "s = \<lparr>cd_device = mk_device mk, cd_osc_base = DeviceBase_new (Some ConfigManager_new),
            cd_osc_prefs = store_new osc_kinds 0 thread, cd_osc = osc,
            cd_frame_base = DeviceBase_new (Some ConfigManager_new),
            cd_frame_prefs = store_new frame_kinds 0 thread, cd_frame = frame, cd_runner = runner,
            cd_life = DeviceManager_new\<rparr>"
    using assms by (auto simp: CANScopeDevice_Create_def)
  have osc: "osc_regs_ok osc" using OscDevice_new_regs [OF new(1)] by blast
  have frame: "frame_regs_ok (frame\<lparr>fv_soft_diff := ov_soft_diff osc\<rparr>)"
    using new(2) osc
    by (auto simp: FrameDevice_new_def SJA1000Register_new_def FrameStorageRegister_new_def WaveStorageRegister_new_def
        RegisterMemory_new_def and_then_Inr_iff check_Inr_iff register_consts frame_regs_ok_def osc_regs_ok_def reg_ok_def)
  have "\<not> rn_inited runner" "rn_status runner = kOnline" "length (rm_memory (rn_device_info runner)) = kDeviceInfoSize"
    using new(3) by (auto simp: Runner_new_def DeviceInfo_new_def RegisterMemory_new_def and_then_Inr_iff check_Inr_iff register_consts)
  then show ?thesis using new(4) osc frame by (auto simp: device_open_def no_config_def device_regs_ok_def)
qed

subsection \<open>The manager's devices\<close>

text \<open>Closing the handle of an open pipe succeeds.\<close>

definition handles_close :: "'s windows \<Rightarrow> bool" where
  "handles_close win \<longleftrightarrow> (\<forall>h os. fst (win_CloseHandle win h os))"

definition usb_env ::
  "'s windows \<Rightarrow> (string \<Rightarrow> u8 list option) \<Rightarrow> (nat \<Rightarrow> 's UsbPort making) \<Rightarrow> config option \<Rightarrow>
     OscProperties \<Rightarrow> FrameProperties \<Rightarrow> bool" where
  "usb_env win rf mks value p q \<longleftrightarrow>
     reads_bounded win \<and> handles_close win \<and> files_ok rf \<and> (\<forall>n. port_ok (mk_device (mks n))) \<and>
     gives_properties value p q \<and> (\<forall>type. within_limits p type) \<and> frame_limits q"

definition runs :: "'s UsbPort CANScopeDevice \<Rightarrow> bool" where
  "runs s \<longleftrightarrow> port_ok (cd_device s) \<and> rn_status (cd_runner s) = kOnline \<and>
     rn_osc_data (cd_runner s) \<noteq> None \<and> rn_frame_data (cd_runner s) \<noteq> None"

definition fresh_device :: "'s UsbPort CANScopeDevice \<Rightarrow> bool" where
  "fresh_device s \<longleftrightarrow> device_open s \<and> runs s \<and> \<not> rn_inited (cd_runner s) \<and>
     length (rm_memory (rn_device_info (cd_runner s))) = kDeviceInfoSize \<and> rn_device_path (cd_runner s) \<noteq> ''''"

lemma create_fresh:
  assumes "\<forall>n. port_ok (mk_device (mks n))" and "path \<noteq> ''''"
  shows "\<exists>s. create_device mks n path = Inr s \<and> fresh_device s"
proof -
  have "\<exists>s. CANScopeDevice_Create (mks n) 0 = Inr s"
    by (simp add: CANScopeDevice_Create_def OscDevice_new_def AnalogCtrlRegister_new_def SoftDiffRegister_new_def
        AnalogSwitchRegister_new_def Trigger1Register_new_def Trigger2Register_new_def FrameDevice_new_def
        SJA1000Register_new_def FrameStorageRegister_new_def WaveStorageRegister_new_def Runner_new_def
        DeviceInfo_new_def RegisterMemory_new_def check_def register_consts)
  then obtain s where s: "CANScopeDevice_Create (mks n) 0 = Inr s" by blast
  note new = Create_ok [OF s]
  show ?thesis
    using s new assms
    by (auto simp: create_device_def Runner_Init_def fresh_device_def runs_def device_open_def no_config_def device_regs_ok_def)
qed

lemma device_open_kept:
  "device_open (s\<lparr>cd_runner := r, cd_device := d\<rparr>) = device_open s"
  "device_open (Device_DeviceTypeDetected type s) = device_open s"
  by (simp_all add: device_open_def no_config_def device_regs_ok_def osc_regs_ok_def frame_regs_ok_def
      Device_DeviceTypeDetected_def)

lemma type_detected_simps [simp]:
  "cd_device (Device_DeviceTypeDetected type s) = cd_device s" "cd_runner (Device_DeviceTypeDetected type s) = cd_runner s"
  by (simp_all add: Device_DeviceTypeDetected_def)

lemma init_opened:
  assumes "fresh_device s" and "reads_bounded win" and "files_ok rf"
  shows "stays {NotReached} (\<lambda>(err, t). err = OK \<longrightarrow> device_open t \<and> runs t)
    (on_runner (InitDevice (UsbPortDeviceDelegate enum win) rf) s)"
proof -
  let ?del = "UsbPortDeviceDelegate enum win"
  let ?r = "(cd_runner s)\<lparr>rn_device := cd_device s, rn_device_type := None\<rparr>"
  note f = assms(1) [unfolded fresh_device_def runs_def]
  obtain osc frame where data: "rn_osc_data ?r = Some osc" "rn_frame_data ?r = Some frame" using f by auto
  have "InitDevice ?del rf ?r = Inl NotReached \<or>
    (\<exists>err t. InitDevice ?del rf ?r = Inr (err, t) \<and> port_ok (rn_device t) \<and> rn_osc_data t \<noteq> None \<and> rn_frame_data t \<noteq> None)"
    using usb_opener.InitDevice_ok [of ?r win osc frame rf enum] data f assms(2,3) by auto
  then show ?thesis
  proof (elim disjE exE conjE)
    assume "InitDevice ?del rf ?r = Inl NotReached"
    then show ?thesis by (simp add: on_runner_def)
  next
    fix err t
    assume t: "InitDevice ?del rf ?r = Inr (err, t)" "port_ok (rn_device t)" "rn_osc_data t \<noteq> None" "rn_frame_data t \<noteq> None"
    have "rn_status t = kOnline" using InitDevice_status [OF t(1)] f by auto
    then show ?thesis
      using t f device_open_kept(1) [where s = s and r = t and d = "rn_device t"]
      by (cases "rn_device_type t") (auto simp: on_runner_def runs_def device_open_kept(2) Let_def)
  qed
qed

lemma close_pipes_closed: "handles_close win \<Longrightarrow> fst (close_pipes win is n p) = n"
proof (induction "is" arbitrary: n p)
  case (Cons i "is")
  show ?case
  proof (cases "up_pipes p ! i")
    case None
    then show ?thesis using Cons by simp
  next
    case (Some h)
    obtain os where "win_CloseHandle win h (up_os p) = (True, os)"
      using Cons.prems unfolding handles_close_def by (metis fst_eqD surj_pair)
    then show ?thesis using Some Cons by simp
  qed
qed simp

lemma usb_close:
  assumes "handles_close win"
  shows "\<exists>d'. dd_CloseDevice (UsbPortDeviceDelegate enum win) d = Inr (OK, d')"
  using close_pipes_closed [OF assms, of "[0..<length (up_pipes d)]" 0 d]
  by (auto simp: UsbPortDeviceDelegate_def Usb_CloseDevice_def CloseDevice_def split: prod.split)

lemma close_runs:
  assumes "runs s" and "handles_close win"
  shows "\<exists>t. on_runner (unit_call (Runner_CloseDevice (UsbPortDeviceDelegate enum win))) s = Inr ((), t)"
proof -
  let ?del = "UsbPortDeviceDelegate enum win"
  let ?r = "(cd_runner s)\<lparr>rn_device := cd_device s, rn_device_type := None\<rparr>"
  obtain osc frame where data: "rn_osc_data (cd_runner s) = Some osc" "rn_frame_data (cd_runner s) = Some frame"
    using assms(1) by (auto simp: runs_def)
  obtain d' where "dd_CloseDevice ?del (cd_device s) = Inr (OK, d')" using usb_close [OF assms(2)] by blast
  then have "\<exists>t. Runner_CloseDevice ?del ?r = Inr t"
    using data by (simp add: Runner_CloseDevice_def StopAll_def both_def CloseDeviceImpl_def)
  then show ?thesis by (auto simp: on_runner_def unit_call_def Let_def)
qed

lemma changed_runs:
  assumes "runs s"
  shows "\<exists>t. on_runner (unit_call (Runner_DeviceStateChanged del rf status)) s = Inr ((), t) \<and> runs t \<and>
    cd_osc t = cd_osc s \<and> cd_frame t = cd_frame s"
proof -
  let ?r = "(cd_runner s)\<lparr>rn_device := cd_device s, rn_device_type := None\<rparr>"
  have "Runner_DeviceStateChanged del rf status ?r = Inr ?r" using assms by (simp add: Runner_DeviceStateChanged_def runs_def)
  then show ?thesis using assms by (simp add: on_runner_def unit_call_def runs_def)
qed

definition fresh_in :: "bool \<Rightarrow> 's UsbPort CANScopeDevice \<Rightarrow> bool" where
  "fresh_in env s \<longleftrightarrow> env \<and> fresh_device s"

definition opened_in :: "bool \<Rightarrow> 's UsbPort CANScopeDevice \<Rightarrow> bool" where
  "opened_in env s \<longleftrightarrow> env \<and> device_open s \<and> runs s"

definition ready_in :: "bool \<Rightarrow> 's UsbPort CANScopeDevice \<Rightarrow> bool" where
  "ready_in env s \<longleftrightarrow> env \<and> device_regs_ok s \<and> runs s"

interpretation canscope: managed_device "canscope_ops (UsbPortDeviceDelegate enum win) rf mks cfg"
    "usb_env win rf mks cfg p q" "fresh_in (usb_env win rf mks cfg p q)" "opened_in (usb_env win rf mks cfg p q)"
    "ready_in (usb_env win rf mks cfg p q)" "{NotReached}"
  for enum :: "'s \<Rightarrow> string list option \<times> 's" and win :: "'s windows" and rf mks cfg p q
proof (unfold_locales, goal_cases)
  case (1 path n)
  then show ?case using create_fresh [of mks path n] by (simp add: canscope_ops_def fresh_in_def usb_env_def)
next
  case (2 v)
  then show ?case using init_opened [of v win rf enum]
    by (auto simp: canscope_ops_def fresh_in_def opened_in_def usb_env_def intro: stays_mono)
next
  case (3 v)
  then obtain t where "setup_device (UsbPortDeviceDelegate enum win) cfg v = Inr t" "device_regs_ok t" "port_ok (cd_device t)"
    "cd_runner t = cd_runner v"
    using setup_result [of v win cfg p q enum] by (auto simp: opened_in_def usb_env_def runs_def)
  then show ?case using 3 by (simp add: canscope_ops_def opened_in_def ready_in_def runs_def)
next
  case (4 v)
  then show ?case using close_runs [of v win enum] by (auto simp: canscope_ops_def ready_in_def usb_env_def)
next
  case (5 v status)
  then show ?case using changed_runs [of v "UsbPortDeviceDelegate enum win" rf status]
    by (auto simp: canscope_ops_def ready_in_def device_regs_ok_def)
qed


text \<open>With \<open>auto_close_offline\<close>, and without \<open>auto_open_first\<close>, no device is offline after a new list, which
  is to say that a device that was pulled out is closed in the same scan.\<close>

theorem offline_devices_closed:
  assumes "usb_env win rf mks cfg p q" and "manager_reach (canscope_ops (UsbPortDeviceDelegate enum win) rf mks cfg) s"
    and "'''' \<notin> set devices" and "dm_auto_close_offline s" and "\<not> dm_auto_open_first s"
  shows "DeviceListChanged (canscope_ops (UsbPortDeviceDelegate enum win) rf mks cfg) devices s = Inl NotReached \<or>
    (\<exists>t. DeviceListChanged (canscope_ops (UsbPortDeviceDelegate enum win) rf mks cfg) devices s = Inr t \<and>
      (\<forall>path. GetDeviceStatus path t \<noteq> kOffline))"
proof -
  let ?r = "DeviceListChanged (canscope_ops (UsbPortDeviceDelegate enum win) rf mks cfg) devices s"
  have "stays {NotReached} (\<lambda>t. \<forall>p. map_of (device_to_status t) p \<noteq> Some kOffline) ?r"
    by (rule canscope.list_changed_closes [OF canscope.reach_ok [OF assms(2,1)] assms(3-5)])
  then show ?thesis by (cases ?r) (auto simp: GetDeviceStatus_def split: option.splits)
qed

text \<open>A device over a port whose pipes are closed.\<close>

definition sample_making :: "unit UsbPort making" where
  "sample_making =
     \<lparr>mk_osc = default_osc, mk_frame = default_frame, mk_type = DT_CS1203, mk_flags = (True, True, True),
      mk_osc_data = idle_collecter, mk_frame_data = idle_collecter, mk_device = closed_port\<rparr>"

lemma sample_making_ok: "port_ok (mk_device sample_making)" "reads_bounded no_windows" "handles_close no_windows"
    "files_ok Map.empty"
  by (simp_all add: sample_making_def closed_port_def port_ok_def reads_bounded_def no_windows_def handles_close_def files_ok_def)

lemma sample_device: "\<exists>s. create_device (\<lambda>_. sample_making) 0 ''usb'' = Inr s \<and> fresh_device s"
  using create_fresh [of "\<lambda>_. sample_making" "''usb''" 0] sample_making_ok(1) by simp

lemma device_setup_witness:
  "\<exists>s t. create_device (\<lambda>_. sample_making) 0 ''usb'' = Inr s \<and>
     setup_device (UsbPortDeviceDelegate (Pair None) no_windows) slow_config s = Inr t \<and>
     lf_notes (cd_life t) = [Created] \<and> device_matches t default_osc slow_frame"
proof -
  obtain s where s: "create_device (\<lambda>_. sample_making) 0 ''usb'' = Inr s" "device_open s" "port_ok (cd_device s)"
    using sample_device by (auto simp: fresh_device_def runs_def)
  from device_setup [OF s(3) sample_making_ok(2) s(2) slow_config_gives default_osc_limits slow_frame_limits, of "Pair None"] s(1)
  show ?thesis by blast
qed

lemma default_setup_overflows_witness:
  "\<exists>s. create_device (\<lambda>_. sample_making) 0 ''usb'' = Inr s \<and>
     setup_device (UsbPortDeviceDelegate (Pair None) no_windows) GetDefaultConfig s = Inl Overflow"
proof -
  obtain s where s: "create_device (\<lambda>_. sample_making) 0 ''usb'' = Inr s" "device_open s" "port_ok (cd_device s)"
    using sample_device by (auto simp: fresh_device_def runs_def)
  from default_setup_overflows [OF s(3) sample_making_ok(2) s(2), of "Pair None"] s(1) show ?thesis by blast
qed

abbreviation sample_ops :: "unit UsbPort CANScopeDevice DeviceOps" where
  "sample_ops \<equiv> canscope_ops (UsbPortDeviceDelegate (Pair None) no_windows) Map.empty (\<lambda>_. sample_making) slow_config"

lemma sample_env: "usb_env no_windows Map.empty (\<lambda>_. sample_making) slow_config default_osc slow_frame"
  using sample_making_ok slow_config_gives default_osc_limits slow_frame_limits by (simp add: usb_env_def)


lemma offline_devices_closed_witness:
  "\<exists>s. DevicesManager_new False False True = Inr s \<and>
     (DeviceListChanged sample_ops [''usb''] s = Inl NotReached \<or>
      (\<exists>t. DeviceListChanged sample_ops [''usb''] s = Inr t \<and> (\<forall>path. GetDeviceStatus path t \<noteq> kOffline)))"
proof -
  obtain s :: "unit UsbPort CANScopeDevice DevicesManager" where s: "DevicesManager_new False False True = Inr s"
    by (simp add: DevicesManager_new_def)
  have "dm_auto_close_offline s" "\<not> dm_auto_open_first s" using s by (auto simp: DevicesManager_new_def)
  from offline_devices_closed [OF sample_env manager_new [OF s, of sample_ops] _ this, of "[''usb'']"] s show ?thesis by auto
qed

subsection \<open>Loading a configuration\<close>

text \<open>\<open>LoadConfig\<close> treats the two halves differently: the values of the oscilloscope are changed one by
  one, and the observers of those that change are called (\<open>stored\<close>); the values of the frame device are replaced
  altogether by the dictionary, and nobody is told, neither a member, nor an observer, nor a handle.\<close>

theorem LoadConfig_halves:
  assumes "map_of c kOscDevice = Some (Dictionary osc)" and "map_of c kFrameDevice = Some (Dictionary frame)"
    and "db_config_manager (cd_osc_base s) = Some cm" and "in_int32 (cm_current_id cm + 1)"
    and "db_config_manager (cd_frame_base s) = Some cm'" and "in_int32 (cm_current_id cm' + 1)"
    and "store_ok (cd_osc_prefs s)"
    and "\<And>k v. (k, v) \<in> set osc \<Longrightarrow> HasPrefPath k (cd_osc_prefs s) \<and> accepts (cd_osc_prefs s) k v"
  shows "\<exists>t. LoadConfig (Some c) s = Inr t \<and>
    cd_osc_prefs t = fold (\<lambda>(k, v). stored k v) osc (cd_osc_prefs s) \<and>
    w_prefs (cd_frame_prefs t) = fold (\<lambda>(k, v). map_put k v) frame [] \<and>
    w_events (cd_frame_prefs t) = w_events (cd_frame_prefs s) \<and> w_members (cd_frame_prefs t) = w_members (cd_frame_prefs s)"
proof -
  have take: "TakeSubDict (Some c) kOscDevice = (Some osc, Some (map_erase kOscDevice c))"
    "fst (TakeSubDict (Some (map_erase kOscDevice c)) kFrameDevice) = Some frame"
    using assms(1,2) by (simp_all add: TakeSubDict_def map_of_erase kOscDevice_neq)
  obtain r where r: "TakeSubDict (Some (map_erase kOscDevice c)) kFrameDevice = (Some frame, r)"
    using take(2) by (cases "TakeSubDict (Some (map_erase kOscDevice c)) kFrameDevice") auto
  have "ChangeContent osc (cd_osc_prefs s) = Inr (fold (\<lambda>(k, v). stored k v) osc (cd_osc_prefs s))"
    by (rule ChangeContent_folds [OF assms(7,8)])
  then show ?thesis
    using assms(3-6) r
    by (simp add: LoadConfig_def take take_config_def update_config_def Update_def int32_of_def LoadFromConfig_def
        InitFromConfig_def config_dictionary_def GetLast_def Reset_def)
qed

lemma LoadConfig_halves_witness:
  "\<exists>s t. create_device (\<lambda>_. sample_making) 0 ''usb'' = Inr s \<and>
     LoadConfig (Some [(''FrameDevice'', Dictionary default_frame_dict), (''OscDevice'', Dictionary [])]) s = Inr t \<and>
     w_events (cd_frame_prefs t) = [] \<and> w_prefs (cd_frame_prefs s) = [] \<and>
     w_prefs (cd_frame_prefs t) = fold (\<lambda>(k, v). map_put k v) default_frame_dict []"
proof -
  let ?c = "[(''FrameDevice'', Dictionary default_frame_dict), (''OscDevice'', Dictionary [])]"
  obtain s where s: "create_device (\<lambda>_. sample_making) 0 ''usb'' = Inr s" "no_config s"
    using sample_device by (auto simp: fresh_device_def device_open_def)
  obtain t1 t2 where n: "cd_osc_prefs s = store_new osc_kinds 0 t1" "cd_frame_prefs s = store_new frame_kinds 0 t2"
    "db_config_manager (cd_osc_base s) = Some ConfigManager_new" "db_config_manager (cd_frame_base s) = Some ConfigManager_new"
    using s(2) by (auto simp: no_config_def DeviceBase_new_def)
  have ok: "store_ok (cd_osc_prefs s)"
    by (auto simp: n(1) store_ok_def store_new_def observers_ok_def member_ok_def StoreMember_new_def IsOnCorrectThread_def)
  have dict: "map_of ?c kOscDevice = Some (Dictionary [])" "map_of ?c kFrameDevice = Some (Dictionary default_frame_dict)"
    by (simp_all add: kOscDevice_def kFrameDevice_def)
  have id: "in_int32 (cm_current_id ConfigManager_new + 1)" by (simp add: ConfigManager_new_def in_int32_def)
  have "w_events (cd_frame_prefs s) = []" "w_prefs (cd_frame_prefs s) = []" by (simp_all add: n(2) store_new_def)
  with LoadConfig_halves [OF dict n(3) id n(4) id ok] s(1) show ?thesis by auto
qed

end
