(* ===== verification/Device_Handle.thy ===== *)
theory Device_Handle
  imports Device_Base Device_Error Async_Task
begin

text \<open>
  The view of a device from the threads of its users: \<open>DeviceHandleBase\<close> (canscope/device/device_handle_base.h,
  device_handle_base.cc), a property of a handle (canscope/device/property/property.h), the commit of many properties at
  once (scoped_device_property_commit.h, scoped_device_property_commit.cc), a call on another thread
  (sync_call.h, sync_call.cc) and the handles of a thread (canscope_device_handle.h, canscope_device_handle.cc).

  A handle has a store of its own, a copy of the device's, with a member for each of the device's members.  Setting a
  property outside a batch posts a task to the device thread, which sets the member of the device, runs the callback that
  writes the registers and saves the configuration; the handle then fetches the configuration.  \<open>dh_posted\<close> are the
  tasks that wait on the device thread, which runs them in order; a synchronous call waits for its task and
  hence for those before it.  \<open>dh_thread\<close> is the thread of the handle, which may be the device thread.
\<close>

subsection \<open>State\<close>

text \<open>The device with the errors of all threads, as a callback sees it; \<open>ds_rest\<close> is what lies behind its store.\<close>

record ('v, 'a, 's) DeviceSide =
  ds_base :: "'v DeviceBase"
  ds_prefs :: "('v, 'a) world"
  ds_errors :: ErrorState
  ds_rest :: 's

type_synonym ('v, 'a, 's) closure = "('v, 'a, 's) DeviceSide \<Rightarrow> ('v, 'a, 's) DeviceSide res"

record ('v, 'a, 's) Property =
  pr_member :: ptr
  pr_device_member :: ptr
  pr_call_back :: "('v, 'a, 's) closure option"
  pr_check_value :: "('a \<Rightarrow> string \<Rightarrow> ErrorState \<Rightarrow> (bool \<times> ErrorState) res) option"
  pr_device_error :: Error
  pr_async_count :: int

datatype ('v, 'a, 's) work =
    SetValueWork ptr 'a ptr
  | CommitWork "(string \<times> 'v) list" ptr "('v, 'a, 's) closure option"

record ('v, 'a, 's) Handle =
  dh_device :: "('v, 'a, 's) DeviceSide"
  dh_prefs :: "('v, 'a) world"
  dh_current_pref :: int
  dh_batch_mode :: bool
  dh_properties :: "ptr \<Rightarrow> ('v, 'a, 's) Property option"
  dh_tasks :: "ptr \<Rightarrow> AsyncTask option"
  dh_posted :: "('v, 'a, 's) work list"
  dh_thread :: nat
  dh_device_thread :: nat

definition on_thread :: "nat \<Rightarrow> ('v, 'a) world \<Rightarrow> ('v, 'a) world" where
  "on_thread t w = w\<lparr>w_thread := t\<rparr>"

definition with_property ::
  "ptr \<Rightarrow> ('v, 'a, 's) Handle \<Rightarrow> (('v, 'a, 's) Property \<Rightarrow> 'b res) \<Rightarrow> 'b res" where
  "with_property p h f = (case dh_properties h p of None \<Rightarrow> Inl Undefined | Some pr \<Rightarrow> f pr)"

definition with_task :: "ptr \<Rightarrow> ('v, 'a, 's) Handle \<Rightarrow> (AsyncTask \<Rightarrow> 'b res) \<Rightarrow> 'b res" where
  "with_task a h f = (case dh_tasks h a of None \<Rightarrow> Inl Undefined | Some t \<Rightarrow> f t)"

definition put_property :: "ptr \<Rightarrow> ('v, 'a, 's) Property \<Rightarrow> ('v, 'a, 's) Handle \<Rightarrow> ('v, 'a, 's) Handle" where
  "put_property p pr h = h\<lparr>dh_properties := (dh_properties h)(p \<mapsto> pr)\<rparr>"

definition put_task :: "ptr \<Rightarrow> AsyncTask \<Rightarrow> ('v, 'a, 's) Handle \<Rightarrow> ('v, 'a, 's) Handle" where
  "put_task a t h = h\<lparr>dh_tasks := (dh_tasks h)(a \<mapsto> t)\<rparr>"

definition on_errors ::
  "(ErrorState \<Rightarrow> ErrorState res) \<Rightarrow> ('v, 'a, 's) Handle \<Rightarrow> ('v, 'a, 's) Handle res" where
  "on_errors f h =
     and_then (f (ds_errors (dh_device h))) (\<lambda>es.
       Inr (h\<lparr>dh_device := (dh_device h)\<lparr>ds_errors := es\<rparr>\<rparr>))"

subsection \<open>DeviceHandleBase\<close>

definition IsDeviceThread :: "('v, 'a, 's) Handle \<Rightarrow> bool" where
  "IsDeviceThread h \<longleftrightarrow> dh_thread h = dh_device_thread h"

definition last_dict :: "('v, 'a, 's) DeviceSide \<Rightarrow> (int \<times> (string \<times> 'v) list) res" where
  "last_dict d =
     (case db_config_manager (ds_base d) of
        None \<Rightarrow> Inl DcheckFailed
      | Some cm \<Rightarrow>
          and_then (GetLast cm) (\<lambda>config.
            case cfg_pref config of OtherValue \<Rightarrow> Inl DcheckFailed | Dictionary dict \<Rightarrow> Inr (cfg_id config, dict)))"

text \<open>That the last configuration is a dictionary is checked only where it is used.\<close>

definition last_id :: "('v, 'a, 's) DeviceSide \<Rightarrow> int res" where
  "last_id d =
     (case db_config_manager (ds_base d) of
        None \<Rightarrow> Inl DcheckFailed
      | Some cm \<Rightarrow> and_then (GetLast cm) (\<lambda>config. Inr (cfg_id config)))"

definition FetchNewPref :: "('v, 'a, 's) Handle \<Rightarrow> ('v, 'a, 's) Handle res" where
  "FetchNewPref h =
     and_then (last_id (dh_device h)) (\<lambda>id.
       if id = dh_current_pref h then Inr h
       else
         and_then (last_dict (dh_device h)) (\<lambda>(id, dict).
         and_then (ChangeContent dict (on_thread (dh_thread h) (dh_prefs h))) (\<lambda>prefs.
           Inr (h\<lparr>dh_current_pref := id, dh_prefs := prefs\<rparr>))))"

definition InitHandle :: "('v, 'a, 's) Handle \<Rightarrow> ('v, 'a, 's) Handle res" where
  "InitHandle h =
     and_then (last_dict (dh_device h)) (\<lambda>(id, dict).
       Inr (h\<lparr>dh_current_pref := id, dh_prefs := Reset dict (on_thread (dh_thread h) (dh_prefs h))\<rparr>))"

definition Handle_Observe :: "notification \<Rightarrow> ('v, 'a, 's) Handle \<Rightarrow> ('v, 'a, 's) Handle res" where
  "Handle_Observe type h = (if type = DEVICE_PREFS_UPDATE then FetchNewPref h else Inl NotReached)"

definition SetPropertyFinish :: "('v, 'a, 's) DeviceSide \<Rightarrow> ('v, 'a, 's) DeviceSide res" where
  "SetPropertyFinish d =
     and_then (UpdateConfig (ds_base d) (Some (ds_prefs d))) (\<lambda>base. Inr (d\<lparr>ds_base := base\<rparr>))"

definition SetBatchMode :: "bool \<Rightarrow> ('v, 'a, 's) Handle \<Rightarrow> ('v, 'a, 's) Handle" where
  "SetBatchMode b h = h\<lparr>dh_batch_mode := b\<rparr>"

definition PostDeviceTask :: "('v, 'a, 's) work \<Rightarrow> ('v, 'a, 's) Handle \<Rightarrow> ('v, 'a, 's) Handle" where
  "PostDeviceTask work h = h\<lparr>dh_posted := dh_posted h @ [work]\<rparr>"

subsection \<open>Property\<close>

definition run_closure :: "('v, 'a, 's) closure option \<Rightarrow> ('v, 'a, 's) closure" where
  "run_closure c d = (case c of None \<Rightarrow> Inr d | Some f \<Rightarrow> f d)"

definition CallCallback :: "('v, 'a, 's) Property \<Rightarrow> ('v, 'a, 's) closure" where
  "CallCallback pr d = and_then (run_closure (pr_call_back pr) d) SetPropertyFinish"

definition CheckValue ::
  "('v, 'a, 's) Property \<Rightarrow> 'a \<Rightarrow> ('v, 'a, 's) Handle \<Rightarrow> (bool \<times> ('v, 'a, 's) Handle) res" where
  "CheckValue pr value h =
     (case pr_check_value pr of
        None \<Rightarrow> Inr (True, h)
      | Some f \<Rightarrow>
          with_member (pr_member pr) (dh_prefs h) (\<lambda>m.
          and_then (f value (m_name m) (ds_errors (dh_device h))) (\<lambda>(ok, es).
            Inr (ok, h\<lparr>dh_device := (dh_device h)\<lparr>ds_errors := es\<rparr>\<rparr>))))"

text \<open>\<open>device_member_.set_value\<close> and \<open>CallCallback\<close>, on the thread \<open>t\<close>.\<close>

definition device_set :: "nat \<Rightarrow> ('v, 'a, 's) Property \<Rightarrow> 'a \<Rightarrow> ('v, 'a, 's) closure" where
  "device_set t pr value d =
     and_then (Member_set_value (pr_device_member pr) value (on_thread t (ds_prefs d))) (\<lambda>prefs.
       CallCallback pr (d\<lparr>ds_prefs := prefs\<rparr>))"

definition on_device :: "('v, 'a, 's) closure \<Rightarrow> ('v, 'a, 's) Handle \<Rightarrow> ('v, 'a, 's) Handle res" where
  "on_device f h = and_then (f (dh_device h)) (\<lambda>d. Inr (h\<lparr>dh_device := d\<rparr>))"

definition SetValueImplSync :: "ptr \<Rightarrow> 'a \<Rightarrow> ('v, 'a, 's) Handle \<Rightarrow> ('v, 'a, 's) Handle res" where
  "SetValueImplSync p value h =
     with_property p h (\<lambda>pr.
     let t = dh_device_thread h in
     and_then (on_errors (CleanError t) h) (\<lambda>h.
     and_then (on_device (device_set t pr value) h) (\<lambda>h.
     and_then (LastDeviceError t (ds_errors (dh_device h))) (\<lambda>err.
       Inr (put_property p (pr\<lparr>pr_device_error := err\<rparr>) h)))))"

definition add_async :: "ptr \<Rightarrow> int \<Rightarrow> ('v, 'a, 's) Handle \<Rightarrow> ('v, 'a, 's) Handle res" where
  "add_async p n h =
     with_property p h (\<lambda>pr.
     and_then (int32_of (pr_async_count pr + n)) (\<lambda>c. Inr (put_property p (pr\<lparr>pr_async_count := c\<rparr>) h)))"

text \<open>The end of an asynchronous operation on the device thread.\<close>

definition finish_task :: "ptr \<Rightarrow> ('v, 'a, 's) Handle \<Rightarrow> ('v, 'a, 's) Handle res" where
  "finish_task a h =
     and_then (LastDeviceError (dh_device_thread h) (ds_errors (dh_device h))) (\<lambda>err.
     with_task a h (\<lambda>t.
       Inr (put_task a (if err = OK then NotifyFinish t else NotifyError t) h)))"

definition SetValueAsyncImpl :: "ptr \<Rightarrow> 'a \<Rightarrow> ptr \<Rightarrow> ('v, 'a, 's) Handle \<Rightarrow> ('v, 'a, 's) Handle res" where
  "SetValueAsyncImpl p value a h =
     with_property p h (\<lambda>pr.
     with_task a h (\<lambda>task.
       if UserCancel task then Inr (put_task a (NotifyCancel task) h)
       else
         and_then (on_errors (CleanError (dh_device_thread h)) h) (\<lambda>h.
         and_then (on_device (device_set (dh_device_thread h) pr value) h) (\<lambda>h.
         and_then (finish_task a h) (add_async p (-1))))))"

subsection \<open>The commit's tasks, and the device thread\<close>

definition commit_device ::
  "nat \<Rightarrow> (string \<times> 'v) list \<Rightarrow> ('v, 'a, 's) closure option \<Rightarrow> ('v, 'a, 's) closure" where
  "commit_device t value commit_call d =
     and_then (ChangeContent value (on_thread t (ds_prefs d))) (\<lambda>prefs.
     and_then (run_closure commit_call (d\<lparr>ds_prefs := prefs\<rparr>)) SetPropertyFinish)"

definition CommitSyncImpl ::
  "(string \<times> 'v) list \<Rightarrow> ('v, 'a, 's) closure option \<Rightarrow> ('v, 'a, 's) Handle \<Rightarrow> (Error \<times> ('v, 'a, 's) Handle) res" where
  "CommitSyncImpl value commit_call h =
     (let t = dh_device_thread h in
      and_then (on_errors (CleanError t) h) (\<lambda>h.
      and_then (on_device (commit_device t value commit_call) h) (\<lambda>h.
      and_then (LastDeviceError t (ds_errors (dh_device h))) (\<lambda>err. Inr (err, h)))))"

definition CommitAsyncImpl ::
  "(string \<times> 'v) list \<Rightarrow> ptr \<Rightarrow> ('v, 'a, 's) closure option \<Rightarrow> ('v, 'a, 's) Handle \<Rightarrow> ('v, 'a, 's) Handle res" where
  "CommitAsyncImpl value a commit_call h =
     with_task a h (\<lambda>task.
       if UserCancel task then Inr (put_task a (NotifyCancel task) h)
       else
         and_then (on_errors (CleanError (dh_device_thread h)) h) (\<lambda>h.
         and_then (on_device (commit_device (dh_device_thread h) value commit_call) h) (finish_task a)))"

fun run_work :: "('v, 'a, 's) work \<Rightarrow> ('v, 'a, 's) Handle \<Rightarrow> ('v, 'a, 's) Handle res" where
  "run_work (SetValueWork p value a) h = SetValueAsyncImpl p value a h"
| "run_work (CommitWork value a commit_call) h = CommitAsyncImpl value a commit_call h"

definition device_loop_once :: "('v, 'a, 's) Handle \<Rightarrow> ('v, 'a, 's) Handle res" where
  "device_loop_once h =
     (case dh_posted h of [] \<Rightarrow> Inr h | w # ws \<Rightarrow> run_work w (h\<lparr>dh_posted := ws\<rparr>))"

text \<open>What the device thread does before it comes to a task that is posted now.\<close>

definition device_loop_all :: "('v, 'a, 's) Handle \<Rightarrow> ('v, 'a, 's) Handle res" where
  "device_loop_all h = for_each run_work (dh_posted h) (h\<lparr>dh_posted := []\<rparr>)"

subsection \<open>Setting a property\<close>

definition SetValueImpl :: "ptr \<Rightarrow> 'a \<Rightarrow> ('v, 'a, 's) Handle \<Rightarrow> ('v, 'a, 's) Handle res" where
  "SetValueImpl p value h =
     with_property p h (\<lambda>pr.
     if dh_batch_mode h then
       and_then (Member_set_value (pr_member pr) value (on_thread (dh_thread h) (dh_prefs h))) (\<lambda>prefs.
         Inr (h\<lparr>dh_prefs := prefs\<rparr>))
     else if \<not> IsDeviceThread h then
       and_then (device_loop_all h) (\<lambda>h.
       and_then (SetValueImplSync p value h) (\<lambda>h.
       with_property p h (\<lambda>pr.
       and_then (on_errors (SetDeviceError (dh_thread h) (pr_device_error pr)) h) FetchNewPref)))
     else and_then (on_device (device_set (dh_thread h) pr value) h) FetchNewPref)"

definition Property_set_value :: "ptr \<Rightarrow> 'a \<Rightarrow> ('v, 'a, 's) Handle \<Rightarrow> ('v, 'a, 's) Handle res" where
  "Property_set_value p value h =
     with_property p h (\<lambda>pr.
     and_then (on_errors (CleanError (dh_thread h)) h) (\<lambda>h.
     and_then (CheckValue pr value h) (\<lambda>(ok, h).
       if ok then SetValueImpl p value h
       else on_errors (SetDeviceErrorIfNoError (dh_thread h) ERR_INVAILD_VALUE) h)))"

definition Property_set_value_async :: "ptr \<Rightarrow> 'a \<Rightarrow> ptr \<Rightarrow> ('v, 'a, 's) Handle \<Rightarrow> ('v, 'a, 's) Handle res" where
  "Property_set_value_async p value a h =
     with_property p h (\<lambda>pr.
     with_task a h (\<lambda>task.
     let h = put_task a (NotifyStart task) h in
     and_then (CheckValue pr value h) (\<lambda>(ok, h).
       if \<not> ok then
         and_then (on_errors (SetDeviceErrorIfNoError (dh_thread h) ERR_INVAILD_VALUE) h) (\<lambda>h.
         and_then (LastDeviceError (dh_thread h) (ds_errors (dh_device h))) (\<lambda>err.
         with_task a h (\<lambda>task. Inr (put_task a (NotifyError task) h))))
       else
         DCHECK (\<not> IsDeviceThread h) (
         and_then (add_async p 1 h) (\<lambda>h. Inr (PostDeviceTask (SetValueWork p value a) h))))))"

definition Property_value :: "ptr \<Rightarrow> ('v, 'a, 's) Handle \<Rightarrow> ('a \<times> ('v, 'a, 's) Handle) res" where
  "Property_value p h =
     with_property p h (\<lambda>pr.
     and_then (Member_value (pr_member pr) (on_thread (dh_thread h) (dh_prefs h))) (\<lambda>(x, prefs).
       Inr (x, h\<lparr>dh_prefs := prefs\<rparr>)))"

definition Property_destroy :: "ptr \<Rightarrow> ('v, 'a, 's) Handle \<Rightarrow> ('v, 'a, 's) Handle res" where
  "Property_destroy p h =
     with_property p h (\<lambda>pr.
       CHECK (pr_async_count pr = 0) (Inr (h\<lparr>dh_properties := (dh_properties h)(p := None)\<rparr>)))"

subsection \<open>ScopedDevicePropertyCommit\<close>

text \<open>The constructors keep the batch mode that they find; the destructor commits and restores it.\<close>

definition Commit_begin :: "('v, 'a, 's) Handle \<Rightarrow> bool \<times> ('v, 'a, 's) Handle" where
  "Commit_begin h = (dh_batch_mode h, SetBatchMode True h)"

definition CommitSync :: "('v, 'a, 's) closure option \<Rightarrow> ('v, 'a, 's) Handle \<Rightarrow> ('v, 'a, 's) Handle res" where
  "CommitSync commit_call h =
     (let value = Serialize (dh_prefs h) in
      if IsDeviceThread h then Inl Blocked
      else
        and_then (device_loop_all h) (\<lambda>h.
        and_then (CommitSyncImpl value commit_call h) (\<lambda>(err, h).
        and_then (on_errors (SetDeviceError (dh_thread h) err) h) FetchNewPref)))"

definition CommitAsync ::
  "ptr \<Rightarrow> ('v, 'a, 's) closure option \<Rightarrow> ('v, 'a, 's) Handle \<Rightarrow> ('v, 'a, 's) Handle res" where
  "CommitAsync a commit_call h =
     with_task a h (\<lambda>task.
       Inr (PostDeviceTask (CommitWork (Serialize (dh_prefs h)) a commit_call) (put_task a (NotifyStart task) h)))"

definition Commit_end ::
  "bool \<Rightarrow> ptr option \<Rightarrow> ('v, 'a, 's) closure option \<Rightarrow> ('v, 'a, 's) Handle \<Rightarrow> ('v, 'a, 's) Handle res" where
  "Commit_end old async_task commit_call h =
     and_then (case async_task of None \<Rightarrow> CommitSync commit_call h | Some a \<Rightarrow> CommitAsync a commit_call h) (\<lambda>h.
       Inr (SetBatchMode old h))"

subsection \<open>Stores that hold the same members\<close>

text \<open>Storing and reading changes what the members hold, and nothing else of them.\<close>

definition same_layout :: "('v, 'a) world \<Rightarrow> ('v, 'a) world \<Rightarrow> bool" where
  "same_layout w w' \<longleftrightarrow>
     (\<exists>f. w_members w' = (\<lambda>p. map_option (\<lambda>m. m\<lparr>m_value := f p\<rparr>) (w_members w p))) \<and>
     w_observers w' = w_observers w \<and> w_thread w' = w_thread w"

lemma ex_same_value [simp]: "\<exists>x. m = m\<lparr>m_value := x\<rparr>" "\<exists>x. m\<lparr>m_value := y\<rparr> = m\<lparr>m_value := x\<rparr>"
  by (rule exI [of _ "m_value m"], simp) (rule exI [of _ y], simp)

lemma setting_unset: "\<not> m_setting m \<Longrightarrow> m\<lparr>m_value := y, m_setting := False\<rparr> = m\<lparr>m_value := y\<rparr>"
  by (cases m) simp

lemma same_layout_members:
  assumes "\<And>p. rel_option (\<lambda>m m'. \<exists>x. m' = m\<lparr>m_value := x\<rparr>) (w_members w p) (w_members w' p)"
  shows "\<exists>f. w_members w' = (\<lambda>p. map_option (\<lambda>m. m\<lparr>m_value := f p\<rparr>) (w_members w p))"
proof -
  have "\<exists>x. w_members w' p = map_option (\<lambda>m. m\<lparr>m_value := x\<rparr>) (w_members w p)" for p
    using assms [of p] by (cases "w_members w p"; cases "w_members w' p") auto
  then obtain f where "\<And>p. w_members w' p = map_option (\<lambda>m. m\<lparr>m_value := f p\<rparr>) (w_members w p)" by metis
  then show ?thesis by blast
qed

lemma same_layout_refl: "same_layout w w"
  unfolding same_layout_def
  by (intro conjI refl same_layout_members option.rel_refl_strong ex_same_value)

lemma same_layout_trans [trans]: "same_layout u v \<Longrightarrow> same_layout v w \<Longrightarrow> same_layout u w"
  by (auto simp: same_layout_def option.map_comp comp_def)

lemma same_layout_stored: "same_layout w (stored k v w)"
  unfolding same_layout_def
proof (intro conjI same_layout_members)
  fix p
  show "rel_option (\<lambda>m m'. \<exists>x. m' = m\<lparr>m_value := x\<rparr>) (w_members w p) (w_members (stored k v w) p)"
    by (cases "w_members w p") (simp_all add: members_stored loaded_def load_member_def)
qed simp_all

lemma same_layout_fold: "same_layout w (fold (\<lambda>(k, v). stored k v) dict w)"
proof (induction dict arbitrary: w)
  case (Cons x dict)
  then show ?case
    by (cases x) (auto intro: same_layout_trans [OF same_layout_stored])
qed (simp add: same_layout_refl)

lemma same_layout_accepts:
  assumes "same_layout w w'"
  shows "accepts w' = accepts w"
proof (intro ext)
  fix k v
  have "observers_of w' k = observers_of w k"
    using assms by (simp add: same_layout_def observers_of_def)
  then show "accepts w' k v = accepts w k v"
    using assms unfolding accepts_def same_layout_def by (auto intro!: ball_cong split: option.splits)
qed

lemma same_layout_member:
  "same_layout w w' \<Longrightarrow> w_members w p = Some m \<Longrightarrow> \<exists>x. w_members w' p = Some (m\<lparr>m_value := x\<rparr>)"
  by (auto simp: same_layout_def)

lemma ChangeContent_result:
  assumes "store_ok w" and "map_keys_ok dict" and "\<And>k v. (k, v) \<in> set dict \<Longrightarrow> HasPrefPath k w \<and> accepts w k v"
  shows "\<exists>w'. ChangeContent dict w = Inr w' \<and> store_ok w' \<and> same_layout w w' \<and>
    map_of (w_prefs w') = map_of (w_prefs w) ++ map_of dict"
proof -
  let ?w = "fold (\<lambda>(k, v). stored k v) dict w"
  have dist: "distinct (map fst dict)" using assms(2) by (rule map_keys_ok_distinct)
  have "map_of (w_prefs ?w) = map_of (w_prefs w) ++ map_of dict"
    using fold_stored_values [OF assms(1) dist]
    by (auto simp: GetValue_def fun_eq_iff map_add_def split: option.splits)
  then show ?thesis
    using ChangeContent_folds [OF assms(1,3)] fold_stored_ok [OF assms(1)] same_layout_fold [of w dict] by auto
qed

lemma Member_set_value_result:
  assumes "store_ok w" and m: "w_members w p = Some m" "m_has_prefs m" "\<not> m_setting m"
    and "accepts w (m_name m) (m_make m x)"
  shows "\<exists>w'. Member_set_value p x w = Inr w' \<and> store_ok w' \<and> same_layout w w' \<and>
    map_of (w_prefs w') = (map_of (w_prefs w))(m_name m \<mapsto> m_make m x)"
proof -
  let ?n = "m_name m" and ?v = "m_make m x"
  let ?w1 = "put_member p (m\<lparr>m_setting := True\<rparr>) w"
  let ?w2 = "stored ?n ?v ?w1"
  have ok1: "store_ok ?w1" by (rule store_ok_put_member [OF assms(1) m(1)]) simp_all
  have acc1: "accepts ?w1 = accepts w" by (rule accepts_put_member [OF m(1)]) simp
  have ok2: "store_ok ?w2" by (rule store_ok_stored [OF ok1])
  obtain y where y: "w_members ?w2 p = Some (m\<lparr>m_setting := True, m_value := y\<rparr>)"
    using same_layout_member [OF same_layout_stored, of ?w1 p "m\<lparr>m_setting := True\<rparr>" ?n ?v] by auto
  let ?w3 = "put_member p (m\<lparr>m_value := y, m_setting := False\<rparr>) ?w2"
  have "member_ok w p m" using store_okD(3) [OF assms(1) m(1)] .
  then have run: "Member_set_value p x w = Inr ?w3"
    using m SetValue_stores [OF ok1] assms(5) acc1 y
    by (simp add: Member_set_value_def with_member_def member_ok_def set_setting_def UpdatePref_def)
  have ok3: "store_ok ?w3" by (rule store_ok_put_member [OF ok2 y]) simp_all
  have "same_layout w ?w3"
    unfolding same_layout_def
  proof (intro conjI same_layout_members)
    fix q
    show "rel_option (\<lambda>m m'. \<exists>x. m' = m\<lparr>m_value := x\<rparr>) (w_members w q) (w_members ?w3 q)"
      using m same_layout_stored [of ?w1 ?n ?v]
      by (cases "w_members w q") (auto simp: same_layout_def setting_unset [OF m(3)])
  qed simp_all
  moreover have "map_of (w_prefs ?w3) = (map_of (w_prefs w))(?n \<mapsto> ?v)"
    using GetValue_stored [OF ok1, of _ ?n ?v] by (auto simp: GetValue_def fun_eq_iff)
  ultimately show ?thesis using run ok3 by blast
qed

subsection \<open>What the device and its handles keep\<close>

definition content :: "('v, 'a) world \<Rightarrow> string \<Rightarrow> 'v option" where
  "content w = map_of (w_prefs w)"

text \<open>The store of a side, used on thread \<open>t\<close>, holds under each key a value that \<open>takes\<close> allows there, and
  its members can hold all such values.\<close>

definition store_takes :: "nat \<Rightarrow> (string \<Rightarrow> 'v \<Rightarrow> bool) \<Rightarrow> ('v, 'a) world \<Rightarrow> bool" where
  "store_takes t takes w \<longleftrightarrow> store_ok (on_thread t w) \<and> (\<forall>k v. takes k v \<longrightarrow> accepts w k v) \<and>
     (\<forall>k v. content w k = Some v \<longrightarrow> takes k v)"

definition side_ok :: "nat \<Rightarrow> (string \<Rightarrow> 'v \<Rightarrow> bool) \<Rightarrow> ('v, 'a, 's) DeviceSide \<Rightarrow> bool" where
  "side_ok t takes d \<longleftrightarrow> store_takes t takes (ds_prefs d) \<and> es_tls (ds_errors d) t \<noteq> None \<and>
     (\<exists>cm. db_config_manager (ds_base d) = Some cm \<and> config_ok cm \<and> cm_history cm \<noteq> [])"

text \<open>The last configuration is what the store holds.\<close>

definition saved :: "('v, 'a, 's) DeviceSide \<Rightarrow> bool" where
  "saved d \<longleftrightarrow> (\<exists>id dict. last_dict d = Inr (id, dict) \<and> map_keys_ok dict \<and> map_of dict = content (ds_prefs d))"

text \<open>Only the error of the thread \<open>t\<close> may have changed.\<close>

definition same_threads :: "nat \<Rightarrow> ErrorState \<Rightarrow> ErrorState \<Rightarrow> bool" where
  "same_threads t es es' \<longleftrightarrow> es_tls es' = es_tls es \<and>
     (\<forall>p. es_tls es t \<noteq> Some p \<longrightarrow> es_last_error es' p = es_last_error es p)"

text \<open>What a callback may do: with a content that the device can be given it succeeds, keeps \<open>ok\<close> of what lies behind
  the store, and leaves the store's content and the configurations alone.\<close>

definition callback_ok ::
  "nat \<Rightarrow> (string \<Rightarrow> 'v \<Rightarrow> bool) \<Rightarrow> ((string \<Rightarrow> 'v option) \<Rightarrow> bool) \<Rightarrow> ('s \<Rightarrow> bool) \<Rightarrow>
     ('v, 'a, 's) closure option \<Rightarrow> bool" where
  "callback_ok t takes allowed ok c \<longleftrightarrow>
     (\<forall>d. side_ok t takes d \<and> w_thread (ds_prefs d) = t \<and> allowed (content (ds_prefs d)) \<and> ok (ds_rest d) \<longrightarrow>
        (\<exists>d'. run_closure c d = Inr d' \<and> ok (ds_rest d') \<and> ds_base d' = ds_base d \<and>
           store_ok (ds_prefs d') \<and> same_layout (ds_prefs d) (ds_prefs d') \<and> w_prefs (ds_prefs d') = w_prefs (ds_prefs d) \<and>
           same_threads t (ds_errors d) (ds_errors d')))"

lemma callback_ok_None: "callback_ok t takes allowed ok None"
  by (auto simp: callback_ok_def run_closure_def same_layout_refl same_threads_def side_ok_def store_takes_def on_thread_def)

lemma on_thread_simps [simp]:
  "w_prefs (on_thread t w) = w_prefs w"
  "w_members (on_thread t w) = w_members w"
  "w_observers (on_thread t w) = w_observers w"
  "w_thread (on_thread t w) = t"
  "content (on_thread t w) = content w"
  "accepts (on_thread t w) = accepts w"
  "HasPrefPath k (on_thread t w) = HasPrefPath k w"
  "on_thread t (on_thread u w) = on_thread t w"
  by (simp_all add: on_thread_def content_def accepts_def observers_of_def HasPrefPath_def GetValue_def fun_eq_iff)

lemma on_thread_same [simp]: "w_thread w = t \<Longrightarrow> on_thread t w = w"
  by (auto simp: on_thread_def)

lemma HasPrefPath_content: "HasPrefPath k w \<longleftrightarrow> content w k \<noteq> None"
  by (simp add: HasPrefPath_def GetValue_def content_def)

lemma store_takes_step:
  assumes "store_takes t takes w" and "store_ok w'" and "same_layout (on_thread t w) w'"
    and "\<And>k v. content w' k = Some v \<Longrightarrow> takes k v"
  shows "store_takes t takes w'"
  using assms same_layout_accepts [OF assms(3)] by (simp add: store_takes_def same_layout_def)

lemma last_id_last_dict: "last_dict d = Inr (n, dict) \<Longrightarrow> last_id d = Inr n"
  by (auto simp: last_dict_def last_id_def split: option.splits pref.splits)

lemma side_ok_last_id:
  assumes "side_ok t takes d"
  shows "\<exists>cm. db_config_manager (ds_base d) = Some cm \<and> last_id d = Inr (cm_current_id cm - 1) \<and> config_ok cm"
proof -
  obtain cm where cm: "db_config_manager (ds_base d) = Some cm" "config_ok cm" "cm_history cm \<noteq> []"
    using assms by (auto simp: side_ok_def)
  then have "cfg_id (last (cm_history cm)) = cm_current_id cm - 1"
    by (cases "cm_history cm" rule: rev_cases) (auto simp: config_ok_def)
  then show ?thesis using cm by (auto simp: last_id_def GetLast_def)
qed

lemma SetPropertyFinish_ok:
  assumes "side_ok t takes d" and "last_id d = Inr n" and "n < 2147483646"
  shows "\<exists>d'. SetPropertyFinish d = Inr d' \<and> side_ok t takes d' \<and> saved d' \<and> last_id d' = Inr (n + 1) \<and>
    ds_prefs d' = ds_prefs d \<and> ds_errors d' = ds_errors d \<and> ds_rest d' = ds_rest d"
proof -
  obtain cm where cm: "db_config_manager (ds_base d) = Some cm" "last_id d = Inr (cm_current_id cm - 1)" "config_ok cm"
    using side_ok_last_id [OF assms(1)] by blast
  have n: "cm_current_id cm = n + 1" using cm(2) assms(2) by simp
  have "0 \<le> cm_current_id cm" using cm(3) by (simp add: config_ok_def)
  then obtain cm' where up: "Update (Dictionary (Serialize (ds_prefs d))) cm = Inr cm'"
    using n assms(3) by (simp add: Update_def int32_of_def in_int32_def)
  have ok': "config_ok cm'" by (rule Update_ok [OF cm(3) up])
  have last': "GetLast cm' = Inr \<lparr>cfg_id = n + 1, cfg_pref = Dictionary (Serialize (ds_prefs d))\<rparr>"
    using Update_GetLast [OF up] n by simp
  have "cm_history cm' \<noteq> []" using up by (auto simp: Update_def)
  have keys: "map_keys_ok (w_prefs (ds_prefs d))"
    using assms(1) by (auto simp: side_ok_def store_takes_def store_ok_def)
  then have ser: "Serialize (ds_prefs d) = w_prefs (ds_prefs d)"
    using fold_map_put [of "[]" "w_prefs (ds_prefs d)"] by (simp add: Serialize_def)
  have fin: "SetPropertyFinish d = Inr (d\<lparr>ds_base := (ds_base d)\<lparr>db_config_manager := Some cm',
      db_notified := db_notified (ds_base d) @ [DEVICE_PREFS_UPDATE]\<rparr>\<rparr>)"
    using cm(1) up by (simp add: SetPropertyFinish_def UpdateConfig_def)
  show ?thesis
    using fin assms(1) ok' last' \<open>cm_history cm' \<noteq> []\<close> keys ser
    by (simp add: side_ok_def saved_def last_dict_def last_id_def content_def)
qed

lemma run_closure_side:
  assumes "callback_ok t takes allowed ok c" and "side_ok t takes d" and "w_thread (ds_prefs d) = t"
    and "allowed (content (ds_prefs d))" and "ok (ds_rest d)"
  shows "\<exists>d'. run_closure c d = Inr d' \<and> ok (ds_rest d') \<and> ds_base d' = ds_base d \<and> side_ok t takes d' \<and>
    same_layout (ds_prefs d) (ds_prefs d') \<and> content (ds_prefs d') = content (ds_prefs d) \<and>
    same_threads t (ds_errors d) (ds_errors d')"
proof -
  obtain d' where d': "run_closure c d = Inr d'" "ok (ds_rest d')" "ds_base d' = ds_base d" "store_ok (ds_prefs d')"
    "same_layout (ds_prefs d) (ds_prefs d')" "w_prefs (ds_prefs d') = w_prefs (ds_prefs d)"
    "same_threads t (ds_errors d) (ds_errors d')"
    using assms unfolding callback_ok_def by blast
  have takes: "store_takes t takes (ds_prefs d)" using assms(2) by (simp add: side_ok_def)
  have "store_takes t takes (ds_prefs d')"
    by (rule store_takes_step [OF takes d'(4)])
      (use assms(3) d'(5,6) takes in \<open>auto simp: store_takes_def content_def\<close>)
  then have "side_ok t takes d'" using assms(2) d'(3,7) by (simp add: side_ok_def same_threads_def)
  with d' show ?thesis by (auto simp: content_def)
qed

text \<open>The two ways in which the device gets new values: the store takes them, then a callback runs and the
  configuration is saved.\<close>

lemma device_update_ok:
  assumes side: "side_ok t takes d" "ok (ds_rest d)" "last_id d = Inr n" "n < 2147483646"
    and w: "store_ok w" "same_layout (on_thread t (ds_prefs d)) w" "\<And>k v. content w k = Some v \<Longrightarrow> takes k v"
    and c: "callback_ok t takes allowed ok c" "allowed (content w)"
  shows "\<exists>d'. and_then (run_closure c (d\<lparr>ds_prefs := w\<rparr>)) SetPropertyFinish = Inr d' \<and> side_ok t takes d' \<and> saved d' \<and>
    ok (ds_rest d') \<and> last_id d' = Inr (n + 1) \<and> content (ds_prefs d') = content w \<and>
    same_layout (on_thread t (ds_prefs d)) (ds_prefs d') \<and> same_threads t (ds_errors d) (ds_errors d')"
proof -
  let ?d = "d\<lparr>ds_prefs := w\<rparr>"
  have "store_takes t takes w"
    by (rule store_takes_step [OF _ w]) (use side(1) in \<open>auto simp: side_ok_def\<close>)
  then have ok: "side_ok t takes ?d" using side(1) by (simp add: side_ok_def)
  have thread: "w_thread (ds_prefs ?d) = t" using w(2) by (simp add: same_layout_def)
  obtain d1 where d1: "run_closure c ?d = Inr d1" "ok (ds_rest d1)" "ds_base d1 = ds_base ?d" "side_ok t takes d1"
    "same_layout (ds_prefs ?d) (ds_prefs d1)" "content (ds_prefs d1) = content (ds_prefs ?d)"
    "same_threads t (ds_errors ?d) (ds_errors d1)"
    using run_closure_side [OF c(1) ok thread] c(2) side(2) by auto
  have "last_id d1 = Inr n" using side(3) d1(3) by (simp add: last_id_def)
  then obtain d2 where d2: "SetPropertyFinish d1 = Inr d2" "side_ok t takes d2" "saved d2" "last_id d2 = Inr (n + 1)"
    "ds_prefs d2 = ds_prefs d1" "ds_errors d2 = ds_errors d1" "ds_rest d2 = ds_rest d1"
    using SetPropertyFinish_ok [OF d1(4) _ side(4)] by blast
  have "same_layout (on_thread t (ds_prefs d)) (ds_prefs d2)"
    using same_layout_trans [OF w(2)] d1(5) d2(5) by simp
  then show ?thesis using d1 d2 by simp
qed

lemma device_set_ok:
  assumes side: "side_ok t takes d" "ok (ds_rest d)" "last_id d = Inr n" "n < 2147483646"
    and m: "w_members (ds_prefs d) (pr_device_member pr) = Some m" "m_has_prefs m" "\<not> m_setting m"
    and v: "takes (m_name m) (m_make m x)" "allowed ((content (ds_prefs d))(m_name m \<mapsto> m_make m x))"
    and c: "callback_ok t takes allowed ok (pr_call_back pr)"
  shows "\<exists>d'. device_set t pr x d = Inr d' \<and> side_ok t takes d' \<and> saved d' \<and> ok (ds_rest d') \<and>
    last_id d' = Inr (n + 1) \<and> content (ds_prefs d') = (content (ds_prefs d))(m_name m \<mapsto> m_make m x) \<and>
    same_layout (on_thread t (ds_prefs d)) (ds_prefs d') \<and> same_threads t (ds_errors d) (ds_errors d')"
proof -
  let ?w = "on_thread t (ds_prefs d)"
  have takes: "store_takes t takes (ds_prefs d)" using side(1) by (simp add: side_ok_def)
  obtain w where w: "Member_set_value (pr_device_member pr) x ?w = Inr w" "store_ok w" "same_layout ?w w"
    "content w = (content (ds_prefs d))(m_name m \<mapsto> m_make m x)"
    using Member_set_value_result [of ?w "pr_device_member pr" m x] takes m v(1)
    by (auto simp: store_takes_def content_def)
  have "content w k = Some y \<Longrightarrow> takes k y" for k y
    using takes v(1) by (auto simp: w(4) store_takes_def split: if_splits)
  from device_update_ok [OF side w(2,3) this c] v(2) w(1,4) show ?thesis
    by (auto simp: device_set_def CallCallback_def)
qed

lemma commit_device_ok:
  assumes side: "side_ok t takes d" "ok (ds_rest d)" "last_id d = Inr n" "n < 2147483646"
    and dict: "map_keys_ok dict" "dom (map_of dict) \<subseteq> dom (content (ds_prefs d))"
      "\<And>k v. map_of dict k = Some v \<Longrightarrow> takes k v" "allowed (content (ds_prefs d) ++ map_of dict)"
    and c: "callback_ok t takes allowed ok c"
  shows "\<exists>d'. commit_device t dict c d = Inr d' \<and> side_ok t takes d' \<and> saved d' \<and> ok (ds_rest d') \<and>
    last_id d' = Inr (n + 1) \<and> content (ds_prefs d') = content (ds_prefs d) ++ map_of dict \<and>
    same_layout (on_thread t (ds_prefs d)) (ds_prefs d') \<and> same_threads t (ds_errors d) (ds_errors d')"
proof -
  let ?w = "on_thread t (ds_prefs d)"
  have takes: "store_takes t takes (ds_prefs d)" using side(1) by (simp add: side_ok_def)
  have "HasPrefPath k ?w \<and> accepts ?w k v" if "(k, v) \<in> set dict" for k v
  proof -
    have "map_of dict k = Some v" using that dict(1) by (simp add: map_of_eq_Some_iff_ok)
    then have "takes k v" "k \<in> dom (content (ds_prefs d))" using dict(2,3) by auto
    then show ?thesis using takes by (auto simp: HasPrefPath_content store_takes_def)
  qed
  then obtain w where w: "ChangeContent dict ?w = Inr w" "store_ok w" "same_layout ?w w"
    "content w = content (ds_prefs d) ++ map_of dict"
    using ChangeContent_result [of ?w dict] takes dict(1) by (auto simp: store_takes_def content_def)
  have "content w k = Some y \<Longrightarrow> takes k y" for k y
    using takes dict(3) by (auto simp: w(4) store_takes_def map_add_Some_iff)
  from device_update_ok [OF side w(2,3) this c] dict(4) w(1,4) show ?thesis by (auto simp: commit_device_def)
qed

text \<open>A property connects a member of the handle with the member of the device of the same name.\<close>

definition wired ::
  "(string \<Rightarrow> 'v \<Rightarrow> bool) \<Rightarrow> ((string \<Rightarrow> 'v option) \<Rightarrow> bool) \<Rightarrow> ('s \<Rightarrow> bool) \<Rightarrow>
     ('v, 'a, 's) Handle \<Rightarrow> ('v, 'a, 's) Property \<Rightarrow> string \<Rightarrow> ('a \<Rightarrow> 'v) \<Rightarrow> bool" where
  "wired takes allowed ok h pr name mk \<longleftrightarrow>
     (\<exists>m. w_members (dh_prefs h) (pr_member pr) = Some m \<and> m_has_prefs m \<and> \<not> m_setting m \<and> m_name m = name \<and> m_make m = mk) \<and>
     (\<exists>m. w_members (ds_prefs (dh_device h)) (pr_device_member pr) = Some m \<and> m_has_prefs m \<and> \<not> m_setting m \<and>
        m_name m = name \<and> m_make m = mk) \<and>
     callback_ok (dh_device_thread h) takes allowed ok (pr_call_back pr)"

definition handle_ok ::
  "(string \<Rightarrow> 'v \<Rightarrow> bool) \<Rightarrow> ((string \<Rightarrow> 'v option) \<Rightarrow> bool) \<Rightarrow> ('s \<Rightarrow> bool) \<Rightarrow> ('v, 'a, 's) Handle \<Rightarrow> bool" where
  "handle_ok takes allowed ok h \<longleftrightarrow>
     side_ok (dh_device_thread h) takes (dh_device h) \<and> saved (dh_device h) \<and> ok (ds_rest (dh_device h)) \<and>
     store_takes (dh_thread h) takes (dh_prefs h) \<and> es_tls (ds_errors (dh_device h)) (dh_thread h) \<noteq> None \<and>
     (\<not> IsDeviceThread h \<longrightarrow>
        es_tls (ds_errors (dh_device h)) (dh_thread h) \<noteq> es_tls (ds_errors (dh_device h)) (dh_device_thread h)) \<and>
     dom (content (dh_prefs h)) = dom (content (ds_prefs (dh_device h))) \<and>
     (\<forall>n. last_id (dh_device h) = Inr n \<longrightarrow> dh_current_pref h \<le> n)"

lemma handle_okD:
  assumes "handle_ok takes allowed ok h"
  shows "side_ok (dh_device_thread h) takes (dh_device h)" "saved (dh_device h)" "ok (ds_rest (dh_device h))"
    "store_takes (dh_thread h) takes (dh_prefs h)" "es_tls (ds_errors (dh_device h)) (dh_thread h) \<noteq> None"
    "\<not> IsDeviceThread h \<Longrightarrow>
       es_tls (ds_errors (dh_device h)) (dh_thread h) \<noteq> es_tls (ds_errors (dh_device h)) (dh_device_thread h)"
    "dom (content (dh_prefs h)) = dom (content (ds_prefs (dh_device h)))"
    "\<And>n. last_id (dh_device h) = Inr n \<Longrightarrow> dh_current_pref h \<le> n"
  using assms by (auto simp: handle_ok_def)

definition other_fields_same :: "('v, 'a, 's) Handle \<Rightarrow> ('v, 'a, 's) Handle \<Rightarrow> bool" where
  "other_fields_same h h' \<longleftrightarrow>
     dh_batch_mode h' = dh_batch_mode h \<and> dh_tasks h' = dh_tasks h \<and> dh_posted h' = dh_posted h \<and>
     dh_thread h' = dh_thread h \<and> dh_device_thread h' = dh_device_thread h"

lemma map_add_same_dom:
  assumes "dom f = dom g"
  shows "f ++ g = g"
proof (rule ext)
  fix x
  show "(f ++ g) x = g x"
  proof (cases "g x")
    case None
    then have "x \<notin> dom f" using assms by auto
    then show ?thesis using None by (simp add: map_add_def domIff)
  qed (simp add: map_add_def)
qed

lemma FetchNewPref_ok:
  assumes ok: "handle_ok takes allowed ok h" and n: "last_id (dh_device h) = Inr n"
  shows "\<exists>h'. FetchNewPref h = Inr h' \<and> handle_ok takes allowed ok h' \<and> dh_device h' = dh_device h \<and>
    dh_current_pref h' = n \<and> dh_properties h' = dh_properties h \<and> other_fields_same h h' \<and>
    same_layout (on_thread (dh_thread h) (dh_prefs h)) (on_thread (dh_thread h) (dh_prefs h')) \<and>
    (if dh_current_pref h = n then dh_prefs h' = dh_prefs h
     else content (dh_prefs h') = content (ds_prefs (dh_device h)))"
proof (cases "dh_current_pref h = n")
  case True
  then show ?thesis using ok n by (simp add: FetchNewPref_def other_fields_same_def same_layout_refl)
next
  case False
  let ?d = "dh_device h" and ?w = "on_thread (dh_thread h) (dh_prefs h)"
  obtain k dict where dict: "last_dict ?d = Inr (k, dict)" "map_keys_ok dict" "map_of dict = content (ds_prefs ?d)"
    using handle_okD(2) [OF ok] unfolding saved_def by blast
  have k: "k = n" using last_id_last_dict [OF dict(1)] n by simp
  have takes: "store_takes (dh_thread h) takes (dh_prefs h)" by (rule handle_okD(4) [OF ok])
  have dev: "content (ds_prefs ?d) c = Some v \<Longrightarrow> takes c v" for c v
    using handle_okD(1) [OF ok] by (auto simp: side_ok_def store_takes_def)
  have "HasPrefPath c ?w \<and> accepts ?w c v" if "(c, v) \<in> set dict" for c v
  proof -
    have v: "content (ds_prefs ?d) c = Some v" using that dict(2,3) map_of_eq_Some_iff_ok by metis
    then have "c \<in> dom (content (dh_prefs h))" using handle_okD(7) [OF ok] by auto
    then show ?thesis using dev [OF v] takes by (auto simp: HasPrefPath_content store_takes_def)
  qed
  then obtain w where w: "ChangeContent dict ?w = Inr w" "store_ok w" "same_layout ?w w"
    "content w = content (dh_prefs h) ++ map_of dict"
    using ChangeContent_result [of ?w dict] takes dict(2) by (auto simp: store_takes_def content_def)
  have c: "content w = content (ds_prefs ?d)"
    unfolding w(4) dict(3) using handle_okD(7) [OF ok] by (rule map_add_same_dom)
  have "store_takes (dh_thread h) takes w"
    by (rule store_takes_step [OF takes w(2,3)]) (use c dev in auto)
  moreover have "w_thread w = dh_thread h" using w(3) by (simp add: same_layout_def)
  ultimately show ?thesis
    using False ok n dict(1) w(1,3) k c by (simp add: FetchNewPref_def handle_ok_def other_fields_same_def IsDeviceThread_def)
qed

subsection \<open>Setting a property sets it on the device\<close>

lemma CleanError_ok:
  "es_tls es t \<noteq> None \<Longrightarrow> \<exists>es'. CleanError t es = Inr es' \<and> same_threads t es es' \<and> LastDeviceError t es' = Inr OK"
  by (auto simp: CleanError_def put_error_def same_threads_def LastDeviceError_def)

lemma SetDeviceError_ok:
  "LastDeviceError t es = Inr OK \<Longrightarrow>
     \<exists>es'. SetDeviceError t e es = Inr es' \<and> same_threads t es es' \<and> LastDeviceError t es' = Inr e"
  by (auto simp: SetDeviceError_def put_error_def same_threads_def LastDeviceError_def split: option.splits)

lemma LastDeviceError_other:
  "same_threads t es es' \<Longrightarrow> es_tls es u \<noteq> es_tls es t \<Longrightarrow> LastDeviceError u es' = LastDeviceError u es"
  by (auto simp: LastDeviceError_def same_threads_def split: option.splits)

lemma LastDeviceError_total: "es_tls es t \<noteq> None \<Longrightarrow> \<exists>e. LastDeviceError t es = Inr e"
  by (auto simp: LastDeviceError_def)

lemma same_threads_trans: "same_threads t es es1 \<Longrightarrow> same_threads t es1 es2 \<Longrightarrow> same_threads t es es2"
  by (simp add: same_threads_def)

lemma member_in_content:
  "store_takes t takes w \<Longrightarrow> w_members w p = Some m \<Longrightarrow> m_has_prefs m \<Longrightarrow> m_name m \<in> dom (content w)"
  using store_okD(3) [of "on_thread t w" p m] by (auto simp: store_takes_def member_ok_def HasPrefPath_content)

text \<open>A change of the errors, and one of the device's side, keep what a handle relies on.\<close>

lemma side_ok_errors: "side_ok t takes d \<Longrightarrow> es_tls es = es_tls (ds_errors d) \<Longrightarrow> side_ok t takes (d\<lparr>ds_errors := es\<rparr>)"
  by (simp add: side_ok_def)

lemma last_simps [simp]:
  "last_id (d\<lparr>ds_errors := es\<rparr>) = last_id d" "last_dict (d\<lparr>ds_errors := es\<rparr>) = last_dict d"
  "saved (d\<lparr>ds_errors := es\<rparr>) = saved d"
  by (simp_all add: last_id_def last_dict_def saved_def)

lemma handle_ok_errors:
  "handle_ok takes allowed ok h \<Longrightarrow> es_tls es = es_tls (ds_errors (dh_device h)) \<Longrightarrow>
     handle_ok takes allowed ok (h\<lparr>dh_device := (dh_device h)\<lparr>ds_errors := es\<rparr>\<rparr>)"
  by (simp add: handle_ok_def side_ok_errors IsDeviceThread_def)

lemma handle_ok_properties [simp]:
  "handle_ok takes allowed ok (h\<lparr>dh_properties := ps\<rparr>) = handle_ok takes allowed ok h"
  "handle_ok takes allowed ok (h\<lparr>dh_posted := ws\<rparr>) = handle_ok takes allowed ok h"
  "handle_ok takes allowed ok (h\<lparr>dh_tasks := ts\<rparr>) = handle_ok takes allowed ok h"
  "handle_ok takes allowed ok (h\<lparr>dh_batch_mode := b\<rparr>) = handle_ok takes allowed ok h"
  by (simp_all add: handle_ok_def IsDeviceThread_def)

lemma handle_ok_device:
  assumes "handle_ok takes allowed ok h" and "side_ok (dh_device_thread h) takes d" and "saved d" and "ok (ds_rest d)"
    and "last_id (dh_device h) = Inr n" and "last_id d = Inr m" and "n \<le> m"
    and "dom (content (ds_prefs d)) = dom (content (ds_prefs (dh_device h)))"
    and "es_tls (ds_errors d) = es_tls (ds_errors (dh_device h))"
  shows "handle_ok takes allowed ok (h\<lparr>dh_device := d\<rparr>)"
  using assms handle_okD(8) [OF assms(1,5)] by (simp add: handle_ok_def IsDeviceThread_def)

text \<open>The thread on which the device is set: its own, or that of the caller when it is the same.\<close>

lemma set_on_device:
  assumes ok: "handle_ok takes allowed ok h" and wired: "wired takes allowed ok h pr name mk"
    and n: "last_id (dh_device h) = Inr n" "n < 2147483646"
    and v: "takes name (mk x)" "allowed ((content (ds_prefs (dh_device h)))(name \<mapsto> mk x))"
  shows "\<exists>d. on_device (device_set (dh_device_thread h) pr x) h = Inr (h\<lparr>dh_device := d\<rparr>) \<and>
    handle_ok takes allowed ok (h\<lparr>dh_device := d\<rparr>) \<and> last_id d = Inr (n + 1) \<and>
    content (ds_prefs d) = (content (ds_prefs (dh_device h)))(name \<mapsto> mk x) \<and>
    same_layout (on_thread (dh_device_thread h) (ds_prefs (dh_device h))) (ds_prefs d) \<and>
    same_threads (dh_device_thread h) (ds_errors (dh_device h)) (ds_errors d)"
proof -
  let ?t = "dh_device_thread h" and ?d = "dh_device h"
  obtain m where m: "w_members (ds_prefs ?d) (pr_device_member pr) = Some m" "m_has_prefs m" "\<not> m_setting m"
    "m_name m = name" "m_make m = mk"
    using wired unfolding wired_def by blast
  have side: "side_ok ?t takes ?d" "ok (ds_rest ?d)" using handle_okD(1,3) [OF ok] by simp_all
  have "callback_ok ?t takes allowed ok (pr_call_back pr)" using wired unfolding wired_def by blast
  then obtain d where d: "device_set ?t pr x ?d = Inr d" "side_ok ?t takes d" "saved d" "ok (ds_rest d)"
    "last_id d = Inr (n + 1)" "content (ds_prefs d) = (content (ds_prefs ?d))(name \<mapsto> mk x)"
    "same_layout (on_thread ?t (ds_prefs ?d)) (ds_prefs d)" "same_threads ?t (ds_errors ?d) (ds_errors d)"
    using device_set_ok [where ok = ok and allowed = allowed and x = x, OF side n m(1-3)] v m(4,5) by auto
  have "name \<in> dom (content (ds_prefs ?d))"
    using member_in_content [OF _ m(1,2)] side(1) m(4) by (auto simp: side_ok_def)
  then have "dom (content (ds_prefs d)) = dom (content (ds_prefs ?d))" by (auto simp: d(6))
  moreover have "es_tls (ds_errors d) = es_tls (ds_errors ?d)" using d(8) by (simp add: same_threads_def)
  ultimately have "handle_ok takes allowed ok (h\<lparr>dh_device := d\<rparr>)"
    using handle_ok_device [OF ok d(2-4) n(1) d(5)] by simp
  then show ?thesis using d by (intro exI [of _ d]) (simp add: on_device_def)
qed

lemma SetValueImplSync_ok:
  assumes ok: "handle_ok takes allowed ok h" and p: "dh_properties h p = Some pr" and wired: "wired takes allowed ok h pr name mk"
    and n: "last_id (dh_device h) = Inr n" "n < 2147483646"
    and v: "takes name (mk x)" "allowed ((content (ds_prefs (dh_device h)))(name \<mapsto> mk x))"
  shows "\<exists>d e. SetValueImplSync p x h = Inr (put_property p (pr\<lparr>pr_device_error := e\<rparr>) (h\<lparr>dh_device := d\<rparr>)) \<and>
    handle_ok takes allowed ok (h\<lparr>dh_device := d\<rparr>) \<and> last_id d = Inr (n + 1) \<and>
    content (ds_prefs d) = (content (ds_prefs (dh_device h)))(name \<mapsto> mk x) \<and>
    same_layout (on_thread (dh_device_thread h) (ds_prefs (dh_device h))) (ds_prefs d) \<and>
    same_threads (dh_device_thread h) (ds_errors (dh_device h)) (ds_errors d) \<and>
    LastDeviceError (dh_device_thread h) (ds_errors d) = Inr e"
proof -
  let ?t = "dh_device_thread h"
  have tls: "es_tls (ds_errors (dh_device h)) ?t \<noteq> None" using handle_okD(1) [OF ok] by (simp add: side_ok_def)
  obtain es where es: "CleanError ?t (ds_errors (dh_device h)) = Inr es" "same_threads ?t (ds_errors (dh_device h)) es"
    using CleanError_ok [OF tls] by blast
  let ?h = "h\<lparr>dh_device := (dh_device h)\<lparr>ds_errors := es\<rparr>\<rparr>"
  have ok': "handle_ok takes allowed ok ?h"
    by (rule handle_ok_errors [OF ok]) (use es(2) in \<open>simp add: same_threads_def\<close>)
  have wired': "wired takes allowed ok ?h pr name mk" using wired by (simp add: wired_def)
  obtain d where d: "on_device (device_set ?t pr x) ?h = Inr (?h\<lparr>dh_device := d\<rparr>)"
    "handle_ok takes allowed ok (?h\<lparr>dh_device := d\<rparr>)" "last_id d = Inr (n + 1)"
    "content (ds_prefs d) = (content (ds_prefs (dh_device h)))(name \<mapsto> mk x)"
    "same_layout (on_thread ?t (ds_prefs (dh_device h))) (ds_prefs d)" "same_threads ?t es (ds_errors d)"
    using set_on_device [OF ok' wired' _ n(2) v(1)] n(1) v(2) by auto
  obtain e where e: "LastDeviceError ?t (ds_errors d) = Inr e"
    using LastDeviceError_total d(6) es(2) tls by (metis same_threads_def)
  have "same_threads ?t (ds_errors (dh_device h)) (ds_errors d)" by (rule same_threads_trans [OF es(2) d(6)])
  then show ?thesis
    using p es(1) d e by (intro exI [of _ d] exI [of _ e]) (simp add: SetValueImplSync_def with_property_def on_errors_def)
qed

definition same_properties :: "('v, 'a, 's) Handle \<Rightarrow> ('v, 'a, 's) Handle \<Rightarrow> bool" where
  "same_properties h h' \<longleftrightarrow>
     (\<forall>p pr. dh_properties h p = Some pr \<longrightarrow> (\<exists>e. dh_properties h' p = Some (pr\<lparr>pr_device_error := e\<rparr>))) \<and>
     same_layout (on_thread (dh_thread h) (dh_prefs h)) (on_thread (dh_thread h) (dh_prefs h')) \<and>
     same_layout (on_thread (dh_device_thread h) (ds_prefs (dh_device h))) (on_thread (dh_device_thread h) (ds_prefs (dh_device h'))) \<and>
     dh_thread h' = dh_thread h \<and> dh_device_thread h' = dh_device_thread h"

lemma same_properties_trans: "same_properties h h1 \<Longrightarrow> same_properties h1 h2 \<Longrightarrow> same_properties h h2"
  unfolding same_properties_def by (fastforce intro: same_layout_trans)

lemma same_layout_on_thread: "same_layout (on_thread t w) w' \<Longrightarrow> on_thread t w' = w'"
  by (simp add: same_layout_def)

lemma same_property_refl: "\<exists>e. pr = pr\<lparr>pr_device_error := e\<rparr>"
  by (rule exI [of _ "pr_device_error pr"]) simp

lemma wired_same:
  assumes "wired takes allowed ok h pr name mk" and "same_properties h h'"
  shows "wired takes allowed ok h' (pr\<lparr>pr_device_error := e\<rparr>) name mk"
proof -
  have a: "same_layout (on_thread (dh_thread h) (dh_prefs h)) (on_thread (dh_thread h) (dh_prefs h'))"
    "same_layout (on_thread (dh_device_thread h) (ds_prefs (dh_device h))) (on_thread (dh_device_thread h) (ds_prefs (dh_device h')))"
    "dh_device_thread h' = dh_device_thread h"
    using assms(2) by (simp_all add: same_properties_def)
  show ?thesis
    using assms(1) a(3) same_layout_member [OF a(1)] same_layout_member [OF a(2)] unfolding wired_def by fastforce
qed

text \<open>What a set property is afterwards: the device and the handle have the new value, and the same values elsewhere; the
  configuration is saved; and the error of the caller's thread is that of the device's.\<close>

definition property_set ::
  "(string \<Rightarrow> 'v \<Rightarrow> bool) \<Rightarrow> ((string \<Rightarrow> 'v option) \<Rightarrow> bool) \<Rightarrow> ('s \<Rightarrow> bool) \<Rightarrow>
     ('v, 'a, 's) Handle \<Rightarrow> (string \<Rightarrow> 'v option) \<Rightarrow> ('v, 'a, 's) Handle \<Rightarrow> bool" where
  "property_set takes allowed ok h c h' \<longleftrightarrow>
     handle_ok takes allowed ok h' \<and> content (ds_prefs (dh_device h')) = c \<and> content (dh_prefs h') = c \<and>
     (\<exists>n dict. last_id (dh_device h) = Inr n \<and> last_dict (dh_device h') = Inr (n + 1, dict) \<and> map_of dict = c \<and>
        dh_current_pref h' = n + 1) \<and>
     other_fields_same h h' \<and> same_properties h h' \<and>
     LastDeviceError (dh_thread h) (ds_errors (dh_device h')) = LastDeviceError (dh_device_thread h) (ds_errors (dh_device h'))"

lemma device_loop_all_idle: "dh_posted h = [] \<Longrightarrow> device_loop_all h = Inr h"
  by (cases h) (simp add: device_loop_all_def)

lemma fetch_after_set:
  assumes ok: "handle_ok takes allowed ok h1" and n: "last_id (dh_device h) = Inr n" "last_id (dh_device h1) = Inr (n + 1)"
    and cur: "dh_current_pref h1 \<le> n" and c: "content (ds_prefs (dh_device h1)) = c"
    and same: "other_fields_same h h1" "same_properties h h1"
    and err: "LastDeviceError (dh_thread h) (ds_errors (dh_device h1)) =
      LastDeviceError (dh_device_thread h) (ds_errors (dh_device h1))"
  shows "\<exists>h'. FetchNewPref h1 = Inr h' \<and> property_set takes allowed ok h c h' \<and> dh_properties h' = dh_properties h1"
proof -
  have ne: "dh_current_pref h1 \<noteq> n + 1" using cur by simp
  obtain h' where h': "FetchNewPref h1 = Inr h'" "handle_ok takes allowed ok h'" "dh_device h' = dh_device h1"
    "dh_current_pref h' = n + 1" "dh_properties h' = dh_properties h1" "other_fields_same h1 h'"
    "same_layout (on_thread (dh_thread h1) (dh_prefs h1)) (on_thread (dh_thread h1) (dh_prefs h'))"
    "content (dh_prefs h') = content (ds_prefs (dh_device h1))"
    using FetchNewPref_ok [OF ok n(2)] ne by auto
  obtain k dict where dict: "last_dict (dh_device h1) = Inr (k, dict)" "map_of dict = content (ds_prefs (dh_device h1))"
    using handle_okD(2) [OF ok] unfolding saved_def by blast
  have "k = n + 1" using last_id_last_dict [OF dict(1)] n(2) by simp
  moreover have "same_properties h1 h'"
    using h'(3,5-7) by (simp add: same_properties_def other_fields_same_def same_property_refl same_layout_refl)
  then have "same_properties h h'" by (rule same_properties_trans [OF same(2)])
  ultimately show ?thesis
    using h' dict n(1) c same(1) err by (simp add: property_set_def other_fields_same_def)
qed

lemma set_value_result:
  assumes ok: "handle_ok takes allowed ok h" and idle: "dh_posted h = []" "\<not> dh_batch_mode h"
    and p: "dh_properties h p = Some pr" and check: "pr_check_value pr = None" and wired: "wired takes allowed ok h pr name mk"
    and n: "last_id (dh_device h) = Inr n" "n < 2147483646"
    and v: "takes name (mk x)" "allowed ((content (ds_prefs (dh_device h)))(name \<mapsto> mk x))"
  shows "\<exists>h'. Property_set_value p x h = Inr h' \<and>
    property_set takes allowed ok h ((content (ds_prefs (dh_device h)))(name \<mapsto> mk x)) h'"
proof -
  let ?t = "dh_thread h" and ?es0 = "ds_errors (dh_device h)"
  obtain es where es: "CleanError ?t ?es0 = Inr es" "same_threads ?t ?es0 es" "LastDeviceError ?t es = Inr OK"
    using CleanError_ok [OF handle_okD(5) [OF ok]] by blast
  let ?h = "h\<lparr>dh_device := (dh_device h)\<lparr>ds_errors := es\<rparr>\<rparr>"
  have clean: "on_errors (CleanError ?t) h = Inr ?h" using es(1) by (simp add: on_errors_def)
  have ok1: "handle_ok takes allowed ok ?h"
    by (rule handle_ok_errors [OF ok]) (use es(2) in \<open>simp add: same_threads_def\<close>)
  have wired1: "wired takes allowed ok ?h pr name mk" using wired by (simp add: wired_def)
  have cur: "dh_current_pref h \<le> n" by (rule handle_okD(8) [OF ok n(1)])
  note set1 = SetValueImplSync_ok [OF ok1 _ wired1 _ n(2) v(1), of p] set_on_device [OF ok1 wired1 _ n(2) v(1)]
  show ?thesis
  proof (cases "IsDeviceThread h")
    case True
    then have t: "dh_device_thread h = ?t" by (simp add: IsDeviceThread_def)
    obtain d where d: "on_device (device_set ?t pr x) ?h = Inr (?h\<lparr>dh_device := d\<rparr>)"
      "handle_ok takes allowed ok (?h\<lparr>dh_device := d\<rparr>)" "last_id d = Inr (n + 1)"
      "content (ds_prefs d) = (content (ds_prefs (dh_device h)))(name \<mapsto> mk x)"
      "same_layout (on_thread ?t (ds_prefs (dh_device h))) (ds_prefs d)"
      using set1(2) n(1) v(2) t by auto
    have same1: "same_properties h (?h\<lparr>dh_device := d\<rparr>)"
      using d(5) t same_layout_on_thread [OF d(5)] by (simp add: same_properties_def same_layout_refl same_property_refl)
    have "Property_set_value p x h = FetchNewPref (?h\<lparr>dh_device := d\<rparr>)"
      using clean p check idle d(1) True
      by (simp add: Property_set_value_def with_property_def CheckValue_def SetValueImpl_def IsDeviceThread_def)
    then show ?thesis
      using fetch_after_set [OF d(2) n(1), of "content (ds_prefs d)"] d(3,4) cur t same1 by (auto simp: other_fields_same_def)
  next
    case False
    then have t: "es_tls ?es0 ?t \<noteq> es_tls ?es0 (dh_device_thread h)" by (rule handle_okD(6) [OF ok])
    obtain d e where d: "SetValueImplSync p x ?h = Inr (put_property p (pr\<lparr>pr_device_error := e\<rparr>) (?h\<lparr>dh_device := d\<rparr>))"
      "handle_ok takes allowed ok (?h\<lparr>dh_device := d\<rparr>)" "last_id d = Inr (n + 1)"
      "content (ds_prefs d) = (content (ds_prefs (dh_device h)))(name \<mapsto> mk x)"
      "same_threads (dh_device_thread h) es (ds_errors d)" "LastDeviceError (dh_device_thread h) (ds_errors d) = Inr e"
      "same_layout (on_thread (dh_device_thread h) (ds_prefs (dh_device h))) (ds_prefs d)"
      using set1(1) p n(1) v(2) by auto
    have tls: "es_tls es = es_tls ?es0" "es_tls (ds_errors d) = es_tls ?es0"
      using es(2) d(5) by (simp_all add: same_threads_def)
    have "LastDeviceError ?t (ds_errors d) = Inr OK"
      using LastDeviceError_other [OF d(5), of ?t] t tls(1) es(3) by simp
    then obtain es2 where es2: "SetDeviceError ?t e (ds_errors d) = Inr es2" "same_threads ?t (ds_errors d) es2"
      "LastDeviceError ?t es2 = Inr e"
      using SetDeviceError_ok by blast
    let ?h2 = "h\<lparr>dh_properties := (dh_properties h)(p \<mapsto> pr\<lparr>pr_device_error := e\<rparr>), dh_device := d\<lparr>ds_errors := es2\<rparr>\<rparr>"
    have "LastDeviceError (dh_device_thread h) es2 = Inr e"
      using LastDeviceError_other [OF es2(2), of "dh_device_thread h"] t tls(2) d(6) by simp
    moreover have "handle_ok takes allowed ok ?h2"
      using handle_ok_errors [OF d(2), of es2] es2(2) by (simp add: same_threads_def handle_ok_def IsDeviceThread_def)
    moreover have "same_properties h ?h2"
      using d(7) same_layout_on_thread [OF d(7)] p
      by (auto simp: same_properties_def same_property_refl same_layout_refl)
    moreover have "Property_set_value p x h = FetchNewPref ?h2"
      using clean p check idle d(1) False es2(1)
      by (simp add: Property_set_value_def with_property_def CheckValue_def SetValueImpl_def IsDeviceThread_def
          device_loop_all_idle put_property_def on_errors_def)
    ultimately show ?thesis
      using fetch_after_set [of takes allowed ok ?h2 h n "content (ds_prefs d)"] n(1) d(3,4) cur es2(3)
      by (auto simp: other_fields_same_def)
  qed
qed

text \<open>The property \<open>p\<close> without a check of its own, which stores \<open>v\<close> under \<open>name\<close> when it is set to \<open>x\<close>.\<close>

definition settable ::
  "(string \<Rightarrow> 'v \<Rightarrow> bool) \<Rightarrow> ((string \<Rightarrow> 'v option) \<Rightarrow> bool) \<Rightarrow> ('s \<Rightarrow> bool) \<Rightarrow>
     ('v, 'a, 's) Handle \<Rightarrow> ptr \<times> 'a \<times> string \<times> 'v \<Rightarrow> bool" where
  "settable takes allowed ok h = (\<lambda>(p, x, name, v). takes name v \<and>
     (\<exists>pr mk. dh_properties h p = Some pr \<and> pr_check_value pr = None \<and> wired takes allowed ok h pr name mk \<and> v = mk x))"

lemma settable_same:
  assumes "settable takes allowed ok h y" and "same_properties h h'"
  shows "settable takes allowed ok h' y"
proof -
  obtain p x name v where y: "y = (p, x, name, v)" by (cases y)
  obtain pr mk where pr: "takes name v" "dh_properties h p = Some pr" "pr_check_value pr = None"
    "wired takes allowed ok h pr name mk" "v = mk x"
    using assms(1) by (auto simp: settable_def y)
  obtain e where "dh_properties h' p = Some (pr\<lparr>pr_device_error := e\<rparr>)"
    using assms(2) pr(2) unfolding same_properties_def by blast
  with pr wired_same [OF pr(4) assms(2)] show ?thesis
    unfolding settable_def y by fastforce
qed

text \<open>C9. Setting a property outside a batch, from any thread, sets it on the device: the device's store and the handle's
  store both have the new value under the property's name and what the device had elsewhere, the configuration that is
  saved has the next number and is that content, the handle knows it, the caller's thread has the error of the device
  thread, no assertion fires, and the property reads the value that was set.\<close>

theorem set_value_reaches_device:
  assumes "handle_ok takes allowed ok h" and "dh_posted h = []" and "\<not> dh_batch_mode h"
    and "dh_properties h p = Some pr" and "pr_check_value pr = None" and "wired takes allowed ok h pr name mk"
    and "last_id (dh_device h) = Inr n" and "n < 2147483646"
    and "takes name (mk x)" and "allowed ((content (ds_prefs (dh_device h)))(name \<mapsto> mk x))"
    and "w_members (dh_prefs h) (pr_member pr) = Some m" and "m_get m (mk x) = Some x"
  shows "\<exists>h' h''. Property_set_value p x h = Inr h' \<and>
    property_set takes allowed ok h ((content (ds_prefs (dh_device h)))(name \<mapsto> mk x)) h' \<and>
    Property_value p h' = Inr (x, h'')"
proof -
  obtain h' where h': "Property_set_value p x h = Inr h'"
    "property_set takes allowed ok h ((content (ds_prefs (dh_device h)))(name \<mapsto> mk x)) h'"
    using set_value_result [where allowed = allowed and ok = ok, OF assms(1-10)] by blast
  have same: "same_properties h h'" "dh_thread h' = dh_thread h" "handle_ok takes allowed ok h'"
    using h'(2) by (simp_all add: property_set_def same_properties_def)
  let ?w = "on_thread (dh_thread h) (dh_prefs h')"
  have "same_layout (on_thread (dh_thread h) (dh_prefs h)) ?w" using same(1) by (simp add: same_properties_def)
  then obtain y where y: "w_members ?w (pr_member pr) = Some (m\<lparr>m_value := y\<rparr>)"
    using same_layout_member assms(11) by fastforce
  have m: "m_has_prefs m" "m_name m = name" using assms(6,11) by (auto simp: wired_def)
  have val: "GetValue name ?w = Some (mk x)"
    using h'(2) by (simp add: property_set_def content_def GetValue_def)
  have ok: "store_ok ?w" using handle_okD(4) [OF same(3)] same(2) by (simp add: store_takes_def)
  obtain w where "Member_value (pr_member pr) ?w = Inr (x, w)"
    using Member_value_reads [OF ok y, of "mk x" x] m val assms(12) by auto
  moreover obtain e where "dh_properties h' p = Some (pr\<lparr>pr_device_error := e\<rparr>)"
    using same(1) assms(4) unfolding same_properties_def by blast
  ultimately have "Property_value p h' = Inr (x, h'\<lparr>dh_prefs := w\<rparr>)"
    using same(2) by (simp add: Property_value_def with_property_def)
  with h' show ?thesis by blast
qed

text \<open>A handle of a device with two properties, whose callback counts how often the registers are written.\<close>

definition sample_side :: "(nat, nat, nat) DeviceSide" where
  "sample_side =
     \<lparr>ds_base = (DeviceBase_new (Some \<lparr>cm_current_id = 1,
        cm_history = [\<lparr>cfg_id = 0, cfg_pref = Dictionary [(''a'', 10), (''b'', 20)]\<rparr>]\<rparr>)),
      ds_prefs = sample_world, ds_errors = \<lparr>es_tls = [0 \<mapsto> 50, 1 \<mapsto> 51], es_last_error = (\<lambda>p. OK)\<rparr>, ds_rest = 0\<rparr>"

definition sample_property :: "ptr \<Rightarrow> (nat, nat, nat) Property" where
  "sample_property q = \<lparr>pr_member = q, pr_device_member = q,
     pr_call_back = Some (\<lambda>d. Inr (d\<lparr>ds_rest := Suc (ds_rest d)\<rparr>)), pr_check_value = None, pr_device_error = 0, pr_async_count = 0\<rparr>"

definition sample_handle :: "(nat, nat, nat) Handle" where
  "sample_handle =
     \<lparr>dh_device = sample_side, dh_prefs = sample_world\<lparr>w_checker := None\<rparr>, dh_current_pref = 0, dh_batch_mode = False,
      dh_properties = [3 \<mapsto> sample_property 11, 2 \<mapsto> sample_property 12], dh_tasks = [5 \<mapsto> AsyncTask_new], dh_posted = [],
      dh_thread = 1, dh_device_thread = 0\<rparr>"

abbreviation anything :: "string \<Rightarrow> nat \<Rightarrow> bool" where
  "anything \<equiv> \<lambda>k v. True"

lemma sample_callback_ok: "callback_ok 0 takes allowed (\<lambda>_. True) (pr_call_back (sample_property q))"
  by (auto simp: callback_ok_def run_closure_def same_layout_refl same_threads_def side_ok_def store_takes_def
      sample_property_def)

lemma sample_handle_simps:
  "dh_posted sample_handle = []" "\<not> dh_batch_mode sample_handle" "\<not> IsDeviceThread sample_handle"
  "dh_thread sample_handle = 1" "dh_device_thread sample_handle = 0"
  "dh_properties sample_handle 3 = Some (sample_property 11)" "dh_properties sample_handle 2 = Some (sample_property 12)"
  "last_id (dh_device sample_handle) = Inr 0" "dh_current_pref sample_handle = 0"
  "content (dh_prefs sample_handle) = [''b'' \<mapsto> 20, ''a'' \<mapsto> 10]"
  "content (ds_prefs (dh_device sample_handle)) = [''b'' \<mapsto> 20, ''a'' \<mapsto> 10]"
  "dh_tasks sample_handle 5 = Some AsyncTask_new"
  by (simp_all add: sample_handle_def IsDeviceThread_def sample_side_def last_id_def DeviceBase_new_def GetLast_def
      content_def sample_world_def)

lemma sample_handle_ok: "handle_ok anything (\<lambda>_. True) (\<lambda>_. True) sample_handle"
proof -
  have "on_thread 0 sample_world = sample_world" by (rule on_thread_same) (simp add: sample_world_def)
  then have "store_takes 0 anything sample_world"
    by (simp add: store_takes_def sample_world_ok sample_world_accepts)
  moreover have "store_ok (on_thread 1 (sample_world\<lparr>w_checker := None\<rparr>))"
    using sample_world_ok
    by (auto simp: store_ok_def on_thread_def sample_world_def sample_member_def observers_ok_def member_ok_def
        HasPrefPath_def GetValue_def IsOnCorrectThread_def split: if_splits)
  then have "store_takes 1 anything (sample_world\<lparr>w_checker := None\<rparr>)"
    using sample_world_accepts by (simp add: store_takes_def accepts_def observers_of_def)
  ultimately show ?thesis
    by (auto simp: handle_ok_def sample_handle_simps side_ok_def)
      (simp_all add: sample_handle_def sample_side_def saved_def last_dict_def DeviceBase_new_def GetLast_def content_def
        config_ok_def sample_world_def IsDeviceThread_def)
qed

lemma sample_wired:
  "wired takes allowed (\<lambda>_. True) sample_handle (sample_property 11) ''a'' (\<lambda>x. x)"
  "wired takes allowed (\<lambda>_. True) sample_handle (sample_property 12) ''b'' (\<lambda>x. x)"
  using sample_callback_ok
  by (auto simp: wired_def sample_handle_def sample_side_def sample_world_def sample_member_def sample_property_def)

lemma set_value_reaches_device_witness:
  "\<exists>h' h''. Property_set_value 3 7 sample_handle = Inr h' \<and> content (ds_prefs (dh_device h')) ''a'' = Some 7 \<and>
    content (dh_prefs h') ''b'' = Some 20 \<and> Property_value 3 h' = Inr (7, h'')"
proof -
  have "w_members (dh_prefs sample_handle) (pr_member (sample_property 11)) = Some (sample_member ''a'' 10)"
    by (simp add: sample_handle_def sample_world_def sample_property_def)
  moreover have "pr_check_value (sample_property 11) = None" "m_get (sample_member ''a'' 10) 7 = Some 7"
    by (simp_all add: sample_property_def sample_member_def)
  ultimately obtain h' h'' where "Property_set_value 3 7 sample_handle = Inr h'"
    "property_set anything (\<lambda>_. True) (\<lambda>_. True) sample_handle
       ((content (ds_prefs (dh_device sample_handle)))(''a'' \<mapsto> 7)) h'" "Property_value 3 h' = Inr (7, h'')"
    using set_value_reaches_device [where x = 7, OF sample_handle_ok sample_handle_simps(1,2,6) _ sample_wired(1) sample_handle_simps(8)]
    by auto
  then show ?thesis by (auto simp: property_set_def sample_handle_simps)
qed

end
