(* ===== verification/Property_Commit.thy ===== *)
theory Property_Commit
  imports Device_Handle
begin

text \<open>
  Batches of properties and asynchronous sets (canscope/device/scoped_device_property_commit.cc,
  canscope/device/property/property.h), whose operations are in theory \<open>Device_Handle\<close>: a committed batch against single
  sets, a canceled commit, a commit after a rejected value, and the count of asynchronous operations of a property.
\<close>

subsection \<open>A batch sets the properties all at once\<close>

text \<open>In a batch only the handle's store changes, with the errors of its thread.\<close>

definition batch_set ::
  "(string \<Rightarrow> 'v \<Rightarrow> bool) \<Rightarrow> ((string \<Rightarrow> 'v option) \<Rightarrow> bool) \<Rightarrow> ('s \<Rightarrow> bool) \<Rightarrow>
     ('v, 'a, 's) Handle \<Rightarrow> (string \<Rightarrow> 'v option) \<Rightarrow> ('v, 'a, 's) Handle \<Rightarrow> bool" where
  "batch_set takes allowed ok h c h' \<longleftrightarrow>
     handle_ok takes allowed ok h' \<and> content (dh_prefs h') = c \<and> ds_prefs (dh_device h') = ds_prefs (dh_device h) \<and>
     last_id (dh_device h') = last_id (dh_device h) \<and> ds_rest (dh_device h') = ds_rest (dh_device h) \<and>
     dh_current_pref h' = dh_current_pref h \<and> other_fields_same h h' \<and> same_properties h h' \<and>
     LastDeviceError (dh_thread h) (ds_errors (dh_device h')) = Inr OK"

lemma batch_set_result:
  assumes ok: "handle_ok takes allowed ok h" and batch: "dh_batch_mode h"
    and y: "settable takes allowed ok h (p, x, name, v)"
  shows "\<exists>h'. Property_set_value p x h = Inr h' \<and> batch_set takes allowed ok h ((content (dh_prefs h))(name \<mapsto> v)) h'"
proof -
  let ?t = "dh_thread h" and ?es0 = "ds_errors (dh_device h)" and ?w = "on_thread (dh_thread h) (dh_prefs h)"
  obtain pr mk where pr: "takes name v" "dh_properties h p = Some pr" "pr_check_value pr = None"
    "wired takes allowed ok h pr name mk" "v = mk x"
    using y by (auto simp: settable_def)
  obtain m where m: "w_members ?w (pr_member pr) = Some m" "m_has_prefs m" "\<not> m_setting m" "m_name m = name" "m_make m = mk"
    using pr(4) by (auto simp: wired_def)
  obtain es where es: "CleanError ?t ?es0 = Inr es" "same_threads ?t ?es0 es" "LastDeviceError ?t es = Inr OK"
    using CleanError_ok [OF handle_okD(5) [OF ok]] by blast
  let ?h = "h\<lparr>dh_device := (dh_device h)\<lparr>ds_errors := es\<rparr>\<rparr>"
  have ok1: "handle_ok takes allowed ok ?h"
    by (rule handle_ok_errors [OF ok]) (use es(2) in \<open>simp add: same_threads_def\<close>)
  have takes: "store_takes ?t takes (dh_prefs h)" by (rule handle_okD(4) [OF ok])
  obtain w where w: "Member_set_value (pr_member pr) x ?w = Inr w" "store_ok w" "same_layout ?w w"
    "content w = (content (dh_prefs h))(name \<mapsto> v)"
    using Member_set_value_result [of ?w "pr_member pr" m x] takes m pr(1,5) by (auto simp: store_takes_def content_def)
  have "content w k = Some z \<Longrightarrow> takes k z" for k z
    using takes pr(1) by (auto simp: w(4) store_takes_def split: if_splits)
  then have "store_takes ?t takes w" by (rule store_takes_step [OF takes w(2,3)])
  moreover have "name \<in> dom (content (dh_prefs h))"
    using member_in_content [OF takes, of "pr_member pr" m] m by simp
  then have "dom (content w) = dom (content (dh_prefs h))" by (auto simp: w(4))
  ultimately have ok2: "handle_ok takes allowed ok (?h\<lparr>dh_prefs := w\<rparr>)"
    using ok1 by (simp add: handle_ok_def IsDeviceThread_def)
  have run: "Property_set_value p x h = Inr (?h\<lparr>dh_prefs := w\<rparr>)"
    using es(1) pr(2,3) batch w(1)
    by (simp add: Property_set_value_def with_property_def CheckValue_def SetValueImpl_def on_errors_def)
  show ?thesis
    using run ok2 w(3,4) es(3) same_layout_on_thread [OF w(3)]
    by (intro exI [of _ "?h\<lparr>dh_prefs := w\<rparr>"])
      (simp add: batch_set_def other_fields_same_def same_properties_def same_property_refl same_layout_refl)
qed

lemma CommitSyncImpl_ok:
  assumes ok: "handle_ok takes allowed ok h"
    and n: "last_id (dh_device h) = Inr n" "n < 2147483646"
    and c: "callback_ok (dh_device_thread h) takes allowed ok c" "allowed (content (dh_prefs h))"
  shows "\<exists>d e. CommitSyncImpl (Serialize (dh_prefs h)) c h = Inr (e, h\<lparr>dh_device := d\<rparr>) \<and>
    handle_ok takes allowed ok (h\<lparr>dh_device := d\<rparr>) \<and> last_id d = Inr (n + 1) \<and>
    content (ds_prefs d) = content (dh_prefs h) \<and>
    same_layout (on_thread (dh_device_thread h) (ds_prefs (dh_device h))) (ds_prefs d) \<and>
    same_threads (dh_device_thread h) (ds_errors (dh_device h)) (ds_errors d) \<and>
    LastDeviceError (dh_device_thread h) (ds_errors d) = Inr e"
proof -
  let ?t = "dh_device_thread h" and ?es0 = "ds_errors (dh_device h)" and ?dict = "Serialize (dh_prefs h)"
  have takes: "store_takes (dh_thread h) takes (dh_prefs h)" by (rule handle_okD(4) [OF ok])
  then have keys: "map_keys_ok (w_prefs (dh_prefs h))" by (auto simp: store_takes_def store_ok_def)
  then have ser: "?dict = w_prefs (dh_prefs h)"
    using fold_map_put [of "[]" "w_prefs (dh_prefs h)"] by (simp add: Serialize_def)
  have dom: "dom (map_of ?dict) = dom (content (ds_prefs (dh_device h)))"
    using handle_okD(7) [OF ok] by (simp add: ser content_def)
  have add: "content (ds_prefs (dh_device h)) ++ map_of ?dict = content (dh_prefs h)"
    using map_add_same_dom [OF dom [symmetric]] by (simp add: ser content_def)
  have tls: "es_tls ?es0 ?t \<noteq> None" using handle_okD(1) [OF ok] by (simp add: side_ok_def)
  obtain es where es: "CleanError ?t ?es0 = Inr es" "same_threads ?t ?es0 es" using CleanError_ok [OF tls] by blast
  have tls1: "es_tls es = es_tls ?es0" using es(2) by (simp add: same_threads_def)
  let ?d = "(dh_device h)\<lparr>ds_errors := es\<rparr>"
  have side: "side_ok ?t takes ?d" "ok (ds_rest ?d)" "last_id ?d = Inr n"
    using side_ok_errors [OF handle_okD(1) [OF ok] tls1] handle_okD(3) [OF ok] n(1) by simp_all
  have tk: "map_of ?dict k = Some v \<Longrightarrow> takes k v" for k v
    using takes by (auto simp: ser content_def store_takes_def)
  have dk: "map_keys_ok ?dict" "dom (map_of ?dict) \<subseteq> dom (content (ds_prefs ?d))" "allowed (content (ds_prefs ?d) ++ map_of ?dict)"
    using keys dom add c(2) by (simp_all add: ser)
  obtain d where d: "commit_device ?t ?dict c ?d = Inr d" "side_ok ?t takes d" "saved d" "ok (ds_rest d)"
    "last_id d = Inr (n + 1)" "content (ds_prefs d) = content (dh_prefs h)"
    "same_layout (on_thread ?t (ds_prefs (dh_device h))) (ds_prefs d)" "same_threads ?t es (ds_errors d)"
    using commit_device_ok [where ok = ok and allowed = allowed and dict = "?dict", OF side n(2) dk(1,2) tk dk(3) c(1)] add by auto
  have tls2: "es_tls (ds_errors d) = es_tls ?es0" using d(8) tls1 by (simp add: same_threads_def)
  obtain e where e: "LastDeviceError ?t (ds_errors d) = Inr e" using LastDeviceError_total tls tls2 by metis
  have "dom (content (ds_prefs d)) = dom (content (ds_prefs (dh_device h)))"
    using d(6) handle_okD(7) [OF ok] by simp
  then have "handle_ok takes allowed ok (h\<lparr>dh_device := d\<rparr>)"
    using handle_ok_device [OF ok d(2-4) n(1) d(5)] tls2 by simp
  moreover have "CommitSyncImpl ?dict c h = Inr (e, h\<lparr>dh_device := d\<rparr>)"
    using es(1) d(1) e by (simp add: CommitSyncImpl_def Let_def on_errors_def on_device_def)
  ultimately show ?thesis using d(5-7) e same_threads_trans [OF es(2) d(8)] by blast
qed

lemma CommitSync_ok:
  assumes ok: "handle_ok takes allowed ok h" and idle: "dh_posted h = []" "\<not> IsDeviceThread h"
    and n: "last_id (dh_device h) = Inr n" "n < 2147483646"
    and err: "LastDeviceError (dh_thread h) (ds_errors (dh_device h)) = Inr OK"
    and c: "callback_ok (dh_device_thread h) takes allowed ok c" "allowed (content (dh_prefs h))"
  shows "\<exists>h'. CommitSync c h = Inr h' \<and> property_set takes allowed ok h (content (dh_prefs h)) h'"
proof -
  let ?t = "dh_device_thread h" and ?es0 = "ds_errors (dh_device h)"
  obtain d e where d: "CommitSyncImpl (Serialize (dh_prefs h)) c h = Inr (e, h\<lparr>dh_device := d\<rparr>)"
    "handle_ok takes allowed ok (h\<lparr>dh_device := d\<rparr>)" "last_id d = Inr (n + 1)" "content (ds_prefs d) = content (dh_prefs h)"
    "same_layout (on_thread ?t (ds_prefs (dh_device h))) (ds_prefs d)" "same_threads ?t ?es0 (ds_errors d)"
    "LastDeviceError ?t (ds_errors d) = Inr e"
    using CommitSyncImpl_ok [OF ok n c] by blast
  have tls: "es_tls (ds_errors d) = es_tls ?es0" using d(6) by (simp add: same_threads_def)
  have other: "es_tls ?es0 (dh_thread h) \<noteq> es_tls ?es0 ?t" by (rule handle_okD(6) [OF ok idle(2)])
  have "LastDeviceError (dh_thread h) (ds_errors d) = Inr OK" using LastDeviceError_other [OF d(6)] other err by simp
  then obtain es2 where es2: "SetDeviceError (dh_thread h) e (ds_errors d) = Inr es2"
    "same_threads (dh_thread h) (ds_errors d) es2" "LastDeviceError (dh_thread h) es2 = Inr e"
    using SetDeviceError_ok by blast
  let ?h = "h\<lparr>dh_device := d\<lparr>ds_errors := es2\<rparr>\<rparr>"
  have "LastDeviceError ?t es2 = Inr e" using LastDeviceError_other [OF es2(2), of ?t] other tls d(7) by simp
  moreover have "handle_ok takes allowed ok ?h"
    using handle_ok_errors [OF d(2), of es2] es2(2) by (simp add: same_threads_def)
  moreover have "same_properties h ?h"
    using d(5) same_layout_on_thread [OF d(5)] by (simp add: same_properties_def same_property_refl same_layout_refl)
  moreover have "CommitSync c h = FetchNewPref ?h"
    using idle d(1) es2(1) by (simp add: CommitSync_def Let_def device_loop_all_idle on_errors_def)
  ultimately show ?thesis
    using fetch_after_set [of takes allowed ok ?h h n "content (dh_prefs h)"] n(1) d(3,4) es2(3)
      handle_okD(8) [OF ok n(1)] by (auto simp: other_fields_same_def)
qed

definition updates :: "(ptr \<times> 'a \<times> string \<times> 'v) list \<Rightarrow> (string \<Rightarrow> 'v option) \<Rightarrow> string \<Rightarrow> 'v option" where
  "updates ys c = fold (\<lambda>(p, x, name, v) c. c(name \<mapsto> v)) ys c"

definition set_values :: "(ptr \<times> 'a \<times> string \<times> 'v) list \<Rightarrow> ('v, 'a, 's) Handle \<Rightarrow> ('v, 'a, 's) Handle res" where
  "set_values ys = for_each (\<lambda>(p, x, name, v). Property_set_value p x) ys"

lemma set_values_simps [simp]:
  "set_values [] h = Inr h"
  "set_values ((p, x, name, v) # ys) h = and_then (Property_set_value p x h) (set_values ys)"
  "updates [] c = c"
  "updates ((p, x, name, v) # ys) c = updates ys (c(name \<mapsto> v))"
  by (simp_all add: set_values_def updates_def)

lemma set_values_single:
  assumes "handle_ok takes allowed ok h" and "dh_posted h = []" and "\<not> dh_batch_mode h"
    and "content (dh_prefs h) = c" and "content (ds_prefs (dh_device h)) = c"
    and "\<forall>y \<in> set ys. settable takes allowed ok h y" and "\<forall>k < length ys. allowed (updates (take (Suc k) ys) c)"
    and "last_id (dh_device h) = Inr n" and "n + int (length ys) \<le> 2147483646"
  shows "\<exists>h'. set_values ys h = Inr h' \<and> handle_ok takes allowed ok h' \<and> other_fields_same h h' \<and>
    content (dh_prefs h') = updates ys c \<and> content (ds_prefs (dh_device h')) = updates ys c \<and>
    last_id (dh_device h') = Inr (n + int (length ys))"
  using assms
proof (induction ys arbitrary: h c n)
  case Nil
  then show ?case by (simp add: other_fields_same_def)
next
  case (Cons y ys)
  obtain p x name v where y: "y = (p, x, name, v)" by (cases y)
  obtain pr mk where pr: "takes name v" "dh_properties h p = Some pr" "pr_check_value pr = None"
    "wired takes allowed ok h pr name mk" "v = mk x"
    using Cons.prems(6) by (auto simp: settable_def y)
  have "allowed (c(name \<mapsto> v))" using Cons.prems(7) [rule_format, of 0] by (simp add: y)
  then obtain h1 where h1: "Property_set_value p x h = Inr h1" "property_set takes allowed ok h (c(name \<mapsto> v)) h1"
    using set_value_result [where allowed = allowed and ok = ok, OF Cons.prems(1-3) pr(2-4) Cons.prems(8)] pr(1,5) Cons.prems(5,9) by auto
  have step: "handle_ok takes allowed ok h1" "dh_posted h1 = []" "\<not> dh_batch_mode h1" "same_properties h h1"
    "content (dh_prefs h1) = c(name \<mapsto> v)" "content (ds_prefs (dh_device h1)) = c(name \<mapsto> v)" "other_fields_same h h1"
    using h1(2) Cons.prems(2,3) by (simp_all add: property_set_def other_fields_same_def)
  have id: "last_id (dh_device h1) = Inr (n + 1)"
    using h1(2) Cons.prems(8) last_id_last_dict by (fastforce simp: property_set_def)
  have "\<forall>z \<in> set ys. settable takes allowed ok h1 z"
    using settable_same [OF _ step(4)] Cons.prems(6) by simp
  moreover have "\<forall>k < length ys. allowed (updates (take (Suc k) ys) (c(name \<mapsto> v)))"
  proof (intro allI impI)
    fix k assume "k < length ys"
    then show "allowed (updates (take (Suc k) ys) (c(name \<mapsto> v)))"
      using Cons.prems(7) [rule_format, of "Suc k"] by (simp add: y)
  qed
  ultimately obtain h' where "set_values ys h1 = Inr h'" "handle_ok takes allowed ok h'" "other_fields_same h1 h'"
    "content (dh_prefs h') = updates ys (c(name \<mapsto> v))" "content (ds_prefs (dh_device h')) = updates ys (c(name \<mapsto> v))"
    "last_id (dh_device h') = Inr (n + 1 + int (length ys))"
    using Cons.IH [OF step(1-3,5,6) _ _ id] Cons.prems(9) by (auto simp del: fun_upd_apply)
  then show ?case using h1(1) step(7) by (simp add: y other_fields_same_def)
qed

lemma set_values_batch:
  assumes "handle_ok takes allowed ok h" and "dh_batch_mode h" and "\<forall>y \<in> set ys. settable takes allowed ok h y"
    and "ys \<noteq> []"
  shows "\<exists>h'. set_values ys h = Inr h' \<and> batch_set takes allowed ok h (updates ys (content (dh_prefs h))) h'"
  using assms
proof (induction ys arbitrary: h)
  case (Cons y ys)
  obtain p x name v where y: "y = (p, x, name, v)" by (cases y)
  have set: "settable takes allowed ok h (p, x, name, v)" using Cons.prems(3) by (simp add: y)
  obtain h1 where h1: "Property_set_value p x h = Inr h1" "batch_set takes allowed ok h ((content (dh_prefs h))(name \<mapsto> v)) h1"
    using batch_set_result [OF Cons.prems(1,2) set] by blast
  show ?case
  proof (cases "ys = []")
    case True
    then show ?thesis using h1 by (simp add: y del: fun_upd_apply)
  next
    case False
    have step: "handle_ok takes allowed ok h1" "dh_batch_mode h1" "same_properties h h1"
      using h1(2) Cons.prems(2) by (simp_all add: batch_set_def other_fields_same_def)
    have "\<forall>z \<in> set ys. settable takes allowed ok h1 z"
      using settable_same [OF _ step(3)] Cons.prems(3) by simp
    then obtain h' where h': "set_values ys h1 = Inr h'" "batch_set takes allowed ok h1 (updates ys (content (dh_prefs h1))) h'"
      using Cons.IH [OF step(1,2) _ False] by blast
    have "same_properties h h'"
      using same_properties_trans [OF step(3)] h'(2) by (simp add: batch_set_def)
    then have "batch_set takes allowed ok h (updates (y # ys) (content (dh_prefs h))) h'"
      using h1(2) h'(2) by (simp add: batch_set_def other_fields_same_def y)
    then show ?thesis using h1(1) h'(1) by (auto simp: y)
  qed
qed simp

definition commit ::
  "(ptr \<times> 'a \<times> string \<times> 'v) list \<Rightarrow> ptr option \<Rightarrow> ('v, 'a, 's) closure option \<Rightarrow> ('v, 'a, 's) Handle \<Rightarrow> ('v, 'a, 's) Handle res" where
  "commit ys async_task c h =
     (let (old, h1) = Commit_begin h in and_then (set_values ys h1) (Commit_end old async_task c))"

text \<open>C10. Setting properties in a batch that is committed, and setting them one after the other, end with the same
  content in the device and in the handle; the batch saves one configuration where the others save one each, and the
  device never sees the contents in between, which therefore need not be allowed.\<close>

theorem commit_equals_single_sets:
  assumes "handle_ok takes allowed ok h" and "dh_posted h = []" and "\<not> dh_batch_mode h" and "\<not> IsDeviceThread h"
    and "content (dh_prefs h) = c" and "content (ds_prefs (dh_device h)) = c" and "ys \<noteq> []"
    and "\<forall>y \<in> set ys. settable takes allowed ok h y" and "\<forall>k < length ys. allowed (updates (take (Suc k) ys) c)"
    and "callback_ok (dh_device_thread h) takes allowed ok commit_call"
    and "last_id (dh_device h) = Inr n" and "n + int (length ys) \<le> 2147483646"
  shows "\<exists>h1 h2. set_values ys h = Inr h1 \<and> commit ys None commit_call h = Inr h2 \<and>
    content (ds_prefs (dh_device h1)) = updates ys c \<and> content (ds_prefs (dh_device h2)) = updates ys c \<and>
    content (dh_prefs h1) = updates ys c \<and> content (dh_prefs h2) = updates ys c \<and>
    last_id (dh_device h1) = Inr (n + int (length ys)) \<and> last_id (dh_device h2) = Inr (n + 1) \<and>
    \<not> dh_batch_mode h1 \<and> \<not> dh_batch_mode h2"
proof -
  obtain h1 where h1: "set_values ys h = Inr h1" "other_fields_same h h1" "content (dh_prefs h1) = updates ys c"
    "content (ds_prefs (dh_device h1)) = updates ys c" "last_id (dh_device h1) = Inr (n + int (length ys))"
    using set_values_single [OF assms(1-3,5,6,8,9,11,12)] by blast
  let ?b = "SetBatchMode True h"
  have same: "same_properties h ?b"
    by (simp add: SetBatchMode_def same_properties_def same_property_refl same_layout_refl)
  have "\<forall>y \<in> set ys. settable takes allowed ok ?b y" using settable_same [OF _ same] assms(8) by simp
  moreover have "handle_ok takes allowed ok ?b" "dh_batch_mode ?b" using assms(1) by (simp_all add: SetBatchMode_def)
  ultimately obtain b where b: "set_values ys ?b = Inr b"
    "batch_set takes allowed ok ?b (updates ys (content (dh_prefs ?b))) b"
    using set_values_batch assms(7) by blast
  have full: "allowed (updates ys c)"
    using assms(9) [rule_format, of "length ys - 1"] assms(7) by simp
  have n: "n < 2147483646" using assms(7,12) by (cases ys) auto
  have "handle_ok takes allowed ok b" "dh_posted b = []" "\<not> IsDeviceThread b" "last_id (dh_device b) = Inr n"
    "LastDeviceError (dh_thread b) (ds_errors (dh_device b)) = Inr OK" "content (dh_prefs b) = updates ys c"
    "dh_device_thread b = dh_device_thread h"
    using b(2) assms(2,4,5,11) by (simp_all add: batch_set_def other_fields_same_def SetBatchMode_def IsDeviceThread_def)
  then obtain b' where b': "CommitSync commit_call b = Inr b'" "property_set takes allowed ok b (updates ys c) b'"
    using CommitSync_ok [where allowed = allowed and ok = ok and c = commit_call, of takes b n] n full assms(10) by auto
  have "commit ys None commit_call h = Inr (SetBatchMode False b')"
    using b(1) b'(1) assms(3) by (simp add: commit_def Commit_begin_def Commit_end_def)
  moreover have "last_id (dh_device b') = Inr (n + 1)"
    using b'(2) last_id_last_dict \<open>last_id (dh_device b) = Inr n\<close> by (fastforce simp: property_set_def)
  ultimately show ?thesis
    using h1 b'(2) assms(3) by (simp add: property_set_def SetBatchMode_def other_fields_same_def)
qed

definition sample_sets :: "(ptr \<times> nat \<times> string \<times> nat) list" where
  "sample_sets = [(3, 7, ''a'', 7), (2, 8, ''b'', 8)]"

lemma sample_sets_settable:
  "y \<in> set sample_sets \<Longrightarrow> settable anything allowed (\<lambda>_. True) sample_handle y"
  using sample_wired [of anything allowed]
  by (auto simp: sample_sets_def settable_def sample_handle_simps sample_property_def intro: exI [of _ "\<lambda>x. x"])

lemma sample_sets_updates: "updates sample_sets [''b'' \<mapsto> 20, ''a'' \<mapsto> 10] = [''b'' \<mapsto> 8, ''a'' \<mapsto> 7]"
  by (auto simp: sample_sets_def fun_eq_iff)

lemma commit_equals_single_sets_witness:
  "\<exists>h1 h2. set_values sample_sets sample_handle = Inr h1 \<and> commit sample_sets None None sample_handle = Inr h2 \<and>
    content (ds_prefs (dh_device h1)) = [''b'' \<mapsto> 8, ''a'' \<mapsto> 7] \<and> content (ds_prefs (dh_device h2)) = [''b'' \<mapsto> 8, ''a'' \<mapsto> 7]"
proof -
  have "sample_sets \<noteq> []" "0 + int (length sample_sets) \<le> 2147483646" by (simp_all add: sample_sets_def)
  then show ?thesis
    using commit_equals_single_sets [OF sample_handle_ok sample_handle_simps(1-3) sample_handle_simps(10,11),
        where ys = sample_sets and commit_call = None and n = 0]
    by (auto simp: sample_sets_settable sample_handle_simps callback_ok_None sample_sets_updates simp del: fun_upd_apply)
qed

subsection \<open>Where a batch goes wrong\<close>

definition user_cancels :: "ptr \<Rightarrow> ('v, 'a, 's) Handle \<Rightarrow> ('v, 'a, 's) Handle res" where
  "user_cancels a h = with_task a h (\<lambda>t. Inr (put_task a (Task_Cancel t) h))"

text \<open>C26. An asynchronous commit that is canceled before the device thread comes to it changes nothing on the device,
  but the handle keeps the values of the batch: with the number of the configuration unchanged fetching brings
  nothing back, and the properties read values that the device does not have.\<close>

theorem canceled_commit_diverges:
  assumes "handle_ok takes allowed ok h" and "dh_posted h = []" and "content (ds_prefs (dh_device h)) = c"
    and "content (dh_prefs h) = c" and "ys \<noteq> []" and "\<forall>y \<in> set ys. settable takes allowed ok h y"
    and "last_id (dh_device h) = Inr (dh_current_pref h)" and "dh_tasks h a = Some t"
  shows "\<exists>h1 h2 h3. commit ys (Some a) commit_call h = Inr h1 \<and> user_cancels a h1 = Inr h2 \<and>
    device_loop_once h2 = Inr h3 \<and> dh_posted h3 = [] \<and> FetchNewPref h3 = Inr h3 \<and>
    content (dh_prefs h3) = updates ys c \<and> content (ds_prefs (dh_device h3)) = c \<and>
    (\<exists>t'. dh_tasks h3 a = Some t' \<and> last (at_queue t') = FinishImpl kCancel)"
proof -
  let ?b = "SetBatchMode True h"
  have same: "same_properties h ?b"
    by (simp add: SetBatchMode_def same_properties_def same_property_refl same_layout_refl)
  have "\<forall>y \<in> set ys. settable takes allowed ok ?b y" using settable_same [OF _ same] assms(6) by simp
  moreover have "handle_ok takes allowed ok ?b" "dh_batch_mode ?b" using assms(1) by (simp_all add: SetBatchMode_def)
  ultimately obtain b where b: "set_values ys ?b = Inr b"
    "batch_set takes allowed ok ?b (updates ys (content (dh_prefs ?b))) b"
    using set_values_batch assms(5) by blast
  have fields: "dh_tasks b a = Some t" "dh_posted b = []" "content (dh_prefs b) = updates ys c"
    "ds_prefs (dh_device b) = ds_prefs (dh_device h)" "last_id (dh_device b) = Inr (dh_current_pref b)"
    using b(2) assms(2,4,7,8) by (simp_all add: batch_set_def other_fields_same_def SetBatchMode_def)
  let ?w = "CommitWork (Serialize (dh_prefs b)) a commit_call"
  let ?h1 = "SetBatchMode (dh_batch_mode h) (PostDeviceTask ?w (put_task a (NotifyStart t) b))"
  let ?h2 = "put_task a (Task_Cancel (NotifyStart t)) ?h1"
  let ?h3 = "put_task a (NotifyCancel (Task_Cancel (NotifyStart t))) (?h2\<lparr>dh_posted := []\<rparr>)"
  have "commit ys (Some a) commit_call h = Inr ?h1"
    using b(1) fields(1) by (simp add: commit_def Commit_begin_def Commit_end_def CommitAsync_def with_task_def)
  moreover have "user_cancels a ?h1 = Inr ?h2"
    by (simp add: user_cancels_def with_task_def SetBatchMode_def PostDeviceTask_def put_task_def)
  moreover have "device_loop_once ?h2 = Inr ?h3"
    using fields(2)
    by (simp add: device_loop_once_def SetBatchMode_def PostDeviceTask_def put_task_def CommitAsyncImpl_def
        with_task_def UserCancel_def Task_Cancel_def)
  moreover have "FetchNewPref ?h3 = Inr ?h3"
    using fields(5) by (simp add: FetchNewPref_def SetBatchMode_def PostDeviceTask_def put_task_def)
  ultimately show ?thesis
    using fields(3,4) assms(3)
    by (intro exI [of _ ?h1] exI [of _ ?h2] exI [of _ ?h3])
      (simp add: SetBatchMode_def PostDeviceTask_def put_task_def NotifyCancel_def PostTask_def)
qed

lemma canceled_commit_diverges_witness:
  "\<exists>h1 h2 h3. commit sample_sets (Some 5) None sample_handle = Inr h1 \<and> user_cancels 5 h1 = Inr h2 \<and>
    device_loop_once h2 = Inr h3 \<and> FetchNewPref h3 = Inr h3 \<and>
    content (dh_prefs h3) ''a'' = Some 7 \<and> content (ds_prefs (dh_device h3)) ''a'' = Some 10"
proof -
  have "sample_sets \<noteq> []" by (simp add: sample_sets_def)
  then obtain h1 h2 h3 where "commit sample_sets (Some 5) None sample_handle = Inr h1" "user_cancels 5 h1 = Inr h2"
    "device_loop_once h2 = Inr h3" "FetchNewPref h3 = Inr h3"
    "content (dh_prefs h3) = updates sample_sets [''b'' \<mapsto> 20, ''a'' \<mapsto> 10]"
    "content (ds_prefs (dh_device h3)) = [''b'' \<mapsto> 20, ''a'' \<mapsto> 10]"
    using canceled_commit_diverges [OF sample_handle_ok sample_handle_simps(1,11,10), of sample_sets 5 AsyncTask_new None]
    by (auto simp: sample_sets_settable sample_handle_simps simp del: fun_upd_apply)
  then show ?thesis by (auto simp: sample_sets_updates)
qed

text \<open>When the check of a property rejects its value inside a batch, the error stays with the thread, and the
  synchronous commit at the end of the batch fails the assertion of \<open>SetDeviceError\<close>, after the device has
  taken the other values.\<close>

theorem rejected_value_fails_commit:
  assumes "handle_ok takes allowed ok h" and "dh_posted h = []" and "\<not> IsDeviceThread h" and "dh_batch_mode h"
    and "dh_properties h p = Some pr" and "pr_check_value pr = Some f"
    and "\<And>m es. w_members (dh_prefs h) (pr_member pr) = Some m \<Longrightarrow> f x (m_name m) es = Inr (False, es)"
    and "w_members (dh_prefs h) (pr_member pr) \<noteq> None"
    and "callback_ok (dh_device_thread h) takes allowed ok c" and "allowed (content (dh_prefs h))"
    and "last_id (dh_device h) = Inr n" and "n < 2147483646"
  shows "\<exists>h'. Property_set_value p x h = Inr h' \<and> dh_prefs h' = dh_prefs h \<and> Commit_end old None c h' = Inl DcheckFailed"
proof -
  let ?t = "dh_thread h" and ?es0 = "ds_errors (dh_device h)"
  obtain m where m: "w_members (dh_prefs h) (pr_member pr) = Some m" using assms(8) by blast
  obtain es where es: "CleanError ?t ?es0 = Inr es" "same_threads ?t ?es0 es" "LastDeviceError ?t es = Inr OK"
    using CleanError_ok [OF handle_okD(5) [OF assms(1)]] by blast
  obtain es1 where es1: "SetDeviceErrorIfNoError ?t ERR_INVAILD_VALUE es = Inr es1" "es_tls es1 = es_tls ?es0"
    "LastDeviceError ?t es1 = Inr ERR_INVAILD_VALUE"
    using es(2,3) by (auto simp: SetDeviceErrorIfNoError_def put_error_def same_threads_def LastDeviceError_def
        split: option.splits)
  let ?h = "h\<lparr>dh_device := (dh_device h)\<lparr>ds_errors := es1\<rparr>\<rparr>"
  have ok: "handle_ok takes allowed ok ?h" by (rule handle_ok_errors [OF assms(1) es1(2)])
  have set: "Property_set_value p x h = Inr ?h"
    using es(1) es1(1) assms(5-7) m
    by (simp add: Property_set_value_def with_property_def CheckValue_def with_member_def on_errors_def)
  have thread: "\<not> IsDeviceThread ?h" "dh_posted ?h = []" using assms(2,3) by (simp_all add: IsDeviceThread_def)
  obtain d e where d: "CommitSyncImpl (Serialize (dh_prefs ?h)) c ?h = Inr (e, ?h\<lparr>dh_device := d\<rparr>)"
    "same_threads (dh_device_thread h) es1 (ds_errors d)"
    using CommitSyncImpl_ok [OF ok, of n c] assms(9-12) by auto
  have "LastDeviceError ?t (ds_errors d) = Inr ERR_INVAILD_VALUE"
    using LastDeviceError_other [OF d(2)] handle_okD(6) [OF assms(1,3)] es1(2,3) by simp
  then have "SetDeviceError ?t e (ds_errors d) = Inl DcheckFailed"
    by (simp add: SetDeviceError_def error_defs)
  then have "CommitSync c ?h = Inl DcheckFailed"
    using thread d(1) by (simp add: CommitSync_def Let_def device_loop_all_idle on_errors_def)
  then show ?thesis using set by (auto simp: Commit_end_def)
qed

text \<open>The handle in a batch, with a check that rejects everything.\<close>

definition strict_handle :: "(nat, nat, nat) Handle" where
  "strict_handle = sample_handle\<lparr>dh_batch_mode := True,
     dh_properties := [3 \<mapsto> (sample_property 11)\<lparr>pr_check_value := Some (\<lambda>x name es. Inr (False, es))\<rparr>]\<rparr>"

lemma rejected_value_fails_commit_witness:
  "\<exists>h'. Property_set_value 3 7 strict_handle = Inr h' \<and> Commit_end False None None h' = Inl DcheckFailed"
proof -
  have "handle_ok anything (\<lambda>_. True) (\<lambda>_. True) strict_handle"
    using sample_handle_ok by (simp add: strict_handle_def)
  moreover have "w_members (dh_prefs strict_handle) 11 \<noteq> None"
    by (simp add: strict_handle_def sample_handle_def sample_world_def)
  ultimately show ?thesis
    using rejected_value_fails_commit [where h = strict_handle and p = 3 and x = 7 and c = None and old = False and n = 0,
        of anything "\<lambda>_. True" "\<lambda>_. True"]
    by (fastforce simp: strict_handle_def sample_handle_simps callback_ok_None IsDeviceThread_def sample_property_def)
qed

subsection \<open>The count of asynchronous operations\<close>

text \<open>What the thread of the handle, the device thread and the user do.  A synchronous call returns after the tasks posted
  before it: here they are run first, by steps of the device thread.\<close>

datatype ('v, 'a, 's) handle_action =
    SetSync ptr 'a
  | SetAsync ptr 'a ptr
  | BatchBegin
  | BatchEnd bool "ptr option" "('v, 'a, 's) closure option"
  | Fetch
  | DeviceRuns
  | Cancels ptr
  | NewTask ptr AsyncTask

fun handle_exec :: "('v, 'a, 's) handle_action \<Rightarrow> ('v, 'a, 's) Handle \<Rightarrow> ('v, 'a, 's) Handle res" where
  "handle_exec (SetSync p x) h = (if dh_posted h \<noteq> [] then Inl Blocked else Property_set_value p x h)"
| "handle_exec (SetAsync p x a) h = Property_set_value_async p x a h"
| "handle_exec BatchBegin h = Inr (snd (Commit_begin h))"
| "handle_exec (BatchEnd old async_task c) h =
     (if dh_posted h \<noteq> [] \<and> async_task = None then Inl Blocked else Commit_end old async_task c h)"
| "handle_exec Fetch h = FetchNewPref h"
| "handle_exec DeviceRuns h = device_loop_once h"
| "handle_exec (Cancels a) h = user_cancels a h"
| "handle_exec (NewTask a t) h = Inr (put_task a t h)"

fun is_set :: "ptr \<Rightarrow> ('v, 'a, 's) work \<Rightarrow> bool" where
  "is_set p (SetValueWork q x a) \<longleftrightarrow> q = p"
| "is_set p (CommitWork dict a c) \<longleftrightarrow> False"

fun canceled :: "('v, 'a, 's) Handle \<Rightarrow> ('v, 'a, 's) work \<Rightarrow> bool" where
  "canceled h (SetValueWork q x a) \<longleftrightarrow> (case dh_tasks h a of None \<Rightarrow> False | Some t \<Rightarrow> UserCancel t)"
| "canceled h (CommitWork dict a c) \<longleftrightarrow> False"

definition pending :: "ptr \<Rightarrow> ('v, 'a, 's) Handle \<Rightarrow> nat" where
  "pending p h = length (filter (is_set p) (dh_posted h))"

text \<open>Sets of \<open>p\<close> that the device thread finds canceled.\<close>

definition drops :: "ptr \<Rightarrow> ('v, 'a, 's) handle_action \<Rightarrow> ('v, 'a, 's) Handle \<Rightarrow> nat" where
  "drops p act h =
     (case (act, dh_posted h) of (DeviceRuns, w # ws) \<Rightarrow> (if is_set p w \<and> canceled h w then 1 else 0) | _ \<Rightarrow> 0)"

fun dropped :: "ptr \<Rightarrow> ('v, 'a, 's) handle_action list \<Rightarrow> ('v, 'a, 's) Handle \<Rightarrow> nat" where
  "dropped p [] h = 0"
| "dropped p (act # acts) h =
     drops p act h + (case handle_exec act h of Inl _ \<Rightarrow> 0 | Inr h' \<Rightarrow> dropped p acts h')"

definition async_counts :: "('v, 'a, 's) Handle \<Rightarrow> ptr \<Rightarrow> int option" where
  "async_counts h = (\<lambda>p. map_option pr_async_count (dh_properties h p))"

definition same_counts :: "('v, 'a, 's) Handle \<Rightarrow> ('v, 'a, 's) Handle \<Rightarrow> bool" where
  "same_counts h h' \<longleftrightarrow> async_counts h' = async_counts h \<and> dh_posted h' = dh_posted h"

lemma same_counts_trans: "same_counts h h1 \<Longrightarrow> same_counts h1 h2 \<Longrightarrow> same_counts h h2"
  by (simp add: same_counts_def)

lemma with_propertyE [elim!]:
  assumes "with_property p h f = Inr y"
  obtains pr where "dh_properties h p = Some pr" "f pr = Inr y"
  using assms by (auto simp: with_property_def split: option.splits)

lemma with_taskE [elim!]:
  assumes "with_task a h f = Inr y"
  obtains t where "dh_tasks h a = Some t" "f t = Inr y"
  using assms by (auto simp: with_task_def split: option.splits)

lemma on_errors_counts: "on_errors f h = Inr h' \<Longrightarrow> same_counts h h' \<and> dh_properties h' = dh_properties h"
  by (auto simp: on_errors_def same_counts_def async_counts_def)

lemma on_device_counts: "on_device f h = Inr h' \<Longrightarrow> same_counts h h' \<and> dh_properties h' = dh_properties h"
  by (auto simp: on_device_def same_counts_def async_counts_def)

lemma FetchNewPref_counts: "FetchNewPref h = Inr h' \<Longrightarrow> same_counts h h'"
  by (auto simp: FetchNewPref_def same_counts_def async_counts_def split: if_splits)

lemma CheckValue_counts: "CheckValue pr x h = Inr (b, h') \<Longrightarrow> same_counts h h' \<and> dh_properties h' = dh_properties h"
  by (auto simp: CheckValue_def with_member_def same_counts_def async_counts_def split: option.splits)

lemma finish_task_counts: "finish_task a h = Inr h' \<Longrightarrow> same_counts h h'"
  by (auto simp: finish_task_def put_task_def same_counts_def async_counts_def)

lemma add_async_counts:
  "add_async p n h = Inr h' \<Longrightarrow> dh_posted h' = dh_posted h \<and>
     (\<exists>c. async_counts h p = Some c \<and> async_counts h' = (async_counts h)(p \<mapsto> c + n))"
  by (auto simp: add_async_def put_property_def async_counts_def fun_eq_iff)

lemma SetValueImplSync_counts: "SetValueImplSync p x h = Inr h' \<Longrightarrow> same_counts h h'"
proof -
  assume "SetValueImplSync p x h = Inr h'"
  then obtain pr h1 h2 e where h: "dh_properties h p = Some pr" "on_errors (CleanError (dh_device_thread h)) h = Inr h1"
    "on_device (device_set (dh_device_thread h) pr x) h1 = Inr h2" "h' = put_property p (pr\<lparr>pr_device_error := e\<rparr>) h2"
    by (auto simp: SetValueImplSync_def Let_def)
  then show ?thesis
    using on_errors_counts [OF h(2)] on_device_counts [OF h(3)]
    by (auto simp: same_counts_def async_counts_def put_property_def fun_eq_iff)
qed

lemma SetValueImpl_counts:
  assumes "SetValueImpl p x h = Inr h'" and "dh_posted h = []"
  shows "same_counts h h'"
proof -
  obtain pr where pr: "dh_properties h p = Some pr" using assms(1) by (auto simp: SetValueImpl_def)
  consider "dh_batch_mode h" | "\<not> dh_batch_mode h" "\<not> IsDeviceThread h" | "\<not> dh_batch_mode h" "IsDeviceThread h" by blast
  then show ?thesis
  proof cases
    case 1
    then show ?thesis using assms(1) by (auto simp: SetValueImpl_def same_counts_def async_counts_def)
  next
    case 2
    then have "and_then (SetValueImplSync p x h) (\<lambda>h. with_property p h (\<lambda>pr.
        and_then (on_errors (SetDeviceError (dh_thread h) (pr_device_error pr)) h) FetchNewPref)) = Inr h'"
      using assms pr by (simp add: SetValueImpl_def with_property_def [of p h] device_loop_all_idle)
    then obtain h1 e h2 where "SetValueImplSync p x h = Inr h1" "on_errors (SetDeviceError (dh_thread h1) e) h1 = Inr h2"
      "FetchNewPref h2 = Inr h'"
      by (elim and_then_InrE with_propertyE) blast
    then show ?thesis
      using SetValueImplSync_counts on_errors_counts FetchNewPref_counts same_counts_trans by metis
  next
    case 3
    then obtain h1 where "on_device (device_set (dh_thread h) pr x) h = Inr h1" "FetchNewPref h1 = Inr h'"
      using assms(1) pr by (auto simp: SetValueImpl_def)
    then show ?thesis using on_device_counts FetchNewPref_counts same_counts_trans by metis
  qed
qed

lemma Property_set_value_counts:
  assumes "Property_set_value p x h = Inr h'" and "dh_posted h = []"
  shows "same_counts h h'"
proof -
  obtain pr h1 b h2 where h: "on_errors (CleanError (dh_thread h)) h = Inr h1" "CheckValue pr x h1 = Inr (b, h2)"
    "(if b then SetValueImpl p x h2 else on_errors (SetDeviceErrorIfNoError (dh_thread h2) ERR_INVAILD_VALUE) h2) = Inr h'"
    using assms(1) by (auto simp: Property_set_value_def)
  have "same_counts h h2" using on_errors_counts [OF h(1)] CheckValue_counts [OF h(2)] same_counts_trans by blast
  moreover have "dh_posted h2 = []" using calculation assms(2) by (simp add: same_counts_def)
  have "same_counts h2 h'"
  proof (cases b)
    case True
    then have "SetValueImpl p x h2 = Inr h'" using h(3) by simp
    then show ?thesis using \<open>dh_posted h2 = []\<close> by (rule SetValueImpl_counts)
  next
    case False
    then show ?thesis using h(3) on_errors_counts by auto
  qed
  ultimately show ?thesis by (rule same_counts_trans)
qed

definition counted :: "ptr \<Rightarrow> nat \<Rightarrow> ('v, 'a, 's) Handle \<Rightarrow> bool" where
  "counted p n h \<longleftrightarrow> async_counts h p = Some (int (pending p h) + int n)"

lemma same_counts_counted: "same_counts h h' \<Longrightarrow> counted p n h \<Longrightarrow> counted p n h'"
  by (simp add: same_counts_def counted_def pending_def)

lemma put_task_counts: "same_counts h (put_task a t h)"
  by (simp add: put_task_def same_counts_def async_counts_def)

lemma async_counts_post [simp]: "async_counts (h\<lparr>dh_posted := ws\<rparr>) = async_counts h"
  by (simp add: async_counts_def)

lemma set_value_async_counted:
  assumes "Property_set_value_async q x a h = Inr h'" and "counted p n h"
  shows "counted p n h'"
proof -
  obtain pr task b h1 where h: "CheckValue pr x (put_task a (NotifyStart task) h) = Inr (b, h1)"
    "(if \<not> b then
        and_then (on_errors (SetDeviceErrorIfNoError (dh_thread h1) ERR_INVAILD_VALUE) h1) (\<lambda>h.
        and_then (LastDeviceError (dh_thread h) (ds_errors (dh_device h))) (\<lambda>err.
        with_task a h (\<lambda>task. Inr (put_task a (NotifyError task) h))))
      else DCHECK (\<not> IsDeviceThread h1)
        (and_then (add_async q 1 h1) (\<lambda>h. Inr (PostDeviceTask (SetValueWork q x a) h)))) = Inr h'"
    using assms(1) by (auto simp: Property_set_value_async_def Let_def)
  have c1: "counted p n h1"
    using CheckValue_counts [OF h(1)] put_task_counts same_counts_counted assms(2) by blast
  show ?thesis
  proof (cases b)
    case True
    then obtain h2 where h2: "add_async q 1 h1 = Inr h2" "h' = PostDeviceTask (SetValueWork q x a) h2"
      using h(2) by auto
    then show ?thesis
      using add_async_counts [OF h2(1)] c1
      by (auto simp: counted_def pending_def async_counts_post PostDeviceTask_def [of "SetValueWork q x a"])
  next
    case False
    then obtain h2 t where h2: "on_errors (SetDeviceErrorIfNoError (dh_thread h1) ERR_INVAILD_VALUE) h1 = Inr h2"
      "h' = put_task a t h2"
      using h(2) by auto
    then show ?thesis using on_errors_counts [OF h2(1)] put_task_counts same_counts_counted c1 by blast
  qed
qed

lemma run_set_counted:
  assumes "SetValueAsyncImpl q x a h = Inr h'" and "async_counts h p = Some k"
  shows "dh_posted h' = dh_posted h \<and>
    async_counts h' p = Some (if q = p \<and> \<not> canceled h (SetValueWork q x a) then k - 1 else k)"
proof -
  obtain pr t where t: "dh_properties h q = Some pr" "dh_tasks h a = Some t" using assms(1) by (auto simp: SetValueAsyncImpl_def)
  show ?thesis
  proof (cases "UserCancel t")
    case True
    then have "h' = put_task a (NotifyCancel t) h"
      using assms(1) t by (simp add: SetValueAsyncImpl_def with_property_def with_task_def)
    then show ?thesis using True t(2) assms(2) by (simp add: put_task_def async_counts_def)
  next
    case False
    then obtain h1 h2 h3 where h: "on_errors (CleanError (dh_device_thread h)) h = Inr h1"
      "on_device (device_set (dh_device_thread h1) pr x) h1 = Inr h2" "finish_task a h2 = Inr h3" "add_async q (-1) h3 = Inr h'"
      using assms(1) t by (auto simp: SetValueAsyncImpl_def with_property_def with_task_def)
    have "same_counts h h3"
      using on_errors_counts [OF h(1)] on_device_counts [OF h(2)] finish_task_counts [OF h(3)] same_counts_trans by blast
    then show ?thesis
      using add_async_counts [OF h(4)] assms(2) False t(2) by (auto simp: same_counts_def)
  qed
qed

lemma run_commit_counts: "CommitAsyncImpl dict a c h = Inr h' \<Longrightarrow> same_counts h h'"
proof -
  assume run: "CommitAsyncImpl dict a c h = Inr h'"
  then obtain t where t: "dh_tasks h a = Some t" by (auto simp: CommitAsyncImpl_def)
  show ?thesis
  proof (cases "UserCancel t")
    case True
    then show ?thesis using run t put_task_counts by (auto simp: CommitAsyncImpl_def with_task_def)
  next
    case False
    then obtain h1 h2 where h: "on_errors (CleanError (dh_device_thread h)) h = Inr h1"
      "on_device (commit_device (dh_device_thread h1) dict c) h1 = Inr h2" "finish_task a h2 = Inr h'"
      using run t by (auto simp: CommitAsyncImpl_def with_task_def)
    then show ?thesis
      using on_errors_counts [OF h(1)] on_device_counts [OF h(2)] finish_task_counts [OF h(3)] same_counts_trans by blast
  qed
qed

lemma device_loop_counted:
  assumes "device_loop_once h = Inr h'" and "counted p n h"
  shows "counted p (n + drops p DeviceRuns h) h'"
proof (cases "dh_posted h")
  case Nil
  then show ?thesis using assms by (simp add: device_loop_once_def drops_def)
next
  case (Cons w ws)
  let ?h = "h\<lparr>dh_posted := ws\<rparr>"
  have run: "run_work w ?h = Inr h'" using assms(1) Cons by (simp add: device_loop_once_def)
  have c: "async_counts ?h p = Some (int (pending p h) + int n)" using assms(2) by (simp add: counted_def async_counts_def)
  show ?thesis
  proof (cases w)
    case (SetValueWork q x a)
    have "canceled ?h w = canceled h w" by (simp add: SetValueWork)
    then show ?thesis
      using run_set_counted [of q x a ?h h', OF _ c] run Cons
      by (auto simp: SetValueWork counted_def pending_def drops_def)
  next
    case (CommitWork dict a cb)
    then have "same_counts ?h h'" using run run_commit_counts by auto
    then show ?thesis using c Cons by (simp add: same_counts_def counted_def pending_def drops_def CommitWork)
  qed
qed

lemma CommitSync_counts:
  assumes "CommitSync c h = Inr h'" and "dh_posted h = []"
  shows "same_counts h h'"
proof -
  obtain h1 err h2 where h: "CommitSyncImpl (Serialize (dh_prefs h)) c h = Inr (err, h1)"
    "on_errors (SetDeviceError (dh_thread h1) err) h1 = Inr h2" "FetchNewPref h2 = Inr h'"
    using assms by (auto simp: CommitSync_def Let_def device_loop_all_idle split: if_splits)
  obtain g1 g2 where g: "on_errors (CleanError (dh_device_thread h)) h = Inr g1"
    "on_device (commit_device (dh_device_thread h) (Serialize (dh_prefs h)) c) g1 = Inr g2" "h1 = g2"
    using h(1) by (auto simp: CommitSyncImpl_def Let_def)
  show ?thesis
    using on_errors_counts [OF g(1)] on_device_counts [OF g(2)] g(3) on_errors_counts [OF h(2)]
      FetchNewPref_counts [OF h(3)] same_counts_trans by blast
qed

lemma SetBatchMode_counted [simp]: "counted p n (SetBatchMode b h) = counted p n h"
  by (simp add: SetBatchMode_def counted_def pending_def async_counts_def)

lemma Commit_end_counted:
  assumes "Commit_end old task c h = Inr h'" and "task = None \<longrightarrow> dh_posted h = []" and "counted p n h"
  shows "counted p n h'"
proof (cases task)
  case None
  then show ?thesis using assms by (auto simp: Commit_end_def intro: same_counts_counted [OF CommitSync_counts])
next
  case (Some a)
  then obtain t where "h' = SetBatchMode old (PostDeviceTask (CommitWork (Serialize (dh_prefs h)) a c) (put_task a (NotifyStart t) h))"
    using assms(1) by (auto simp: Commit_end_def CommitAsync_def)
  then show ?thesis
    using assms(3) by (simp add: SetBatchMode_def counted_def pending_def PostDeviceTask_def put_task_def async_counts_def)
qed

lemma handle_exec_counted:
  assumes "handle_exec act h = Inr h'" and "counted p n h"
  shows "counted p (n + drops p act h) h'"
proof (cases act)
  case (SetSync q x)
  then show ?thesis
    using assms by (auto simp: drops_def intro: same_counts_counted [OF Property_set_value_counts] split: if_splits)
next
  case (SetAsync q x a)
  then show ?thesis using assms set_value_async_counted by (simp add: drops_def)
next
  case BatchBegin
  then show ?thesis using assms by (auto simp: drops_def Commit_begin_def)
next
  case (BatchEnd old task c)
  then show ?thesis using assms by (auto simp: drops_def intro: Commit_end_counted split: if_splits)
next
  case Fetch
  then show ?thesis using assms by (auto simp: drops_def intro: same_counts_counted [OF FetchNewPref_counts])
next
  case DeviceRuns
  then show ?thesis using assms device_loop_counted by simp
next
  case (Cancels a)
  then show ?thesis using assms by (auto simp: drops_def user_cancels_def intro: same_counts_counted [OF put_task_counts])
next
  case (NewTask a t)
  then show ?thesis using assms by (auto simp: drops_def intro: same_counts_counted [OF put_task_counts])
qed

text \<open>C17. The count of asynchronous sets of a property is always the number of those that still wait on the device thread
  and of those that the device thread found canceled, which it forgets to count down.  So a property can be
  destroyed exactly when none waits and none was ever canceled in time: after one such cancel the CHECK of the
  destructor fails for good.\<close>

theorem async_count_leaks:
  assumes "for_each handle_exec acts h = Inr h'" and "async_counts h p = Some 0" and "pending p h = 0"
  shows "async_counts h' p = Some (int (pending p h') + int (dropped p acts h)) \<and>
    (Property_destroy p h' = Inl CheckFailed \<longleftrightarrow> pending p h' > 0 \<or> dropped p acts h > 0) \<and>
    (Property_destroy p h' \<noteq> Inl CheckFailed \<longrightarrow> (\<exists>h''. Property_destroy p h' = Inr h''))"
proof -
  have "for_each handle_exec acts h = Inr h' \<Longrightarrow> counted p n h \<Longrightarrow> counted p (n + dropped p acts h) h'" for n
  proof (induction acts arbitrary: h n)
    case (Cons act acts)
    then obtain h1 where "handle_exec act h = Inr h1" "for_each handle_exec acts h1 = Inr h'" by auto
    then show ?case using Cons handle_exec_counted by (fastforce simp: add.assoc)
  qed simp
  from this [OF assms(1), of 0] have "counted p (dropped p acts h) h'" using assms(2,3) by (simp add: counted_def)
  then obtain pr where "dh_properties h' p = Some pr" "pr_async_count pr = int (pending p h') + int (dropped p acts h)"
    by (auto simp: counted_def async_counts_def)
  then show ?thesis by (auto simp: Property_destroy_def with_property_def check_def async_counts_def)
qed

lemma async_count_leaks_witness:
  "\<exists>h'. for_each handle_exec [SetAsync 3 7 5, Cancels 5, DeviceRuns] sample_handle = Inr h' \<and>
    pending 3 h' = 0 \<and> Property_destroy 3 h' = Inl CheckFailed"
proof -
  let ?acts = "[SetAsync 3 7 5, Cancels 5, DeviceRuns] :: (nat, nat, nat) handle_action list"
  have run: "\<exists>h'. for_each handle_exec ?acts sample_handle = Inr h' \<and> pending 3 h' = 0 \<and> dropped 3 ?acts sample_handle = 1"
    by (simp add: Property_set_value_async_def with_property_def with_task_def sample_handle_simps put_task_def Let_def
        CheckValue_def sample_property_def IsDeviceThread_def add_async_def put_property_def PostDeviceTask_def
        int32_of_def in_int32_def user_cancels_def device_loop_once_def SetValueAsyncImpl_def UserCancel_def
        Task_Cancel_def pending_def drops_def NotifyStart_def PostTask_def AsyncTask_new_def)
  then obtain h' where h': "for_each handle_exec ?acts sample_handle = Inr h'" "pending 3 h' = 0"
    "dropped 3 ?acts sample_handle = 1" by blast
  have "async_counts sample_handle 3 = Some 0" "pending 3 sample_handle = 0"
    by (simp_all add: async_counts_def pending_def sample_handle_simps sample_property_def)
  from async_count_leaks [OF h'(1) this] h' show ?thesis by auto
qed

end
