(* ===== verification/Thread_Handles.thy ===== *)
theory Thread_Handles
  imports Prelude
begin

text \<open>
  Calls on another thread, \<open>SyncCall\<close> (canscope/device/sync_call.h, sync_call.cc), and the handles of each thread,
  \<open>CANScopeDeviceHandle\<close> (canscope/device/canscope_device_handle.h, canscope_device_handle.cc).

  A thread has a map from devices to its handles, made with its first handle and deleted with its last; \<open>th_maps\<close> is the
  thread-local pointer to it.  \<open>th_live\<close> has the handles that exist, each with the device to which it holds a
  reference; the address that \<open>new\<close> returns is an argument.  A device that starts to be destroyed notifies every
  thread; the handle that a thread has for it destroys itself.
\<close>

subsection \<open>SyncCall\<close>

text \<open>\<open>own\<close> tells whether the call is made on the thread of its task runner.  Running a null closure is undefined, and a
  thread that posts to itself and waits never gets on.\<close>

definition CallImpl :: "('s \<Rightarrow> 's res) option \<Rightarrow> 's \<Rightarrow> 's res" where
  "CallImpl callback s = (case callback of None \<Rightarrow> Inr s | Some f \<Rightarrow> f s)"

definition SyncCall_Call :: "bool \<Rightarrow> ('s \<Rightarrow> 's res) option \<Rightarrow> 's \<Rightarrow> 's res" where
  "SyncCall_Call own callback s =
     (if own then (if callback = None then Inl Undefined else Inl Blocked)
      else CallImpl callback s)"

subsection \<open>The handles of a thread\<close>

record ThreadHandles =
  th_maps :: "nat \<Rightarrow> (ptr \<times> ptr) list option"
  th_live :: "ptr \<Rightarrow> ptr option"

definition ThreadHandles_new :: ThreadHandles where
  "ThreadHandles_new = \<lparr>th_maps = (\<lambda>t. None), th_live = (\<lambda>h. None)\<rparr>"

text \<open>\<open>GetInstance\<close> looks into the map without a test that the thread has one.\<close>

definition Handle_GetInstance :: "nat \<Rightarrow> ptr \<Rightarrow> ThreadHandles \<Rightarrow> ptr option res" where
  "Handle_GetInstance t device s =
     (case th_maps s t of None \<Rightarrow> Inl Undefined | Some m \<Rightarrow> Inr (map_of m device))"

definition handle_map :: "nat \<Rightarrow> ThreadHandles \<Rightarrow> (ptr \<times> ptr) list" where
  "handle_map t s = (case th_maps s t of None \<Rightarrow> [] | Some m \<Rightarrow> m)"

definition Handle_Create :: "nat \<Rightarrow> ptr \<Rightarrow> ptr \<Rightarrow> ThreadHandles \<Rightarrow> ThreadHandles res" where
  "Handle_Create t device new s =
     DCHECK (device \<noteq> 0) (
     let m = handle_map t s in
     DCHECK (map_of m device = None)
       (Inr (s\<lparr>th_maps := (th_maps s)(t \<mapsto> map_put device new m), th_live := (th_live s)(new \<mapsto> device)\<rparr>)))"

definition DestroyHandle :: "nat \<Rightarrow> ptr \<Rightarrow> ThreadHandles \<Rightarrow> ThreadHandles res" where
  "DestroyHandle t this s =
     (case (th_live s this, th_maps s t) of
        (Some device, Some m) \<Rightarrow>
          (case map_of m device of
             None \<Rightarrow> Inl DcheckFailed
           | Some h \<Rightarrow>
               let m = map_erase device m in
               Inr (s\<lparr>th_live := (th_live s)(h := None), th_maps := (th_maps s)(t := if m = [] then None else Some m)\<rparr>))
      | _ \<Rightarrow> Inl Undefined)"

text \<open>The notification of a device on a thread reaches the handle that the thread has for it.\<close>

definition ThreadHandles_Observe :: "ptr \<Rightarrow> nat \<Rightarrow> ThreadHandles \<Rightarrow> ThreadHandles res" where
  "ThreadHandles_Observe device t s =
     (case map_of (handle_map t s) device of None \<Rightarrow> Inr s | Some h \<Rightarrow> DestroyHandle t h s)"

subsection \<open>The invariant\<close>

text \<open>A map is never empty, has its devices once each in their order, and exactly the live handles, each in one
  place.\<close>

definition handles_ok :: "ThreadHandles \<Rightarrow> bool" where
  "handles_ok s \<longleftrightarrow>
     (\<forall>t. th_maps s t \<noteq> Some [] \<and> map_keys_ok (handle_map t s)) \<and>
     (\<forall>h d. th_live s h = Some d \<longleftrightarrow> (\<exists>t. map_of (handle_map t s) d = Some h)) \<and>
     (\<forall>t u d e h. map_of (handle_map t s) d = Some h \<and> map_of (handle_map u s) e = Some h \<longrightarrow> t = u \<and> d = e)"

lemma handles_okD:
  assumes "handles_ok s"
  shows "th_maps s t \<noteq> Some []" "map_keys_ok (handle_map t s)"
    "th_live s h = Some d \<longleftrightarrow> (\<exists>t. map_of (handle_map t s) d = Some h)"
    "map_of (handle_map t s) d = Some h \<Longrightarrow> map_of (handle_map u s) e = Some h \<Longrightarrow> t = u \<and> d = e"
  using assms unfolding handles_ok_def by blast+

lemma handle_map_upd:
  "handle_map u (s\<lparr>th_maps := (th_maps s)(t := x), th_live := l\<rparr>) =
     (if u = t then (case x of None \<Rightarrow> [] | Some m \<Rightarrow> m) else handle_map u s)"
  by (simp add: handle_map_def)

lemma handles_ok_new: "handles_ok ThreadHandles_new"
  by (simp add: handles_ok_def ThreadHandles_new_def handle_map_def)

lemma map_put_not_Nil: "map_put k v xs \<noteq> []"
  by (cases "(k, v, xs)" rule: map_put.cases) simp_all

lemma Handle_Create_ok:
  assumes ok: "handles_ok s" and new: "th_live s h = None" and d: "d \<noteq> 0" "map_of (handle_map t s) d = None"
  shows "\<exists>s'. Handle_Create t d h s = Inr s' \<and> handles_ok s' \<and> Handle_GetInstance t d s' = Inr (Some h)"
proof -
  let ?m = "map_put d h (handle_map t s)"
  let ?s = "s\<lparr>th_maps := (th_maps s)(t \<mapsto> ?m), th_live := (th_live s)(h \<mapsto> d)\<rparr>"
  have keys: "map_keys_ok (handle_map t s)" by (rule handles_okD(2) [OF ok])
  have maps: "map_of (handle_map u ?s) = (if u = t then (map_of (handle_map t s))(d \<mapsto> h) else map_of (handle_map u s))" for u
    by (simp add: handle_map_upd map_of_put [OF keys])
  have fresh: "map_of (handle_map u s) e \<noteq> Some h" for u e
    using handles_okD(3) [OF ok, of h e] new by auto
  have "handles_ok ?s"
    unfolding handles_ok_def
  proof (intro conjI allI impI)
    show "th_maps ?s u \<noteq> Some []" for u using handles_okD(1) [OF ok] by (simp add: map_put_not_Nil)
    show "map_keys_ok (handle_map u ?s)" for u
      using handles_okD(2) [OF ok] by (auto simp: handle_map_upd intro: map_keys_ok_put)
    show "th_live ?s g = Some e \<longleftrightarrow> (\<exists>u. map_of (handle_map u ?s) e = Some g)" for g e
    proof (cases "g = h")
      case True
      then show ?thesis using fresh by (auto simp: maps)
    next
      case False
      then have "map_of (handle_map u ?s) e = Some g \<longleftrightarrow> map_of (handle_map u s) e = Some g" for u
        using d(2) by (auto simp: maps)
      then show ?thesis using False handles_okD(3) [OF ok, of g e] by simp
    qed
    fix u v e f g assume "map_of (handle_map u ?s) e = Some g \<and> map_of (handle_map v ?s) f = Some g"
    then show "u = v" "e = f" using handles_okD(4) [OF ok] fresh by (auto simp: maps split: if_splits)
  qed
  then show ?thesis
    using d by (intro exI [of _ ?s]) (simp add: Handle_Create_def Let_def Handle_GetInstance_def map_of_put [OF keys])
qed

lemma DestroyHandle_ok:
  assumes ok: "handles_ok s" and h: "map_of (handle_map t s) d = Some h"
  shows "\<exists>s'. DestroyHandle t h s = Inr s' \<and> handles_ok s' \<and> th_live s' = (th_live s)(h := None) \<and>
    (\<forall>u e. map_of (handle_map u s') e = (if u = t \<and> e = d then None else map_of (handle_map u s) e))"
proof -
  obtain m where m: "th_maps s t = Some m" "map_of m d = Some h"
    using h by (cases "th_maps s t") (auto simp: handle_map_def)
  have live: "th_live s h = Some d" using handles_okD(3) [OF ok] h by blast
  let ?m = "map_erase d m"
  let ?s = "s\<lparr>th_live := (th_live s)(h := None), th_maps := (th_maps s)(t := if ?m = [] then None else Some ?m)\<rparr>"
  have hm: "handle_map u ?s = (if u = t then ?m else handle_map u s)" for u by (cases "?m") (auto simp: handle_map_def)
  have maps: "map_of (handle_map u ?s) = (if u = t then (map_of (handle_map t s))(d := None) else map_of (handle_map u s))" for u
    using m(1) by (simp only: hm) (simp add: map_of_erase handle_map_def del: fun_upd_apply)
  have "handles_ok ?s"
    unfolding handles_ok_def
  proof (intro conjI allI impI)
    show "th_maps ?s u \<noteq> Some []" for u using handles_okD(1) [OF ok] by simp
    show "map_keys_ok (handle_map u ?s)" for u
      using handles_okD(2) [OF ok, of u] handles_okD(2) [OF ok, of t] m(1)
      by (simp add: hm) (simp add: handle_map_def map_keys_ok_erase)
    show "th_live ?s g = Some e \<longleftrightarrow> (\<exists>u. map_of (handle_map u ?s) e = Some g)" for g e
    proof (cases "g = h")
      case True
      then show ?thesis using handles_okD(4) [OF ok h] by (auto simp: maps)
    next
      case False
      then have "map_of (handle_map u ?s) e = Some g \<longleftrightarrow> map_of (handle_map u s) e = Some g" for u
        using h by (auto simp: maps)
      then show ?thesis using False handles_okD(3) [OF ok, of g e] by simp
    qed
    fix u v e f g assume "map_of (handle_map u ?s) e = Some g \<and> map_of (handle_map v ?s) f = Some g"
    then show "u = v" "e = f" using handles_okD(4) [OF ok] by (auto simp: maps split: if_splits)
  qed
  then show ?thesis using m live maps by (intro exI [of _ ?s]) (auto simp: DestroyHandle_def Let_def)
qed

lemma ThreadHandles_Observe_ok:
  assumes "handles_ok s"
  shows "\<exists>s'. ThreadHandles_Observe d t s = Inr s' \<and> handles_ok s' \<and>
    (\<forall>h. th_live s' h = (if map_of (handle_map t s) d = Some h then None else th_live s h)) \<and>
    (\<forall>u e. map_of (handle_map u s') e = (if u = t \<and> e = d then None else map_of (handle_map u s) e))"
proof (cases "map_of (handle_map t s) d")
  case None
  then show ?thesis using assms by (simp add: ThreadHandles_Observe_def)
next
  case (Some h)
  then show ?thesis using DestroyHandle_ok [OF assms Some] by (auto simp: ThreadHandles_Observe_def)
qed


definition sample_handles :: ThreadHandles where
  "sample_handles =
     \<lparr>th_maps = [1 \<mapsto> [(10, 100), (20, 101)], 2 \<mapsto> [(10, 102)]], th_live = [100 \<mapsto> 10, 101 \<mapsto> 20, 102 \<mapsto> 10]\<rparr>"

lemma sample_handles_ok: "handles_ok sample_handles"
proof -
  have "handle_map t sample_handles = (if t = 1 then [(10, 100), (20, 101)] else if t = 2 then [(10, 102)] else [])" for t
    by (simp add: handle_map_def sample_handles_def)
  then show ?thesis by (auto simp: handles_ok_def sample_handles_def split: if_splits)
qed


end
