(* ===== verification/Calc_Manager.thy ===== *)
theory Calc_Manager
  imports Calc_Executer
begin

text \<open>
  \<open>ChnlCalcManager\<close> (canscope/osc_chnl_calc/chnl_calc_manager.h, chnl_calc_manager.cc): it takes the raw data in the
  order of collection and runs one calculation at a time on one of two executers, the one for the channels or the
  one for the user interface, and reports the results to its delegate.

  The manager lives on one thread, which also runs the loop of its tasks.  A task is the one that the executer keeps
  which was given it last; \<open>mg_current_task\<close> tells which executer that is (True: the user interface's).
  A result is the number of its making and the raw data it is made for.  \<open>mg_calls\<close> are the calls on the
  delegate; what the delegate answers to \<open>CalcForUI\<close> is the argument \<open>for_ui\<close>.
\<close>

type_synonym 'r calc_result = "nat \<times> 'r"

datatype 'r delegate_call = RecordResult "'r calc_result option" | MayNotifyUI "'r calc_result option"

record 'r ChnlCalcManager =
  mg_chnl_calc :: "Executer option"
  mg_ui_calc :: "Executer option"
  mg_calc_result :: "'r calc_result option"
  mg_current_task :: "bool option"
  mg_is_ui_calc :: bool
  mg_raw_data_queue :: "'r list"
  mg_current_raw_data :: "'r option"
  mg_made :: nat
  mg_calls :: "'r delegate_call list"

definition ChnlCalcManager_new :: "'r ChnlCalcManager" where
  "ChnlCalcManager_new =
     \<lparr>mg_chnl_calc = None, mg_ui_calc = None, mg_calc_result = None, mg_current_task = None, mg_is_ui_calc = False,
      mg_raw_data_queue = [], mg_current_raw_data = None, mg_made = 0, mg_calls = []\<rparr>"

text \<open>The manager as an observer of tasks.\<close>

definition the_manager :: ptr where "the_manager = 1"

definition calc_of :: "bool \<Rightarrow> 'r ChnlCalcManager \<Rightarrow> Executer option" where
  "calc_of ui m = (if ui then mg_ui_calc m else mg_chnl_calc m)"

definition put_calc :: "bool \<Rightarrow> Executer \<Rightarrow> 'r ChnlCalcManager \<Rightarrow> 'r ChnlCalcManager" where
  "put_calc ui e m = (if ui then m\<lparr>mg_ui_calc := Some e\<rparr> else m\<lparr>mg_chnl_calc := Some e\<rparr>)"

definition with_calc :: "bool \<Rightarrow> 'r ChnlCalcManager \<Rightarrow> (Executer \<Rightarrow> 'a res) \<Rightarrow> 'a res" where
  "with_calc ui m f = (case calc_of ui m of None \<Rightarrow> Inl Undefined | Some e \<Rightarrow> f e)"

definition SetChnlCalc :: "items \<Rightarrow> CalcGroup \<Rightarrow> 'r ChnlCalcManager \<Rightarrow> 'r ChnlCalcManager" where
  "SetChnlCalc h g m = m\<lparr>mg_chnl_calc := Some (Executer_new h g)\<rparr>"

definition SetUICalc :: "items \<Rightarrow> CalcGroup \<Rightarrow> 'r ChnlCalcManager \<Rightarrow> 'r ChnlCalcManager" where
  "SetUICalc h g m = m\<lparr>mg_ui_calc := Some (Executer_new h g)\<rparr>"

definition on_current_task :: "(AsyncTask \<Rightarrow> AsyncTask res) \<Rightarrow> 'r ChnlCalcManager \<Rightarrow> 'r ChnlCalcManager res" where
  "on_current_task f m =
     (case mg_current_task m of
        None \<Rightarrow> Inr m
      | Some ui \<Rightarrow>
          with_calc ui m (\<lambda>e. and_then (f (ex_task e)) (\<lambda>t. Inr (put_calc ui (e\<lparr>ex_task := t\<rparr>) m))))"

definition Manager_destroy :: "'r ChnlCalcManager \<Rightarrow> 'r ChnlCalcManager res" where
  "Manager_destroy m = on_current_task (\<lambda>t. Inr (Task_RemoveObserver the_manager t)) m"

definition Manager_Cancel :: "'r ChnlCalcManager \<Rightarrow> 'r ChnlCalcManager res" where
  "Manager_Cancel m = on_current_task (\<lambda>t. Inr (Task_Cancel (Task_RemoveObserver the_manager t))) m"

definition Manager_StartRun ::
  "(items \<Rightarrow> ptr) \<Rightarrow> bool \<Rightarrow> bool \<Rightarrow> 'r ChnlCalcManager \<Rightarrow> 'r ChnlCalcManager res" where
  "Manager_StartRun fresh force_ui for_ui m =
     and_then (on_current_task (\<lambda>t.
       let t = Task_RemoveObserver the_manager t in DCHECK (at_status t \<noteq> kRunning) (Inr t)) m) (\<lambda>m.
     and_then (Task_AddObserver the_manager AsyncTask_new) (\<lambda>task.
     let ui = (if \<not> force_ui then for_ui else True) in
     case mg_current_raw_data m of
       None \<Rightarrow> Inl Undefined
     | Some raw \<Rightarrow>
         let m = m\<lparr>mg_current_task := Some ui, mg_is_ui_calc := ui, mg_made := Suc (mg_made m),
                   mg_calc_result := Some (Suc (mg_made m), raw)\<rparr> in
         with_calc ui m (\<lambda>e.
         and_then (set_delegate e) (\<lambda>e.
         and_then (StartRun fresh task e) (\<lambda>e. Inr (put_calc ui e m))))))"

text \<open>Whether the current task is ready or running.\<close>

definition task_pending :: "'r ChnlCalcManager \<Rightarrow> bool" where
  "task_pending m =
     (case mg_current_task m of
        None \<Rightarrow> False
      | Some ui \<Rightarrow>
          (case calc_of ui m of None \<Rightarrow> False
           | Some e \<Rightarrow> at_status (ex_task e) = kNoStart \<or> at_status (ex_task e) = kRunning))"

definition ProcessRaw :: "(items \<Rightarrow> ptr) \<Rightarrow> bool \<Rightarrow> 'r ChnlCalcManager \<Rightarrow> 'r ChnlCalcManager res" where
  "ProcessRaw fresh for_ui m =
     (if task_pending m then Inr m
      else
        case mg_raw_data_queue m of
          [] \<Rightarrow> Inr m
        | raw # queue \<Rightarrow>
            Manager_StartRun fresh False for_ui (m\<lparr>mg_current_raw_data := Some raw, mg_raw_data_queue := queue\<rparr>))"

definition RawDataCollected :: "(items \<Rightarrow> ptr) \<Rightarrow> 'r \<Rightarrow> bool \<Rightarrow> 'r ChnlCalcManager \<Rightarrow> 'r ChnlCalcManager res" where
  "RawDataCollected fresh raw for_ui m =
     ProcessRaw fresh for_ui (m\<lparr>mg_raw_data_queue := mg_raw_data_queue m @ [raw]\<rparr>)"

definition ReProcessRawForUI :: "(items \<Rightarrow> ptr) \<Rightarrow> 'r ChnlCalcManager \<Rightarrow> 'r ChnlCalcManager res" where
  "ReProcessRawForUI fresh m =
     (if mg_current_raw_data m = None then Inr m
      else and_then (Manager_Cancel m) (Manager_StartRun fresh True False))"

definition Manager_OnAsyncTaskFinish ::
  "(items \<Rightarrow> ptr) \<Rightarrow> bool \<Rightarrow> bool \<Rightarrow> 'r ChnlCalcManager \<Rightarrow> 'r ChnlCalcManager res" where
  "Manager_OnAsyncTaskFinish fresh task for_ui m =
     DCHECK (mg_current_task m = Some task) (
     let is_ui_calc = mg_is_ui_calc m in
     and_then (ProcessRaw fresh for_ui m) (\<lambda>m.
       Inr (m\<lparr>mg_calls := mg_calls m @ [RecordResult (mg_calc_result m)] @
                 (if is_ui_calc then [MayNotifyUI (mg_calc_result m)] else [])\<rparr>)))"

text \<open>Whether the loop has called the manager with the end of a task.\<close>

definition finish_called :: "AsyncTask \<Rightarrow> AsyncTask \<Rightarrow> bool" where
  "finish_called t t' \<longleftrightarrow>
     list_ex (\<lambda>e. case e of OnFinish obs st \<Rightarrow> obs = the_manager | _ \<Rightarrow> False)
       (drop (length (at_events t)) (at_events t'))"

definition Manager_loop_once ::
  "(items \<Rightarrow> ptr) \<Rightarrow> bool \<Rightarrow> bool \<Rightarrow> 'r ChnlCalcManager \<Rightarrow> 'r ChnlCalcManager res" where
  "Manager_loop_once fresh ui for_ui m =
     with_calc ui m (\<lambda>e.
     and_then (run_loop_once (ex_task e)) (\<lambda>t.
     let m = put_calc ui (e\<lparr>ex_task := t\<rparr>) m in
     if finish_called (ex_task e) t then Manager_OnAsyncTaskFinish fresh ui for_ui m else Inr m))"

subsection \<open>The threads\<close>

text \<open>Raw data comes, the threads of the pool take steps for one of the executers, and the manager's thread runs the
  loop.  The items of the channels never fail.\<close>

datatype 'r mg_action =
    Collects 'r bool
  | PoolStarts bool
  | PoolBegins bool ptr
  | PoolEnds bool ptr
  | LoopOf bool bool

definition pool_step :: "(items \<Rightarrow> ptr) \<Rightarrow> bool \<Rightarrow> exec_action \<Rightarrow> 'r ChnlCalcManager \<Rightarrow> 'r ChnlCalcManager res" where
  "pool_step fresh ui a m =
     with_calc ui m (\<lambda>e. and_then (exec fresh AsyncTask_new a e) (\<lambda>e. Inr (put_calc ui e m)))"

fun mg_exec :: "(items \<Rightarrow> ptr) \<Rightarrow> 'r mg_action \<Rightarrow> 'r ChnlCalcManager \<Rightarrow> 'r ChnlCalcManager res" where
  "mg_exec fresh (Collects raw for_ui) m = RawDataCollected fresh raw for_ui m"
| "mg_exec fresh (PoolStarts ui) m = pool_step fresh ui DoStartAll m"
| "mg_exec fresh (PoolBegins ui p) m = pool_step fresh ui (DoBegin p) m"
| "mg_exec fresh (PoolEnds ui p) m = pool_step fresh ui (DoEnd p True) m"
| "mg_exec fresh (LoopOf ui for_ui) m = Manager_loop_once fresh ui for_ui m"

definition pool_can :: "bool \<Rightarrow> exec_action \<Rightarrow> 'r ChnlCalcManager \<Rightarrow> bool" where
  "pool_can ui a m = (case calc_of ui m of None \<Rightarrow> False | Some e \<Rightarrow> can a e)"

fun mg_can :: "'r mg_action \<Rightarrow> 'r ChnlCalcManager \<Rightarrow> bool" where
  "mg_can (Collects raw for_ui) m \<longleftrightarrow> True"
| "mg_can (PoolStarts ui) m \<longleftrightarrow> pool_can ui DoStartAll m"
| "mg_can (PoolBegins ui p) m \<longleftrightarrow> pool_can ui (DoBegin p) m"
| "mg_can (PoolEnds ui p) m \<longleftrightarrow> pool_can ui (DoEnd p True) m"
| "mg_can (LoopOf ui for_ui) m \<longleftrightarrow> True"

fun collected :: "'r mg_action list \<Rightarrow> 'r list" where
  "collected [] = []"
| "collected (Collects raw for_ui # as) = raw # collected as"
| "collected (a # as) = collected as"

inductive mg_reach ::
  "(items \<Rightarrow> ptr) \<Rightarrow> 'r ChnlCalcManager \<Rightarrow> 'r list \<Rightarrow> 'r ChnlCalcManager \<Rightarrow> bool" for fresh m0 where
  mg_start: "mg_reach fresh m0 [] m0"
| mg_next: "mg_reach fresh m0 cs m \<Longrightarrow> mg_can a m \<Longrightarrow> mg_exec fresh a m = Inr m' \<Longrightarrow>
    mg_reach fresh m0 (cs @ collected [a]) m'"

subsection \<open>Executers at rest and at work\<close>

definition at_rest :: "Executer \<Rightarrow> bool" where
  "at_rest e \<longleftrightarrow>
     (\<exists>t. exec_inv (e\<lparr>ex_task := t\<rparr>) \<and> \<not> UserCancel t) \<and> ex_notify_end e \<and> ex_posted e = [] \<and> ex_running e = [] \<and>
     \<not> UserCancel (ex_task e) \<and> at_queue (ex_task e) = []"

definition at_work :: "Executer \<Rightarrow> bool" where
  "at_work e \<longleftrightarrow>
     exec_inv e \<and> ex_walker e \<noteq> None \<and> \<not> UserCancel (ex_task e) \<and> at_observers (ex_task e) = [the_manager]"

definition pending :: "AsyncTask \<Rightarrow> bool" where
  "pending t \<longleftrightarrow> at_status t = kNoStart \<or> at_status t = kRunning"

text \<open>A task with a start and perhaps an end, of which the loop has delivered some.\<close>

lemma task_shape:
  assumes "follows os cs t" and "cs = [CallStart] \<or> cs = [CallStart, CallFinish st]"
    and "st = kCancel \<or> st = kFinish"
  obtains "at_status t = kNoStart" "map posted_call (at_queue t) = cs"
  | "at_status t = kRunning" "cs = CallStart # map posted_call (at_queue t)"
  | "at_status t = st" "at_queue t = []" "cs = [CallStart, CallFinish st]"
proof -
  obtain dn where dn: "cs = dn @ map posted_call (at_queue t)" "protocol kNoStart dn = Some (at_status t)"
    using assms(1) by (auto simp: follows_def)
  consider "dn = []" | "dn = [CallStart]" | "dn = [CallStart, CallFinish st]" "cs = dn"
    using dn(1) assms(2) by (auto simp: append_eq_Cons_conv Cons_eq_append_conv)
  then show ?thesis
  proof cases
    case 1
    then show ?thesis using dn that(1) by simp
  next
    case 2
    then show ?thesis using dn that(2) by simp
  next
    case 3
    then have "at_status t = st" using dn(2) assms(3) by auto
    then show ?thesis using 3 dn(1) that(3) by simp
  qed
qed

lemma posted_call_inj [simp]: "posted_call p = CallStart \<longleftrightarrow> p = StartImpl"
  "posted_call p = CallFinish st \<longleftrightarrow> p = FinishImpl st"
  by (cases p; simp)+

lemma at_work_calls:
  assumes "at_work e"
  obtains st cs where "follows [the_manager] cs (ex_task e)" "st = kCancel \<or> st = kFinish"
    "cs = (if ex_notify_end e then [CallStart, CallFinish st] else [CallStart])"
proof -
  obtain cs where cs: "task_calls e cs" "follows [the_manager] cs (ex_task e)"
    using assms exec_invD(3) [of e] unfolding at_work_def by auto
  then show ?thesis
    using assms that [of cs] unfolding at_work_def task_calls_def by (auto split: if_splits)
qed

text \<open>The loop of a task at work: the manager is called exactly when the task ends.\<close>

lemma at_work_loop:
  assumes "at_work e"
  obtains t where "run_loop_once (ex_task e) = Inr t" "at_work (e\<lparr>ex_task := t\<rparr>)"
    "finish_called (ex_task e) t \<longleftrightarrow> pending (ex_task e) \<and> \<not> pending t" "\<not> pending (ex_task e) \<Longrightarrow> t = ex_task e"
proof -
  obtain t where t: "run_loop_once (ex_task e) = Inr t" "exec_inv (e\<lparr>ex_task := t\<rparr>)"
    using owner_inv [of e] assms unfolding at_work_def by blast
  obtain st cs where c: "follows [the_manager] cs (ex_task e)" "st = kCancel \<or> st = kFinish"
    "cs = (if ex_notify_end e then [CallStart, CallFinish st] else [CallStart])"
    by (rule at_work_calls [OF assms])
  have obs: "at_observers (ex_task e) = [the_manager]" using assms by (simp add: at_work_def)
  have cs: "cs = [CallStart] \<or> cs = [CallStart, CallFinish st]" using c(3) by auto
  have "at_observers t = [the_manager] \<and> (finish_called (ex_task e) t \<longleftrightarrow> pending (ex_task e) \<and> \<not> pending t) \<and>
      (\<not> pending (ex_task e) \<longrightarrow> t = ex_task e)"
  proof (rule task_shape [OF c(1) cs c(2)])
    assume s: "at_status (ex_task e) = kNoStart" "map posted_call (at_queue (ex_task e)) = cs"
    then obtain q where "at_queue (ex_task e) = StartImpl # q" using cs by auto
    then show ?thesis using t(1) s(1) obs
      by (auto simp: run_loop_once_def NotifyStartImpl_def call_observers_def finish_called_def pending_def)
  next
    assume s: "at_status (ex_task e) = kRunning" "cs = CallStart # map posted_call (at_queue (ex_task e))"
    then consider "at_queue (ex_task e) = []" | "at_queue (ex_task e) = [FinishImpl st]" using cs by auto
    then show ?thesis using t(1) s(1) obs c(2)
      by cases (auto simp: run_loop_once_def NotifyFinishImpl_def call_observers_def finish_called_def pending_def)
  next
    assume s: "at_status (ex_task e) = st" "at_queue (ex_task e) = []"
    then show ?thesis using t(1) obs c(2) by (auto simp: run_loop_once_def finish_called_def pending_def)
  qed
  moreover have "UserCancel t = UserCancel (ex_task e)" by (rule run_loop_UserCancel [OF t(1)])
  ultimately show ?thesis using assms t by (intro that [of t]) (simp_all add: at_work_def)
qed

text \<open>An executer whose task has ended is at rest, also when the manager does not observe the task any more.\<close>

lemma at_work_ended:
  assumes "at_work e" and "\<not> pending (ex_task e)"
  shows "at_rest (e\<lparr>ex_task := Task_RemoveObserver the_manager (ex_task e)\<rparr>)" "at_status (ex_task e) \<noteq> kRunning"
proof -
  obtain st cs where c: "follows [the_manager] cs (ex_task e)" "st = kCancel \<or> st = kFinish"
    "cs = (if ex_notify_end e then [CallStart, CallFinish st] else [CallStart])"
    by (rule at_work_calls [OF assms(1)])
  have cs: "cs = [CallStart] \<or> cs = [CallStart, CallFinish st]" using c(3) by auto
  have q: "at_queue (ex_task e) = []" "ex_notify_end e"
    by (rule task_shape [OF c(1) cs c(2)]; use assms(2) c(3) in \<open>auto simp: pending_def split: if_splits\<close>)+
  have w: "exec_inv e" "ex_walker e \<noteq> None" "\<not> UserCancel (ex_task e)" using assms(1) by (simp_all add: at_work_def)
  then obtain w where w': "ex_walker e = Some w" by blast
  note s = walker_stateD [OF exec_invD(7) [OF w(1) w']]
  have "ex_posted e @ ex_running e = []" using s(5,8) w(3) q(2) by (simp add: Walker_Finish_def)
  then show "at_rest (e\<lparr>ex_task := Task_RemoveObserver the_manager (ex_task e)\<rparr>)"
    using w q by (auto simp: at_rest_def Task_RemoveObserver_def UserCancel_def intro!: exI [of _ "ex_task e"])
  show "at_status (ex_task e) \<noteq> kRunning" using assms(2) by (simp add: pending_def)
qed

lemma at_rest_new:
  assumes "group_ok (h, g)" and "acyclic (set (cg_edges g))"
  shows "at_rest (Executer_new h g)"
proof -
  have "follows [] [] AsyncTask_new" by (simp add: follows_def AsyncTask_new_def call_events_def)
  then have "\<exists>cs. task_calls (Executer_new h g) cs \<and> follows [] cs AsyncTask_new"
    by (intro exI [of _ "[]"]) (simp add: task_calls_def Executer_new_def)
  then have "exec_inv ((Executer_new h g)\<lparr>ex_task := AsyncTask_new\<rparr>)"
    using assms by (simp add: exec_inv_def Executer_new_def AsyncTask_new_def)
  moreover have "\<not> UserCancel AsyncTask_new" by (simp add: UserCancel_def AsyncTask_new_def)
  ultimately show ?thesis unfolding at_rest_def by (auto simp: Executer_new_def AsyncTask_new_def)
qed

lemma StartRun_task: "StartRun fresh task (e\<lparr>ex_task := t\<rparr>) = StartRun fresh task e"
  by (simp add: StartRun_def)

lemma StartRun_fields:
  assumes "StartRun fresh task e = Inr e'"
  shows "at_observers (ex_task e') = at_observers task" "UserCancel (ex_task e') = UserCancel task"
    "ex_walker e' \<noteq> None" "at_status (ex_task e') = at_status task"
  using assms
  by (auto simp: StartRun_def Executer_Reset_def with_walker_def Let_def NotifyStart_def NotifyFinish_def PostTask_def
      UserCancel_def split: if_splits)

definition manager_task :: AsyncTask where
  "manager_task = AsyncTask_new\<lparr>at_observers := [the_manager]\<rparr>"

lemma StartRun_at_rest:
  assumes "allocates fresh" and "at_rest e"
  obtains e1 e2 where "set_delegate e = Inr e1" "StartRun fresh manager_task e1 = Inr e2" "at_work e2"
    "pending (ex_task e2)"
proof -
  obtain t where t: "exec_inv (e\<lparr>ex_task := t\<rparr>)" "\<not> UserCancel t" using assms(2) by (auto simp: at_rest_def)
  let ?e1 = "e\<lparr>ex_delegate := True\<rparr>"
  have "exec_inv (?e1\<lparr>ex_task := t\<rparr>)"
  proof -
    have "walker_state (e\<lparr>ex_delegate := True, ex_task := t\<rparr>) w = walker_state (e\<lparr>ex_task := t\<rparr>) w" for w
      by (simp add: walker_state_def)
    then show ?thesis using t(1) unfolding exec_inv_def task_calls_def by (cases "ex_walker e") simp_all
  qed
  moreover have "can DoStartRun (?e1\<lparr>ex_task := t\<rparr>)" using assms(2) by (simp add: at_rest_def)
  moreover have "fresh_task manager_task" by (simp add: fresh_task_def manager_task_def AsyncTask_new_def)
  ultimately obtain e2 where e2: "StartRun fresh manager_task (?e1\<lparr>ex_task := t\<rparr>) = Inr e2" "exec_inv e2"
    by (rule StartRun_inv [OF assms(1)])
  have run: "StartRun fresh manager_task ?e1 = Inr e2" using e2(1) by (simp only: StartRun_task)
  note f = StartRun_fields [OF run]
  have "set_delegate e = Inr ?e1" using assms(2) by (simp add: set_delegate_def at_rest_def)
  moreover have "at_work e2" "pending (ex_task e2)"
    using e2(2) f by (simp_all add: at_work_def pending_def manager_task_def AsyncTask_new_def UserCancel_def)
  ultimately show ?thesis using run by (intro that)
qed

lemma with_walkerE:
  assumes "with_walker e f = Inr x"
  obtains w where "ex_walker e = Some w" "f w = Inr x"
  using assms by (auto simp: with_walker_def split: option.splits)

text \<open>What a step of the pool does to the task: at most an end is posted.\<close>

lemma pool_step_fields:
  assumes "exec fresh task a e = Inr e'" and "a = DoStartAll \<or> a = DoBegin p \<or> a = DoEnd p r"
  shows "(ex_walker e \<noteq> None \<longrightarrow> ex_walker e' \<noteq> None) \<and> at_observers (ex_task e') = at_observers (ex_task e) \<and>
    UserCancel (ex_task e') = UserCancel (ex_task e) \<and> at_status (ex_task e') = at_status (ex_task e) \<and>
    (ex_walker e' = None \<longrightarrow> ex_walker e = None)"
  using assms(2)
proof (elim disjE)
  assume "a = DoStartAll"
  then show ?thesis using assms(1)
    by (auto simp: StartAllRunnable_def notify_canceled_def NotifyCancel_def PostTask_def UserCancel_def Let_def
        StartAll_def elim!: with_walkerE split: if_splits)
next
  assume "a = DoBegin p"
  then show ?thesis using assms(1)
    by (auto simp: RunItem_begin_def notify_canceled_def NotifyCancel_def PostTask_def UserCancel_def Let_def
        split: if_splits)
next
  assume "a = DoEnd p r"
  then show ?thesis using assms(1)
    by (auto simp: RunItem_end_def NotifyFinish_def PostTask_def UserCancel_def Let_def
        elim!: with_walkerE split: if_splits)
qed

lemma at_work_pool:
  assumes "allocates fresh" and "at_work e" and "can a e" and "a = DoStartAll \<or> a = DoBegin p \<or> a = DoEnd p True"
  obtains e' where "exec fresh AsyncTask_new a e = Inr e'" "at_work e'" "at_status (ex_task e') = at_status (ex_task e)"
proof -
  have "fresh_task AsyncTask_new" by (simp add: fresh_task_def AsyncTask_new_def)
  then obtain e' where e': "exec fresh AsyncTask_new a e = Inr e'" "exec_inv e'"
    using exec_step_inv [OF assms(1) _ assms(3)] assms(2,4) unfolding at_work_def by blast
  then show ?thesis using that pool_step_fields [OF e'(1) assms(4)] assms(2) by (simp add: at_work_def)
qed

text \<open>A thread that comes late to an executer at rest finds nothing to start.\<close>

lemma at_rest_pool:
  assumes "at_rest e" and "can a e" and "a = DoStartAll \<or> a = DoBegin p \<or> a = DoEnd p True"
  obtains e' where "exec fresh AsyncTask_new a e = Inr e'" "at_rest e'"
proof -
  have a: "a = DoStartAll" "ex_starting e > 0" using assms by (auto simp: at_rest_def)
  obtain t where t: "exec_inv (e\<lparr>ex_task := t\<rparr>)" "\<not> UserCancel t" using assms(1) by (auto simp: at_rest_def)
  obtain w where w: "ex_walker e = Some w" using exec_invD(6) [OF t(1)] a(2) by fastforce
  have ws: "walker_state (e\<lparr>ex_task := t\<rparr>) w" using exec_invD(7) [OF t(1)] w by simp
  have "cw_runnable w = []"
    using walker_stateD(8) [OF ws] t(2) assms(1) by (simp add: at_rest_def Walker_Finish_def)
  then have run: "StartAllRunnable e = Inr (e\<lparr>ex_starting := ex_starting e - 1\<rparr>)"
    using assms(1) w by (simp add: StartAllRunnable_def Let_def at_rest_def with_walker_def StartAll_def)
  have "StartAllRunnable (e\<lparr>ex_task := t\<rparr>) = Inr (e\<lparr>ex_task := t, ex_starting := ex_starting e - 1\<rparr>)"
    using t(2) w \<open>cw_runnable w = []\<close> by (simp add: StartAllRunnable_def Let_def with_walker_def StartAll_def)
  moreover obtain e' where "StartAllRunnable (e\<lparr>ex_task := t\<rparr>) = Inr e'" "exec_inv e'"
    by (rule StartAllRunnable_inv [OF t(1)]) (use a(2) in simp)
  moreover have "e\<lparr>ex_task := t, ex_starting := ex_starting e - 1\<rparr> = e\<lparr>ex_starting := ex_starting e - 1, ex_task := t\<rparr>"
    by (cases e) simp
  ultimately have "exec_inv (e\<lparr>ex_starting := ex_starting e - 1, ex_task := t\<rparr>)" by (metis sum.inject(2))
  then have "at_rest (e\<lparr>ex_starting := ex_starting e - 1\<rparr>)"
    using assms(1) t(2) unfolding at_rest_def by (auto intro!: exI [of _ t])
  with run a(1) show ?thesis by (intro that) simp_all
qed

lemma at_rest_loop: "at_rest e \<Longrightarrow> run_loop_once (ex_task e) = Inr (ex_task e)"
  by (simp add: at_rest_def run_loop_once_def)

subsection \<open>The manager's invariant\<close>

lemma put_calc_simps [simp]:
  "calc_of u (put_calc ui e m) = (if u = ui then Some e else calc_of u m)"
  "mg_calc_result (put_calc ui e m) = mg_calc_result m" "mg_current_task (put_calc ui e m) = mg_current_task m"
  "mg_is_ui_calc (put_calc ui e m) = mg_is_ui_calc m" "mg_raw_data_queue (put_calc ui e m) = mg_raw_data_queue m"
  "mg_current_raw_data (put_calc ui e m) = mg_current_raw_data m" "mg_made (put_calc ui e m) = mg_made m"
  "mg_calls (put_calc ui e m) = mg_calls m"
  by (simp_all add: calc_of_def put_calc_def)

lemma calc_of_simps [simp]:
  "calc_of u (m\<lparr>mg_calc_result := r\<rparr>) = calc_of u m" "calc_of u (m\<lparr>mg_current_task := t\<rparr>) = calc_of u m"
  "calc_of u (m\<lparr>mg_is_ui_calc := b\<rparr>) = calc_of u m" "calc_of u (m\<lparr>mg_raw_data_queue := q\<rparr>) = calc_of u m"
  "calc_of u (m\<lparr>mg_current_raw_data := x\<rparr>) = calc_of u m" "calc_of u (m\<lparr>mg_made := k\<rparr>) = calc_of u m"
  "calc_of u (m\<lparr>mg_calls := cs\<rparr>) = calc_of u m"
  by (simp_all add: calc_of_def)

text \<open>No calculation is under way.\<close>

definition calc_ended :: "'r ChnlCalcManager \<Rightarrow> bool" where
  "calc_ended m \<longleftrightarrow>
     (\<forall>ui. \<exists>e. calc_of ui m = Some e \<and>
        (if mg_current_task m = Some ui then at_work e \<and> \<not> pending (ex_task e) else at_rest e))"

lemma calc_endedD:
  assumes "calc_ended m" and "mg_current_task m = Some ui"
  shows "\<exists>e. calc_of ui m = Some e \<and> at_work e \<and> \<not> pending (ex_task e)" "\<exists>e. calc_of (\<not> ui) m = Some e \<and> at_rest e"
  using assms(1) [unfolded calc_ended_def, rule_format, of ui] assms(1) [unfolded calc_ended_def, rule_format, of "\<not> ui"]
    assms(2) by simp_all

lemma Manager_StartRun_ok:
  assumes "allocates fresh" and "calc_ended m" and "mg_current_raw_data m = Some raw"
  obtains m' e where "Manager_StartRun fresh False for_ui m = Inr m'" "calc_of for_ui m' = Some e" "at_work e"
    "pending (ex_task e)" "\<exists>e. calc_of (\<not> for_ui) m' = Some e \<and> at_rest e" "mg_current_task m' = Some for_ui"
    "mg_is_ui_calc m' = for_ui" "mg_made m' = Suc (mg_made m)" "mg_calc_result m' = Some (Suc (mg_made m), raw)"
    "mg_raw_data_queue m' = mg_raw_data_queue m" "mg_current_raw_data m' = Some raw" "mg_calls m' = mg_calls m"
proof -
  let ?f = "\<lambda>t. let t = Task_RemoveObserver the_manager t in DCHECK (at_status t \<noteq> kRunning) (Inr t)"
  have "\<exists>m1. on_current_task ?f m = Inr m1 \<and> (\<forall>ui. \<exists>e. calc_of ui m1 = Some e \<and> at_rest e) \<and>
      mg_made m1 = mg_made m \<and> mg_raw_data_queue m1 = mg_raw_data_queue m \<and>
      mg_current_raw_data m1 = mg_current_raw_data m \<and> mg_calls m1 = mg_calls m"
  proof (cases "mg_current_task m")
    case None
    then show ?thesis using assms(2) by (simp add: on_current_task_def calc_ended_def)
  next
    case (Some ui)
    obtain e where e: "calc_of ui m = Some e" "at_work e" "\<not> pending (ex_task e)"
      using calc_endedD(1) [OF assms(2) Some] by auto
    note other = calc_endedD(2) [OF assms(2) Some]
    let ?t = "Task_RemoveObserver the_manager (ex_task e)"
    have "at_status ?t \<noteq> kRunning" using e(3) by (simp add: pending_def Task_RemoveObserver_def)
    then have "on_current_task ?f m = Inr (put_calc ui (e\<lparr>ex_task := ?t\<rparr>) m)"
      using e(1) Some by (simp add: on_current_task_def with_calc_def Let_def)
    moreover have "\<exists>e'. calc_of u (put_calc ui (e\<lparr>ex_task := ?t\<rparr>) m) = Some e' \<and> at_rest e'" for u
      using at_work_ended(1) [OF e(2,3)] other by (cases "u = ui") auto
    ultimately show ?thesis by simp
  qed
  then obtain m1 where m1: "on_current_task ?f m = Inr m1" "\<forall>ui. \<exists>e. calc_of ui m1 = Some e \<and> at_rest e"
    "mg_made m1 = mg_made m" "mg_raw_data_queue m1 = mg_raw_data_queue m"
    "mg_current_raw_data m1 = mg_current_raw_data m" "mg_calls m1 = mg_calls m" by blast
  obtain e where e: "calc_of for_ui m1 = Some e" "at_rest e" using m1(2) by blast
  obtain e1 e2 where run: "set_delegate e = Inr e1" "StartRun fresh manager_task e1 = Inr e2" "at_work e2"
    "pending (ex_task e2)"
    by (rule StartRun_at_rest [OF assms(1) e(2)])
  let ?m2 = "m1\<lparr>mg_current_task := Some for_ui, mg_is_ui_calc := for_ui, mg_made := Suc (mg_made m1),
    mg_calc_result := Some (Suc (mg_made m1), raw)\<rparr>"
  have "Task_AddObserver the_manager AsyncTask_new = Inr manager_task"
    by (simp add: Task_AddObserver_def AsyncTask_new_def manager_task_def)
  then have "Manager_StartRun fresh False for_ui m = Inr (put_calc for_ui e2 ?m2)"
    using m1(1,5) assms(3) e(1) run(1,2) by (simp add: Manager_StartRun_def with_calc_def)
  then show ?thesis
    by (rule that) (use run m1 assms(3) in simp_all)
qed

definition mg_inv :: "'r list \<Rightarrow> 'r ChnlCalcManager \<Rightarrow> bool" where
  "mg_inv cs m \<longleftrightarrow>
     mg_made m \<le> length cs \<and> mg_raw_data_queue m = drop (mg_made m) cs \<and>
     mg_calc_result m = (if mg_made m = 0 then None else Some (mg_made m, cs ! (mg_made m - 1))) \<and>
     (case mg_current_task m of
        None \<Rightarrow> cs = [] \<and> (\<forall>ui. \<exists>e. calc_of ui m = Some e \<and> at_rest e)
      | Some ui \<Rightarrow> mg_is_ui_calc m = ui \<and> mg_made m \<noteq> 0 \<and> (\<exists>e. calc_of (\<not> ui) m = Some e \<and> at_rest e) \<and>
          (\<exists>e. calc_of ui m = Some e \<and> at_work e \<and> (mg_raw_data_queue m \<noteq> [] \<longrightarrow> pending (ex_task e))))"

text \<open>Starting with the next raw data, if there is any and no calculation is under way.\<close>

lemma ProcessRaw_ok:
  assumes "allocates fresh" and "calc_ended m" and "mg_made m \<le> length cs" and "mg_raw_data_queue m = drop (mg_made m) cs"
    and "mg_calc_result m = (if mg_made m = 0 then None else Some (mg_made m, cs ! (mg_made m - 1)))"
    and "case mg_current_task m of None \<Rightarrow> cs \<noteq> [] | Some ui \<Rightarrow> mg_is_ui_calc m = ui \<and> mg_made m \<noteq> 0"
    and "mg_current_task m = None \<Longrightarrow> mg_made m = 0"
  obtains m' where "ProcessRaw fresh for_ui m = Inr m'" "mg_inv cs m'" "mg_calls m' = mg_calls m"
    "mg_made m' = (if mg_raw_data_queue m = [] then mg_made m else Suc (mg_made m))"
    "mg_current_task m' \<noteq> None" "mg_raw_data_queue m \<noteq> [] \<longrightarrow> task_pending m'"
proof -
  have idle: "\<not> task_pending m"
    using calc_endedD(1) [OF assms(2)] by (fastforce simp: task_pending_def pending_def split: option.splits)
  show ?thesis
  proof (cases "mg_raw_data_queue m")
    case Nil
    then have run: "ProcessRaw fresh for_ui m = Inr m" using idle by (simp add: ProcessRaw_def)
    obtain ui where ui: "mg_current_task m = Some ui"
      using assms(4,6,7) Nil by (cases "mg_current_task m") auto
    have "mg_inv cs m" unfolding mg_inv_def using calc_endedD [OF assms(2) ui] assms(3-6) ui Nil by auto
    then show ?thesis using run ui Nil by (intro that) auto
  next
    case (Cons raw queue)
    let ?m = "m\<lparr>mg_current_raw_data := Some raw, mg_raw_data_queue := queue\<rparr>"
    have len: "mg_made m < length cs" using Cons assms(4) by (metis drop_eq_Nil list.distinct(1) not_le)
    then have raw: "raw = cs ! mg_made m" "queue = drop (Suc (mg_made m)) cs"
      using Cons assms(4) by (simp_all add: Cons_nth_drop_Suc [symmetric])
    have ended: "calc_ended ?m" using assms(2) by (simp add: calc_ended_def)
    obtain m' e where m': "Manager_StartRun fresh False for_ui ?m = Inr m'" "calc_of for_ui m' = Some e" "at_work e"
      "pending (ex_task e)" "\<exists>e. calc_of (\<not> for_ui) m' = Some e \<and> at_rest e" "mg_current_task m' = Some for_ui"
      "mg_is_ui_calc m' = for_ui" "mg_made m' = Suc (mg_made ?m)" "mg_calc_result m' = Some (Suc (mg_made ?m), raw)"
      "mg_raw_data_queue m' = mg_raw_data_queue ?m" "mg_calls m' = mg_calls ?m"
      by (rule Manager_StartRun_ok [OF assms(1) ended]) simp_all
    have "ProcessRaw fresh for_ui m = Inr m'" using idle Cons m'(1) by (simp add: ProcessRaw_def)
    moreover have "task_pending m'" using m'(2,4,6) by (simp add: task_pending_def pending_def)
    moreover have "mg_inv cs m'" unfolding mg_inv_def using m' len raw by auto
    ultimately show ?thesis using m' Cons by (intro that) auto
  qed
qed

lemma mg_inv_cases:
  assumes "mg_inv cs m"
  obtains "mg_current_task m = None" "cs = []" "mg_made m = 0" "\<forall>ui. \<exists>e. calc_of ui m = Some e \<and> at_rest e"
  | ui e e' where "mg_current_task m = Some ui" "mg_is_ui_calc m = ui" "mg_made m \<noteq> 0" "calc_of ui m = Some e"
      "at_work e" "mg_raw_data_queue m \<noteq> [] \<Longrightarrow> pending (ex_task e)" "calc_of (\<not> ui) m = Some e'" "at_rest e'"
proof (cases "mg_current_task m")
  case None
  then have "cs = []" "\<forall>ui. \<exists>e. calc_of ui m = Some e \<and> at_rest e" using assms by (simp_all add: mg_inv_def)
  then show ?thesis using assms that(1) None by (simp add: mg_inv_def)
next
  case (Some ui)
  then have "mg_is_ui_calc m = ui" "mg_made m \<noteq> 0" "\<exists>e. calc_of (\<not> ui) m = Some e \<and> at_rest e"
    "\<exists>e. calc_of ui m = Some e \<and> at_work e \<and> (mg_raw_data_queue m \<noteq> [] \<longrightarrow> pending (ex_task e))"
    using assms unfolding mg_inv_def Some option.case by blast+
  with Some that(2) show ?thesis by blast
qed

lemma mg_inv_ended:
  assumes "mg_inv cs m" and "\<not> task_pending m"
  shows "calc_ended m"
  using assms(1)
proof (cases rule: mg_inv_cases)
  case 1
  then show ?thesis by (simp add: calc_ended_def)
next
  case (2 ui e e')
  then have "\<not> pending (ex_task e)" using assms(2) by (simp add: task_pending_def pending_def)
  then have "\<exists>e. calc_of u m = Some e \<and> (if mg_current_task m = Some u then at_work e \<and> \<not> pending (ex_task e) else at_rest e)" for u
    using 2 by (cases "u = ui") auto
  then show ?thesis by (simp add: calc_ended_def)
qed

lemma RawDataCollected_inv:
  assumes "allocates fresh" and inv: "mg_inv cs m"
  obtains m' where "RawDataCollected fresh raw for_ui m = Inr m'" "mg_inv (cs @ [raw]) m'"
proof -
  let ?m = "m\<lparr>mg_raw_data_queue := mg_raw_data_queue m @ [raw]\<rparr>"
  have base: "mg_made m \<le> length cs" "mg_raw_data_queue m = drop (mg_made m) cs"
    "mg_calc_result m = (if mg_made m = 0 then None else Some (mg_made m, cs ! (mg_made m - 1)))"
    using inv by (simp_all add: mg_inv_def)
  have nth: "(cs @ [raw]) ! (mg_made m - 1) = cs ! (mg_made m - 1)" if "mg_made m \<noteq> 0"
  proof -
    have "mg_made m - 1 < length cs" using base(1) that by simp
    then show ?thesis by (simp only: nth_append if_True)
  qed
  show ?thesis
  proof (cases "task_pending m")
    case True
    moreover have "task_pending ?m = task_pending m" by (simp add: task_pending_def split: option.split)
    ultimately have "ProcessRaw fresh for_ui ?m = Inr ?m" by (simp add: ProcessRaw_def)
    moreover have "mg_inv (cs @ [raw]) ?m"
      using inv
    proof (cases rule: mg_inv_cases)
      case 1
      then show ?thesis using True by (simp add: task_pending_def)
    next
      case (2 ui e e')
      then have "pending (ex_task e)" using True by (simp add: task_pending_def pending_def)
      then show ?thesis using 2 base nth by (simp add: mg_inv_def)
    qed
    ultimately show ?thesis by (intro that) (simp_all add: RawDataCollected_def)
  next
    case False
    have "calc_ended ?m" using mg_inv_ended [OF inv False] by (simp add: calc_ended_def)
    then obtain m' where "ProcessRaw fresh for_ui ?m = Inr m'" "mg_inv (cs @ [raw]) m'"
    proof (rule ProcessRaw_ok [OF assms(1), where cs = "cs @ [raw]"])
      show "case mg_current_task ?m of None \<Rightarrow> cs @ [raw] \<noteq> [] | Some ui \<Rightarrow> mg_is_ui_calc ?m = ui \<and> mg_made ?m \<noteq> 0"
        using inv by (cases rule: mg_inv_cases) simp_all
      show "mg_current_task ?m = None \<Longrightarrow> mg_made ?m = 0" using inv by (cases rule: mg_inv_cases) simp_all
    qed (use base nth in simp_all)
    then show ?thesis by (intro that) (simp_all add: RawDataCollected_def)
  qed
qed

lemma pool_step_inv:
  assumes "allocates fresh" and inv: "mg_inv cs m" and can: "pool_can ui a m"
    and a: "a = DoStartAll \<or> a = DoBegin p \<or> a = DoEnd p True"
  obtains m' where "pool_step fresh ui a m = Inr m'" "mg_inv cs m'"
proof -
  obtain e where e: "calc_of ui m = Some e" "can a e" using can by (auto simp: pool_can_def split: option.splits)
  show ?thesis
    using inv
  proof (cases rule: mg_inv_cases)
    case 1
    then have "at_rest e" using e(1) by (metis option.inject)
    then obtain e' where e': "exec fresh AsyncTask_new a e = Inr e'" "at_rest e'"
      by (rule at_rest_pool [where fresh = fresh, OF _ e(2) a])
    have "mg_inv cs (put_calc ui e' m)" using inv 1 e'(2) by (simp add: mg_inv_def)
    then show ?thesis using e(1) e'(1) by (intro that) (simp_all add: pool_step_def with_calc_def)
  next
    case (2 u ew er)
    show ?thesis
    proof (cases "ui = u")
      case True
      then have "at_work e" using e(1) 2 by simp
      then obtain e' where e': "exec fresh AsyncTask_new a e = Inr e'" "at_work e'"
        "at_status (ex_task e') = at_status (ex_task e)"
        by (rule at_work_pool [OF assms(1) _ e(2) a])
      have "pending (ex_task e')" if "mg_raw_data_queue m \<noteq> []"
        using 2 that e(1) e'(3) True by (simp add: pending_def)
      then have "mg_inv cs (put_calc ui e' m)" using inv 2 e'(2) True by (simp add: mg_inv_def)
      then show ?thesis using e(1) e'(1) by (intro that) (simp_all add: pool_step_def with_calc_def)
    next
      case False
      then have u: "ui = (\<not> u)" by simp
      then have "at_rest e" using e(1) 2 by simp
      then obtain e' where e': "exec fresh AsyncTask_new a e = Inr e'" "at_rest e'"
        by (rule at_rest_pool [where fresh = fresh, OF _ e(2) a])
      have "mg_inv cs (put_calc ui e' m)" using inv 2 e'(2) u by (simp add: mg_inv_def)
      then show ?thesis using e(1) e'(1) by (intro that) (simp_all add: pool_step_def with_calc_def)
    qed
  qed
qed

lemma mg_inv_calls: "mg_inv cs (m\<lparr>mg_calls := x\<rparr>) = mg_inv cs m"
  by (simp add: mg_inv_def split: option.split)

text \<open>The loop: until the end of the task nothing but the task changes; at its end the manager starts with the next raw
  data and then reports the result that it has by then.\<close>

lemma Manager_loop_inv:
  assumes "allocates fresh" and inv: "mg_inv cs m"
  obtains m' where "Manager_loop_once fresh ui for_ui m = Inr m'" "mg_inv cs m'"
    "(mg_calls m' = mg_calls m \<and> mg_calc_result m' = mg_calc_result m) \<or>
     (mg_current_task m = Some ui \<and> task_pending m \<and> (mg_raw_data_queue m \<noteq> [] \<longrightarrow> task_pending m') \<and>
      mg_made m' = (if mg_raw_data_queue m = [] then mg_made m else Suc (mg_made m)) \<and>
      mg_calls m' = mg_calls m @ [RecordResult (mg_calc_result m')] @
        (if ui then [MayNotifyUI (mg_calc_result m')] else []))"
proof -
  note result = that
  have rest: ?thesis if e: "calc_of ui m = Some e" "at_rest e" for e
  proof -
    have "finish_called (ex_task e) (ex_task e) = False" by (simp add: finish_called_def)
    moreover have "put_calc ui (e\<lparr>ex_task := ex_task e\<rparr>) m = m"
      using e(1) by (cases m) (auto simp: put_calc_def calc_of_def split: if_splits)
    ultimately have "Manager_loop_once fresh ui for_ui m = Inr m"
      using e at_rest_loop [OF e(2)] by (simp add: Manager_loop_once_def with_calc_def)
    then show ?thesis by (rule result) (use inv in auto)
  qed
  show ?thesis
    using inv
  proof (cases rule: mg_inv_cases)
    case 1
    then show ?thesis using rest by blast
  next
    case (2 u e er)
    show ?thesis
    proof (cases "ui = u")
      case False
      then have "ui = (\<not> u)" by simp
      then show ?thesis using rest 2 by blast
    next
      case True
      obtain t where t: "run_loop_once (ex_task e) = Inr t" "at_work (e\<lparr>ex_task := t\<rparr>)"
        "finish_called (ex_task e) t \<longleftrightarrow> pending (ex_task e) \<and> \<not> pending t" "\<not> pending (ex_task e) \<Longrightarrow> t = ex_task e"
        using at_work_loop [OF 2(5)] by metis
      let ?m = "put_calc ui (e\<lparr>ex_task := t\<rparr>) m"
      have base: "mg_made ?m \<le> length cs" "mg_raw_data_queue ?m = drop (mg_made ?m) cs"
        "mg_calc_result ?m = (if mg_made ?m = 0 then None else Some (mg_made ?m, cs ! (mg_made ?m - 1)))"
        using inv by (simp_all add: mg_inv_def)
      show ?thesis
      proof (cases "finish_called (ex_task e) t")
        case False
        have "mg_raw_data_queue m \<noteq> [] \<longrightarrow> pending t" using 2(6) t(3) False by blast
        then have "mg_inv cs ?m" using base 2 t(2) True by (simp add: mg_inv_def)
        moreover have "Manager_loop_once fresh ui for_ui m = Inr ?m"
          using 2 t(1) True False by (simp add: Manager_loop_once_def with_calc_def)
        ultimately show ?thesis by (intro that) auto
      next
        case fin: True
        have "\<exists>x. calc_of v ?m = Some x \<and>
            (if mg_current_task ?m = Some v then at_work x \<and> \<not> pending (ex_task x) else at_rest x)" for v
          using 2 t fin True by (cases "v = u") auto
        then have "calc_ended ?m" by (simp add: calc_ended_def)
        then obtain m' where m': "ProcessRaw fresh for_ui ?m = Inr m'" "mg_inv cs m'" "mg_calls m' = mg_calls ?m"
          "mg_made m' = (if mg_raw_data_queue ?m = [] then mg_made ?m else Suc (mg_made ?m))" "mg_raw_data_queue ?m \<noteq> [] \<longrightarrow> task_pending m'"
          by (rule ProcessRaw_ok [OF assms(1) _ base]) (use 2 True in simp_all)
        let ?calls = "mg_calls m' @ [RecordResult (mg_calc_result m')] @
          (if mg_is_ui_calc ?m then [MayNotifyUI (mg_calc_result m')] else [])"
        have "Manager_loop_once fresh ui for_ui m = Inr (m'\<lparr>mg_calls := ?calls\<rparr>)"
          using 2 t(1) True fin m'(1) by (simp add: Manager_loop_once_def with_calc_def Manager_OnAsyncTaskFinish_def)
        moreover have "mg_inv cs (m'\<lparr>mg_calls := ?calls\<rparr>)" using m'(2) by (simp only: mg_inv_calls)
        moreover have "task_pending (m'\<lparr>mg_calls := ?calls\<rparr>) = task_pending m'"
          by (simp add: task_pending_def split: option.split)
        moreover have "task_pending m" using 2 t(3) fin by (simp add: task_pending_def pending_def)
        ultimately show ?thesis using m' 2 True by (intro that) auto
      qed
    qed
  qed
qed

lemma mg_exec_inv:
  assumes "allocates fresh" and "mg_inv cs m" and "mg_can a m"
  obtains m' where "mg_exec fresh a m = Inr m'" "mg_inv (cs @ collected [a]) m'"
proof (cases a)
  case (Collects raw for_ui)
  then show ?thesis using RawDataCollected_inv [OF assms(1,2)] that by (metis collected.simps(1,2) mg_exec.simps(1))
next
  case (PoolStarts ui)
  obtain m' where "pool_step fresh ui DoStartAll m = Inr m'" "mg_inv cs m'"
    by (rule pool_step_inv [OF assms(1,2), of ui DoStartAll 0]) (use assms(3) PoolStarts in auto)
  then show ?thesis using that PoolStarts by simp
next
  case (PoolBegins ui p)
  obtain m' where "pool_step fresh ui (DoBegin p) m = Inr m'" "mg_inv cs m'"
    by (rule pool_step_inv [OF assms(1,2), of ui "DoBegin p" p]) (use assms(3) PoolBegins in auto)
  then show ?thesis using that PoolBegins by simp
next
  case (PoolEnds ui p)
  obtain m' where "pool_step fresh ui (DoEnd p True) m = Inr m'" "mg_inv cs m'"
    by (rule pool_step_inv [OF assms(1,2), of ui "DoEnd p True" p]) (use assms(3) PoolEnds in auto)
  then show ?thesis using that PoolEnds by simp
next
  case (LoopOf ui for_ui)
  obtain m' where "Manager_loop_once fresh ui for_ui m = Inr m'" "mg_inv cs m'"
    by (rule Manager_loop_inv [OF assms(1,2), of ui for_ui])
  then show ?thesis using that LoopOf by simp
qed

definition manager_of :: "items \<times> CalcGroup \<Rightarrow> items \<times> CalcGroup \<Rightarrow> 'r ChnlCalcManager" where
  "manager_of s s' = SetUICalc (fst s') (snd s') (SetChnlCalc (fst s) (snd s) ChnlCalcManager_new)"

definition calc_group_ok :: "items \<times> CalcGroup \<Rightarrow> bool" where
  "calc_group_ok s \<longleftrightarrow> group_ok s \<and> acyclic (set (cg_edges (snd s)))"

lemma mg_reach_inv:
  fixes m :: "'r ChnlCalcManager"
  assumes "allocates fresh" and "calc_group_ok s" and "calc_group_ok s'" and "mg_reach fresh (manager_of s s') cs m"
  shows "mg_inv cs m"
  using assms(4)
proof (induction rule: mg_reach.induct)
  case mg_start
  let ?m = "manager_of s s' :: 'r ChnlCalcManager"
  have "at_rest (Executer_new (fst s) (snd s))" "at_rest (Executer_new (fst s') (snd s'))"
    using assms(2,3) by (simp_all add: calc_group_ok_def at_rest_new)
  then have "\<exists>e. calc_of ui ?m = Some e \<and> at_rest e" for ui
    by (simp add: manager_of_def calc_of_def SetUICalc_def SetChnlCalc_def)
  moreover have "mg_current_task ?m = None" "mg_made ?m = 0" "mg_calc_result ?m = None" "mg_raw_data_queue ?m = []"
    by (simp_all add: manager_of_def SetUICalc_def SetChnlCalc_def ChnlCalcManager_new_def)
  ultimately show ?case by (simp add: mg_inv_def)
next
  case (mg_next cs m a m')
  then show ?case using mg_exec_inv [OF assms(1) mg_next.IH mg_next.hyps(2)] by (metis sum.inject(2))
qed

lemma at_work_progress:
  assumes "at_work e" and "pending (ex_task e)"
  shows "at_queue (ex_task e) \<noteq> [] \<or> can DoStartAll e \<or> (\<exists>p. can (DoBegin p) e \<or> can (DoEnd p True) e)"
proof (cases "at_queue (ex_task e) = []")
  case True
  obtain st cs where c: "follows [the_manager] cs (ex_task e)" "st = kCancel \<or> st = kFinish"
    "cs = (if ex_notify_end e then [CallStart, CallFinish st] else [CallStart])"
    by (rule at_work_calls [OF assms(1)])
  have cs: "cs = [CallStart] \<or> cs = [CallStart, CallFinish st]" using c(3) by auto
  have "\<not> ex_notify_end e"
    by (rule task_shape [OF c(1) cs c(2)]; use True assms(2) c(2,3) in \<open>auto simp: pending_def split: if_splits\<close>)
  then have "ex_posted e @ ex_running e \<noteq> [] \<or> ex_starting e > 0"
    using assms(1) exec_invD(5) [of e] by (simp add: at_work_def)
  then consider p where "p \<in> set (ex_posted e)" | p where "p \<in> set (ex_running e)" | "ex_starting e > 0"
    by (metis append_Nil list.set_intros(1) neq_Nil_conv)
  then show ?thesis by cases auto
qed simp

text \<open>C13. Whatever the interleaving of collected raw data, of the threads of the two executers and of the manager's
  loop, nothing fails: no task is started while one is running, no executer is given a run before its last one is
  over.  The raw data is calculated in the order of collection, each once: the result that is being made is
  that of the last raw data taken, and the rest waits in the queue; while data waits a calculation is under way
  that can take a step.\<close>

theorem manager_in_order:
  assumes "allocates fresh" and "calc_group_ok s" and "calc_group_ok s'" and "mg_reach fresh (manager_of s s') cs m"
  shows "(\<forall>a. mg_can a m \<longrightarrow> (\<exists>m'. mg_exec fresh a m = Inr m')) \<and>
    mg_made m \<le> length cs \<and> mg_raw_data_queue m = drop (mg_made m) cs \<and>
    mg_calc_result m = (if mg_made m = 0 then None else Some (mg_made m, cs ! (mg_made m - 1))) \<and>
    (mg_raw_data_queue m \<noteq> [] \<longrightarrow> (\<exists>ui e. mg_current_task m = Some ui \<and> calc_of ui m = Some e \<and> task_pending m \<and>
       (at_queue (ex_task e) \<noteq> [] \<or> can DoStartAll e \<or> (\<exists>p. can (DoBegin p) e \<or> can (DoEnd p True) e))))"
proof -
  have inv: "mg_inv cs m" by (rule mg_reach_inv [OF assms])
  have step: "\<exists>m'. mg_exec fresh a m = Inr m'" if "mg_can a m" for a
    using mg_exec_inv [OF assms(1) inv that] by blast
  have base: "mg_made m \<le> length cs" "mg_raw_data_queue m = drop (mg_made m) cs"
    "mg_calc_result m = (if mg_made m = 0 then None else Some (mg_made m, cs ! (mg_made m - 1)))"
    using inv by (simp_all add: mg_inv_def)
  have wait: "\<exists>ui e. mg_current_task m = Some ui \<and> calc_of ui m = Some e \<and> task_pending m \<and>
      (at_queue (ex_task e) \<noteq> [] \<or> can DoStartAll e \<or> (\<exists>p. can (DoBegin p) e \<or> can (DoEnd p True) e))"
    if q: "mg_raw_data_queue m \<noteq> []"
    using inv
  proof (cases rule: mg_inv_cases)
    case 1
    then show ?thesis using q base(2) by simp
  next
    case (2 ui e e')
    then have "pending (ex_task e)" using q by blast
    moreover from this have "task_pending m" using 2 by (simp add: task_pending_def pending_def)
    ultimately show ?thesis using 2 at_work_progress [OF 2(5)] by blast
  qed
  show ?thesis using step base wait by blast
qed

text \<open>C32. When a calculation ends while raw data is waiting, what the manager reports is not the result of that calculation
  but the new one of the next raw data, whose calculation is just starting; the finished result reaches nobody.
  Only when nothing waits the finished result is reported.\<close>

theorem finished_result_lost:
  assumes "allocates fresh" and "calc_group_ok s" and "calc_group_ok s'" and "mg_reach fresh (manager_of s s') cs m"
    and "mg_exec fresh (LoopOf ui for_ui) m = Inr m'" and "mg_calls m' \<noteq> mg_calls m"
  shows "\<exists>r. mg_calls m' = mg_calls m @ RecordResult r # (if ui then [MayNotifyUI r] else []) \<and>
    r = (if mg_raw_data_queue m = [] then mg_calc_result m else Some (Suc (mg_made m), hd (mg_raw_data_queue m))) \<and>
    (mg_raw_data_queue m \<noteq> [] \<longrightarrow> r \<noteq> mg_calc_result m \<and> task_pending m')"
proof -
  have inv: "mg_inv cs m" by (rule mg_reach_inv [OF assms(1-4)])
  obtain m1 where m1: "Manager_loop_once fresh ui for_ui m = Inr m1" "mg_inv cs m1"
    "(mg_calls m1 = mg_calls m \<and> mg_calc_result m1 = mg_calc_result m) \<or>
     (mg_current_task m = Some ui \<and> task_pending m \<and> (mg_raw_data_queue m \<noteq> [] \<longrightarrow> task_pending m1) \<and>
      mg_made m1 = (if mg_raw_data_queue m = [] then mg_made m else Suc (mg_made m)) \<and>
      mg_calls m1 = mg_calls m @ [RecordResult (mg_calc_result m1)] @
        (if ui then [MayNotifyUI (mg_calc_result m1)] else []))"
    by (rule Manager_loop_inv [OF assms(1) inv])
  have "m1 = m'" using m1(1) assms(5) by simp
  with m1 assms(6) have m': "mg_inv cs m'" "mg_raw_data_queue m \<noteq> [] \<longrightarrow> task_pending m'"
    "mg_made m' = (if mg_raw_data_queue m = [] then mg_made m else Suc (mg_made m))"
    "mg_calls m' = mg_calls m @ [RecordResult (mg_calc_result m')] @
        (if ui then [MayNotifyUI (mg_calc_result m')] else [])" by auto
  have b: "mg_raw_data_queue m = drop (mg_made m) cs"
    "mg_calc_result m = (if mg_made m = 0 then None else Some (mg_made m, cs ! (mg_made m - 1)))"
    using inv by (simp_all add: mg_inv_def)
  have b': "mg_calc_result m' = (if mg_made m' = 0 then None else Some (mg_made m', cs ! (mg_made m' - 1)))"
    using m'(1) by (simp add: mg_inv_def)
  show ?thesis
  proof (cases "mg_raw_data_queue m = []")
    case True
    then show ?thesis using m'(3,4) b b' by (intro exI [of _ "mg_calc_result m'"]) simp
  next
    case False
    then have "hd (mg_raw_data_queue m) = cs ! mg_made m" using b(1) by (simp add: hd_drop_conv_nth)
    then have r: "mg_calc_result m' = Some (Suc (mg_made m), hd (mg_raw_data_queue m))" using m'(3) b' False by simp
    then show ?thesis using m'(2,4) b(2) False by (intro exI [of _ "mg_calc_result m'"]) simp
  qed
qed

text \<open>Processing the current raw data again for the user interface while a calculation is running fails the assertion that
  the current task is not running: canceling does not wait for its end.\<close>

lemma ReProcessRawForUI_fails:
  assumes "mg_current_raw_data m \<noteq> None" and "mg_current_task m = Some ui" and "calc_of ui m = Some e"
    and "at_status (ex_task e) = kRunning"
  shows "ReProcessRawForUI fresh m = Inl DcheckFailed"
  using assms
  by (simp add: ReProcessRawForUI_def Manager_Cancel_def Manager_StartRun_def on_current_task_def with_calc_def
      Task_Cancel_def Task_RemoveObserver_def)

lemma mg_reach_for_each:
  assumes "for_each (mg_exec fresh) as m = Inr m'" and "\<forall>a \<in> set as. \<forall>m. mg_can a m" and "mg_reach fresh m0 cs m"
  shows "mg_reach fresh m0 (cs @ concat (map (\<lambda>a. collected [a]) as)) m'"
  using assms
proof (induction as arbitrary: cs m)
  case (Cons a as)
  obtain m1 where "mg_exec fresh a m = Inr m1" "for_each (mg_exec fresh) as m1 = Inr m'" using Cons.prems(1) by auto
  with Cons show ?case using mg_next [OF Cons.prems(3)] by (metis (no_types) append.assoc concat.simps(2) list.map(2) list.set_intros)
qed simp

text \<open>Two groups without items, whose runs end as soon as they start.\<close>

definition sample_manager :: "nat ChnlCalcManager" where
  "sample_manager = manager_of ([], CalcGroup_new ''chnl'') ([], CalcGroup_new ''ui'')"

definition sample_collected :: "nat ChnlCalcManager res" where
  "sample_collected = for_each (mg_exec next_free) [Collects 10 False, Collects 20 False, LoopOf False False] sample_manager"

lemmas manager_run_simps = sample_collected_def sample_manager_def manager_of_def SetUICalc_def SetChnlCalc_def
  ChnlCalcManager_new_def Executer_new_def CalcGroup_new_def RawDataCollected_def ProcessRaw_def task_pending_def
  Manager_StartRun_def on_current_task_def with_calc_def calc_of_def put_calc_def set_delegate_def StartRun_def
  Executer_Reset_def Walker_new_def NoCycle_def Clone_def FreeNode_def delete_walker_def with_walker_def
  Walker_Finish_def NotifyStart_def NotifyFinish_def PostTask_def Task_AddObserver_def AsyncTask_new_def
  Task_RemoveObserver_def Manager_loop_once_def run_loop_once_def NotifyStartImpl_def NotifyFinishImpl_def
  call_observers_def finish_called_def Manager_OnAsyncTaskFinish_def Let_def the_manager_def

lemma sample_groups_ok: "calc_group_ok ([], CalcGroup_new name)"
  by (simp add: calc_group_ok_def group_ok_def CalcGroup_new_def acyclic_def)

lemma sample_collected_reach:
  obtains m where "sample_collected = Inr m" "mg_made m = 1" "mg_raw_data_queue m = [20]" "mg_calc_result m = Some (1, 10)"
    "mg_calls m = []"
    "mg_reach next_free (manager_of ([], CalcGroup_new ''chnl'') ([], CalcGroup_new ''ui'')) [10, 20] m"
    "\<exists>m'. mg_exec next_free (LoopOf False False) m = Inr m' \<and> mg_calls m' = [RecordResult (Some (2, 20))]"
proof -
  have "\<exists>m. sample_collected = Inr m \<and> mg_made m = 1 \<and> mg_raw_data_queue m = [20] \<and> mg_calc_result m = Some (1, 10) \<and>
      mg_calls m = [] \<and>
      (\<exists>m'. mg_exec next_free (LoopOf False False) m = Inr m' \<and> mg_calls m' = [RecordResult (Some (2, 20))])"
    by (simp add: manager_run_simps)
  then obtain m where m: "sample_collected = Inr m" "mg_made m = 1" "mg_raw_data_queue m = [20]"
    "mg_calc_result m = Some (1, 10)" "mg_calls m = []"
    "\<exists>m'. mg_exec next_free (LoopOf False False) m = Inr m' \<and> mg_calls m' = [RecordResult (Some (2, 20))]" by blast
  have "mg_reach next_free sample_manager ([] @ concat (map (\<lambda>a. collected [a])
      [Collects 10 False, Collects 20 False, LoopOf False False])) m"
    by (rule mg_reach_for_each [OF m(1) [unfolded sample_collected_def] _ mg_start]) (intro ballI allI, auto)
  then show ?thesis using m by (intro that [of m]) (simp_all add: sample_manager_def)
qed

lemma manager_in_order_witness:
  "\<exists>m. sample_collected = Inr m \<and> mg_raw_data_queue m = [20] \<and> task_pending m \<and>
    (\<exists>m'. mg_exec next_free (Collects 30 True) m = Inr m')"
proof -
  obtain m where m: "sample_collected = Inr m" "mg_raw_data_queue m = [20]"
    "mg_reach next_free (manager_of ([], CalcGroup_new ''chnl'') ([], CalcGroup_new ''ui'')) [10, 20] m"
    by (rule sample_collected_reach)
  from manager_in_order [OF allocates_next_free sample_groups_ok sample_groups_ok m(3)]
  have "\<forall>a. mg_can a m \<longrightarrow> (\<exists>m'. mg_exec next_free a m = Inr m')" "task_pending m" using m(2) by auto
  then have "\<exists>m'. mg_exec next_free (Collects 30 True) m = Inr m' \<and> task_pending m"
    using mg_can.simps(1) [of 30 True m] by blast
  with m show ?thesis by blast
qed

lemma finished_result_lost_witness:
  "\<exists>m m' r. sample_collected = Inr m \<and> mg_exec next_free (LoopOf False False) m = Inr m' \<and>
    mg_calc_result m = Some (1, 10) \<and> mg_calls m' = [RecordResult r] \<and> r = Some (2, 20) \<and> task_pending m'"
proof -
  obtain m m' where m: "sample_collected = Inr m" "mg_made m = 1" "mg_raw_data_queue m = [20]" "mg_calc_result m = Some (1, 10)"
    "mg_calls m = []" "mg_reach next_free (manager_of ([], CalcGroup_new ''chnl'') ([], CalcGroup_new ''ui'')) [10, 20] m"
    "mg_exec next_free (LoopOf False False) m = Inr m'" "mg_calls m' = [RecordResult (Some (2, 20))]"
    by (rule sample_collected_reach) blast
  from finished_result_lost [OF allocates_next_free sample_groups_ok sample_groups_ok m(6,7)] m
  show ?thesis by auto
qed

end
