(* ===== verification/Channel_Calc.thy ===== *)
theory Channel_Calc
  imports Calc_Executer Osc_Device
begin

text \<open>
  The calculation of the channels from the bytes of the oscilloscope: the data of a calculation
  (depend_calc/calc_data.h, calc_data.cc), its result and the two items
  (canscope/osc_chnl_calc/chnl_calc_result.*, osc_chnl_data.*, chnl_calc_item.cc, can_diff_calc_item.cc) and the
  group they form (\<open>BuildChnlCalcGroup\<close> of canscope/app/canscope_chnl_calc.cc).

  A result owns the data that its items make.  An \<open>OscChnlData\<close> is known by its number in the order of
  creation, counted from 1; 0 is NULL.  \<open>cr_user_data\<close> is the map from keys to them.  A double is a real number.
  \<open>RemoveData\<close>, which nobody calls, is left out.
\<close>

subsection \<open>Data of a calculation\<close>

definition kCANHKey :: ptr where "kCANHKey = 1"
definition kCANLKey :: ptr where "kCANLKey = 2"
definition kCANDIFFKey :: ptr where "kCANDIFFKey = 3"

record ChnlCalcResult =
  cr_raw :: "u8 list"
  cr_property :: OscProperties
  cr_hardware_diff :: bool
  cr_type :: DeviceType
  cr_user_data :: "ptr \<Rightarrow> ptr option"
  cr_objects :: "real list list"

definition ChnlCalcResult_new :: "u8 list \<Rightarrow> OscProperties \<Rightarrow> bool \<Rightarrow> DeviceType \<Rightarrow> ChnlCalcResult" where
  "ChnlCalcResult_new raw p diff t =
     \<lparr>cr_raw = raw, cr_property = p, cr_hardware_diff = diff, cr_type = t, cr_user_data = (\<lambda>k. None), cr_objects = []\<rparr>"

definition GetData :: "ptr \<Rightarrow> ChnlCalcResult \<Rightarrow> ptr" where
  "GetData key r = (case cr_user_data r key of None \<Rightarrow> 0 | Some p \<Rightarrow> p)"

text \<open>An object that was there under the key is released, not deleted.\<close>

definition SetData :: "ptr \<Rightarrow> ptr \<Rightarrow> ChnlCalcResult \<Rightarrow> ChnlCalcResult res" where
  "SetData key data r =
     DCHECK (cr_user_data r key \<noteq> Some data) (Inr (r\<lparr>cr_user_data := (cr_user_data r)(key \<mapsto> data)\<rparr>))"

definition OscChnlData_new :: "int \<Rightarrow> real list res" where
  "OscChnlData_new n = (if n < 0 then Inl BadAlloc else Inr (replicate (nat n) 0))"

definition new_data :: "int \<Rightarrow> ChnlCalcResult \<Rightarrow> (ptr \<times> ChnlCalcResult) res" where
  "new_data n r =
     and_then (OscChnlData_new n) (\<lambda>xs.
       Inr (Suc (length (cr_objects r)), r\<lparr>cr_objects := cr_objects r @ [xs]\<rparr>))"

definition data_at :: "ptr \<Rightarrow> ChnlCalcResult \<Rightarrow> real list res" where
  "data_at p r = (if 0 < p \<and> p \<le> length (cr_objects r) then Inr (cr_objects r ! (p - 1)) else Inl Undefined)"

definition write_data :: "ptr \<Rightarrow> real list \<Rightarrow> ChnlCalcResult \<Rightarrow> ChnlCalcResult" where
  "write_data p xs r = r\<lparr>cr_objects := (cr_objects r)[p - 1 := xs]\<rparr>"

text \<open>\<open>&data_[0]\<close> of an empty vector.\<close>

definition OscChnlData_data :: "real list \<Rightarrow> real list res" where
  "OscChnlData_data xs = (if xs = [] then Inl Undefined else Inr xs)"

text \<open>What a key leads to.\<close>

definition chnl_values :: "ptr \<Rightarrow> ChnlCalcResult \<Rightarrow> real list option" where
  "chnl_values key r = (case data_at (GetData key r) r of Inl e \<Rightarrow> None | Inr xs \<Rightarrow> Some xs)"

subsection \<open>The items\<close>

definition DecodeRaw :: "u8 \<Rightarrow> real \<Rightarrow> real" where
  "DecodeRaw raw chnl_range =
     (if raw < 3 then - chnl_range / 2
      else if raw > 252 then chnl_range / 2
      else chnl_range * of_int (uint raw - 2) / 250 + (- chnl_range / 2))"

definition CalcChnlData :: "ptr \<Rightarrow> ptr \<Rightarrow> ChnlCalcResult \<Rightarrow> ChnlCalcResult res" where
  "CalcChnlData can_h can_l r =
     and_then (data_at can_h r) (\<lambda>hs.
     and_then (data_at can_l r) (\<lambda>ls.
     let data = cr_raw r; p = cr_property r in
     DCHECK (length hs = length ls) (
     DCHECK (length hs * 2 = length data) (
     and_then (OscChnlData_data hs) (\<lambda>_.
     and_then (OscChnlData_data ls) (\<lambda>_.
     let l = map (\<lambda>i. DecodeRaw (data ! (i * 2)) (of_int (Volt (range_can_l p))) - offset_can_l p) [0..<length hs];
         h = map (\<lambda>i. DecodeRaw (data ! (i * 2 + 1)) (of_int (Volt (range_can_h p))) - offset_can_h p) [0..<length hs]
     in Inr (write_data can_h h (write_data can_l l r))))))))"

definition ChnlCalcItem_Run :: "ptr \<Rightarrow> ptr \<Rightarrow> ChnlCalcResult \<Rightarrow> (bool \<times> ChnlCalcResult) res" where
  "ChnlCalcItem_Run can_h_key can_l_key r =
     (let n = trunc_div (int (length (cr_raw r))) 2 in
      and_then (new_data n r) (\<lambda>(p, r).
      and_then (SetData can_h_key p r) (\<lambda>r.
      and_then (new_data n r) (\<lambda>(p, r).
      and_then (SetData can_l_key p r) (\<lambda>r.
      and_then (CalcChnlData (GetData can_h_key r) (GetData can_l_key r) r) (\<lambda>r. Inr (True, r)))))))"

definition CalcCANDIFFData :: "ptr \<Rightarrow> ptr \<Rightarrow> ptr \<Rightarrow> bool \<Rightarrow> ChnlCalcResult \<Rightarrow> ChnlCalcResult res" where
  "CalcCANDIFFData can_h can_l can_diff sub_or_avg r =
     and_then (data_at can_h r) (\<lambda>hs.
     and_then (data_at can_l r) (\<lambda>ls.
     and_then (data_at can_diff r) (\<lambda>ds.
     DCHECK (length hs = length ls) (
     DCHECK (length ds = length hs) (
     and_then (OscChnlData_data hs) (\<lambda>_.
     and_then (OscChnlData_data ls) (\<lambda>_.
     and_then (OscChnlData_data ds) (\<lambda>_.
       Inr (write_data can_diff
         (map (\<lambda>i. if sub_or_avg then hs ! i - ls ! i else (hs ! i + ls ! i) / 2) [0..<length hs]) r)))))))))"

definition ChnlDiffCalcItem_Run :: "ptr \<Rightarrow> ptr \<Rightarrow> ptr \<Rightarrow> ChnlCalcResult \<Rightarrow> (bool \<times> ChnlCalcResult) res" where
  "ChnlDiffCalcItem_Run can_h_key can_l_key can_diff_key r =
     DCHECK (GetData can_h_key r \<noteq> 0) (
     DCHECK (GetData can_l_key r \<noteq> 0) (
     and_then (data_at (GetData can_h_key r) r) (\<lambda>hs.
     and_then (new_data (int (length hs)) r) (\<lambda>(p, r).
     and_then (SetData can_diff_key p r) (\<lambda>r.
     let sub_or_avg = (diff_ctrl (cr_property r) = kSub) in
     and_then (CalcCANDIFFData (GetData can_h_key r) (GetData can_l_key r) (GetData can_diff_key r) sub_or_avg r) (\<lambda>r.
       Inr (True, r)))))))"

subsection \<open>The group\<close>

definition new_item :: "(items \<Rightarrow> ptr) \<Rightarrow> string \<Rightarrow> ptr \<Rightarrow> items \<Rightarrow> ptr \<times> items" where
  "new_item fresh name key h = (fresh h, map_put (fresh h) (CalcItem_new name key) h)"

definition BuildChnlCalcGroup :: "(items \<Rightarrow> ptr) \<Rightarrow> items \<Rightarrow> (items \<times> CalcGroup) res" where
  "BuildChnlCalcGroup fresh h =
     (let g = CalcGroup_new ''chnl'';
          (chnl_calc, h) = new_item fresh ''ChnlCalc'' kCANHKey h;
          (diff_calc, h) = new_item fresh ''DiffCalc'' kCANDIFFKey h
      in and_then (AddCalcItem chnl_calc g) (\<lambda>g.
         and_then (AddCalcItem diff_calc g) (\<lambda>g.
         and_then (SetDependKey kCANHKey kCANDIFFKey (h, g)) (\<lambda>g. Inr (h, g)))))"

text \<open>\<open>Run\<close> is virtual: the keys tell which item it is.\<close>

definition run_item :: "CalcItem \<Rightarrow> ChnlCalcResult \<Rightarrow> (bool \<times> ChnlCalcResult) res" where
  "run_item i r =
     (if ci_id i = kCANHKey then ChnlCalcItem_Run kCANHKey kCANLKey r
      else if ci_id i = kCANDIFFKey then ChnlDiffCalcItem_Run kCANHKey kCANLKey kCANDIFFKey r
      else Inl Undefined)"

text \<open>The items run between their start and their mark; the answer tells whether every mark is what \<open>Run\<close> returned.\<close>

fun run_events :: "items \<Rightarrow> walk_event list \<Rightarrow> ChnlCalcResult \<Rightarrow> (bool \<times> ChnlCalcResult) res" where
  "run_events h [] r = Inr (True, r)"
| "run_events h (Started p # t) r = run_events h t r"
| "run_events h (Marked p b # t) r =
     and_then (item_at h p) (\<lambda>i.
     and_then (run_item i r) (\<lambda>(ret, r).
     and_then (run_events h t r) (\<lambda>(ok, r). Inr (ok \<and> b = ret, r))))"

subsection \<open>Decoding\<close>

text \<open>The voltages that the bytes stand for.\<close>

definition decoded_h :: "OscProperties \<Rightarrow> u8 list \<Rightarrow> real list" where
  "decoded_h p data =
     map (\<lambda>i. DecodeRaw (data ! (i * 2 + 1)) (of_int (Volt (range_can_h p))) - offset_can_h p) [0..<length data div 2]"

definition decoded_l :: "OscProperties \<Rightarrow> u8 list \<Rightarrow> real list" where
  "decoded_l p data =
     map (\<lambda>i. DecodeRaw (data ! (i * 2)) (of_int (Volt (range_can_l p))) - offset_can_l p) [0..<length data div 2]"

definition decoded_diff :: "OscProperties \<Rightarrow> u8 list \<Rightarrow> real list" where
  "decoded_diff p data =
     map2 (\<lambda>x y. if diff_ctrl p = kSub then x - y else (x + y) / 2) (decoded_h p data) (decoded_l p data)"

text \<open>The middle of the range is the byte 127, a step is the 250th part of the range.\<close>

lemma DecodeRaw_eq:
  "DecodeRaw raw r =
     (if uint raw < 3 then - r / 2 else if 252 < uint raw then r / 2 else r * of_int (uint raw - 127) / 250)"
proof -
  have "raw < 3 \<longleftrightarrow> uint raw < 3" "raw > 252 \<longleftrightarrow> 252 < uint raw" by (simp_all add: word_less_def)
  then show ?thesis by (simp add: DecodeRaw_def field_simps)
qed

lemma DecodeRaw_mono:
  assumes "0 \<le> r" and "raw \<le> raw'"
  shows "- r / 2 \<le> DecodeRaw raw r" "DecodeRaw raw r \<le> DecodeRaw raw' r" "DecodeRaw raw' r \<le> r / 2"
proof -
  have le: "uint raw \<le> uint raw'" using assms(2) by (simp add: word_le_def)
  have bound: "- r / 2 \<le> r * of_int n / 250" "r * of_int n / 250 \<le> r / 2" if "-125 \<le> n" "n \<le> 125" for n :: int
    using mult_left_mono [OF _ assms(1), of "-125" "of_int n"] mult_left_mono [OF _ assms(1), of "of_int n" 125] that
    by simp_all
  have step: "r * of_int (uint raw - 127) / 250 \<le> r * of_int (uint raw' - 127) / 250"
  proof (intro divide_right_mono mult_left_mono)
    show "(of_int (uint raw - 127) :: real) \<le> of_int (uint raw' - 127)" unfolding of_int_le_iff using le by simp
  qed (use assms(1) in simp_all)
  show "- r / 2 \<le> DecodeRaw raw r" "DecodeRaw raw' r \<le> r / 2"
    using bound [of "uint raw - 127"] bound [of "uint raw' - 127"] assms(1) by (simp_all add: DecodeRaw_eq)
  show "DecodeRaw raw r \<le> DecodeRaw raw' r"
    using bound [of "uint raw - 127"] bound [of "uint raw' - 127"] assms(1) step le by (simp add: DecodeRaw_eq)
qed

lemma to_word_uint:
  assumes "to_word x = Inr (w :: u8)" and "0 \<le> x"
  shows "uint w = \<lfloor>x\<rfloor>"
proof -
  have "0 \<le> \<lfloor>x\<rfloor>" "\<lfloor>x\<rfloor> < 256" "w = word_of_int \<lfloor>x\<rfloor>"
    using assms by (auto simp: to_word_def Let_def check_Inr_iff to_int64_def)
  then show ?thesis by (simp add: uint_word_of_int)
qed

lemma floor_within:
  fixes y :: real
  assumes "2 \<le> y" and "y \<le> 252"
  shows "of_int \<lfloor>y\<rfloor> \<le> y" "y < of_int \<lfloor>y\<rfloor> + 1" "2 \<le> \<lfloor>y\<rfloor>" "\<lfloor>y\<rfloor> \<le> 252"
  using assms by linarith+

text \<open>C31. The byte that the trigger's comparators get for a level (\<open>CMP_LOW\<close>) decodes, as a sample of the channel, to a
  voltage that is at most the level and less than one step below it, as long as level and offset lie within the
  channel's range; and decoded samples grow with the byte and stay within the range around the offset.\<close>

theorem trigger_level_decodes:
  assumes "CMP_LOW rng trig off = Inr raw" and "\<bar>trig + off\<bar> \<le> of_int (Volt rng) / 2"
  shows "trig - of_int (Volt rng) / 250 < DecodeRaw raw (of_int (Volt rng)) - off \<and>
    DecodeRaw raw (of_int (Volt rng)) - off \<le> trig \<and>
    (\<forall>raw'. raw \<le> raw' \<longrightarrow> DecodeRaw raw (of_int (Volt rng)) \<le> DecodeRaw raw' (of_int (Volt rng)) \<and>
       \<bar>DecodeRaw raw' (of_int (Volt rng))\<bar> \<le> of_int (Volt rng) / 2)"
proof -
  let ?r = "of_int (Volt rng) :: real" and ?x = "trig + off"
  have r: "0 < ?r" by (cases rng) simp_all
  let ?y = "?x * 250 / ?r + 127"
  have y: "to_word ?y = Inr raw"
    using assms(1) by (simp add: CMP_LOW_def kVoltDivNum_def Let_def field_simps)
  have "- ?r / 2 \<le> ?x" "?x \<le> ?r / 2" using assms(2) by linarith+
  then have bounds: "2 \<le> ?y" "?y \<le> 252" using r by (simp_all add: field_simps)
  have raw: "uint raw = \<lfloor>?y\<rfloor>" by (rule to_word_uint [OF y]) (use bounds in simp)
  have fl: "of_int (uint raw) \<le> ?y" "?y < of_int (uint raw) + 1" "2 \<le> uint raw" "uint raw \<le> 252"
    using floor_within [OF bounds] raw by simp_all
  have dec: "DecodeRaw raw ?r = ?r * of_int (uint raw - 127) / 250"
    using fl(3,4) by (cases "uint raw = 2") (simp_all add: DecodeRaw_eq)
  have "?r * of_int (uint raw - 127) / 250 \<le> ?x" "?x < ?r * of_int (uint raw - 127) / 250 + ?r / 250"
    using fl(1,2) r by (simp_all add: field_simps)
  then have "trig - ?r / 250 < DecodeRaw raw ?r - off" "DecodeRaw raw ?r - off \<le> trig" unfolding dec by simp_all
  moreover have "DecodeRaw raw ?r \<le> DecodeRaw raw' ?r \<and> \<bar>DecodeRaw raw' ?r\<bar> \<le> ?r / 2" if "raw \<le> raw'" for raw'
    using DecodeRaw_mono [OF less_imp_le [OF r] that] by (simp add: abs_le_iff)
  ultimately show ?thesis by blast
qed

lemma trigger_level_decodes_witness:
  "\<exists>raw. CMP_LOW k8V 1 (1/2) = Inr raw \<and> DecodeRaw raw 8 - 1/2 \<le> 1 \<and> 1 - 8/250 < DecodeRaw raw 8 - 1/2"
proof -
  have "CMP_LOW k8V 1 (1/2) = Inr 173"
    by (simp add: CMP_LOW_def kVoltDivNum_def to_word_def to_int64_def Let_def check_def)
  from trigger_level_decodes [OF this] this show ?thesis by simp
qed

subsection \<open>The items' results\<close>

lemma decoded_length [simp]:
  "length (decoded_h p data) = length data div 2" "length (decoded_l p data) = length data div 2"
  "length (decoded_diff p data) = length data div 2"
  by (simp_all add: decoded_h_def decoded_l_def decoded_diff_def)

lemma chnl_keys [simp]:
  "kCANHKey \<noteq> kCANLKey" "kCANLKey \<noteq> kCANHKey" "kCANHKey \<noteq> kCANDIFFKey" "kCANDIFFKey \<noteq> kCANHKey"
  "kCANLKey \<noteq> kCANDIFFKey" "kCANDIFFKey \<noteq> kCANLKey"
  by (simp_all add: kCANHKey_def kCANLKey_def kCANDIFFKey_def)

lemmas calc_simps = Let_def new_data_def OscChnlData_new_def SetData_def GetData_def data_at_def write_data_def
  OscChnlData_data_def

text \<open>The result after the first item.\<close>

definition both_channels :: "u8 list \<Rightarrow> OscProperties \<Rightarrow> bool \<Rightarrow> DeviceType \<Rightarrow> ChnlCalcResult" where
  "both_channels raw p diff t =
     (ChnlCalcResult_new raw p diff t)
       \<lparr>cr_user_data := [kCANHKey \<mapsto> Suc 0, kCANLKey \<mapsto> Suc (Suc 0)], cr_objects := [decoded_h p raw, decoded_l p raw]\<rparr>"

definition all_channels :: "u8 list \<Rightarrow> OscProperties \<Rightarrow> bool \<Rightarrow> DeviceType \<Rightarrow> ChnlCalcResult" where
  "all_channels raw p diff t =
     (ChnlCalcResult_new raw p diff t)
       \<lparr>cr_user_data := [kCANHKey \<mapsto> Suc 0, kCANLKey \<mapsto> Suc (Suc 0), kCANDIFFKey \<mapsto> Suc (Suc (Suc 0))],
        cr_objects := [decoded_h p raw, decoded_l p raw, decoded_diff p raw]\<rparr>"

lemma ChnlCalcItem_Run_result:
  "ChnlCalcItem_Run kCANHKey kCANLKey (ChnlCalcResult_new raw p diff t) =
     (if odd (length raw) then Inl DcheckFailed else if raw = [] then Inl Undefined
      else Inr (True, both_channels raw p diff t))"
proof -
  have half: "int (length raw) div 2 = int (length raw div 2)" "length raw div 2 * 2 = length raw \<longleftrightarrow> even (length raw)"
    by (simp_all add: zdiv_int) presburger
  have "length raw div 2 = 0 \<longleftrightarrow> raw = []" if "even (length raw)" using that by (cases raw) auto
  then show ?thesis
    by (simp add: ChnlCalcItem_Run_def CalcChnlData_def calc_simps ChnlCalcResult_new_def both_channels_def
        decoded_h_def decoded_l_def check_def half)
qed

lemma ChnlDiffCalcItem_Run_result:
  assumes "even (length raw)" and "raw \<noteq> []"
  shows "ChnlDiffCalcItem_Run kCANHKey kCANLKey kCANDIFFKey (both_channels raw p diff t) =
    Inr (True, all_channels raw p diff t)"
proof -
  have "length raw div 2 \<noteq> 0" using assms by (cases raw) auto
  moreover have "decoded_diff p raw =
      map (\<lambda>i. if diff_ctrl p = kSub then decoded_h p raw ! i - decoded_l p raw ! i
               else (decoded_h p raw ! i + decoded_l p raw ! i) / 2) [0..<length raw div 2]"
    by (rule nth_equalityI) (simp_all add: decoded_diff_def)
  moreover have "decoded_h p raw \<noteq> []" "decoded_l p raw \<noteq> []"
    unfolding length_0_conv [symmetric] decoded_length using calculation(1) by simp_all
  ultimately show ?thesis
    by (simp add: ChnlDiffCalcItem_Run_def CalcCANDIFFData_def calc_simps both_channels_def all_channels_def
        ChnlCalcResult_new_def check_def)
qed

subsection \<open>Walking the group\<close>

lemma BuildChnlCalcGroup_ok:
  assumes "allocates fresh" and "map_keys_ok h"
  obtains h1 g a b where "BuildChnlCalcGroup fresh h = Inr (h1, g)" "cg_nodes g = [a, b]" "cg_edges g = [(a, b)]"
    "a \<noteq> b" "map_of h1 a = Some (CalcItem_new ''ChnlCalc'' kCANHKey)"
    "map_of h1 b = Some (CalcItem_new ''DiffCalc'' kCANDIFFKey)" "group_ok (h1, g)" "acyclic (set (cg_edges g))"
proof -
  let ?a = "fresh h" and ?i = "CalcItem_new ''ChnlCalc'' kCANHKey" and ?j = "CalcItem_new ''DiffCalc'' kCANDIFFKey"
  let ?h = "map_put ?a ?i h"
  let ?b = "fresh ?h"
  let ?h1 = "map_put ?b ?j ?h"
  let ?g = "\<lparr>cg_name = ''chnl'', cg_nodes = [?a, ?b], cg_edges = [(?a, ?b)]\<rparr>"
  have keys: "map_keys_ok ?h" "map_keys_ok ?h1" using assms(2) by (simp_all add: map_keys_ok_put)
  have fresh: "map_of ?h ?b = None" "?a \<noteq> 0" "?b \<noteq> 0" using assms(1) unfolding allocates_def by blast+
  have neq: "?a \<noteq> ?b"
  proof
    assume "?a = ?b"
    then have "map_of ?h ?b = Some ?i" using map_of_put [OF assms(2), of ?a ?i] by (simp add: fun_upd_def)
    with fresh(1) show False by simp
  qed
  have at: "map_of ?h1 ?a = Some ?i" "map_of ?h1 ?b = Some ?j"
    using neq by (simp_all add: map_of_put [OF keys(1)] map_of_put [OF assms(2)])
  have "BuildChnlCalcGroup fresh h = Inr (?h1, ?g)"
    using neq at
    by (simp add: BuildChnlCalcGroup_def new_item_def CalcGroup_new_def AddCalcItem_def HasCalcItem_def Let_def
        SetDependKey_def GetCalcItem_def item_at_def SetDepend_def CalcItem_new_def)
  moreover have "group_ok (?h1, ?g)"
    using keys(2) neq fresh(2,3) by (simp add: group_ok_def set_map_put_keys)
  moreover have "acyclic (set (cg_edges ?g))" using neq by (simp add: acyclic_insert) (simp add: acyclic_def)
  ultimately show ?thesis using neq at by (intro that [of ?h1 ?g ?a ?b]) simp_all
qed

fun marks :: "walk_event list \<Rightarrow> (ptr \<times> bool) list" where
  "marks [] = []"
| "marks (Started p # t) = marks t"
| "marks (Marked p b # t) = (p, b) # marks t"

lemma marks_append [simp]: "marks (t @ u) = marks t @ marks u" "marks (map Started ps) = []"
  by (induction t rule: marks.induct) (simp_all, induction ps, simp_all)

lemma run_events_marks:
  "marks t = [] \<Longrightarrow> run_events h t r = Inr (True, r)"
  "marks t = [(p, True)] \<Longrightarrow> run_events h t r = run_events h [Marked p True] r"
  "marks t = [(p, True), (q, True)] \<Longrightarrow> run_events h t r = run_events h [Marked p True, Marked q True] r"
proof -
  have "run_events h t r = run_events h (map (\<lambda>(p, b). Marked p b) (marks t)) r" for r
    by (induction t arbitrary: r rule: marks.induct) (simp_all add: case_prod_beta)
  then show "marks t = [] \<Longrightarrow> run_events h t r = Inr (True, r)"
    "marks t = [(p, True)] \<Longrightarrow> run_events h t r = run_events h [Marked p True] r"
    "marks t = [(p, True), (q, True)] \<Longrightarrow> run_events h t r = run_events h [Marked p True, Marked q True] r"
    by simp_all
qed

text \<open>How far a walk over two items, one after the other, has come.\<close>

definition two_items :: "ptr \<Rightarrow> ptr \<Rightarrow> (ptr \<times> bool) list \<Rightarrow> CalcGroupWalker \<Rightarrow> bool" where
  "two_items a b ms w \<longleftrightarrow>
     ms = [] \<and> cg_nodes (cw_graph w) = [a, b] \<and> cg_edges (cw_graph w) = [(a, b)] \<and> cw_runnable w @ cw_current w = [a] \<or>
     ms = [(a, True)] \<and> cg_nodes (cw_graph w) = [b] \<and> cg_edges (cw_graph w) = [] \<and> cw_runnable w @ cw_current w = [b] \<or>
     ms = [(a, True), (b, True)] \<and> cg_nodes (cw_graph w) = [] \<and> cw_runnable w = [] \<and> cw_current w = []"

lemma Mark_True_fields:
  assumes "Mark p True (h, w) = Inr u"
  shows "cw_current (snd u) = remove1 p (cw_current w)"
    "cw_runnable (snd u) = cw_runnable w @ release_range (before_range p (cg_edges (cw_graph w)))
      (in_range p (cg_edges (cw_graph w))) (behind_range p (cg_edges (cw_graph w)))"
    "cg_nodes (cw_graph (snd u)) = removeAll p (cg_nodes (cw_graph w))"
    "cg_edges (cw_graph (snd u)) =
      before_range p (cg_edges (cw_graph w)) @ behind_range p (cg_edges (cw_graph w))"
  using assms by (auto simp: Mark_def NodeSuccess_def DeleteIsolateNode_def Let_def)

lemma two_items_walk:
  assumes "walk s t u" and "a \<noteq> b" and "\<forall>p. Marked p False \<notin> set t" and "two_items a b [] (snd s)"
  shows "two_items a b (marks t) (snd u)"
  using assms(1,3,4)
proof (induction rule: walk.induct)
  case (walk_one s t h w p w')
  have "two_items a b (marks t) w" using walk_one by simp
  then show ?case using walk_one.hyps(2)
    by (auto simp: two_items_def StartOne_def append_eq_Cons_conv split: list.splits)
next
  case (walk_all s t h w ps w')
  have "two_items a b (marks t) w" using walk_all by simp
  moreover have "ys @ xs = [x] \<longleftrightarrow> xs @ ys = [x]" for xs ys :: "ptr list" and x by (cases xs; cases ys) auto
  moreover have "w' = w\<lparr>cw_runnable := [], cw_current := cw_current w @ cw_runnable w\<rparr>" "ps = cw_runnable w"
    using walk_all.hyps(2) by (auto simp: StartAll_def)
  ultimately show ?case by (simp add: two_items_def) blast
next
  case (walk_mark s t h w p b' u)
  have inv: "two_items a b (marks t) w" and b': "b'" using walk_mark by (auto intro: ccontr)
  note f = Mark_True_fields [OF walk_mark.hyps(3) [unfolded eqTrueI [OF b']]]
  note ranges = before_range_def in_range_def behind_range_def has_incoming_edges_def
  consider "marks t = []" "cw_runnable w = []" "cw_current w = [a]" "cg_nodes (cw_graph w) = [a, b]"
      "cg_edges (cw_graph w) = [(a, b)]"
    | "marks t = [(a, True)]" "cw_runnable w = []" "cw_current w = [b]" "cg_nodes (cw_graph w) = [b]"
      "cg_edges (cw_graph w) = []"
    using inv walk_mark.hyps(2) by (auto simp: two_items_def append_eq_Cons_conv)
  then show ?case
  proof cases
    case 1
    then have "p = a" using walk_mark.hyps(2) by simp
    then show ?thesis using f b' assms(2) by (simp add: two_items_def 1 ranges)
  next
    case 2
    then have "p = b" using walk_mark.hyps(2) by simp
    then show ?thesis using f b' assms(2) by (simp add: two_items_def 2 ranges)
  qed
qed simp

text \<open>C14. The group that is built for the channels can be walked, and whatever way a walk starts its two items, each
  item's \<open>Run\<close> succeeds and returns what the walk takes it to return; once the walk is finished the result has the
  three channels: the two that the bytes of the raw data stand for, and their difference or their mean.  Raw
  data with an odd number of bytes fails an assertion of the first item.\<close>

theorem channels_calculated:
  assumes "allocates fresh" and "map_keys_ok h" and "even (length raw)" and "raw \<noteq> []"
  shows "\<exists>h1 g h0 w0. BuildChnlCalcGroup fresh h = Inr (h1, g) \<and> Walker_new fresh (h1, g) = Inr (h0, w0) \<and>
    (\<forall>t h2 w2. walk (h0, w0) t (h2, w2) \<and> (\<forall>p. Marked p False \<notin> set t) \<longrightarrow>
      (\<exists>r. run_events h0 t (ChnlCalcResult_new raw p diff ty) = Inr (True, r) \<and>
        (Walker_Finish w2 \<longrightarrow> chnl_values kCANHKey r = Some (decoded_h p raw) \<and>
           chnl_values kCANLKey r = Some (decoded_l p raw) \<and>
           chnl_values kCANDIFFKey r = Some (decoded_diff p raw)))) \<and>
    (\<forall>b. ChnlCalcItem_Run kCANHKey kCANLKey (ChnlCalcResult_new (b # raw) p diff ty) = Inl DcheckFailed)"
proof -
  obtain h1 g a b where g: "BuildChnlCalcGroup fresh h = Inr (h1, g)" "cg_nodes g = [a, b]" "cg_edges g = [(a, b)]"
    "a \<noteq> b" "map_of h1 a = Some (CalcItem_new ''ChnlCalc'' kCANHKey)"
    "map_of h1 b = Some (CalcItem_new ''DiffCalc'' kCANDIFFKey)" "group_ok (h1, g)" "acyclic (set (cg_edges g))"
    by (rule BuildChnlCalcGroup_ok [OF assms(1,2)])
  obtain f h0 w0 where n: "Walker_new fresh (h1, g) = Inr (h0, w0)" "walker_ok (h0, w0)" "cw_current w0 = []"
    "inj_on f (set (cg_nodes g))" "cg_nodes (cw_graph w0) = map f (cg_nodes g)"
    "mset (cg_edges (cw_graph w0)) = image_mset (\<lambda>(a, b). (f a, f b)) (mset (cg_edges g))"
    "\<forall>p \<in> set (cg_nodes g). map_of h0 (f p) = map_of h1 p \<and> f p \<notin> fst ` set h1"
    by (rule Walker_new_ok [OF assms(1) g(7,8)])
  have neq: "f a \<noteq> f b" using n(4) g(2,4) by (auto simp: inj_on_def)
  have edges: "cg_edges (cw_graph w0) = [(f a, f b)]" using n(6) g(3) by simp
  have items: "item_at h0 (f a) = Inr (CalcItem_new ''ChnlCalc'' kCANHKey)"
    "item_at h0 (f b) = Inr (CalcItem_new ''DiffCalc'' kCANDIFFKey)"
    using n(7) g(2,5,6) by (simp_all add: item_at_def)
  have "set (cw_runnable w0) = {f a}" "distinct (cw_runnable w0)"
    using walker_okD [OF n(2)] n(3,5) edges g(2) neq by (auto simp: waiting_for_nothing_def)
  then have "cw_runnable w0 = [f a]"
    by (metis distinct.simps(2) empty_iff empty_set insert_iff list.exhaust list.set(2) list.set_intros(1) singletonD)
  then have start: "two_items (f a) (f b) [] (snd (h0, w0))" using n(3,5) edges g(2) by (simp add: two_items_def)
  let ?r = "ChnlCalcResult_new raw p diff ty"
  have runs: "run_item (CalcItem_new ''ChnlCalc'' kCANHKey) ?r = Inr (True, both_channels raw p diff ty)"
    "run_item (CalcItem_new ''DiffCalc'' kCANDIFFKey) (both_channels raw p diff ty) = Inr (True, all_channels raw p diff ty)"
    using assms(3,4)
    by (simp_all add: run_item_def CalcItem_new_def ChnlCalcItem_Run_result ChnlDiffCalcItem_Run_result)
  have vals: "chnl_values kCANHKey (all_channels raw p diff ty) = Some (decoded_h p raw)"
    "chnl_values kCANLKey (all_channels raw p diff ty) = Some (decoded_l p raw)"
    "chnl_values kCANDIFFKey (all_channels raw p diff ty) = Some (decoded_diff p raw)"
    by (simp_all add: chnl_values_def all_channels_def GetData_def data_at_def)
  have "\<exists>r. run_events h0 t ?r = Inr (True, r) \<and>
      (Walker_Finish w2 \<longrightarrow> chnl_values kCANHKey r = Some (decoded_h p raw) \<and>
         chnl_values kCANLKey r = Some (decoded_l p raw) \<and> chnl_values kCANDIFFKey r = Some (decoded_diff p raw))"
    if t: "walk (h0, w0) t (h2, w2)" "\<forall>p. Marked p False \<notin> set t" for t h2 w2
  proof -
    have "two_items (f a) (f b) (marks t) w2" using two_items_walk [OF t(1) neq t(2) start] by simp
    then consider "marks t = []" "\<not> Walker_Finish w2" | "marks t = [(f a, True)]" "\<not> Walker_Finish w2"
      | "marks t = [(f a, True), (f b, True)]"
      unfolding two_items_def Walker_Finish_def by (metis add_is_0 append_Nil length_0_conv not_Cons_self2)
    then show ?thesis
      by cases (use vals in \<open>simp_all add: run_events_marks items runs\<close>)
  qed
  then show ?thesis using g(1) n(1) assms(3) by (intro exI conjI) (auto simp: ChnlCalcItem_Run_result)
qed

lemma channels_calculated_witness:
  "\<exists>h1 g h0 w0 s r. BuildChnlCalcGroup next_free [] = Inr (h1, g) \<and> Walker_new next_free (h1, g) = Inr (h0, w0) \<and>
    walk (h0, w0) [Started 3, Marked 3 True, Started 4, Marked 4 True] s \<and>
    run_events h0 [Started 3, Marked 3 True, Started 4, Marked 4 True]
      (ChnlCalcResult_new [127, 200] default_osc True DT_CS1202) = Inr (True, r) \<and>
    chnl_values kCANLKey r = Some [DecodeRaw 127 (of_int (Volt (range_can_l default_osc))) - offset_can_l default_osc]"
proof -
  let ?i = "CalcItem_new ''ChnlCalc'' 1" and ?j = "CalcItem_new ''DiffCalc'' 3"
  let ?h4 = "[(1, ?i), (2, ?j), (3, ?i), (4, ?j)]"
  let ?w = "\<lambda>ps es r c. \<lparr>cw_graph = \<lparr>cg_name = ''chnl_walker'', cg_nodes = ps, cg_edges = es\<rparr>,
    cw_runnable = r, cw_current = c\<rparr>"
  note defs = before_range_def in_range_def behind_range_def has_incoming_edges_def
  note keys = kCANHKey_def kCANLKey_def kCANDIFFKey_def
  have build: "BuildChnlCalcGroup next_free [] =
      Inr ([(1, ?i), (2, ?j)], \<lparr>cg_name = ''chnl'', cg_nodes = [1, 2], cg_edges = [(1, 2)]\<rparr>)"
    by (simp add: BuildChnlCalcGroup_def new_item_def CalcGroup_new_def AddCalcItem_def HasCalcItem_def Let_def keys
        SetDependKey_def GetCalcItem_def item_at_def SetDepend_def CalcItem_new_def next_free_def)
  have new: "Walker_new next_free ([(1, ?i), (2, ?j)], \<lparr>cg_name = ''chnl'', cg_nodes = [1, 2], cg_edges = [(1, 2)]\<rparr>) =
      Inr (?h4, ?w [3, 4] [(3, 4)] [3] [])"
    by (simp add: Walker_new_def NoCycle_def FreeNode_def defs Clone_def CalcItem_Clone_def
        item_at_def next_free_def mapped_def CalcItem_new_def)
  have w1: "walk (?h4, ?w [3, 4] [(3, 4)] [3] []) ([] @ [Started 3]) (?h4, ?w [3, 4] [(3, 4)] [] [3])"
    by (rule walk_one [OF walk_nil]) (simp add: StartOne_def)
  let ?h3 = "[(1, ?i), (2, ?j), (4, ?j)]"
  have "Mark 3 True (?h4, ?w [3, 4] [(3, 4)] [] [3]) = Inr (?h3, ?w [4] [] [4] [])"
    by (simp add: Mark_def NodeSuccess_def Let_def defs DeleteIsolateNode_def delete_item_def map_erase_def)
  then have w2: "walk (?h4, ?w [3, 4] [(3, 4)] [3] []) (([] @ [Started 3]) @ [Marked 3 True]) (?h3, ?w [4] [] [4] [])"
    by (intro walk_mark [OF w1]) simp
  have w3: "walk (?h4, ?w [3, 4] [(3, 4)] [3] []) ((([] @ [Started 3]) @ [Marked 3 True]) @ [Started 4])
      (?h3, ?w [4] [] [] [4])" by (rule walk_one [OF w2]) (simp add: StartOne_def)
  have "Mark 4 True (?h3, ?w [4] [] [] [4]) = Inr ([(1, ?i), (2, ?j)], ?w [] [] [] [])"
    by (simp add: Mark_def NodeSuccess_def Let_def defs DeleteIsolateNode_def delete_item_def map_erase_def)
  then have w4: "walk (?h4, ?w [3, 4] [(3, 4)] [3] [])
      (((([] @ [Started 3]) @ [Marked 3 True]) @ [Started 4]) @ [Marked 4 True]) ([(1, ?i), (2, ?j)], ?w [] [] [] [])"
    by (intro walk_mark [OF w3]) simp
  let ?t = "[Started 3, Marked 3 True, Started 4, Marked 4 True]"
  let ?r = "ChnlCalcResult_new [127, 200] default_osc True DT_CS1202"
  obtain h1 g h0 w0 where e: "BuildChnlCalcGroup next_free [] = Inr (h1, g)"
    "Walker_new next_free (h1, g) = Inr (h0, w0)"
    and all: "\<forall>t h2 w2. walk (h0, w0) t (h2, w2) \<and> (\<forall>p. Marked p False \<notin> set t) \<longrightarrow>
      (\<exists>r. run_events h0 t ?r = Inr (True, r) \<and> (Walker_Finish w2 \<longrightarrow>
        chnl_values kCANHKey r = Some (decoded_h default_osc [127, 200]) \<and>
        chnl_values kCANLKey r = Some (decoded_l default_osc [127, 200]) \<and>
        chnl_values kCANDIFFKey r = Some (decoded_diff default_osc [127, 200])))"
    using channels_calculated [OF allocates_next_free map_keys_ok_Nil, of "[127, 200]" default_osc True DT_CS1202]
    by auto
  have same: "h0 = ?h4" "w0 = ?w [3, 4] [(3, 4)] [3] []" using e build new by simp_all
  have "walk (h0, w0) ?t ([(1, ?i), (2, ?j)], ?w [] [] [] [])" using w4 by (simp add: same)
  then obtain r where "run_events h0 ?t ?r = Inr (True, r)" "chnl_values kCANLKey r = Some (decoded_l default_osc [127, 200])"
    using all [rule_format, of ?t] by (fastforce simp: Walker_Finish_def)
  then have "run_events ?h4 ?t ?r = Inr (True, r)" "chnl_values kCANLKey r = Some (decoded_l default_osc [127, 200])"
    unfolding same by simp_all
  moreover have "decoded_l default_osc [127, 200] =
      [DecodeRaw 127 (of_int (Volt (range_can_l default_osc))) - offset_can_l default_osc]"
    by (simp add: decoded_l_def)
  ultimately show ?thesis using build new w4 by auto
qed

end
