(* ===== verification/Chnl_Calc_App.thy ===== *)
theory Chnl_Calc_App
  imports Calc_Manager Channel_Calc Bulk_Queue
begin

text \<open>
  \<open>CANScopeChnlCalc\<close> (canscope/app/canscope_chnl_calc.h, canscope_chnl_calc.cc) with its clock \<open>FreqTime\<close>
  (canscope/app/freq_time.h, freq_time.cc): it reads the raw data from the collecter's queue, has it calculated by a
  \<open>ChnlCalcManager\<close>, whose delegate it is, and puts the results into the queues of the channels and of the user
  interface, whose rate it adapts to how fast the user interface reads.

  \<open>Start\<close> and \<open>Stop\<close> post to the run thread, on which everything here happens.  The output for the log is left
  out.  Times are in microseconds.
\<close>

subsection \<open>FreqTime\<close>

record FreqTime =
  ft_freq :: real
  ft_last_notify_time :: "int option"

definition set_freq :: "real \<Rightarrow> FreqTime \<Rightarrow> FreqTime res" where
  "set_freq freq t = DCHECK (freq > 0) (Inr (t\<lparr>ft_freq := freq\<rparr>))"

definition FreqTime_new :: "real \<Rightarrow> FreqTime res" where
  "FreqTime_new freq = set_freq freq \<lparr>ft_freq = 0, ft_last_notify_time = None\<rparr>"

definition ft_delta :: "FreqTime \<Rightarrow> int" where
  "ft_delta t = to_int64 (1.0 / ft_freq t * 1000000)"

definition Hit :: "int \<Rightarrow> FreqTime \<Rightarrow> bool \<times> FreqTime" where
  "Hit now t =
     (case ft_last_notify_time t of
        None \<Rightarrow> (True, t\<lparr>ft_last_notify_time := Some now\<rparr>)
      | Some t0 \<Rightarrow>
          if now \<ge> t0 + ft_delta t then (True, t\<lparr>ft_last_notify_time := Some (t0 + ft_delta t)\<rparr>) else (False, t))"

subsection \<open>CANScopeChnlCalc\<close>

definition kDefaultFreq :: int where "kDefaultFreq = 60"
definition kMaxFreq :: int where "kMaxFreq = 60"
definition kMinFreq :: int where "kMinFreq = 5"
definition kFreqStep :: int where "kFreqStep = 2"
definition kUIQueueMaxSize :: int where "kUIQueueMaxSize = 2"

definition bulk_num :: "'b SequencedBulkQueue \<Rightarrow> int" where
  "bulk_num q = int (length (bq_queue q))"

record 'r CANScopeChnlCalc =
  ca_running :: bool
  ca_chnl_calc :: "'r ChnlCalcManager option"
  ca_chnl_queue :: "'r calc_result option SequencedBulkQueue"
  ca_ui_queue :: "'r calc_result option SequencedBulkQueue"
  ca_raw_data_queue :: "'r SequencedBulkQueue"
  ca_time :: FreqTime

definition CANScopeChnlCalc_new :: "'r SequencedBulkQueue \<Rightarrow> 'r CANScopeChnlCalc res" where
  "CANScopeChnlCalc_new raw_data_queue =
     and_then (FreqTime_new (of_int kDefaultFreq)) (\<lambda>t.
       Inr \<lparr>ca_running = False, ca_chnl_calc = None, ca_chnl_queue = SequencedBulkQueue_new False False,
            ca_ui_queue = SequencedBulkQueue_new True False, ca_raw_data_queue = raw_data_queue, ca_time = t\<rparr>)"

text \<open>The raw data reader of the object.\<close>

definition the_raw_reader :: ptr where "the_raw_reader = 1"

definition StartImpl :: "(items \<Rightarrow> ptr) \<Rightarrow> items \<Rightarrow> 'r CANScopeChnlCalc \<Rightarrow> 'r CANScopeChnlCalc res" where
  "StartImpl fresh h s =
     DCHECK (\<not> ca_running s) (
     and_then (Reader_new the_raw_reader True (ca_raw_data_queue s)) (\<lambda>q.
     and_then (CallbackOnReady the_raw_reader q) (\<lambda>q.
     let m = ChnlCalcManager_new in
     and_then (BuildChnlCalcGroup fresh h) (\<lambda>(h, chnl_calc).
     let m = SetChnlCalc h chnl_calc m in
     and_then (Clone fresh ''ui'' (h, chnl_calc)) (\<lambda>(h, ui_calc).
       Inr (s\<lparr>ca_running := True, ca_raw_data_queue := q, ca_chnl_calc := Some (SetUICalc h ui_calc m)\<rparr>))))))"

definition StopImpl :: "'r CANScopeChnlCalc \<Rightarrow> 'r CANScopeChnlCalc res" where
  "StopImpl s =
     DCHECK (ca_running s) (
     and_then (Reader_destroy the_raw_reader (ca_raw_data_queue s)) (\<lambda>q.
     case ca_chnl_calc s of
       None \<Rightarrow> Inr (s\<lparr>ca_running := False, ca_raw_data_queue := q\<rparr>)
     | Some m \<Rightarrow>
         and_then (Manager_destroy m) (\<lambda>_. Inr (s\<lparr>ca_running := False, ca_raw_data_queue := q, ca_chnl_calc := None\<rparr>))))"

text \<open>The part of \<open>OnRawDataArrive\<close> that reads.\<close>

definition next_raw_data :: "'r SequencedBulkQueue \<Rightarrow> ('r option \<times> 'r SequencedBulkQueue) res" where
  "next_raw_data q =
     and_then (CallbackOnReady the_raw_reader q) (\<lambda>q.
     and_then (GetResult the_raw_reader q) (\<lambda>ret.
     case ret of None \<Rightarrow> Inl DcheckFailed | Some (raw, seq) \<Rightarrow> Inr (raw, q)))"

definition CalcForUI :: "int \<Rightarrow> 'r CANScopeChnlCalc \<Rightarrow> bool \<times> 'r CANScopeChnlCalc" where
  "CalcForUI now s = (let (hit, t) = Hit now (ca_time s) in (hit, s\<lparr>ca_time := t\<rparr>))"

definition change_freq :: "(real \<Rightarrow> real) \<Rightarrow> 'r CANScopeChnlCalc \<Rightarrow> 'r CANScopeChnlCalc res" where
  "change_freq f s = and_then (set_freq (f (ft_freq (ca_time s))) (ca_time s)) (\<lambda>t. Inr (s\<lparr>ca_time := t\<rparr>))"

definition slower :: "real \<Rightarrow> real" where
  "slower freq = (let freq = freq - of_int kFreqStep in if freq < of_int kMinFreq then of_int kMinFreq else freq)"

definition faster :: "real \<Rightarrow> real" where
  "faster freq = (let freq = freq + of_int kFreqStep in if freq > of_int kMaxFreq then of_int kMaxFreq else freq)"

definition Calc_MayNotifyUI :: "'r calc_result option \<Rightarrow> 'r CANScopeChnlCalc \<Rightarrow> 'r CANScopeChnlCalc res" where
  "Calc_MayNotifyUI result s =
     and_then
       (if bulk_num (ca_ui_queue s) > kUIQueueMaxSize then
          and_then (RecycleOne (ca_ui_queue s)) (\<lambda>(_, q). change_freq slower (s\<lparr>ca_ui_queue := q\<rparr>))
        else if bulk_num (ca_ui_queue s) = 0 then change_freq faster s
        else Inr s) (\<lambda>s.
     and_then (PushBulk result (ca_ui_queue s)) (\<lambda>q.
     and_then (PushBulk result (ca_chnl_queue s)) (\<lambda>q'.
       Inr (s\<lparr>ca_ui_queue := q, ca_chnl_queue := q'\<rparr>))))"

text \<open>\<open>RecordResult\<close> asks the result for its size.\<close>

definition Calc_RecordResult :: "'r calc_result option \<Rightarrow> 'r CANScopeChnlCalc \<Rightarrow> 'r CANScopeChnlCalc res" where
  "Calc_RecordResult result s =
     CHECK (result \<noteq> None) (
     and_then (PushBulk result (ca_chnl_queue s)) (\<lambda>q. Inr (s\<lparr>ca_chnl_queue := q\<rparr>)))"

fun delegate_called :: "'r delegate_call \<Rightarrow> 'r CANScopeChnlCalc \<Rightarrow> 'r CANScopeChnlCalc res" where
  "delegate_called (RecordResult r) s = Calc_RecordResult r s"
| "delegate_called (MayNotifyUI r) s = Calc_MayNotifyUI r s"

definition OnRawDataArrive :: "(items \<Rightarrow> ptr) \<Rightarrow> int \<Rightarrow> 'r CANScopeChnlCalc \<Rightarrow> 'r CANScopeChnlCalc res" where
  "OnRawDataArrive fresh now s =
     and_then (next_raw_data (ca_raw_data_queue s)) (\<lambda>(raw, q).
     let s = s\<lparr>ca_raw_data_queue := q\<rparr> in
     case (ca_chnl_calc s, raw) of
       (Some m, Some raw) \<Rightarrow>
         let (for_ui, s') = (if task_pending m then (False, s) else CalcForUI now s) in
         and_then (RawDataCollected fresh raw for_ui m) (\<lambda>m. Inr (s'\<lparr>ca_chnl_calc := Some m\<rparr>))
     | _ \<Rightarrow> Inl Undefined)"

subsection \<open>The length of the queues\<close>

definition shrinks :: "'b SequencedBulkQueue \<Rightarrow> 'b SequencedBulkQueue \<Rightarrow> bool" where
  "shrinks q q' \<longleftrightarrow>
     length (bq_queue q') \<le> length (bq_queue q) \<and> bq_over_write q' = bq_over_write q \<and>
     bq_keep_if_no_reader q' = bq_keep_if_no_reader q"

lemma shrinks_refl [simp]: "shrinks q q"
  by (simp add: shrinks_def)

lemma shrinks_trans: "shrinks a b \<Longrightarrow> shrinks b c \<Longrightarrow> shrinks a c"
  by (simp add: shrinks_def)

lemma shrinks_fields [simp]:
  "shrinks q (q'\<lparr>bq_readers := a\<rparr>) = shrinks q q'" "shrinks q (q'\<lparr>bq_posted := b\<rparr>) = shrinks q q'"
  "shrinks q (q'\<lparr>bq_callback_map := c\<rparr>) = shrinks q q'" "shrinks q (q'\<lparr>bq_count_map := d\<rparr>) = shrinks q q'"
  "shrinks q (q'\<lparr>bq_reader_min := i\<rparr>) = shrinks q q'" "shrinks q (q'\<lparr>bq_reader_max := j\<rparr>) = shrinks q q'"
  "shrinks q (q'\<lparr>bq_quiting := e\<rparr>) = shrinks q q'" "shrinks q (set_reader r x q') = shrinks q q'" "shrinks (set_reader r x q) q' = shrinks q q'"
  "shrinks q (q\<lparr>bq_queue := takeWhile P (bq_queue q) @ tl (dropWhile P (bq_queue q))\<rparr>)"
  by (simp_all add: shrinks_def set_reader_def)
    (metis append_take_drop_id length_append length_tl diff_le_self nat_add_left_cancel_le takeWhile_dropWhile_id)

lemma shrinks_release [simp]: "shrinks q (MayReleaseBuffer q)"
  by (simp add: shrinks_def) (simp add: MayReleaseBuffer_def Let_def length_dropWhile_le)

lemma the_readerE:
  assumes "the_reader r q f = Inr y"
  obtains x where "bq_readers q r = Some x" "f x = Inr y"
  using assms by (auto simp: the_reader_def split: option.splits)

text \<open>
  What reading does: it drops bulks, and moves the readers forward.
\<close>

definition above :: "int \<Rightarrow> 'b SequencedBulkQueue \<Rightarrow> bool" where
  "above m q \<longleftrightarrow> (\<forall>e \<in> set (bq_count_map q). m \<le> snd e)"

definition moves :: "'b SequencedBulkQueue \<Rightarrow> 'b SequencedBulkQueue \<Rightarrow> bool" where
  "moves q q' \<longleftrightarrow>
     shrinks q q' \<and> set (bq_queue q') \<subseteq> set (bq_queue q) \<and> (\<forall>m. above m q \<longrightarrow> above m q')"

lemma moves_shrinks: "moves q q' \<Longrightarrow> shrinks q q'"
  by (simp add: moves_def)

lemma moves_refl [simp]: "moves q q"
  by (simp add: moves_def)

lemma moves_trans: "moves a b \<Longrightarrow> moves b c \<Longrightarrow> moves a c"
  using shrinks_trans by (auto simp: moves_def)

lemma moves_fields [simp]:
  "moves q (q'\<lparr>bq_posted := b\<rparr>) = moves q q'" "moves q (q'\<lparr>bq_callback_map := c\<rparr>) = moves q q'"
  "moves q (set_reader r x q') = moves q q'" "moves (set_reader r x q) q' = moves q q'"
  by (simp_all add: moves_def above_def)

lemma moves_release [simp]: "moves q (MayReleaseBuffer q)"
  using MayReleaseBuffer_subset by (auto simp: moves_def above_def)

lemma map_put_subset: "set (map_put k v xs) \<subseteq> insert (k, v) (set xs)"
  by (induction k v xs rule: map_put.induct) (auto split: if_splits)

lemma UpdateReaderCount_moves:
  assumes "UpdateReaderCount r n q = Inr q1" shows "moves q q1"
proof -
  have "m \<le> snd e" if "e \<in> set (map_put r n (bq_count_map q))" "above m q"
    "map_of (bq_count_map q) r = Some old" "old \<le> n" for m e old
    using that map_put_subset [of r n "bq_count_map q"] map_of_SomeD [OF that(3)] by (fastforce simp: above_def)
  then show ?thesis using assms
    by (auto simp: UpdateReaderCount_def Let_def moves_def above_def split: option.splits if_splits)
qed

lemma GetBulkNoLock_moves: "GetBulkNoLock r c q = Inr (b, q') \<Longrightarrow> moves q q'"
  by (auto simp: GetBulkNoLock_def split: option.splits,
      rule moves_trans [OF _ moves_release], rule UpdateReaderCount_moves)

lemma Reader_GetBulk_moves: "Reader_GetBulk r q = Inr q' \<Longrightarrow> moves q q'"
  unfolding Reader_GetBulk_def
  by (elim the_readerE) (auto split: option.splits, rule GetBulkNoLock_moves)

lemma run_ready_moves:
  assumes "run_ready kind r quit q = Inr q'"
  shows "moves q q'"
proof -
  obtain x where "bq_readers q r = Some x" and x: "run_ready kind r quit q = Inr q'" using assms
    by (auto simp: run_ready_def elim: the_readerE)
  let ?q = "set_reader r (x\<lparr>br_quiting := quit\<rparr>) q"
  obtain q2 where q2: "(if quit then Inr ?q else Reader_GetBulk r ?q) = Inr q2" and q': "moves q2 q'"
    using x \<open>bq_readers q r = Some x\<close>
    by (cases "if quit then Inr ?q else Reader_GetBulk r ?q")
      (auto simp: run_ready_def Let_def the_reader_def split: ready_callback.splits if_splits option.splits)
  have "moves ?q q2" using q2 by (cases quit) (auto, drule Reader_GetBulk_moves, simp)
  then show ?thesis using q' moves_trans by auto
qed

lemma for_each_moves:
  assumes "for_each f xs q = Inr q'" and "\<And>x q q'. f x q = Inr q' \<Longrightarrow> moves q q'"
  shows "moves q q'"
  using assms(1)
proof (induction xs arbitrary: q)
  case (Cons x xs)
  then obtain q1 where "f x q = Inr q1" "for_each f xs q1 = Inr q'" by auto
  then show ?case using Cons.IH assms(2) moves_trans by blast
qed simp

lemma FireCallbackNoLock_moves: "FireCallbackNoLock reach q = Inr q' \<Longrightarrow> moves q q'"
  unfolding FireCallbackNoLock_def
  by (auto simp: fire_one_def elim!: for_each_moves split: if_splits, (rule run_ready_moves, assumption)+)

lemmas GetBulkNoLock_shrinks = moves_shrinks [OF GetBulkNoLock_moves]
lemmas Reader_GetBulk_shrinks = moves_shrinks [OF Reader_GetBulk_moves]
lemmas FireCallbackNoLock_shrinks = moves_shrinks [OF FireCallbackNoLock_moves]

text \<open>Only pushing makes a queue longer, by one.\<close>

lemma PushBulk_moves:
  assumes "PushBulk b q = Inr q'"
  obtains q2 where "moves (q\<lparr>bq_queue := bq_queue q @ [\<lparr>bp_bulk = b, bp_count = CountNoLock q + 1\<rparr>],
      bq_count := bq_count q + 1\<rparr>) q2" "q' = MayReleaseBuffer q2"
proof -
  let ?q1 = "q\<lparr>bq_queue := bq_queue q @ [\<lparr>bp_bulk = b, bp_count = CountNoLock q + 1\<rparr>], bq_count := bq_count q + 1\<rparr>"
  obtain q2 where q2: "FireCallbackNoLock (CountNoLock ?q1) ?q1 = Inr q2" "q' = MayReleaseBuffer q2"
    using assms unfolding PushBulk_def Let_def by auto
  show thesis by (rule that [OF FireCallbackNoLock_moves [OF q2(1)] q2(2)])
qed

lemma PushBulk_length:
  assumes "PushBulk b q = Inr q'"
  shows "length (bq_queue q') \<le> Suc (length (bq_queue q))" "bq_over_write q' = bq_over_write q"
    "bq_keep_if_no_reader q' = bq_keep_if_no_reader q"
proof -
  obtain q2 where "moves (q\<lparr>bq_queue := bq_queue q @ [\<lparr>bp_bulk = b, bp_count = CountNoLock q + 1\<rparr>],
      bq_count := bq_count q + 1\<rparr>) q2" "q' = MayReleaseBuffer q2"
    using assms by (rule PushBulk_moves)
  then have "shrinks (q\<lparr>bq_queue := bq_queue q @ [\<lparr>bp_bulk = b, bp_count = CountNoLock q + 1\<rparr>],
      bq_count := bq_count q + 1\<rparr>) q'" using moves_shrinks shrinks_trans shrinks_release by blast
  then show "length (bq_queue q') \<le> Suc (length (bq_queue q))" "bq_over_write q' = bq_over_write q"
    "bq_keep_if_no_reader q' = bq_keep_if_no_reader q" by (simp_all add: shrinks_def)
qed

text \<open>When nothing can be recycled, every bulk has been read, and the next push drops them all.\<close>

lemma RecycleOne_nothing:
  assumes "RecycleOne q = Inr (False, q')"
  shows "q' = q \<and> (bq_count_map q \<noteq> [] \<longrightarrow> (\<forall>p \<in> set (bq_queue q). bp_count p \<le> bq_reader_min q))"
proof -
  have "q' = q" using assms by (auto simp: RecycleOne_def Let_def split: if_splits)
  moreover have "bp_count p \<le> bq_reader_min q" if "bq_count_map q \<noteq> []" "p \<in> set (bq_queue q)" for p
    using assms that by (force simp: RecycleOne_def Let_def not_less split: if_splits)
  ultimately show ?thesis by simp
qed

lemma RecycleOne_shorter: "RecycleOne q = Inr (True, q') \<Longrightarrow> length (bq_queue q) = Suc (length (bq_queue q'))"
proof -
  have *: "length (xs :: 'c list) = Suc (length (takeWhile (\<lambda>p. \<not> P p) xs @ tl (dropWhile (\<lambda>p. \<not> P p) xs)))"
    if "\<exists>p \<in> set xs. P p" for xs P
  proof -
    have "dropWhile (\<lambda>p. \<not> P p) xs \<noteq> []" using that by (simp add: dropWhile_eq_Nil_conv)
    moreover have "length xs = length (takeWhile (\<lambda>p. \<not> P p) xs) + length (dropWhile (\<lambda>p. \<not> P p) xs)"
      by (metis length_append takeWhile_dropWhile_id)
    ultimately show ?thesis by (cases "dropWhile (\<lambda>p. \<not> P p) xs") simp_all
  qed
  show "RecycleOne q = Inr (True, q') \<Longrightarrow> length (bq_queue q) = Suc (length (bq_queue q'))"
    by (auto simp: RecycleOne_def Let_def dest!: * split: if_splits)
qed

lemma PushBulk_all_read:
  assumes "PushBulk b q = Inr q'" and inv: "bulk_inv q" "bulk_inv q'" and "\<not> bq_keep_if_no_reader q"
    and read: "bq_count_map q \<noteq> [] \<longrightarrow> (\<forall>p \<in> set (bq_queue q). bp_count p \<le> bq_reader_min q)"
  shows "length (bq_queue q') \<le> 1"
proof -
  let ?q1 = "q\<lparr>bq_queue := bq_queue q @ [\<lparr>bp_bulk = b, bp_count = CountNoLock q + 1\<rparr>], bq_count := bq_count q + 1\<rparr>"
  obtain q2 where q2: "moves ?q1 q2" "q' = MayReleaseBuffer q2" using assms(1) by (rule PushBulk_moves)
  show ?thesis
  proof (cases "bq_count_map q' = []")
    case True
    have "\<not> bq_keep_if_no_reader q2" using q2(2) assms(4) PushBulk_length(3) [OF assms(1)] by simp
    moreover have "bq_count_map q2 = []" using True q2(2) by simp
    ultimately have "bq_queue q' = []" by (simp add: q2(2) MayReleaseBuffer_def Let_def dropWhile_eq_Nil_conv)
    then show ?thesis by simp
  next
    case False
    have ok: "readers_ok q" "queue_ok q'" "readers_ok q'" using inv by (simp_all add: bulk_inv_def)
    have ne: "bq_count_map q \<noteq> []"
    proof
      assume "bq_count_map q = []"
      then have "above m ?q1" for m by (simp add: above_def)
      then have "above m q2" for m using q2(1) by (simp add: moves_def)
      then have "\<forall>m. \<forall>e \<in> set (bq_count_map q'). m \<le> snd e" using q2(2) by (simp add: above_def)
      then show False using False
        by (cases "bq_count_map q'") (auto, metis gt_ex linorder_not_less)
    qed
    have "above (bq_reader_min q) ?q1" using readers_ok_min(1) [OF ok(1)] by (simp add: above_def)
    then have "\<forall>e \<in> set (bq_count_map q'). bq_reader_min q \<le> snd e" using q2 by (simp add: moves_def above_def)
    moreover have "bq_reader_min q' \<in> snd ` set (bq_count_map q')" using ok(3) False
      by (auto simp: readers_ok_def intro!: Min_in)
    ultimately have mono: "bq_reader_min q \<le> bq_reader_min q'" by auto
    have "bq_queue q' = bq_queue (MayReleaseBuffer q')"
      by (simp add: q2(2)) (simp add: MayReleaseBuffer_def Let_def dropWhile_idem)
    then have "bq_queue q' = filter (\<lambda>p. bq_reader_min q' < bp_count p) (bq_queue q')"
      using MayReleaseBuffer_queue [OF ok(2)] False by simp
    then have "bq_reader_min q' < bp_count p" if "p \<in> set (bq_queue q')" for p
      using that by (metis filter_id_conv)
    moreover have "set (bq_queue q') \<subseteq> insert \<lparr>bp_bulk = b, bp_count = CountNoLock q + 1\<rparr> (set (bq_queue q))"
      using q2 MayReleaseBuffer_subset [of q2] by (auto simp: moves_def)
    ultimately have "bp_count ` set (bq_queue q') \<subseteq> {CountNoLock q + 1}"
      using read ne mono by fastforce
    moreover have "distinct (map bp_count (bq_queue q'))" using ok(2) by (simp add: queue_ok_def strict_sorted_iff)
    ultimately show ?thesis
      using card_mono [of "{CountNoLock q + 1}" "bp_count ` set (bq_queue q')"] distinct_card [of "map bp_count (bq_queue q')"]
      by simp
  qed
qed

lemma CheckReady_shrinks: "CheckReady r c q = Inr (b, q') \<Longrightarrow> shrinks q q'"
  by (auto simp: CheckReady_def dest: Reader_GetBulk_shrinks split: if_splits)

lemma SetReadyCallback_shrinks: "SetReadyCallback r kind c q = Inr q' \<Longrightarrow> shrinks q q'"
proof -
  assume "SetReadyCallback r kind c q = Inr q'"
  then obtain q1 where "insert_callback r kind c q = Inr q1" "MayFireCallback q1 = Inr q'" by (auto simp: SetReadyCallback_def)
  moreover from this have "shrinks q q1" "shrinks q1 q'"
    by (auto simp: insert_callback_def MayFireCallback_def dest: FireCallbackNoLock_shrinks split: if_splits)
  ultimately show "shrinks q q'" using shrinks_trans by blast
qed

lemma Reader_new_shrinks: "Reader_new r b q = Inr q' \<Longrightarrow> shrinks q q'"
  by (auto simp: Reader_new_def RegisterReader_def Let_def)

lemma Reader_destroy_shrinks: "Reader_destroy r q = Inr q' \<Longrightarrow> shrinks q q'"
  by (auto simp: Reader_destroy_def UnRegisterReader_def CancelCallback_def Let_def split: option.splits list.splits)

fun is_push :: "'b bq_op \<Rightarrow> bool" where
  "is_push (Push b) \<longleftrightarrow> True"
| "is_push a \<longleftrightarrow> False"

lemma Recycle_drops: "RecycleOne q = Inr (b, q') \<Longrightarrow> shrinks q q'"
  by (auto simp: RecycleOne_def Let_def split: if_splits)

lemma CancelCallback_shrinks: "CancelCallback r q = (b, q') \<Longrightarrow> shrinks q q'"
  by (auto simp: CancelCallback_def split: option.splits)

lemma waits_shrink:
  "Wait_begin r q = Inr (b, q') \<Longrightarrow> shrinks q q'" "CallbackOnReady r q = Inr q' \<Longrightarrow> shrinks q q'"
  "WaitForReady_end r q = Inr (b, q') \<Longrightarrow> shrinks q q'" "WaitTimeoutForReady_end r q = Inr (b, q') \<Longrightarrow> shrinks q q'"
  "WaitBack r q = Inr (b, q') \<Longrightarrow> shrinks q q'"
proof -
  have trans: "shrinks q q1 \<Longrightarrow> SetReadyCallback r kind c q1 = Inr q2 \<Longrightarrow> shrinks q q2" for q q1 q2 :: "'a SequencedBulkQueue" and kind c
    using SetReadyCallback_shrinks shrinks_trans by blast
  show "Wait_begin r q = Inr (b, q') \<Longrightarrow> shrinks q q'" "CallbackOnReady r q = Inr q' \<Longrightarrow> shrinks q q'"
    by (auto simp: Wait_begin_def CallbackOnReady_def elim!: the_readerE dest!: CheckReady_shrinks intro: trans
        split: if_splits)
  have ends: "shrinks q q'" if "WaitForReady_end r q = Inr (b, q')" for q q' :: "'a SequencedBulkQueue" and b
    using that by (auto simp: WaitForReady_end_def elim!: the_readerE)
  then show "WaitForReady_end r q = Inr (b, q') \<Longrightarrow> shrinks q q'" .
  show "WaitTimeoutForReady_end r q = Inr (b, q') \<Longrightarrow> shrinks q q'"
    by (auto simp: WaitTimeoutForReady_end_def elim!: the_readerE dest!: CancelCallback_shrinks
        split: if_splits prod.splits) (use ends shrinks_trans in blast)+
  show "WaitBack r q = Inr (b, q') \<Longrightarrow> shrinks q q'"
    by (auto simp: WaitBack_def elim!: the_readerE dest!: CancelCallback_shrinks split: if_splits prod.splits)
qed

lemma bq_exec_shrinks: "bq_exec a q = Inr q' \<Longrightarrow> \<not> is_push a \<Longrightarrow> shrinks q q'"
proof (cases a)
  case (GetSame r)
  assume "bq_exec a q = Inr q'"
  then show ?thesis using GetSame
    by (auto simp: GetBulkSameThread_def elim!: the_readerE dest!: GetBulkNoLock_shrinks split: option.splits)
next
  case QuitOp
  assume "bq_exec a q = Inr q'"
  then have "shrinks (q\<lparr>bq_quiting := True\<rparr>) q'"
    using QuitOp by (auto simp: Quit_def MayFireCallback_def dest: FireCallbackNoLock_shrinks split: if_splits)
  then show ?thesis by (simp add: shrinks_def)
next
  case (SkipOp r n)
  assume "bq_exec a q = Inr q'"
  then show ?thesis using SkipOp by (auto simp: Skip_def elim!: the_readerE)
qed (auto dest: waits_shrink Recycle_drops Reader_new_shrinks Reader_destroy_shrinks)

subsection \<open>The queue of the user interface is bounded\<close>

text \<open>
  The states of the object, whose results come from its manager, while clients read the two queues.
\<close>

inductive ui_reach :: "'r CANScopeChnlCalc \<Rightarrow> bool" where
  made: "CANScopeChnlCalc_new q = Inr s \<Longrightarrow> ui_reach s"
| called: "ui_reach s \<Longrightarrow> delegate_called c s = Inr s' \<Longrightarrow> ui_reach s'"
| ui_client: "ui_reach s \<Longrightarrow> bq_allowed a (ca_ui_queue s) \<Longrightarrow> \<not> is_push a \<Longrightarrow> bq_exec a (ca_ui_queue s) = Inr q \<Longrightarrow>
    ui_reach (s\<lparr>ca_ui_queue := q\<rparr>)"
| chnl_client: "ui_reach s \<Longrightarrow> bq_allowed a (ca_chnl_queue s) \<Longrightarrow> \<not> is_push a \<Longrightarrow>
    bq_exec a (ca_chnl_queue s) = Inr q \<Longrightarrow> ui_reach (s\<lparr>ca_chnl_queue := q\<rparr>)"

definition queue_good :: "'b SequencedBulkQueue \<Rightarrow> bool" where
  "queue_good q \<longleftrightarrow> bulk_inv q \<and> none_missed q"

definition freq_ok :: "real \<Rightarrow> bool" where
  "freq_ok f \<longleftrightarrow> of_int kMinFreq \<le> f \<and> f \<le> of_int kMaxFreq"

definition ui_inv :: "'r CANScopeChnlCalc \<Rightarrow> bool" where
  "ui_inv s \<longleftrightarrow> queue_good (ca_ui_queue s) \<and> queue_good (ca_chnl_queue s) \<and> freq_ok (ft_freq (ca_time s)) \<and>
     bq_over_write (ca_ui_queue s) \<and> \<not> bq_keep_if_no_reader (ca_ui_queue s) \<and>
     bulk_num (ca_ui_queue s) \<le> kUIQueueMaxSize + 1"

lemmas freq_defs = kDefaultFreq_def kMaxFreq_def kMinFreq_def kFreqStep_def kUIQueueMaxSize_def

lemma queue_good_push:
  assumes "queue_good q" obtains q' where "PushBulk b q = Inr q'" "queue_good q'"
  using PushBulk_ok [of q b] assms by (auto simp: queue_good_def)

lemma freq_changes: "freq_ok f \<Longrightarrow> freq_ok (slower f) \<and> freq_ok (faster f)"
  by (auto simp: slower_def faster_def freq_ok_def freq_defs Let_def)

lemma change_freq_ok:
  assumes "freq_ok (ft_freq (ca_time s))" and "freq_ok (f (ft_freq (ca_time s)))"
  obtains s' where "change_freq f s = Inr s'" "freq_ok (ft_freq (ca_time s'))" "ca_ui_queue s' = ca_ui_queue s"
    "ca_chnl_queue s' = ca_chnl_queue s"
  using assms by (auto simp: change_freq_def set_freq_def freq_ok_def freq_defs)

text \<open>The part of \<open>MayNotifyUI\<close> before it pushes: it makes room, or leaves only bulks that everybody has read.\<close>

lemma room_for_one:
  assumes "ui_inv s"
  obtains s' where
    "(if bulk_num (ca_ui_queue s) > kUIQueueMaxSize then
        and_then (RecycleOne (ca_ui_queue s)) (\<lambda>(_, q). change_freq slower (s\<lparr>ca_ui_queue := q\<rparr>))
      else if bulk_num (ca_ui_queue s) = 0 then change_freq faster s else Inr s) = Inr s'"
    "ui_inv s'" "ca_chnl_queue s' = ca_chnl_queue s"
    "bulk_num (ca_ui_queue s') \<le> kUIQueueMaxSize \<or>
     (bq_count_map (ca_ui_queue s') \<noteq> [] \<longrightarrow>
        (\<forall>p \<in> set (bq_queue (ca_ui_queue s')). bp_count p \<le> bq_reader_min (ca_ui_queue s')))"
proof -
  have f: "freq_ok (ft_freq (ca_time s))" using assms by (simp add: ui_inv_def)
  show thesis
  proof (cases "bulk_num (ca_ui_queue s) > kUIQueueMaxSize")
    case True
    obtain found q where q: "RecycleOne (ca_ui_queue s) = Inr (found, q)" "queue_good q"
      using RecycleOne_ok [of "ca_ui_queue s"] assms by (auto simp: ui_inv_def queue_good_def)
    obtain s' where s': "change_freq slower (s\<lparr>ca_ui_queue := q\<rparr>) = Inr s'" "freq_ok (ft_freq (ca_time s'))"
      "ca_ui_queue s' = q" "ca_chnl_queue s' = ca_chnl_queue s"
      using change_freq_ok [of "s\<lparr>ca_ui_queue := q\<rparr>" slower] f freq_changes by auto
    have "shrinks (ca_ui_queue s) q" using Recycle_drops [OF q(1)] .
    then have inv: "ui_inv s'" using s' q(2) assms by (auto simp: ui_inv_def shrinks_def bulk_num_def)
    show thesis
    proof (rule that [OF _ inv s'(4)])
      show "bulk_num (ca_ui_queue s') \<le> kUIQueueMaxSize \<or> (bq_count_map (ca_ui_queue s') \<noteq> [] \<longrightarrow>
          (\<forall>p \<in> set (bq_queue (ca_ui_queue s')). bp_count p \<le> bq_reader_min (ca_ui_queue s')))"
        using RecycleOne_nothing RecycleOne_shorter q(1) s'(3) assms
        by (cases found) (fastforce simp: ui_inv_def bulk_num_def)+
    qed (use True q(1) s'(1) in simp)
  next
    case False
    obtain s' where s': "change_freq faster s = Inr s'" "freq_ok (ft_freq (ca_time s'))"
      "ca_ui_queue s' = ca_ui_queue s" "ca_chnl_queue s' = ca_chnl_queue s"
      using change_freq_ok [of s faster] f freq_changes by auto
    then have "ui_inv s'" using assms by (simp add: ui_inv_def)
    then show thesis using that [of "if bulk_num (ca_ui_queue s) = 0 then s' else s"] False s' assms by auto
  qed
qed

lemma Calc_MayNotifyUI_ok:
  assumes "ui_inv s"
  obtains s' where "Calc_MayNotifyUI r s = Inr s'" "ui_inv s'"
proof -
  obtain s1 where s1: "(if bulk_num (ca_ui_queue s) > kUIQueueMaxSize then
        and_then (RecycleOne (ca_ui_queue s)) (\<lambda>(_, q). change_freq slower (s\<lparr>ca_ui_queue := q\<rparr>))
      else if bulk_num (ca_ui_queue s) = 0 then change_freq faster s else Inr s) = Inr s1" "ui_inv s1"
    and room: "bulk_num (ca_ui_queue s1) \<le> kUIQueueMaxSize \<or> (bq_count_map (ca_ui_queue s1) \<noteq> [] \<longrightarrow>
      (\<forall>p \<in> set (bq_queue (ca_ui_queue s1)). bp_count p \<le> bq_reader_min (ca_ui_queue s1)))"
    using room_for_one [OF assms] by blast
  have good: "queue_good (ca_ui_queue s1)" "queue_good (ca_chnl_queue s1)" "\<not> bq_keep_if_no_reader (ca_ui_queue s1)"
    using s1(2) by (simp_all add: ui_inv_def)
  obtain q where q: "PushBulk r (ca_ui_queue s1) = Inr q" "queue_good q" using good(1) by (rule queue_good_push)
  obtain q' where q': "PushBulk r (ca_chnl_queue s1) = Inr q'" "queue_good q'" using good(2) by (rule queue_good_push)
  have "length (bq_queue q) \<le> 1" if "\<not> bulk_num (ca_ui_queue s1) \<le> kUIQueueMaxSize"
    using PushBulk_all_read [OF q(1) _ _ good(3)] good(1) q(2) room that by (auto simp: queue_good_def)
  then have "bulk_num q \<le> kUIQueueMaxSize + 1"
    using PushBulk_length(1) [OF q(1)]
    by (cases "bulk_num (ca_ui_queue s1) \<le> kUIQueueMaxSize") (auto simp: bulk_num_def freq_defs)
  then have "ui_inv (s1\<lparr>ca_ui_queue := q, ca_chnl_queue := q'\<rparr>)"
    using s1(2) q q' PushBulk_length [OF q(1)] by (simp add: ui_inv_def)
  moreover have "Calc_MayNotifyUI r s = Inr (s1\<lparr>ca_ui_queue := q, ca_chnl_queue := q'\<rparr>)"
    using s1(1) q(1) q'(1) by (simp add: Calc_MayNotifyUI_def)
  ultimately show thesis by (rule that [rotated])
qed

lemma ui_inv_client:
  assumes "queue_good q" "bq_allowed a q" "\<not> is_push a" "bq_exec a q = Inr q'"
  shows "queue_good q'" "shrinks q q'"
  using bq_exec_ok [of q a] bq_exec_shrinks assms by (auto simp: queue_good_def)

lemma ui_reach_inv: "ui_reach s \<Longrightarrow> ui_inv s"
proof (induction rule: ui_reach.induct)
  case (made q s)
  then show ?case using bq_init_ok
    by (auto simp: CANScopeChnlCalc_new_def FreqTime_new_def set_freq_def ui_inv_def queue_good_def freq_ok_def
        freq_defs bulk_num_def SequencedBulkQueue_new_def)
next
  case (called s c s')
  show ?case
  proof (cases c)
    case (MayNotifyUI r)
    then show ?thesis using Calc_MayNotifyUI_ok [OF called.IH, of r] called.hyps by auto
  next
    case (RecordResult r)
    have good: "queue_good (ca_chnl_queue s)" using called.IH by (simp add: ui_inv_def)
    obtain q where "PushBulk r (ca_chnl_queue s) = Inr q" "queue_good q" using good by (rule queue_good_push)
    then have "queue_good q" "s' = s\<lparr>ca_chnl_queue := q\<rparr>" using called.hyps(2) RecordResult
      by (auto simp: Calc_RecordResult_def split: if_splits)
    then show ?thesis using called.IH by (simp add: ui_inv_def)
  qed
next
  case (ui_client s a q)
  then show ?case using ui_inv_client [of "ca_ui_queue s" a q] by (auto simp: ui_inv_def shrinks_def bulk_num_def)
next
  case (chnl_client s a q)
  then show ?case using ui_inv_client [of "ca_chnl_queue s" a q] by (auto simp: ui_inv_def)
qed


subsection \<open>A newer bulk hides an older one\<close>

lemma fire_none:
  "\<forall>cb \<in> set cbs. \<not> snd (snd cb) \<le> reach \<Longrightarrow> for_each (fire_one reach) cbs q = Inr q"
  by (induction cbs) (auto simp: fire_one_def)

lemma SetReadyCallback_waits:
  assumes "none_missed q" and "\<not> bq_quiting q" and "map_of (bq_callback_map q) r = None"
    and "map_keys_ok (bq_callback_map q)" and "\<forall>p \<in> set (bq_queue q). bp_count p < c"
  shows "SetReadyCallback r kind c q = Inr (q\<lparr>bq_callback_map := map_put r (kind, c) (bq_callback_map q)\<rparr>)"
proof -
  let ?q = "q\<lparr>bq_callback_map := map_put r (kind, c) (bq_callback_map q)\<rparr>"
  have "\<not> snd (snd cb) \<le> bp_count (last (bq_queue q))" if "bq_queue q \<noteq> []" "cb \<in> set (bq_callback_map ?q)" for cb
  proof -
    have "cb = (r, kind, c) \<or> cb \<in> set (bq_callback_map q)" using that(2) map_put_subset [of r "(kind, c)" "bq_callback_map q"] by auto
    moreover have "bp_count (last (bq_queue q)) < snd (snd cb)" if "cb \<in> set (bq_callback_map q)"
    proof -
      have "case cb of (r, kind, c) \<Rightarrow> \<forall>p \<in> set (bq_queue q). bp_count p < c"
        using that assms(1,2) by (auto simp: none_missed_def)
      then show ?thesis using last_in_set [OF \<open>bq_queue q \<noteq> []\<close>] by (cases cb) simp
    qed
    moreover have "bp_count (last (bq_queue q)) < c" using last_in_set [OF that(1)] assms(5) by blast
    ultimately show ?thesis by auto
  qed
  then have "MayFireCallback ?q = Inr ?q"
    using assms(2) by (auto simp: MayFireCallback_def FireCallbackNoLock_def intro: fire_none)
  then show ?thesis using assms(3) by (simp add: SetReadyCallback_def insert_callback_def)
qed

text \<open>
  C16. \<open>OnRawDataArrive\<close> asks for the next callback before it takes the raw data it was called for.  When a newer piece
  waits already, that call reads it at once, over the one announced: the older raw data is never calculated, and the
  newer is calculated now and again in the call that is posted for it.
\<close>

theorem raw_data_lost:
  assumes inv: "bulk_inv q" "none_missed q" "\<not> bq_quiting q" and idle: "idle_reader the_raw_reader q"
    and x: "bq_readers q the_raw_reader = Some x" "\<not> br_quiting x" "br_temp_ptr x = Some announced"
    and p: "find (\<lambda>p. br_count x \<le> bp_count p) (bq_queue q) = Some p"
    and newest: "\<forall>p' \<in> set (bq_queue q). bp_count p' \<le> bp_count p"
  shows "\<exists>q1 q2. next_raw_data q = Inr (Some (bp_bulk p), q1) \<and> the_raw_reader \<in> set (bq_posted q1) \<and>
    next_raw_data q1 = Inr (Some (bp_bulk p), q2)"
proof -
  let ?r = the_raw_reader
  obtain v where v: "map_of (bq_count_map q) ?r = Some v" and free: "map_of (bq_callback_map q) ?r = None"
    using idle by (auto simp: idle_reader_def)
  define y where "y = x\<lparr>br_temp_ptr := Some (bp_bulk p), br_temp_count := bp_count p, br_count := bp_count p + 1\<rparr>"
  define q1 where "q1 = (set_reader ?r y (MayReleaseBuffer (read_to ?r (bp_count p) q)))\<lparr>bq_posted := bq_posted q @ [?r]\<rparr>"
  have pin: "p \<in> set (bq_queue q)" "br_count x \<le> bp_count p" using find_SomeD [OF p] by auto
  have ok: "queue_ok q" "map_keys_ok (bq_callback_map q)" using inv(1) by (simp_all add: bulk_inv_def callbacks_ok_def)
  have "bq_queue q \<noteq> []" "br_count x \<le> bp_count (last (bq_queue q))" "br_count x \<le> CountNoLock q"
    using pin queue_ok_last [OF ok(1) pin(1)] ok(1) by (auto simp: queue_ok_def CountNoLock_def)
  then have "CallbackOnReady ?r q = Inr q1"
    using x by (simp add: CallbackOnReady_def CheckReady_def the_reader_def Reader_GetBulk_found [OF inv(1) v x(1) p]
        q1_def y_def)
  moreover have y: "bq_readers q1 ?r = Some y" "\<not> br_quiting y" "br_temp_ptr y = Some (bp_bulk p)"
    using x(2) by (simp_all add: q1_def y_def)
  ultimately have first: "next_raw_data q = Inr (Some (bp_bulk p), q1)"
    by (simp add: next_raw_data_def GetResult_def the_reader_def)
  have sub: "set (bq_queue q1) \<subseteq> set (bq_queue q)" using MayReleaseBuffer_subset by (fastforce simp: q1_def)
  have none: "\<forall>p' \<in> set (bq_queue q1). bp_count p' < br_count y" using newest sub by (fastforce simp: y_def)
  have q1: "none_missed q1" "\<not> bq_quiting q1" "map_of (bq_callback_map q1) ?r = None" "map_keys_ok (bq_callback_map q1)"
    using none_missed_subset [OF inv(2) sub] inv(3) free ok(2) by (simp_all add: q1_def)
  have "\<not> br_count y \<le> bp_count (last (bq_queue q1))" if "bq_queue q1 \<noteq> []"
    using none last_in_set [OF that] by fastforce
  then have "CheckReady ?r (br_count y) q1 = Inr (False, q1)" by (auto simp: CheckReady_def)
  then have "CallbackOnReady ?r q1 = Inr (q1\<lparr>bq_callback_map := map_put ?r (OnBufferReady, br_count y) (bq_callback_map q1)\<rparr>)"
    using y SetReadyCallback_waits [OF q1 none] by (simp add: CallbackOnReady_def the_reader_def)
  then have "next_raw_data q1 = Inr (Some (bp_bulk p),
      q1\<lparr>bq_callback_map := map_put ?r (OnBufferReady, br_count y) (bq_callback_map q1)\<rparr>)"
    using y by (simp add: next_raw_data_def GetResult_def the_reader_def)
  with first show ?thesis by (auto simp: q1_def)
qed

definition raw_demo :: "nat SequencedBulkQueue res" where
  "raw_demo = for_each bq_exec [NewReader the_raw_reader True, AsyncWait the_raw_reader, Push 11, Push 22]
     (SequencedBulkQueue_new True False)"

definition raw_demo_queue :: "nat SequencedBulkQueue" where
  "raw_demo_queue = (case raw_demo of Inr q \<Rightarrow> q | Inl _ \<Rightarrow> SequencedBulkQueue_new True False)"

lemma raw_demo_eq:
  "bq_callback_map raw_demo_queue = []" "\<not> bq_quiting raw_demo_queue" "bq_count_map raw_demo_queue = [(1, 0)]"
  "bq_queue raw_demo_queue = [\<lparr>bp_bulk = 22, bp_count = 1\<rparr>]" "bq_posted raw_demo_queue = [1]"
  "bq_readers raw_demo_queue the_raw_reader = Some \<lparr>br_count = 1, br_event = False, br_quiting = False,
     br_have_data = True, br_temp_ptr = Some 11, br_temp_count = 0\<rparr>" "bq_count raw_demo_queue = 2"
    "bq_reader_min raw_demo_queue = 0" "bq_reader_max raw_demo_queue = 0"
  by (simp_all add: raw_demo_queue_def raw_demo_def bq_eval fire_one_def run_ready_def Reader_GetBulk_def
      CallbackOnReady_def map_erase_def Let_def the_raw_reader_def)

lemma raw_demo_ok: "bulk_inv raw_demo_queue \<and> none_missed raw_demo_queue"
  by (simp add: bulk_inv_def queue_ok_def readers_ok_def callbacks_ok_def none_missed_def raw_demo_eq
      raw_demo_eq(6) [unfolded the_raw_reader_def One_nat_def])

theorem raw_data_lost_witness:
  "\<exists>q1 q2. next_raw_data raw_demo_queue = Inr (Some 22, q1) \<and> the_raw_reader \<in> set (bq_posted q1) \<and>
     next_raw_data q1 = Inr (Some 22, q2)"
  using raw_data_lost [OF _ _ raw_demo_eq(2) _ raw_demo_eq(6), of 11 "\<lparr>bp_bulk = 22, bp_count = 1\<rparr>"] raw_demo_ok raw_demo_eq
  by (simp add: idle_reader_def the_raw_reader_def)

definition ui_demo :: "nat CANScopeChnlCalc res" where
  "ui_demo =
     and_then (CANScopeChnlCalc_new (SequencedBulkQueue_new True False)) (\<lambda>s.
     and_then (bq_exec (NewReader 7 True) (ca_ui_queue s)) (\<lambda>q.
       for_each delegate_called (replicate 4 (MayNotifyUI None)) (s\<lparr>ca_ui_queue := q\<rparr>)))"

lemma ui_reach_calls: "for_each delegate_called cs s = Inr s' \<Longrightarrow> ui_reach s \<Longrightarrow> ui_reach s'"
proof (induction cs arbitrary: s)
  case (Cons c cs)
  then show ?case using ui_reach.called by auto
qed simp

lemma ui_demo_eq: "\<exists>s. ui_demo = Inr s \<and> bulk_num (ca_ui_queue s) = 3 \<and> ft_freq (ca_time s) = 58"
  by (simp add: ui_demo_def CANScopeChnlCalc_new_def FreqTime_new_def set_freq_def freq_defs numeral_eq_Suc
      Calc_MayNotifyUI_def change_freq_def slower_def faster_def RecycleOne_def bulk_num_def bq_eval Let_def)


end
